(* ===== verification/Prelude.thy ===== *)
theory Prelude
  imports Main "HOL-Library.Word" "HOL-Library.Signed_Division"
begin

text \<open>
  Shared vocabulary of the development: names for the machine integers of
  \<^verbatim>\<open>sources/src/include/sysdeps.h\<close>, generic facts on words, lists and bits that
  several components use, and the interfaces (locales) that the components instantiate:
  a device that keeps an invariant under every call of its interface, a device whose calls
  may fail with an out-of-bounds access, and a device with an observation no call changes.
\<close>

unbundle bit_operations_syntax

section \<open>Machine integers\<close>

type_synonym u8 = "8 word"
type_synonym u16 = "16 word"
type_synonym u32 = "32 word"
type_synonym u64 = "64 word"

text \<open>
  Rules for a component's own operations (\<open>dev_simps\<close>), for its invariant
  (\<open>inv_intros\<close>) and for its bit arithmetic (\<open>bit_arith\<close>) are collected here.
\<close>

named_theorems dev_simps
named_theorems inv_intros
named_theorems bit_arith

section \<open>Generic facts\<close>

lemma of_bool_cond: "of_bool b = (if b then 1 else 0)"
  by simp

lemma bit_word_beyond: "LENGTH('a) \<le> n \<Longrightarrow> \<not> bit (w :: 'a::len word) n"
  using bit_imp_le_length linorder_not_less by blast

lemma set_list_update_subset: "set xs \<subseteq> A \<Longrightarrow> x \<in> A \<Longrightarrow> set (xs[i := x]) \<subseteq> A"
  by (meson insert_subset order_trans set_update_subset_insert)

lemma unat_and_mask_less: "unat (w AND mask n :: 'a::len word) < 2 ^ n"
  by (simp add: unsigned_take_bit_eq flip: take_bit_eq_mask)

text \<open>
  Serial devices shift a word in or out most significant bit first: \<open>msb_bits n w\<close> are the
  low \<open>n\<close> bits of \<open>w\<close> in that order.
\<close>

definition msb_bits :: "nat \<Rightarrow> 'a::len word \<Rightarrow> bool list" where
  "msb_bits n w = map (bit w) (rev [0..<n])"

lemma msb_bits_0 [simp]: "msb_bits 0 w = []"
  by (simp add: msb_bits_def)

lemma msb_bits_Suc [simp]: "msb_bits (Suc n) w = bit w n # msb_bits n w"
  by (simp add: msb_bits_def)

lemma length_msb_bits [simp]: "length (msb_bits n w) = n"
  by (simp add: msb_bits_def)

lemma msb_bits_alt: "map (\<lambda>i. bit w (n - Suc i)) [0..<n] = msb_bits n w"
  by (auto simp: msb_bits_def rev_nth intro!: nth_equalityI)

lemma shift_in_drop [bit_arith]:
  "push_bit 1 (drop_bit (Suc m) w) OR of_bool (bit w m) = drop_bit m (w :: 'a::len word)"
proof (rule bit_word_eqI)
  fix n assume "n < LENGTH('a)"
  then show "bit (push_bit 1 (drop_bit (Suc m) w) OR of_bool (bit w m)) n = bit (drop_bit m w) n"
    by (cases n) (auto simp: bit_simps simp del: push_bit_Suc)
qed

lemma push_bit_plus_bit [bit_arith]:
  "push_bit 1 w + of_bool b = push_bit 1 w OR of_bool b" for w :: "'a::len word"
  by (rule disjunctive_add) (auto simp: bit_simps simp del: push_bit_Suc)

lemma unat_drop_bit_div [bit_arith]: "unat (drop_bit n w) = unat w div 2 ^ n"
  for w :: "'a::len word"
  unfolding unat_drop_bit_eq by (simp only: drop_bit_eq_div)

lemma drop_bit_eq_0_less: "unat w < 2 ^ n \<Longrightarrow> drop_bit n w = 0" for w :: "'a::len word"
  using unat_drop_bit_div [of n w] by (simp add: unat_eq_0)

lemma word_eq_of_nat: "unat w = k \<Longrightarrow> w = of_nat k" for w :: "'a::len word"
  by auto

lemma ucast_8_16_8 [simp]: "ucast (ucast (w :: u8) :: u16) = w"
  by (rule bit_word_eqI) (auto simp: bit_simps)

lemma unat_ucast_8_16 [simp]: "unat (ucast (w :: u8) :: u16) = unat w"
  by (simp add: unsigned_ucast_eq take_bit_nat_eq_self order.strict_trans [OF unsigned_less])

lemma unat_ucast_16_8: "unat (ucast (w :: u16) :: u8) = unat w mod 256"
  by (simp add: unsigned_ucast_eq take_bit_eq_mod)

lemma sint_neg_iff_bit: "sint (w :: 'a::len word) < 0 \<longleftrightarrow> bit w (LENGTH('a) - 1)"
  using bit_last_iff [of w] by simp

lemma bit_top_iff: "bit (w :: 'a::len word) (LENGTH('a) - 1) \<longleftrightarrow> 2 ^ (LENGTH('a) - 1) \<le> unat w"
proof -
  let ?k = "LENGTH('a) - 1"
  have lt: "unat w < 2 ^ LENGTH('a)" by simp
  then have lt: "unat w < 2 * 2 ^ ?k" by (metis One_nat_def Suc_pred len_gt_0 power_Suc)
  have "bit w ?k \<longleftrightarrow> odd (unat w div 2 ^ ?k)"
    using bit_iff_odd [of "unat w" ?k] by (simp add: bit_unsigned_iff)
  also have "\<dots> \<longleftrightarrow> 2 ^ ?k \<le> unat w"
  proof (cases "2 ^ ?k \<le> unat w")
    case True
    then have "unat w div 2 ^ ?k = 1" using lt by (intro div_nat_eqI) simp_all
    then show ?thesis using True by simp
  qed simp
  finally show ?thesis .
qed

lemma sint_neg_iff: "sint (w :: 'a::len word) < 0 \<longleftrightarrow> 2 ^ (LENGTH('a) - 1) \<le> unat w"
  by (simp only: sint_neg_iff_bit bit_top_iff)

lemma sint_alt: "sint (w :: 'a::len word) = (if 2 ^ (LENGTH('a) - 1) \<le> unat w then uint w - 2 ^ LENGTH('a) else uint w)"
proof -
  let ?k = "LENGTH('a) - 1"
  have L: "Suc ?k = LENGTH('a)" using len_gt_0 [where 'a = 'a] by (simp only: One_nat_def Suc_pred)
  have "sint w = signed_take_bit ?k (uint w)" by (simp add: sint_uint)
  also have "\<dots> = take_bit (Suc ?k) (uint w) - 2 ^ Suc ?k * of_bool (bit (uint w) ?k)"
    by (rule signed_take_bit_eq_take_bit_minus)
  also have "\<dots> = uint w - 2 ^ LENGTH('a) * of_bool (bit w ?k)"
    unfolding L by (simp add: bit_unsigned_iff take_bit_int_eq_self)
  finally show ?thesis by (simp only: bit_top_iff) simp
qed

lemma uint_uminus_word: "w \<noteq> 0 \<Longrightarrow> uint (- w) = 2 ^ LENGTH('a) - uint (w :: 'a::len word)"
proof -
  assume "w \<noteq> 0"
  then have "0 < uint w" by (metis order_le_less unsigned_greater_eq unsigned_eq_0_iff)
  have "uint (- w) = (- uint w) mod 2 ^ LENGTH('a)" by (simp add: uint_word_ariths)
  also have "\<dots> = (2 ^ LENGTH('a) - uint w) mod 2 ^ LENGTH('a)" using mod_add_self1 [of "2 ^ LENGTH('a)" "- uint w"] by simp
  also have "\<dots> = 2 ^ LENGTH('a) - uint w"
    using \<open>0 < uint w\<close> unsigned_less [of w] by (intro mod_pos_pos_trivial) (simp_all add: less_imp_le)
  finally show ?thesis .
qed

lemma unat_sabs: "uint (if sint w < 0 then - w else w) = \<bar>sint (w :: 'a::len word)\<bar>"
proof (cases "sint w < 0")
  case True
  then have "w \<noteq> 0" by auto
  then show ?thesis using True uint_uminus_word [OF \<open>w \<noteq> 0\<close>] sint_neg_iff [of w] by (simp add: sint_alt abs_if less_imp_le)
next
  case False
  then show ?thesis using sint_neg_iff [of w] by (simp add: sint_alt)
qed

lemma sdiv_nonneg: "0 \<le> a \<Longrightarrow> 0 < b \<Longrightarrow> a sdiv b = a div (b :: int)"
  by (cases "a = 0") (simp_all add: signed_divide_int_def)

lemma smod_nonneg: "0 \<le> a \<Longrightarrow> 0 < b \<Longrightarrow> a smod b = a mod (b :: int)"
  by (cases "a = 0") (simp_all add: signed_modulo_int_def)

section \<open>Backing files\<close>

text \<open>A device saves its memory by block writes at an offset of its file.\<close>

definition overlay :: "u8 list \<Rightarrow> int \<times> u8 list \<Rightarrow> u8 list" where
  "overlay f w = (case w of (off, bs) \<Rightarrow> take (nat off) f @ bs @ drop (nat off + length bs) f)"

lemma overlay_nth:
  assumes "off + length bs \<le> length f" "i < length f"
  shows "overlay f (int off, bs) ! i = (if off \<le> i \<and> i < off + length bs then bs ! (i - off) else f ! i)"
  using assms by (auto simp: overlay_def nth_append)

lemma length_overlay: "off + length bs \<le> length f \<Longrightarrow> length (overlay f (int off, bs)) = length f"
  by (simp add: overlay_def)

text \<open>Writing out a piece of the memory repairs a file that differs from it only there.\<close>

lemma overlay_sync:
  assumes "length f = length m" "off + k \<le> length m"
    "\<And>i. i < length m \<Longrightarrow> \<not> (off \<le> i \<and> i < off + k) \<Longrightarrow> f ! i = m ! i"
  shows "overlay f (int off, take k (drop off m)) = m"
  using assms by (intro nth_equalityI) (auto simp: length_overlay overlay_nth)

section \<open>Sums of exclusive or\<close>

definition xsum :: "(nat \<Rightarrow> 'a::len word) \<Rightarrow> nat \<Rightarrow> 'a word" where
  "xsum f n = fold (\<lambda>k c. c XOR f k) [0..<n] 0"

lemma xsum_0 [simp]: "xsum f 0 = 0" and xsum_Suc [simp]: "xsum f (Suc n) = xsum f n XOR f n"
  by (simp_all add: xsum_def)

lemma xsum_add: "xsum f (n + m) = xsum f n XOR xsum (\<lambda>k. f (n + k)) m"
  by (induction m) (simp_all add: xor.assoc)

lemma xsum_xor: "xsum (\<lambda>k. f k XOR g k) n = xsum f n XOR xsum g n"
  by (induction n) (simp_all add: xor.assoc xor.left_commute)

lemma xsum_cong: "(\<And>k. k < n \<Longrightarrow> f k = g k) \<Longrightarrow> xsum f n = xsum g n"
  by (induction n) simp_all

section \<open>Devices as machines\<close>

text \<open>
  A device is driven by a sequence of calls of its interface. Every component gives a step
  function and an invariant; that any number of calls keeps the invariant is proved once.
\<close>

locale machine =
  fixes step :: "'s \<Rightarrow> 'e \<Rightarrow> 's"
    and inv :: "'s \<Rightarrow> bool"
  assumes step_inv: "inv s \<Longrightarrow> inv (step s e)"
begin

lemma run_inv: "inv s \<Longrightarrow> inv (foldl step s es)"
  by (induction es arbitrary: s) (auto intro: step_inv)

lemma run_inv_every:
  assumes "inv s" and "es = us @ vs"
  shows "inv (foldl step s us)"
  using assms(1) by (rule run_inv)

end

text \<open>A machine with a part of its state that no call changes.\<close>

locale framed_machine = machine step inv
  for step :: "'s \<Rightarrow> 'e \<Rightarrow> 's" and inv :: "'s \<Rightarrow> bool" +
  fixes obs :: "'s \<Rightarrow> 'o"
  assumes step_obs: "inv s \<Longrightarrow> obs (step s e) = obs s"
begin

lemma run_obs: "inv s \<Longrightarrow> obs (foldl step s es) = obs s"
proof (induction es arbitrary: s)
  case (Cons e es)
  from Cons.prems have "inv (step s e)" by (rule step_inv)
  with Cons show ?case by (simp add: step_obs)
qed simp

end

text \<open>
  A device whose call may access memory out of bounds: the step returns \<open>None\<close> then. Under
  the invariant no call does, so no sequence of calls does.
\<close>

fun run_checked :: "('s \<Rightarrow> 'e \<Rightarrow> 's option) \<Rightarrow> 's \<Rightarrow> 'e list \<Rightarrow> 's option" where
  "run_checked step s [] = Some s"
| "run_checked step s (e # es) =
     (case step s e of None \<Rightarrow> None | Some t \<Rightarrow> run_checked step t es)"

lemma run_checked_append:
  "run_checked f s (xs @ ys) = (case run_checked f s xs of None \<Rightarrow> None | Some t \<Rightarrow> run_checked f t ys)"
  by (induction xs arbitrary: s) (simp_all split: option.splits)

locale safe_machine =
  fixes step :: "'s \<Rightarrow> 'e \<Rightarrow> 's option"
    and inv :: "'s \<Rightarrow> bool"
  assumes step_safe: "inv s \<Longrightarrow> \<exists>t. step s e = Some t \<and> inv t"
begin

lemma run_safe: "inv s \<Longrightarrow> \<exists>t. run_checked step s es = Some t \<and> inv t"
proof (induction es arbitrary: s)
  case Nil
  then show ?case by simp
next
  case (Cons e es)
  then obtain t where "step s e = Some t" "inv t"
    using step_safe by blast
  then show ?case using Cons.IH by simp
qed

end

section \<open>Addressable storage\<close>

text \<open>
  A component with cells that are written and read back: the laws of one read after one
  write. That any sequence of writes leaves the last value written to each cell follows.
\<close>

locale storage =
  fixes rd :: "'s \<Rightarrow> 'a \<Rightarrow> 'v"
    and wr :: "'s \<Rightarrow> 'a \<Rightarrow> 'v \<Rightarrow> 's"
    and ok :: "'s \<Rightarrow> bool"
    and cells :: "'a set"
    and vals :: "'v set"
  assumes wr_ok: "ok s \<Longrightarrow> a \<in> cells \<Longrightarrow> v \<in> vals \<Longrightarrow> ok (wr s a v)"
    and rd_same: "ok s \<Longrightarrow> a \<in> cells \<Longrightarrow> v \<in> vals \<Longrightarrow> rd (wr s a v) a = v"
    and rd_other: "ok s \<Longrightarrow> a \<in> cells \<Longrightarrow> v \<in> vals \<Longrightarrow> b \<in> cells \<Longrightarrow> b \<noteq> a \<Longrightarrow> rd (wr s a v) b = rd s b"
begin

lemma run_ok: "ok s \<Longrightarrow> set ws \<subseteq> cells \<times> vals \<Longrightarrow> ok (foldl (\<lambda>s w. wr s (fst w) (snd w)) s ws)"
  by (induction ws arbitrary: s) (auto simp: wr_ok)

lemma last_write:
  assumes "ok s" "set ws \<subseteq> cells \<times> vals" "a \<in> cells"
  shows "rd (foldl (\<lambda>s w. wr s (fst w) (snd w)) s ws) a =
    (case map_of (rev ws) a of None \<Rightarrow> rd s a | Some v \<Rightarrow> v)"
  using assms
proof (induction ws rule: rev_induct)
  case (snoc w ws)
  have "ok (foldl (\<lambda>s w. wr s (fst w) (snd w)) s ws)"
    using snoc.prems by (intro run_ok) auto
  moreover have "fst w \<in> cells" "snd w \<in> vals" using snoc.prems(2) by auto
  ultimately show ?case
    using snoc by (cases "a = fst w") (auto simp: rd_same rd_other)
qed simp

end

end
