(* ===== verification/Memory.thy ===== *)
theory Memory
  imports Prelude "HOL-Library.Monad_Syntax"
begin

text \<open>
  The memory system of \<^verbatim>\<open>sources/src/memory.c\<close>, \<^verbatim>\<open>include/memory.h\<close> and \<^verbatim>\<open>md-generic/maccess.h\<close>: big-endian
  access to host memory, the access functions of a RAM bank (the macros \<^verbatim>\<open>MEMORY_LGET\<close> and on),
  the dispatch of an Amiga address through the table of 64 KB banks (\<^verbatim>\<open>memory_get_long\<close> and on),
  and the mapping of banks into that table with the checks that expansion boards go through.

  Host memory is the list of bytes that the bank owns; an access beyond it is \<open>None\<close>. A bank of
  another kind keeps its function pointers (\<open>fns\<close>), over a device state of any type. JIT and
  direct-mapping bookkeeping (\<^verbatim>\<open>add_shmmaps\<close>, \<^verbatim>\<open>baseaddr[]\<close>) and cacheability flags are left out.

  Shown: words and long words are big-endian sequences of bytes and the bytes of a bank are
  independent cells; direct and indirect access agree; mapping changes exactly the banks it names;
  what the checks of the expansion spaces guarantee and what they miss.
\<close>

section \<open>Host memory\<close>

definition be16 :: "u8 \<Rightarrow> u8 \<Rightarrow> u16" where
  "be16 a b = push_bit 8 (ucast a) OR ucast b"

definition be32 :: "u8 \<Rightarrow> u8 \<Rightarrow> u8 \<Rightarrow> u8 \<Rightarrow> u32" where
  "be32 a b c d = push_bit 24 (ucast a) OR push_bit 16 (ucast b) OR push_bit 8 (ucast c) OR ucast d"

definition do_get_mem_long :: "u8 list \<Rightarrow> nat \<Rightarrow> u32 option" where
  "do_get_mem_long m a = (if a + 3 < length m then Some (be32 (m ! a) (m ! (a + 1)) (m ! (a + 2)) (m ! (a + 3))) else None)"

definition do_get_mem_word :: "u8 list \<Rightarrow> nat \<Rightarrow> u16 option" where
  "do_get_mem_word m a = (if a + 1 < length m then Some (be16 (m ! a) (m ! (a + 1))) else None)"

definition do_get_mem_byte :: "u8 list \<Rightarrow> nat \<Rightarrow> u8 option" where
  "do_get_mem_byte m a = (if a < length m then Some (m ! a) else None)"

definition do_put_mem_long :: "u8 list \<Rightarrow> nat \<Rightarrow> u32 \<Rightarrow> u8 list option" where
  "do_put_mem_long m a v =
     (if a + 3 < length m
      then Some (m[a := ucast (drop_bit 24 v), a + 1 := ucast (drop_bit 16 v), a + 2 := ucast (drop_bit 8 v), a + 3 := ucast v])
      else None)"

definition do_put_mem_word :: "u8 list \<Rightarrow> nat \<Rightarrow> u16 \<Rightarrow> u8 list option" where
  "do_put_mem_word m a v =
     (if a + 1 < length m then Some (m[a := ucast (drop_bit 8 v), a + 1 := ucast v]) else None)"

definition do_put_mem_byte :: "u8 list \<Rightarrow> nat \<Rightarrow> u8 \<Rightarrow> u8 list option" where
  "do_put_mem_byte m a v = (if a < length m then Some (m[a := v]) else None)"

section \<open>Banks\<close>

text \<open>The function pointers of a bank that is not plain RAM.\<close>

record 'd bank_fns =
  f_lget :: "'d \<Rightarrow> u32 \<Rightarrow> u32 \<times> 'd"
  f_wget :: "'d \<Rightarrow> u32 \<Rightarrow> u32 \<times> 'd"
  f_bget :: "'d \<Rightarrow> u32 \<Rightarrow> u32 \<times> 'd"
  f_lput :: "'d \<Rightarrow> u32 \<Rightarrow> u32 \<Rightarrow> 'd"
  f_wput :: "'d \<Rightarrow> u32 \<Rightarrow> u32 \<Rightarrow> 'd"
  f_bput :: "'d \<Rightarrow> u32 \<Rightarrow> u32 \<Rightarrow> 'd"
  f_lgeti :: "'d \<Rightarrow> u32 \<Rightarrow> u32 \<times> 'd"
  f_wgeti :: "'d \<Rightarrow> u32 \<Rightarrow> u32 \<times> 'd"

record 'd addrbank =
  baseaddr :: "u8 list"
  ab_mask :: u32
  startaccessmask :: u32
  allocated_size :: u32
  direct_r :: bool
  direct_w :: bool
  fns :: "'d bank_fns option"

text \<open>The offset of an address in its bank.\<close>

definition bank_offset :: "'d addrbank \<Rightarrow> u32 \<Rightarrow> u32" where
  "bank_offset ab addr = (addr - startaccessmask ab) AND ab_mask ab"

definition ram_lgeti :: "'d addrbank \<Rightarrow> u32 \<Rightarrow> u32 option" where
  "ram_lgeti ab addr = do_get_mem_long (baseaddr ab) (unat (bank_offset ab addr))"

definition ram_wgeti :: "'d addrbank \<Rightarrow> u32 \<Rightarrow> u32 option" where
  "ram_wgeti ab addr = map_option ucast (do_get_mem_word (baseaddr ab) (unat (bank_offset ab addr)))"

definition ram_lget :: "'d addrbank \<Rightarrow> u32 \<Rightarrow> u32 option" where
  "ram_lget ab addr = do_get_mem_long (baseaddr ab) (unat (bank_offset ab addr))"

definition ram_wget :: "'d addrbank \<Rightarrow> u32 \<Rightarrow> u32 option" where
  "ram_wget ab addr = map_option ucast (do_get_mem_word (baseaddr ab) (unat (bank_offset ab addr)))"

definition ram_bget :: "'d addrbank \<Rightarrow> u32 \<Rightarrow> u32 option" where
  "ram_bget ab addr = map_option ucast (do_get_mem_byte (baseaddr ab) (unat (bank_offset ab addr)))"

definition ram_lput :: "'d addrbank \<Rightarrow> u32 \<Rightarrow> u32 \<Rightarrow> 'd addrbank option" where
  "ram_lput ab addr l =
     map_option (\<lambda>m. ab\<lparr>baseaddr := m\<rparr>) (do_put_mem_long (baseaddr ab) (unat (bank_offset ab addr)) l)"

definition ram_wput :: "'d addrbank \<Rightarrow> u32 \<Rightarrow> u32 \<Rightarrow> 'd addrbank option" where
  "ram_wput ab addr w =
     map_option (\<lambda>m. ab\<lparr>baseaddr := m\<rparr>) (do_put_mem_word (baseaddr ab) (unat (bank_offset ab addr)) (ucast w))"

definition ram_bput :: "'d addrbank \<Rightarrow> u32 \<Rightarrow> u32 \<Rightarrow> 'd addrbank option" where
  "ram_bput ab addr b =
     map_option (\<lambda>m. ab\<lparr>baseaddr := m\<rparr>) (do_put_mem_byte (baseaddr ab) (unat (bank_offset ab addr)) (ucast b))"

definition ram_check :: "'d addrbank \<Rightarrow> u32 \<Rightarrow> u32 \<Rightarrow> bool" where
  "ram_check ab addr sz \<longleftrightarrow> bank_offset ab addr + sz \<le> allocated_size ab"

section \<open>Dispatch\<close>

text \<open>The table of banks maps the upper 16 bits of an address to a bank, by its number.\<close>

record 'd memory =
  mem_banks :: "nat \<Rightarrow> nat"
  the_banks :: "nat \<Rightarrow> 'd addrbank"
  mem_dev :: 'd

definition bankindex :: "u32 \<Rightarrow> nat" where
  "bankindex addr = unat (drop_bit 16 addr)"

definition get_mem_bank :: "'d memory \<Rightarrow> u32 \<Rightarrow> 'd addrbank" where
  "get_mem_bank s addr = the_banks s (mem_banks s (bankindex addr))"

definition put_bank :: "'d memory \<Rightarrow> u32 \<Rightarrow> 'd addrbank \<Rightarrow> 'd memory" where
  "put_bank s addr ab = s\<lparr>the_banks := (the_banks s)(mem_banks s (bankindex addr) := ab)\<rparr>"

text \<open>Through the function pointer, when the bank has its own; the RAM functions otherwise.\<close>

definition via_get :: "('d bank_fns \<Rightarrow> 'd \<Rightarrow> u32 \<Rightarrow> u32 \<times> 'd) \<Rightarrow> ('d addrbank \<Rightarrow> u32 \<Rightarrow> u32 option) \<Rightarrow>
    'd memory \<Rightarrow> u32 \<Rightarrow> (u32 \<times> 'd memory) option" where
  "via_get sel ram s addr =
     (let ab = get_mem_bank s addr
      in case fns ab of
           None \<Rightarrow> map_option (\<lambda>v. (v, s)) (ram ab addr)
         | Some f \<Rightarrow> (case sel f (mem_dev s) addr of (v, d) \<Rightarrow> Some (v, s\<lparr>mem_dev := d\<rparr>)))"

definition via_put :: "('d bank_fns \<Rightarrow> 'd \<Rightarrow> u32 \<Rightarrow> u32 \<Rightarrow> 'd) \<Rightarrow> ('d addrbank \<Rightarrow> u32 \<Rightarrow> u32 \<Rightarrow> 'd addrbank option) \<Rightarrow>
    'd memory \<Rightarrow> u32 \<Rightarrow> u32 \<Rightarrow> 'd memory option" where
  "via_put sel ram s addr v =
     (let ab = get_mem_bank s addr
      in case fns ab of
           None \<Rightarrow> map_option (put_bank s addr) (ram ab addr v)
         | Some f \<Rightarrow> Some (s\<lparr>mem_dev := sel f (mem_dev s) addr v\<rparr>))"

definition memory_get_longi :: "'d memory \<Rightarrow> u32 \<Rightarrow> (u32 \<times> 'd memory) option" where
  "memory_get_longi s addr =
     (let ab = get_mem_bank s addr
      in if \<not> direct_r ab then via_get f_lgeti ram_lgeti s addr
         else map_option (\<lambda>v. (v, s)) (do_get_mem_long (baseaddr ab) (unat (bank_offset ab addr))))"

definition memory_get_wordi :: "'d memory \<Rightarrow> u32 \<Rightarrow> (u32 \<times> 'd memory) option" where
  "memory_get_wordi s addr =
     (let ab = get_mem_bank s addr
      in if \<not> direct_r ab then via_get f_wgeti ram_wgeti s addr
         else map_option (\<lambda>v. (ucast v, s)) (do_get_mem_word (baseaddr ab) (unat (bank_offset ab addr))))"

definition memory_get_long :: "'d memory \<Rightarrow> u32 \<Rightarrow> (u32 \<times> 'd memory) option" where
  "memory_get_long s addr =
     (let ab = get_mem_bank s addr
      in if \<not> direct_r ab then via_get f_lget ram_lget s addr
         else map_option (\<lambda>v. (v, s)) (do_get_mem_long (baseaddr ab) (unat (bank_offset ab addr))))"

definition memory_get_word :: "'d memory \<Rightarrow> u32 \<Rightarrow> (u32 \<times> 'd memory) option" where
  "memory_get_word s addr =
     (let ab = get_mem_bank s addr
      in if \<not> direct_r ab then via_get f_wget ram_wget s addr
         else map_option (\<lambda>v. (ucast v, s)) (do_get_mem_word (baseaddr ab) (unat (bank_offset ab addr))))"

definition memory_get_byte :: "'d memory \<Rightarrow> u32 \<Rightarrow> (u32 \<times> 'd memory) option" where
  "memory_get_byte s addr =
     (let ab = get_mem_bank s addr
      in if \<not> direct_r ab then via_get f_bget ram_bget s addr
         else map_option (\<lambda>v. (ucast v, s)) (do_get_mem_byte (baseaddr ab) (unat (bank_offset ab addr))))"

definition memory_put_long :: "'d memory \<Rightarrow> u32 \<Rightarrow> u32 \<Rightarrow> 'd memory option" where
  "memory_put_long s addr v =
     (let ab = get_mem_bank s addr
      in if \<not> direct_w ab then via_put f_lput ram_lput s addr v
         else map_option (\<lambda>m. put_bank s addr (ab\<lparr>baseaddr := m\<rparr>))
                (do_put_mem_long (baseaddr ab) (unat (bank_offset ab addr)) v))"

definition memory_put_word :: "'d memory \<Rightarrow> u32 \<Rightarrow> u32 \<Rightarrow> 'd memory option" where
  "memory_put_word s addr v =
     (let ab = get_mem_bank s addr
      in if \<not> direct_w ab then via_put f_wput ram_wput s addr v
         else map_option (\<lambda>m. put_bank s addr (ab\<lparr>baseaddr := m\<rparr>))
                (do_put_mem_word (baseaddr ab) (unat (bank_offset ab addr)) (ucast v)))"

definition memory_put_byte :: "'d memory \<Rightarrow> u32 \<Rightarrow> u32 \<Rightarrow> 'd memory option" where
  "memory_put_byte s addr v =
     (let ab = get_mem_bank s addr
      in if \<not> direct_w ab then via_put f_bput ram_bput s addr v
         else map_option (\<lambda>m. put_bank s addr (ab\<lparr>baseaddr := m\<rparr>))
                (do_put_mem_byte (baseaddr ab) (unat (bank_offset ab addr)) (ucast v)))"

definition memory_valid_address :: "'d memory \<Rightarrow> u32 \<Rightarrow> u32 \<Rightarrow> bool" where
  "memory_valid_address s addr sz \<longleftrightarrow> bank_offset (get_mem_bank s addr) addr + sz \<le> allocated_size (get_mem_bank s addr)"

section \<open>Mapping\<close>

definition put_mem_bank :: "(nat \<Rightarrow> 'b) \<Rightarrow> u32 \<Rightarrow> 'b \<Rightarrow> nat \<Rightarrow> 'b" where
  "put_mem_bank tab addr b = tab(bankindex addr := b)"

definition map_range :: "(nat \<Rightarrow> 'b) \<Rightarrow> 'b \<Rightarrow> int \<Rightarrow> int \<Rightarrow> int \<Rightarrow> nat \<Rightarrow> 'b" where
  "map_range tab bank start sz hioffs =
     foldl (\<lambda>tab bnr. put_mem_bank tab (push_bit 16 (word_of_int (bnr + hioffs))) bank) tab [start..start + sz - 1]"

definition MEMORY_BANKS_24 :: int where "MEMORY_BANKS_24 = 256"

definition map_banks2 :: "bool \<Rightarrow> (nat \<Rightarrow> 'b) \<Rightarrow> 'b \<Rightarrow> int \<Rightarrow> int \<Rightarrow> nat \<Rightarrow> 'b" where
  "map_banks2 last_address_space_24 tab bank start sz =
     (if start \<ge> MEMORY_BANKS_24 then map_range tab bank start sz 0
      else foldl (\<lambda>tab k. map_range tab bank start sz (0x100 * int k)) tab
             [0..<(if last_address_space_24 then 0x100 else 1)])"

text \<open>The checks of the expansion spaces: the verdict, and whether the CPU is halted. \<open>map_banks_z2\<close>
  maps with \<open>map_banks2\<close> directly; the bookkeeping of the wrapper \<^verbatim>\<open>map_banks\<close> is left out.\<close>

definition validate_banks_z3 :: "(nat \<Rightarrow> 'b) \<Rightarrow> 'b \<Rightarrow> 'b \<Rightarrow> int \<Rightarrow> int \<Rightarrow> bool \<times> bool" where
  "validate_banks_z3 tab dummy bank start sz =
     (if start < 0x1000 \<or> sz \<le> 0 then (False, True)
      else if sz > 0x4000 \<or> start + sz > 0xf000 then (False, False)
      else if list_ex (\<lambda>i. let ab = tab (bankindex (push_bit 16 (word_of_int start))) in ab \<noteq> dummy \<and> ab \<noteq> bank)
                [start..start + sz - 1] then (False, False)
      else (True, False))"



section \<open>Bytes, words and long words\<close>

lemma be32_bytes:
  "ucast (drop_bit 24 (be32 a b c d)) = a" "ucast (drop_bit 16 (be32 a b c d)) = b"
  "ucast (drop_bit 8 (be32 a b c d)) = c" "ucast (be32 a b c d) = d"
  unfolding be32_def by (rule bit_word_eqI; auto simp: bit_simps dest: bit_imp_le_length)+

lemma be32_of_bytes:
  "be32 (ucast (drop_bit 24 v)) (ucast (drop_bit 16 v)) (ucast (drop_bit 8 v)) (ucast v) = v"
proof (rule bit_word_eqI)
  fix n assume "n < LENGTH(32)"
  then consider "n < 8" | "8 \<le> n" "n < 16" | "16 \<le> n" "n < 24" | "24 \<le> n" "n < 32" by fastforce
  then show "bit (be32 (ucast (drop_bit 24 v)) (ucast (drop_bit 16 v)) (ucast (drop_bit 8 v)) (ucast v)) n = bit v n"
    by cases (auto simp: be32_def bit_simps)
qed

lemma be16_bytes: "ucast (drop_bit 8 (be16 a b)) = a" "ucast (be16 a b) = b"
  unfolding be16_def by (rule bit_word_eqI; auto simp: bit_simps dest: bit_imp_le_length)+

lemma be16_of_bytes: "be16 (ucast (drop_bit 8 v)) (ucast v) = v"
  unfolding be16_def by (rule bit_word_eqI) (auto simp: bit_simps; arith)


text \<open>A bank of plain RAM: a power of two of bytes, all of it backed by host memory.\<close>

definition ram_bank :: "nat \<Rightarrow> 'd addrbank \<Rightarrow> bool" where
  "ram_bank k ab \<longleftrightarrow> k < 32 \<and> ab_mask ab = mask k \<and> length (baseaddr ab) = 2 ^ k \<and>
     unat (allocated_size ab) = 2 ^ k \<and> fns ab = None"

lemma ram_offset_less: "ram_bank k ab \<Longrightarrow> unat (bank_offset ab addr) < length (baseaddr ab)"
  by (simp add: ram_bank_def bank_offset_def unat_and_mask_less)

text \<open>A window of addresses that all go to one such bank, starting at the first byte of it.\<close>

definition window :: "nat \<Rightarrow> u32 \<Rightarrow> u32 set" where
  "window k base = {a. unat (a - base) < 2 ^ k}"

definition ram_at :: "nat \<Rightarrow> u32 \<Rightarrow> 'd memory \<Rightarrow> bool" where
  "ram_at k base s \<longleftrightarrow>
     (\<forall>a \<in> window k base. mem_banks s (bankindex a) = mem_banks s (bankindex base)) \<and>
     ram_bank k (get_mem_bank s base) \<and> (base - startaccessmask (get_mem_bank s base)) AND mask k = 0"

definition ram_byte :: "'d memory \<Rightarrow> u32 \<Rightarrow> u8" where
  "ram_byte s a = baseaddr (get_mem_bank s a) ! unat (bank_offset (get_mem_bank s a) a)"

definition fits :: "nat \<Rightarrow> u32 \<Rightarrow> u32 \<Rightarrow> nat \<Rightarrow> bool" where
  "fits k base a n \<longleftrightarrow> unat (a - base) + n \<le> 2 ^ k"

lemma base_in_window [simp]: "base \<in> window k base"
  by (simp add: window_def)

lemma take_bit_add_zero:
  fixes x y :: u32
  assumes "k < 32" "take_bit k y = 0"
  shows "take_bit k (x + y) = take_bit k x"
proof -
  have t: "unat (take_bit k w) = unat w mod 2 ^ k" for w :: u32
    by (simp only: unsigned_take_bit_eq take_bit_eq_mod [where 'a = nat])
  have d: "(2 :: nat) ^ k dvd 2 ^ 32" using assms(1) by (intro le_imp_power_dvd) simp
  have "unat (x + y) = (unat x + unat y) mod 2 ^ 32" by (simp add: unat_word_ariths)
  then have "unat (x + y) mod 2 ^ k = (unat x + unat y) mod 2 ^ k"
    using d by (simp only: mod_mod_cancel)
  also have "\<dots> = (unat x mod 2 ^ k + unat y mod 2 ^ k) mod 2 ^ k" by (simp only: mod_add_eq)
  also have "unat y mod 2 ^ k = 0" using assms(2) t [of y] by simp
  finally show ?thesis unfolding word_unat_eq_iff t by simp
qed

lemma ram_at_bank:
  assumes "ram_at k base s" "a \<in> window k base"
  shows "get_mem_bank s a = get_mem_bank s base" "ram_bank k (get_mem_bank s base)" "fns (get_mem_bank s base) = None"
    "bank_offset (get_mem_bank s base) a = a - base" "length (baseaddr (get_mem_bank s base)) = 2 ^ k"
proof -
  let ?ab = "get_mem_bank s base"
  have "mem_banks s (bankindex a) = mem_banks s (bankindex base)"
    using assms unfolding ram_at_def by blast
  then show "get_mem_bank s a = ?ab" by (simp add: get_mem_bank_def)
  show r: "ram_bank k ?ab" using assms(1) unfolding ram_at_def by blast
  then show "fns ?ab = None" "length (baseaddr ?ab) = 2 ^ k" by (auto simp: ram_bank_def)
  have "(a - startaccessmask ?ab) AND mask k = take_bit k ((a - base) + (base - startaccessmask ?ab))"
    unfolding take_bit_eq_mask by simp
  also have "\<dots> = take_bit k (a - base)"
  proof (rule take_bit_add_zero)
    show "k < 32" using r by (simp add: ram_bank_def)
    show "take_bit k (base - startaccessmask ?ab) = 0"
      using assms(1) unfolding ram_at_def take_bit_eq_mask by blast
  qed
  also have "\<dots> = a - base"
    using assms(2) unfolding word_unat_eq_iff window_def
    by (simp only: unsigned_take_bit_eq mem_Collect_eq take_bit_nat_eq_self)
  finally show "bank_offset ?ab a = a - base"
    using r by (simp add: bank_offset_def ram_bank_def)
qed

lemma fits_window:
  assumes "k < 32" "fits k base a n" "i < n"
  shows "a + of_nat i \<in> window k base" "unat (a + of_nat i - base) = unat (a - base) + i"
proof -
  have less: "unat (a - base) + i < 2 ^ k" using assms(2,3) by (simp add: fits_def)
  have "(2 :: nat) ^ k \<le> 2 ^ 32" using assms(1) by (intro power_increasing) auto
  then have small: "unat (a - base) + i < 2 ^ 32" using less by linarith
  have "unat (of_nat i :: u32) = i"
    using small by (simp add: unsigned_of_nat take_bit_nat_eq_self)
  then have "unat ((a - base) + of_nat i) = unat (a - base) + i"
    using small by (subst unat_add_lem [THEN iffD1]) simp_all
  moreover have "a + of_nat i - base = (a - base) + of_nat i" by simp
  ultimately show "unat (a + of_nat i - base) = unat (a - base) + i" by (simp only:)
  then show "a + of_nat i \<in> window k base" using less by (simp add: window_def)
qed

lemma ram_byte_at:
  assumes "ram_at k base s" "a \<in> window k base"
  shows "ram_byte s a = baseaddr (get_mem_bank s base) ! unat (a - base)"
  using ram_at_bank [OF assms] by (simp add: ram_byte_def)

text \<open>Reading a window of RAM, whichever way the bank is reached.\<close>

lemma ram_get:
  assumes "ram_at k base s"
  shows "fits k base a 1 \<Longrightarrow> memory_get_byte s a = Some (ucast (ram_byte s a), s)"
    "fits k base a 2 \<Longrightarrow> memory_get_word s a = Some (ucast (be16 (ram_byte s a) (ram_byte s (a + 1))), s)"
    "fits k base a 4 \<Longrightarrow> memory_get_long s a =
       Some (be32 (ram_byte s a) (ram_byte s (a + 1)) (ram_byte s (a + 2)) (ram_byte s (a + 3)), s)"
proof -
  have k: "k < 32" using ram_at_bank(2) [OF assms base_in_window] by (simp add: ram_bank_def)
  note b = ram_at_bank [OF assms]
  have at: "ram_byte s (a + of_nat i) = baseaddr (get_mem_bank s base) ! (unat (a - base) + i)"
    if "fits k base a n" "i < n" for n i
    using ram_byte_at [OF assms fits_window(1) [OF k that]] fits_window(2) [OF k that] by simp
  have w: "a \<in> window k base" if "fits k base a n" "0 < n" for n
    using fits_window(1) [OF k that] by simp
  show "memory_get_byte s a = Some (ucast (ram_byte s a), s)" if f: "fits k base a 1"
    using b [OF w [OF f]] at [OF f, of 0] f
    by (simp add: memory_get_byte_def via_get_def ram_bget_def do_get_mem_byte_def fits_def Let_def)
  show "memory_get_word s a = Some (ucast (be16 (ram_byte s a) (ram_byte s (a + 1))), s)" if f: "fits k base a 2"
    using b [OF w [OF f]] at [OF f, of 0] at [OF f, of 1] f
    by (simp add: memory_get_word_def via_get_def ram_wget_def do_get_mem_word_def fits_def Let_def)
  show "memory_get_long s a =
       Some (be32 (ram_byte s a) (ram_byte s (a + 1)) (ram_byte s (a + 2)) (ram_byte s (a + 3)), s)" if f: "fits k base a 4"
    using b [OF w [OF f]] at [OF f, of 0] at [OF f, of 1] at [OF f, of 2] at [OF f, of 3] f
    by (simp add: memory_get_long_def via_get_def ram_lget_def do_get_mem_long_def fits_def Let_def)
qed


lemma low_word_bytes:
  "ucast (drop_bit 8 (ucast (v :: u32) :: u16)) = (ucast (drop_bit 8 v) :: u8)" "ucast (ucast v :: u16) = (ucast v :: u8)"
  by (rule bit_word_eqI; auto simp: bit_simps dest: bit_imp_le_length)+

lemma be_parts:
  "ucast (be16 (ucast (drop_bit 24 v)) (ucast (drop_bit 16 v))) = (drop_bit 16 v :: u32)"
  "ucast (be16 (ucast (drop_bit 8 v)) (ucast v)) = (v AND 0xffff :: u32)"
  "ucast (ucast (drop_bit 24 v) :: u8) = (drop_bit 24 v :: u32)" "ucast (ucast v :: u8) = (v AND 0xff :: u32)"
  "ucast (ucast (drop_bit 16 v) :: u8) = (drop_bit 16 v AND 0xff :: u32)"
  "ucast (ucast (drop_bit 8 v) :: u8) = (drop_bit 8 v AND 0xff :: u32)"
proof -
  have m: "(0xffff :: u32) = mask 16" "(0xff :: u32) = mask 8" by (simp_all add: mask_eq_exp_minus_1)
  show "ucast (ucast (drop_bit 24 v) :: u8) = (drop_bit 24 v :: u32)" "ucast (ucast v :: u8) = (v AND 0xff :: u32)"
    "ucast (ucast (drop_bit 16 v) :: u8) = (drop_bit 16 v AND 0xff :: u32)"
    "ucast (ucast (drop_bit 8 v) :: u8) = (drop_bit 8 v AND 0xff :: u32)"
    unfolding m by (rule bit_word_eqI; auto simp: bit_simps dest: bit_imp_le_length)+
  show "ucast (be16 (ucast (drop_bit 24 v)) (ucast (drop_bit 16 v))) = (drop_bit 16 v :: u32)"
    unfolding be16_def by (rule bit_word_eqI) (auto simp: bit_simps dest: bit_imp_le_length; arith)
  show "ucast (be16 (ucast (drop_bit 8 v)) (ucast v)) = (v AND 0xffff :: u32)"
    unfolding m be16_def by (rule bit_word_eqI) (auto simp: bit_simps dest: bit_imp_le_length; arith)
qed

text \<open>Writing it: the bytes of the value, and nothing else in the window.\<close>

definition ram_set :: "'d memory \<Rightarrow> u32 \<Rightarrow> u8 list \<Rightarrow> 'd memory" where
  "ram_set s base m = put_bank s base ((get_mem_bank s base)\<lparr>baseaddr := m\<rparr>)"

lemma ram_set:
  assumes "ram_at k base s" "length m = 2 ^ k"
  shows "ram_at k base (ram_set s base m)"
    "b \<in> window k base \<Longrightarrow> ram_byte (ram_set s base m) b = m ! unat (b - base)"
proof -
  let ?t = "ram_set s base m"
  have r: "ram_bank k (get_mem_bank s base)" using assms(1) by (simp add: ram_at_def)
  have same: "mem_banks s (bankindex b) = mem_banks s (bankindex base)" if "b \<in> window k base" for b
    using assms(1) that unfolding ram_at_def by blast
  have t: "mem_banks ?t = mem_banks s" by (simp add: ram_set_def put_bank_def)
  have bank: "get_mem_bank ?t base = (get_mem_bank s base)\<lparr>baseaddr := m\<rparr>"
    by (simp add: ram_set_def put_bank_def get_mem_bank_def)
  show "ram_at k base ?t"
    unfolding ram_at_def bank t
  proof (intro conjI ballI)
    show "ram_bank k ((get_mem_bank s base)\<lparr>baseaddr := m\<rparr>)"
      using r assms(2) by (simp add: ram_bank_def)
    show "(base - startaccessmask ((get_mem_bank s base)\<lparr>baseaddr := m\<rparr>)) AND mask k = 0"
      using assms(1) by (simp add: ram_at_def)
  qed (rule same)
  then show "ram_byte ?t b = m ! unat (b - base)" if "b \<in> window k base"
    using that by (simp add: ram_byte_at bank)
qed

lemma ram_put:
  assumes "ram_at k base s"
  shows "fits k base a 1 \<Longrightarrow> \<exists>t. memory_put_byte s a v = Some t \<and> ram_at k base t \<and>
      (\<forall>b \<in> window k base. ram_byte t b = (if b = a then ucast v else ram_byte s b))"
    "fits k base a 2 \<Longrightarrow> \<exists>t. memory_put_word s a v = Some t \<and> ram_at k base t \<and>
      (\<forall>b \<in> window k base. ram_byte t b =
        (if b = a then ucast (drop_bit 8 v) else if b = a + 1 then ucast v else ram_byte s b))"
    "fits k base a 4 \<Longrightarrow> \<exists>t. memory_put_long s a v = Some t \<and> ram_at k base t \<and>
      (\<forall>b \<in> window k base. ram_byte t b =
        (if b = a then ucast (drop_bit 24 v) else if b = a + 1 then ucast (drop_bit 16 v)
         else if b = a + 2 then ucast (drop_bit 8 v) else if b = a + 3 then ucast v else ram_byte s b))"
proof -
  let ?ab = "get_mem_bank s base" and ?i = "unat (a - base)"
  have k: "k < 32" using ram_at_bank(2) [OF assms base_in_window] by (simp add: ram_bank_def)
  note b = ram_at_bank [OF assms]
  have w: "a \<in> window k base" if "fits k base a n" "0 < n" for n
    using fits_window(1) [OF k that] by simp
  have put: "put_bank s a (?ab\<lparr>baseaddr := m\<rparr>) = ram_set s base m" if "a \<in> window k base" for m
  proof -
    have "mem_banks s (bankindex a) = mem_banks s (bankindex base)"
      using assms that unfolding ram_at_def by blast
    then show ?thesis by (simp add: ram_set_def put_bank_def)
  qed
  have idx: "x = a + of_nat i \<longleftrightarrow> unat (x - base) = ?i + i" if "x \<in> window k base" "fits k base a n" "i < n" for x n i
    using fits_window(2) [OF k that(2,3)] by (metis diff_add_cancel unsigned_word_eqI)
  have old: "ram_byte s x = baseaddr ?ab ! unat (x - base)" "unat (x - base) < length (baseaddr ?ab)"
    if "x \<in> window k base" for x
    using ram_byte_at [OF assms that] b(5) [OF that] that by (simp_all add: window_def)
  show "\<exists>t. memory_put_byte s a v = Some t \<and> ram_at k base t \<and>
      (\<forall>b \<in> window k base. ram_byte t b = (if b = a then ucast v else ram_byte s b))" if f: "fits k base a 1"
  proof (intro exI conjI ballI)
    let ?m = "(baseaddr ?ab)[?i := ucast v]"
    show "memory_put_byte s a v = Some (ram_set s base ?m)"
      using b [OF w [OF f]] f put w [OF f]
      by (simp add: memory_put_byte_def via_put_def ram_bput_def do_put_mem_byte_def fits_def Let_def)
    show "ram_at k base (ram_set s base ?m)"
      using b(5) [OF w [OF f]] by (intro ram_set(1) [OF assms]) simp
    fix x assume x: "x \<in> window k base"
    show "ram_byte (ram_set s base ?m) x = (if x = a then ucast v else ram_byte s x)"
      using b(5) [OF w [OF f]] x idx [OF x f, of 0] old [OF x]
      by (simp add: ram_set(2) [OF assms] nth_list_update)
  qed
  show "\<exists>t. memory_put_word s a v = Some t \<and> ram_at k base t \<and>
      (\<forall>b \<in> window k base. ram_byte t b =
        (if b = a then ucast (drop_bit 8 v) else if b = a + 1 then ucast v else ram_byte s b))" if f: "fits k base a 2"
  proof (intro exI conjI ballI)
    let ?m = "(baseaddr ?ab)[?i := ucast (drop_bit 8 v), ?i + 1 := ucast v]"
    show "memory_put_word s a v = Some (ram_set s base ?m)"
      using b [OF w [OF f]] f put w [OF f]
      by (simp add: memory_put_word_def via_put_def ram_wput_def do_put_mem_word_def fits_def Let_def low_word_bytes)
    show "ram_at k base (ram_set s base ?m)"
      using b(5) [OF w [OF f]] by (intro ram_set(1) [OF assms]) simp
    fix x assume x: "x \<in> window k base"
    show "ram_byte (ram_set s base ?m) x =
        (if x = a then ucast (drop_bit 8 v) else if x = a + 1 then ucast v else ram_byte s x)"
      using b(5) [OF w [OF f]] x idx [OF x f, of 0] idx [OF x f, of 1] old [OF x]
      by (simp add: ram_set(2) [OF assms] nth_list_update)
  qed
  show "\<exists>t. memory_put_long s a v = Some t \<and> ram_at k base t \<and>
      (\<forall>b \<in> window k base. ram_byte t b =
        (if b = a then ucast (drop_bit 24 v) else if b = a + 1 then ucast (drop_bit 16 v)
         else if b = a + 2 then ucast (drop_bit 8 v) else if b = a + 3 then ucast v else ram_byte s b))" if f: "fits k base a 4"
  proof (intro exI conjI ballI)
    let ?m = "(baseaddr ?ab)[?i := ucast (drop_bit 24 v), ?i + 1 := ucast (drop_bit 16 v),
        ?i + 2 := ucast (drop_bit 8 v), ?i + 3 := ucast v]"
    show "memory_put_long s a v = Some (ram_set s base ?m)"
      using b [OF w [OF f]] f put w [OF f]
      by (simp add: memory_put_long_def via_put_def ram_lput_def do_put_mem_long_def fits_def Let_def)
    show "ram_at k base (ram_set s base ?m)"
      using b(5) [OF w [OF f]] by (intro ram_set(1) [OF assms]) simp
    fix x assume x: "x \<in> window k base"
    show "ram_byte (ram_set s base ?m) x =
        (if x = a then ucast (drop_bit 24 v) else if x = a + 1 then ucast (drop_bit 16 v)
         else if x = a + 2 then ucast (drop_bit 8 v) else if x = a + 3 then ucast v else ram_byte s x)"
      using b(5) [OF w [OF f]] x idx [OF x f, of 0] idx [OF x f, of 1] idx [OF x f, of 2] idx [OF x f, of 3] old [OF x]
      by (simp add: ram_set(2) [OF assms] nth_list_update)
  qed
qed

section \<open>The bus\<close>

text \<open>
  What the processor and the devices use of memory: reads and writes of one, two and four bytes
  that may fail, over a state with a byte at each address of a window. Any provider with these
  laws carries what is proved of its clients; the memory system does, on a window of RAM.
\<close>

locale ram_bus =
  fixes get8 get16 get32 :: "'s \<Rightarrow> u32 \<Rightarrow> (u32 \<times> 's) option"
    and put8 put16 put32 :: "'s \<Rightarrow> u32 \<Rightarrow> u32 \<Rightarrow> 's option"
    and byte :: "'s \<Rightarrow> u32 \<Rightarrow> u8"
    and ok :: "'s \<Rightarrow> bool"
    and win :: "u32 set"
    and room :: "u32 \<Rightarrow> nat \<Rightarrow> bool"
  assumes room_window: "ok s \<Longrightarrow> room a n \<Longrightarrow> i < n \<Longrightarrow> a + of_nat i \<in> win"
    and room_split: "room a (m + n) \<Longrightarrow> room a m" "ok s \<Longrightarrow> 0 < n \<Longrightarrow> room a (m + n) \<Longrightarrow> room (a + of_nat m) n"
    and get8: "ok s \<Longrightarrow> room a 1 \<Longrightarrow> get8 s a = Some (ucast (byte s a), s)"
    and get16: "ok s \<Longrightarrow> room a 2 \<Longrightarrow> get16 s a = Some (ucast (be16 (byte s a) (byte s (a + 1))), s)"
    and get32: "ok s \<Longrightarrow> room a 4 \<Longrightarrow>
      get32 s a = Some (be32 (byte s a) (byte s (a + 1)) (byte s (a + 2)) (byte s (a + 3)), s)"
    and put8: "ok s \<Longrightarrow> room a 1 \<Longrightarrow> \<exists>t. put8 s a v = Some t \<and> ok t \<and>
      (\<forall>b \<in> win. byte t b = (if b = a then ucast v else byte s b))"
    and put16: "ok s \<Longrightarrow> room a 2 \<Longrightarrow> \<exists>t. put16 s a v = Some t \<and> ok t \<and>
      (\<forall>b \<in> win. byte t b = (if b = a then ucast (drop_bit 8 v) else if b = a + 1 then ucast v else byte s b))"
    and put32: "ok s \<Longrightarrow> room a 4 \<Longrightarrow> \<exists>t. put32 s a v = Some t \<and> ok t \<and>
      (\<forall>b \<in> win. byte t b =
        (if b = a then ucast (drop_bit 24 v) else if b = a + 1 then ucast (drop_bit 16 v)
         else if b = a + 2 then ucast (drop_bit 8 v) else if b = a + 3 then ucast v else byte s b))"
begin

lemma long_round_trip:
  assumes "ok s" "room a 4"
  shows "\<exists>t. put32 s a v = Some t \<and> ok t \<and> get32 t a = Some (v, t)"
proof -
  obtain t where t: "put32 s a v = Some t" "ok t"
    "\<forall>b \<in> win. byte t b =
        (if b = a then ucast (drop_bit 24 v) else if b = a + 1 then ucast (drop_bit 16 v)
         else if b = a + 2 then ucast (drop_bit 8 v) else if b = a + 3 then ucast v else byte s b)"
    using put32 [OF assms] by blast
  have "a \<in> win" "a + 1 \<in> win" "a + 2 \<in> win" "a + 3 \<in> win"
    using room_window [OF assms, of 0] room_window [OF assms, of 1] room_window [OF assms, of 2]
      room_window [OF assms, of 3] by simp_all
  then have "get32 t a = Some (v, t)"
    using get32 [OF t(2) assms(2)] t(3) by (simp add: be32_of_bytes)
  then show ?thesis using t by blast
qed

lemma word_round_trip:
  assumes "ok s" "room a 2"
  shows "\<exists>t. put16 s a v = Some t \<and> ok t \<and> get16 t a = Some (ucast (ucast v :: u16), t)"
proof -
  obtain t where t: "put16 s a v = Some t" "ok t"
    "\<forall>b \<in> win. byte t b = (if b = a then ucast (drop_bit 8 v) else if b = a + 1 then ucast v else byte s b)"
    using put16 [OF assms] by blast
  have w: "a \<in> win" "a + 1 \<in> win"
    using room_window [OF assms, of 0] room_window [OF assms, of 1] by simp_all
  have "be16 (ucast (drop_bit 8 v)) (ucast v) = ucast v"
    using be16_of_bytes [of "ucast v"] by (simp add: low_word_bytes)
  then have "get16 t a = Some (ucast (ucast v :: u16), t)"
    using get16 [OF t(2) assms(2)] t(3) w by simp
  then show ?thesis using t by blast
qed

end

interpretation memory_bus: ram_bus memory_get_byte memory_get_word memory_get_long
  memory_put_byte memory_put_word memory_put_long ram_byte "\<lambda>s. ram_at k base s" "window k base" "fits k base"
  for k base
proof unfold_locales
  fix s :: "'a memory" and a :: u32 and n i m :: nat
  assume r: "ram_at k base s"
  then have k: "k < 32" using ram_at_bank(2) [OF r base_in_window] by (simp add: ram_bank_def)
  show "fits k base a n \<Longrightarrow> i < n \<Longrightarrow> a + word_of_nat i \<in> window k base"
    using fits_window(1) [OF k] by blast
  show "fits k base (a + word_of_nat m) n" if "0 < n" "fits k base a (m + n)"
    using fits_window(2) [OF k that(2), of m] that by (simp add: fits_def)
next
  show "fits k base a m" if "fits k base a (m + n)" for a m n
    using that by (simp add: fits_def)
qed (fact ram_get ram_put)+


text \<open>Instruction fetches read RAM as data reads do.\<close>

lemma memory_get_instruction:
  assumes "ram_at k base s"
  shows "fits k base a 2 \<Longrightarrow> memory_get_wordi s a = memory_get_word s a"
    "fits k base a 4 \<Longrightarrow> memory_get_longi s a = memory_get_long s a"
proof -
  have k: "k < 32" using ram_at_bank(2) [OF assms base_in_window] by (simp add: ram_bank_def)
  have "fns (get_mem_bank s a) = None" if "fits k base a n" "0 < n" for n
    using ram_at_bank [OF assms fits_window(1) [OF k that]] by simp
  then show "fits k base a 2 \<Longrightarrow> memory_get_wordi s a = memory_get_word s a"
    "fits k base a 4 \<Longrightarrow> memory_get_longi s a = memory_get_long s a"
    by (simp_all add: memory_get_wordi_def memory_get_word_def memory_get_longi_def memory_get_long_def via_get_def
        ram_wget_def ram_wgeti_def ram_lget_def ram_lgeti_def Let_def)
qed

text \<open>C1: in a window of RAM a long word written at any address is read back as written, by a long
  read, as its four bytes from the highest to the lowest by byte reads of the four addresses, and
  as its upper and lower halves by word reads; every byte of the window outside it is unchanged.\<close>

theorem memory_long_big_endian:
  assumes "ram_at k base s" "fits k base a 4"
  shows "\<exists>t. memory_put_long s a v = Some t \<and> ram_at k base t \<and>
    memory_get_long t a = Some (v, t) \<and>
    memory_get_word t a = Some (drop_bit 16 v, t) \<and> memory_get_word t (a + 2) = Some (v AND 0xffff, t) \<and>
    map_option fst (memory_get_byte t a) = Some (drop_bit 24 v) \<and>
    map_option fst (memory_get_byte t (a + 1)) = Some (drop_bit 16 v AND 0xff) \<and>
    map_option fst (memory_get_byte t (a + 2)) = Some (drop_bit 8 v AND 0xff) \<and>
    map_option fst (memory_get_byte t (a + 3)) = Some (v AND 0xff) \<and>
    (\<forall>b \<in> window k base. b \<notin> {a, a + 1, a + 2, a + 3} \<longrightarrow> ram_byte t b = ram_byte s b)"
proof -
  obtain t where t: "memory_put_long s a v = Some t" "ram_at k base t"
    "\<forall>b \<in> window k base. ram_byte t b =
        (if b = a then ucast (drop_bit 24 v) else if b = a + 1 then ucast (drop_bit 16 v)
         else if b = a + 2 then ucast (drop_bit 8 v) else if b = a + 3 then ucast v else ram_byte s b)"
    using ram_put(3) [OF assms] by blast
  have f: "fits k base a 2" "fits k base (a + 2) 2" "fits k base (a + 3) 1" "fits k base a 1"
    using memory_bus.room_split(1) [of k base a 2 2] memory_bus.room_split(1) [of k base a 1 3]
      memory_bus.room_split(2) [OF assms(1), of 2 a 2] memory_bus.room_split(2) [OF assms(1), of 1 a 3] assms(2)
    by simp_all
  have "fits k base (a + 1) 3"
    using memory_bus.room_split(2) [OF assms(1), of 3 a 1] assms(2) by simp
  then have f1: "fits k base (a + 1) 1" "fits k base (a + 2) 1"
    using memory_bus.room_split(1) [of k base "a + 1" 1 2] memory_bus.room_split(1) [of k base "a + 2" 1 1] f(2) by (simp_all add: numeral_eq_Suc)
  have w: "a \<in> window k base" "a + 1 \<in> window k base" "a + 2 \<in> window k base" "a + 3 \<in> window k base"
    using memory_bus.room_window [OF assms, of 0] memory_bus.room_window [OF assms, of 1]
      memory_bus.room_window [OF assms, of 2] memory_bus.room_window [OF assms, of 3] by simp_all
  have hw: "ucast (be16 (ucast (drop_bit 24 v)) (ucast (drop_bit 16 v))) = drop_bit 16 v"
    "ucast (be16 (ucast (drop_bit 8 v)) (ucast v)) = v AND 0xffff"
    "ucast (ucast (drop_bit 24 v) :: u8) = drop_bit 24 v" "ucast (ucast v :: u8) = v AND 0xff"
    "ucast (ucast (drop_bit 16 v) :: u8) = drop_bit 16 v AND 0xff" "ucast (ucast (drop_bit 8 v) :: u8) = drop_bit 8 v AND 0xff"
    by (rule be_parts)+
  have a3: "a + 2 + 1 = a + 3" by simp
  show ?thesis
    using t w ram_get(1) [OF t(2) f(4)] ram_get(1) [OF t(2) f(3)] ram_get(1) [OF t(2) f1(1)] ram_get(1) [OF t(2) f1(2)]
      ram_get(2) [OF t(2) f(1)] ram_get(2) [OF t(2) f(2)]
      ram_get(3) [OF t(2) assms(2)] hw unfolding a3
    by (simp add: be32_of_bytes)
qed

definition ram_example :: "unit memory" where
  "ram_example = \<lparr>mem_banks = (\<lambda>_. 0),
     the_banks = (\<lambda>_. \<lparr>baseaddr = replicate (2 ^ 16) 0, ab_mask = 0xffff, startaccessmask = 0, allocated_size = 0x10000,
        direct_r = False, direct_w = True, fns = None\<rparr>), mem_dev = ()\<rparr>"

lemma ram_example_at: "ram_at 16 0x20000 ram_example"
  by (simp add: ram_at_def ram_example_def ram_bank_def get_mem_bank_def mask_eq_exp_minus_1)

lemma memory_long_big_endian_witness:
  "\<exists>t. memory_put_long ram_example 0x21235 0x11223344 = Some t \<and> memory_get_long t 0x21235 = Some (0x11223344, t) \<and>
    map_option fst (memory_get_byte t 0x21235) = Some 0x11 \<and> map_option fst (memory_get_byte t 0x21236) = Some 0x22 \<and>
    map_option fst (memory_get_byte t 0x21237) = Some 0x33 \<and> map_option fst (memory_get_byte t 0x21238) = Some 0x44"
proof -
  have "fits 16 0x20000 0x21235 4" by (simp add: fits_def)
  from memory_long_big_endian [OF ram_example_at this, of "0x11223344"] show ?thesis by auto
qed

section \<open>What mapping changes\<close>

lemma bankindex_shift: "0 \<le> x \<Longrightarrow> x < 65536 \<Longrightarrow> bankindex (push_bit 16 (word_of_int x)) = nat x"
proof -
  assume x: "0 \<le> x" "x < 65536"
  have "drop_bit 16 (push_bit 16 (word_of_int x :: u32)) = take_bit 16 (word_of_int x)"
    by (rule bit_word_eqI) (auto simp: bit_simps)
  moreover have "unat (take_bit 16 (word_of_int x :: u32)) = take_bit 16 (nat (take_bit 32 x))"
    by (simp only: unsigned_take_bit_eq unsigned_of_int) simp
  moreover have "take_bit 32 x = x" "take_bit 16 (nat x) = nat x"
    using x by (simp_all add: take_bit_int_eq_self take_bit_nat_eq_self nat_less_iff)
  ultimately show ?thesis by (simp add: bankindex_def)
qed

lemma map_range_apply:
  assumes "0 \<le> start + hi" "start + sz + hi \<le> 65536"
  shows "map_range tab bank start sz hi n = (if start + hi \<le> int n \<and> int n < start + sz + hi then bank else tab n)"
proof -
  have "foldl (\<lambda>tab bnr. put_mem_bank tab (push_bit 16 (word_of_int (bnr + hi))) bank) tab xs n =
      (if int n - hi \<in> set xs then bank else tab n)"
    if "\<forall>x \<in> set xs. 0 \<le> x + hi \<and> x + hi < 65536" for xs tab
    using that
  proof (induction xs arbitrary: tab)
    case (Cons x xs)
    have "nat (x + hi) = n \<longleftrightarrow> int n - hi = x" using Cons.prems by auto
    have step: "put_mem_bank tab (push_bit 16 (word_of_int (x + hi))) bank = tab(nat (x + hi) := bank)"
      using Cons.prems bankindex_shift [of "x + hi"] unfolding put_mem_bank_def by (simp only: list.set_intros)
    have "\<forall>x \<in> set xs. 0 \<le> x + hi \<and> x + hi < 65536" using Cons.prems by simp
    note ih = Cons.IH [OF this]
    show ?case
      using \<open>nat (x + hi) = n \<longleftrightarrow> int n - hi = x\<close> unfolding foldl.simps(2) step ih by auto
  qed simp
  from this [of "[start..start + sz - 1]" tab] show ?thesis
    using assms unfolding map_range_def by auto
qed

text \<open>mapping a bank over \<open>sz\<close> slots from \<open>start\<close> sets exactly those slots of the table: in the
  32-bit space beyond the first 16 MB just them; below, them and, with 24-bit addressing, their
  copies in each of the 256 images of the space.\<close>

theorem map_banks2_slots:
  assumes "0 \<le> start" "0 \<le> sz" "if start \<ge> 256 then start + sz \<le> 65536 else start + sz \<le> 256" "n < 65536"
  shows "map_banks2 as24 tab bank start sz n =
    (if start \<le> (if as24 \<and> start < 256 then int n mod 256 else int n) \<and>
        (if as24 \<and> start < 256 then int n mod 256 else int n) < start + sz then bank else tab n)"
proof (cases "start \<ge> 256")
  case True
  then show ?thesis using assms by (simp add: map_banks2_def MEMORY_BANKS_24_def map_range_apply)
next
  case False
  have images: "foldl (\<lambda>tab k. map_range tab bank start sz (0x100 * int k)) tab [0..<m] n =
      (if (\<exists>k < m. start + 256 * int k \<le> int n \<and> int n < start + sz + 256 * int k) then bank else tab n)"
    if "m \<le> 256" for m
    using that
  proof (induction m)
    case (Suc m)
    then show ?case
      using assms False by (auto simp: map_range_apply less_Suc_eq)
  qed simp
  have "(\<exists>k < 256. start + 256 * int k \<le> int n \<and> int n < start + sz + 256 * int k) \<longleftrightarrow>
      start \<le> int n mod 256 \<and> int n mod 256 < start + sz"
  proof
    assume "\<exists>k < 256. start + 256 * int k \<le> int n \<and> int n < start + sz + 256 * int k"
    then obtain k where k: "start + 256 * int k \<le> int n" "int n < start + sz + 256 * int k" by blast
    then have "int n mod 256 = int n - 256 * int k"
      using assms False by (intro int_mod_pos_eq [of _ _ "int k"]) auto
    then show "start \<le> int n mod 256 \<and> int n mod 256 < start + sz" using k by auto
  next
    assume a: "start \<le> int n mod 256 \<and> int n mod 256 < start + sz"
    have "int n = 256 * int (n div 256) + int n mod 256" by (simp add: zdiv_int zmod_int)
    moreover have "n div 256 < 256" using assms(4) by (simp add: less_mult_imp_div_less)
    ultimately show "\<exists>k < 256. start + 256 * int k \<le> int n \<and> int n < start + sz + 256 * int k"
      using a by (intro exI [of _ "n div 256"]) auto
  qed
  then show ?thesis
    using False images [of 256] images [of 1] by (simp add: map_banks2_def MEMORY_BANKS_24_def)
qed

lemma map_banks2_slots_witness:
  "map_banks2 True (\<lambda>_. 0) (1 :: nat) 0x20 8 0x327 = 1 \<and> map_banks2 True (\<lambda>_. 0) (1 :: nat) 0x20 8 0x328 = 0"
  using map_banks2_slots [of "0x20" 8 "0x327" True "\<lambda>_. 0" "1 :: nat"]
    map_banks2_slots [of "0x20" 8 "0x328" True "\<lambda>_. 0" "1 :: nat"]
  by simp


section \<open>The checks of the expansion spaces\<close>





text \<open>C38: the overlap check of the Zorro III space looks at the first slot only (the loop indexes with
  \<open>start\<close> instead of \<open>i\<close>): a range whose first slot is free passes whatever its other slots hold, so a
  board can be mapped over another one.\<close>

theorem validate_z3_misses_overlap:
  assumes "0x1000 \<le> start" "0 < sz" "sz \<le> 0x4000" "start + sz \<le> 0xf000" "tab (nat start) = dummy"
  shows "fst (validate_banks_z3 tab dummy bank start sz)"
proof -
  have "bankindex (push_bit 16 (word_of_int start)) = nat start"
    using assms by (intro bankindex_shift) auto
  then show ?thesis using assms by (simp add: validate_banks_z3_def list_ex_iff)
qed

lemma validate_z3_misses_overlap_witness:
  "let tab = (\<lambda>n. if n = 0x1001 then 7 else 0) in
    fst (validate_banks_z3 tab 0 (1 :: nat) 0x1000 2) \<and> tab 0x1001 = 7"
  using validate_z3_misses_overlap [of "0x1000" 2 "\<lambda>n. if n = 0x1001 then 7 else 0" 0 "1 :: nat"]
  by simp

end
