(* ===== verification/CpuState.thy ===== *)
theory CpuState
  imports Prelude "HOL-Library.Monad_Syntax"
begin

text \<open>
  The processor state that \<^verbatim>\<open>sources/src/newcpu_common.c\<close> reads and writes: the part of
  \<^verbatim>\<open>struct regstruct\<close> (\<^verbatim>\<open>include/newcpu.h\<close>) and of the condition codes that it uses, and the
  preferences that it consults. Data registers are \<open>regs\<close> 0 to 7, address registers 8 to 15.
\<close>

record cpu =
  regs :: "u32 list"
  pc :: u32
  instruction_pc :: u32
  trace_pc :: u32
  sr :: u16
  s_flag :: bool
  m_flag :: bool
  t1_flag :: bool
  t0_flag :: bool
  intmask :: int
  cflg :: bool
  vflg :: bool
  zflg :: bool
  nflg :: bool
  xflg :: bool
  usp :: u32
  isp :: u32
  msp :: u32
  vbr :: u32
  sfc :: u32
  dfc :: u32
  cacr :: u32
  caar :: u32
  itt0 :: u32
  itt1 :: u32
  dtt0 :: u32
  dtt1 :: u32
  tcr :: u32
  mmusr :: u32
  urp :: u32
  srp :: u32
  buscr :: u32
  pcr :: u32

record cpu_prefs =
  cpu_model :: int
  fpu_model :: int
  mmu_model :: int
  mmu_ec :: bool
  int_no_unimplemented :: bool

definition m68k_dreg :: "cpu \<Rightarrow> nat \<Rightarrow> u32" where
  "m68k_dreg c n = regs c ! n"

definition m68k_areg :: "cpu \<Rightarrow> nat \<Rightarrow> u32" where
  "m68k_areg c n = regs c ! (n + 8)"

definition set_dreg :: "cpu \<Rightarrow> nat \<Rightarrow> u32 \<Rightarrow> cpu" where
  "set_dreg c n v = c\<lparr>regs := (regs c)[n := v]\<rparr>"

definition set_areg :: "cpu \<Rightarrow> nat \<Rightarrow> u32 \<Rightarrow> cpu" where
  "set_areg c n v = c\<lparr>regs := (regs c)[n + 8 := v]\<rparr>"

definition CLEAR_CZNV :: "cpu \<Rightarrow> cpu" where
  "CLEAR_CZNV c = c\<lparr>cflg := False, zflg := False, nflg := False, vflg := False\<rparr>"

text \<open>Sixteen registers.\<close>

definition cpu_wf :: "cpu \<Rightarrow> bool" where
  "cpu_wf c \<longleftrightarrow> length (regs c) = 16"

text \<open>A zeroed processor in supervisor mode, for examples.\<close>

definition cpu0 :: cpu where
  "cpu0 = \<lparr>regs = replicate 16 0, pc = 0, instruction_pc = 0, trace_pc = 0, sr = 0, s_flag = True, m_flag = False,
     t1_flag = False, t0_flag = False, intmask = 7, cflg = False, vflg = False, zflg = False, nflg = False,
     xflg = False, usp = 0, isp = 0, msp = 0, vbr = 0, sfc = 0, dfc = 0, cacr = 0, caar = 0, itt0 = 0, itt1 = 0,
     dtt0 = 0, dtt1 = 0, tcr = 0, mmusr = 0, urp = 0, srp = 0, buscr = 0, pcr = 0\<rparr>"

definition prefs_of :: "int \<Rightarrow> cpu_prefs" where
  "prefs_of model = \<lparr>cpu_model = model, fpu_model = model, mmu_model = 0, mmu_ec = False, int_no_unimplemented = False\<rparr>"

lemma cpu0_wf [simp]: "cpu_wf cpu0"
  by (simp add: cpu_wf_def cpu0_def)

end
