(* ===== verification/Movec.thy ===== *)
theory Movec
  imports CpuState
begin

text \<open>
  The control registers of the processor (\<^verbatim>\<open>newcpu_common.c\<close>, first part): the unchecked
  accessors used by debugger and state files, the table of the registers each model has, and the two MOVEC
  instructions. The calls that keep caches and address translation in step (\<^verbatim>\<open>set_cpu_caches\<close>,
  \<^verbatim>\<open>mmu_tt_modified\<close>, \<^verbatim>\<open>flush_icache\<close>) are recorded as a list; an exception is an error value with its
  vector, as is an illegal instruction with its opcode.

  Shown: the accessors are a register file, MOVEC never reaches its default branch, traps
  exactly when the register does not exist or the mode is user, and reads back what it wrote up
  to the bits the model implements.
\<close>

section \<open>Unchecked access\<close>

definition val_move2c2 :: "cpu \<Rightarrow> int \<Rightarrow> u32 \<Rightarrow> cpu" where
  "val_move2c2 c regno val =
     (if regno = 0 then c\<lparr>sfc := val\<rparr>
      else if regno = 1 then c\<lparr>dfc := val\<rparr>
      else if regno = 2 then c\<lparr>cacr := val\<rparr>
      else if regno = 3 then c\<lparr>tcr := val\<rparr>
      else if regno = 4 then c\<lparr>itt0 := val\<rparr>
      else if regno = 5 then c\<lparr>itt1 := val\<rparr>
      else if regno = 6 then c\<lparr>dtt0 := val\<rparr>
      else if regno = 7 then c\<lparr>dtt1 := val\<rparr>
      else if regno = 8 then c\<lparr>buscr := val\<rparr>
      else if regno = 0x800 then c\<lparr>usp := val\<rparr>
      else if regno = 0x801 then c\<lparr>vbr := val\<rparr>
      else if regno = 0x802 then c\<lparr>caar := val\<rparr>
      else if regno = 0x803 then c\<lparr>msp := val\<rparr>
      else if regno = 0x804 then c\<lparr>isp := val\<rparr>
      else if regno = 0x805 then c\<lparr>mmusr := val\<rparr>
      else if regno = 0x806 then c\<lparr>urp := val\<rparr>
      else if regno = 0x807 then c\<lparr>srp := val\<rparr>
      else if regno = 0x808 then c\<lparr>pcr := val\<rparr>
      else c)"

definition val_move2c :: "cpu \<Rightarrow> int \<Rightarrow> u32" where
  "val_move2c c regno =
     (if regno = 0 then sfc c
      else if regno = 1 then dfc c
      else if regno = 2 then cacr c
      else if regno = 3 then tcr c
      else if regno = 4 then itt0 c
      else if regno = 5 then itt1 c
      else if regno = 6 then dtt0 c
      else if regno = 7 then dtt1 c
      else if regno = 8 then buscr c
      else if regno = 0x800 then usp c
      else if regno = 0x801 then vbr c
      else if regno = 0x802 then caar c
      else if regno = 0x803 then msp c
      else if regno = 0x804 then isp c
      else if regno = 0x805 then mmusr c
      else if regno = 0x806 then urp c
      else if regno = 0x807 then srp c
      else if regno = 0x808 then pcr c
      else 0)"

section \<open>The registers of each model\<close>

definition movec_illg :: "cpu_prefs \<Rightarrow> int \<Rightarrow> bool" where
  "movec_illg p regno =
     (let regno2 = regno AND 0x7ff
      in if cpu_model p = 68060 then
           \<not> (regno \<le> 8 \<or> regno = 0x800 \<or> regno = 0x801 \<or> regno = 0x806 \<or> regno = 0x807 \<or> regno = 0x808)
         else if cpu_model p = 68010 then \<not> regno2 < 2
         else if cpu_model p = 68020 then
           (if regno = 3 then True else \<not> (regno2 < 4 \<or> regno = 0x804))
         else if cpu_model p = 68030 then
           \<not> (regno2 \<le> 2 \<or> regno = 0x803 \<or> regno = 0x804)
         else if cpu_model p = 68040 then
           (if regno = 0x802 then True else \<not> regno2 < 8)
         else True)"

section \<open>MOVEC\<close>

datatype movec_call = SetCpuCaches | MmuSetTc u32 | MmuTtModified | FlushIcache

datatype movec_error = Exception int | OpIllg int

text \<open>The value that \<^verbatim>\<open>mmu_set_tc\<close> (\<^verbatim>\<open>cpummu.c\<close>) returns for the translation control register.\<close>

definition mmu_set_tc :: "cpu_prefs \<Rightarrow> u16 \<Rightarrow> u16" where
  "mmu_set_tc p tc = (if mmu_ec p then (if cpu_model p = 68040 then 0 else tc AND NOT (0x8000 OR 0x4000)) else tc)"

definition cacr_write_mask :: "cpu_prefs \<Rightarrow> u32" where
  "cacr_write_mask p =
     (if cpu_model p = 68020 then 0x0000000f
      else if cpu_model p = 68030 then 0x00003f1f
      else if cpu_model p = 68040 then 0x80008000
      else if cpu_model p = 68060 then 0xf8e0e000
      else 0)"

definition cacr_read_mask :: "cpu_prefs \<Rightarrow> u32" where
  "cacr_read_mask p =
     (if cpu_model p = 68020 then 0x00000003
      else if cpu_model p = 68030 then 0x00003313
      else if cpu_model p = 68040 then 0x80008000
      else if cpu_model p = 68060 then 0xf880e000
      else 0)"

definition write_pcr :: "cpu_prefs \<Rightarrow> cpu \<Rightarrow> u32 \<Rightarrow> cpu \<times> movec_call list" where
  "write_pcr p c v =
     (let opcr = pcr c;
          n = (pcr c AND NOT (0x40 OR 2 OR 1)) OR (v AND (0x40 OR 2 OR 1));
          n = (if fpu_model p \<le> 0 then n OR 2 else n)
      in (c\<lparr>pcr := n\<rparr>, if (opcr XOR n) AND 2 = 2 then [FlushIcache] else []))"

text \<open>The body of the switch; \<open>None\<close> is its default branch.\<close>

definition move2c_reg :: "cpu_prefs \<Rightarrow> cpu \<Rightarrow> int \<Rightarrow> u32 \<Rightarrow> (cpu \<times> movec_call list) option" where
  "move2c_reg p c regno v =
     (if regno = 0 then Some (c\<lparr>sfc := v AND 7\<rparr>, [])
      else if regno = 1 then Some (c\<lparr>dfc := v AND 7\<rparr>, [])
      else if regno = 2 then Some (c\<lparr>cacr := v AND cacr_write_mask p\<rparr>, [SetCpuCaches])
      else if regno = 3 then
        let t = v AND (if cpu_model p = 68060 then 0xfffe else 0xc000)
        in if mmu_model p \<noteq> 0 then Some (c\<lparr>tcr := ucast (mmu_set_tc p (ucast t))\<rparr>, [MmuSetTc t])
           else Some (c\<lparr>tcr := t\<rparr>, [])
      else if regno = 4 then Some (c\<lparr>itt0 := v AND 0xffffe364\<rparr>, [MmuTtModified])
      else if regno = 5 then Some (c\<lparr>itt1 := v AND 0xffffe364\<rparr>, [MmuTtModified])
      else if regno = 6 then Some (c\<lparr>dtt0 := v AND 0xffffe364\<rparr>, [MmuTtModified])
      else if regno = 7 then Some (c\<lparr>dtt1 := v AND 0xffffe364\<rparr>, [MmuTtModified])
      else if regno = 8 then Some (c\<lparr>buscr := (buscr c AND 0x50000000) OR (v AND 0xa0000000)\<rparr>, [])
      else if regno = 0x800 then Some (c\<lparr>usp := v\<rparr>, [])
      else if regno = 0x801 then Some (c\<lparr>vbr := v\<rparr>, [])
      else if regno = 0x802 then Some (c\<lparr>caar := v\<rparr>, [])
      else if regno = 0x803 then
        Some (if m_flag c then set_areg (c\<lparr>msp := v\<rparr>) 7 v else c\<lparr>msp := v\<rparr>, [])
      else if regno = 0x804 then
        Some (if \<not> m_flag c then set_areg (c\<lparr>isp := v\<rparr>) 7 v else c\<lparr>isp := v\<rparr>, [])
      else if regno = 0x805 then Some (c\<lparr>mmusr := v\<rparr>, [])
      else if regno = 0x806 then Some (c\<lparr>urp := v AND (if cpu_model p = 68060 then 0xfffffe00 else 0xffffffff)\<rparr>, [])
      else if regno = 0x807 then Some (c\<lparr>srp := v AND (if cpu_model p = 68060 then 0xfffffe00 else 0xffffffff)\<rparr>, [])
      else if regno = 0x808 then Some (write_pcr p c v)
      else None)"

definition m68k_move2c :: "cpu_prefs \<Rightarrow> cpu \<Rightarrow> int \<Rightarrow> u32 \<Rightarrow> movec_error + (cpu \<times> movec_call list)" where
  "m68k_move2c p c regno v =
     (if movec_illg p regno then
        (if cpu_model p < 68060 \<and> \<not> s_flag c then Inl (Exception 8) else Inl (OpIllg 0x4E7B))
      else if \<not> s_flag c then Inl (Exception 8)
      else case move2c_reg p c regno v of None \<Rightarrow> Inl (OpIllg 0x4E7B) | Some r \<Rightarrow> Inr r)"

definition movec2_reg :: "cpu_prefs \<Rightarrow> cpu \<Rightarrow> int \<Rightarrow> u32 option" where
  "movec2_reg p c regno =
     (if regno = 0 then Some (sfc c)
      else if regno = 1 then Some (dfc c)
      else if regno = 2 then Some (cacr c AND cacr_read_mask p)
      else if regno = 3 then Some (tcr c)
      else if regno = 4 then Some (itt0 c)
      else if regno = 5 then Some (itt1 c)
      else if regno = 6 then Some (dtt0 c)
      else if regno = 7 then Some (dtt1 c)
      else if regno = 8 then Some (buscr c)
      else if regno = 0x800 then Some (usp c)
      else if regno = 0x801 then Some (vbr c)
      else if regno = 0x802 then Some (caar c)
      else if regno = 0x803 then Some (if m_flag c then m68k_areg c 7 else msp c)
      else if regno = 0x804 then Some (if \<not> m_flag c then m68k_areg c 7 else isp c)
      else if regno = 0x805 then Some (mmusr c)
      else if regno = 0x806 then Some (urp c)
      else if regno = 0x807 then Some (srp c)
      else if regno = 0x808 then Some (pcr c)
      else None)"

definition m68k_movec2 :: "cpu_prefs \<Rightarrow> cpu \<Rightarrow> int \<Rightarrow> movec_error + u32" where
  "m68k_movec2 p c regno =
     (if movec_illg p regno then
        (if cpu_model p < 68060 \<and> \<not> s_flag c then Inl (Exception 8) else Inl (OpIllg 0x4E7A))
      else if \<not> s_flag c then Inl (Exception 8)
      else case movec2_reg p c regno of None \<Rightarrow> Inl (OpIllg 0x4E7A) | Some v \<Rightarrow> Inr v)"

section \<open>The register file\<close>

definition control_regs :: "int set" where
  "control_regs = {0, 1, 2, 3, 4, 5, 6, 7, 8, 0x800, 0x801, 0x802, 0x803, 0x804, 0x805, 0x806, 0x807, 0x808}"

lemma val_move2c2_same: "a \<in> control_regs \<Longrightarrow> val_move2c (val_move2c2 c a v) a = v"
  by (auto simp: control_regs_def val_move2c_def val_move2c2_def)

lemma val_move2c2_other: "b \<noteq> a \<Longrightarrow> val_move2c (val_move2c2 c a v) b = val_move2c c b"
  unfolding val_move2c2_def by (simp add: val_move2c_def)

interpretation control: storage val_move2c val_move2c2 "\<lambda>_. True" control_regs UNIV
  by unfold_locales (auto simp: val_move2c2_same val_move2c2_other)

section \<open>Traps\<close>

lemma and_7ff:
  fixes r :: int
  assumes "0 \<le> r" "r < 0x1000"
  shows "r AND 0x7ff = (if r < 0x800 then r else r - 0x800)"
proof -
  have "r AND 0x7ff = r mod 0x800"
    using take_bit_eq_mod [of 11 r] by (simp add: take_bit_eq_mask mask_eq_exp_minus_1)
  then show ?thesis
    using assms mod_pos_pos_trivial [of r "0x800"] mod_pos_pos_trivial [of "r - 0x800" "0x800"] by (auto simp: minus_mod_self2)
qed

lemma movec_legal_regs:
  assumes "0 \<le> r" "r < 0x1000" "\<not> movec_illg p r"
  shows "r \<in> control_regs"
proof -
  have "r AND 0x7ff < 8 \<or> r \<le> 8 \<or> r \<in> {0x800, 0x801, 0x803, 0x804, 0x806, 0x807, 0x808}"
    using assms(3) by (auto simp: movec_illg_def Let_def split: if_splits)
  then have "r \<in> {0..8} \<or> r \<in> {0x800..0x808}"
    using assms(1,2) by (auto simp: and_7ff split: if_splits)
  then have "r = 0 \<or> r = 1 \<or> r = 2 \<or> r = 3 \<or> r = 4 \<or> r = 5 \<or> r = 6 \<or> r = 7 \<or> r = 8 \<or> r = 0x800 \<or> r = 0x801 \<or>
      r = 0x802 \<or> r = 0x803 \<or> r = 0x804 \<or> r = 0x805 \<or> r = 0x806 \<or> r = 0x807 \<or> r = 0x808"
    by (auto; presburger)
  then show ?thesis by (auto simp: control_regs_def)
qed

lemma switch_total: "r \<in> control_regs \<Longrightarrow> move2c_reg p c r v \<noteq> None \<and> movec2_reg p c r \<noteq> None"
  by (auto simp: control_regs_def move2c_reg_def movec2_reg_def Let_def)

text \<open>The control registers of each model, as its manual lists them.\<close>

definition model_regs :: "int \<Rightarrow> int set" where
  "model_regs m =
     (if m = 68010 then {0, 1, 0x800, 0x801}
      else if m = 68020 \<or> m = 68030 then {0, 1, 2, 0x800, 0x801, 0x802, 0x803, 0x804}
      else if m = 68040 then {0, 1, 2, 3, 4, 5, 6, 7, 0x800, 0x801, 0x803, 0x804, 0x805, 0x806, 0x807}
      else if m = 68060 then {0, 1, 2, 3, 4, 5, 6, 7, 8, 0x800, 0x801, 0x806, 0x807, 0x808}
      else {})"

lemma small_set:
  fixes r :: int
  assumes "0 \<le> r"
  shows "r \<le> 8 \<longleftrightarrow> r \<in> {0, 1, 2, 3, 4, 5, 6, 7, 8}" "r < 8 \<longleftrightarrow> r \<in> {0, 1, 2, 3, 4, 5, 6, 7}"
    "r < 4 \<longleftrightarrow> r \<in> {0, 1, 2, 3}" "r \<le> 2 \<longleftrightarrow> r \<in> {0, 1, 2}" "r < 2 \<longleftrightarrow> r \<in> {0, 1}"
  using assms by auto

lemma shifted_set:
  fixes r :: int
  shows "r - 0x800 \<in> {0, 1, 2, 3, 4, 5, 6, 7} \<longleftrightarrow> r \<in> {0x800, 0x801, 0x802, 0x803, 0x804, 0x805, 0x806, 0x807}"
    "r - 0x800 \<in> {0, 1, 2, 3} \<longleftrightarrow> r \<in> {0x800, 0x801, 0x802, 0x803}"
    "r - 0x800 \<in> {0, 1, 2} \<longleftrightarrow> r \<in> {0x800, 0x801, 0x802}"
    "r - 0x800 \<in> {0, 1} \<longleftrightarrow> r \<in> {0x800, 0x801}"
  by auto

lemma movec_illg_iff:
  assumes "0 \<le> r" "r < 0x1000"
  shows "movec_illg p r \<longleftrightarrow> r \<notin> model_regs (cpu_model p)"
proof (cases "r < 0x800")
  case True
  then have "r AND 0x7ff = r" using assms by (simp add: and_7ff)
  then show ?thesis
    using True unfolding movec_illg_def Let_def by (simp add: small_set [OF assms(1)] model_regs_def)
next
  case False
  then have h: "r AND 0x7ff = r - 0x800" "0 \<le> r - 0x800" using assms by (simp_all add: and_7ff)
  show ?thesis
    using False unfolding movec_illg_def Let_def h(1) small_set [OF h(2)] small_set [OF assms(1)] shifted_set
    by (simp add: model_regs_def)
qed

text \<open>C3: for the 12-bit register numbers of the instruction: in supervisor mode both MOVECs succeed on
  every register that the processor's manual lists for the model, and take the illegal instruction trap
  on every other; in user mode they take the privilege violation, except that a 68060 takes the illegal
  instruction trap for a register it does not have. In particular the default branches of the two
  switches are never reached.\<close>

theorem movec_traps:
  assumes "0 \<le> r" "r < 0x1000"
  shows "(s_flag c \<and> r \<in> model_regs (cpu_model p) \<longrightarrow>
      (\<exists>res. m68k_move2c p c r v = Inr res) \<and> (\<exists>x. m68k_movec2 p c r = Inr x)) \<and>
    (\<not> s_flag c \<and> (r \<in> model_regs (cpu_model p) \<or> cpu_model p < 68060) \<longrightarrow>
      m68k_move2c p c r v = Inl (Exception 8) \<and> m68k_movec2 p c r = Inl (Exception 8)) \<and>
    (r \<notin> model_regs (cpu_model p) \<and> (s_flag c \<or> cpu_model p \<ge> 68060) \<longrightarrow>
      m68k_move2c p c r v = Inl (OpIllg 0x4E7B) \<and> m68k_movec2 p c r = Inl (OpIllg 0x4E7A))"
proof (cases "r \<in> model_regs (cpu_model p)")
  case True
  then have l: "\<not> movec_illg p r" using movec_illg_iff [OF assms] by simp
  then have "move2c_reg p c r v \<noteq> None \<and> movec2_reg p c r \<noteq> None"
    using movec_legal_regs [OF assms] switch_total by blast
  then show ?thesis using True l by (auto simp: m68k_move2c_def m68k_movec2_def)
next
  case False
  then have "movec_illg p r" using movec_illg_iff [OF assms] by simp
  then show ?thesis using False by (auto simp: m68k_move2c_def m68k_movec2_def)
qed

lemma movec_traps_witness:
  "(\<exists>x. m68k_movec2 (prefs_of 68020) cpu0 0x802 = Inr x) \<and>
   m68k_move2c (prefs_of 68040) cpu0 0x802 5 = Inl (OpIllg 0x4E7B) \<and>
   m68k_move2c (prefs_of 68040) (cpu0\<lparr>s_flag := False\<rparr>) 0x802 5 = Inl (Exception 8)"
  using movec_traps [of "0x802" cpu0 "prefs_of 68020" 5] movec_traps [of "0x802" cpu0 "prefs_of 68040" 5]
    movec_traps [of "0x802" "cpu0\<lparr>s_flag := False\<rparr>" "prefs_of 68040" 5]
  by (simp add: model_regs_def prefs_of_def cpu0_def)

section \<open>Read back\<close>

text \<open>The bits of a register that a model implements, as seen through MOVEC.\<close>

definition movec_mask :: "cpu_prefs \<Rightarrow> int \<Rightarrow> u32" where
  "movec_mask p r =
     (if r = 0 \<or> r = 1 then 7
      else if r = 2 then cacr_write_mask p AND cacr_read_mask p
      else if r = 3 then
        (if mmu_model p \<noteq> 0 \<and> mmu_ec p then (if cpu_model p = 68060 then 0x3ffe else 0)
         else if cpu_model p = 68060 then 0xfffe else 0xc000)
      else if r \<in> {4, 5, 6, 7} then 0xffffe364
      else if r \<in> {0x806, 0x807} \<and> cpu_model p = 68060 then 0xfffffe00
      else 0xffffffff)"

lemma val_move2c_regs [simp]: "val_move2c (c\<lparr>regs := x\<rparr>) b = val_move2c c b"
  by (simp add: val_move2c_def)

lemma move2c_writes_one:
  assumes "r \<in> control_regs" "move2c_reg p c r v = Some (t, calls)"
  shows "\<exists>x ra. t = (val_move2c2 c r x)\<lparr>regs := ra\<rparr>"
proof -
  have keep: "\<exists>ra. c = c\<lparr>regs := ra\<rparr>" for c :: cpu
    by (rule exI [of _ "regs c"]) simp
  consider "r = 0x803" | "r = 0x804" | "r = 0x808" | "r = 3" | "r \<in> control_regs - {0x803, 0x804, 0x808, 3}"
    using assms(1) by blast
  then show ?thesis
  proof cases
    case 1
    then show ?thesis
      using assms(2) keep [of "c\<lparr>msp := v\<rparr>"]
      by (auto simp: move2c_reg_def val_move2c2_def set_areg_def split: if_splits)
  next
    case 2
    then show ?thesis
      using assms(2) keep [of "c\<lparr>isp := v\<rparr>"]
      by (auto simp: move2c_reg_def val_move2c2_def set_areg_def split: if_splits)
  next
    case 3
    then show ?thesis
      using assms(2) by (auto simp: move2c_reg_def val_move2c2_def write_pcr_def Let_def intro!: exI [of _ "regs c"])
  next
    case 4
    then show ?thesis
      using assms(2) by (auto simp: move2c_reg_def val_move2c2_def Let_def split: if_splits intro!: exI [of _ "regs c"])
  next
    case 5
    then have "\<exists>x. t = val_move2c2 c r x"
      using assms(2) unfolding control_regs_def
      by (elim DiffE insertE emptyE) (auto simp: move2c_reg_def val_move2c2_def)
    then show ?thesis using keep by metis
  qed
qed

lemma low_half:
  fixes v m :: u32
  assumes "m AND 0xffff = m"
  shows "ucast (ucast (v AND m) :: u16) = v AND m"
proof -
  have "ucast (ucast (v AND m) :: u16) = (v AND m) AND mask 16"
    by (rule bit_word_eqI) (auto simp: bit_simps)
  also have "\<dots> = v AND (m AND 0xffff)" by (simp add: mask_eq_exp_minus_1 and.assoc)
  finally show ?thesis using assms by simp
qed

lemma mmu_set_tc_bits:
  assumes "m = (if cpu_model p = 68060 then 0xfffe else 0xc000)"
  shows "ucast (mmu_set_tc p (ucast (v AND m))) =
    (v AND (if mmu_ec p then (if cpu_model p = 68060 then 0x3ffe else 0) else m) :: u32)"
proof -
  have n: "(NOT (0x8000 OR 0x4000) :: u16) = 0x3fff" "m AND 0xffff = m" using assms by simp_all
  have cut: "ucast (a AND 0x3fff :: u16) = (ucast a AND 0x3fff :: u32)" for a by (simp add: unsigned_and_eq)
  have "ucast ((ucast (v AND m) :: u16) AND 0x3fff) = v AND m AND 0x3fff"
    unfolding cut low_half [OF n(2)] and.assoc ..
  moreover have "m AND 0x3fff = (if cpu_model p = 68060 then 0x3ffe else 0)" using assms by simp
  ultimately have "ucast ((ucast (v AND m) :: u16) AND 0x3fff) = v AND (if cpu_model p = 68060 then 0x3ffe else 0)"
    by (simp only:)
  then show ?thesis
    using low_half [OF n(2), of v] unfolding mmu_set_tc_def n(1) by (auto simp del: unsigned_and_eq)
qed

text \<open>C2: a register written by MOVEC in supervisor mode is read back by MOVEC as the written value
  restricted to the bits that the model implements, and no other control register changes; the
  active stack pointer is read from \<open>A7\<close>, which the write keeps in step. This holds with and without
  an MMU; the translation control register of a processor whose MMU is of the EC kind loses its two upper
  bits, the enable and the page size bit (on a 68040 it has no other). The two registers of the 68060 that keep bits of their own, BUSCR and PCR, are left out.\<close>

theorem movec_read_back:
  assumes "0 \<le> r" "r < 0x1000" "\<not> movec_illg p r" "s_flag c" "cpu_wf c" "r \<noteq> 8" "r \<noteq> 0x808"
  shows "\<exists>t calls. m68k_move2c p c r v = Inr (t, calls) \<and> m68k_movec2 p t r = Inr (v AND movec_mask p r) \<and>
    (\<forall>b \<in> control_regs - {r}. val_move2c t b = val_move2c c b)"
proof -
  have r: "r \<in> control_regs" using movec_legal_regs [OF assms(1-3)] .
  obtain t calls where m: "move2c_reg p c r v = Some (t, calls)"
    using switch_total [OF r, of p c v] by fastforce
  have "(x AND 0xffffffff) = x" for x :: u32
  proof -
    have "(0xffffffff :: u32) = mask 32" by (simp add: mask_eq_exp_minus_1)
    then show ?thesis using take_bit_eq_mask [of 32 x] by (simp add: take_bit_word_eq_self)
  qed
  note ff = this
  have rd: "movec2_reg p t r = Some (v AND movec_mask p r) \<and> s_flag t = s_flag c"
    using m r assms(3,5,6,7)
    by (auto simp: control_regs_def move2c_reg_def movec2_reg_def movec_mask_def Let_def cpu_wf_def ff mmu_set_tc_bits
        set_areg_def m68k_areg_def and.assoc split: if_splits)
  have frame: "val_move2c t b = val_move2c c b" if "b \<noteq> r" for b
    using move2c_writes_one [OF r m] that val_move2c2_other by auto
  show ?thesis
    using m rd frame assms(3,4) by (auto simp: m68k_move2c_def m68k_movec2_def)
qed


lemma movec_read_back_witness:
  "\<exists>t calls. m68k_move2c (prefs_of 68030) cpu0 2 0xffffffff = Inr (t, calls) \<and> m68k_movec2 (prefs_of 68030) t 2 = Inr 0x3313"
proof -
  have "\<not> movec_illg (prefs_of 68030) 2" by (simp add: movec_illg_def prefs_of_def)
  from movec_read_back [OF _ _ this, of cpu0 "0xffffffff"] show ?thesis
    by (auto simp: cpu0_def prefs_of_def movec_mask_def cacr_write_mask_def cacr_read_mask_def cpu_wf_def)
qed

end
