(* ===== verification/Bitfield.thy ===== *)
theory Bitfield
  imports Memory
begin

text \<open>
  Bit field access of the BFxxx instructions (\<^verbatim>\<open>newcpu_common.c\<close>): \<^verbatim>\<open>get_bitfield\<close> extracts a field
  of 1 to 32 bits at any bit offset into the upper bits of a register and keeps the bits around it;
  \<^verbatim>\<open>put_bitfield\<close> writes the field back between them. The \<^verbatim>\<open>x_\<close> variants do the same through the
  cycle-exact accessors. The accessors are parameters, so that one definition serves every bus; reads
  may change the state of a device and any access may fail. A field of more than five bytes, which
  the code reports as impossible, reads as zero and writes nothing.

  Shown: on RAM, the field read is the bit string of the memory, most significant bit first, and
  writing it back changes those bits and no others.
\<close>

section \<open>Extraction and insertion\<close>

type_synonym 's getter = "'s \<Rightarrow> u32 \<Rightarrow> (u32 \<times> 's) option"
type_synonym 's putter = "'s \<Rightarrow> u32 \<Rightarrow> u32 \<Rightarrow> 's option"

definition bf_offset :: "int \<Rightarrow> nat" where
  "bf_offset offset = nat (offset AND 7)"

definition bf_mask :: "nat \<Rightarrow> u32" where
  "bf_mask width = push_bit (32 - width) (NOT 0)"

text \<open>The result, the two words of \<^verbatim>\<open>bdata\<close>, and the state.\<close>

definition get_bitfield ::
  "'s getter \<Rightarrow> 's getter \<Rightarrow> 's getter \<Rightarrow> 's \<Rightarrow> u32 \<Rightarrow> u32 \<times> u32 \<Rightarrow> int \<Rightarrow> nat \<Rightarrow> ((u32 \<times> u32 \<times> u32) \<times> 's) option" where
  "get_bitfield get_byte get_word get_long s src bdata offset width =
     (let ofs = bf_offset offset; m = bf_mask width; n = drop_bit 3 (ofs + width + 7)
      in if n = 1 then do {
           (tmp, s) \<leftarrow> get_byte s src;
           Some ((push_bit (24 + ofs) tmp, tmp AND NOT (drop_bit (24 + ofs) m), snd bdata), s) }
         else if n = 2 then do {
           (tmp, s) \<leftarrow> get_word s src;
           Some ((push_bit (16 + ofs) tmp, tmp AND NOT (drop_bit (16 + ofs) m), snd bdata), s) }
         else if n = 3 then do {
           (tmp, s) \<leftarrow> get_word s src;
           let res = push_bit (16 + ofs) tmp;
           let b0 = tmp AND NOT (drop_bit (16 + ofs) m);
           (tmp, s) \<leftarrow> get_byte s (src + 2);
           Some ((res OR push_bit (8 + ofs) tmp, b0, tmp AND NOT (drop_bit (8 + ofs) m)), s) }
         else if n = 4 then do {
           (tmp, s) \<leftarrow> get_long s src;
           Some ((push_bit ofs tmp, tmp AND NOT (drop_bit ofs m), snd bdata), s) }
         else if n = 5 then do {
           (tmp, s) \<leftarrow> get_long s src;
           let res = push_bit ofs tmp;
           let b0 = tmp AND NOT (drop_bit ofs m);
           (tmp, s) \<leftarrow> get_byte s (src + 4);
           Some ((res OR drop_bit (8 - ofs) tmp, b0, tmp AND NOT (push_bit (8 - ofs) m)), s) }
         else Some ((0, bdata), s))"

definition put_bitfield ::
  "'s putter \<Rightarrow> 's putter \<Rightarrow> 's putter \<Rightarrow> 's \<Rightarrow> u32 \<Rightarrow> u32 \<times> u32 \<Rightarrow> u32 \<Rightarrow> int \<Rightarrow> nat \<Rightarrow> 's option" where
  "put_bitfield put_byte put_word put_long s dst bdata val offset width =
     (let ofs = bf_offset offset + width; n = drop_bit 3 (ofs + 7)
      in if n = 1 then put_byte s dst (fst bdata OR push_bit (8 - ofs) val)
         else if n = 2 then put_word s dst (fst bdata OR push_bit (16 - ofs) val)
         else if n = 3 then do {
           s \<leftarrow> put_word s dst (fst bdata OR drop_bit (ofs - 16) val);
           put_byte s (dst + 2) (snd bdata OR push_bit (24 - ofs) val) }
         else if n = 4 then put_long s dst (fst bdata OR push_bit (32 - ofs) val)
         else if n = 5 then do {
           s \<leftarrow> put_long s dst (fst bdata OR drop_bit (ofs - 32) val);
           put_byte s (dst + 4) (snd bdata OR push_bit (40 - ofs) val) }
         else Some s)"

text \<open>The cycle-exact variants read both parts before they combine them.\<close>

definition x_get_bitfield ::
  "'s getter \<Rightarrow> 's getter \<Rightarrow> 's getter \<Rightarrow> 's \<Rightarrow> u32 \<Rightarrow> u32 \<times> u32 \<Rightarrow> int \<Rightarrow> nat \<Rightarrow> ((u32 \<times> u32 \<times> u32) \<times> 's) option" where
  "x_get_bitfield x_cp_get_byte x_cp_get_word x_cp_get_long s src bdata offset width =
     (let ofs = bf_offset offset; m = bf_mask width; n = drop_bit 3 (ofs + width + 7)
      in if n = 1 then do {
           (tmp1, s) \<leftarrow> x_cp_get_byte s src;
           Some ((push_bit (24 + ofs) tmp1, tmp1 AND NOT (drop_bit (24 + ofs) m), snd bdata), s) }
         else if n = 2 then do {
           (tmp1, s) \<leftarrow> x_cp_get_word s src;
           Some ((push_bit (16 + ofs) tmp1, tmp1 AND NOT (drop_bit (16 + ofs) m), snd bdata), s) }
         else if n = 3 then do {
           (tmp1, s) \<leftarrow> x_cp_get_word s src;
           (tmp2, s) \<leftarrow> x_cp_get_byte s (src + 2);
           Some ((push_bit (16 + ofs) tmp1 OR push_bit (8 + ofs) tmp2,
             tmp1 AND NOT (drop_bit (16 + ofs) m), tmp2 AND NOT (drop_bit (8 + ofs) m)), s) }
         else if n = 4 then do {
           (tmp1, s) \<leftarrow> x_cp_get_long s src;
           Some ((push_bit ofs tmp1, tmp1 AND NOT (drop_bit ofs m), snd bdata), s) }
         else if n = 5 then do {
           (tmp1, s) \<leftarrow> x_cp_get_long s src;
           (tmp2, s) \<leftarrow> x_cp_get_byte s (src + 4);
           Some ((push_bit ofs tmp1 OR drop_bit (8 - ofs) tmp2,
             tmp1 AND NOT (drop_bit ofs m), tmp2 AND NOT (push_bit (8 - ofs) m)), s) }
         else Some ((0, bdata), s))"

definition x_put_bitfield ::
  "'s putter \<Rightarrow> 's putter \<Rightarrow> 's putter \<Rightarrow> 's \<Rightarrow> u32 \<Rightarrow> u32 \<times> u32 \<Rightarrow> u32 \<Rightarrow> int \<Rightarrow> nat \<Rightarrow> 's option" where
  "x_put_bitfield x_cp_put_byte x_cp_put_word x_cp_put_long s dst bdata val offset width =
     (let ofs = bf_offset offset + width; n = drop_bit 3 (ofs + 7)
      in if n = 1 then x_cp_put_byte s dst (fst bdata OR push_bit (8 - ofs) val)
         else if n = 2 then x_cp_put_word s dst (fst bdata OR push_bit (16 - ofs) val)
         else if n = 3 then do {
           s \<leftarrow> x_cp_put_word s dst (fst bdata OR drop_bit (ofs - 16) val);
           x_cp_put_byte s (dst + 2) (snd bdata OR push_bit (24 - ofs) val) }
         else if n = 4 then x_cp_put_long s dst (fst bdata OR push_bit (32 - ofs) val)
         else if n = 5 then do {
           s \<leftarrow> x_cp_put_long s dst (fst bdata OR drop_bit (ofs - 32) val);
           x_cp_put_byte s (dst + 4) (snd bdata OR push_bit (40 - ofs) val) }
         else Some s)"

lemma x_bitfield_eq: "x_get_bitfield = get_bitfield" "x_put_bitfield = put_bitfield"
  by (intro ext, simp add: x_get_bitfield_def get_bitfield_def Let_def)
     (intro ext, simp add: x_put_bitfield_def put_bitfield_def)

section \<open>The field as a bit string\<close>

lemma bf_offset_less: "bf_offset offset < 8"
proof -
  have "offset AND 7 = offset mod 8"
    using take_bit_eq_mod [of 3 offset] by (simp add: take_bit_eq_mask mask_eq_exp_minus_1)
  then show ?thesis by (simp add: bf_offset_def nat_less_iff)
qed

lemma drop_bit_3: "drop_bit 3 (n :: nat) = n div 8"
  by (simp add: drop_bit_eq_div)

lemma bit_bf_mask: "1 \<le> w \<Longrightarrow> w \<le> 32 \<Longrightarrow> bit (bf_mask w) k \<longleftrightarrow> 32 - w \<le> k \<and> k < 32"
  by (auto simp: bf_mask_def bit_simps)

lemma bit_be16: "bit (be16 a b) k \<longleftrightarrow> (if k < 8 then bit b k else k < 16 \<and> bit a (k - 8))"
  by (auto simp: be16_def bit_simps dest: bit_imp_le_length)

lemma bit_be32: "bit (be32 a b c d) k \<longleftrightarrow>
   (if k < 8 then bit d k else if k < 16 then bit c (k - 8) else if k < 24 then bit b (k - 16) else k < 32 \<and> bit a (k - 24))"
  by (auto simp: be32_def bit_simps dest: bit_imp_le_length)

lemmas bf_bits = bit_bf_mask bit_be16 bit_be32 bit_and_iff bit_or_iff bit_not_iff bit_push_bit_iff bit_drop_bit_eq
  bit_ucast_iff possible_bit_word comp_def

text \<open>
  With \<open>d\<close> bits to the right of a field of \<open>w\<close> bits in a sequence of bytes, bit \<open>g\<close> of the sequence,
  counted from the right, is bit \<open>g - d\<close> of the field when it lies in it.
\<close>

definition spliced :: "nat \<Rightarrow> nat \<Rightarrow> u32 \<Rightarrow> nat \<Rightarrow> bool \<Rightarrow> bool" where
  "spliced d w val g old = (if d \<le> g \<and> g < d + w then bit val (g - d) else old)"

lemma splice_low:
  assumes "1 \<le> w" "d + w \<le> 32" "g < 32" "\<forall>i \<ge> w. \<not> bit val i"
  shows "bit ((T AND NOT (drop_bit (32 - (w + d)) (bf_mask w))) OR push_bit d val) g = spliced d w val g (bit T g)"
proof -
  have "32 - w \<le> 32 - (w + d) + g \<and> 32 - (w + d) + g < 32 \<longleftrightarrow> d \<le> g \<and> g < d + w" using assms by arith
  moreover have "d + w \<le> g \<Longrightarrow> \<not> bit val (g - d)" using assms(4) by simp
  ultimately show ?thesis
    using assms by (auto simp: spliced_def bf_bits)
qed

lemma splice_high:
  assumes "1 \<le> w" "w \<le> 32" "d < 8" "d + w \<le> 40" "g + 8 < 40" "\<forall>i \<ge> w. \<not> bit val i"
  shows "bit ((T AND NOT (drop_bit (40 - (w + d)) (bf_mask w))) OR drop_bit (8 - d) val) g = spliced d w val (g + 8) (bit T g)"
proof -
  have "32 - w \<le> 40 - (w + d) + g \<and> 40 - (w + d) + g < 32 \<longleftrightarrow> d \<le> g + 8 \<and> g + 8 < d + w" using assms by arith
  moreover have "8 - d + g = g + 8 - d" using assms(3) by arith
  moreover have "d + w \<le> g + 8 \<Longrightarrow> \<not> bit val (g + 8 - d)" using assms(6) by simp
  ultimately show ?thesis
    using assms by (auto simp: spliced_def bf_bits)
qed

lemma splice_last:
  assumes "1 \<le> w" "w \<le> 32" "d < 8" "32 < d + w" "g < 8" "\<forall>i \<ge> w. \<not> bit val i"
  shows "bit ((T AND NOT (push_bit (w + d - 32) (bf_mask w))) OR push_bit d val) g = spliced d w val g (bit T g)"
proof -
  have "w + d - 32 \<le> g \<and> 32 - w \<le> g - (w + d - 32) \<and> g - (w + d - 32) < 32 \<longleftrightarrow> d \<le> g" using assms by arith
  moreover have "g < d + w" using assms by arith
  ultimately show ?thesis
    using assms by (auto simp: spliced_def bf_bits)
qed

text \<open>The field itself, shifted down as the callers do.\<close>

lemma extract_low:
  assumes "1 \<le> w" "d + w \<le> 32" "i < w"
  shows "bit (drop_bit (32 - w) (push_bit (32 - (w + d)) T)) i = bit (T :: u32) (d + i)"
proof -
  have "32 - w + i - (32 - (w + d)) = d + i" "32 - (w + d) \<le> 32 - w + i" "32 - w + i < 32" using assms by arith+
  then show ?thesis by (simp add: bf_bits)
qed

lemma extract_high:
  assumes "1 \<le> w" "w \<le> 32" "d < 8" "d + w \<le> 40" "8 < d + w" "i < w"
  shows "bit (drop_bit (32 - w) (push_bit (40 - (w + d)) T)) i = (8 \<le> d + i \<and> bit (T :: u32) (d + i - 8))"
proof -
  have "32 - w + i - (40 - (w + d)) = d + i - 8" "40 - (w + d) \<le> 32 - w + i \<longleftrightarrow> 8 \<le> d + i" "32 - w + i < 32" using assms by arith+
  then show ?thesis by (simp add: bf_bits)
qed

lemma extract_last:
  assumes "1 \<le> w" "w \<le> 32" "d < 8" "32 < d + w" "i < w"
  shows "bit (drop_bit (32 - w) (drop_bit (d + w - 32) T)) i = bit (T :: u32) (d + i)"
proof -
  have "d + w - 32 + (32 - w + i) = d + i" using assms by arith
  then show ?thesis by (simp add: bf_bits)
qed



context ram_bus
begin

text \<open>Bit \<open>g\<close>, from the right, of the \<open>n\<close> bytes from \<open>a\<close>.\<close>

definition seq_bit :: "'s \<Rightarrow> u32 \<Rightarrow> nat \<Rightarrow> nat \<Rightarrow> bool" where
  "seq_bit s a n g = bit (byte s (a + of_nat (n - 1 - g div 8))) (g mod 8)"

lemma seq_bit_Suc:
  "0 < n \<Longrightarrow> g < 8 * Suc n \<Longrightarrow>
   seq_bit s a (Suc n) g = (if g < 8 then seq_bit s (a + of_nat n) 1 g else seq_bit s a n (g - 8))"
  by (auto simp: seq_bit_def le_div_geq le_mod_geq diff_diff_left)

definition other_bytes_kept :: "'s \<Rightarrow> 's \<Rightarrow> u32 \<Rightarrow> nat \<Rightarrow> bool" where
  "other_bytes_kept s t a n \<longleftrightarrow> (\<forall>b \<in> win. (\<forall>q < n. b \<noteq> a + of_nat q) \<longrightarrow> byte t b = byte s b)"

lemma other_bytes_kept_trans:
  "other_bytes_kept s t a m \<Longrightarrow> other_bytes_kept t u (a + of_nat m) n \<Longrightarrow> other_bytes_kept s u a (m + n)"
  unfolding other_bytes_kept_def
  by (metis (no_types, lifting) add.assoc nat_add_left_cancel_less of_nat_add trans_less_add1)

lemma all_less_16: "(\<forall>g < 16. P g) \<longleftrightarrow> (\<forall>k < (8 :: nat). P k \<and> P (8 + k))"
proof -
  have "g < 16 \<Longrightarrow> (\<exists>k < 8. g = k \<or> g = 8 + k)" for g :: nat by presburger
  then show ?thesis by fastforce
qed

lemma all_less_32: "(\<forall>g < 32. P g) \<longleftrightarrow> (\<forall>k < (8 :: nat). P k \<and> P (8 + k) \<and> P (16 + k) \<and> P (24 + k))"
proof -
  have "g < 32 \<Longrightarrow> (\<exists>k < 8. g = k \<or> g = 8 + k \<or> g = 16 + k \<or> g = 24 + k)" for g :: nat by presburger
  then show ?thesis by fastforce
qed

lemma div_mod_byte:
  assumes "(k :: nat) < 8"
  shows "(8 + k) div 8 = 1" "(8 + k) mod 8 = k" "(16 + k) div 8 = 2" "(16 + k) mod 8 = k"
    "(24 + k) div 8 = 3" "(24 + k) mod 8 = k"
proof -
  have "(8 * q + k) div 8 = q \<and> (8 * q + k) mod 8 = k" for q using assms by simp
  from this [of 1] this [of 2] this [of 3] show "(8 + k) div 8 = 1" "(8 + k) mod 8 = k" "(16 + k) div 8 = 2" "(16 + k) mod 8 = k"
    "(24 + k) div 8 = 3" "(24 + k) mod 8 = k" by simp_all
qed

lemma seq_bit_2:
  "k < 8 \<Longrightarrow> seq_bit s a 2 k = bit (byte s (a + 1)) k" "k < 8 \<Longrightarrow> seq_bit s a 2 (8 + k) = bit (byte s a) k"
  by (simp_all add: seq_bit_def div_mod_byte)

lemma seq_bit_4:
  "k < 8 \<Longrightarrow> seq_bit s a 4 k = bit (byte s (a + 3)) k" "k < 8 \<Longrightarrow> seq_bit s a 4 (8 + k) = bit (byte s (a + 2)) k"
  "k < 8 \<Longrightarrow> seq_bit s a 4 (16 + k) = bit (byte s (a + 1)) k" "k < 8 \<Longrightarrow> seq_bit s a 4 (24 + k) = bit (byte s a) k"
  by (simp_all add: seq_bit_def div_mod_byte)

lemma get8_bits:
  assumes "ok s" "room a 1"
  shows "\<exists>x. get8 s a = Some (x, s) \<and> (\<forall>g < 8. bit x g = seq_bit s a 1 g) \<and> (\<forall>g \<ge> 8. \<not> bit x g)"
  using get8 [OF assms] by (auto simp: seq_bit_def bit_ucast_iff dest: bit_imp_le_length)

lemma get16_bits:
  assumes "ok s" "room a 2"
  shows "\<exists>x. get16 s a = Some (x, s) \<and> (\<forall>g < 16. bit x g = seq_bit s a 2 g)"
  using get16 [OF assms] by (simp add: bit_ucast_iff bit_be16 all_less_16 seq_bit_2)

lemma get32_bits:
  assumes "ok s" "room a 4"
  shows "\<exists>x. get32 s a = Some (x, s) \<and> (\<forall>g < 32. bit x g = seq_bit s a 4 g)"
  using get32 [OF assms] by (auto simp: seq_bit_def bit_be32 all_less_32 div_mod_byte)

lemma put8_bits:
  assumes "ok s" "room a 1"
  shows "\<exists>t. put8 s a v = Some t \<and> ok t \<and> (\<forall>g < 8. seq_bit t a 1 g = bit v g) \<and> other_bytes_kept s t a 1"
proof -
  have "a \<in> win" using room_window [OF assms, of 0] by simp
  then show ?thesis
    using put8 [OF assms, of v] by (fastforce simp: seq_bit_def bit_ucast_iff other_bytes_kept_def)
qed

lemma put16_bits:
  assumes "ok s" "room a 2"
  shows "\<exists>t. put16 s a v = Some t \<and> ok t \<and> (\<forall>g < 16. seq_bit t a 2 g = bit v g) \<and> other_bytes_kept s t a 2"
proof -
  obtain t where t: "put16 s a v = Some t" "ok t"
    "\<forall>b \<in> win. byte t b = (if b = a then ucast (drop_bit 8 v) else if b = a + 1 then ucast v else byte s b)"
    using put16 [OF assms] by blast
  have w: "a \<in> win" "a + 1 \<in> win" using room_window [OF assms, of 0] room_window [OF assms, of 1] by simp_all
  have "\<forall>g < 16. seq_bit t a 2 g = bit v g"
    using t(3) w by (simp add: bit_ucast_iff bit_drop_bit_eq all_less_16 seq_bit_2 comp_def)
  moreover have "other_bytes_kept s t a 2"
    using t(3) by (auto simp: other_bytes_kept_def less_Suc_eq numeral_eq_Suc)
  ultimately show ?thesis using t by blast
qed

lemma put32_bits:
  assumes "ok s" "room a 4"
  shows "\<exists>t. put32 s a v = Some t \<and> ok t \<and> (\<forall>g < 32. seq_bit t a 4 g = bit v g) \<and> other_bytes_kept s t a 4"
proof -
  obtain t where t: "put32 s a v = Some t" "ok t"
    "\<forall>b \<in> win. byte t b =
        (if b = a then ucast (drop_bit 24 v) else if b = a + 1 then ucast (drop_bit 16 v)
         else if b = a + 2 then ucast (drop_bit 8 v) else if b = a + 3 then ucast v else byte s b)"
    using put32 [OF assms] by blast
  have w: "a \<in> win" "a + 1 \<in> win" "a + 2 \<in> win" "a + 3 \<in> win"
    using room_window [OF assms, of 0] room_window [OF assms, of 1] room_window [OF assms, of 2]
      room_window [OF assms, of 3] by simp_all
  have "\<forall>g < 32. seq_bit t a 4 g = bit v g"
    using t(3) w by (simp add: bit_ucast_iff bit_drop_bit_eq all_less_32 seq_bit_4 comp_def)
  moreover have "other_bytes_kept s t a 4"
    using t(3) by (auto simp: other_bytes_kept_def less_Suc_eq numeral_eq_Suc)
  ultimately show ?thesis using t by blast
qed


text \<open>What the two operations do on \<open>n\<close> bytes with \<open>d\<close> bits to the right of the field.\<close>

definition field_read :: "'s \<Rightarrow> u32 \<Rightarrow> nat \<Rightarrow> nat \<Rightarrow> nat \<Rightarrow> u32 \<Rightarrow> bool" where
  "field_read s a n d w res \<longleftrightarrow> (\<forall>i < w. bit (drop_bit (32 - w) res) i = seq_bit s a n (d + i))"

definition field_written :: "'s \<Rightarrow> 's \<Rightarrow> u32 \<Rightarrow> nat \<Rightarrow> nat \<Rightarrow> nat \<Rightarrow> u32 \<Rightarrow> bool" where
  "field_written s t a n d w val \<longleftrightarrow>
     (\<forall>g < 8 * n. seq_bit t a n g = spliced d w val g (seq_bit s a n g)) \<and> other_bytes_kept s t a n"

lemma field_written_parts:
  assumes "0 < m" "m \<le> 4" "ok s" "room a (m + 1)"
    and "\<forall>g < 8 * m. seq_bit t a m g = spliced d w val (g + 8) (seq_bit s a m g)" "other_bytes_kept s t a m"
    and "\<forall>g < 8. seq_bit u (a + of_nat m) 1 g = spliced d w val g (seq_bit s (a + of_nat m) 1 g)"
      "other_bytes_kept t u (a + of_nat m) 1"
  shows "field_written s u a (Suc m) d w val"
proof -
  have "byte u (a + of_nat q) = byte t (a + of_nat q)" if "q < m" for q
  proof -
    have "a + of_nat q \<in> win" using that room_window [OF assms(3,4), of q] by simp
    moreover have "(of_nat q :: u32) \<noteq> of_nat m"
      using that assms(2) by (simp add: word_of_nat_eq_iff take_bit_nat_eq_self)
    ultimately show ?thesis using assms(8) by (auto simp: other_bytes_kept_def)
  qed
  then have "\<forall>g. seq_bit u a m g = seq_bit t a m g"
    using assms(1) by (simp add: seq_bit_def)
  then have "seq_bit u a (Suc m) g = spliced d w val g (seq_bit s a (Suc m) g)" if "g < 8 * Suc m" for g
    using that assms(1,5,7) by (auto simp: seq_bit_Suc)
  moreover have "other_bytes_kept s u a (Suc m)"
    using other_bytes_kept_trans [OF assms(6,8)] by simp
  ultimately show ?thesis unfolding field_written_def by blast
qed

lemma field_read_parts:
  assumes "0 < m" "m \<le> 4" "d + w \<le> 8 * Suc m"
    and "\<forall>g < 8 * m. bit x g = seq_bit s a m g" "\<forall>g < 8. bit y g = seq_bit s (a + of_nat m) 1 g" "\<forall>g \<ge> 8. \<not> bit y g"
    and "\<And>i. i < w \<Longrightarrow> bit (drop_bit (32 - w) res) i = (8 \<le> d + i \<and> bit x (d + i - 8) \<or> bit y (d + i))"
  shows "field_read s a (Suc m) d w res"
  unfolding field_read_def
proof (intro allI impI)
  fix i assume "i < w"
  then have i: "d + i < 8 * Suc m" using assms(3) by simp
  show "bit (drop_bit (32 - w) res) i = seq_bit s a (Suc m) (d + i)"
  proof (cases "d + i < 8")
    case True
    then show ?thesis using assms(7) [OF \<open>i < w\<close>] seq_bit_Suc [OF assms(1) i] assms(5) by simp
  next
    case False
    then show ?thesis using assms(7) [OF \<open>i < w\<close>] seq_bit_Suc [OF assms(1) i] assms(4,6) i by simp
  qed
qed

text \<open>What a pair of calls achieves: the value read, and the memory written back with another.\<close>

definition transfers :: "'s \<Rightarrow> u32 \<Rightarrow> u32 \<times> u32 \<Rightarrow> int \<Rightarrow> nat \<Rightarrow> nat \<Rightarrow> nat \<Rightarrow> u32 \<Rightarrow> bool" where
  "transfers s a bd offset w n d val \<longleftrightarrow>
     (\<exists>res bd' t. get_bitfield get8 get16 get32 s a bd offset w = Some ((res, bd'), s) \<and> field_read s a n d w res \<and>
        put_bitfield put8 put16 put32 s a bd' val offset w = Some t \<and> ok t \<and> field_written s t a n d w val)"

lemma bitfield_one:
  assumes "ok s" "room a 1" "1 \<le> w" "bf_offset offset + w + d = 8" "\<forall>i \<ge> w. \<not> bit val i"
  shows "transfers s a bd offset w 1 d val"
proof -
  have e: "24 + bf_offset offset = 32 - (w + d)" "8 - (bf_offset offset + w) = d" "drop_bit 3 (bf_offset offset + w + 7) = 1"
    using assms(3,4) by (simp_all add: drop_bit_3)
  obtain x where x: "get8 s a = Some (x, s)" "\<forall>g < 8. bit x g = seq_bit s a 1 g"
    using get8_bits [OF assms(1,2)] by blast
  define b0 where "b0 = x AND NOT (drop_bit (32 - (w + d)) (bf_mask w))"
  have g: "get_bitfield get8 get16 get32 s a bd offset w = Some ((push_bit (32 - (w + d)) x, b0, snd bd), s)"
    using x(1) e by (simp add: get_bitfield_def b0_def)
  obtain t where t: "put8 s a (b0 OR push_bit d val) = Some t" "ok t"
    "\<forall>g < 8. seq_bit t a 1 g = bit (b0 OR push_bit d val) g" "other_bytes_kept s t a 1"
    using put8_bits [OF assms(1,2)] by blast
  have p: "put_bitfield put8 put16 put32 s a (b0, snd bd) val offset w = Some t"
    using t(1) e by (simp add: put_bitfield_def add.assoc)
  have "field_read s a 1 d w (push_bit (32 - (w + d)) x)"
    unfolding field_read_def using assms(3,4) x(2) by (auto simp: extract_low)
  moreover have "field_written s t a 1 d w val"
    unfolding field_written_def using t(3,4) assms(3-5) x(2) by (simp add: b0_def splice_low)
  ultimately show ?thesis unfolding transfers_def using g p t(2) by blast
qed

lemma bitfield_two:
  assumes "ok s" "room a 2" "1 \<le> w" "8 < bf_offset offset + w" "bf_offset offset + w + d = 16" "\<forall>i \<ge> w. \<not> bit val i"
  shows "transfers s a bd offset w 2 d val"
proof -
  have e: "16 + bf_offset offset = 32 - (w + d)" "16 - (bf_offset offset + w) = d" "drop_bit 3 (bf_offset offset + w + 7) = 2"
    using assms(3-5) by (simp_all add: drop_bit_3)
  obtain x where x: "get16 s a = Some (x, s)" "\<forall>g < 16. bit x g = seq_bit s a 2 g"
    using get16_bits [OF assms(1,2)] by blast
  define b0 where "b0 = x AND NOT (drop_bit (32 - (w + d)) (bf_mask w))"
  have g: "get_bitfield get8 get16 get32 s a bd offset w = Some ((push_bit (32 - (w + d)) x, b0, snd bd), s)"
    using x(1) e by (simp add: get_bitfield_def b0_def)
  obtain t where t: "put16 s a (b0 OR push_bit d val) = Some t" "ok t"
    "\<forall>g < 16. seq_bit t a 2 g = bit (b0 OR push_bit d val) g" "other_bytes_kept s t a 2"
    using put16_bits [OF assms(1,2)] by blast
  have p: "put_bitfield put8 put16 put32 s a (b0, snd bd) val offset w = Some t"
    using t(1) e by (simp add: put_bitfield_def add.assoc)
  have "field_read s a 2 d w (push_bit (32 - (w + d)) x)"
    unfolding field_read_def using assms(3,5) x(2) by (auto simp: extract_low)
  moreover have "field_written s t a 2 d w val"
    unfolding field_written_def using t(3,4) assms(3,5,6) x(2) by (simp add: b0_def splice_low)
  ultimately show ?thesis unfolding transfers_def using g p t(2) by blast
qed

lemma bitfield_four:
  assumes "ok s" "room a 4" "1 \<le> w" "24 < bf_offset offset + w" "bf_offset offset + w + d = 32" "\<forall>i \<ge> w. \<not> bit val i"
  shows "transfers s a bd offset w 4 d val"
proof -
  have e: "bf_offset offset = 32 - (w + d)" "32 - (bf_offset offset + w) = d" "drop_bit 3 (bf_offset offset + w + 7) = 4"
    using assms(3-5) by (simp_all add: drop_bit_3)
  obtain x where x: "get32 s a = Some (x, s)" "\<forall>g < 32. bit x g = seq_bit s a 4 g"
    using get32_bits [OF assms(1,2)] by blast
  define b0 where "b0 = x AND NOT (drop_bit (32 - (w + d)) (bf_mask w))"
  have g: "get_bitfield get8 get16 get32 s a bd offset w = Some ((push_bit (32 - (w + d)) x, b0, snd bd), s)"
    using x(1) e(3) unfolding get_bitfield_def b0_def Let_def by (simp flip: e(1))
  obtain t where t: "put32 s a (b0 OR push_bit d val) = Some t" "ok t"
    "\<forall>g < 32. seq_bit t a 4 g = bit (b0 OR push_bit d val) g" "other_bytes_kept s t a 4"
    using put32_bits [OF assms(1,2)] by blast
  have p: "put_bitfield put8 put16 put32 s a (b0, snd bd) val offset w = Some t"
    using t(1) e(2,3) by (simp add: put_bitfield_def add.assoc)
  have "field_read s a 4 d w (push_bit (32 - (w + d)) x)"
    unfolding field_read_def using assms(3,5) x(2) by (auto simp: extract_low)
  moreover have "field_written s t a 4 d w val"
    unfolding field_written_def using t(3,4) assms(3,5,6) x(2) by (simp add: b0_def splice_low)
  ultimately show ?thesis unfolding transfers_def using g p t(2) by blast
qed

lemma bitfield_three:
  assumes "ok s" "room a 3" "1 \<le> w" "16 < bf_offset offset + w" "bf_offset offset + w + d = 24" "\<forall>i \<ge> w. \<not> bit val i"
  shows "transfers s a bd offset w 3 d val"
proof -
  have e: "16 + bf_offset offset = 40 - (w + d)" "8 + bf_offset offset = 32 - (w + d)" "bf_offset offset + w - 16 = 8 - d"
    "24 - (bf_offset offset + w) = d" "drop_bit 3 (bf_offset offset + w + 7) = 3" "d < 8" "8 < d + w"
    using assms(3-5) bf_offset_less [of offset] by (simp_all add: drop_bit_3)
  have r: "room a 2" "room (a + 2) 1"
    using room_split(1) [of a 2 1] room_split(2) [OF assms(1), of 1 a 2] assms(2) by simp_all
  obtain x where x: "get16 s a = Some (x, s)" "\<forall>g < 16. bit x g = seq_bit s a 2 g"
    using get16_bits [OF assms(1) r(1)] by blast
  obtain y where y: "get8 s (a + 2) = Some (y, s)" "\<forall>g < 8. bit y g = seq_bit s (a + 2) 1 g" "\<forall>g \<ge> 8. \<not> bit y g"
    using get8_bits [OF assms(1) r(2)] by blast
  define b0 b1 res where "b0 = x AND NOT (drop_bit (40 - (w + d)) (bf_mask w))"
    and "b1 = y AND NOT (drop_bit (32 - (w + d)) (bf_mask w))"
    and "res = push_bit (40 - (w + d)) x OR push_bit (32 - (w + d)) y"
  have g: "get_bitfield get8 get16 get32 s a bd offset w = Some ((res, b0, b1), s)"
    using x(1) y(1) e by (simp add: get_bitfield_def b0_def b1_def res_def Let_def)
  obtain t where t: "put16 s a (b0 OR drop_bit (8 - d) val) = Some t" "ok t"
    "\<forall>g < 16. seq_bit t a 2 g = bit (b0 OR drop_bit (8 - d) val) g" "other_bytes_kept s t a 2"
    using put16_bits [OF assms(1) r(1)] by blast
  obtain u where u: "put8 t (a + 2) (b1 OR push_bit d val) = Some u" "ok u"
    "\<forall>g < 8. seq_bit u (a + 2) 1 g = bit (b1 OR push_bit d val) g" "other_bytes_kept t u (a + 2) 1"
    using put8_bits [OF t(2) r(2)] by blast
  have p: "put_bitfield put8 put16 put32 s a (b0, b1) val offset w = Some u"
    using t(1) u(1) e by (simp add: put_bitfield_def add.assoc)
  have "bit (drop_bit (32 - w) res) i = (8 \<le> d + i \<and> bit x (d + i - 8) \<or> bit y (d + i))" if "i < w" for i
    using that assms(3-5) e(6,7) extract_high [of w d i x] extract_low [of w d i y]
    unfolding res_def drop_bit_or bit_or_iff by auto
  then have "field_read s a 3 d w res"
    using field_read_parts [of 2 d w x s a y res] assms(5) x(2) y(2,3) by simp
  moreover have "field_written s u a 3 d w val"
    using field_written_parts [of 2 s a t d w val u] assms t(3,4) u(3,4) x(2) y(2) e(6)
    by (simp add: b0_def b1_def splice_high splice_low)
  ultimately show ?thesis unfolding transfers_def using g p u(2) by blast
qed

lemma bitfield_five:
  assumes "ok s" "room a 5" "1 \<le> w" "w \<le> 32" "32 < bf_offset offset + w" "bf_offset offset + w + d = 40" "\<forall>i \<ge> w. \<not> bit val i"
  shows "transfers s a bd offset w 5 d val"
proof -
  have e: "bf_offset offset = 40 - (w + d)" "8 - bf_offset offset = d + w - 32" "bf_offset offset + w - 32 = 8 - d"
    "40 - (bf_offset offset + w) = d" "drop_bit 3 (bf_offset offset + w + 7) = 5" "d < 8" "32 < d + w"
    using assms(3-6) bf_offset_less [of offset] by (simp_all add: drop_bit_3)
  have r: "room a 4" "room (a + 4) 1"
    using room_split(1) [of a 4 1] room_split(2) [OF assms(1), of 1 a 4] assms(2) by simp_all
  obtain x where x: "get32 s a = Some (x, s)" "\<forall>g < 32. bit x g = seq_bit s a 4 g"
    using get32_bits [OF assms(1) r(1)] by blast
  obtain y where y: "get8 s (a + 4) = Some (y, s)" "\<forall>g < 8. bit y g = seq_bit s (a + 4) 1 g" "\<forall>g \<ge> 8. \<not> bit y g"
    using get8_bits [OF assms(1) r(2)] by blast
  define b0 b1 res where "b0 = x AND NOT (drop_bit (bf_offset offset) (bf_mask w))"
    and "b1 = y AND NOT (push_bit (8 - bf_offset offset) (bf_mask w))"
    and "res = push_bit (bf_offset offset) x OR drop_bit (8 - bf_offset offset) y"
  have g: "get_bitfield get8 get16 get32 s a bd offset w = Some ((res, b0, b1), s)"
    using x(1) y(1) e(5) by (simp add: get_bitfield_def b0_def b1_def res_def Let_def)
  obtain t where t: "put32 s a (b0 OR drop_bit (8 - d) val) = Some t" "ok t"
    "\<forall>g < 32. seq_bit t a 4 g = bit (b0 OR drop_bit (8 - d) val) g" "other_bytes_kept s t a 4"
    using put32_bits [OF assms(1) r(1)] by blast
  obtain u where u: "put8 t (a + 4) (b1 OR push_bit d val) = Some u" "ok u"
    "\<forall>g < 8. seq_bit u (a + 4) 1 g = bit (b1 OR push_bit d val) g" "other_bytes_kept t u (a + 4) 1"
    using put8_bits [OF t(2) r(2)] by blast
  have p: "put_bitfield put8 put16 put32 s a (b0, b1) val offset w = Some u"
    using t(1) u(1) e(3-5) by (simp add: put_bitfield_def add.assoc)
  have "bit (drop_bit (32 - w) res) i = (8 \<le> d + i \<and> bit x (d + i - 8) \<or> bit y (d + i))" if "i < w" for i
    using that assms(3-6) e(6,7) extract_high [of w d i x] extract_last [of w d i y]
    unfolding res_def e(1,2) drop_bit_or bit_or_iff by auto
  then have "field_read s a 5 d w res"
    using field_read_parts [of 4 d w x s a y res] assms(6) x(2) y(2,3) by simp
  moreover have "field_written s u a 5 d w val"
    using field_written_parts [of 4 s a t d w val u] assms t(3,4) u(3,4) x(2) y(2) e(6,7)
    unfolding b0_def b1_def e(1,2) by (simp add: splice_high splice_last)
  ultimately show ?thesis unfolding transfers_def using g p u(2) by blast
qed

lemma bitfield_transfers:
  assumes "ok s" "1 \<le> w" "w \<le> 32" "bf_offset offset + w \<le> 8 * n" "8 * n < bf_offset offset + w + 8" "room a n"
    and "\<forall>i \<ge> w. \<not> bit val i"
  shows "transfers s a bd offset w n (8 * n - (bf_offset offset + w)) val"
proof -
  let ?d = "8 * n - (bf_offset offset + w)"
  have n: "n = 1 \<or> n = 2 \<or> n = 3 \<or> n = 4 \<or> n = 5" using assms(2-5) bf_offset_less [of offset] by arith
  show ?thesis
    using n
  proof (elim disjE)
    assume "n = 1" then show ?thesis using bitfield_one [of s a w offset ?d val bd] assms by simp
  next
    assume "n = 2" then show ?thesis using bitfield_two [of s a w offset ?d val bd] assms by simp
  next
    assume "n = 3" then show ?thesis using bitfield_three [of s a w offset ?d val bd] assms by simp
  next
    assume "n = 4" then show ?thesis using bitfield_four [of s a w offset ?d val bd] assms by simp
  next
    assume "n = 5" then show ?thesis using bitfield_five [of s a w offset ?d val bd] assms by simp
  qed
qed

end

section \<open>Bit fields in memory\<close>

text \<open>The 68020 numbers the bits of memory from the most significant bit of the byte at the base.\<close>

definition mem_bit :: "'a memory \<Rightarrow> u32 \<Rightarrow> nat \<Rightarrow> bool" where
  "mem_bit s a p = bit (ram_byte s (a + of_nat (p div 8))) (7 - p mod 8)"

lemma seq_bit_mem_bit: "p < 8 * n \<Longrightarrow> ram_bus.seq_bit ram_byte s a n (8 * n - 1 - p) = mem_bit s a p"
proof -
  assume p: "p < 8 * n"
  define q r where "q = p div 8" and "r = p mod 8"
  have qr: "p = 8 * q + r" "r < 8" by (simp_all add: q_def r_def)
  then have "q < n" using p by arith
  then have "8 * n - 1 - p = 8 * (n - 1 - q) + (7 - r)" using qr by (simp add: diff_mult_distrib2)
  then have "(8 * n - 1 - p) div 8 = n - 1 - q" "(8 * n - 1 - p) mod 8 = 7 - r" by simp_all
  then have "n - 1 - (8 * n - 1 - p) div 8 = p div 8" "(8 * n - 1 - p) mod 8 = 7 - p mod 8"
    using \<open>q < n\<close> by (simp_all add: q_def r_def)
  then show ?thesis by (simp add: memory_bus.seq_bit_def mem_bit_def)
qed

lemma field_positions:
  assumes "ofs + w \<le> m" "(p :: nat) < m"
  shows "m - (ofs + w) \<le> m - 1 - p \<and> m - 1 - p < m - (ofs + w) + w \<longleftrightarrow> ofs \<le> p \<and> p < ofs + w"
    "p < ofs + w \<Longrightarrow> m - 1 - p - (m - (ofs + w)) = ofs + w - 1 - p"
  using assms by arith+

text \<open>C6: in RAM, at every bit offset and for every width of 1 to 32 bits, the bit field read is the
  string of memory bits the 68020 numbers from the offset, most significant first, and writing a
  value back through the saved surroundings changes those bits to the value and no others.\<close>

theorem bitfield_in_memory:
  assumes "ram_at k base s" "1 \<le> w" "w \<le> 32" "fits k base a ((bf_offset offset + w + 7) div 8)"
    "\<forall>i \<ge> w. \<not> bit val i"
  shows "\<exists>res bd' t.
    get_bitfield memory_get_byte memory_get_word memory_get_long s a bd offset w = Some ((res, bd'), s) \<and>
    (\<forall>i < w. bit (drop_bit (32 - w) res) i = mem_bit s a (bf_offset offset + w - 1 - i)) \<and>
    put_bitfield memory_put_byte memory_put_word memory_put_long s a bd' val offset w = Some t \<and> ram_at k base t \<and>
    (\<forall>p < 8 * ((bf_offset offset + w + 7) div 8). mem_bit t a p =
       (if bf_offset offset \<le> p \<and> p < bf_offset offset + w then bit val (bf_offset offset + w - 1 - p) else mem_bit s a p)) \<and>
    (\<forall>b \<in> window k base. (\<forall>q < (bf_offset offset + w + 7) div 8. b \<noteq> a + of_nat q) \<longrightarrow> ram_byte t b = ram_byte s b)"
proof -
  let ?o = "bf_offset offset" and ?n = "(bf_offset offset + w + 7) div 8"
  let ?d = "8 * ?n - (?o + w)"
  have n: "?o + w \<le> 8 * ?n" "8 * ?n < ?o + w + 8" by presburger+
  obtain res bd' t where r: "get_bitfield memory_get_byte memory_get_word memory_get_long s a bd offset w = Some ((res, bd'), s)"
    "\<forall>i < w. bit (drop_bit (32 - w) res) i = ram_bus.seq_bit ram_byte s a ?n (?d + i)"
    "put_bitfield memory_put_byte memory_put_word memory_put_long s a bd' val offset w = Some t" "ram_at k base t"
    "\<forall>g < 8 * ?n. ram_bus.seq_bit ram_byte t a ?n g = spliced ?d w val g (ram_bus.seq_bit ram_byte s a ?n g)"
    "\<forall>b \<in> window k base. (\<forall>q < ?n. b \<noteq> a + of_nat q) \<longrightarrow> ram_byte t b = ram_byte s b"
    using memory_bus.bitfield_transfers [OF assms(1-3) n assms(4,5), of bd]
    unfolding memory_bus.transfers_def memory_bus.field_read_def memory_bus.field_written_def
      memory_bus.other_bytes_kept_def by blast
  have "bit (drop_bit (32 - w) res) i = mem_bit s a (?o + w - 1 - i)" if "i < w" for i
  proof -
    have "8 * ?n - 1 - (?o + w - 1 - i) = ?d + i" "?o + w - 1 - i < 8 * ?n" using that n by arith+
    then show ?thesis using that r(2) seq_bit_mem_bit [of "?o + w - 1 - i" ?n s a] by simp
  qed
  moreover have "mem_bit t a p = (if ?o \<le> p \<and> p < ?o + w then bit val (?o + w - 1 - p) else mem_bit s a p)"
    if "p < 8 * ?n" for p
  proof -
    have lt: "8 * ?n - 1 - p < 8 * ?n" using that by arith
    have *: "mem_bit t a p = spliced ?d w val (8 * ?n - 1 - p) (mem_bit s a p)"
      using r(5) [rule_format, OF lt] unfolding seq_bit_mem_bit [OF that] .
    have "?d \<le> 8 * ?n - 1 - p \<and> 8 * ?n - 1 - p < ?d + w \<longleftrightarrow> ?o \<le> p \<and> p < ?o + w"
      "p < ?o + w \<Longrightarrow> 8 * ?n - 1 - p - ?d = ?o + w - 1 - p"
      using field_positions [OF n(1) that] by blast+
    then show ?thesis unfolding * spliced_def by metis
  qed
  ultimately show ?thesis using r(1,3,4,6) by blast
qed

lemma bitfield_in_memory_witness:
  "\<exists>res bd' t. get_bitfield memory_get_byte memory_get_word memory_get_long ram_example 0x21235 (0, 0) 3 30 = Some ((res, bd'), ram_example) \<and>
    put_bitfield memory_put_byte memory_put_word memory_put_long ram_example 0x21235 bd' 0x2345678 3 30 = Some t \<and>
    mem_bit t 0x21235 7 \<and> \<not> mem_bit t 0x21235 6"
proof -
  have o: "bf_offset 3 = 3" by (simp add: bf_offset_def)
  have "fits 16 0x20000 0x21235 ((bf_offset 3 + 30 + 7) div 8)" by (simp add: fits_def o)
  moreover have "\<forall>i \<ge> 30. \<not> bit (0x2345678 :: u32) i"
  proof -
    have "take_bit 30 (0x2345678 :: u32) = 0x2345678" by simp
    then show ?thesis by (metis bit_take_bit_iff linorder_not_less)
  qed
  ultimately show ?thesis
    using bitfield_in_memory [OF ram_example_at, where w = 30 and a = "0x21235" and offset = 3 and val = "0x2345678" and bd = "(0, 0)"]
    by (auto simp: o)
qed

end
