(* ===== verification/CpuCycles.thy ===== *)
theory CpuCycles
  imports CpuState
begin

text \<open>
  The execution times of \<^verbatim>\<open>MULU\<close>, \<^verbatim>\<open>MULS\<close>, \<^verbatim>\<open>DIVU\<close> and \<^verbatim>\<open>DIVS\<close> on the 68000 and 68010:
  \<^verbatim>\<open>getMulu68kCycles\<close>, \<^verbatim>\<open>getMuls68kCycles\<close>, \<^verbatim>\<open>getDivu68kCycles\<close> and \<^verbatim>\<open>getDivs68kCycles\<close> of
  \<^verbatim>\<open>sources/src/newcpu_common.c\<close>. The results are cycle counts less the four of the prefetch. The
  multiplication loops stop when no bit is left, so the number of their rounds depends on the
  operand; the division loop always takes fifteen.
\<close>

unbundle bit_operations_syntax

section \<open>Multiplication\<close>

text \<open>
  \<^verbatim>\<open>for (bits = 0; bits < 16 && src; bits++, src >>= 1)\<close>, from a given value of \<open>bits\<close>.
\<close>

function mulu_loop :: "int \<Rightarrow> u16 \<Rightarrow> int \<Rightarrow> int" where
  "mulu_loop bits src cycles =
     (if bits < 16 \<and> src \<noteq> 0
      then mulu_loop (bits + 1) (drop_bit 1 src) (if src AND 1 \<noteq> 0 then cycles + 2 else cycles)
      else cycles)"
  by pat_completeness auto

termination by (relation "measure (\<lambda>(bits, src, cycles). nat (16 - bits))") auto

declare mulu_loop.simps [simp del]

definition getMulu68kCycles :: "cpu_prefs \<Rightarrow> u16 \<Rightarrow> int" where
  "getMulu68kCycles prefs src = (if cpu_model prefs = 68000 then mulu_loop 0 src (38 - 4) else 40 - 4)"

function muls_loop :: "int \<Rightarrow> u32 \<Rightarrow> int \<Rightarrow> int" where
  "muls_loop bits usrc cycles =
     (if bits < 16 \<and> usrc \<noteq> 0
      then muls_loop (bits + 1) (drop_bit 1 usrc) (if usrc AND 3 = 1 \<or> usrc AND 3 = 2 then cycles + 2 else cycles)
      else cycles)"
  by pat_completeness auto

termination by (relation "measure (\<lambda>(bits, usrc, cycles). nat (16 - bits))") auto

declare muls_loop.simps [simp del]

definition getMuls68kCycles :: "cpu_prefs \<Rightarrow> u16 \<Rightarrow> int" where
  "getMuls68kCycles prefs src =
     (if cpu_model prefs = 68000 then muls_loop 0 (push_bit 1 (ucast src)) (38 - 4)
      else (let cycles = 40 - 4 in if src AND 0x8000 \<noteq> 0 then cycles + 2 else cycles))"

section \<open>Division\<close>

text \<open>One round of the loops of \<^verbatim>\<open>getDivu68kCycles\<close>: the 68010's, then the 68000's.\<close>

definition divu_round_68010 :: "u32 \<Rightarrow> u32 \<times> int \<Rightarrow> u32 \<times> int" where
  "divu_round_68010 hdivisor s =
     (case s of (dividend, mcycles) \<Rightarrow>
        let temp = dividend; dividend = push_bit 1 dividend
        in if sint temp < 0 then (dividend - hdivisor, mcycles)
           else if hdivisor \<le> dividend then (dividend - hdivisor, mcycles + 2)
           else (dividend, mcycles + 2))"

definition divu_round :: "u32 \<Rightarrow> u32 \<times> int \<Rightarrow> u32 \<times> int" where
  "divu_round hdivisor s =
     (case s of (dividend, mcycles) \<Rightarrow>
        let temp = dividend; dividend = push_bit 1 dividend
        in if sint temp < 0 then (dividend - hdivisor, mcycles)
           else if hdivisor \<le> dividend then (dividend - hdivisor, mcycles + 2 - 1)
           else (dividend, mcycles + 2))"

definition getDivu68kCycles :: "cpu_prefs \<Rightarrow> u32 \<Rightarrow> u16 \<Rightarrow> int" where
  "getDivu68kCycles prefs dividend divisor =
     (if divisor = 0 then 0
      else if cpu_model prefs = 68010 then
        (if ucast divisor \<le> drop_bit 16 dividend then 4
         else snd ((divu_round_68010 (push_bit 16 (ucast divisor)) ^^ 15) (dividend, 74)))
      else if ucast divisor \<le> drop_bit 16 dividend then 5 * 2 - 4
      else snd ((divu_round (push_bit 16 (ucast divisor)) ^^ 15) (dividend, 38)) * 2 - 4)"

text \<open>
  \<^verbatim>\<open>abs\<close> on the two operands; of the most negative dividend it is that dividend again, which the
  cast to \<^verbatim>\<open>uae_u32\<close> reads as its magnitude.
\<close>

definition abs32 :: "u32 \<Rightarrow> u32" where
  "abs32 x = (if sint x < 0 then - x else x)"

definition abs16 :: "u16 \<Rightarrow> u16" where
  "abs16 x = (if sint x < 0 then - x else x)"

definition divs_round :: "u32 \<times> int \<Rightarrow> u32 \<times> int" where
  "divs_round s = (case s of (aquot, mcycles) \<Rightarrow>
     (push_bit 1 aquot, if 0 \<le> sint (ucast aquot :: u16) then mcycles + 1 else mcycles))"

text \<open>The cycles and the new value of \<^verbatim>\<open>*extra\<close>.\<close>

definition getDivs68kCycles :: "cpu_prefs \<Rightarrow> u32 \<Rightarrow> u16 \<Rightarrow> int \<Rightarrow> int \<times> int" where
  "getDivs68kCycles prefs dividend divisor extra =
     (if divisor = 0 then (0, extra)
      else if cpu_model prefs = 68010 then
        (if ucast (abs16 divisor) \<le> drop_bit 16 (abs32 dividend) then (12, extra)
         else if sint dividend < 0 then (116 + 2, 1) else (116, extra))
      else
        let mcycles = (if sint dividend < 0 then 6 + 1 else 6)
        in if ucast (abs16 divisor) \<le> drop_bit 16 (abs32 dividend) then ((mcycles + 2) * 2 - 4, extra)
           else
             let extra = (if sint divisor < 0 \<and> 0 \<le> sint dividend then 1 else 0);
                 aquot = abs32 dividend div ucast (abs16 divisor);
                 mcycles = mcycles + 55;
                 mcycles = (if 0 \<le> sint divisor then (if 0 \<le> sint dividend then mcycles - 1 else mcycles + 1) else mcycles);
                 mcycles = snd ((divs_round ^^ 15) (aquot, mcycles))
             in (mcycles * 2 - 4, extra))"

section \<open>The multiplication times\<close>

lemma card_bits_step:
  "card {i. bit w i} = of_bool (odd w) + card {i. bit (drop_bit 1 w) i}" for w :: "'a::len word"
proof -
  have fin: "finite {i. bit (drop_bit 1 w) i}"
    by (rule finite_subset [of _ "{..<LENGTH('a)}"]) (auto dest: bit_imp_le_length)
  have "{i. bit w i} = (if odd w then {0} else {}) \<union> Suc ` {i. bit (drop_bit 1 w) i}"
    by (auto simp: bit_drop_bit_eq bit_0 image_iff) (metis bit_0 not0_implies_Suc)+
  then show ?thesis using fin by (auto simp: card_image)
qed

lemma mulu_loop_count:
  assumes "\<forall>i. bit src i \<longrightarrow> bits + int i < 16"
  shows "mulu_loop bits src c = c + 2 * int (card {i. bit src i})"
  using assms
proof (induction bits src c rule: mulu_loop.induct)
  case (1 bits src c)
  show ?case
  proof (cases "bits < 16 \<and> src \<noteq> 0")
    case True
    have "\<forall>i. bit (drop_bit 1 src) i \<longrightarrow> bits + 1 + int i < 16"
      using "1.prems" by (auto simp: bit_drop_bit_eq dest: spec [of _ "Suc _"])
    from "1.IH" [OF True this] True show ?thesis
      by (subst mulu_loop.simps) (auto simp: card_bits_step [of src] even_iff_mod_2_eq_zero and_one_eq odd_iff_mod_2_eq_one)
  next
    case False
    have "src = 0"
    proof (rule ccontr)
      assume "src \<noteq> 0"
      then obtain i where "bit src i" by (auto simp: bit_eq_iff)
      then show False using "1.prems" False \<open>src \<noteq> 0\<close> by fastforce
    qed
    then show ?thesis by (subst mulu_loop.simps) (simp add: bot_fun_def)
  qed
qed

text \<open>The places among the first \<open>n\<close> where the next bit differs.\<close>

definition changes :: "nat \<Rightarrow> 'a::len word \<Rightarrow> nat set" where
  "changes n u = {i. i < n \<and> bit u i \<noteq> bit u (Suc i)}"

lemma changes_zero [simp]: "changes 0 u = {}" "changes n 0 = {}"
  by (auto simp: changes_def)

lemma card_changes_step:
  "card (changes (Suc n) u) = of_bool (bit u 0 \<noteq> bit u 1) + card (changes n (drop_bit 1 u))"
proof -
  have "changes (Suc n) u = (if bit u 0 \<noteq> bit u 1 then {0} else {}) \<union> Suc ` changes n (drop_bit 1 u)"
    by (auto simp: changes_def bit_drop_bit_eq image_iff less_Suc_eq_0_disj)
  moreover have "finite (changes n (drop_bit 1 u))" by (simp add: changes_def)
  ultimately show ?thesis by (auto simp: card_image)
qed

lemma low_pair: "(u AND 3 = 1 \<or> u AND 3 = 2) \<longleftrightarrow> bit u 0 \<noteq> bit u 1" for u :: u32
proof -
  have "u AND 3 = (if bit u 1 then 2 else 0) OR (if bit u 0 then 1 else (0 :: u32))"
  proof (rule bit_word_eqI)
    fix n :: nat
    have "bit (3 :: u32) n \<longleftrightarrow> n = 0 \<or> n = 1" "bit (2 :: u32) n \<longleftrightarrow> n = 1"
      by (cases n; cases "n - 1"; simp add: bit_Suc)+
    then show "bit (u AND 3) n = bit ((if bit u 1 then 2 else 0) OR (if bit u 0 then 1 else (0 :: u32))) n"
      by (auto simp: bit_and_iff bit_or_iff bit_1_iff)
  qed
  then show ?thesis by auto
qed

lemma muls_loop_count: "muls_loop bits u c = c + 2 * int (card (changes (nat (16 - bits)) u))"
proof (induction bits u c rule: muls_loop.induct)
  case (1 bits u c)
  show ?case
  proof (cases "bits < 16 \<and> u \<noteq> 0")
    case True
    then have n: "nat (16 - bits) = Suc (nat (16 - (bits + 1)))" by arith
    have "muls_loop bits u c = muls_loop (bits + 1) (drop_bit 1 u) (if bit u 0 \<noteq> bit u 1 then c + 2 else c)"
      using True by (subst muls_loop.simps) (simp add: low_pair del: One_nat_def)
    also have "\<dots> = (if bit u 0 \<noteq> bit u 1 then c + 2 else c) + 2 * int (card (changes (nat (16 - (bits + 1))) (drop_bit 1 u)))"
      using "1.IH" [OF True] by (simp add: low_pair del: One_nat_def)
    finally show ?thesis unfolding n card_changes_step by (simp del: One_nat_def)
  next
    case False
    then show ?thesis by (subst muls_loop.simps) auto
  qed
qed

text \<open>the 68000's \<open>MULU\<close> time less the prefetch is 34 cycles and two for every bit set in the
  source, between 34 and 66; its loop ends for every operand.\<close>

theorem mulu_cycles:
  assumes "cpu_model prefs = 68000"
  shows "getMulu68kCycles prefs src = 34 + 2 * int (card {i. bit src i}) \<and>
    34 \<le> getMulu68kCycles prefs src \<and> getMulu68kCycles prefs src \<le> 66"
proof -
  have "{i. bit src i} \<subseteq> {..<16}" by (auto dest: bit_imp_le_length)
  then have "card {i. bit src i} \<le> 16" using card_mono [of "{..<16}" "{i. bit src i}"] by simp
  moreover have "mulu_loop 0 src 34 = 34 + 2 * int (card {i. bit src i})"
    by (rule mulu_loop_count) (auto dest: bit_imp_le_length)
  ultimately show ?thesis using assms by (simp add: getMulu68kCycles_def)
qed

lemma mulu_cycles_witness: "getMulu68kCycles (prefs_of 68000) 0x8421 = 34 + 2 * int (card {i. bit (0x8421 :: u16) i})"
  using mulu_cycles [of "prefs_of 68000" "0x8421"] by (simp add: prefs_of_def)

text \<open>the 68000's \<open>MULS\<close> time less the prefetch is 34 cycles and two for every place where the
  source, with a zero appended on the right, changes from one bit to the next; between 34 and 66.\<close>

theorem muls_cycles:
  assumes "cpu_model prefs = 68000"
  shows "getMuls68kCycles prefs src = 34 + 2 * int (card {i. i < 16 \<and> bit src i \<noteq> (0 < i \<and> bit src (i - 1))}) \<and>
    34 \<le> getMuls68kCycles prefs src \<and> getMuls68kCycles prefs src \<le> 66"
proof -
  let ?S = "{i. i < 16 \<and> bit src i \<noteq> (0 < i \<and> bit src (i - 1))}"
  have "changes 16 (push_bit 1 (ucast src :: u32)) = ?S"
    by (auto simp: changes_def bit_simps dest: bit_imp_le_length simp del: push_bit_Suc)
  then have e: "muls_loop 0 (push_bit 1 (ucast src)) 34 = 34 + 2 * int (card ?S)"
    by (subst muls_loop_count) simp
  have "card ?S \<le> 16" using card_mono [of "{..<16}" ?S] by auto
  then show ?thesis using assms e by (simp add: getMuls68kCycles_def)
qed

lemma muls_cycles_witness: "34 \<le> getMuls68kCycles (prefs_of 68000) 0x5555 \<and> getMuls68kCycles (prefs_of 68000) 0x5555 \<le> 66"
  using muls_cycles [of "prefs_of 68000" "0x5555"] by (simp add: prefs_of_def)


section \<open>The division times\<close>

text \<open>
  The loops divide by restoring division: after \<open>n\<close> rounds the dividend register holds the
  remainder of the dividend, shifted left by \<open>n\<close>, by the shifted divisor. A round is free when the
  remainder shifts out a carry.
\<close>

definition divu_rem :: "nat \<Rightarrow> nat \<Rightarrow> nat \<Rightarrow> nat" where
  "divu_rem D d n = (D * 2 ^ n) mod (d * 2 ^ 16)"

lemma double_mod:
  assumes "0 < h"
  shows "(2 * x) mod h = (if h \<le> 2 * (x mod h) then 2 * (x mod h) - h else 2 * (x mod h :: nat))"
    "(2 * x) div h = 2 * (x div h) + of_bool (h \<le> 2 * (x mod h))"
proof -
  define q r where "q = x div h" and "r = x mod h"
  have x: "x = q * h + r" "r < h" using assms by (simp_all add: q_def r_def)
  show "(2 * x) mod h = (if h \<le> 2 * (x mod h) then 2 * (x mod h) - h else 2 * (x mod h))"
  proof (cases "h \<le> 2 * r")
    case True
    then have "2 * x = (2 * q + 1) * h + (2 * r - h)" using x by (simp add: algebra_simps)
    moreover have "2 * r - h < h" using x(2) True by simp
    ultimately show ?thesis using True by (simp add: r_def [symmetric] le_mod_geq)
  next
    case False
    then have "2 * x = (2 * q) * h + 2 * r" using x by (simp add: algebra_simps)
    then show ?thesis using False by (simp add: r_def [symmetric])
  qed
  show "(2 * x) div h = 2 * (x div h) + of_bool (h \<le> 2 * (x mod h))"
  proof (cases "h \<le> 2 * r")
    case True
    then have e: "2 * x = (2 * r - h) + (2 * q + 1) * h" using x by (simp add: algebra_simps)
    have "2 * r - h < h" using x(2) True by simp
    then have "(2 * x) div h = 2 * q + 1" using assms unfolding e by (subst div_mult_self1) simp_all
    then show ?thesis using True by (simp add: r_def [symmetric] q_def [symmetric])
  next
    case False
    then have e: "2 * x = 2 * r + (2 * q) * h" using x by (simp add: algebra_simps)
    have "(2 * x) div h = 2 * q" using assms False unfolding e by (subst div_mult_self1) simp_all
    then show ?thesis using False by (simp add: r_def [symmetric] q_def [symmetric])
  qed
qed

lemma divu_rem_Suc:
  assumes "0 < d"
  shows "divu_rem D d (Suc n) =
    (if d * 2 ^ 16 \<le> 2 * divu_rem D d n then 2 * divu_rem D d n - d * 2 ^ 16 else 2 * divu_rem D d n)"
  using double_mod(1) [of "d * 2 ^ 16" "D * 2 ^ n"] assms by (simp add: divu_rem_def mult.commute mult.left_commute)

lemma quotient_bit:
  assumes "0 < d" "n < 15"
  shows "bit (D div d) (15 - n) \<longleftrightarrow> d * 2 ^ 16 \<le> 2 * divu_rem D d n"
proof -
  have "(2 * (D * 2 ^ n)) div (d * 2 ^ 16) = (D div d) div 2 ^ (15 - n)"
  proof -
    have "(2 :: nat) ^ 16 = 2 ^ Suc n * 2 ^ (15 - n)" using assms(2) by (simp flip: power_add)
    then have "(2 * (D * 2 ^ n)) div (d * 2 ^ 16) = (2 ^ Suc n * D) div (2 ^ Suc n * (d * 2 ^ (15 - n)))"
      by (simp only: power_Suc ac_simps)
    also have "\<dots> = D div (d * 2 ^ (15 - n))" by (rule div_mult_mult1) simp
    finally show ?thesis by (simp add: div_mult2_eq)
  qed
  moreover have "odd ((2 * (D * 2 ^ n)) div (d * 2 ^ 16)) \<longleftrightarrow> d * 2 ^ 16 \<le> 2 * divu_rem D d n"
    using double_mod(2) [of "d * 2 ^ 16" "D * 2 ^ n"] assms(1) by (simp add: divu_rem_def)
  ultimately show ?thesis by (simp add: bit_iff_odd)
qed

definition divu_cost :: "nat \<Rightarrow> nat \<Rightarrow> nat \<Rightarrow> int" where
  "divu_cost D d n = (if 2 ^ 31 \<le> divu_rem D d n then 0 else if bit (D div d) (15 - n) then 1 else 2)"

lemma divu_round_step:
  assumes "0 < d" "d < 2 ^ 16" "n < 15"
  shows "divu_round (word_of_nat (d * 2 ^ 16)) (word_of_nat (divu_rem D d n), c) =
    (word_of_nat (divu_rem D d (Suc n)), c + divu_cost D d n)"
proof -
  let ?X = "divu_rem D d n" and ?h = "d * 2 ^ 16"
  have X: "?X < ?h" using assms(1) by (simp add: divu_rem_def)
  have h: "?h < 2 ^ 32" using assms(2) by simp
  have u: "unat (word_of_nat ?X :: u32) = ?X" "unat (word_of_nat ?h :: u32) = ?h"
    using X h by (simp_all only: unsigned_of_nat) (auto simp: take_bit_nat_eq_self)
  have s: "sint (word_of_nat ?X :: u32) < 0 \<longleftrightarrow> 2 ^ 31 \<le> ?X"
    using sint_neg_iff [of "word_of_nat ?X :: u32"] u(1) by simp
  have p: "push_bit 1 (word_of_nat ?X :: u32) = word_of_nat (2 * ?X)" by simp
  show ?thesis
  proof (cases "2 ^ 31 \<le> ?X")
    case True
    then have le: "?h \<le> 2 * ?X" using h by simp
    then have "divu_rem D d (Suc n) = 2 * ?X - ?h" using divu_rem_Suc [OF assms(1)] by simp
    then have "word_of_nat (divu_rem D d (Suc n)) = word_of_nat (2 * ?X) - (word_of_nat ?h :: u32)"
      using le by (simp only: of_nat_diff)
    then show ?thesis
      using True s p unfolding divu_round_def divu_cost_def by (simp only: split_beta fst_conv snd_conv Let_def if_True simp_thms) simp
  next
    case False
    then have u2: "unat (word_of_nat (2 * ?X) :: u32) = 2 * ?X"
      by (simp only: unsigned_of_nat) (auto simp: take_bit_nat_eq_self)
    have c: "word_of_nat ?h \<le> (word_of_nat (2 * ?X) :: u32) \<longleftrightarrow> ?h \<le> 2 * ?X"
      by (simp only: word_le_nat_alt u u2)
    show ?thesis
    proof (cases "?h \<le> 2 * ?X")
      case le: True
      then have "divu_rem D d (Suc n) = 2 * ?X - ?h" using divu_rem_Suc [OF assms(1)] by simp
      then have "word_of_nat (divu_rem D d (Suc n)) = word_of_nat (2 * ?X) - (word_of_nat ?h :: u32)"
        using le by (simp only: of_nat_diff)
      moreover have "bit (D div d) (15 - n)" using quotient_bit [OF assms(1,3)] le by simp
      ultimately show ?thesis
        using False le s p c unfolding divu_round_def divu_cost_def
        by (simp only: split_beta fst_conv snd_conv Let_def if_False if_True simp_thms) simp
    next
      case gt: False
      then have "divu_rem D d (Suc n) = 2 * ?X" using divu_rem_Suc [OF assms(1)] by simp
      moreover have "\<not> bit (D div d) (15 - n)" using quotient_bit [OF assms(1,3)] gt by simp
      ultimately show ?thesis
        using False gt s p c unfolding divu_round_def divu_cost_def
        by (simp only: split_beta fst_conv snd_conv Let_def if_False if_True simp_thms)
    qed
  qed
qed

lemma divu_rounds:
  assumes "0 < d" "d < 2 ^ 16" "D < d * 2 ^ 16" "n \<le> 15"
  shows "(divu_round (word_of_nat (d * 2 ^ 16)) ^^ n) (word_of_nat D, c) =
    (word_of_nat (divu_rem D d n), c + (\<Sum>i<n. divu_cost D d i))"
  using assms(4)
proof (induction n)
  case 0
  then show ?case using assms(3) by (simp add: divu_rem_def)
next
  case (Suc n)
  then show ?case using divu_round_step [OF assms(1,2)] by simp
qed

lemma shifted_divisor: "push_bit 16 (ucast (v :: u16)) = (word_of_nat (unat v * 2 ^ 16) :: u32)"
proof -
  have "word_of_nat (unat v * 2 ^ 16) = (ucast v :: u32) * 2 ^ 16"
    by (simp only: of_nat_mult of_nat_unat) simp
  then show ?thesis by (simp only: push_bit_eq_mult)
qed

lemma high_word_less: "ucast v \<le> drop_bit 16 x \<longleftrightarrow> unat v * 2 ^ 16 \<le> unat x" for v :: u16 and x :: u32
proof -
  have "unat (ucast v :: u32) = unat v" by (simp add: unsigned_ucast_eq take_bit_nat_eq_self order.strict_trans [OF unsigned_less])
  then have "ucast v \<le> drop_bit 16 x \<longleftrightarrow> unat v \<le> unat x div 2 ^ 16"
    by (simp add: word_le_nat_alt unat_drop_bit_div)
  also have "\<dots> \<longleftrightarrow> unat v * 2 ^ 16 \<le> unat x" by (rule less_eq_div_iff_mult_less_eq) simp
  finally show ?thesis .
qed

lemma unat_u16_bounds: "v \<noteq> 0 \<Longrightarrow> 0 < unat v \<and> unat v < 2 ^ 16" for v :: u16
  using unsigned_less [of v] by (simp add: unat_gt_0)

text \<open>C26: the 68000's \<open>DIVU\<close> time less the prefetch is zero for a zero divisor, 6 cycles when the
  quotient does not fit in 16 bits, and otherwise twice 38 less 4 and twice the cost of the fifteen
  rounds of a restoring division: nothing when the true remainder of a round carries out, one for a
  set quotient bit, two for a clear one; between 72 and 132, the documented 76 and 136 less 4.\<close>

theorem divu_cycles:
  assumes "cpu_model prefs \<noteq> 68010"
  shows "getDivu68kCycles prefs dividend divisor =
    (if divisor = 0 then 0 else if 2 ^ 16 \<le> unat dividend div unat divisor then 6
     else 2 * (38 + (\<Sum>i<15. divu_cost (unat dividend) (unat divisor) i)) - 4) \<and>
    (divisor \<noteq> 0 \<and> unat dividend div unat divisor < 2 ^ 16 \<longrightarrow>
      72 \<le> getDivu68kCycles prefs dividend divisor \<and> getDivu68kCycles prefs dividend divisor \<le> 132)"
proof (cases "divisor = 0")
  case True
  then show ?thesis by (simp add: getDivu68kCycles_def)
next
  case False
  note v = unat_u16_bounds [OF False]
  let ?S = "\<Sum>i<15. divu_cost (unat dividend) (unat divisor) i"
  have ov: "2 ^ 16 \<le> unat dividend div unat divisor \<longleftrightarrow> unat divisor * 2 ^ 16 \<le> unat dividend"
    using less_eq_div_iff_mult_less_eq [of "unat divisor" "2 ^ 16" "unat dividend"] v by (simp add: mult.commute)
  have "0 \<le> ?S \<and> ?S \<le> (\<Sum>i<15::nat. 2)"
    by (intro conjI sum_nonneg sum_mono) (auto simp: divu_cost_def)
  then have S: "0 \<le> ?S \<and> ?S \<le> 30" by simp
  have "getDivu68kCycles prefs dividend divisor = (if unat divisor * 2 ^ 16 \<le> unat dividend then 6 else 2 * (38 + ?S) - 4)"
  proof (cases "unat divisor * 2 ^ 16 \<le> unat dividend")
    case True
    then show ?thesis using False assms by (simp add: getDivu68kCycles_def high_word_less)
  next
    case lt: False
    have "(divu_round (push_bit 16 (ucast divisor)) ^^ 15) (dividend, 38) = (word_of_nat (divu_rem (unat dividend) (unat divisor) 15), 38 + ?S)"
      using divu_rounds [of "unat divisor" "unat dividend" 15 38] v lt
      by (simp only: shifted_divisor of_nat_unat ucast_id)
    then show ?thesis using False assms lt by (simp add: getDivu68kCycles_def high_word_less)
  qed
  then show ?thesis using False ov S by (auto simp: not_le [symmetric])
qed

lemma divu_cycles_witness: "getDivu68kCycles (prefs_of 68000) 0x12345678 0x8421 = 2 * (38 + (\<Sum>i<15. divu_cost 0x12345678 0x8421 i)) - 4"
  using divu_cycles [of "prefs_of 68000" "0x12345678" "0x8421"] by (simp add: prefs_of_def)

text \<open>The magnitudes of the operands of \<^verbatim>\<open>DIVS\<close>.\<close>

lemma unat_abs: "unat (abs32 x) = nat \<bar>sint x\<bar>" "unat (abs16 v) = nat \<bar>sint v\<bar>"
  using unat_sabs [of x] unat_sabs [of v] by (simp_all add: abs32_def abs16_def unat_eq_nat_uint)

lemma divs_rounds:
  "n \<le> 15 \<Longrightarrow> (divs_round ^^ n) (q, m) = (push_bit n q, m + int (card {i \<in> {15 - n<..15}. \<not> bit q i}))"
proof (induction n)
  case 0
  then show ?case by simp
next
  case (Suc n)
  have s: "sint (ucast (push_bit n q) :: u16) < 0 \<longleftrightarrow> bit q (15 - n)"
    using Suc.prems sint_neg_iff_bit [of "ucast (push_bit n q) :: u16"] by (simp add: bit_ucast_iff bit_push_bit_iff)
  have "15 - Suc n < i \<longleftrightarrow> i = 15 - n \<or> 15 - n < i" for i using Suc.prems by arith
  then have "{i \<in> {15 - Suc n<..15}. \<not> bit q i} =
      (if bit q (15 - n) then {} else {15 - n}) \<union> {i \<in> {15 - n<..15}. \<not> bit q i}"
    unfolding greaterThanAtMost_iff by (simp only: set_eq_iff) (cases "bit q (15 - n)"; fastforce simp del: diff_Suc_1 One_nat_def diff_Suc_eq_diff_pred)
  moreover have "15 - n \<notin> {i \<in> {15 - n<..15}. \<not> bit q i}" "finite {i \<in> {15 - n<..15}. \<not> bit q i}"
    by simp_all
  ultimately have c: "card {i \<in> {15 - Suc n<..15}. \<not> bit q i} =
      (if bit q (15 - n) then 0 else 1) + card {i \<in> {15 - n<..15}. \<not> bit q i}"
    by (cases "bit q (15 - n)") (simp_all only: if_True if_False Un_empty_left Un_insert_left card_insert_disjoint, simp)
  have p: "push_bit 1 (push_bit n q) = push_bit (Suc n) q"
    by (simp only: push_bit_push_bit) simp
  have "n \<le> 15" using Suc.prems by simp
  have "divs_round (push_bit n q, k) = (push_bit (Suc n) q, if bit q (15 - n) then k else k + 1)" for k
    using s by (simp only: divs_round_def prod.case p not_less [symmetric]) simp
  then show ?case
    by (simp only: funpow.simps comp_apply Suc.IH [OF \<open>n \<le> 15\<close>] c) simp
qed

text \<open>the 68000's \<open>DIVS\<close> time less the prefetch is zero for a zero divisor, 12 or 14 cycles (for
  a negative dividend) when the magnitude of the quotient does not fit in 16 bits, and otherwise
  a base that depends on the signs alone and two for every clear bit among the upper fifteen of
  the magnitude: at least 116 and at most 152, at least 118 when the quotient fits in 16 signed bits
  (the documented 120, 156 and 122 less 4).\<close>

theorem divs_cycles:
  assumes "cpu_model prefs \<noteq> 68010" "divisor \<noteq> 0"
    and "q = nat (\<bar>sint dividend\<bar> div \<bar>sint divisor\<bar>)" "c = fst (getDivs68kCycles prefs dividend divisor extra)"
    and "z = int (card {i \<in> {1..15}. \<not> bit q i})"
  shows "c = (if 2 ^ 16 \<le> q then (if sint dividend < 0 then 14 else 12)
      else 2 * ((if sint divisor < 0 then (if sint dividend < 0 then 62 else 61) else (if sint dividend < 0 then 63 else 60)) + z) - 4) \<and>
    (q < 2 ^ 16 \<longrightarrow> 116 \<le> c \<and> c \<le> 152) \<and> (q < 2 ^ 15 \<longrightarrow> 118 \<le> c)"
proof -
  let ?A = "unat (abs32 dividend)" and ?B = "unat (abs16 divisor)"
  have B: "0 < ?B" using assms(2) signed_eq_0_iff [of divisor] by (simp add: unat_abs)
  have q: "q = ?A div ?B" by (simp add: assms(3) unat_abs nat_div_distrib)
  have ov: "ucast (abs16 divisor) \<le> drop_bit 16 (abs32 dividend) \<longleftrightarrow> 2 ^ 16 \<le> q"
    unfolding q high_word_less using less_eq_div_iff_mult_less_eq [OF B, of "2 ^ 16" ?A] by (simp add: mult.commute)
  have "{i \<in> {1..15}. \<not> bit q i} \<subseteq> {1..15}" by auto
  then have z: "0 \<le> z" "z \<le> 15" using card_mono [of "{1..15 :: nat}" "{i \<in> {1..15}. \<not> bit q i}"] by (simp_all add: assms(5))
  have z1: "1 \<le> z" if "q < 2 ^ 15"
  proof -
    have "\<not> bit q 15" using that by (simp add: bit_iff_odd)
    then have "{i \<in> {1..15}. \<not> bit q i} \<noteq> {}" by (auto intro: exI [of _ 15])
    then show ?thesis using assms(5) by (simp add: card_gt_0_iff Suc_le_eq)
  qed
  have "c = (if 2 ^ 16 \<le> q then (if sint dividend < 0 then 14 else 12)
      else 2 * ((if sint divisor < 0 then (if sint dividend < 0 then 62 else 61) else (if sint dividend < 0 then 63 else 60)) + z) - 4)"
  proof (cases "2 ^ 16 \<le> q")
    case True
    then show ?thesis using assms(1,2,4) ov by (simp add: getDivs68kCycles_def)
  next
    case False
    have "unat (abs32 dividend div ucast (abs16 divisor)) = q"
      by (simp add: q unat_div unsigned_ucast_eq take_bit_nat_eq_self order.strict_trans [OF unsigned_less])
    then have "bit (abs32 dividend div ucast (abs16 divisor)) i \<longleftrightarrow> bit q i" if "i < 32" for i
      using that bit_unsigned_iff [of "abs32 dividend div ucast (abs16 divisor)" i, where 'a = nat] by (metis bit_unsigned_iff possible_bit_nat)
    then have "{i \<in> {15 - 15<..15}. \<not> bit (abs32 dividend div ucast (abs16 divisor)) i} = {i \<in> {1..15}. \<not> bit q i}"
      by auto
    then have "snd ((divs_round ^^ 15) (abs32 dividend div ucast (abs16 divisor), m)) = m + z" for m
      using divs_rounds [of 15] by (simp only: assms(5) snd_conv)
    then show ?thesis using assms(1,2,4) ov False by (simp add: getDivs68kCycles_def Let_def)
  qed
  then show ?thesis using z z1 by (auto split: if_splits)
qed

lemma divs_cycles_witness: "118 \<le> fst (getDivs68kCycles (prefs_of 68000) 0xfff12345 0x0821 0)"
  using divs_cycles [of "prefs_of 68000" "0x0821" "nat (\<bar>sint (0xfff12345 :: u32)\<bar> div \<bar>sint (0x0821 :: u16)\<bar>)" "0xfff12345", OF _ _ refl refl refl, of 0]
  by (simp add: prefs_of_def)

end
