(* ===== verification/DivMul.thy ===== *)
theory DivMul
  imports CpuCycles
begin

text \<open>
  The condition codes of division, bounds checks and the 32-bit multiplication and division
  instructions of \<^verbatim>\<open>sources/src/newcpu_common.c\<close>: \<^verbatim>\<open>divbyzero_special\<close>, \<^verbatim>\<open>setdivuflags\<close>,
  \<^verbatim>\<open>setdivsflags\<close>, \<^verbatim>\<open>setchkundefinedflags\<close>, \<^verbatim>\<open>setchk2undefinedflags\<close>, the overflow and
  zero-divisor helpers, \<^verbatim>\<open>m68k_divl\<close> and \<^verbatim>\<open>m68k_mull\<close>. Registers and intermediate results are
  words of their C width; a signed comparison reads them with \<open>sint\<close>. The subtractions of
  \<^verbatim>\<open>setchkundefinedflags\<close> and \<^verbatim>\<open>setchk2undefinedflags\<close> that overflow an \<^verbatim>\<open>int\<close> wrap around, as
  the code relies on. The entry of the zero-divide exception (\<^verbatim>\<open>Exception_cpu_oldpc\<close>) is the
  argument \<open>exc\<close>.
\<close>

unbundle bit_operations_syntax

section \<open>Zero divisors and overflow of the 16-bit divisions\<close>

text \<open>\<^verbatim>\<open>uae_s16 d = dst >> 16\<close> and the two tests on it.\<close>

definition high_half_flags :: "u32 \<Rightarrow> cpu \<Rightarrow> cpu" where
  "high_half_flags dst c =
     (let d = sint (ucast (drop_bit 16 dst) :: u16)
      in if d < 0 then c\<lparr>nflg := True\<rparr> else if d = 0 then c\<lparr>zflg := True\<rparr> else c)"

definition divbyzero_special :: "cpu_prefs \<Rightarrow> cpu \<Rightarrow> bool \<Rightarrow> u32 \<Rightarrow> cpu" where
  "divbyzero_special prefs c issigned dst =
     (if cpu_model prefs = 68020 \<or> cpu_model prefs = 68030 then
        (let c = CLEAR_CZNV c
         in if issigned then c\<lparr>zflg := True\<rparr> else (high_half_flags dst c)\<lparr>vflg := True\<rparr>)
      else if cpu_model prefs = 68040 then c\<lparr>cflg := False\<rparr>
      else if cpu_model prefs = 68060 then c\<lparr>cflg := False\<rparr>
      else
        (let c = CLEAR_CZNV c
         in if issigned then c\<lparr>zflg := True\<rparr> else high_half_flags dst c))"

definition setdivuflags :: "cpu_prefs \<Rightarrow> cpu \<Rightarrow> u32 \<Rightarrow> u16 \<Rightarrow> cpu" where
  "setdivuflags prefs c dividend divisor =
     (if cpu_model prefs = 68060 then c\<lparr>vflg := True, cflg := False\<rparr>
      else if cpu_model prefs = 68040 then c\<lparr>vflg := True, cflg := False\<rparr>
      else if 68020 \<le> cpu_model prefs then
        (let c = c\<lparr>vflg := True\<rparr> in if sint dividend < 0 then c\<lparr>nflg := True\<rparr> else c)
      else if cpu_model prefs = 68010 then
        (let c = c\<lparr>vflg := True\<rparr>;
             c = (if sint dividend < 0 \<and> sint divisor < 0 then c\<lparr>nflg := False\<rparr> else c\<lparr>nflg := True\<rparr>)
         in c\<lparr>zflg := False, cflg := False\<rparr>)
      else c\<lparr>vflg := True, nflg := True, zflg := False, cflg := False\<rparr>)"

definition setdivsflags :: "cpu_prefs \<Rightarrow> cpu \<Rightarrow> u32 \<Rightarrow> u16 \<Rightarrow> cpu" where
  "setdivsflags prefs c dividend divisor =
     (if cpu_model prefs = 68060 then c\<lparr>vflg := True, cflg := False\<rparr>
      else if cpu_model prefs = 68040 then c\<lparr>vflg := True, cflg := False\<rparr>
      else if 68020 \<le> cpu_model prefs then
        (let c = (CLEAR_CZNV c)\<lparr>vflg := True\<rparr>
         in if ucast (abs16 divisor) \<le> drop_bit 16 (abs32 dividend) then c
            else
              let aquot = abs32 dividend div ucast (abs16 divisor);
                  c = (if sint (ucast aquot :: u8) = 0 then c\<lparr>zflg := True\<rparr> else c)
              in if sint (ucast aquot :: u8) < 0 then c\<lparr>nflg := True\<rparr> else c)
      else if cpu_model prefs = 68010 then (CLEAR_CZNV c)\<lparr>vflg := True, nflg := True\<rparr>
      else (CLEAR_CZNV c)\<lparr>vflg := True, nflg := True\<rparr>)"

section \<open>CHK and CHK2\<close>

definition setchkundefinedflags :: "cpu_prefs \<Rightarrow> cpu \<Rightarrow> u32 \<Rightarrow> u32 \<Rightarrow> bool \<Rightarrow> cpu" where
  "setchkundefinedflags prefs c src dst is_word =
     (if cpu_model prefs < 68020 then
        (let c = CLEAR_CZNV c;
             c = (if sint dst = 0 then c\<lparr>zflg := True\<rparr> else c)
         in if sint dst < 0 then c\<lparr>nflg := True\<rparr> else if sint dst > sint src then c\<lparr>nflg := False\<rparr> else c)
      else if cpu_model prefs = 68020 \<or> cpu_model prefs = 68030 then
        (let c = CLEAR_CZNV c;
             c = (if sint dst = 0 then c\<lparr>zflg := True\<rparr> else c);
             c = c\<lparr>nflg := sint dst < 0\<rparr>
         in if sint dst < 0 \<or> sint dst > sint src then
              (let c = (if is_word then
                     (let flgs = sint (ucast dst :: u16) < 0; flgo = sint (ucast src :: u16) < 0;
                          val = (ucast src :: u16) - ucast dst; flgn = sint val < 0
                      in c\<lparr>vflg := (flgs \<noteq> flgo) \<and> (flgn \<noteq> flgo)\<rparr>)
                   else
                     (let flgs = sint dst < 0; flgo = sint src < 0; val = src - dst; flgn = sint val < 0
                      in c\<lparr>vflg := (flgs \<noteq> flgo) \<and> (flgn \<noteq> flgo)\<rparr>))
               in if sint dst < 0 then c\<lparr>cflg := sint dst > sint src \<or> sint src \<ge> 0\<rparr>
                  else c\<lparr>cflg := sint src \<ge> 0\<rparr>)
            else c)
      else if cpu_model prefs = 68040 then
        (let c = c\<lparr>cflg := False\<rparr>;
             c = (if sint dst < 0 \<or> sint dst > sint src then
                    (if sint dst < 0 \<and> sint src \<ge> 0 then c\<lparr>cflg := True\<rparr>
                     else if sint src \<ge> 0 \<and> sint dst \<ge> sint src then c\<lparr>cflg := True\<rparr>
                     else if sint dst < 0 \<and> sint src < sint dst then c\<lparr>cflg := True\<rparr>
                     else c)
                  else c)
         in c\<lparr>nflg := sint dst < 0\<rparr>)
      else if cpu_model prefs = 68060 then
        (let c = c\<lparr>nflg := False\<rparr>
         in if sint dst < 0 \<or> sint dst > sint src then c\<lparr>nflg := sint dst < 0\<rparr> else c)
      else c)"

text \<open>
  The two flags of \<^verbatim>\<open>setchk2undefinedflags\<close> on the 68020 and 68030, when the value is neither bound;
  \<open>N\<close> and \<open>V\<close> start cleared. The operands are sign-extended by the callers; \<open>l\<close>, \<open>u\<close> and \<open>v\<close> are their
  values.
\<close>

definition chk2_flags :: "u32 \<Rightarrow> u32 \<Rightarrow> u32 \<Rightarrow> bool \<times> bool" where
  "chk2_flags lower upper val =
     (let l = sint lower; u = sint upper; v = sint val; N = False; V = False
      in if l < 0 \<and> u \<ge> 0 then
           (let N = (if v < l then True else N);
                N = (if v \<ge> 0 \<and> v < u then True else N)
            in if v \<ge> 0 \<and> sint (lower - val) \<ge> 0 then (if v > u then True else False, True) else (N, V))
         else if l \<ge> 0 \<and> u < 0 then
           (let N = (if v \<ge> 0 then True else N);
                N = (if v > u then True else N)
            in if v > l \<and> sint (upper - val) \<ge> 0 then (False, True) else (N, V))
         else if l \<ge> 0 \<and> u \<ge> 0 \<and> l > u then
           (let N = (if v > u \<and> v < l then True else N);
                V = (if v < 0 \<and> sint (lower - val) < 0 then True else V);
                N = (if v < 0 \<and> sint (lower - val) \<ge> 0 then True else N)
            in (N, V))
         else if l \<ge> 0 \<and> u \<ge> 0 \<and> l \<le> u then
           (let N = (if v \<ge> 0 \<and> v < l then True else N);
                N = (if v > u then True else N)
            in if v < 0 \<and> sint (upper - val) < 0 then (True, True) else (N, V))
         else if l < 0 \<and> u < 0 \<and> l > u then
           (let N = (if v \<ge> 0 then True else N);
                N = (if v > u \<and> v < l then True else N)
            in if v \<ge> 0 \<and> sint (val - lower) < 0 then (False, True) else (N, V))
         else if l < 0 \<and> u < 0 \<and> l \<le> u then
           (let N = (if v < l then True else N);
                N = (if v < 0 \<and> v > u then True else N)
            in if v \<ge> 0 \<and> sint (val - lower) < 0 then (True, True) else (N, V))
         else (N, V))"

definition setchk2undefinedflags :: "cpu_prefs \<Rightarrow> cpu \<Rightarrow> u32 \<Rightarrow> u32 \<Rightarrow> u32 \<Rightarrow> cpu" where
  "setchk2undefinedflags prefs c lower upper val =
     (if cpu_model prefs = 68060 then c\<lparr>vflg := False, nflg := sint val < 0\<rparr>
      else if cpu_model prefs = 68040 then c
      else
        let c = c\<lparr>nflg := False, vflg := False\<rparr>
        in if sint val = sint lower \<or> sint val = sint upper then c
           else let (N, V) = chk2_flags lower upper val in c\<lparr>nflg := N, vflg := V\<rparr>)"

section \<open>The 32-bit division\<close>

definition divsl_overflow :: "cpu_prefs \<Rightarrow> cpu \<Rightarrow> u16 \<Rightarrow> u64 \<Rightarrow> u32 \<Rightarrow> cpu" where
  "divsl_overflow prefs c extra a divider =
     (if 68040 \<le> cpu_model prefs then c\<lparr>vflg := True, cflg := False\<rparr>
      else
        let a32 = (ucast a :: u32); neg64 = sint a < 0; neg32 = sint a32 < 0;
            c = c\<lparr>vflg := True\<rparr>;
            c = (if extra AND 0x0400 \<noteq> 0 then
                   (let ahigh = sint (ucast (drop_bit 32 a) :: u32)
                    in if ahigh = 0 then c\<lparr>zflg := True, nflg := False\<rparr>
                       else if ahigh < 0 \<and> sint divider < 0 \<and> ahigh > sint divider then c\<lparr>zflg := False, nflg := False\<rparr>
                       else if a32 = 0 then c\<lparr>zflg := True, nflg := False\<rparr>
                       else c\<lparr>zflg := False, nflg := neg32 \<noteq> neg64\<rparr>)
                 else if a32 = 0 then c\<lparr>zflg := True, nflg := False\<rparr>
                 else c\<lparr>nflg := neg32, zflg := False\<rparr>)
        in c\<lparr>cflg := False\<rparr>)"

definition divul_overflow :: "cpu_prefs \<Rightarrow> cpu \<Rightarrow> u16 \<Rightarrow> u64 \<Rightarrow> cpu" where
  "divul_overflow prefs c extra a =
     (if 68040 \<le> cpu_model prefs then c\<lparr>vflg := True, cflg := False\<rparr>
      else
        let a32 = (ucast a :: u32); neg32 = sint a32 < 0
        in c\<lparr>vflg := True, nflg := neg32, zflg := a32 = 0, cflg := False\<rparr>)"

definition divsl_divbyzero :: "(int \<Rightarrow> u32 \<Rightarrow> cpu \<Rightarrow> cpu) \<Rightarrow> cpu_prefs \<Rightarrow> cpu \<Rightarrow> u16 \<Rightarrow> u64 \<Rightarrow> u32 \<Rightarrow> cpu" where
  "divsl_divbyzero exc prefs c extra a oldpc =
     (let c = (if 68040 \<le> cpu_model prefs then c\<lparr>cflg := False\<rparr>
               else c\<lparr>nflg := False, zflg := True, cflg := False\<rparr>)
      in exc 5 oldpc c)"

definition divul_divbyzero :: "(int \<Rightarrow> u32 \<Rightarrow> cpu \<Rightarrow> cpu) \<Rightarrow> cpu_prefs \<Rightarrow> cpu \<Rightarrow> u16 \<Rightarrow> u64 \<Rightarrow> u32 \<Rightarrow> cpu" where
  "divul_divbyzero exc prefs c extra a oldpc =
     (let c = (if 68040 \<le> cpu_model prefs then c\<lparr>cflg := False\<rparr>
               else
                 let a32 = (ucast a :: u32); neg32 = sint a32 < 0
                 in c\<lparr>nflg := neg32, zflg := a32 = 0, vflg := True, cflg := False\<rparr>)
      in exc 5 oldpc c)"

text \<open>The register fields of the extension word, and the 32- or 64-bit dividend.\<close>

definition reg_low :: "u16 \<Rightarrow> nat" where
  "reg_low extra = unat (drop_bit 12 extra AND 7)"

definition reg_high :: "u16 \<Rightarrow> nat" where
  "reg_high extra = unat (extra AND 7)"

definition divs_dividend :: "cpu \<Rightarrow> u16 \<Rightarrow> u64" where
  "divs_dividend c extra =
     (let a = (scast (m68k_dreg c (reg_low extra)) :: u64)
      in if extra AND 0x400 \<noteq> 0 then
           (let a = a AND 0xffffffff in a OR push_bit 32 (ucast (m68k_dreg c (reg_high extra))))
         else a)"

definition divu_dividend :: "cpu \<Rightarrow> u16 \<Rightarrow> u64" where
  "divu_dividend c extra =
     (let a = (ucast (m68k_dreg c (reg_low extra)) :: u64)
      in if extra AND 0x400 \<noteq> 0 then
           (let a = a AND 0xffffffff in a OR push_bit 32 (ucast (m68k_dreg c (reg_high extra))))
         else a)"

text \<open>C's division and remainder of \<^verbatim>\<open>uae_s64\<close> values: rounding towards zero.\<close>

definition s64_div :: "u64 \<Rightarrow> u64 \<Rightarrow> u64" where
  "s64_div a b = word_of_int (sint a sdiv sint b)"

definition s64_rem :: "u64 \<Rightarrow> u64 \<Rightarrow> u64" where
  "s64_rem a b = word_of_int (sint a smod sint b)"

text \<open>The result of the instruction: flags first, then the remainder, then the quotient.\<close>

definition div_result :: "cpu \<Rightarrow> u16 \<Rightarrow> u64 \<Rightarrow> u64 \<Rightarrow> cpu" where
  "div_result c extra quot rem =
     (let c = c\<lparr>vflg := False, cflg := False, zflg := sint (ucast quot :: u32) = 0, nflg := sint (ucast quot :: u32) < 0\<rparr>;
          c = set_dreg c (reg_high extra) (ucast rem)
      in set_dreg c (reg_low extra) (ucast quot))"

definition m68k_divl :: "(int \<Rightarrow> u32 \<Rightarrow> cpu \<Rightarrow> cpu) \<Rightarrow> cpu_prefs \<Rightarrow> cpu \<Rightarrow> u32 \<Rightarrow> u16 \<Rightarrow> u32 \<Rightarrow> int \<times> cpu" where
  "m68k_divl exc prefs c src extra oldpc =
     (if extra AND 0x400 \<noteq> 0 \<and> int_no_unimplemented prefs \<and> cpu_model prefs = 68060 then (-1, c)
      else if extra AND 0x800 \<noteq> 0 then
        let a = divs_dividend c extra
        in if src = 0 then (0, divsl_divbyzero exc prefs c extra a oldpc)
           else if a = 0x8000000000000000 \<and> src = NOT 0 then (1, divsl_overflow prefs c extra a src)
           else
             let rem = s64_rem a (scast src); quot = s64_div a (scast src)
             in if quot AND 0xffffffff80000000 \<noteq> 0 \<and> quot AND 0xffffffff80000000 \<noteq> 0xffffffff80000000
                then (1, divsl_overflow prefs c extra a src)
                else
                  let rem = (if (sint (ucast rem :: u32) < 0) \<noteq> (sint a < 0) then - rem else rem)
                  in (1, div_result c extra quot rem)
      else
        let a = divu_dividend c extra
        in if src = 0 then (0, divul_divbyzero exc prefs c extra a oldpc)
           else
             let rem = a mod ucast src; quot = a div ucast src
             in if quot > 0xffffffff then (1, divul_overflow prefs c extra a)
                else (1, div_result c extra quot rem))"

section \<open>The 32-bit multiplication\<close>

text \<open>The 64-bit product in two registers: the order of the two writes depends on the processor.\<close>

definition mul_long :: "cpu_prefs \<Rightarrow> cpu \<Rightarrow> u16 \<Rightarrow> u64 \<Rightarrow> cpu" where
  "mul_long prefs c extra a =
     (let c = (if 68040 \<le> cpu_model prefs
               then set_dreg (set_dreg c (reg_high extra) (ucast (drop_bit 32 a))) (reg_low extra) (ucast a)
               else set_dreg (set_dreg c (reg_low extra) (ucast a)) (reg_high extra) (ucast (drop_bit 32 a)))
      in c\<lparr>zflg := a = 0, nflg := sint a < 0\<rparr>)"

definition m68k_mull :: "cpu_prefs \<Rightarrow> cpu \<Rightarrow> u32 \<Rightarrow> u16 \<Rightarrow> int \<times> cpu" where
  "m68k_mull prefs c src extra =
     (if extra AND 0x400 \<noteq> 0 \<and> int_no_unimplemented prefs \<and> cpu_model prefs = 68060 then (-1, c)
      else if extra AND 0x800 \<noteq> 0 then
        let a = (scast (m68k_dreg c (reg_low extra)) :: u64) * scast src;
            c = c\<lparr>vflg := False, cflg := False\<rparr>
        in if extra AND 0x400 \<noteq> 0 then (1, mul_long prefs c extra a)
           else
             let b = (ucast a :: u32);
                 c = set_dreg c (reg_low extra) (ucast a);
                 c = (if a AND 0xffffffff80000000 \<noteq> 0 \<and> a AND 0xffffffff80000000 \<noteq> 0xffffffff80000000
                      then c\<lparr>vflg := True\<rparr> else c)
             in (1, c\<lparr>zflg := b = 0, nflg := sint b < 0\<rparr>)
      else
        let a = (ucast (m68k_dreg c (reg_low extra)) :: u64) * ucast src;
            c = c\<lparr>vflg := False, cflg := False\<rparr>
        in if extra AND 0x400 \<noteq> 0 then (1, mul_long prefs c extra a)
           else
             let b = (ucast a :: u32);
                 c = set_dreg c (reg_low extra) (ucast a);
                 c = (if a AND 0xffffffff00000000 \<noteq> 0 then c\<lparr>vflg := True\<rparr> else c)
             in (1, c\<lparr>zflg := b = 0, nflg := sint b < 0\<rparr>))"

section \<open>Words of 64 bits read as integers\<close>

lemma unat_u32_less: "unat (w :: u32) < 4294967296"
  by (rule order_less_le_trans [OF unsigned_less]) simp

lemma unat_concat: "unat (x AND 0xffffffff OR push_bit 32 (ucast hi) :: u64) = unat (hi :: u32) * 2 ^ 32 + unat (ucast x :: u32)"
proof -
  let ?n = "unat hi * 2 ^ 32 + unat (ucast x :: u32)"
  have e: "x AND 0xffffffff = take_bit 32 x" by (simp add: take_bit_eq_mask mask_eq_exp_minus_1)
  have "x AND 0xffffffff OR push_bit 32 (ucast hi) = take_bit 32 x + push_bit 32 (ucast hi)"
    unfolding e by (rule disjunctive_add [symmetric]) (auto simp: bit_simps)
  also have "\<dots> = word_of_nat ?n"
    by (simp add: push_bit_eq_mult of_nat_unat unsigned_ucast_eq flip: unsigned_take_bit_eq)
  finally have w: "x AND 0xffffffff OR push_bit 32 (ucast hi) = word_of_nat ?n" .
  have "?n < 2 ^ 64"
    using unat_u32_less [of hi] unat_u32_less [of "ucast x"] by simp
  then show ?thesis
    unfolding w by (simp only: unsigned_of_nat) (simp add: take_bit_nat_eq_self)
qed

lemma sint_concat: "sint (x AND 0xffffffff OR push_bit 32 (ucast hi) :: u64) = sint (hi :: u32) * 2 ^ 32 + uint (ucast x :: u32)"
proof -
  let ?y = "x AND 0xffffffff OR push_bit 32 (ucast hi) :: u64"
  have "int (unat ?y) = int (unat hi * 2 ^ 32 + unat (ucast x :: u32))"
    unfolding unat_concat ..
  then have u: "uint ?y = uint hi * 2 ^ 32 + uint (ucast x :: u32)" by simp
  have "2 ^ 63 \<le> unat hi * 2 ^ 32 + unat (ucast x :: u32) \<longleftrightarrow> 2 ^ 31 \<le> unat hi"
    using unat_u32_less [of "ucast x"] by (simp, arith)
  then have "2 ^ 63 \<le> unat ?y \<longleftrightarrow> 2 ^ 31 \<le> unat hi"
    unfolding unat_concat .
  then show ?thesis unfolding sint_alt [of ?y] sint_alt [of hi] u by simp
qed

lemma top_mask_bit: "bit (0xffffffff80000000 :: u64) i \<longleftrightarrow> 31 \<le> i \<and> i < 64"
proof -
  have "(0xffffffff80000000 :: u64) = NOT (mask 31)" by (simp add: mask_eq_exp_minus_1)
  then show ?thesis by (simp only: bit_not_iff bit_mask_iff possible_bit_word) auto
qed

lemma fits_s32: "- (2 ^ 31) \<le> sint x \<and> sint x < 2 ^ 31 \<longleftrightarrow>
    x AND 0xffffffff80000000 = 0 \<or> x AND 0xffffffff80000000 = 0xffffffff80000000" for x :: u64
proof -
  have "- (2 ^ 31) \<le> sint x \<and> sint x < 2 ^ 31 \<longleftrightarrow> signed_take_bit 31 (sint x) = sint x"
    by (simp add: signed_take_bit_int_eq_self_iff)
  also have "\<dots> \<longleftrightarrow> (\<forall>i. 31 \<le> i \<and> i < 64 \<longrightarrow> bit x i = bit x 31)"
  proof
    assume "signed_take_bit 31 (sint x) = sint x"
    then have b: "bit (sint x) i = bit (sint x) (min i 31)" for i
      using bit_signed_take_bit_iff [of 31 "sint x" i] by (simp add: min.commute)
    have s: "bit (sint x) i = bit (sint x) 31" if "31 \<le> i" for i
      using that b [of i] by (simp only: min_absorb2)
    show "\<forall>i. 31 \<le> i \<and> i < 64 \<longrightarrow> bit x i = bit x 31"
    proof (intro allI impI)
      fix i :: nat assume i: "31 \<le> i \<and> i < 64"
      then have "min 63 i = i" by simp
      then show "bit x i = bit x 31" using s [of i] i by (simp add: bit_signed_iff)
    qed
  next
    assume a: "\<forall>i. 31 \<le> i \<and> i < 64 \<longrightarrow> bit x i = bit x 31"
    show "signed_take_bit 31 (sint x) = sint x"
    proof (rule bit_eqI)
      fix n
      have "bit x (min 63 (min n 31)) = bit x (min 63 n)"
        using a [rule_format, of "min 63 n"] by (cases "n \<le> 31") (simp_all add: min_def)
      then show "bit (signed_take_bit 31 (sint x)) n = bit (sint x) n"
        by (simp add: bit_signed_take_bit_iff bit_signed_iff min.commute)
    qed
  qed
  also have "\<dots> \<longleftrightarrow> x AND 0xffffffff80000000 = 0 \<or> x AND 0xffffffff80000000 = 0xffffffff80000000"
  proof
    assume a: "\<forall>i. 31 \<le> i \<and> i < 64 \<longrightarrow> bit x i = bit x 31"
    show "x AND 0xffffffff80000000 = 0 \<or> x AND 0xffffffff80000000 = 0xffffffff80000000"
    proof (cases "bit x 31")
      case True
      then have "\<forall>i. 31 \<le> i \<and> i < 64 \<longrightarrow> bit x i" using a by blast
      then have "x AND 0xffffffff80000000 = 0xffffffff80000000"
        by (intro bit_word_eqI) (simp only: bit_and_iff top_mask_bit, blast)
      then show ?thesis ..
    next
      case False
      then have "\<forall>i. 31 \<le> i \<and> i < 64 \<longrightarrow> \<not> bit x i" using a by blast
      then have "x AND 0xffffffff80000000 = 0"
        by (intro bit_word_eqI) (simp only: bit_and_iff top_mask_bit bit_0_eq, auto)
      then show ?thesis ..
    qed
  next
    assume "x AND 0xffffffff80000000 = 0 \<or> x AND 0xffffffff80000000 = 0xffffffff80000000"
    then show "\<forall>i. 31 \<le> i \<and> i < 64 \<longrightarrow> bit x i = bit x 31"
    proof
      assume a: "x AND 0xffffffff80000000 = 0"
      have "\<not> (31 \<le> i \<and> i < 64 \<and> bit x i)" for i
        using arg_cong [OF a, of "\<lambda>w. bit w i"] unfolding bit_and_iff top_mask_bit by auto
      then show ?thesis by simp
    next
      assume a: "x AND 0xffffffff80000000 = 0xffffffff80000000"
      have "31 \<le> i \<and> i < 64 \<longrightarrow> bit x i" for i
        using arg_cong [OF a, of "\<lambda>w. bit w i"] unfolding bit_and_iff top_mask_bit by blast
      then show ?thesis by simp
    qed
  qed
  finally show ?thesis .
qed

lemma fits_u32: "uint x < 2 ^ 32 \<longleftrightarrow> x AND 0xffffffff00000000 = 0" for x :: u64
proof -
  have m: "(0xffffffff00000000 :: u64) = NOT (mask 32)" by (simp add: mask_eq_exp_minus_1)
  have "uint x < 2 ^ 32 \<longleftrightarrow> take_bit 32 (uint x) = uint x"
    by (simp add: take_bit_int_eq_self_iff)
  also have "\<dots> \<longleftrightarrow> take_bit 32 x = x"
    by (simp only: unsigned_take_bit_eq [symmetric] word_uint_eq_iff)
  also have "\<dots> \<longleftrightarrow> x AND NOT (mask 32) = 0"
  proof
    assume a: "x AND NOT (mask 32) = 0"
    have "bit x i \<longrightarrow> i < 32" for i
      using arg_cong [OF a, of "\<lambda>w. bit w i"] bit_imp_le_length [of x i] by (auto simp: bit_simps)
    then show "take_bit 32 x = x" by (intro bit_word_eqI) (auto simp: bit_simps)
  next
    assume a: "take_bit 32 x = x"
    then show "x AND NOT (mask 32) = 0"
      by (metis take_bit_eq_mask and.assoc bit.conj_cancel_right and_zero_eq)
  qed
  finally show ?thesis unfolding m .
qed

lemma sint_word_of_int: "- (2 ^ (LENGTH('a) - 1)) \<le> k \<Longrightarrow> k < 2 ^ (LENGTH('a) - 1) \<Longrightarrow> sint (word_of_int k :: 'a::len word) = k"
  by (simp add: signed_of_int signed_take_bit_int_eq_self)

lemma smod_bounds: "b \<noteq> 0 \<Longrightarrow> \<bar>a smod b\<bar> < \<bar>b\<bar>" "b \<noteq> 0 \<Longrightarrow> 0 \<le> a \<Longrightarrow> 0 \<le> a smod b" "b \<noteq> 0 \<Longrightarrow> a \<le> 0 \<Longrightarrow> a smod b \<le> (0 :: int)"
  by (auto simp: signed_modulo_int_def sgn_if abs_mult)

lemma abs_sdiv: "\<bar>a sdiv b\<bar> = \<bar>a\<bar> div \<bar>b :: int\<bar>"
  by (simp add: signed_divide_int_def abs_mult) (auto simp: sgn_if abs_of_nonneg pos_imp_zdiv_nonneg_iff)

lemma sdiv_range:
  assumes "- (2 ^ 63) \<le> a" "a < 2 ^ 63" "b \<noteq> 0" "\<not> (a = - (2 ^ 63) \<and> b = - 1)"
  shows "- (2 ^ 63) \<le> a sdiv b \<and> a sdiv b < (2 ^ 63 :: int)"
proof -
  have "\<bar>a\<bar> div \<bar>b\<bar> \<le> \<bar>a\<bar>" using zdiv_mono2 [of "\<bar>a\<bar>" 1 "\<bar>b\<bar>"] assms(3) by simp
  then have le: "\<bar>a sdiv b\<bar> \<le> \<bar>a\<bar>" by (simp only: abs_sdiv)
  show ?thesis
  proof (cases "a = - (2 ^ 63)")
    case False
    then have "\<bar>a\<bar> < 2 ^ 63" using assms(1,2) by (simp add: abs_if)
    then show ?thesis using le by (simp only: abs_le_iff abs_less_iff) linarith
  next
    case True
    show ?thesis
    proof (cases "0 < b")
      case True
      have "a sdiv b \<le> 0" using \<open>a = _\<close> True by (simp add: signed_divide_int_def pos_imp_zdiv_nonneg_iff)
      then show ?thesis using le \<open>a = _\<close> by simp
    next
      case False
      then have "2 \<le> \<bar>b\<bar>" using assms(3,4) \<open>a = _\<close> by arith
      then have "\<bar>a\<bar> div \<bar>b\<bar> \<le> \<bar>a\<bar> div 2" by (intro zdiv_mono2) simp_all
      then have "\<bar>a sdiv b\<bar> \<le> 2 ^ 62" using \<open>a = _\<close> by (simp only: abs_sdiv) simp
      then show ?thesis by (simp add: abs_le_iff)
    qed
  qed
qed


section \<open>The 32-bit division\<close>

definition divs_value :: "cpu \<Rightarrow> u16 \<Rightarrow> int" where
  "divs_value c extra = (if extra AND 0x400 \<noteq> 0
     then sint (m68k_dreg c (reg_high extra)) * 2 ^ 32 + uint (m68k_dreg c (reg_low extra))
     else sint (m68k_dreg c (reg_low extra)))"

definition divu_value :: "cpu \<Rightarrow> u16 \<Rightarrow> int" where
  "divu_value c extra = (if extra AND 0x400 \<noteq> 0
     then uint (m68k_dreg c (reg_high extra)) * 2 ^ 32 + uint (m68k_dreg c (reg_low extra))
     else uint (m68k_dreg c (reg_low extra)))"

lemma ucast_scast_32 [simp]: "ucast (scast (w :: u32) :: u64) = w" "ucast (ucast w :: u64) = w"
  by (rule bit_word_eqI, simp add: bit_simps)+

lemma sint_scast_32: "sint (scast (w :: u32) :: u64) = sint w"
proof -
  have "(scast w :: u64) = word_of_int (sint w)" by simp
  moreover have "sint (word_of_int (sint w) :: u64) = sint w"
    using sint_ge [of w] sint_lt [of w] by (intro sint_word_of_int) simp_all
  ultimately show ?thesis by metis
qed

lemma ucast_word_of_int_32: "ucast (word_of_int k :: u64) = (word_of_int k :: u32)"
  by (rule bit_word_eqI) (auto simp: bit_simps)

lemma sint_divs_dividend: "sint (divs_dividend c extra) = divs_value c extra"
  by (simp add: divs_dividend_def divs_value_def sint_concat sint_scast_32 Let_def)

lemma uint_concat: "uint (x AND 0xffffffff OR push_bit 32 (ucast hi) :: u64) = uint (hi :: u32) * 2 ^ 32 + uint (ucast x :: u32)"
  using arg_cong [OF unat_concat [of x hi], of int] by simp

lemma uint_ucast_64: "uint (ucast (w :: u32) :: u64) = uint w"
proof -
  have "uint w < 2 ^ 64" by (rule order_less_trans [OF unsigned_less]) simp
  then show ?thesis by (simp add: unsigned_ucast_eq take_bit_int_eq_self)
qed

lemma uint_divu_dividend: "uint (divu_dividend c extra) = divu_value c extra"
  by (simp add: divu_dividend_def divu_value_def uint_concat uint_ucast_64 Let_def)

lemma sint_zero_iff: "(sint w = 0) = (w = 0)" for w :: "'a::len word"
  by (rule signed_eq_0_iff)

text \<open>C4: signed \<open>DIVS.L\<close> with a non-zero divisor divides the 32- or 64-bit dividend as mathematics
  does, rounding towards zero: when the quotient fits in 32 bits the quotient and the remainder of
  the dividend's sign are stored and \<open>N\<close> and \<open>Z\<close> describe the quotient; otherwise overflow is set
  and no register changes, also for the one quotient that overflows 64 bits.\<close>

theorem divl_signed:
  assumes "src \<noteq> 0" "extra AND 0x800 \<noteq> 0" "\<not> (extra AND 0x400 \<noteq> 0 \<and> int_no_unimplemented prefs \<and> cpu_model prefs = 68060)"
    and "q = divs_value c extra sdiv sint src" "r = divs_value c extra smod sint src"
  shows "fst (m68k_divl exc prefs c src extra oldpc) = 1 \<and>
    divs_value c extra = q * sint src + r \<and> \<bar>r\<bar> < \<bar>sint src\<bar> \<and> (r = 0 \<or> sgn r = sgn (divs_value c extra)) \<and>
    (let d = snd (m68k_divl exc prefs c src extra oldpc) in
      if - (2 ^ 31) \<le> q \<and> q < 2 ^ 31 then
        regs d = (regs c)[reg_high extra := word_of_int r, reg_low extra := word_of_int q] \<and>
        \<not> vflg d \<and> \<not> cflg d \<and> zflg d = (q = 0) \<and> nflg d = (q < 0)
      else regs d = regs c \<and> vflg d \<and> \<not> cflg d)"
proof -
  let ?a = "divs_dividend c extra" and ?A = "divs_value c extra" and ?s = "sint src"
  have s: "?s \<noteq> 0" using assms(1) by (simp add: sint_zero_iff)
  have A: "sint ?a = ?A" by (rule sint_divs_dividend)
  have Ar: "- (2 ^ 63) \<le> ?A" "?A < 2 ^ 63" using sint_ge [of ?a] sint_lt [of ?a] by (simp_all add: A)
  have sr: "\<bar>?s\<bar> \<le> 2 ^ 31" using sint_ge [of src] sint_lt [of src] by (simp add: abs_le_iff)
  have eq: "?A = q * ?s + r" by (simp add: assms(4,5) sdiv_mult_smod_eq)
  have r: "\<bar>r\<bar> < \<bar>?s\<bar>" "r = 0 \<or> sgn r = sgn ?A"
  proof -
    show "\<bar>r\<bar> < \<bar>?s\<bar>" using smod_bounds(1) [OF s] by (simp add: assms(5))
    show "r = 0 \<or> sgn r = sgn ?A"
      using smod_bounds(2,3) [OF s, of ?A, folded assms(5)]
      by (cases r "0 :: int" rule: linorder_cases; cases ?A "0 :: int" rule: linorder_cases) auto
  qed
  have ov: "regs (divsl_overflow prefs c extra ?a src) = regs c" "vflg (divsl_overflow prefs c extra ?a src)"
    "\<not> cflg (divsl_overflow prefs c extra ?a src)"
    by (simp_all add: divsl_overflow_def Let_def)
  have main: "?thesis" if "m68k_divl exc prefs c src extra oldpc =
     (1, if - (2 ^ 31) \<le> q \<and> q < 2 ^ 31 then div_result c extra (word_of_int q) (word_of_int r) else divsl_overflow prefs c extra ?a src)"
  proof (cases "- (2 ^ 31) \<le> q \<and> q < 2 ^ 31")
    case True
    then have "sint (word_of_int q :: u32) = q" by (intro sint_word_of_int) simp_all
    then show ?thesis using that True eq r
      by (simp add: div_result_def set_dreg_def ucast_word_of_int_32 Let_def)
  next
    case False
    then have "m68k_divl exc prefs c src extra oldpc = (1, divsl_overflow prefs c extra ?a src)" using that by (simp only: if_False)
    then show ?thesis using False eq r ov by (simp only: Let_def if_False) simp
  qed
  show ?thesis
  proof (rule main, cases "?a = 0x8000000000000000 \<and> src = NOT 0")
    case True
    have "?A = - (2 ^ 63)" "?s = - 1"  using True by (simp_all flip: A)
    then have "q = 2 ^ 63" by (simp add: assms(4))
    then show "m68k_divl exc prefs c src extra oldpc =
     (1, if - (2 ^ 31) \<le> q \<and> q < 2 ^ 31 then div_result c extra (word_of_int q) (word_of_int r) else divsl_overflow prefs c extra ?a src)"
      using True assms(1-3) by (simp add: m68k_divl_def)
  next
    case False
    have "\<not> (?A = - (2 ^ 63) \<and> ?s = - 1)"
    proof
      assume m: "?A = - (2 ^ 63) \<and> ?s = - 1"
      have "?a = word_of_int (sint ?a)" "src = word_of_int (sint src)" by simp_all
      then have "?a = word_of_int (- (2 ^ 63))" "src = word_of_int (- 1)" using m A by metis+
      then show False using False by simp
    qed
    then have q: "- (2 ^ 63) \<le> q \<and> q < 2 ^ 63" using sdiv_range [OF Ar s] assms(4) by simp
    have qw: "s64_div ?a (scast src) = word_of_int q" "s64_rem ?a (scast src) = word_of_int r"
      by (simp_all add: s64_div_def s64_rem_def A sint_scast_32 assms(4,5))
    have sq: "sint (word_of_int q :: u64) = q" using q by (intro sint_word_of_int) simp_all
    have rneg: "(if (sint (ucast (word_of_int r :: u64) :: u32) < 0) \<noteq> (sint ?a < 0) then - word_of_int r else word_of_int r) = (word_of_int r :: u64)"
    proof -
      have "sint (word_of_int r :: u32) = r" using r(1) sr by (intro sint_word_of_int) simp_all
      then show ?thesis using r(2) unfolding ucast_word_of_int_32 A by (auto simp: sgn_if split: if_splits)
    qed
    show "m68k_divl exc prefs c src extra oldpc =
     (1, if - (2 ^ 31) \<le> q \<and> q < 2 ^ 31 then div_result c extra (word_of_int q) (word_of_int r) else divsl_overflow prefs c extra ?a src)"
      using False assms(1-3) fits_s32 [of "word_of_int q"] unfolding m68k_divl_def Let_def qw sq rneg by auto
  qed
qed


lemma divl_signed_witness:
  "let c = cpu0\<lparr>regs := (regs cpu0)[0 := 0xfffffff9, 1 := 0xffffffff]\<rparr>;
       d = snd (m68k_divl (\<lambda>n pc c. c) (prefs_of 68020) c 2 0x0c01 0)
   in regs d = (regs c)[1 := word_of_int (- 1), 0 := word_of_int (- 3)] \<and> nflg d"
proof -
  define c where "c = cpu0\<lparr>regs := (regs cpu0)[0 := 0xfffffff9, 1 := 0xffffffff]\<rparr>"
  have r: "reg_low 0x0c01 = 0" "reg_high 0x0c01 = 1" by (simp_all add: reg_low_def reg_high_def)
  have v: "divs_value c 0x0c01 = - 7"
    by (simp add: divs_value_def r m68k_dreg_def c_def cpu0_def)
  have "(- 7 :: int) sdiv 2 = - 3" "(- 7 :: int) smod 2 = - 1" by (simp_all add: signed_divide_int_def signed_modulo_int_def)
  then show ?thesis
    using divl_signed [of 2 "0x0c01" "prefs_of 68020" _ c _ "\<lambda>n pc c. c" 0, OF _ _ _ refl refl]
    unfolding c_def [symmetric] Let_def by (simp add: v r prefs_of_def)
qed

text \<open>unsigned \<open>DIVU.L\<close> with a non-zero divisor stores quotient and remainder of the 32- or 64-bit
  dividend when the quotient fits in 32 bits; otherwise overflow is set and no register changes.\<close>

theorem divl_unsigned:
  assumes "src \<noteq> 0" "extra AND 0x800 = 0" "\<not> (extra AND 0x400 \<noteq> 0 \<and> int_no_unimplemented prefs \<and> cpu_model prefs = 68060)"
    and "q = divu_value c extra div uint src" "r = divu_value c extra mod uint src"
  shows "fst (m68k_divl exc prefs c src extra oldpc) = 1 \<and>
    (let d = snd (m68k_divl exc prefs c src extra oldpc) in
      if q < 2 ^ 32 then
        regs d = (regs c)[reg_high extra := word_of_int r, reg_low extra := word_of_int q] \<and>
        \<not> vflg d \<and> \<not> cflg d \<and> zflg d = (q = 0) \<and> nflg d = (2 ^ 31 \<le> q)
      else regs d = regs c \<and> vflg d \<and> \<not> cflg d)"
proof -
  let ?a = "divu_dividend c extra"
  have q: "uint (?a div ucast src) = q" "uint (?a mod ucast src) = r"
    by (simp_all add: uint_div uint_mod uint_divu_dividend uint_ucast_64 assms(4,5))
  have q0: "0 \<le> q" using q(1) unsigned_greater_eq by metis
  have w: "ucast (?a div ucast src) = (word_of_int q :: u32)" "ucast (?a mod ucast src) = (word_of_int r :: u32)"
    unfolding q [symmetric] by simp_all
  have big: "?a div ucast src > 0xffffffff \<longleftrightarrow> \<not> q < 2 ^ 32"
    unfolding word_less_def q by auto
  have ov: "regs (divul_overflow prefs c extra ?a) = regs c" "vflg (divul_overflow prefs c extra ?a)"
    "\<not> cflg (divul_overflow prefs c extra ?a)"
    by (simp_all add: divul_overflow_def Let_def)
  have e: "m68k_divl exc prefs c src extra oldpc =
     (1, if q < 2 ^ 32 then div_result c extra (?a div ucast src) (?a mod ucast src) else divul_overflow prefs c extra ?a)"
    using assms(1-3) unfolding m68k_divl_def Let_def big by auto
  show ?thesis
  proof (cases "q < 2 ^ 32")
    case True
    have u: "uint (word_of_int q :: u32) = q" using True q0 by (simp add: unsigned_of_int take_bit_int_eq_self)
    have "(word_of_int q :: u32) = 0 \<longleftrightarrow> q = 0" using u by (metis unsigned_0 word_of_int_0)
    then have "(sint (word_of_int q :: u32) = 0) = (q = 0)" by (simp only: sint_zero_iff)
    moreover have "(sint (word_of_int q :: u32) < 0) = (2 ^ 31 \<le> q)"
      using u sint_neg_iff [of "word_of_int q :: u32"] q0 by (simp add: unat_eq_nat_uint nat_le_iff le_nat_iff)
    moreover note True
    ultimately show ?thesis unfolding e by (simp add: div_result_def set_dreg_def w Let_def)
  next
    case False
    then show ?thesis unfolding e Let_def using ov by simp
  qed
qed


lemma divl_unsigned_witness:
  "regs (snd (m68k_divl (\<lambda>n pc c. c) (prefs_of 68020) (cpu0\<lparr>regs := (regs cpu0)[0 := 100]\<rparr>) 7 0x0001 0)) =
   (regs cpu0)[0 := 14, 1 := 2]"
proof -
  define c where "c = cpu0\<lparr>regs := (regs cpu0)[0 := 100]\<rparr>"
  have r: "reg_low 0x0001 = 0" "reg_high 0x0001 = 1" by (simp_all add: reg_low_def reg_high_def)
  have v: "divu_value c 0x0001 = 100"
    by (simp add: divu_value_def r m68k_dreg_def c_def cpu0_def)
  have "regs (snd (m68k_divl (\<lambda>n pc c. c) (prefs_of 68020) c 7 0x0001 0)) = (regs c)[1 := 2, 0 := 14]"
    using divl_unsigned [of 7 "0x0001" "prefs_of 68020" _ c _ "\<lambda>n pc c. c" 0, OF _ _ _ refl refl]
    unfolding Let_def by (simp add: v r prefs_of_def)
  then show ?thesis unfolding c_def by (simp add: cpu0_def eval_nat_numeral)
qed

section \<open>The 32-bit multiplication\<close>

definition mull_value :: "cpu \<Rightarrow> u32 \<Rightarrow> u16 \<Rightarrow> int" where
  "mull_value c src extra = (if extra AND 0x800 \<noteq> 0 then sint (m68k_dreg c (reg_low extra)) * sint src
     else uint (m68k_dreg c (reg_low extra)) * uint src)"

lemma sint_mult_range:
  assumes "- (2 ^ 31) \<le> x" "x < 2 ^ 31" "- (2 ^ 31) \<le> y" "y < 2 ^ 31"
  shows "- (2 ^ 63) \<le> x * y \<and> x * y < (2 ^ 63 :: int)"
proof -
  have "\<bar>x\<bar> \<le> 2 ^ 31" "\<bar>y\<bar> \<le> 2 ^ 31" using assms by (simp_all add: abs_le_iff)
  then have "\<bar>x * y\<bar> \<le> 2 ^ 31 * 2 ^ 31" unfolding abs_mult by (rule mult_mono) simp_all
  then show ?thesis by (simp add: abs_le_iff)
qed

lemma sint_product: "sint ((scast (x :: u32) :: u64) * scast (y :: u32)) = sint x * sint y"
proof -
  have "(scast x :: u64) * scast y = word_of_int (sint x * sint y)"
    by (metis of_int_mult of_int_sint sint_scast_32)
  moreover have "sint (word_of_int (sint x * sint y) :: u64) = sint x * sint y"
    using sint_mult_range [of "sint x" "sint y"] sint_ge [of x] sint_lt [of x] sint_ge [of y] sint_lt [of y]
    by (intro sint_word_of_int) simp_all
  ultimately show ?thesis by simp
qed

lemma uint_product: "uint ((ucast (x :: u32) :: u64) * ucast (y :: u32)) = uint x * uint y"
proof -
  have "uint x * uint y < 2 ^ 32 * 2 ^ 32" by (rule mult_strict_mono') (simp_all add: unsigned_less [THEN order_less_le_trans])
  then show ?thesis by (simp add: uint_word_ariths uint_ucast_64)
qed


text \<open>\<open>MULS.L\<close> and \<open>MULU.L\<close> multiply as mathematics does: with the 64-bit form the two registers
  hold the upper and lower half of the exact product, overflow is clear and \<open>N\<close>, \<open>Z\<close> describe all 64
  bits; with the 32-bit form the register holds the product modulo 2 to the 32 and overflow is set
  exactly when the product does not fit.\<close>

theorem mull_product:
  assumes "\<not> (extra AND 0x400 \<noteq> 0 \<and> int_no_unimplemented prefs \<and> cpu_model prefs = 68060)"
    and "reg_high extra \<noteq> reg_low extra" "cpu_wf c"
    and "p = mull_value c src extra"
  shows "\<exists>d. m68k_mull prefs c src extra = (1, d) \<and> \<not> cflg d \<and>
    (if extra AND 0x400 \<noteq> 0 then
       regs d = (regs c)[reg_low extra := word_of_int p, reg_high extra := word_of_int (p div 2 ^ 32)] \<and>
       \<not> vflg d \<and> zflg d = (p = 0) \<and> nflg d = (sint (word_of_int p :: u64) < 0) \<and>
       (extra AND 0x800 \<noteq> 0 \<longrightarrow> sint (word_of_int p :: u64) = p) \<and> (extra AND 0x800 = 0 \<longrightarrow> uint (word_of_int p :: u64) = p)
     else
       regs d = (regs c)[reg_low extra := word_of_int p] \<and>
       vflg d = (\<not> (if extra AND 0x800 \<noteq> 0 then - (2 ^ 31) \<le> p \<and> p < 2 ^ 31 else p < 2 ^ 32)))"
proof -
  let ?x = "m68k_dreg c (reg_low extra)"
  define a :: u64 where "a = (if extra AND 0x800 \<noteq> 0 then scast ?x * scast src else ucast ?x * ucast src)"
  have s: "extra AND 0x800 \<noteq> 0 \<Longrightarrow> sint a = p" by (simp add: a_def sint_product assms(4) mull_value_def)
  have u: "extra AND 0x800 = 0 \<Longrightarrow> uint a = p" by (simp add: a_def uint_product assms(4) mull_value_def)
  have aw: "a = word_of_int p" 
  proof -
    have "word_of_int (uint a) = a" "word_of_int (sint a) = a" by simp_all
    then show ?thesis using s u by (cases "extra AND 0x800 = 0") simp_all
  qed
  have z: "a = 0 \<longleftrightarrow> p = 0" 
    using s u by (cases "extra AND 0x800 = 0") (auto simp: aw)
  have low: "ucast a = (word_of_int p :: u32)" by (simp add: aw ucast_word_of_int_32)
  have high: "ucast (drop_bit 32 a) = (word_of_int (p div 2 ^ 32) :: u32)"
    unfolding aw drop_bit_eq_div [symmetric] by (rule bit_word_eqI) (auto simp: bit_simps)
  have fs: "extra AND 0x800 \<noteq> 0 \<Longrightarrow> (a AND 0xffffffff80000000 \<noteq> 0 \<and> a AND 0xffffffff80000000 \<noteq> 0xffffffff80000000) = (\<not> (- (2 ^ 31) \<le> p \<and> p < 2 ^ 31))"
    using fits_s32 [of a] s by simp
  have fu: "extra AND 0x800 = 0 \<Longrightarrow> (a AND 0xffffffff00000000 \<noteq> 0) = (\<not> p < 2 ^ 32)"
    using fits_u32 [of a] u by simp
  show ?thesis
  proof (cases "extra AND 0x400 \<noteq> 0")
    case True
    have e: "m68k_mull prefs c src extra = (1, mul_long prefs (c\<lparr>vflg := False, cflg := False\<rparr>) extra a)"
      using True assms(1) by (simp add: m68k_mull_def a_def Let_def)
    let ?d = "mul_long prefs (c\<lparr>vflg := False, cflg := False\<rparr>) extra a"
    have "regs ?d = (regs c)[reg_low extra := ucast a, reg_high extra := ucast (drop_bit 32 a)]"
      using list_update_swap [OF assms(2), of "regs c" "ucast (drop_bit 32 a)" "ucast a"]
      by (cases "68040 \<le> cpu_model prefs") (simp_all add: mul_long_def set_dreg_def)
    then have "regs ?d = (regs c)[reg_low extra := word_of_int p, reg_high extra := word_of_int (p div 2 ^ 32)]"
      by (simp only: low high)
    moreover have "\<not> cflg ?d" "\<not> vflg ?d" "zflg ?d = (p = 0)" "nflg ?d = (sint (word_of_int p :: u64) < 0)"
      by (simp_all add: mul_long_def set_dreg_def z flip: aw)
    moreover have "extra AND 0x800 \<noteq> 0 \<longrightarrow> sint (word_of_int p :: u64) = p" "extra AND 0x800 = 0 \<longrightarrow> uint (word_of_int p :: u64) = p"
      using s u by (auto simp only: aw [symmetric])
    ultimately show ?thesis unfolding e using True by (simp only: if_True simp_thms prod.inject)
  next
    case False
    show ?thesis
    proof (cases "extra AND 0x800 \<noteq> 0")
      case True
      then have "scast ?x * scast src = a" by (simp add: a_def)
      then show ?thesis
        using False True fs [OF True] by (auto simp: m68k_mull_def Let_def set_dreg_def low)
    next
      case unsigned: False
      then have "ucast ?x * ucast src = a" by (simp add: a_def)
      then show ?thesis
        using False unsigned fu by (auto simp: m68k_mull_def Let_def set_dreg_def low)
    qed
  qed
qed

lemma mull_product_witness:
  "\<exists>d. m68k_mull (prefs_of 68020) (cpu0\<lparr>regs := (regs cpu0)[0 := 0xfffffffe]\<rparr>) 3 0x0c01 = (1, d) \<and>
     regs d = (regs cpu0)[0 := word_of_int (- 6), 1 := word_of_int (- 1)] \<and> \<not> vflg d \<and> \<not> zflg d"
proof -
  define c where "c = cpu0\<lparr>regs := (regs cpu0)[0 := 0xfffffffe]\<rparr>"
  have r: "reg_low 0x0c01 = 0" "reg_high 0x0c01 = 1" by (simp_all add: reg_low_def reg_high_def)
  have v: "mull_value c 3 0x0c01 = - 6"
    by (simp add: mull_value_def r m68k_dreg_def c_def cpu0_def)
  have w: "cpu_wf c" by (simp add: c_def cpu_wf_def cpu0_def)
  have "(regs c)[0 := word_of_int (- 6), 1 := word_of_int (- 1)] = (regs cpu0)[0 := word_of_int (- 6), 1 := word_of_int (- 1)]"
    by (simp add: c_def)
  then show ?thesis
    using mull_product [of "0x0c01" "prefs_of 68020" c _ 3, OF _ _ w refl]
    unfolding c_def [symmetric] by (auto simp: v r prefs_of_def)
qed

section \<open>Condition codes\<close>

text \<open>on the 68020 and 68030 an overflowing \<open>DIVU\<close> sets \<open>V\<close>, sets \<open>N\<close> for a negative dividend and
  leaves \<open>C\<close>, \<open>Z\<close> and otherwise \<open>N\<close> as they were, although the comment above the function has \<open>C\<close> and
  \<open>Z\<close> cleared; on the 68040 and 68060 it sets \<open>V\<close>, clears \<open>C\<close> and leaves \<open>N\<close> and \<open>Z\<close>; before the
  68020 it clears \<open>C\<close> and \<open>Z\<close>.\<close>

theorem divu_overflow_flags:
  assumes "d = setdivuflags prefs c dividend divisor"
  shows "vflg d \<and> regs d = regs c \<and> xflg d = xflg c \<and>
    (cpu_model prefs \<in> {68020, 68030} \<longrightarrow> cflg d = cflg c \<and> zflg d = zflg c \<and> nflg d = (sint dividend < 0 \<or> nflg c)) \<and>
    (cpu_model prefs \<in> {68040, 68060} \<longrightarrow> \<not> cflg d \<and> nflg d = nflg c \<and> zflg d = zflg c) \<and>
    (cpu_model prefs = 68010 \<longrightarrow> \<not> cflg d \<and> \<not> zflg d \<and> nflg d = (0 \<le> sint dividend \<or> 0 \<le> sint divisor)) \<and>
    (cpu_model prefs = 68000 \<longrightarrow> \<not> cflg d \<and> \<not> zflg d \<and> nflg d)"
  using assms by (auto simp: setdivuflags_def Let_def)

lemma divu_overflow_flags_witness:
  "zflg (setdivuflags (prefs_of 68020) (cpu0\<lparr>zflg := True\<rparr>) 0x70000000 1)"
  using divu_overflow_flags [OF refl, of "prefs_of 68020" "cpu0\<lparr>zflg := True\<rparr>" "0x70000000" 1] by (simp add: prefs_of_def)

lemma sub_overflow_sign:
  fixes s d :: "'a::len word"
  shows "((sint d < 0) \<noteq> (sint s < 0) \<and> (sint (s - d) < 0) \<noteq> (sint s < 0)) \<longleftrightarrow>
    \<not> (- (2 ^ (LENGTH('a) - 1)) \<le> sint s - sint d \<and> sint s - sint d < 2 ^ (LENGTH('a) - 1))"
proof -
  let ?M = "2 ^ (LENGTH('a) - 1) :: int"
  have L: "2 ^ LENGTH('a) = 2 * ?M" by (metis One_nat_def Suc_pred len_gt_0 power_Suc)
  have M: "0 < ?M" by simp
  have b: "- ?M \<le> sint s" "sint s < ?M" "- ?M \<le> sint d" "sint d < ?M" using sint_ge [of s] sint_lt [of s] sint_ge [of d] sint_lt [of d] by simp_all
  have w: "s - d = word_of_int (sint s - sint d)" by simp
  have w2: "s - d = word_of_int (sint s - sint d + k * 2 ^ LENGTH('a))" for k by simp
  show ?thesis
  proof (cases "- ?M \<le> sint s - sint d \<and> sint s - sint d < ?M")
    case True
    then have "sint (s - d) = sint s - sint d" by (simp only: w) (intro sint_word_of_int; simp)
    then show ?thesis using True by auto
  next
    case False
    then consider "sint s - sint d < - ?M" | "?M \<le> sint s - sint d" by linarith
    then show ?thesis
    proof cases
      case 1
      then have "sint (s - d) = sint s - sint d + 2 * ?M"
        unfolding w2 [of 1] mult_1 L using b by (intro sint_word_of_int) linarith+
      then show ?thesis using 1 b M by auto
    next
      case 2
      then have "sint (s - d) = sint s - sint d - 2 * ?M"
        unfolding w2 [of "- 1"] L using b by (simp only: minus_mult_minus mult_minus1 add_uminus_conv_diff) (intro sint_word_of_int; linarith)
      then show ?thesis using 2 b M by auto
    qed
  qed
qed


lemma sint_less_uint: "(s < d) = (if (sint s < 0) = (sint d < 0) then sint s < sint d else sint d < 0)" for s d :: "'a::len word"
proof -
  have "uint s < uint d \<longleftrightarrow> unat s < unat d" by (simp add: word_less_nat_alt flip: word_less_def)
  then show ?thesis by (auto simp: word_less_nat_alt sint_neg_iff sint_alt)
qed

text \<open>on the 68020 and 68030 the flags \<open>CHK\<close> leaves are those of a comparison: \<open>N\<close> and \<open>Z\<close> are the
  sign and zero of the checked value; when it is out of bounds \<open>V\<close> is the signed overflow of the
  bound minus the value at the operand size and \<open>C\<close> is the borrow of that subtraction; in bounds both
  are clear.\<close>

theorem chk_flags_compare:
  assumes "cpu_model prefs = 68020 \<or> cpu_model prefs = 68030" "d = setchkundefinedflags prefs c src dst is_word"
  shows "zflg d = (dst = 0) \<and> nflg d = (sint dst < 0) \<and>
    (if sint dst < 0 \<or> sint dst > sint src then
       cflg d = (src < dst) \<and>
       vflg d = (\<not> (if is_word then - (2 ^ 15) \<le> sint (ucast src :: u16) - sint (ucast dst :: u16) \<and>
                               sint (ucast src :: u16) - sint (ucast dst :: u16) < 2 ^ 15
                   else - (2 ^ 31) \<le> sint src - sint dst \<and> sint src - sint dst < 2 ^ 31))
     else \<not> cflg d \<and> \<not> vflg d)"
proof -
  have m: "\<not> cpu_model prefs < 68020" using assms(1) by auto
  have v: "vflg d = (\<not> (if is_word then - (2 ^ 15) \<le> sint (ucast src :: u16) - sint (ucast dst :: u16) \<and>
                               sint (ucast src :: u16) - sint (ucast dst :: u16) < 2 ^ 15
                   else - (2 ^ 31) \<le> sint src - sint dst \<and> sint src - sint dst < 2 ^ 31))"
    if "sint dst < 0 \<or> sint dst > sint src"
  proof (cases is_word)
    case True
    then have "vflg d = ((sint (ucast dst :: u16) < 0) \<noteq> (sint (ucast src :: u16) < 0) \<and>
        (sint ((ucast src :: u16) - ucast dst) < 0) \<noteq> (sint (ucast src :: u16) < 0))"
      using that assms m by (auto simp: setchkundefinedflags_def Let_def CLEAR_CZNV_def)
    then show ?thesis using True sub_overflow_sign [of "ucast dst :: u16" "ucast src"] by simp
  next
    case False
    then have "vflg d = ((sint dst < 0) \<noteq> (sint src < 0) \<and> (sint (src - dst) < 0) \<noteq> (sint src < 0))"
      using that assms m by (auto simp: setchkundefinedflags_def Let_def CLEAR_CZNV_def)
    then show ?thesis using False sub_overflow_sign [of dst src] by simp
  qed
  have "cflg d = (src < dst)" if "sint dst < 0 \<or> sint dst > sint src"
    using that assms m sint_less_uint [of src dst] by (auto simp: setchkundefinedflags_def Let_def CLEAR_CZNV_def)
  moreover have "zflg d = (dst = 0)" "nflg d = (sint dst < 0)"
    using assms m by (simp_all add: setchkundefinedflags_def Let_def CLEAR_CZNV_def sint_zero_iff)
  moreover have "\<not> cflg d" "\<not> vflg d" if "\<not> (sint dst < 0 \<or> sint dst > sint src)"
    using that assms m by (auto simp: setchkundefinedflags_def Let_def CLEAR_CZNV_def)
  ultimately show ?thesis using v by simp
qed

lemma chk_flags_compare_witness:
  "cflg (setchkundefinedflags (prefs_of 68030) cpu0 0x7fff 0xffff8000 True) \<and> vflg (setchkundefinedflags (prefs_of 68030) cpu0 0x7fff 0xffff8000 True)"
  using chk_flags_compare [OF _ refl, of "prefs_of 68030" cpu0 "0x7fff" "0xffff8000" True] by (simp add: prefs_of_def)

text \<open>for byte and word operands, which the callers sign-extend, no subtraction in the flag
  computation of \<open>CHK2\<close> overflows: on the 68020 and 68030 \<open>V\<close> is always cleared, and \<open>N\<close> depends on the
  order of the three values as stated. Only long operands can set \<open>V\<close>, by C arithmetic that wraps.\<close>

theorem chk2_flags_narrow:
  assumes "cpu_model prefs \<noteq> 68040" "cpu_model prefs \<noteq> 68060"
    and "l = sint lower" "u = sint upper" "v = sint val"
    and "- (2 ^ 15) \<le> l" "l < 2 ^ 15" "- (2 ^ 15) \<le> u" "u < 2 ^ 15" "- (2 ^ 15) \<le> v" "v < 2 ^ 15"
    and "d = setchk2undefinedflags prefs c lower upper val"
  shows "\<not> vflg d \<and> zflg d = zflg c \<and> cflg d = cflg c \<and>
    nflg d = (v \<noteq> l \<and> v \<noteq> u \<and>
      (if l < 0 \<and> 0 \<le> u then v < l \<or> (0 \<le> v \<and> v < u)
       else if 0 \<le> l \<and> u < 0 then u < v
       else if 0 \<le> l then (if u < l then v < 0 \<or> (u < v \<and> v < l) else (0 \<le> v \<and> v < l) \<or> u < v)
       else (if u < l then 0 \<le> v \<or> (u < v \<and> v < l) else v < l \<or> (u < v \<and> v < 0))))"
proof -
  have "lower - val = word_of_int (l - v)" "upper - val = word_of_int (u - v)" "val - lower = word_of_int (v - l)"
    by (simp_all add: assms(3-5))
  then have s: "sint (lower - val) = l - v" "sint (upper - val) = u - v" "sint (val - lower) = v - l"
    using assms(6-11) by (simp_all only:) (intro sint_word_of_int; simp)+
  have f: "chk2_flags lower upper val =
      ((if l < 0 \<and> 0 \<le> u then v < l \<or> (0 \<le> v \<and> v < u)
        else if 0 \<le> l \<and> u < 0 then u < v
        else if 0 \<le> l then (if u < l then v < 0 \<or> (u < v \<and> v < l) else (0 \<le> v \<and> v < l) \<or> u < v)
        else (if u < l then 0 \<le> v \<or> (u < v \<and> v < l) else v < l \<or> (u < v \<and> v < 0))), False)"
    unfolding chk2_flags_def Let_def s assms(3-5) [symmetric]
    by (cases "l < 0"; cases "u < 0"; cases "u < l"; cases "v < 0"; simp; linarith?)
  show ?thesis
    unfolding assms(12) setchk2undefinedflags_def Let_def f assms(3-5) [symmetric] using assms(1,2) by simp
qed

lemma chk2_flags_narrow_witness: "nflg (setchk2undefinedflags (prefs_of 68020) cpu0 10 20 30)"
  using chk2_flags_narrow [of "prefs_of 68020" _ 10 _ 20 _ 30, OF _ _ refl refl refl, of _ cpu0, OF _ _ _ _ _ _ _ _ refl]
  by (simp add: prefs_of_def)

end
