(* ===== verification/EffectiveAddr.thy ===== *)
theory EffectiveAddr
  imports Memory CpuState
begin

text \<open>
  The indexed addressing modes of the 68020 and later (\<^verbatim>\<open>sources/src/newcpu_common.c\<close>): the address
  an extension word and the words after it describe. The five variants of the code differ in how
  they fetch words of the instruction and read memory, which are their arguments here, as is the
  register file: \<^verbatim>\<open>get_disp_ea_020\<close> reads at the host pointer, \<^verbatim>\<open>x_get_disp_ea_020\<close> through the
  function pointers \<^verbatim>\<open>x_next_iword\<close>, \<^verbatim>\<open>x_next_ilong\<close> and \<^verbatim>\<open>x_get_long\<close>, the others through the
  cycle-exact and cached fetches. A fetch may fail with a bus error (\<open>None\<close>). The indirect fetches
  of \<^verbatim>\<open>include/newcpu.h\<close> on banked memory are one provider of that interface.
\<close>

unbundle bit_operations_syntax

type_synonym 's fetch = "'s \<Rightarrow> (u32 \<times> 's) option"

section \<open>Instruction fetches at the program counter\<close>

definition m68k_getpci :: "cpu \<Rightarrow> u32" where
  "m68k_getpci c = pc c"

definition m68k_incpci :: "cpu \<Rightarrow> u32 \<Rightarrow> cpu" where
  "m68k_incpci c n = c\<lparr>pc := pc c + n\<rparr>"

definition m68k_setpci :: "cpu \<Rightarrow> u32 \<Rightarrow> cpu" where
  "m68k_setpci c newpc = c\<lparr>pc := newpc, instruction_pc := newpc\<rparr>"

definition get_iiword :: "cpu \<times> 'd memory \<Rightarrow> u32 \<Rightarrow> (u32 \<times> cpu \<times> 'd memory) option" where
  "get_iiword s n = (case s of (c, m) \<Rightarrow> do { (r, m) \<leftarrow> memory_get_wordi m (m68k_getpci c + n); Some (r, c, m) })"

definition get_iilong :: "cpu \<times> 'd memory \<Rightarrow> u32 \<Rightarrow> (u32 \<times> cpu \<times> 'd memory) option" where
  "get_iilong s n = (case s of (c, m) \<Rightarrow> do { (r, m) \<leftarrow> memory_get_longi m (m68k_getpci c + n); Some (r, c, m) })"

definition next_iiword :: "(cpu \<times> 'd memory) fetch" where
  "next_iiword s = do { (r, c, m) \<leftarrow> get_iiword s 0; Some (r, m68k_incpci c 2, m) }"

definition next_iilong :: "(cpu \<times> 'd memory) fetch" where
  "next_iilong s = do { (r, c, m) \<leftarrow> get_iilong s 0; Some (r, m68k_incpci c 4, m) }"

definition read_long :: "cpu \<times> 'd memory \<Rightarrow> u32 \<Rightarrow> (u32 \<times> cpu \<times> 'd memory) option" where
  "read_long s a = (case s of (c, m) \<Rightarrow> do { (r, m) \<leftarrow> memory_get_long m a; Some (r, c, m) })"

definition read_reg :: "cpu \<times> 'd memory \<Rightarrow> nat \<Rightarrow> u32" where
  "read_reg s n = regs (fst s) ! n"

section \<open>The five variants\<close>

definition get_disp_ea_020 ::
  "'s fetch \<Rightarrow> 's fetch \<Rightarrow> ('s \<Rightarrow> u32 \<Rightarrow> (u32 \<times> 's) option) \<Rightarrow> ('s \<Rightarrow> nat \<Rightarrow> u32) \<Rightarrow> 's \<Rightarrow> u32 \<Rightarrow> (u32 \<times> 's) option" where
  "get_disp_ea_020 next_diword next_dilong get_long reg s base = do {
     (dp, s) \<leftarrow> next_diword s;
     let dp = (ucast dp :: u16);
     let regd = reg s (unat (drop_bit 12 dp AND 15));
     let regd = (if dp AND 0x800 = 0 then scast (ucast regd :: u16) else regd);
     let regd = push_bit (unat (drop_bit 9 dp AND 3)) regd;
     if dp AND 0x100 \<noteq> 0 then do {
       let base = (if dp AND 0x80 \<noteq> 0 then 0 else base);
       let regd = (if dp AND 0x40 \<noteq> 0 then 0 else regd);
       (base, s) \<leftarrow> (if dp AND 0x30 = 0x20 then do { (d, s) \<leftarrow> next_diword s; Some (base + scast (ucast d :: u16), s) } else Some (base, s));
       (base, s) \<leftarrow> (if dp AND 0x30 = 0x30 then do { (d, s) \<leftarrow> next_dilong s; Some (base + d, s) } else Some (base, s));
       (outer, s) \<leftarrow> (if dp AND 0x3 = 0x2 then do { (d, s) \<leftarrow> next_diword s; Some (scast (ucast d :: u16), s) } else Some (0, s));
       (outer, s) \<leftarrow> (if dp AND 0x3 = 0x3 then next_dilong s else Some (outer, s));
       let base = (if dp AND 0x4 = 0 then base + regd else base);
       (base, s) \<leftarrow> (if dp AND 0x3 \<noteq> 0 then get_long s base else Some (base, s));
       let base = (if dp AND 0x4 \<noteq> 0 then base + regd else base);
       Some (base + outer, s)
     } else Some (base + scast (ucast dp :: u8) + regd, s) }"

text \<open>The function-pointer variant counts steps in \<^verbatim>\<open>cycles\<close>, which nothing reads.\<close>

definition x_get_disp_ea_020 ::
  "'s fetch \<Rightarrow> 's fetch \<Rightarrow> ('s \<Rightarrow> u32 \<Rightarrow> (u32 \<times> 's) option) \<Rightarrow> ('s \<Rightarrow> nat \<Rightarrow> u32) \<Rightarrow> 's \<Rightarrow> u32 \<Rightarrow> (u32 \<times> 's) option" where
  "x_get_disp_ea_020 x_next_iword x_next_ilong x_get_long reg s base = do {
     (dp, s) \<leftarrow> x_next_iword s;
     let dp = (ucast dp :: u16);
     let cycles = (0 :: int);
     let regd = reg s (unat (drop_bit 12 dp AND 15));
     let regd = (if dp AND 0x800 = 0 then scast (ucast regd :: u16) else regd);
     let regd = push_bit (unat (drop_bit 9 dp AND 3)) regd;
     if dp AND 0x100 \<noteq> 0 then do {
       let base = (if dp AND 0x80 \<noteq> 0 then 0 else base);
       let regd = (if dp AND 0x40 \<noteq> 0 then 0 else regd);
       (base, cycles, s) \<leftarrow> (if dp AND 0x30 = 0x20 then do { (d, s) \<leftarrow> x_next_iword s; Some (base + scast (ucast d :: u16), cycles + 1, s) } else Some (base, cycles, s));
       (base, cycles, s) \<leftarrow> (if dp AND 0x30 = 0x30 then do { (d, s) \<leftarrow> x_next_ilong s; Some (base + d, cycles + 1, s) } else Some (base, cycles, s));
       (outer, cycles, s) \<leftarrow> (if dp AND 0x3 = 0x2 then do { (d, s) \<leftarrow> x_next_iword s; Some (scast (ucast d :: u16), cycles + 1, s) } else Some (0, cycles, s));
       (outer, cycles, s) \<leftarrow> (if dp AND 0x3 = 0x3 then do { (d, s) \<leftarrow> x_next_ilong s; Some (d, cycles + 1, s) } else Some (outer, cycles, s));
       let (base, cycles) = (if dp AND 0x4 = 0 then (base + regd, cycles + 1) else (base, cycles));
       (base, cycles, s) \<leftarrow> (if dp AND 0x3 \<noteq> 0 then do { (v, s) \<leftarrow> x_get_long s base; Some (v, cycles + 1, s) } else Some (base, cycles, s));
       let (base, cycles) = (if dp AND 0x4 \<noteq> 0 then (base + regd, cycles + 1) else (base, cycles));
       Some (base + outer, s)
     } else Some (base + scast (ucast dp :: u8) + regd, s) }"

definition x_get_disp_ea_ce030 ::
  "'s fetch \<Rightarrow> 's fetch \<Rightarrow> ('s \<Rightarrow> u32 \<Rightarrow> (u32 \<times> 's) option) \<Rightarrow> ('s \<Rightarrow> nat \<Rightarrow> u32) \<Rightarrow> 's \<Rightarrow> u32 \<Rightarrow> (u32 \<times> 's) option" where
  "x_get_disp_ea_ce030 next_iword_030ce next_ilong_030ce x_get_long reg s base = do {
     (dp, s) \<leftarrow> next_iword_030ce s;
     let dp = (ucast dp :: u16);
     let regd = reg s (unat (drop_bit 12 dp AND 15));
     let regd = (if dp AND 0x800 = 0 then scast (ucast regd :: u16) else regd);
     let regd = push_bit (unat (drop_bit 9 dp AND 3)) regd;
     if dp AND 0x100 \<noteq> 0 then do {
       let base = (if dp AND 0x80 \<noteq> 0 then 0 else base);
       let regd = (if dp AND 0x40 \<noteq> 0 then 0 else regd);
       (base, s) \<leftarrow> (if dp AND 0x30 = 0x20 then do { (d, s) \<leftarrow> next_iword_030ce s; Some (base + scast (ucast d :: u16), s) } else Some (base, s));
       (base, s) \<leftarrow> (if dp AND 0x30 = 0x30 then do { (d, s) \<leftarrow> next_ilong_030ce s; Some (base + d, s) } else Some (base, s));
       (outer, s) \<leftarrow> (if dp AND 0x3 = 0x2 then do { (d, s) \<leftarrow> next_iword_030ce s; Some (scast (ucast d :: u16), s) } else Some (0, s));
       (outer, s) \<leftarrow> (if dp AND 0x3 = 0x3 then next_ilong_030ce s else Some (outer, s));
       let base = (if dp AND 0x4 = 0 then base + regd else base);
       (base, s) \<leftarrow> (if dp AND 0x3 \<noteq> 0 then x_get_long s base else Some (base, s));
       let base = (if dp AND 0x4 \<noteq> 0 then base + regd else base);
       Some (base + outer, s)
     } else Some (base + scast (ucast dp :: u8) + regd, s) }"

definition x_get_disp_ea_ce020 ::
  "'s fetch \<Rightarrow> 's fetch \<Rightarrow> ('s \<Rightarrow> u32 \<Rightarrow> (u32 \<times> 's) option) \<Rightarrow> ('s \<Rightarrow> nat \<Rightarrow> u32) \<Rightarrow> 's \<Rightarrow> u32 \<Rightarrow> (u32 \<times> 's) option" where
  "x_get_disp_ea_ce020 next_iword_020ce next_ilong_020ce x_get_long reg s base = do {
     (dp, s) \<leftarrow> next_iword_020ce s;
     let dp = (ucast dp :: u16);
     let regd = reg s (unat (drop_bit 12 dp AND 15));
     let regd = (if dp AND 0x800 = 0 then scast (ucast regd :: u16) else regd);
     let regd = push_bit (unat (drop_bit 9 dp AND 3)) regd;
     if dp AND 0x100 \<noteq> 0 then do {
       let base = (if dp AND 0x80 \<noteq> 0 then 0 else base);
       let regd = (if dp AND 0x40 \<noteq> 0 then 0 else regd);
       (base, s) \<leftarrow> (if dp AND 0x30 = 0x20 then do { (d, s) \<leftarrow> next_iword_020ce s; Some (base + scast (ucast d :: u16), s) } else Some (base, s));
       (base, s) \<leftarrow> (if dp AND 0x30 = 0x30 then do { (d, s) \<leftarrow> next_ilong_020ce s; Some (base + d, s) } else Some (base, s));
       (outer, s) \<leftarrow> (if dp AND 0x3 = 0x2 then do { (d, s) \<leftarrow> next_iword_020ce s; Some (scast (ucast d :: u16), s) } else Some (0, s));
       (outer, s) \<leftarrow> (if dp AND 0x3 = 0x3 then next_ilong_020ce s else Some (outer, s));
       let base = (if dp AND 0x4 = 0 then base + regd else base);
       (base, s) \<leftarrow> (if dp AND 0x3 \<noteq> 0 then x_get_long s base else Some (base, s));
       let base = (if dp AND 0x4 \<noteq> 0 then base + regd else base);
       Some (base + outer, s)
     } else Some (base + scast (ucast dp :: u8) + regd, s) }"

definition x_get_disp_ea_040 ::
  "'s fetch \<Rightarrow> 's fetch \<Rightarrow> ('s \<Rightarrow> u32 \<Rightarrow> (u32 \<times> 's) option) \<Rightarrow> ('s \<Rightarrow> nat \<Rightarrow> u32) \<Rightarrow> 's \<Rightarrow> u32 \<Rightarrow> (u32 \<times> 's) option" where
  "x_get_disp_ea_040 next_iword_cache040 next_ilong_cache040 x_get_long reg s base = do {
     (dp, s) \<leftarrow> next_iword_cache040 s;
     let dp = (ucast dp :: u16);
     let regd = reg s (unat (drop_bit 12 dp AND 15));
     let regd = (if dp AND 0x800 = 0 then scast (ucast regd :: u16) else regd);
     let regd = push_bit (unat (drop_bit 9 dp AND 3)) regd;
     if dp AND 0x100 \<noteq> 0 then do {
       let base = (if dp AND 0x80 \<noteq> 0 then 0 else base);
       let regd = (if dp AND 0x40 \<noteq> 0 then 0 else regd);
       (base, s) \<leftarrow> (if dp AND 0x30 = 0x20 then do { (d, s) \<leftarrow> next_iword_cache040 s; Some (base + scast (ucast d :: u16), s) } else Some (base, s));
       (base, s) \<leftarrow> (if dp AND 0x30 = 0x30 then do { (d, s) \<leftarrow> next_ilong_cache040 s; Some (base + d, s) } else Some (base, s));
       (outer, s) \<leftarrow> (if dp AND 0x3 = 0x2 then do { (d, s) \<leftarrow> next_iword_cache040 s; Some (scast (ucast d :: u16), s) } else Some (0, s));
       (outer, s) \<leftarrow> (if dp AND 0x3 = 0x3 then next_ilong_cache040 s else Some (outer, s));
       let base = (if dp AND 0x4 = 0 then base + regd else base);
       (base, s) \<leftarrow> (if dp AND 0x3 \<noteq> 0 then x_get_long s base else Some (base, s));
       let base = (if dp AND 0x4 \<noteq> 0 then base + regd else base);
       Some (base + outer, s)
     } else Some (base + scast (ucast dp :: u8) + regd, s) }"

lemma ea_variants:
  "x_get_disp_ea_ce030 = get_disp_ea_020" "x_get_disp_ea_ce020 = get_disp_ea_020" "x_get_disp_ea_040 = get_disp_ea_020"
  by (intro ext, simp only: x_get_disp_ea_ce030_def x_get_disp_ea_ce020_def x_get_disp_ea_040_def get_disp_ea_020_def)+

lemma x_ea_variant: "x_get_disp_ea_020 nw nl gl reg s base = get_disp_ea_020 nw nl gl reg s base"
proof (cases "nw s")
  case None
  then show ?thesis by (simp add: x_get_disp_ea_020_def get_disp_ea_020_def)
next
  case (Some p)
  then show ?thesis
    by (cases p) (simp add: x_get_disp_ea_020_def get_disp_ea_020_def Let_def case_prod_unfold Option.bind_assoc)
qed

section \<open>The addressing modes\<close>

text \<open>
  The modes as an assembler writes them: a brief extension word has an 8-bit displacement; a full one
  may suppress base and index, has a base displacement and may read a long word from memory, with
  the index added before or after, and an outer displacement.
\<close>

datatype displacement = NoDisp | WordDisp u16 | LongDisp u32

datatype indirection = Direct | PreIndexed displacement | PostIndexed displacement

datatype extension = Brief u8 | Full bool bool displacement indirection

record index_reg =
  index_number :: u16
  index_long :: bool
  index_scale :: u16

fun disp_value :: "displacement \<Rightarrow> u32" where
  "disp_value NoDisp = 0"
| "disp_value (WordDisp w) = scast w"
| "disp_value (LongDisp l) = l"

fun disp_words :: "displacement \<Rightarrow> u16 list" where
  "disp_words NoDisp = []"
| "disp_words (WordDisp w) = [w]"
| "disp_words (LongDisp l) = [ucast (drop_bit 16 l), ucast l]"

fun disp_size :: "displacement \<Rightarrow> u16" where
  "disp_size NoDisp = 1"
| "disp_size (WordDisp w) = 2"
| "disp_size (LongDisp l) = 3"

fun indirect_size :: "indirection \<Rightarrow> u16" where
  "indirect_size Direct = 0"
| "indirect_size (PreIndexed od) = disp_size od"
| "indirect_size (PostIndexed od) = 4 OR disp_size od"

fun indirect_words :: "indirection \<Rightarrow> u16 list" where
  "indirect_words Direct = []"
| "indirect_words (PreIndexed od) = disp_words od"
| "indirect_words (PostIndexed od) = disp_words od"

definition index_bits :: "index_reg \<Rightarrow> u16" where
  "index_bits x = push_bit 12 (index_number x) OR push_bit 11 (of_bool (index_long x)) OR push_bit 9 (index_scale x)"

fun ext_words :: "index_reg \<Rightarrow> extension \<Rightarrow> u16 list" where
  "ext_words x (Brief d) = [index_bits x OR ucast d]"
| "ext_words x (Full bs is bd ind) =
     (index_bits x OR push_bit 8 1 OR push_bit 7 (of_bool bs) OR push_bit 6 (of_bool is) OR push_bit 4 (disp_size bd) OR indirect_size ind)
     # disp_words bd @ indirect_words ind"

definition index_ok :: "index_reg \<Rightarrow> bool" where
  "index_ok x \<longleftrightarrow> index_number x AND mask 4 = index_number x \<and> index_scale x AND mask 2 = index_scale x"

definition index_value :: "(nat \<Rightarrow> u32) \<Rightarrow> index_reg \<Rightarrow> u32" where
  "index_value rg x = push_bit (unat (index_scale x))
     (if index_long x then rg (unat (index_number x)) else scast (ucast (rg (unat (index_number x))) :: u16))"

fun ea_value :: "(u32 \<Rightarrow> u32) \<Rightarrow> u32 \<Rightarrow> u32 \<Rightarrow> extension \<Rightarrow> u32" where
  "ea_value rd base index (Brief d) = base + index + scast d"
| "ea_value rd base index (Full bs is bd ind) =
     (let b = (if bs then 0 else base) + disp_value bd; x = (if is then 0 else index)
      in case ind of Direct \<Rightarrow> b + x | PreIndexed od \<Rightarrow> rd (b + x) + disp_value od | PostIndexed od \<Rightarrow> rd b + x + disp_value od)"

text \<open>The address of the long word a mode reads.\<close>

fun ea_reads :: "u32 \<Rightarrow> u32 \<Rightarrow> extension \<Rightarrow> u32 set" where
  "ea_reads base index (Brief d) = {}"
| "ea_reads base index (Full bs is bd ind) =
     (let b = (if bs then 0 else base) + disp_value bd; x = (if is then 0 else index)
      in case ind of Direct \<Rightarrow> {} | PreIndexed od \<Rightarrow> {b + x} | PostIndexed od \<Rightarrow> {b})"

section \<open>Fields of the extension word\<close>

lemma and_bit_iff: "w AND 2 ^ n \<noteq> 0 \<longleftrightarrow> bit w n" for w :: u16
  using and_exp_eq_0_iff_not_bit [of w n] by simp

lemmas and_bits_16 = and_bit_iff [of _ 8, simplified] and_bit_iff [of _ 7, simplified] and_bit_iff [of _ 6, simplified]
  and_bit_iff [of _ 2, simplified] and_bit_iff [of _ 11, simplified]

lemma index_ok_bits:
  assumes "index_ok x"
  shows "bit (index_number x) i \<Longrightarrow> i < 4" "bit (index_scale x) i \<Longrightarrow> i < 2"
  using assms unfolding index_ok_def by (metis bit_and_iff bit_mask_iff)+

lemma index_bits_bit:
  "index_ok x \<Longrightarrow> bit (index_bits x) i \<longleftrightarrow>
    (12 \<le> i \<and> i < 16 \<and> bit (index_number x) (i - 12)) \<or> (i = 11 \<and> index_long x) \<or> (9 \<le> i \<and> i < 11 \<and> bit (index_scale x) (i - 9))"
  using index_ok_bits(2) [of x "i - 9"] by (auto simp: index_bits_def bit_simps simp del: push_bit_Suc)

lemma index_fields:
  assumes "index_ok x" "\<forall>i \<ge> 9. \<not> bit r i"
  shows "drop_bit 12 (index_bits x OR r) AND 15 = index_number x"
    "drop_bit 9 (index_bits x OR r) AND 3 = index_scale x"
    "(index_bits x OR r) AND 0x800 = 0 \<longleftrightarrow> \<not> index_long x"
    "i < 9 \<Longrightarrow> bit (index_bits x OR r) i = bit r i"
proof -
  have m: "(15 :: u16) = mask 4" "(3 :: u16) = mask 2" by (simp_all add: mask_eq_exp_minus_1)
  show "drop_bit 12 (index_bits x OR r) AND 15 = index_number x"
    unfolding m using assms index_ok_bits(1) [OF assms(1)]
    by (intro bit_word_eqI) (auto simp: bit_and_iff bit_drop_bit_eq bit_or_iff bit_mask_iff index_bits_bit)
  show "drop_bit 9 (index_bits x OR r) AND 3 = index_scale x"
    unfolding m using assms index_ok_bits(2) [OF assms(1)]
    by (intro bit_word_eqI) (auto simp: bit_and_iff bit_drop_bit_eq bit_or_iff bit_mask_iff index_bits_bit)
  show "(index_bits x OR r) AND 0x800 = 0 \<longleftrightarrow> \<not> index_long x"
    using and_bits_16(5) [of "index_bits x OR r"] assms by (auto simp: bit_or_iff index_bits_bit)
  show "i < 9 \<Longrightarrow> bit (index_bits x OR r) i = bit r i"
    using assms(1) by (auto simp: bit_or_iff index_bits_bit)
qed

lemma index_low:
  assumes "index_ok x" "k AND mask 9 = k"
  shows "(index_bits x OR r) AND k = r AND k"
proof (rule bit_word_eqI)
  fix i
  have "bit k i \<Longrightarrow> i < 9" using assms(2) by (metis bit_and_iff bit_mask_iff)
  then show "bit ((index_bits x OR r) AND k) i = bit (r AND k) i"
    using assms(1) by (auto simp: bit_and_iff bit_or_iff index_bits_bit)
qed

definition full_bits :: "bool \<Rightarrow> bool \<Rightarrow> displacement \<Rightarrow> indirection \<Rightarrow> u16" where
  "full_bits bs is bd ind =
     push_bit 8 1 OR push_bit 7 (of_bool bs) OR push_bit 6 (of_bool is) OR push_bit 4 (disp_size bd) OR indirect_size ind"

lemma full_fields:
  "full_bits bs is bd ind AND 0x100 \<noteq> 0"
  "full_bits bs is bd ind AND 0x80 \<noteq> 0 \<longleftrightarrow> bs"
  "full_bits bs is bd ind AND 0x40 \<noteq> 0 \<longleftrightarrow> is"
  "full_bits bs is bd ind AND 0x30 = 0x20 \<longleftrightarrow> (\<exists>d. bd = WordDisp d)"
  "full_bits bs is bd ind AND 0x30 = 0x30 \<longleftrightarrow> (\<exists>d. bd = LongDisp d)"
  "full_bits bs is bd ind AND 3 = 2 \<longleftrightarrow> (\<exists>d. ind = PreIndexed (WordDisp d) \<or> ind = PostIndexed (WordDisp d))"
  "full_bits bs is bd ind AND 3 = 3 \<longleftrightarrow> (\<exists>d. ind = PreIndexed (LongDisp d) \<or> ind = PostIndexed (LongDisp d))"
  "full_bits bs is bd ind AND 3 \<noteq> 0 \<longleftrightarrow> ind \<noteq> Direct"
  "full_bits bs is bd ind AND 4 \<noteq> 0 \<longleftrightarrow> (\<exists>d. ind = PostIndexed d)"
  "full_bits bs is bd ind AND mask 9 = full_bits bs is bd ind"
  unfolding full_bits_def mask_eq_exp_minus_1
  by (cases bs; cases "is"; cases bd; cases ind rule: indirect_size.cases; (simp; fail)?;
      simp; rename_tac od; case_tac od; simp)+

section \<open>Decoding through a stream of instruction words\<close>

text \<open>
  The interface the five variants use: \<open>at s ws\<close> says that the instruction continues with \<open>ws\<close> at \<open>s\<close>,
  \<open>adv\<close> skips words; memory and registers stay as they are while the instruction is read.
\<close>

locale code_stream =
  fixes nw nl :: "'s fetch"
    and gl :: "'s \<Rightarrow> u32 \<Rightarrow> (u32 \<times> 's) option"
    and reg :: "'s \<Rightarrow> nat \<Rightarrow> u32"
    and at :: "'s \<Rightarrow> u16 list \<Rightarrow> bool"
    and adv :: "'s \<Rightarrow> nat \<Rightarrow> 's"
    and rd :: "u32 \<Rightarrow> u32"
    and rok :: "u32 \<Rightarrow> bool"
    and rg :: "nat \<Rightarrow> u32"
  assumes adv_0: "adv s 0 = s"
    and adv_adv: "adv (adv s m) n = adv s (m + n)"
    and at_adv: "at s (us @ ws) \<Longrightarrow> at (adv s (length us)) ws"
    and next_word: "at s (w # ws) \<Longrightarrow> nw s = Some (ucast w, adv s (Suc 0))"
    and next_long: "at s (ucast (drop_bit 16 v) # ucast v # ws) \<Longrightarrow> nl s = Some (v, adv s (Suc (Suc 0)))"
    and stream_read: "at s ws \<Longrightarrow> rok a \<Longrightarrow> gl s a = Some (rd a, s)"
    and stream_reg: "at s ws \<Longrightarrow> reg s n = rg n"
begin

lemma fetch_disp:
  assumes "at s (disp_words d @ ws)"
  shows "case d of NoDisp \<Rightarrow> True | WordDisp w \<Rightarrow> nw s = Some (ucast w, adv s (Suc 0)) | LongDisp l \<Rightarrow> nl s = Some (l, adv s (Suc (Suc 0)))"
  using assms by (cases d) (auto dest: next_word next_long)

lemma indirection_cases:
  obtains "ind = Direct" | "ind = PreIndexed NoDisp" | w where "ind = PreIndexed (WordDisp w)"
    | l where "ind = PreIndexed (LongDisp l)" | "ind = PostIndexed NoDisp"
    | w where "ind = PostIndexed (WordDisp w)" | l where "ind = PostIndexed (LongDisp l)"
  by (metis displacement.exhaust indirection.exhaust)

lemma ucast_16_32_16: "ucast (ucast (w :: u16) :: u32) = w"
  by (rule bit_word_eqI) (auto simp: bit_ucast_iff)

lemma decode_brief:
  assumes "index_ok x" "at s (ext_words x (Brief d) @ ws)"
  shows "get_disp_ea_020 nw nl gl reg s base = Some (ea_value rd base (index_value rg x) (Brief d), adv s (Suc 0))"
proof -
  let ?dp = "index_bits x OR ucast d"
  have n: "nw s = Some (ucast ?dp, adv s (Suc 0))" using assms(2) by (auto dest: next_word)
  have r: "reg (adv s (Suc 0)) k = rg k" for k using stream_reg [OF at_adv [OF assms(2)]] by simp
  have h: "\<forall>i \<ge> 9. \<not> bit (ucast d :: u16) i" by (auto simp: bit_ucast_iff dest: bit_imp_le_length)
  have b: "ucast ?dp = d"
    using index_fields(4) [OF assms(1) h] by (intro bit_word_eqI) (auto simp: bit_ucast_iff)
  have f: "?dp AND 0x100 = 0" using and_bits_16(1) [of ?dp] index_fields(4) [OF assms(1) h, of 8]
    by (auto simp: bit_ucast_iff dest: bit_imp_le_length)
  note t = ucast_16_32_16 [of ?dp]
  show ?thesis
    using n index_fields(1-3) [OF assms(1) h] by (simp add: get_disp_ea_020_def Let_def t f b r index_value_def add.assoc add.commute add.left_commute)
qed

lemma decode_full:
  assumes "index_ok x" "at s (ext_words x (Full bs is bd ind) @ ws)"
    and "\<forall>a \<in> ea_reads base (index_value rg x) (Full bs is bd ind). rok a"
  shows "get_disp_ea_020 nw nl gl reg s base =
    Some (ea_value rd base (index_value rg x) (Full bs is bd ind), adv s (length (ext_words x (Full bs is bd ind))))"
proof -
  let ?dp = "index_bits x OR full_bits bs is bd ind"
  have at0: "at s (?dp # disp_words bd @ indirect_words ind @ ws)"
    using assms(2) by (simp add: full_bits_def or.assoc)
  note at1 = at_adv [of s "[?dp]", simplified, OF at0]
  note at2 = at_adv [OF at1]
  have n: "nw s = Some (ucast ?dp, adv s (Suc 0))" using next_word [OF at0] .
  have h: "\<forall>i \<ge> 9. \<not> bit (full_bits bs is bd ind) i"
    using full_fields(10) by (metis bit_and_iff bit_mask_iff linorder_not_less)
  note t = ucast_16_32_16 [of ?dp]
  have low: "?dp AND k = full_bits bs is bd ind AND k" if "k AND mask 9 = k" for k
    using index_low [OF assms(1) that] .
  note f = full_fields [of bs "is" bd ind]
  have flags: "(?dp AND 0x100 = 0) = False" "(?dp AND 0x80 = 0) = (\<not> bs)" "(?dp AND 0x40 = 0) = (\<not> is)"
    "(?dp AND 0x30 = 0x20) = (\<exists>d. bd = WordDisp d)" "(?dp AND 0x30 = 0x30) = (\<exists>d. bd = LongDisp d)"
    "(?dp AND 3 = 2) = (\<exists>d. ind = PreIndexed (WordDisp d) \<or> ind = PostIndexed (WordDisp d))"
    "(?dp AND 3 = 3) = (\<exists>d. ind = PreIndexed (LongDisp d) \<or> ind = PostIndexed (LongDisp d))"
    "(?dp AND 3 = 0) = (ind = Direct)" "(?dp AND 4 = 0) = (\<not> (\<exists>d. ind = PostIndexed d))"
    using f by (subst low, simp add: mask_eq_exp_minus_1, blast)+
  have idx: "push_bit (unat (drop_bit 9 ?dp AND 3))
      (if ?dp AND 0x800 = 0 then scast (ucast (reg (adv s (Suc 0)) (unat (drop_bit 12 ?dp AND 15))) :: u16)
       else reg (adv s (Suc 0)) (unat (drop_bit 12 ?dp AND 15))) = index_value rg x"
    unfolding index_fields(1-3) [OF assms(1) h] stream_reg [OF at1] index_value_def by simp
  let ?s2 = "adv s (Suc (length (disp_words bd)))"
  have at2': "at ?s2 (indirect_words ind @ ws)" using at2 by (simp add: adv_adv)
  note bf = fetch_disp [OF at1, unfolded adv_adv]
  have of: "case ind of Direct \<Rightarrow> True | PreIndexed od \<Rightarrow> (case od of NoDisp \<Rightarrow> True | WordDisp w \<Rightarrow> nw ?s2 = Some (ucast w, adv ?s2 (Suc 0)) | LongDisp l \<Rightarrow> nl ?s2 = Some (l, adv ?s2 (Suc (Suc 0))))
      | PostIndexed od \<Rightarrow> (case od of NoDisp \<Rightarrow> True | WordDisp w \<Rightarrow> nw ?s2 = Some (ucast w, adv ?s2 (Suc 0)) | LongDisp l \<Rightarrow> nl ?s2 = Some (l, adv ?s2 (Suc (Suc 0))))"
    using at2' fetch_disp [of ?s2 _ ws] by (cases ind) simp_all
  let ?s3 = "adv s (Suc (length (disp_words bd) + length (indirect_words ind)))"
  have "at ?s3 ws" using at_adv [OF at2'] by (simp add: adv_adv)
  then have rf: "\<forall>a \<in> ea_reads base (index_value rg x) (Full bs is bd ind). gl ?s3 a = Some (rd a, ?s3)"
    using stream_read assms(3) by blast
  show ?thesis
    using bf of rf
    by (simp only: get_disp_ea_020_def n Option.bind.simps prod.case Let_def t flags idx)
       (cases bd; cases ind rule: indirection_cases; simp add: adv_adv ac_simps ucast_16_32_16)
qed

lemma decode:
  assumes "index_ok x" "at s (ext_words x e @ ws)" "\<forall>a \<in> ea_reads base (index_value rg x) e. rok a"
  shows "get_disp_ea_020 nw nl gl reg s base = Some (ea_value rd base (index_value rg x) e, adv s (length (ext_words x e)))"
proof (cases e)
  case (Brief d)
  then show ?thesis using decode_brief assms(1,2) by simp
next
  case (Full bs "is" bd ind)
  then show ?thesis using decode_full assms by blast
qed

end

section \<open>Decoding from memory\<close>

primrec code_at :: "'d memory \<Rightarrow> u32 \<Rightarrow> u16 list \<Rightarrow> bool" where
  "code_at m p [] \<longleftrightarrow> True"
| "code_at m p (w # ws) \<longleftrightarrow> be16 (ram_byte m p) (ram_byte m (p + 1)) = w \<and> code_at m (p + 2) ws"

definition stream_at :: "nat \<Rightarrow> u32 \<Rightarrow> cpu \<Rightarrow> 'd memory \<Rightarrow> cpu \<times> 'd memory \<Rightarrow> u16 list \<Rightarrow> bool" where
  "stream_at k base c m s ws \<longleftrightarrow> ram_at k base m \<and> snd s = m \<and>
     (\<exists>p. fst s = c\<lparr>pc := p\<rparr> \<and> fits k base p (2 * length ws) \<and> code_at m p ws)"

definition skip_words :: "cpu \<times> 'd memory \<Rightarrow> nat \<Rightarrow> cpu \<times> 'd memory" where
  "skip_words s n = (m68k_incpci (fst s) (of_nat (2 * n)), snd s)"

definition ram_long :: "'d memory \<Rightarrow> u32 \<Rightarrow> u32" where
  "ram_long m a = be32 (ram_byte m a) (ram_byte m (a + 1)) (ram_byte m (a + 2)) (ram_byte m (a + 3))"

lemma code_at_append: "code_at m p (us @ ws) \<longleftrightarrow> code_at m p us \<and> code_at m (p + of_nat (2 * length us)) ws"
  by (induction us arbitrary: p) (auto simp: add.assoc)

lemma be32_be16:
  assumes "be16 a b = ucast (drop_bit 16 v)" "be16 c d = ucast v"
  shows "be32 a b c d = (v :: u32)"
proof (rule bit_word_eqI)
  fix i :: nat assume i: "i < LENGTH(32)"
  have "bit (be32 a b c d) i = (if i < 16 then bit (be16 c d) i else bit (be16 a b) (i - 16))"
    using i by (auto simp: be32_def be16_def bit_simps dest: bit_imp_le_length)
  also have "\<dots> = bit v i"
    using i by (auto simp: assms bit_ucast_iff bit_drop_bit_eq)
  finally show "bit (be32 a b c d) i = bit v i" .
qed

lemma stream_at_split:
  assumes "stream_at k base c m s (us @ ws)"
  shows "stream_at k base c m (skip_words s (length us)) ws" "snd s = m" "ram_at k base m"
    "fits k base (pc (fst s)) (2 * length us)" "code_at m (pc (fst s)) us"
proof -
  obtain p where p: "ram_at k base m" "snd s = m" "fst s = c\<lparr>pc := p\<rparr>" "fits k base p (2 * length us + 2 * length ws)"
      "code_at m p (us @ ws)"
    using assms by (auto simp: stream_at_def algebra_simps)
  then show "snd s = m" "ram_at k base m" "fits k base (pc (fst s)) (2 * length us)" "code_at m (pc (fst s)) us"
    using memory_bus.room_split(1) by (auto simp: code_at_append)
  show "stream_at k base c m (skip_words s (length us)) ws"
  proof (cases ws)
    case Nil
    have "k < 32" using ram_at_bank(2) [OF p(1) base_in_window] by (simp add: ram_bank_def)
    then have k: "(2 :: nat) ^ k < 2 ^ 32" by (simp only: power_strict_increasing_iff)
    let ?n = "2 * length us"
    have le: "unat (p - base) + ?n \<le> 2 ^ k" using p(4) Nil by (simp add: fits_def)
    then have "unat (of_nat ?n :: u32) = ?n" using k by (simp only: unsigned_of_nat) (simp add: take_bit_nat_eq_self)
    then have "unat ((p - base) + of_nat ?n) = unat (p - base) + ?n"
      using le k by (subst unat_add_lem [THEN iffD1]) simp_all
    moreover have "p + of_nat ?n - base = (p - base) + of_nat ?n" by simp
    ultimately have "fits k base (p + of_nat ?n) 0" using le unfolding fits_def by (simp only:)
    then show ?thesis
      using p Nil by (auto simp: stream_at_def skip_words_def m68k_incpci_def)
  next
    case (Cons w vs)
    then have "fits k base (p + of_nat (2 * length us)) (2 * length ws)"
      using memory_bus.room_split(2) [OF p(1), of "2 * length ws" p "2 * length us"] p(4) by simp
    then show ?thesis
      using p code_at_append [of m p us ws] by (auto simp: stream_at_def skip_words_def m68k_incpci_def)
  qed
qed

interpretation ram_code: code_stream next_iiword next_iilong read_long read_reg "stream_at k base c m" skip_words
  "ram_long m" "\<lambda>a. fits k base a 4" "\<lambda>n. regs c ! n" for k base c m
proof unfold_locales
  fix s :: "cpu \<times> 'a memory" and i j :: nat and us ws w v a n
  show "skip_words s 0 = s" by (simp add: skip_words_def m68k_incpci_def)
  show "skip_words (skip_words s i) j = skip_words s (i + j)"
    by (simp add: skip_words_def m68k_incpci_def algebra_simps)
  show "stream_at k base c m (skip_words s (length us)) ws" if "stream_at k base c m s (us @ ws)"
    using stream_at_split(1) that .
  show "next_iiword s = Some (ucast w, skip_words s (Suc 0))" if "stream_at k base c m s (w # ws)"
    using stream_at_split [of k base c m s "[w]" ws] that ram_get(2) [of k base m "pc (fst s)"]
      memory_get_instruction(1) [of k base m "pc (fst s)"]
    by (cases s) (auto simp: next_iiword_def get_iiword_def skip_words_def m68k_getpci_def)
  show "next_iilong s = Some (v, skip_words s (Suc (Suc 0)))"
    if "stream_at k base c m s (ucast (drop_bit 16 v) # ucast v # ws)"
  proof -
    let ?us = "[ucast (drop_bit 16 v), ucast v]"
    have st: "stream_at k base c m s (?us @ ws)" using that by simp
    note sp = stream_at_split [OF st]
    let ?p = "pc (fst s)"
    have "be16 (ram_byte m ?p) (ram_byte m (?p + 1)) = ucast (drop_bit 16 v)"
      "be16 (ram_byte m (?p + 2)) (ram_byte m (?p + 3)) = ucast v"
      using sp(5) by (simp_all add: add.assoc)
    then have "memory_get_longi m ?p = Some (v, m)"
      using ram_get(3) [OF sp(3), of ?p] memory_get_instruction(2) [OF sp(3), of ?p] sp(4) by (simp add: be32_be16)
    then show ?thesis
      using sp(2) by (cases s) (simp add: next_iilong_def get_iilong_def skip_words_def m68k_getpci_def)
  qed
  show "read_long s a = Some (ram_long m a, s)" if "stream_at k base c m s ws" "fits k base a 4"
    using stream_at_split(2,3) [of k base c m s "[]" ws] that ram_get(3) [of k base m a]
    by (cases s) (simp add: read_long_def ram_long_def)
  show "read_reg s n = regs c ! n" if "stream_at k base c m s ws"
    using that by (auto simp: stream_at_def read_reg_def)
qed


text \<open>C7: every indexed addressing mode an assembler can write for the 68020, brief or full, with any
  suppression, displacement sizes and memory indirection before or after the index, is decoded from
  instruction words in RAM to the address the mode denotes, and the program counter ends just behind
  the words of the mode; all five variants of the decoder agree.\<close>

theorem ea_decodes_modes:
  assumes "ram_at k base m" "index_ok x" "code_at m (pc c) (ext_words x e)" "fits k base (pc c) (2 * length (ext_words x e))"
    and "\<forall>r \<in> ea_reads b (index_value (\<lambda>n. regs c ! n) x) e. fits k base r 4"
  shows "get_disp_ea_020 next_iiword next_iilong read_long read_reg (c, m) b =
      Some (ea_value (ram_long m) b (index_value (\<lambda>n. regs c ! n) x) e,
        c\<lparr>pc := pc c + of_nat (2 * length (ext_words x e))\<rparr>, m) \<and>
    x_get_disp_ea_020 nw nl gl rg s b = get_disp_ea_020 nw nl gl rg s b \<and>
    x_get_disp_ea_ce030 nw nl gl rg s b = get_disp_ea_020 nw nl gl rg s b \<and>
    x_get_disp_ea_ce020 nw nl gl rg s b = get_disp_ea_020 nw nl gl rg s b \<and>
    x_get_disp_ea_040 nw nl gl rg s b = get_disp_ea_020 nw nl gl rg s b"
proof -
  have "stream_at k base c m (c, m) (ext_words x e @ [])"
    using assms(1,3,4) by (auto simp: stream_at_def intro: exI [of _ "pc c"])
  from ram_code.decode [OF assms(2) this assms(5)]
  show ?thesis by (simp add: skip_words_def m68k_incpci_def x_ea_variant ea_variants)
qed

definition ea_example :: "unit memory" where
  "ea_example = ram_example\<lparr>the_banks := (\<lambda>n. (the_banks ram_example n)\<lparr>baseaddr := [0x19, 0x22, 0x00, 0x10, 0x00, 0x08] @ replicate 65530 0\<rparr>)\<rparr>"

lemma ea_example_at: "ram_at 16 0x20000 ea_example"
  by (simp add: ram_at_def ea_example_def ram_example_def ram_bank_def get_mem_bank_def mask_eq_exp_minus_1)

lemma ea_decodes_modes_witness:
  "map_option fst (get_disp_ea_020 next_iiword next_iilong read_long read_reg (cpu0\<lparr>pc := 0x20000\<rparr>, ea_example) 0x20100) = Some 8"
proof -
  let ?x = "\<lparr>index_number = 1, index_long = True, index_scale = 0\<rparr>" and ?e = "Full False False (WordDisp 0x10) (PreIndexed (WordDisp 8))"
  let ?c = "cpu0\<lparr>pc := 0x20000\<rparr>"
  have b: "ram_byte ea_example a = ([0x19, 0x22, 0x00, 0x10, 0x00, 0x08] @ replicate 65530 0) ! unat (a AND 0xffff)" for a
    by (simp add: ram_byte_def ea_example_def ram_example_def get_mem_bank_def bank_offset_def)
  have i: "index_value (\<lambda>n. regs ?c ! n) ?x = 0" by (simp add: index_value_def cpu0_def)
  have w: "ext_words ?x ?e = [0x1922, 0x10, 8]" by (simp add: index_bits_def)
  have "code_at ea_example (pc ?c) (ext_words ?x ?e)"
    unfolding w by (simp add: b be16_def)
  moreover have "fits 16 0x20000 (pc ?c) (2 * length (ext_words ?x ?e))" unfolding w by (simp add: fits_def)
  moreover have "index_ok ?x" by (simp add: index_ok_def mask_eq_exp_minus_1)
  moreover have "\<forall>r \<in> ea_reads 0x20100 (index_value (\<lambda>n. regs ?c ! n) ?x) ?e. fits 16 0x20000 r 4"
    unfolding i by (simp add: fits_def)
  ultimately have "get_disp_ea_020 next_iiword next_iilong read_long read_reg (?c, ea_example) 0x20100 =
      Some (ea_value (ram_long ea_example) 0x20100 0 ?e, ?c\<lparr>pc := pc ?c + of_nat (2 * length (ext_words ?x ?e))\<rparr>, ea_example)"
    using ea_decodes_modes [OF ea_example_at, of ?x ?c ?e "0x20100", THEN conjunct1] unfolding i by blast
  then show ?thesis by (simp add: ram_long_def b be32_def nth_append)
qed

end
