(* ===== verification/ExceptionFrame.thy ===== *)
theory ExceptionFrame
  imports CpuState Bitfield
begin

text \<open>
  The stack frames of exceptions and the small helpers at the end of
  \<^verbatim>\<open>sources/src/newcpu_common.c\<close>: \<^verbatim>\<open>exception_pc\<close>, \<^verbatim>\<open>Exception_build_stack_frame\<close> for all ten
  formats, \<^verbatim>\<open>Exception_build_stack_frame_common\<close>, the 68000 address error frame,
  \<^verbatim>\<open>cpu_restore_fixup\<close>, the condition codes of a move that faults,
  \<^verbatim>\<open>privileged_copro_instruction\<close> and \<^verbatim>\<open>generates_group1_exception\<close>. Memory is written through
  \<^verbatim>\<open>x_put_word\<close> and \<^verbatim>\<open>x_put_long\<close>, which are arguments (they are function pointers) and may fail
  with a bus error; the fields of \<^verbatim>\<open>regs\<close> and the MMU's variables that the frames save are kept in
  an extension of the processor record.
\<close>

unbundle bit_operations_syntax

record xcpu = cpu +
  irc :: u16
  write_buffer :: u16
  read_buffer :: u16
  fp_opword :: u16
  fp_ea :: u32
  fpu_exp_pre :: bool
  fp_unimp_ins :: bool
  fp_unimp_pend :: u32
  mmu_fault_addr :: u32
  mmu_effective_addr :: u32
  mmu_ssw :: u16
  wb2_address :: u32
  wb3_data :: u32
  wb3_status :: u8
  wb2_status :: u8
  prefetch020 :: "u16 list"
  prefetch020_valid :: "u8 list"
  pipeline_pos :: u32
  pipeline_r8 :: "u32 list"
  pipeline_stop :: u32
  mmu040_move16 :: "u32 list"
  mmu030_ad :: "u32 list"
  mmu030_idx :: u32
  mmu030_idx_done :: nat
  mmu030_state :: "u16 list"
  mmu030_opcode :: u32
  mmu030_disp_store :: "u32 list"
  mmu030_fmovem_store :: "u32 list"
  mm030_stageb_address :: u32
  mmufixup :: "(int \<times> u32) list"

type_synonym 'm store = "'m \<Rightarrow> u32 \<Rightarrow> u32 \<Rightarrow> 'm option"

definition a7 :: "xcpu \<Rightarrow> u32" where
  "a7 x = regs x ! 15"

definition set_a7 :: "xcpu \<Rightarrow> u32 \<Rightarrow> xcpu" where
  "set_a7 x v = x\<lparr>regs := (regs x)[15 := v]\<rparr>"

text \<open>\<^verbatim>\<open>m68k_areg(regs, 7) -= n\<close>, alone and followed by a write to the new top.\<close>

definition skip :: "u32 \<Rightarrow> xcpu \<times> 'm \<Rightarrow> xcpu \<times> 'm" where
  "skip n s = (set_a7 (fst s) (a7 (fst s) - n), snd s)"

definition push :: "'m store \<Rightarrow> u32 \<Rightarrow> u32 \<Rightarrow> xcpu \<times> 'm \<Rightarrow> (xcpu \<times> 'm) option" where
  "push put n v s =
     (let s = skip n s in do { m \<leftarrow> put (snd s) (a7 (fst s)) v; Some (fst s, m) })"

text \<open>The loops that push several values.\<close>

primrec push_each :: "'m store \<Rightarrow> u32 \<Rightarrow> u32 list \<Rightarrow> xcpu \<times> 'm \<Rightarrow> (xcpu \<times> 'm) option" where
  "push_each put n [] s = Some s"
| "push_each put n (v # vs) s = do { s \<leftarrow> push put n v s; push_each put n vs s }"

definition MAX_MMU030_ACCESS :: nat where
  "MAX_MMU030_ACCESS = 9"

definition MMU030_SSW_RW :: u32 where
  "MMU030_SSW_RW = 0x40"

definition MMU030_STATEFLAG1_FMOVEM :: u16 where
  "MMU030_STATEFLAG1_FMOVEM = 0x2000"

text \<open>\<^verbatim>\<open>ps\<close>: the validity of the prefetch words and the pipeline.\<close>

definition pipeline_state :: "xcpu \<Rightarrow> u32" where
  "pipeline_state x =
     (let ps = (if prefetch020_valid x ! 0 \<noteq> 0 then 1 else 0) OR (if prefetch020_valid x ! 1 \<noteq> 0 then 2 else 0)
               OR (if prefetch020_valid x ! 2 \<noteq> 0 then 4 else 0);
          ps = ps OR push_bit 8 (pipeline_r8 x ! 0 AND 7);
          ps = ps OR push_bit 11 (pipeline_r8 x ! 1 AND 7);
          ps = ps OR push_bit 16 (pipeline_pos x AND 15)
      in ps OR push_bit 20 (pipeline_stop x AND 15))"

text \<open>The part of formats 10 and 11 that they share.\<close>

definition frame_a :: "'m store \<Rightarrow> 'm store \<Rightarrow> u32 \<Rightarrow> bool \<Rightarrow> xcpu \<times> 'm \<Rightarrow> (xcpu \<times> 'm) option" where
  "frame_a putw putl ssw is_b s =
     (let x = fst s in do {
        s \<leftarrow> push putl 4 (if is_b then mmu030_disp_store x ! 0 else pipeline_state x) s;
        s \<leftarrow> push putl 4 (wb3_data x) s;
        s \<leftarrow> push putl 4 (if is_b then (mmu030_opcode x AND 0xffff) OR push_bit 16 (ucast (prefetch020 x ! 0))
                          else ucast (irc x) OR push_bit 16 (ucast (prefetch020 x ! 0))) s;
        s \<leftarrow> push putl 4 (mmu_fault_addr x) s;
        s \<leftarrow> push putw 2 (ucast (prefetch020 x ! 2)) s;
        s \<leftarrow> push putw 2 (ucast (prefetch020 x ! 1)) s;
        s \<leftarrow> push putw 2 ssw s;
        push putw 2 (wb2_address x) s })"

text \<open>
  The values of the internal registers: those of the accesses done, then zeros, with the two words
  \<^verbatim>\<open>FMOVEM\<close> stores last. The C array has \<^verbatim>\<open>MAX_MMU030_ACCESS + 1\<close> elements; a longer count of
  accesses would read past its end.
\<close>

definition internal_values :: "xcpu \<Rightarrow> u32 list" where
  "internal_values x =
     take (mmu030_idx_done x + 1) (mmu030_ad x) @
     map (\<lambda>i. if mmu030_state x ! 1 AND MMU030_STATEFLAG1_FMOVEM \<noteq> 0 then
                (if i = MAX_MMU030_ACCESS - 2 then mmu030_fmovem_store x ! 0
                 else if i = MAX_MMU030_ACCESS - 1 then mmu030_fmovem_store x ! 1 else 0)
              else 0) [mmu030_idx_done x + 1..<MAX_MMU030_ACCESS]"

definition frame_b :: "'m store \<Rightarrow> 'm store \<Rightarrow> u32 \<Rightarrow> xcpu \<times> 'm \<Rightarrow> (xcpu \<times> 'm) option" where
  "frame_b putw putl ssw s =
     (if mmu030_idx_done (fst s) \<ge> length (mmu030_ad (fst s)) then None
      else
        let x = fst s;
            x = (if ssw AND MMU030_SSW_RW = 0 then x\<lparr>mmu030_ad := (mmu030_ad x)[mmu030_idx_done x := wb3_data x]\<rparr> else x)
        in do {
          s \<leftarrow> push_each putl 4 (internal_values x) (x, snd s);
          s \<leftarrow> push putw 2 ((mmu030_idx x AND 0xf) OR push_bit 4 (of_nat (mmu030_idx_done x) AND 0xf) OR push_bit 8 (ucast (wb2_status x))) s;
          s \<leftarrow> push putw 2 (ucast (mmu030_state x ! 2) OR push_bit 8 (ucast (wb3_status x))) s;
          s \<leftarrow> push putw 2 (wb2_address x) s;
          s \<leftarrow> push putw 2 (ucast (mmu030_state x ! 0)) s;
          s \<leftarrow> push putl 4 (mmu_fault_addr x) s;
          s \<leftarrow> push putl 4 (if mmu030_opcode x = - 1 then pipeline_state x OR push_bit 31 1 else pipeline_state x) s;
          s \<leftarrow> push putl 4 (mm030_stageb_address x) s;
          s \<leftarrow> push putl 4 (mmu030_disp_store x ! 1) s;
          frame_a putw putl ssw True s })"

text \<open>Format 7: the access error frame of the 68040. It consumes the two pending writeback states.\<close>

definition frame_7 :: "'m store \<Rightarrow> 'm store \<Rightarrow> u32 \<Rightarrow> xcpu \<times> 'm \<Rightarrow> (xcpu \<times> 'm) option" where
  "frame_7 putw putl ssw s =
     (let x = fst s in do {
        s \<leftarrow> push_each putl 4 (rev (take 4 (mmu040_move16 x))) s;
        s \<leftarrow> push putl 4 0 s;
        s \<leftarrow> push putl 4 0 s;
        s \<leftarrow> push putl 4 (wb2_address x) s;
        s \<leftarrow> push putl 4 (wb3_data x) s;
        s \<leftarrow> push putl 4 (mmu_fault_addr x) s;
        s \<leftarrow> push putl 4 (mmu_fault_addr x) s;
        s \<leftarrow> push putw 2 0 s;
        s \<leftarrow> push putw 2 (ucast (wb2_status x)) s;
        s \<leftarrow> Some ((fst s)\<lparr>wb2_status := 0\<rparr>, snd s);
        s \<leftarrow> push putw 2 (ucast (wb3_status x)) s;
        s \<leftarrow> Some ((fst s)\<lparr>wb3_status := 0\<rparr>, snd s);
        s \<leftarrow> push putw 2 ssw s;
        push putl 4 (mmu_effective_addr x) s })"

text \<open>Format 8: the bus and address error frame of the 68010, with three words left as they are.\<close>

definition frame_8 :: "'m store \<Rightarrow> u32 \<Rightarrow> xcpu \<times> 'm \<Rightarrow> (xcpu \<times> 'm) option" where
  "frame_8 putw ssw s =
     (let x = fst s in do {
        s \<leftarrow> push_each putw 2 (replicate 15 0) s;
        s \<leftarrow> push putw 2 0 s;
        s \<leftarrow> push putw 2 (ucast (irc x)) s;
        s \<leftarrow> Some (skip 2 s);
        s \<leftarrow> push putw 2 (ucast (read_buffer x)) s;
        s \<leftarrow> Some (skip 2 s);
        s \<leftarrow> push putw 2 (ucast (write_buffer x)) s;
        s \<leftarrow> Some (skip 2 s);
        s \<leftarrow> push putw 2 (mmu_fault_addr x) s;
        s \<leftarrow> push putw 2 (drop_bit 16 (mmu_fault_addr x)) s;
        push putw 2 ssw s })"

text \<open>
  \<^verbatim>\<open>Exception_build_stack_frame\<close>: an unknown format is logged and changes nothing.
\<close>

definition Exception_build_stack_frame ::
  "'m store \<Rightarrow> 'm store \<Rightarrow> u32 \<Rightarrow> u32 \<Rightarrow> u32 \<Rightarrow> nat \<Rightarrow> nat \<Rightarrow> xcpu \<times> 'm \<Rightarrow> (xcpu \<times> 'm) option" where
  "Exception_build_stack_frame putw putl oldpc currpc ssw nr format s =
     (if format \<notin> {0, 1, 2, 3, 4, 7, 8, 9, 10, 11} then Some s
      else do {
        s \<leftarrow> (if format = 0 \<or> format = 1 then Some s
              else if format = 2 then push putl 4 oldpc s
              else if format = 3 then push putl 4 (fp_ea (fst s)) s
              else if format = 4 then do { s \<leftarrow> push putl 4 ssw s; push putl 4 oldpc s }
              else if format = 7 then frame_7 putw putl ssw s
              else if format = 8 then frame_8 putw ssw s
              else if format = 9 then do {
                s \<leftarrow> push putl 4 (fp_ea (fst s)) s;
                s \<leftarrow> push putl 4 (ucast (fp_opword (fst s))) s;
                push putl 4 oldpc s }
              else if format = 11 then frame_b putw putl ssw s
              else frame_a putw putl ssw False s);
        s \<leftarrow> push putw 2 (push_bit 12 (of_nat format) OR of_nat (nr * 4)) s;
        s \<leftarrow> push putl 4 currpc s;
        push putw 2 (ucast (sr (fst s))) s })"

section \<open>Which frame an exception gets\<close>

definition Exception_build_stack_frame_common ::
  "'m store \<Rightarrow> 'm store \<Rightarrow> cpu_prefs \<Rightarrow> u32 \<Rightarrow> u32 \<Rightarrow> u32 \<Rightarrow> nat \<Rightarrow> nat \<Rightarrow> xcpu \<times> 'm \<Rightarrow> (xcpu \<times> 'm) option" where
  "Exception_build_stack_frame_common putw putl prefs oldpc currpc ssw nr vector_nr s =
     (let build = Exception_build_stack_frame putw putl; x = fst s
      in if nr = 5 \<or> nr = 6 \<or> nr = 7 \<or> nr = 9 then
           (let oldpc = (if nr = 9 then trace_pc x else oldpc)
            in if cpu_model prefs \<le> 68010 then build oldpc currpc (ucast (mmu_ssw x)) vector_nr 0 s
               else build oldpc currpc (ucast (mmu_ssw x)) vector_nr 2 s)
         else if nr = 60 \<or> nr = 61 then build oldpc (instruction_pc x) (ucast (mmu_ssw x)) vector_nr 0 s
         else if nr \<ge> 48 \<and> nr \<le> 55 then
           (if fpu_exp_pre x then
              (if cpu_model prefs = 68060 \<and> nr = 55 \<and> fp_unimp_pend x = 2
               then build (fp_ea x) (instruction_pc x) 0 vector_nr 2 s
               else build oldpc (instruction_pc x) 0 vector_nr 0 s)
            else
              (if cpu_model prefs = 68060 \<and> nr = 55 \<and> fp_unimp_pend x = 2
               then build (fp_ea x) currpc 0 vector_nr 2 s
               else build oldpc currpc 0 vector_nr 3 s))
         else if nr = 11 \<and> fp_unimp_ins x then
           (let s = (x\<lparr>fp_unimp_ins := False\<rparr>, snd s)
            in if (cpu_model prefs = 68060 \<and> (fpu_model prefs = 0 \<or> pcr x AND 2 \<noteq> 0)) \<or>
                  (cpu_model prefs = 68040 \<and> fpu_model prefs = 0)
               then build (fp_ea x) currpc (instruction_pc x) vector_nr 4 s
               else build (fp_ea x) currpc (ucast (mmu_ssw x)) vector_nr 2 s)
         else build oldpc currpc (ucast (mmu_ssw x)) vector_nr 0 s)"

definition exception_pc :: "xcpu \<Rightarrow> nat \<Rightarrow> u32" where
  "exception_pc x nr = (if nr = 2 \<or> nr = 3 \<or> nr = 4 \<or> nr = 8 \<or> nr = 10 \<or> nr = 11 then instruction_pc x else pc x)"

text \<open>The 68000's address error frame: the stack pointer moves once, the words are written upwards.\<close>

definition Exception_build_68000_address_error_stack_frame ::
  "'m store \<Rightarrow> 'm store \<Rightarrow> u16 \<Rightarrow> u16 \<Rightarrow> u32 \<Rightarrow> u32 \<Rightarrow> xcpu \<times> 'm \<Rightarrow> (xcpu \<times> 'm) option" where
  "Exception_build_68000_address_error_stack_frame putw putl mode opcode fault_addr pcv s =
     (let mode = mode OR (opcode AND NOT 31);
          s = skip 14 s; a = a7 (fst s)
      in do {
        m \<leftarrow> putw (snd s) a (ucast mode);
        m \<leftarrow> putl m (a + 2) fault_addr;
        m \<leftarrow> putw m (a + 6) (ucast opcode);
        m \<leftarrow> putw m (a + 8) (ucast (sr (fst s)));
        m \<leftarrow> putl m (a + 10) pcv;
        Some (fst s, m) })"

section \<open>Helpers of faulting instructions\<close>

text \<open>Address registers an aborted instruction had changed get their values back.\<close>

definition restore_one :: "nat \<Rightarrow> xcpu \<Rightarrow> xcpu" where
  "restore_one i x =
     (case mmufixup x ! i of (reg, v) \<Rightarrow>
        if reg \<ge> 0 then x\<lparr>regs := (regs x)[8 + nat (reg AND 15) := v], mmufixup := (mmufixup x)[i := (- 1, v)]\<rparr> else x)"

definition cpu_restore_fixup :: "xcpu \<Rightarrow> xcpu" where
  "cpu_restore_fixup x = restore_one 1 (restore_one 0 x)"

definition ccr_68000_long_move_ae_LZN :: "cpu \<Rightarrow> u32 \<Rightarrow> cpu" where
  "ccr_68000_long_move_ae_LZN c src =
     (let c = CLEAR_CZNV c; vsrc = (ucast (src AND 0xffff) :: u16)
      in c\<lparr>zflg := vsrc = 0, nflg := sint vsrc < 0\<rparr>)"

definition ccr_68000_long_move_ae_LN :: "cpu \<Rightarrow> u32 \<Rightarrow> cpu" where
  "ccr_68000_long_move_ae_LN c src =
     (let c = CLEAR_CZNV c; vsrc = (ucast (src AND 0xffff) :: u16) in c\<lparr>nflg := sint vsrc < 0\<rparr>)"

definition ccr_68000_long_move_ae_HNZ :: "cpu \<Rightarrow> u32 \<Rightarrow> cpu" where
  "ccr_68000_long_move_ae_HNZ c src =
     (let vsrc = (ucast (drop_bit 16 src) :: u16)
      in if sint vsrc < 0 then c\<lparr>nflg := True, zflg := False\<rparr>
         else if vsrc \<noteq> 0 then c\<lparr>nflg := False, zflg := False\<rparr>
         else c\<lparr>nflg := False\<rparr>)"

definition ccr_68000_long_move_ae_normal :: "cpu \<Rightarrow> u32 \<Rightarrow> cpu" where
  "ccr_68000_long_move_ae_normal c src = (CLEAR_CZNV c)\<lparr>zflg := src = 0, nflg := sint src < 0\<rparr>"

definition ccr_68000_word_move_ae_normal :: "cpu \<Rightarrow> u16 \<Rightarrow> cpu" where
  "ccr_68000_word_move_ae_normal c src = (CLEAR_CZNV c)\<lparr>zflg := src = 0, nflg := sint src < 0\<rparr>"

definition dreg_68000_long_replace_low :: "cpu \<Rightarrow> nat \<Rightarrow> u16 \<Rightarrow> cpu" where
  "dreg_68000_long_replace_low c reg v = set_dreg c reg ((m68k_dreg c reg AND 0xffff0000) OR ucast v)"

definition areg_68000_long_replace_low :: "cpu \<Rightarrow> nat \<Rightarrow> u16 \<Rightarrow> cpu" where
  "areg_68000_long_replace_low c reg v = set_areg c reg ((m68k_areg c reg AND 0xffff0000) OR ucast v)"

definition privileged_copro_instruction :: "cpu_prefs \<Rightarrow> bool \<Rightarrow> u16 \<Rightarrow> bool" where
  "privileged_copro_instruction prefs supervisor opcode =
     (if 68020 \<le> cpu_model prefs \<and> \<not> supervisor then
        let reg = opcode AND 7; mode = drop_bit 3 opcode AND 7; id = drop_bit 9 opcode AND 7
        in if opcode AND 0xf1c0 = 0xf100 then
             (mode = 2 \<or> (mode \<ge> 4 \<and> mode \<le> 6) \<or> (mode = 7 \<and> (reg = 0 \<or> reg = 1))) \<and>
             (cpu_model prefs < 68040 \<or> (cpu_model prefs \<ge> 68040 \<and> id = 1))
           else if opcode AND 0xf1c0 = 0xf140 then
             (mode = 2 \<or> mode = 3 \<or> (mode \<ge> 5 \<and> mode \<le> 6) \<or> (mode = 7 \<and> reg \<le> 3)) \<and>
             (cpu_model prefs < 68040 \<or> (cpu_model prefs \<ge> 68040 \<and> id = 1))
           else False
      else False)"

text \<open>An entry of the opcode table: illegal or not, privilege level, word-sized or not.\<close>

record instr =
  is_ILLG :: bool
  plev :: int
  is_word_size :: bool

definition generates_group1_exception :: "(u16 \<Rightarrow> instr) \<Rightarrow> cpu_prefs \<Rightarrow> bool \<Rightarrow> u16 \<Rightarrow> bool" where
  "generates_group1_exception table68k prefs supervisor opcode =
     (let table = table68k opcode
      in if is_ILLG table then True
         else if \<not> supervisor \<and> plev table = 1 \<and> cpu_model prefs > 68000 then True
         else if \<not> supervisor \<and> plev table = 2 then True
         else \<not> supervisor \<and> plev table = 3 \<and> is_word_size table)"

section \<open>Growing the stack in RAM\<close>

text \<open>The bytes a frame of each format takes.\<close>

definition frame_size :: "nat \<Rightarrow> nat" where
  "frame_size f = (if f = 2 \<or> f = 3 then 12 else if f = 4 then 16 else if f = 7 then 60 else if f = 8 then 58
     else if f = 9 then 20 else if f = 10 then 32 else if f = 11 then 92 else 8)"

lemma word_bytes_16:
  "ucast (drop_bit 8 (ucast (w :: u16) :: u32)) = (ucast (drop_bit 8 w) :: u8)" "ucast (ucast w :: u32) = (ucast w :: u8)"
  by (rule bit_word_eqI; auto simp: bit_simps dest: bit_imp_le_length)+

context ram_bus
begin

definition stack_ok :: "xcpu \<times> 's \<Rightarrow> bool" where
  "stack_ok s \<longleftrightarrow> ok (snd s) \<and> length (regs (fst s)) = 16"

text \<open>There is RAM for \<open>n\<close> bytes below the stack pointer.\<close>

definition space :: "xcpu \<times> 's \<Rightarrow> nat \<Rightarrow> bool" where
  "space s n \<longleftrightarrow> room (a7 (fst s) - of_nat n) n"

text \<open>The stack has grown by \<open>n\<close> bytes and nothing above it or elsewhere has changed.\<close>

definition stacked :: "nat \<Rightarrow> xcpu \<times> 's \<Rightarrow> xcpu \<times> 's \<Rightarrow> bool" where
  "stacked n s t \<longleftrightarrow> a7 (fst t) = a7 (fst s) - of_nat n \<and> sr (fst t) = sr (fst s) \<and>
     (\<forall>b \<in> win. (\<forall>i < n. b \<noteq> a7 (fst t) + of_nat i) \<longrightarrow> byte (snd t) b = byte (snd s) b)"

definition grows :: "nat \<Rightarrow> xcpu \<times> 's \<Rightarrow> (xcpu \<times> 's) option \<Rightarrow> bool" where
  "grows n s r \<longleftrightarrow> (\<exists>t. r = Some t \<and> stack_ok t \<and> stacked n s t)"

lemma a7_set [simp]: "length (regs x) = 16 \<Longrightarrow> a7 (set_a7 x v) = v"
  by (simp add: a7_def set_a7_def)

lemma set_a7_fields [simp]: "sr (set_a7 x v) = sr x" "length (regs (set_a7 x v)) = length (regs x)"
  by (simp_all add: set_a7_def)

lemma stacked_0: "stacked 0 s s"
  by (simp add: stacked_def)

lemma stacked_trans:
  assumes "stacked m s t" "stacked n t u"
  shows "stacked (m + n) s u"
proof -
  have e: "a7 (fst u) = a7 (fst t) - of_nat n" "a7 (fst t) = a7 (fst s) - of_nat m"
    using assms by (simp_all add: stacked_def)
  have "byte (snd u) b = byte (snd s) b" if b: "b \<in> win" "\<forall>i < m + n. b \<noteq> a7 (fst u) + of_nat i" for b
  proof -
    have "\<forall>i < n. b \<noteq> a7 (fst u) + of_nat i" using b(2) by simp
    moreover have "b \<noteq> a7 (fst t) + of_nat i" if "i < m" for i
      using b(2) [rule_format, of "n + i"] that by (simp add: e(1))
    ultimately show ?thesis using assms b(1) by (simp add: stacked_def)
  qed
  then show ?thesis using assms e by (simp add: stacked_def)
qed

lemma space_split:
  assumes "stack_ok s" "space s (m + n)" "stacked m s t" "0 < m"
  shows "space s m" "space t n"
proof -
  have "room (a7 (fst s) - of_nat (m + n)) (n + m)" using assms(2) by (simp add: space_def add.commute)
  then have "room (a7 (fst s) - of_nat (m + n) + of_nat n) m" "room (a7 (fst s) - of_nat (m + n)) n"
    using room_split assms(1,4) unfolding stack_ok_def by blast+
  moreover have "a7 (fst s) - of_nat (m + n) + of_nat n = a7 (fst s) - of_nat m"
    "a7 (fst s) - of_nat (m + n) = a7 (fst t) - of_nat n"
    using assms(3) by (simp_all add: stacked_def)
  ultimately show "space s m" "space t n" by (simp_all only: space_def)
qed

lemma space_first: "stack_ok s \<Longrightarrow> space s (m + n) \<Longrightarrow> 0 < m \<Longrightarrow> space s m"
  using room_split(2) [of "snd s" m "a7 (fst s) - of_nat (m + n)" n] by (simp add: space_def stack_ok_def add.commute)

lemma grows_bind:
  assumes "stack_ok s" "space s (m + n)" "0 < m"
    and "space s m \<Longrightarrow> grows m s r"
    and "\<And>t. stack_ok t \<Longrightarrow> space t n \<Longrightarrow> stacked m s t \<Longrightarrow> grows n t (g t)"
  shows "grows (m + n) s (r \<bind> g)"
proof -
  obtain t where t: "r = Some t" "stack_ok t" "stacked m s t"
    using assms(4) [OF space_first [OF assms(1-3)]] unfolding grows_def by blast
  obtain u where "g t = Some u" "stack_ok u" "stacked n t u"
    using assms(5) [OF t(2) space_split(2) [OF assms(1,2) t(3) assms(3)] t(3)] unfolding grows_def by blast
  then show ?thesis using t stacked_trans unfolding grows_def by auto
qed

lemma grows_skip:
  assumes "stack_ok s"
  shows "grows n s (Some (skip (of_nat n) s))"
  using assms by (auto simp: grows_def skip_def stack_ok_def stacked_def)

lemma grows_push_long:
  assumes "stack_ok s" "space s 4"
  shows "grows 4 s (push put32 4 v s)"
proof -
  have r: "room (a7 (fst s) - 4) 4" "ok (snd s)" "length (regs (fst s)) = 16"
    using assms by (simp_all add: space_def stack_ok_def)
  obtain t where t: "put32 (snd s) (a7 (fst s) - 4) v = Some t" "ok t" "other_bytes_kept (snd s) t (a7 (fst s) - 4) 4"
    using put32_bits [OF r(2,1)] by blast
  then show ?thesis
    using r unfolding grows_def push_def skip_def stack_ok_def stacked_def other_bytes_kept_def by (simp add: Let_def)
qed

lemma grows_push_word:
  assumes "stack_ok s" "space s 2"
  shows "grows 2 s (push put16 2 v s)"
proof -
  have r: "room (a7 (fst s) - 2) 2" "ok (snd s)" "length (regs (fst s)) = 16"
    using assms by (simp_all add: space_def stack_ok_def)
  obtain t where t: "put16 (snd s) (a7 (fst s) - 2) v = Some t" "ok t" "other_bytes_kept (snd s) t (a7 (fst s) - 2) 2"
    using put16_bits [OF r(2,1)] by blast
  then show ?thesis
    using r unfolding grows_def push_def skip_def stack_ok_def stacked_def other_bytes_kept_def by (simp add: Let_def)
qed

lemma grows_each_long:
  "stack_ok s \<Longrightarrow> space s (4 * length vs) \<Longrightarrow> grows (4 * length vs) s (push_each put32 4 vs s)"
proof (induction vs arbitrary: s)
  case Nil
  then show ?case by (simp add: grows_def stacked_0)
next
  case (Cons v vs)
  have "grows (4 + 4 * length vs) s (push_each put32 4 (v # vs) s)"
    unfolding push_each.simps by (rule grows_bind) (use Cons in \<open>simp_all add: grows_push_long\<close>)
  then show ?case by simp
qed

lemma grows_each_word:
  "stack_ok s \<Longrightarrow> space s (2 * length vs) \<Longrightarrow> grows (2 * length vs) s (push_each put16 2 vs s)"
proof (induction vs arbitrary: s)
  case Nil
  then show ?case by (simp add: grows_def stacked_0)
next
  case (Cons v vs)
  have "grows (2 + 2 * length vs) s (push_each put16 2 (v # vs) s)"
    unfolding push_each.simps by (rule grows_bind) (use Cons in \<open>simp_all add: grows_push_word\<close>)
  then show ?case by simp
qed

lemma grows_bind_word:
  "stack_ok s \<Longrightarrow> space s (2 + n) \<Longrightarrow> (\<And>t. stack_ok t \<Longrightarrow> space t n \<Longrightarrow> grows n t (g t)) \<Longrightarrow>
   grows (2 + n) s (push put16 2 v s \<bind> g)"
  by (rule grows_bind) (simp_all add: grows_push_word)

lemma grows_bind_long:
  "stack_ok s \<Longrightarrow> space s (4 + n) \<Longrightarrow> (\<And>t. stack_ok t \<Longrightarrow> space t n \<Longrightarrow> grows n t (g t)) \<Longrightarrow>
   grows (4 + n) s (push put32 4 v s \<bind> g)"
  by (rule grows_bind) (simp_all add: grows_push_long)

lemma grows_bind_skip:
  "stack_ok s \<Longrightarrow> space s (2 + n) \<Longrightarrow> (\<And>t. stack_ok t \<Longrightarrow> space t n \<Longrightarrow> grows n t (g t)) \<Longrightarrow>
   grows (2 + n) s (Some (skip 2 s) \<bind> g)"
  by (rule grows_bind) (use grows_skip [of s 2] in simp_all)

lemma stack_ok_irrelevant [simp]:
  "stack_ok (x\<lparr>wb2_status := v\<rparr>, m) = stack_ok (x, m)" "stack_ok (x\<lparr>wb3_status := v\<rparr>, m) = stack_ok (x, m)"
  "space (x\<lparr>wb2_status := v\<rparr>, m) = space (x, m)" "space (x\<lparr>wb3_status := v\<rparr>, m) = space (x, m)"
  "stack_ok (x\<lparr>mmu030_ad := a\<rparr>, m) = stack_ok (x, m)" "space (x\<lparr>mmu030_ad := a\<rparr>, m) = space (x, m)"
  "stack_ok (x\<lparr>fp_unimp_ins := b\<rparr>, m) = stack_ok (x, m)" "space (x\<lparr>fp_unimp_ins := b\<rparr>, m) = space (x, m)"
  by (auto simp: stack_ok_def space_def a7_def)

lemma grows_irrelevant [simp]:
  "grows n (x\<lparr>wb2_status := v\<rparr>, m) r = grows n (x, m) r" "grows n (x\<lparr>wb3_status := v\<rparr>, m) r = grows n (x, m) r"
  "grows n (x\<lparr>mmu030_ad := a\<rparr>, m) r = grows n (x, m) r" "grows n (x\<lparr>fp_unimp_ins := b\<rparr>, m) r = grows n (x, m) r"
  by (simp_all add: grows_def stacked_def a7_def)

lemmas grow_rules = grows_bind_word grows_bind_long grows_bind_skip grows_push_word grows_push_long

lemma grows_frame_a:
  assumes "stack_ok s" "space s 24"
  shows "grows 24 s (frame_a put16 put32 ssw b s)"
proof -
  have "space s (4 + (4 + (4 + (4 + (2 + (2 + (2 + 2)))))))" using assms(2) by simp
  then have "grows (4 + (4 + (4 + (4 + (2 + (2 + (2 + 2))))))) s (frame_a put16 put32 ssw b s)"
    unfolding frame_a_def Let_def using assms(1) by (intro grow_rules)
  then show ?thesis by simp
qed

lemma grows_bind_wb:
  "stack_ok s \<Longrightarrow> space s n \<Longrightarrow> (\<And>t. stack_ok t \<Longrightarrow> space t n \<Longrightarrow> grows n t (g t)) \<Longrightarrow>
   grows n s (Some ((fst s)\<lparr>wb2_status := v\<rparr>, snd s) \<bind> g)"
  "stack_ok s \<Longrightarrow> space s n \<Longrightarrow> (\<And>t. stack_ok t \<Longrightarrow> space t n \<Longrightarrow> grows n t (g t)) \<Longrightarrow>
   grows n s (Some ((fst s)\<lparr>wb3_status := w\<rparr>, snd s) \<bind> g)"
proof -
  obtain x m where s: "s = (x, m)" by (cases s)
  show "grows n s (Some ((fst s)\<lparr>wb2_status := v\<rparr>, snd s) \<bind> g)"
    if "stack_ok s" "space s n" "\<And>t. stack_ok t \<Longrightarrow> space t n \<Longrightarrow> grows n t (g t)"
  proof -
    have "grows n (x\<lparr>wb2_status := v\<rparr>, m) (g (x\<lparr>wb2_status := v\<rparr>, m))" by (rule that(3)) (use that(1,2) s in simp_all)
    then have "grows n (x, m) (g (x\<lparr>wb2_status := v\<rparr>, m))" by (simp only: grows_irrelevant(1))
    then show ?thesis by (simp add: s)
  qed
  show "grows n s (Some ((fst s)\<lparr>wb3_status := w\<rparr>, snd s) \<bind> g)"
    if "stack_ok s" "space s n" "\<And>t. stack_ok t \<Longrightarrow> space t n \<Longrightarrow> grows n t (g t)"
  proof -
    have "grows n (x\<lparr>wb3_status := w\<rparr>, m) (g (x\<lparr>wb3_status := w\<rparr>, m))" by (rule that(3)) (use that(1,2) s in simp_all)
    then have "grows n (x, m) (g (x\<lparr>wb3_status := w\<rparr>, m))" by (simp only: grows_irrelevant(2))
    then show ?thesis by (simp add: s)
  qed
qed

lemma grows_frame_7:
  assumes "stack_ok s" "space s 52" "length (mmu040_move16 (fst s)) = 4"
  shows "grows 52 s (frame_7 put16 put32 ssw s)"
proof -
  let ?n = "4 + (4 + (4 + (4 + (4 + (4 + (2 + (2 + (2 + (2 + 4)))))))))"
  have sp: "space s (16 + ?n)" using assms(2) by simp
  have "grows (16 + ?n) s (frame_7 put16 put32 ssw s)"
    unfolding frame_7_def Let_def
  proof (rule grows_bind [OF assms(1) sp])
    show "grows 16 s (push_each put32 4 (rev (take 4 (mmu040_move16 (fst s)))) s)" if "space s 16"
      using grows_each_long [OF assms(1), of "rev (take 4 (mmu040_move16 (fst s)))"] that assms(3) by simp
  qed (simp, intro grow_rules grows_bind_wb)
  then show ?thesis by simp
qed

lemma grows_frame_8:
  assumes "stack_ok s" "space s 50"
  shows "grows 50 s (frame_8 put16 ssw s)"
proof -
  let ?n = "2 + (2 + (2 + (2 + (2 + (2 + (2 + (2 + (2 + 2))))))))"
  have sp: "space s (30 + ?n)" using assms(2) by simp
  have "grows (30 + ?n) s (frame_8 put16 ssw s)"
    unfolding frame_8_def Let_def
  proof (rule grows_bind [OF assms(1) sp])
    show "grows 30 s (push_each put16 2 (replicate 15 0) s)" if "space s 30"
      using grows_each_word [OF assms(1), of "replicate 15 0"] that by simp
  qed (simp, intro grow_rules)
  then show ?thesis by simp
qed

lemma grows_frame_b:
  assumes "stack_ok s" "space s 84" "length (mmu030_ad (fst s)) = 10" "mmu030_idx_done (fst s) \<le> 8"
  shows "grows 84 s (frame_b put16 put32 ssw s)"
proof -
  let ?n = "2 + (2 + (2 + (2 + (4 + (4 + (4 + (4 + 24)))))))"
  obtain x m where s: "s = (x, m)" by (cases s)
  define y where "y = (if ssw AND MMU030_SSW_RW = 0 then x\<lparr>mmu030_ad := (mmu030_ad x)[mmu030_idx_done x := wb3_data x]\<rparr> else x)"
  have y: "stack_ok (y, m)" "space (y, m) (36 + ?n)" "length (internal_values y) = 9"
    using assms by (simp_all add: y_def s internal_values_def MAX_MMU030_ACCESS_def)
  have "grows (36 + ?n) (y, m) (do {
          s \<leftarrow> push_each put32 4 (internal_values y) (y, m);
          s \<leftarrow> push put16 2 ((mmu030_idx y AND 0xf) OR push_bit 4 (of_nat (mmu030_idx_done y) AND 0xf) OR push_bit 8 (ucast (wb2_status y))) s;
          s \<leftarrow> push put16 2 (ucast (mmu030_state y ! 2) OR push_bit 8 (ucast (wb3_status y))) s;
          s \<leftarrow> push put16 2 (wb2_address y) s;
          s \<leftarrow> push put16 2 (ucast (mmu030_state y ! 0)) s;
          s \<leftarrow> push put32 4 (mmu_fault_addr y) s;
          s \<leftarrow> push put32 4 (if mmu030_opcode y = - 1 then pipeline_state y OR push_bit 31 1 else pipeline_state y) s;
          s \<leftarrow> push put32 4 (mm030_stageb_address y) s;
          s \<leftarrow> push put32 4 (mmu030_disp_store y ! 1) s;
          frame_a put16 put32 ssw True s })" (is "grows _ _ ?r")
  proof (rule grows_bind [OF y(1,2)])
    show "grows 36 (y, m) (push_each put32 4 (internal_values y) (y, m))" if "space (y, m) 36"
      using grows_each_long [OF y(1), of "internal_values y"] that y(3) by simp
  qed (simp, intro grow_rules grows_frame_a)
  then have "grows 84 (y, m) ?r" by simp
  moreover have "grows 84 s r" if "grows 84 (y, m) r" for r
    using that by (auto simp: y_def s split: if_splits)
  moreover have "frame_b put16 put32 ssw s = ?r"
    using assms(3,4) unfolding frame_b_def s fst_conv snd_conv Let_def y_def [symmetric] by simp
  ultimately show ?thesis by simp
qed

lemma room_8:
  assumes "ok s" "room p 8"
  shows "room p 2" "room (p + 2) 4" "room (p + 6) 2"
proof -
  have r: "room p (2 + (4 + 2))" using assms(2) by simp
  show "room p 2" using room_split(1) [OF r] .
  have r2: "room (p + of_nat 2) (4 + 2)" using room_split(2) [OF assms(1) _ r] by simp
  show "room (p + 2) 4" using room_split(1) [OF r2] by simp
  show "room (p + 6) 2" using room_split(2) [OF assms(1) _ r2] by (simp add: add.assoc)
qed

lemma frame_header:
  assumes "stack_ok t" "space t 8"
  shows "\<exists>u. (do { s \<leftarrow> push put16 2 fw t; s \<leftarrow> push put32 4 cp s; push put16 2 (ucast (sr (fst s))) s }) = Some u \<and>
    stack_ok u \<and> stacked 8 t u \<and>
    get16 (snd u) (a7 (fst u)) = Some (ucast (sr (fst t)), snd u) \<and>
    get32 (snd u) (a7 (fst u) + 2) = Some (cp, snd u) \<and>
    get16 (snd u) (a7 (fst u) + 6) = Some (ucast (ucast fw :: u16), snd u)"
proof -
  obtain x m where t: "t = (x, m)" by (cases t)
  define p where "p = a7 x - 8"
  have o: "ok m" "length (regs x) = 16" "room p 8" using assms by (simp_all add: t stack_ok_def space_def p_def)
  note r = room_8 [OF o(1,3)]
  have w: "p + of_nat i \<in> win" if "i < 8" for i using room_window [OF o(1,3) that] .
  obtain m1 where m1: "put16 m (p + 6) fw = Some m1" "ok m1"
    "\<forall>b \<in> win. byte m1 b = (if b = p + 6 then ucast (drop_bit 8 fw) else if b = p + 6 + 1 then ucast fw else byte m b)"
    using put16 [OF o(1) r(3)] by blast
  obtain m2 where m2: "put32 m1 (p + 2) cp = Some m2" "ok m2"
    "\<forall>b \<in> win. byte m2 b = (if b = p + 2 then ucast (drop_bit 24 cp) else if b = p + 2 + 1 then ucast (drop_bit 16 cp)
       else if b = p + 2 + 2 then ucast (drop_bit 8 cp) else if b = p + 2 + 3 then ucast cp else byte m1 b)"
    using put32 [OF m1(2) r(2)] by blast
  obtain m3 where m3: "put16 m2 p (ucast (sr x)) = Some m3" "ok m3"
    "\<forall>b \<in> win. byte m3 b = (if b = p then ucast (drop_bit 8 (ucast (sr x) :: u32)) else if b = p + 1 then ucast (ucast (sr x) :: u32) else byte m2 b)"
    using put16 [OF m2(2) r(1)] by blast
  let ?u = "(set_a7 x p, m3)"
  have a: "a7 (set_a7 x v) = v" "set_a7 (set_a7 x v) v' = set_a7 x v'" for v v'
    using o(2) by (simp_all add: a7_def set_a7_def)
  have "(do { s \<leftarrow> push put16 2 fw t; s \<leftarrow> push put32 4 cp s; push put16 2 (ucast (sr (fst s))) s }) = Some ?u"
  proof -
    have e: "a7 x - 2 = p + 6" "p + 6 - 4 = p + 2" "p + 2 - 2 = p" by (simp_all add: p_def)
    show ?thesis using m1(1) m2(1) m3(1) by (simp add: t push_def skip_def a e)
  qed
  moreover have "grows (2 + (4 + 2)) t (do { s \<leftarrow> push put16 2 fw t; s \<leftarrow> push put32 4 cp s; push put16 2 (ucast (sr (fst s))) s })"
    using assms by (intro grow_rules) simp_all
  ultimately have "stack_ok ?u" "stacked 8 t ?u" by (simp_all add: grows_def)
  moreover have "get16 m3 p = Some (ucast (sr x), m3)" "get32 m3 (p + 2) = Some (cp, m3)" "get16 m3 (p + 6) = Some (ucast (ucast fw :: u16), m3)"
  proof -
    have i: "p \<in> win" "p + 1 \<in> win" "p + 2 \<in> win" "p + 3 \<in> win" "p + 4 \<in> win" "p + 5 \<in> win" "p + 6 \<in> win" "p + 7 \<in> win"
      using w [of 0] w [of 1] w [of 2] w [of 3] w [of 4] w [of 5] w [of 6] w [of 7] by simp_all
    have s: "p + 2 + 1 = p + 3" "p + 2 + 2 = p + 4" "p + 2 + 3 = p + 5" "p + 6 + 1 = p + 7" by simp_all
    have b: "byte m3 p = ucast (drop_bit 8 (sr x))" "byte m3 (p + 1) = ucast (sr x)"
      "byte m3 (p + 2) = ucast (drop_bit 24 cp)" "byte m3 (p + 3) = ucast (drop_bit 16 cp)"
      "byte m3 (p + 4) = ucast (drop_bit 8 cp)" "byte m3 (p + 5) = ucast cp"
      "byte m3 (p + 6) = ucast (drop_bit 8 (ucast fw :: u16))" "byte m3 (p + 7) = ucast (ucast fw :: u16)"
      using m3(3) m2(3) m1(3) i unfolding s by (simp_all add: low_word_bytes word_bytes_16)
    show "get16 m3 p = Some (ucast (sr x), m3)"
      using get16 [OF m3(2) r(1)] by (simp add: b be16_of_bytes)
    show "get32 m3 (p + 2) = Some (cp, m3)"
      using get32 [OF m3(2) r(2)] unfolding s by (simp add: b be32_of_bytes)
    show "get16 m3 (p + 6) = Some (ucast (ucast fw :: u16), m3)"
      using get16 [OF m3(2) r(3)] unfolding s by (simp only: b be16_of_bytes)
  qed
  ultimately show ?thesis
    using \<open>_ = Some ?u\<close> by (auto simp: t a)
qed

lemma space_rest:
  assumes "space s (m + n)" "stacked m s t"
  shows "space t n"
proof -
  have "room (a7 (fst s) - of_nat (m + n)) (n + m)" using assms(1) by (simp add: space_def add.commute)
  then have "room (a7 (fst s) - of_nat (m + n)) n" by (rule room_split)
  moreover have "a7 (fst s) - of_nat (m + n) = a7 (fst t) - of_nat n" using assms(2) by (simp add: stacked_def)
  ultimately show ?thesis by (simp only: space_def)
qed

lemma build_frame:
  assumes "stack_ok s" "format \<in> {0, 1, 2, 3, 4, 7, 8, 9, 10, 11}" "space s (frame_size format)"
    and "format = 7 \<longrightarrow> length (mmu040_move16 (fst s)) = 4"
    and "format = 11 \<longrightarrow> length (mmu030_ad (fst s)) = 10 \<and> mmu030_idx_done (fst s) \<le> 8"
  shows "\<exists>u. Exception_build_stack_frame put16 put32 oldpc currpc ssw nr format s = Some u \<and>
    stack_ok u \<and> stacked (frame_size format) s u \<and>
    get16 (snd u) (a7 (fst u)) = Some (ucast (sr (fst s)), snd u) \<and>
    get32 (snd u) (a7 (fst u) + 2) = Some (currpc, snd u) \<and>
    get16 (snd u) (a7 (fst u) + 6) = Some (ucast (push_bit 12 (of_nat format) OR of_nat (nr * 4) :: u16), snd u)"
proof -
  let ?body = "(if format = 0 \<or> format = 1 then Some s
              else if format = 2 then push put32 4 oldpc s
              else if format = 3 then push put32 4 (fp_ea (fst s)) s
              else if format = 4 then do { s \<leftarrow> push put32 4 ssw s; push put32 4 oldpc s }
              else if format = 7 then frame_7 put16 put32 ssw s
              else if format = 8 then frame_8 put16 ssw s
              else if format = 9 then do {
                s \<leftarrow> push put32 4 (fp_ea (fst s)) s;
                s \<leftarrow> push put32 4 (ucast (fp_opword (fst s))) s;
                push put32 4 oldpc s }
              else if format = 11 then frame_b put16 put32 ssw s
              else frame_a put16 put32 ssw False s)"
  have n: "frame_size format = (frame_size format - 8) + 8" using assms(2) by (auto simp: frame_size_def)
  have sp: "space s (frame_size format - 8)" if "8 < frame_size format"
    using space_first [OF assms(1), of "frame_size format - 8" 8] assms(3) n that by simp
  have "grows (frame_size format - 8) s ?body"
  proof -
    have two: "grows (4 + 4) s (push put32 4 v s \<bind> push put32 4 w)" if "space s (4 + 4)" for v w
      using assms(1) that by (intro grow_rules)
    have three: "grows (4 + (4 + 4)) s (push put32 4 v s \<bind> (\<lambda>s. push put32 4 (w (fst s)) s \<bind> push put32 4 z))"
      if "space s (4 + (4 + 4))" for v w z
      using assms(1) that by (intro grow_rules)
    consider "format = 0 \<or> format = 1" | "format = 2" | "format = 3" | "format = 4" | "format = 7" | "format = 8"
      | "format = 9" | "format = 10" | "format = 11" using assms(2) by blast
    then show ?thesis
    proof cases
      case 1
      then show ?thesis using assms(1) by (auto simp: frame_size_def grows_def stacked_0)
    next
      case 2
      then show ?thesis using sp grows_push_long [OF assms(1)] by (simp add: frame_size_def)
    next
      case 3
      then show ?thesis using sp grows_push_long [OF assms(1)] by (simp add: frame_size_def)
    next
      case 4
      then show ?thesis using sp two by (simp add: frame_size_def)
    next
      case 5
      then show ?thesis using sp grows_frame_7 [OF assms(1)] assms(4) by (simp add: frame_size_def)
    next
      case 6
      then show ?thesis using sp grows_frame_8 [OF assms(1)] by (simp add: frame_size_def)
    next
      case 7
      then show ?thesis using sp three by (simp add: frame_size_def)
    next
      case 8
      then show ?thesis using sp grows_frame_a [OF assms(1)] by (simp add: frame_size_def)
    next
      case 9
      then show ?thesis using sp grows_frame_b [OF assms(1)] assms(5) by (simp add: frame_size_def)
    qed
  qed
  then obtain t where t: "?body = Some t" "stack_ok t" "stacked (frame_size format - 8) s t"
    unfolding grows_def by blast
  have "space t 8" using space_rest [OF _ t(3), of 8] assms(3) n by simp
  from frame_header [OF t(2) this, of "push_bit 12 (of_nat format) OR of_nat (nr * 4)" currpc]
  obtain u where u: "(do { s \<leftarrow> push put16 2 (push_bit 12 (of_nat format) OR of_nat (nr * 4)) t; s \<leftarrow> push put32 4 currpc s;
      push put16 2 (ucast (sr (fst s))) s }) = Some u"
    "stack_ok u" "stacked 8 t u" "get16 (snd u) (a7 (fst u)) = Some (ucast (sr (fst t)), snd u)"
    "get32 (snd u) (a7 (fst u) + 2) = Some (currpc, snd u)"
    "get16 (snd u) (a7 (fst u) + 6) = Some (ucast (ucast (push_bit 12 (of_nat format) OR of_nat (nr * 4) :: u32) :: u16), snd u)"
    by blast
  have e: "Exception_build_stack_frame put16 put32 oldpc currpc ssw nr format s = Some u"
    unfolding Exception_build_stack_frame_def t(1) using assms(2) u(1) by simp
  have st: "stacked (frame_size format) s u" using stacked_trans [OF t(3) u(3)] n by simp
  have w: "ucast (push_bit 12 (of_nat format) OR of_nat (nr * 4) :: u32) = (push_bit 12 (of_nat format) OR of_nat (nr * 4) :: u16)"
    by (rule bit_word_eqI) (auto simp: bit_simps simp del: of_nat_mult)
  have "sr (fst t) = sr (fst s)" using t(3) by (simp add: stacked_def)
  then show ?thesis using e u(2,4-6) st unfolding w by (intro exI [of _ u]) simp
qed

end

section \<open>The frames\<close>

text \<open>C5: with RAM below the stack pointer, an exception frame of every one of the ten formats is built
  without a fault and is laid out as the processor's return instruction expects it: the stack pointer
  goes down by the size of the format, the status register is on top, the program counter above it
  and the word with the format number and four times the vector above that; no byte outside the
  frame changes.\<close>

theorem exception_frame_layout:
  assumes "ram_at k base m" "length (regs x) = 16" "format \<in> {0, 1, 2, 3, 4, 7, 8, 9, 10, 11}"
    and "fits k base (a7 x - of_nat (frame_size format)) (frame_size format)"
    and "format = 7 \<longrightarrow> length (mmu040_move16 x) = 4"
    and "format = 11 \<longrightarrow> length (mmu030_ad x) = 10 \<and> mmu030_idx_done x \<le> 8"
  shows "\<exists>y t. Exception_build_stack_frame memory_put_word memory_put_long oldpc currpc ssw nr format (x, m) = Some (y, t) \<and>
    ram_at k base t \<and> a7 y = a7 x - of_nat (frame_size format) \<and>
    memory_get_word t (a7 y) = Some (ucast (sr x), t) \<and>
    memory_get_long t (a7 y + 2) = Some (currpc, t) \<and>
    memory_get_word t (a7 y + 6) = Some (ucast (push_bit 12 (of_nat format) OR of_nat (nr * 4) :: u16), t) \<and>
    (\<forall>b \<in> window k base. (\<forall>i < frame_size format. b \<noteq> a7 y + of_nat i) \<longrightarrow> ram_byte t b = ram_byte m b)"
  using memory_bus.build_frame [of k base "(x, m)" format oldpc currpc ssw nr] assms
  by (auto simp: memory_bus.stack_ok_def memory_bus.space_def memory_bus.stacked_def)

definition xcpu0 :: xcpu where
  "xcpu0 = cpu.extend (cpu0\<lparr>regs := (regs cpu0)[15 := 0x21000], sr := 0x2700\<rparr>)
     (xcpu.fields 0 0 0 0 0 False False 0 0 0 0 0 0 0 0 [0, 0, 0] [0, 0, 0] 0 [0, 0] 0 [0, 0, 0, 0] (replicate 10 0) 0 2
       [0, 0, 0] 0 [0, 0] [0, 0] 0 [(- 1, 0), (- 1, 0)])"

lemma exception_frame_layout_witness:
  "\<exists>y t. Exception_build_stack_frame memory_put_word memory_put_long 0 0x1234 0x40 2 11 (xcpu0, ram_example) = Some (y, t) \<and>
    a7 y = 0x20fa4 \<and> memory_get_word t 0x20faa = Some (0xb008, t) \<and> memory_get_long t 0x20fa6 = Some (0x1234, t)"
proof -
  have x: "a7 xcpu0 = 0x21000" "length (regs xcpu0) = 16" "length (mmu030_ad xcpu0) = 10" "mmu030_idx_done xcpu0 = 2"
    by (simp_all add: xcpu0_def cpu0_def a7_def cpu.extend_def xcpu.fields_def)
  have "fits 16 0x20000 (a7 xcpu0 - of_nat (frame_size 11)) (frame_size 11)"
    by (simp add: fits_def frame_size_def x)
  from exception_frame_layout [OF ram_example_at x(2) _ this, of 0 "0x1234" "0x40" 2] show ?thesis
    by (auto simp: x frame_size_def)
qed

end
