(* ===== verification/Eeprom93.thy ===== *)
theory Eeprom93
  imports Prelude
begin

text \<open>
  The MICROWIRE serial EEPROM (93xx) of \<^verbatim>\<open>sources/src/flashrom.c\<close>: the chip is driven by
  its three input pins (chip select, clock, data in); \<open>eeprom93xx_write\<close> looks at the edges
  since its last call. The model keeps every field of the struct at its C width. The fields
  \<^verbatim>\<open>memory\<close> and \<^verbatim>\<open>zf\<close>, which no operation uses, are left out, as are the log lines.

  Shown here: the invariant of the chip (all accesses stay inside the array), which calls may
  change the array at all, the whole write and read transactions bit by bit, and that the two
  array sizes whose address is reduced before the sub-command is decoded can never be
  unlocked for writing.
\<close>

section \<open>State and operations\<close>

record eeprom93 =
  ee_tick :: u8
  ee_address :: u8
  ee_command :: u8
  ee_writeable :: u8
  ee_cs :: u8
  ee_sk :: u8
  ee_do :: u8
  ee_addrbits :: u8
  ee_size :: u16
  ee_data :: u16
  ee_contents :: "u16 list"

text \<open>
  The loops over all words: \<open>address\<close> runs from 0 to \<open>size - 1\<close> over the array of 256 words.
\<close>

definition ee_fill :: "(u16 \<Rightarrow> u16) \<Rightarrow> u16 \<Rightarrow> u16 list \<Rightarrow> u16 list" where
  "ee_fill f sz xs = map f (take (unat sz) xs) @ drop (unat sz) xs"

text \<open>
  Falling chip select: this is where write and erase take effect. The loops leave the local
  \<open>address\<close> at \<open>size\<close>; it is stored back truncated to eight bits.
\<close>

definition ee_cs_fall :: "eeprom93 \<Rightarrow> eeprom93" where
  "ee_cs_fall e =
     (let subcommand = drop_bit (unat (ee_addrbits e) - 2) (ee_address e);
          a = unat (ee_address e)
      in if ee_writeable e = 0 then e
         else if ee_command e = 0 \<and> subcommand = 2 then
           e\<lparr>ee_contents := ee_fill (\<lambda>_. 0xffff) (ee_size e) (ee_contents e),
             ee_address := ucast (ee_size e)\<rparr>
         else if ee_command e = 3 then
           e\<lparr>ee_contents := (ee_contents e)[a := 0xffff]\<rparr>
         else if unat (ee_tick e) \<ge> 2 + 2 + unat (ee_addrbits e) + 16 then
           (if ee_command e = 1 then
              e\<lparr>ee_contents := (ee_contents e)[a := (ee_contents e ! a) AND ee_data e]\<rparr>
            else if ee_command e = 0 \<and> subcommand = 1 then
              e\<lparr>ee_contents := ee_fill (\<lambda>w. w AND ee_data e) (ee_size e) (ee_contents e),
                ee_address := ucast (ee_size e)\<rparr>
            else e)
         else e)"

text \<open>
  The last address bit has arrived: the address is reduced modulo the size, and command 0
  takes its sub-command from the two top bits of the (reduced) address.
\<close>

definition ee_decode :: "eeprom93 \<Rightarrow> u16 \<Rightarrow> eeprom93" where
  "ee_decode e a =
     (let e = (if ee_command e = 2 then e\<lparr>ee_do := 0\<rparr> else e);
          address = a mod ee_size e;
          sub = drop_bit (unat (ee_addrbits e) - 2) address;
          e = e\<lparr>ee_address := ucast address\<rparr>
      in if ee_command e = 0 then
           (if sub = 0 then e\<lparr>ee_writeable := 0\<rparr>
            else if sub = 3 then e\<lparr>ee_writeable := 1\<rparr>
            else e)
         else e\<lparr>ee_data := ee_contents e ! unat address\<rparr>)"

text \<open>Rising clock edge under chip select: one more bit is shifted in.\<close>

definition ee_clock_rise :: "eeprom93 \<Rightarrow> int \<Rightarrow> eeprom93" where
  "ee_clock_rise e eedi =
     (let t = unat (ee_tick e); n = unat (ee_addrbits e)
      in if t = 0 then (if eedi = 0 then e\<lparr>ee_tick := ee_tick e + 1\<rparr> else e\<lparr>ee_tick := 2\<rparr>)
         else if t = 1 then (if eedi \<noteq> 0 then e\<lparr>ee_tick := ee_tick e + 1\<rparr> else e)
         else if t < 2 + 2 then
           e\<lparr>ee_tick := ee_tick e + 1,
             ee_command := push_bit 1 (ee_command e) + (if eedi \<noteq> 0 then 1 else 0)\<rparr>
         else if t < 2 + 2 + n then
           (let e = e\<lparr>ee_tick := ee_tick e + 1\<rparr>;
                address = push_bit 1 (ucast (ee_address e) :: u16) OR word_of_int eedi
            in if unat (ee_tick e) = 2 + 2 + n then ee_decode e address
               else e\<lparr>ee_address := ucast address\<rparr>)
         else if t < 2 + 2 + n + 16 then
           e\<lparr>ee_tick := ee_tick e + 1,
             ee_do := (if ee_command e = 2 then if bit (ee_data e) 15 then 1 else 0 else ee_do e),
             ee_data := push_bit 1 (ee_data e) + word_of_int eedi\<rparr>
         else e)"

definition eeprom93xx_write :: "eeprom93 \<Rightarrow> int \<Rightarrow> int \<Rightarrow> int \<Rightarrow> eeprom93" where
  "eeprom93xx_write e eecs eesk eedi =
     (let e' = (if ee_cs e = 0 \<and> eecs \<noteq> 0 then
                  e\<lparr>ee_tick := 0, ee_command := 0, ee_address := 0\<rparr>
                else if ee_cs e \<noteq> 0 \<and> eecs = 0 then (ee_cs_fall e)\<lparr>ee_do := 1\<rparr>
                else if eecs \<noteq> 0 \<and> ee_sk e = 0 \<and> eesk \<noteq> 0 then ee_clock_rise e eedi
                else e)
      in e'\<lparr>ee_cs := word_of_int eecs, ee_sk := word_of_int eesk\<rparr>)"

definition eeprom93xx_read :: "eeprom93 \<Rightarrow> u16" where
  "eeprom93xx_read e = ucast (ee_do e)"

definition eeprom93xx_read_byte :: "eeprom93 \<Rightarrow> nat \<Rightarrow> u8" where
  "eeprom93xx_read_byte e offset =
     (if odd offset then ucast (ee_contents e ! (offset div 2))
      else ucast (drop_bit 8 (ee_contents e ! (offset div 2))))"

text \<open>A chip with 16, 64, 128 or 256 words from the big-endian bytes of \<open>mem\<close>.\<close>

definition eeprom93xx_new :: "u8 list \<Rightarrow> nat \<Rightarrow> eeprom93 option" where
  "eeprom93xx_new mem nwords =
     (let mk = (\<lambda>addrbits.
        Some \<lparr>ee_tick = 0, ee_address = 0, ee_command = 0, ee_writeable = 0,
          ee_cs = 0, ee_sk = 0, ee_do = 1, ee_addrbits = addrbits,
          ee_size = of_nat nwords, ee_data = 0,
          ee_contents = map (\<lambda>i. push_bit 8 (ucast (mem ! (i * 2 + 0))) OR ucast (mem ! (i * 2 + 1)))
            [0..<nwords] @ replicate (256 - nwords) 0\<rparr>)
      in if nwords = 16 \<or> nwords = 64 then mk 6
         else if nwords = 128 \<or> nwords = 256 then mk 8
         else None)"

text \<open>One call of the interface, with the pins as \<open>(CS, SK, DI)\<close>; the pins carry 0 or 1.\<close>

definition ee_pins :: "eeprom93 \<Rightarrow> bool \<times> bool \<times> bool \<Rightarrow> eeprom93" where
  "ee_pins e p = (case p of (cs, sk, di) \<Rightarrow> eeprom93xx_write e (of_bool cs) (of_bool sk) (of_bool di))"

section \<open>The invariant\<close>

definition ee_inv :: "eeprom93 \<Rightarrow> bool" where
  "ee_inv e \<longleftrightarrow> length (ee_contents e) = 256 \<and>
     (ee_addrbits e = 6 \<and> (ee_size e = 16 \<or> ee_size e = 64)
      \<or> ee_addrbits e = 8 \<and> (ee_size e = 128 \<or> ee_size e = 256)) \<and>
     unat (ee_tick e) \<le> 2 + 2 + unat (ee_addrbits e) + 16"

lemma ee_inv_length [dest]: "ee_inv e \<Longrightarrow> length (ee_contents e) = 256"
  by (simp add: ee_inv_def)

lemma length_ee_fill [simp]: "length (ee_fill f sz xs) = length xs"
  by (simp add: ee_fill_def)

lemma ee_cs_fall_frame [simp]:
  "ee_tick (ee_cs_fall e) = ee_tick e" "ee_addrbits (ee_cs_fall e) = ee_addrbits e"
  "ee_size (ee_cs_fall e) = ee_size e" "ee_command (ee_cs_fall e) = ee_command e"
  "ee_writeable (ee_cs_fall e) = ee_writeable e" "ee_data (ee_cs_fall e) = ee_data e"
  "length (ee_contents (ee_cs_fall e)) = length (ee_contents e)"
  by (simp_all add: ee_cs_fall_def Let_def)

lemma ee_decode_frame [simp]:
  "ee_tick (ee_decode e a) = ee_tick e" "ee_addrbits (ee_decode e a) = ee_addrbits e"
  "ee_size (ee_decode e a) = ee_size e" "ee_command (ee_decode e a) = ee_command e"
  "ee_contents (ee_decode e a) = ee_contents e" "ee_cs (ee_decode e a) = ee_cs e"
  "ee_sk (ee_decode e a) = ee_sk e"
  by (simp_all add: ee_decode_def Let_def)

lemma ee_clock_rise_frame [simp]:
  "ee_addrbits (ee_clock_rise e d) = ee_addrbits e" "ee_size (ee_clock_rise e d) = ee_size e"
  "ee_contents (ee_clock_rise e d) = ee_contents e"
  by (simp_all add: ee_clock_rise_def Let_def)

lemma tick_suc: "unat (t :: u8) < 200 \<Longrightarrow> unat (t + 1) = Suc (unat t)"
  by (simp add: unat_word_ariths)

lemma ee_clock_rise_tick:
  assumes "ee_inv e"
  shows "unat (ee_tick (ee_clock_rise e d)) \<le> 2 + 2 + unat (ee_addrbits e) + 16"
proof -
  have n: "unat (ee_addrbits e) = 6 \<or> unat (ee_addrbits e) = 8"
    using assms by (auto simp: ee_inv_def)
  then have t: "unat (ee_tick e) < 200"
    using assms by (auto simp: ee_inv_def)
  show ?thesis
    using assms n tick_suc [OF t]
    by (auto simp: ee_clock_rise_def Let_def ee_inv_def simp del: One_nat_def)
qed

lemma ee_clock_rise_inv: "ee_inv e \<Longrightarrow> ee_inv (ee_clock_rise e d)"
  using ee_clock_rise_tick [of e d] by (auto simp: ee_inv_def)

lemma eeprom93xx_write_inv: "ee_inv e \<Longrightarrow> ee_inv (eeprom93xx_write e cs sk di)"
  using ee_clock_rise_inv [of e di]
  by (auto simp: eeprom93xx_write_def ee_inv_def Let_def)

lemma eeprom93xx_new_inv: "eeprom93xx_new mem n = Some e \<Longrightarrow> ee_inv e"
  by (auto simp: eeprom93xx_new_def Let_def ee_inv_def split: if_splits)

interpretation ee: machine ee_pins ee_inv
  by unfold_locales (auto simp: ee_pins_def eeprom93xx_write_inv split: prod.splits)

section \<open>Driving the chip\<close>

text \<open>
  The host's side of the protocol: one clock pulse carries one bit; a transaction selects
  the chip, clocks its bits in and deselects it. A header is the start bit and the two
  opcode bits.
\<close>

definition ee_clock :: "eeprom93 \<Rightarrow> bool \<Rightarrow> eeprom93" where
  "ee_clock e b = ee_pins (ee_pins e (True, False, b)) (True, True, b)"

definition ee_select :: "eeprom93 \<Rightarrow> eeprom93" where
  "ee_select e = ee_pins (ee_pins e (False, False, False)) (True, False, False)"

definition ee_deselect :: "eeprom93 \<Rightarrow> eeprom93" where
  "ee_deselect e = ee_pins e (False, False, False)"

lemma ee_decode_commute [simp]:
  "ee_decode (e\<lparr>ee_sk := x\<rparr>) a = (ee_decode e a)\<lparr>ee_sk := x\<rparr>"
  "ee_decode (e\<lparr>ee_cs := x\<rparr>) a = (ee_decode e a)\<lparr>ee_cs := x\<rparr>"
  "ee_decode (e\<lparr>ee_tick := x\<rparr>) a = (ee_decode e a)\<lparr>ee_tick := x\<rparr>"
  "ee_decode (e\<lparr>ee_address := x\<rparr>) a = ee_decode e a"
  by (simp_all add: ee_decode_def Let_def)

lemma rise_commute [simp]:
  "ee_clock_rise (e\<lparr>ee_sk := x\<rparr>) d = (ee_clock_rise e d)\<lparr>ee_sk := x\<rparr>"
  "ee_clock_rise (e\<lparr>ee_cs := x\<rparr>) d = (ee_clock_rise e d)\<lparr>ee_cs := x\<rparr>"
  by (auto simp: ee_clock_rise_def Let_def)

lemma ee_clock_eq:
  "ee_cs e = 1 \<Longrightarrow> ee_clock e b = (ee_clock_rise e (of_bool b))\<lparr>ee_cs := 1, ee_sk := 1\<rparr>"
  by (simp add: ee_clock_def ee_pins_def eeprom93xx_write_def Let_def)

lemma shift_in_address: 
  "push_bit 1 (ucast (drop_bit (Suc m) w) :: u16) OR word_of_int (of_bool (bit w m)) = ucast (drop_bit m w)"
  for w :: u8
proof (rule bit_word_eqI)
  fix n assume "n < LENGTH(16)"
  then show "bit (push_bit 1 (ucast (drop_bit (Suc m) w) :: u16) OR word_of_int (of_bool (bit w m))) n
    = bit (ucast (drop_bit m w) :: u16) n"
    by (cases n) (auto simp: bit_simps simp del: push_bit_Suc dest: bit_imp_le_length)
qed

lemma ee_rise_address:
  assumes "4 \<le> unat (ee_tick e)" "unat (ee_tick e) < 4 + unat (ee_addrbits e)"
    and "unat (ee_tick e) < 200"
  shows "ee_clock_rise e d =
    (let e' = e\<lparr>ee_tick := ee_tick e + 1\<rparr>;
         a = push_bit 1 (ucast (ee_address e) :: u16) OR word_of_int d
     in if Suc (unat (ee_tick e)) = 4 + unat (ee_addrbits e) then ee_decode e' a
        else e'\<lparr>ee_address := ucast a\<rparr>)"
  using assms tick_suc [of "ee_tick e"] by (simp add: ee_clock_rise_def Let_def del: push_bit_Suc)

lemma ee_rise_data:
  assumes "4 + unat (ee_addrbits e) \<le> unat (ee_tick e)"
    and "unat (ee_tick e) < 4 + unat (ee_addrbits e) + 16"
  shows "ee_clock_rise e (of_bool b) =
     e\<lparr>ee_tick := ee_tick e + 1,
       ee_do := (if ee_command e = 2 then if bit (ee_data e) 15 then 1 else 0 else ee_do e),
       ee_data := push_bit 1 (ee_data e) OR of_bool b\<rparr>"
  using assms push_bit_plus_bit [of "ee_data e" b]
  by (auto simp: ee_clock_rise_def Let_def simp del: push_bit_Suc)

lemma ee_clock_address:
  assumes "unat (ee_addrbits e) = n" "n < 100" "m < n"
    and "unat (ee_tick e) = 4 + n - Suc m" "ee_address e = drop_bit (Suc m) w"
    and "ee_cs e = 1"
  shows "ee_clock e (bit w m) =
   (if m = 0 then (ee_decode (e\<lparr>ee_tick := ee_tick e + 1\<rparr>) (ucast w))\<lparr>ee_cs := 1, ee_sk := 1\<rparr>
    else e\<lparr>ee_tick := ee_tick e + 1, ee_address := drop_bit m w, ee_cs := 1, ee_sk := 1\<rparr>)"
proof -
  have "push_bit 1 (ucast (ee_address e) :: u16) OR word_of_int (of_bool (bit w m)) = ucast (drop_bit m w)"
    unfolding assms(5) by (rule shift_in_address)
  moreover have "4 \<le> unat (ee_tick e)" "unat (ee_tick e) < 4 + unat (ee_addrbits e)" "unat (ee_tick e) < 200"
      "Suc (unat (ee_tick e)) = 4 + unat (ee_addrbits e) \<longleftrightarrow> m = 0"
    using assms(1-4) by auto
  ultimately show ?thesis
    using assms(6) by (simp only: ee_clock_eq ee_rise_address Let_def) simp
qed

lemma ee_address_phase:
  assumes "unat (ee_addrbits e) = n" "n < 100" "m \<le> n" "0 < m"
    and "unat (ee_tick e) = 4 + n - m" "ee_address e = drop_bit m w"
    and "ee_cs e = 1"
  shows "foldl ee_clock e (msb_bits m w) =
    (ee_decode (e\<lparr>ee_tick := of_nat (4 + n)\<rparr>) (ucast w))\<lparr>ee_cs := 1, ee_sk := 1\<rparr>"
  using assms
proof (induction m arbitrary: e)
  case 0
  then show ?case by simp
next
  case (Suc m)
  have t: "unat (ee_tick e + 1) = 4 + n - m"
    using Suc.prems by (subst tick_suc) auto
  show ?case
  proof (cases m)
    case 0
    then have "ee_tick e + 1 = of_nat (4 + n)"
      using t by (intro word_eq_of_nat) simp
    with 0 Suc.prems ee_clock_address [of e n m w] show ?thesis by simp
  next
    case (Suc k)
    let ?e = "e\<lparr>ee_tick := ee_tick e + 1, ee_address := drop_bit m w, ee_cs := 1, ee_sk := 1\<rparr>"
    have "foldl ee_clock ?e (msb_bits m w) =
      (ee_decode (?e\<lparr>ee_tick := of_nat (4 + n)\<rparr>) (ucast w))\<lparr>ee_cs := 1, ee_sk := 1\<rparr>"
      by (rule Suc.IH) (use Suc Suc.prems t in auto)
    moreover have "ee_clock e (bit w m) = ?e"
      using Suc Suc.prems ee_clock_address [of e n m w] by simp
    ultimately show ?thesis by simp
  qed
qed

lemma ee_data_phase:
  assumes "unat (ee_addrbits e) = n" "n < 100" "m \<le> 16"
    and "unat (ee_tick e) = 4 + n + 16 - m" "ee_command e \<noteq> 2"
    and "ee_cs e = 1" "ee_sk e = 1"
  shows "foldl ee_clock e (msb_bits m w) =
    e\<lparr>ee_tick := of_nat (4 + n + 16), ee_data := push_bit m (ee_data e) OR take_bit m w\<rparr>"
  using assms
proof (induction m arbitrary: e)
  case 0
  then have "ee_tick e = of_nat (4 + n + 16)" by (intro word_eq_of_nat) simp
  then show ?case by (simp del: of_nat_add)
next
  case (Suc m)
  let ?e = "e\<lparr>ee_tick := ee_tick e + 1, ee_data := push_bit 1 (ee_data e) OR of_bool (bit w m)\<rparr>"
  have "ee_clock e (bit w m) = ?e"
    using Suc.prems by (simp add: ee_clock_eq ee_rise_data del: push_bit_Suc)
  moreover have "unat (ee_tick e + 1) = 4 + n + 16 - m"
    using Suc.prems by (subst tick_suc) auto
  ultimately have "foldl ee_clock e (msb_bits (Suc m) w) =
     ?e\<lparr>ee_tick := of_nat (4 + n + 16), ee_data := push_bit m (ee_data ?e) OR take_bit m w\<rparr>"
    using Suc.prems by (simp add: Suc.IH del: push_bit_Suc of_nat_add of_nat_Suc)
  also have "push_bit m (ee_data ?e) OR take_bit m w = push_bit (Suc m) (ee_data e) OR take_bit (Suc m) w"
    by (rule bit_word_eqI) (auto simp: bit_simps less_Suc_eq simp del: push_bit_Suc)
  finally show ?case by simp
qed

definition ee_header :: "u8 \<Rightarrow> bool list" where
  "ee_header op = True # msb_bits 2 op"

definition ee_txn :: "eeprom93 \<Rightarrow> bool list \<Rightarrow> eeprom93" where
  "ee_txn e bs = ee_deselect (foldl ee_clock (ee_select e) bs)"

fun ee_recv :: "nat \<Rightarrow> eeprom93 \<Rightarrow> bool list" where
  "ee_recv 0 e = []"
| "ee_recv (Suc k) e = (let e' = ee_clock e False in (eeprom93xx_read e' \<noteq> 0) # ee_recv k e')"

lemma ee_rise_header:
  "ee_tick e = 0 \<Longrightarrow> ee_clock_rise e 1 = e\<lparr>ee_tick := 2\<rparr>"
  "ee_tick e = 2 \<Longrightarrow> ee_clock_rise e (of_bool b) =
     e\<lparr>ee_tick := 3, ee_command := push_bit 1 (ee_command e) + of_bool b\<rparr>"
  "ee_tick e = 3 \<Longrightarrow> ee_clock_rise e (of_bool b) =
     e\<lparr>ee_tick := 4, ee_command := push_bit 1 (ee_command e) + of_bool b\<rparr>"
  by (simp_all add: ee_clock_rise_def Let_def)

lemma ee_header_phase:
  assumes "ee_cs e = 1" "ee_tick e = 0" "ee_command e = 0" "op \<in> {0, 1, 2, 3}"
  shows "foldl ee_clock e (ee_header op) = e\<lparr>ee_tick := 4, ee_command := op, ee_cs := 1, ee_sk := 1\<rparr>"
  using assms by (auto simp: ee_header_def numeral_2_eq_2 ee_clock_eq ee_rise_header)

lemma ee_select_eq:
  "ee_select e = (let e' = if ee_cs e \<noteq> 0 then (ee_cs_fall e)\<lparr>ee_do := 1\<rparr> else e
     in e'\<lparr>ee_tick := 0, ee_command := 0, ee_address := 0, ee_cs := 1, ee_sk := 0\<rparr>)"
  by (simp add: ee_select_def ee_pins_def eeprom93xx_write_def Let_def)

lemma ee_deselect_eq:
  "ee_cs e = 1 \<Longrightarrow> ee_deselect e = (ee_cs_fall e)\<lparr>ee_do := 1, ee_cs := 0, ee_sk := 0\<rparr>"
  by (simp add: ee_deselect_def ee_pins_def eeprom93xx_write_def Let_def)

lemma ee_command_phase:
  fixes a :: u8
  assumes "ee_inv e" "ee_cs e = 0" "op \<in> {0, 1, 2, 3}" "unat a < 2 ^ unat (ee_addrbits e)"
  shows "foldl ee_clock (ee_select e) (ee_header op @ msb_bits (unat (ee_addrbits e)) a) =
    (ee_decode (e\<lparr>ee_command := op, ee_address := 0, ee_tick := 4 + ee_addrbits e\<rparr>) (ucast a))\<lparr>ee_cs := 1, ee_sk := 1\<rparr>"
proof -
  let ?n = "unat (ee_addrbits e)"
  let ?e = "e\<lparr>ee_tick := 4, ee_command := op, ee_address := 0, ee_cs := 1, ee_sk := 1\<rparr>"
  have n: "?n < 100" "0 < ?n" using assms(1) by (auto simp: ee_inv_def)
  have "foldl ee_clock (ee_select e) (ee_header op) = ?e"
    using assms by (simp add: ee_select_eq ee_header_phase)
  moreover have "drop_bit ?n a = 0" using assms(4) by (rule drop_bit_eq_0_less)
  then have "foldl ee_clock ?e (msb_bits ?n a) =
      (ee_decode (?e\<lparr>ee_tick := of_nat (4 + ?n)\<rparr>) (ucast a))\<lparr>ee_cs := 1, ee_sk := 1\<rparr>"
    using n by (intro ee_address_phase) auto
  ultimately show ?thesis by simp
qed

lemma ee_index_mod: "unat ((ucast (a::u8) :: u16) mod s) = unat a mod unat s"
  by (simp add: unat_mod_distrib)

lemma ee_write_txn:
  fixes a :: u8
  assumes "ee_inv e" "ee_cs e = 0" "ee_writeable e \<noteq> 0" "unat a < 2 ^ unat (ee_addrbits e)"
  defines "k \<equiv> unat a mod unat (ee_size e)"
  shows "ee_contents (ee_txn e (ee_header 1 @ msb_bits (unat (ee_addrbits e)) a @ msb_bits 16 w)) =
    (ee_contents e)[k := (ee_contents e ! k) AND w]"
proof -
  let ?n = "unat (ee_addrbits e)"
  let ?d = "(ee_decode (e\<lparr>ee_command := 1, ee_address := 0, ee_tick := 4 + ee_addrbits e\<rparr>) (ucast a))\<lparr>ee_cs := 1, ee_sk := 1\<rparr>"
  have n: "?n < 100" using assms(1) by (auto simp: ee_inv_def)
  then have t: "unat (4 + ee_addrbits e) = 4 + ?n" "unat (20 + ee_addrbits e) = 20 + ?n"
    by (simp_all add: unat_word_ariths)
  have k: "k < 256" "unat (ee_size e) \<le> 256" "0 < unat (ee_size e)" using assms(1)
    by (auto simp: ee_inv_def k_def)
  have d: "ee_data ?d = ee_contents e ! k" "ee_command ?d = 1" "unat (ee_address ?d) = k" 
     "ee_addrbits ?d = ee_addrbits e" "ee_tick ?d = 4 + ee_addrbits e" "ee_cs ?d = 1" "ee_sk ?d = 1"
     "ee_contents ?d = ee_contents e" "ee_writeable ?d = ee_writeable e"
    using k by (auto simp: ee_decode_def Let_def ee_index_mod k_def unat_ucast_16_8)
  have "foldl ee_clock ?d (msb_bits 16 w) =
    ?d\<lparr>ee_tick := of_nat (4 + ?n + 16), ee_data := push_bit 16 (ee_data ?d) OR take_bit 16 w\<rparr>"
    by (rule ee_data_phase) (use n t d in auto)
  moreover have "push_bit 16 (ee_data ?d) OR take_bit 16 w = w"
    by (rule bit_word_eqI) (auto simp: bit_simps)
  ultimately have "foldl ee_clock (ee_select e) (ee_header 1 @ msb_bits ?n a @ msb_bits 16 w) = 
    ?d\<lparr>ee_tick := of_nat (4 + ?n + 16), ee_data := w\<rparr>"
    using ee_command_phase [of e 1 a] assms
    by (simp only: append_assoc [symmetric] foldl_append) simp
  then show ?thesis
    using assms(3) d n t
    by (simp add: ee_txn_def ee_deselect_eq ee_cs_fall_def Let_def unat_of_nat)
qed


lemma ee_erase_txn:
  fixes a :: u8
  assumes "ee_inv e" "ee_cs e = 0" "ee_writeable e \<noteq> 0" "unat a < 2 ^ unat (ee_addrbits e)"
  defines "r \<equiv> ee_txn e (ee_header 3 @ msb_bits (unat (ee_addrbits e)) a)"
  shows "ee_contents r = (ee_contents e)[unat a mod unat (ee_size e) := 0xffff]"
    and "ee_writeable r = ee_writeable e"
proof -
  have "unat a mod unat (ee_size e) < 256" 
    using assms(1) by (auto simp: ee_inv_def)
  then show "ee_contents r = (ee_contents e)[unat a mod unat (ee_size e) := 0xffff]"
      "ee_writeable r = ee_writeable e"
    using ee_command_phase [of e 3 a] assms(1-4)
    by (simp_all add: r_def ee_txn_def ee_deselect_eq ee_cs_fall_def ee_decode_def Let_def ee_index_mod unat_ucast_16_8)
qed

lemma ee_ewen_txn:
  fixes a :: u8
  assumes "ee_inv e" "ee_cs e = 0" "ee_size e = 64 \<or> ee_size e = 256"
    and "a = (if ee_size e = 64 then 0x30 else 0xc0)"
  defines "r \<equiv> ee_txn e (ee_header 0 @ msb_bits (unat (ee_addrbits e)) a)"
  shows "ee_writeable r = 1" and "ee_contents r = ee_contents e"
proof -
  have b: "ee_addrbits e = (if ee_size e = 64 then 6 else 8)"
    using assms(1,3) by (auto simp: ee_inv_def)
  then have "unat a < 2 ^ unat (ee_addrbits e)"
    using assms(3,4) by auto
  then have r: "r = ee_deselect ((ee_decode (e\<lparr>ee_command := 0, ee_address := 0, ee_tick := 4 + ee_addrbits e\<rparr>) (ucast a))\<lparr>ee_cs := 1, ee_sk := 1\<rparr>)"
    using ee_command_phase [of e 0 a] assms(1,2) by (simp add: r_def ee_txn_def)
  show "ee_writeable r = 1" "ee_contents r = ee_contents e"
    using assms(3,4) b by (auto simp: r ee_deselect_eq ee_cs_fall_def ee_decode_def)
qed

lemma ee_recv_phase:
  assumes "unat (ee_addrbits e) = n" "n < 100" "m \<le> 16"
    and "unat (ee_tick e) = 4 + n + 16 - m" "ee_command e = 2" "ee_cs e = 1"
  shows "ee_recv m e = map (\<lambda>i. bit (ee_data e) (15 - i)) [0..<m]"
  using assms
proof (induction m arbitrary: e)
  case 0
  then show ?case by simp
next
  case (Suc m)
  let ?e = "ee_clock e False"
  have "?e = e\<lparr>ee_tick := ee_tick e + 1, ee_do := (if bit (ee_data e) 15 then 1 else 0),
       ee_data := push_bit 1 (ee_data e), ee_cs := 1, ee_sk := 1\<rparr>"
    using Suc.prems ee_rise_data [of e False] by (simp add: ee_clock_eq del: push_bit_Suc)
  moreover have "unat (ee_tick e + 1) = 4 + n + 16 - m"
    using Suc.prems by (subst tick_suc) auto
  ultimately have "ee_recv m ?e = map (\<lambda>i. bit (push_bit 1 (ee_data e)) (15 - i)) [0..<m]"
      and do: "eeprom93xx_read ?e \<noteq> 0 \<longleftrightarrow> bit (ee_data e) 15"
    using Suc.prems by (simp_all add: Suc.IH eeprom93xx_read_def del: push_bit_Suc)
  moreover have "map (\<lambda>i. bit (push_bit 1 (ee_data e)) (15 - i)) [0..<m] = map (\<lambda>i. bit (ee_data e) (15 - Suc i)) [0..<m]"
    using Suc.prems(3) by (auto simp: bit_simps simp del: push_bit_Suc)
  ultimately show ?case
    by (simp add: map_upt_Suc Let_def del: upt_Suc)
qed

definition ee_read_word :: "eeprom93 \<Rightarrow> u8 \<Rightarrow> bool list" where
  "ee_read_word e a =
     ee_recv 16 (foldl ee_clock (ee_select e) (ee_header 2 @ msb_bits (unat (ee_addrbits e)) a))"

lemma ee_read_word_eq:
  assumes "ee_inv e" "ee_cs e = 0" "unat a < 2 ^ unat (ee_addrbits e)"
  shows "ee_read_word e a = msb_bits 16 (ee_contents e ! (unat a mod unat (ee_size e)))"
proof -
  let ?d = "(ee_decode (e\<lparr>ee_command := 2, ee_address := 0, ee_tick := 4 + ee_addrbits e\<rparr>) (ucast a))\<lparr>ee_cs := 1, ee_sk := 1\<rparr>"
  have "unat (ee_addrbits e) < 100" using assms(1) by (auto simp: ee_inv_def)
  then have "ee_recv 16 ?d = map (\<lambda>i. bit (ee_data ?d) (15 - i)) [0..<16]"
    by (intro ee_recv_phase) (auto simp: unat_word_ariths ee_decode_def Let_def)
  also have "\<dots> = msb_bits 16 (ee_data ?d)"
    using msb_bits_alt [of "ee_data ?d" 16] by simp
  finally show ?thesis
    using ee_command_phase [of e 2 a] assms
    by (simp add: ee_read_word_def ee_decode_def Let_def ee_index_mod)
qed

text \<open>A transaction is a sequence of pin settings, so the generic facts on runs apply.\<close>

definition ee_pin_seq :: "bool list \<Rightarrow> (bool \<times> bool \<times> bool) list" where
  "ee_pin_seq bs = (False, False, False) # (True, False, False)
     # concat (map (\<lambda>b. [(True, False, b), (True, True, b)]) bs) @ [(False, False, False)]"

lemma ee_txn_pins: "ee_txn e bs = foldl ee_pins e (ee_pin_seq bs)"
proof -
  have "foldl ee_clock e bs = foldl ee_pins e (concat (map (\<lambda>b. [(True, False, b), (True, True, b)]) bs))" for e
    by (induction bs arbitrary: e) (simp_all add: ee_clock_def)
  then show ?thesis
    by (simp add: ee_txn_def ee_pin_seq_def ee_select_def ee_deselect_def)
qed

interpretation ee_geometry: framed_machine ee_pins ee_inv "\<lambda>e. (ee_size e, ee_addrbits e)"
  by unfold_locales (auto simp: ee_pins_def eeprom93xx_write_def Let_def split: prod.splits)

lemma ee_txn_frame:
  assumes "ee_inv e"
  shows "ee_inv (ee_txn e bs)" "ee_size (ee_txn e bs) = ee_size e"
    "ee_addrbits (ee_txn e bs) = ee_addrbits e" "ee_cs (ee_txn e bs) = 0"
proof -
  show "ee_inv (ee_txn e bs)" "ee_size (ee_txn e bs) = ee_size e"
    "ee_addrbits (ee_txn e bs) = ee_addrbits e"
    using ee.run_inv [OF assms, of "ee_pin_seq bs"] ee_geometry.run_obs [OF assms, of "ee_pin_seq bs"]
    by (simp_all add: ee_txn_pins)
  show "ee_cs (ee_txn e bs) = 0"
    by (simp add: ee_txn_def ee_deselect_def ee_pins_def eeprom93xx_write_def Let_def)
qed

definition ee_program :: "eeprom93 \<Rightarrow> u8 \<Rightarrow> u16 \<Rightarrow> eeprom93" where
  "ee_program e a w =
     (let n = unat (ee_addrbits e);
          e1 = ee_txn e (ee_header 0 @ msb_bits n (if ee_size e = 64 then 0x30 else 0xc0 :: u8));
          e2 = ee_txn e1 (ee_header 3 @ msb_bits n a)
      in ee_txn e2 (ee_header 1 @ msb_bits n a @ msb_bits 16 w))"

section \<open>Properties\<close>

lemma ee_program_contents:
  assumes "ee_inv e" "ee_cs e = 0" "ee_size e = 64 \<or> ee_size e = 256" "unat a < unat (ee_size e)"
  shows "ee_contents (ee_program e a w) = (ee_contents e)[unat a := w]"
    and "ee_inv (ee_program e a w)" "ee_cs (ee_program e a w) = 0"
    and "ee_size (ee_program e a w) = ee_size e" "ee_addrbits (ee_program e a w) = ee_addrbits e"
proof -
  let ?n = "unat (ee_addrbits e)"
  define e1 where "e1 = ee_txn e (ee_header 0 @ msb_bits ?n (if ee_size e = 64 then 0x30 else 0xc0 :: u8))"
  define e2 where "e2 = ee_txn e1 (ee_header 3 @ msb_bits ?n a)"
  have p: "ee_program e a w = ee_txn e2 (ee_header 1 @ msb_bits ?n a @ msb_bits 16 w)"
    by (simp add: ee_program_def e1_def e2_def Let_def)
  have a: "unat a < 2 ^ ?n" "unat a mod unat (ee_size e) = unat a" "unat a < 256"
    using assms by (auto simp: ee_inv_def)
  have f1: "ee_inv e1" "ee_size e1 = ee_size e" "ee_addrbits e1 = ee_addrbits e" "ee_cs e1 = 0"
      "ee_writeable e1 = 1" "ee_contents e1 = ee_contents e"
    unfolding e1_def using assms by (simp_all add: ee_txn_frame ee_ewen_txn)
  have f2: "ee_inv e2" "ee_size e2 = ee_size e" "ee_addrbits e2 = ee_addrbits e" "ee_cs e2 = 0"
      "ee_writeable e2 = 1" "ee_contents e2 = (ee_contents e)[unat a := 0xffff]"
    using ee_erase_txn [of e1 a] a f1 by (simp_all add: e2_def ee_txn_frame)
  have "(0xffff :: u16) = - 1" by simp
  then have ones: "0xffff AND w = w" by (simp only:) simp
  show "ee_contents (ee_program e a w) = (ee_contents e)[unat a := w]"
    using ee_write_txn [of e2 a w] a f2 ones assms(1) by (simp add: p ee_inv_def)
  show "ee_inv (ee_program e a w)" "ee_cs (ee_program e a w) = 0"
    "ee_size (ee_program e a w) = ee_size e" "ee_addrbits (ee_program e a w) = ee_addrbits e"
    using f2 by (simp_all add: p ee_txn_frame)
qed

definition ee_demo :: eeprom93 where
  "ee_demo = the (eeprom93xx_new (replicate 512 0) 64)"

lemma ee_demo_facts: "ee_inv ee_demo" "ee_cs ee_demo = 0" "ee_size ee_demo = 64" "ee_writeable ee_demo = 0"
  by (simp_all add: ee_demo_def eeprom93xx_new_def ee_inv_def)

text \<open>C31: on a 64 or 256 word chip, the bit sequence write-enable, erase word, write word
  changes exactly the addressed word, to the word sent, and a read transaction of that
  address then shifts out this word, most significant bit first.\<close>

theorem ee_program_read:
  assumes "ee_inv e" "ee_cs e = 0" "ee_size e = 64 \<or> ee_size e = 256" "unat a < unat (ee_size e)"
  shows "ee_contents (ee_program e a w) = (ee_contents e)[unat a := w] \<and>
    ee_read_word (ee_program e a w) a = msb_bits 16 w"
proof -
  have "unat a < 2 ^ unat (ee_addrbits e)" "unat a < length (ee_contents e)"
    using assms by (auto simp: ee_inv_def)
  then show ?thesis
    using assms(4) by (simp add: ee_program_contents [OF assms] ee_read_word_eq)
qed

theorem ee_program_read_witness:
  "ee_contents (ee_program ee_demo 5 0xbeef) = (ee_contents ee_demo)[5 := 0xbeef] \<and>
    ee_read_word (ee_program ee_demo 5 0xbeef) 5 = msb_bits 16 (0xbeef :: u16)"
  using ee_program_read [of ee_demo 5 "0xbeef"] by (simp add: ee_demo_facts)

lemma ee_contents_change_locked:
  "ee_writeable e = 0 \<Longrightarrow> ee_contents (eeprom93xx_write e cs sk di) = ee_contents e"
  by (simp add: eeprom93xx_write_def ee_cs_fall_def Let_def)

definition ee_demo_wr :: eeprom93 where
  "ee_demo_wr = ee_demo\<lparr>ee_cs := 1, ee_writeable := 1, ee_command := 3, ee_address := 7\<rparr>"

text \<open>the array of a chip changes in one call only: on a falling edge of chip select
  while the chip is write-enabled.\<close>

theorem ee_contents_change:
  assumes "ee_contents (eeprom93xx_write e cs sk di) \<noteq> ee_contents e"
  shows "ee_cs e \<noteq> 0 \<and> cs = 0 \<and> ee_writeable e \<noteq> 0"
  using assms by (auto simp: eeprom93xx_write_def ee_cs_fall_def Let_def split: if_splits)

theorem ee_contents_change_witness:
  "ee_cs ee_demo_wr \<noteq> 0 \<and> (0::int) = 0 \<and> ee_writeable ee_demo_wr \<noteq> 0"
proof (rule ee_contents_change [where sk = 0 and di = 0])
  have "ee_contents (eeprom93xx_write ee_demo_wr 0 0 0) ! 7 = 0xffff"
    by (simp add: ee_demo_wr_def ee_demo_def eeprom93xx_new_def eeprom93xx_write_def ee_cs_fall_def)
  moreover have "ee_contents ee_demo_wr ! 7 = 0"
    by (simp add: ee_demo_wr_def ee_demo_def eeprom93xx_new_def nth_append)
  ultimately show "ee_contents (eeprom93xx_write ee_demo_wr 0 0 0) \<noteq> ee_contents ee_demo_wr"
    by auto
qed

lemma ee_small_sub:
  assumes "ee_inv e" "ee_size e = 16 \<or> ee_size e = 128"
  shows "drop_bit (unat (ee_addrbits e) - 2) (a mod ee_size e) \<noteq> (3 :: u16)"
proof
  assume eq: "drop_bit (unat (ee_addrbits e) - 2) (a mod ee_size e) = (3 :: u16)"
  have "unat (a mod ee_size e) < unat (ee_size e)"
    using assms(2) by (auto simp: unat_mod_distrib)
  then have "unat (drop_bit (unat (ee_addrbits e) - 2) (a mod ee_size e)) < 3"
    using assms by (auto simp: ee_inv_def bit_arith less_mult_imp_div_less simp del: unat_mod_distrib)
  with eq show False by simp
qed

interpretation ee_locked: framed_machine ee_pins
  "\<lambda>e. ee_inv e \<and> (ee_size e = 16 \<or> ee_size e = 128) \<and> ee_writeable e = 0" ee_contents
proof unfold_locales
  fix e p
  assume A: "ee_inv e \<and> (ee_size e = 16 \<or> ee_size e = 128) \<and> ee_writeable e = 0"
  then have "ee_writeable (ee_pins e p) = 0"
    using ee_small_sub [of e]
    by (auto simp: ee_pins_def eeprom93xx_write_def ee_clock_rise_def ee_decode_def Let_def split: prod.splits)
  with A show "ee_inv (ee_pins e p) \<and> (ee_size (ee_pins e p) = 16 \<or> ee_size (ee_pins e p) = 128)
      \<and> ee_writeable (ee_pins e p) = 0"
    using ee.step_inv [of e p] ee_geometry.step_obs [of e p] by simp
  show "ee_contents (ee_pins e p) = ee_contents e"
    using A ee_contents_change_locked [of e] by (simp add: ee_pins_def split: prod.splits)
qed

text \<open>a chip with 16 or 128 words that starts write-protected stays so under every
  sequence of pin settings, and its array never changes: the address is reduced modulo the
  size before its two top bits are decoded, so the write-enable command is never seen.\<close>

theorem ee_small_never_written:
  assumes "ee_inv e" "ee_size e = 16 \<or> ee_size e = 128" "ee_writeable e = 0"
  shows "ee_contents (foldl ee_pins e ps) = ee_contents e \<and> ee_writeable (foldl ee_pins e ps) = 0"
  using ee_locked.run_obs [of e ps] ee_locked.run_inv [of e ps] assms by simp

definition ee_demo16 :: eeprom93 where
  "ee_demo16 = the (eeprom93xx_new (replicate 512 0) 16)"

theorem ee_small_never_written_witness:
  "ee_contents (foldl ee_pins ee_demo16 (ee_pin_seq (ee_header 0 @ msb_bits 6 (0x30 :: u8)))) = ee_contents ee_demo16
   \<and> ee_writeable (foldl ee_pins ee_demo16 (ee_pin_seq (ee_header 0 @ msb_bits 6 (0x30 :: u8)))) = 0"
  by (rule ee_small_never_written) (simp_all add: ee_demo16_def eeprom93xx_new_def ee_inv_def)

end
