(* ===== verification/I2c.thy ===== *)
theory I2c
  imports Prelude
begin

text \<open>
  The I2C EEPROM (24Cxx) of \<^verbatim>\<open>sources/src/flashrom.c\<close>: a bit-banged bus with a data and a
  clock line, on which the CD32's and the Oktagon's non-volatile memory and the Cubo's clock
  chip sit. Levels and addresses are C \<^verbatim>\<open>int\<close>s that stay far from their bounds; they are \<open>int\<close>
  here, with the code's bit operations. The optional callbacks \<^verbatim>\<open>read_func\<close>/\<^verbatim>\<open>write_func\<close>
  belong to the owner of the device: they are fields of the record, over a device state of any
  type. The backing file is the list of the writes requested of it (offset and bytes). A call
  that would touch memory outside the array, or reach \<^verbatim>\<open>abort()\<close>, is \<open>None\<close>. LED and log
  calls are left out.

  Shown: no bus traffic ever leaves the array, a page-write transaction stores its bytes with
  the page wrap-around, random reads return what is stored, and which bytes of a
  page write reach the backing file.
\<close>

section \<open>State\<close>

datatype bitbang_i2c_state =
    STOPPED
  | SENDING_BIT7 | SENDING_BIT6 | SENDING_BIT5 | SENDING_BIT4
  | SENDING_BIT3 | SENDING_BIT2 | SENDING_BIT1 | SENDING_BIT0
  | WAITING_FOR_ACK
  | RECEIVING_BIT7 | RECEIVING_BIT6 | RECEIVING_BIT5 | RECEIVING_BIT4
  | RECEIVING_BIT3 | RECEIVING_BIT2 | RECEIVING_BIT1 | RECEIVING_BIT0
  | SENDING_ACK
  | SENT_NACK

text \<open>\<^verbatim>\<open>(bitbang_i2c_state)((int)state + 1)\<close>\<close>

fun i2c_next :: "bitbang_i2c_state \<Rightarrow> bitbang_i2c_state" where
  "i2c_next STOPPED = SENDING_BIT7"
| "i2c_next SENDING_BIT7 = SENDING_BIT6"
| "i2c_next SENDING_BIT6 = SENDING_BIT5"
| "i2c_next SENDING_BIT5 = SENDING_BIT4"
| "i2c_next SENDING_BIT4 = SENDING_BIT3"
| "i2c_next SENDING_BIT3 = SENDING_BIT2"
| "i2c_next SENDING_BIT2 = SENDING_BIT1"
| "i2c_next SENDING_BIT1 = SENDING_BIT0"
| "i2c_next SENDING_BIT0 = WAITING_FOR_ACK"
| "i2c_next WAITING_FOR_ACK = RECEIVING_BIT7"
| "i2c_next RECEIVING_BIT7 = RECEIVING_BIT6"
| "i2c_next RECEIVING_BIT6 = RECEIVING_BIT5"
| "i2c_next RECEIVING_BIT5 = RECEIVING_BIT4"
| "i2c_next RECEIVING_BIT4 = RECEIVING_BIT3"
| "i2c_next RECEIVING_BIT3 = RECEIVING_BIT2"
| "i2c_next RECEIVING_BIT2 = RECEIVING_BIT1"
| "i2c_next RECEIVING_BIT1 = RECEIVING_BIT0"
| "i2c_next RECEIVING_BIT0 = SENDING_ACK"
| "i2c_next SENDING_ACK = SENT_NACK"
| "i2c_next SENT_NACK = SENT_NACK"

datatype eeprom_state = I2C_DEVICEADDR | I2C_WORDADDR | I2C_DATA

record 'd i2c =
  i2c_state :: bitbang_i2c_state
  last_data :: int
  last_clock :: int
  device_out :: int
  i2c_buffer :: u8
  current_addr :: int
  device_address :: u8
  device_address_mask :: u8
  estate :: eeprom_state
  eeprom_addr :: int
  i2c_size :: int
  write_offset :: int
  addressbitmask :: int
  i2c_memory :: "u8 list"
  i2c_zf :: "(int \<times> u8 list) list option"
  read_func :: "('d \<Rightarrow> u8 \<Rightarrow> u8 \<times> 'd) option"
  write_func :: "('d \<Rightarrow> u8 \<Rightarrow> u8 \<Rightarrow> 'd) option"
  i2c_dev :: 'd

section \<open>Operations\<close>

definition nvram_write :: "'d i2c \<Rightarrow> int \<Rightarrow> int \<Rightarrow> 'd i2c option" where
  "nvram_write s offset len =
     (case i2c_zf s of
        None \<Rightarrow> Some s
      | Some log \<Rightarrow>
          if 0 \<le> offset \<and> offset + len \<le> int (length (i2c_memory s)) then
            Some (s\<lparr>i2c_zf := Some (log @ [(offset, take (nat len) (drop (nat offset) (i2c_memory s)))])\<rparr>)
          else None)"

definition bitbang_i2c_enter_stop :: "'d i2c \<Rightarrow> 'd i2c option" where
  "bitbang_i2c_enter_stop s =
     (let flushed =
        (if write_offset s \<ge> 0 then
           let len = min (i2c_size s - write_offset s) 16
           in case (if len > 0 then nvram_write s (write_offset s) len else Some s) of
                None \<Rightarrow> None
              | Some s \<Rightarrow> (if len < 16 then nvram_write s 0 (16 - len) else Some s)
         else Some s)
      in map_option (\<lambda>s. s\<lparr>write_offset := -1, current_addr := -1, i2c_state := STOPPED,
           estate := I2C_DEVICEADDR\<rparr>) flushed)"

definition bitbang_i2c_ret :: "'d i2c \<Rightarrow> int \<Rightarrow> int \<times> 'd i2c" where
  "bitbang_i2c_ret s level = (level AND last_data s, s\<lparr>device_out := level\<rparr>)"

definition bitbang_i2c_nop :: "'d i2c \<Rightarrow> int \<times> 'd i2c" where
  "bitbang_i2c_nop s = bitbang_i2c_ret s (device_out s)"

text \<open>Storing one received byte (master writes): callback or array with page wrap-around.\<close>

definition i2c_store :: "'d i2c \<Rightarrow> 'd i2c option" where
  "i2c_store s =
     (let s = (if write_offset s < 0 then s\<lparr>write_offset := eeprom_addr s\<rparr> else s);
          a = eeprom_addr s
      in case write_func s of
           Some f \<Rightarrow> Some (s\<lparr>i2c_dev := f (i2c_dev s) (word_of_int a) (i2c_buffer s)\<rparr>)
         | None \<Rightarrow>
             if 0 \<le> a \<and> a < int (length (i2c_memory s)) then
               Some (s\<lparr>i2c_memory := (i2c_memory s)[nat a := i2c_buffer s],
                 eeprom_addr := (a AND NOT 15) OR ((a + 1) AND 15)\<rparr>)
             else None)"

text \<open>The acknowledge clock after a received byte.\<close>

definition i2c_ack_done :: "'d i2c \<Rightarrow> int \<times> 'd i2c" where
  "i2c_ack_done s = bitbang_i2c_ret
     (if current_addr s AND 1 \<noteq> 0 then s\<lparr>i2c_state := RECEIVING_BIT7\<rparr>
      else s\<lparr>i2c_state := SENDING_BIT7\<rparr>) 0"

definition i2c_ack :: "'d i2c \<Rightarrow> (int \<times> 'd i2c) option" where
  "i2c_ack s =
     (case estate s of
        I2C_DEVICEADDR \<Rightarrow>
          (let s = s\<lparr>current_addr := uint (i2c_buffer s)\<rparr>
           in if current_addr s AND uint (device_address_mask s) \<noteq> uint (device_address s) then
                Some (bitbang_i2c_ret (s\<lparr>i2c_state := STOPPED\<rparr>) 0)
              else if current_addr s AND 1 \<noteq> 0 then Some (i2c_ack_done (s\<lparr>estate := I2C_DATA\<rparr>))
              else Some (i2c_ack_done (s\<lparr>estate := I2C_WORDADDR,
                     eeprom_addr := push_bit 8 (uint (drop_bit 1 (i2c_buffer s)) AND addressbitmask s)\<rparr>)))
      | I2C_WORDADDR \<Rightarrow>
          Some (i2c_ack_done (s\<lparr>estate := I2C_DATA,
            eeprom_addr := (eeprom_addr s AND push_bit 8 (addressbitmask s)) OR uint (i2c_buffer s)\<rparr>))
      | I2C_DATA \<Rightarrow>
          if current_addr s AND 1 = 0 then map_option i2c_ack_done (i2c_store s)
          else Some (i2c_ack_done s))"

text \<open>Fetching the next byte (master reads).\<close>

definition i2c_fetch :: "'d i2c \<Rightarrow> 'd i2c option" where
  "i2c_fetch s =
     (let a = eeprom_addr s;
          adv = (\<lambda>s. s\<lparr>eeprom_addr := (a + 1) AND (i2c_size s - 1)\<rparr>)
      in case read_func s of
           Some f \<Rightarrow> (case f (i2c_dev s) (word_of_int a) of
                        (v, d) \<Rightarrow> Some (adv (s\<lparr>i2c_buffer := v, i2c_dev := d\<rparr>)))
         | None \<Rightarrow>
             if 0 \<le> a \<and> a < int (length (i2c_memory s)) then
               Some (adv (s\<lparr>i2c_buffer := i2c_memory s ! nat a\<rparr>))
             else None)"

definition i2c_shift_out :: "'d i2c \<Rightarrow> int \<times> 'd i2c" where
  "i2c_shift_out s =
     bitbang_i2c_ret (s\<lparr>i2c_state := i2c_next (i2c_state s), i2c_buffer := push_bit 1 (i2c_buffer s)\<rparr>)
       (uint (drop_bit 7 (i2c_buffer s)))"

text \<open>The rising clock edge: one step of the byte state machine.\<close>

definition i2c_clock_rise :: "'d i2c \<Rightarrow> (int \<times> 'd i2c) option" where
  "i2c_clock_rise s =
     (if i2c_state s \<in> {STOPPED, SENT_NACK} then Some (bitbang_i2c_ret s 1)
      else if i2c_state s \<in> {SENDING_BIT7, SENDING_BIT6, SENDING_BIT5, SENDING_BIT4,
                SENDING_BIT3, SENDING_BIT2, SENDING_BIT1, SENDING_BIT0} then
        Some (bitbang_i2c_ret (s\<lparr>i2c_buffer := push_bit 1 (i2c_buffer s) OR word_of_int (last_data s),
                i2c_state := i2c_next (i2c_state s)\<rparr>) 1)
      else if i2c_state s = WAITING_FOR_ACK then i2c_ack s
      else if i2c_state s = RECEIVING_BIT7 then map_option i2c_shift_out (i2c_fetch s)
      else if i2c_state s = SENDING_ACK then
        Some (bitbang_i2c_ret
          (if last_data s \<noteq> 0 then s\<lparr>i2c_state := SENT_NACK\<rparr> else s\<lparr>i2c_state := RECEIVING_BIT7\<rparr>) 1)
      else Some (i2c_shift_out s))"

definition BITBANG_I2C_SDA :: int where "BITBANG_I2C_SDA = 0"
definition BITBANG_I2C_SCL :: int where "BITBANG_I2C_SCL = 1"

text \<open>Set one line; the level of the data line comes back. A negative level leaves the line as is.\<close>

definition eeprom_i2c_set :: "'d i2c \<Rightarrow> int \<Rightarrow> int \<Rightarrow> (int \<times> 'd i2c) option" where
  "eeprom_i2c_set s line level =
     (if line = BITBANG_I2C_SDA then
        let level = (if level < 0 then last_data s else level)
        in if level = last_data s then Some (bitbang_i2c_nop s)
           else
             let s = s\<lparr>last_data := level\<rparr>
             in if last_clock s = 0 then Some (bitbang_i2c_nop s)
                else if level = 0 then
                  Some (bitbang_i2c_ret (s\<lparr>i2c_state := SENDING_BIT7, current_addr := -1\<rparr>) 1)
                else map_option (\<lambda>s. bitbang_i2c_ret s 1) (bitbang_i2c_enter_stop s)
      else
        let level = (if level < 0 then last_clock s else level)
        in if last_clock s = level then Some (bitbang_i2c_nop s)
           else
             let s = s\<lparr>last_clock := level\<rparr>
             in if level = 0 then Some (bitbang_i2c_ret s 1) else i2c_clock_rise s)"

definition eeprom_reset :: "'d i2c \<Rightarrow> 'd i2c" where
  "eeprom_reset s = s\<lparr>last_data := 1, last_clock := 1, device_out := 1, eeprom_addr := 0,
     write_offset := -1, estate := I2C_DEVICEADDR\<rparr>"

text \<open>A zero-initialised device (\<^verbatim>\<open>xcalloc\<close>) with the fields its constructor sets.\<close>

definition i2c_zero :: "'d \<Rightarrow> 'd i2c" where
  "i2c_zero d = \<lparr>i2c_state = STOPPED, last_data = 0, last_clock = 0, device_out = 0, i2c_buffer = 0,
     current_addr = 0, device_address = 0, device_address_mask = 0, estate = I2C_DEVICEADDR,
     eeprom_addr = 0, i2c_size = 0, write_offset = 0, addressbitmask = 0, i2c_memory = [],
     i2c_zf = None, read_func = None, write_func = None, i2c_dev = d\<rparr>"

definition eeprom_new :: "u8 list \<Rightarrow> int \<Rightarrow> (int \<times> u8 list) list option \<Rightarrow> 'd \<Rightarrow> 'd i2c" where
  "eeprom_new mem sz zf d =
     (eeprom_reset (i2c_zero d))\<lparr>i2c_memory := mem, i2c_size := sz, i2c_zf := zf,
        addressbitmask := (sz div 256) - 1, device_address := 0xa0, device_address_mask := 0xf0\<rparr>"

text \<open>The parameter \<open>addr\<close> is there, as in the code, and is not used, as in the code.\<close>

definition i2c_new ::
  "u8 \<Rightarrow> int \<Rightarrow> ('d \<Rightarrow> u8 \<Rightarrow> u8 \<times> 'd) \<Rightarrow> ('d \<Rightarrow> u8 \<Rightarrow> u8 \<Rightarrow> 'd) \<Rightarrow> 'd \<Rightarrow> 'd i2c" where
  "i2c_new addr sz rfn wfn d =
     (eeprom_reset (i2c_zero d))\<lparr>i2c_memory := [], i2c_size := sz, i2c_zf := None,
        addressbitmask := 0, device_address := 0xa2, device_address_mask := 0xff,
        read_func := Some rfn, write_func := Some wfn\<rparr>"

section \<open>No traffic leaves the array\<close>

text \<open>One bus event: the line (\<open>True\<close> is the clock) and the level to set.\<close>

definition i2c_event :: "'d i2c \<Rightarrow> bool \<times> bool \<Rightarrow> 'd i2c option" where
  "i2c_event s ev = map_option snd
     (eeprom_i2c_set s (if fst ev then BITBANG_I2C_SCL else BITBANG_I2C_SDA) (of_bool (snd ev)))"

definition i2c_inv :: "nat \<Rightarrow> 'd i2c \<Rightarrow> bool" where
  "i2c_inv n s \<longleftrightarrow> 8 \<le> n \<and> i2c_size s = 2 ^ n \<and> int (length (i2c_memory s)) = 2 ^ n \<and>
     addressbitmask s = 2 ^ (n - 8) - 1 \<and> 0 \<le> eeprom_addr s \<and> eeprom_addr s < 2 ^ n \<and>
     write_offset s < 2 ^ n \<and> read_func s = None \<and> write_func s = None"

lemma two_pow_pos: "(0 :: int) < 2 ^ n" "- 1 < (2 :: int) ^ n"
proof -
  show "(0 :: int) < 2 ^ n" by simp
  then show "- 1 < (2 :: int) ^ n" by linarith
qed

lemma two_pow_ge: "k \<le> n \<Longrightarrow> (2 :: int) ^ k \<le> 2 ^ n"
  by simp

lemma eeprom_new_inv:
  "8 \<le> n \<Longrightarrow> int (length mem) = 2 ^ n \<Longrightarrow> i2c_inv n (eeprom_new mem (2 ^ n) zf d)"
  by (simp add: i2c_inv_def eeprom_new_def eeprom_reset_def i2c_zero_def power_diff two_pow_pos)

lemma int_mask_and: "(x :: int) AND (2 ^ k - 1) = x mod 2 ^ k"
  by (simp add: take_bit_eq_mask mask_eq_exp_minus_1 flip: take_bit_eq_mod)

lemma int_or_bound: "0 \<le> x \<Longrightarrow> x < 2 ^ n \<Longrightarrow> 0 \<le> y \<Longrightarrow> y < 2 ^ n \<Longrightarrow> 0 \<le> x OR y \<and> x OR y < (2 ^ n :: int)"
  by (simp add: OR_upper)

lemma uint8_bound: "8 \<le> n \<Longrightarrow> uint (w :: u8) < 2 ^ n"
  using uint_bounded [of w] two_pow_ge [of 8 n] by simp

lemma device_page_bound:
  assumes "8 \<le> n"
  shows "0 \<le> push_bit 8 (x AND (2 ^ (n - 8) - 1)) \<and> push_bit 8 (x AND (2 ^ (n - 8) - 1)) < (2 ^ n :: int)"
proof -
  have "(2 ^ n :: int) = 2 ^ (n - 8) * 2 ^ 8"
    unfolding power_add [symmetric] using assms by simp
  moreover have "0 \<le> x mod 2 ^ (n - 8)" "x mod 2 ^ (n - 8) < 2 ^ (n - 8)" by simp_all
  ultimately show ?thesis
    by (simp add: int_mask_and push_bit_eq_mult)
qed

lemma word_addr_bound:
  assumes "8 \<le> n" "0 \<le> a" "a < 2 ^ n"
  shows "0 \<le> (a AND m) OR uint (w :: u8) \<and> (a AND m) OR uint w < (2 ^ n :: int)"
proof -
  have "0 \<le> a AND m" "a AND m \<le> a" using assms by (simp_all add: AND_upper1)
  then show ?thesis
    using assms uint8_bound [of n w] int_or_bound [of "a AND m" n "uint w"] by simp
qed

lemma page_wrap_bound:
  assumes "8 \<le> n" "0 \<le> a" "a < 2 ^ n"
  shows "0 \<le> (a AND NOT 15) OR ((a + 1) AND 15) \<and> (a AND NOT 15) OR ((a + 1) AND 15) < (2 ^ n :: int)"
proof -
  have "0 \<le> a AND NOT 15" "a AND NOT 15 \<le> a" using assms by (simp_all add: AND_upper1)
  moreover have "0 \<le> (a + 1) AND 15" "(a + 1) AND 15 < 2 ^ n"
    using assms(1) two_pow_ge [of 4 n] int_mask_and [of "a + 1" 4] by simp_all
  ultimately show ?thesis
    using assms(3) by (intro int_or_bound) simp_all
qed

lemma i2c_ret_inv [simp]: "i2c_inv n (snd (bitbang_i2c_ret s v)) = i2c_inv n s"
  by (simp add: bitbang_i2c_ret_def i2c_inv_def)

lemma i2c_nop_inv [simp]: "i2c_inv n (snd (bitbang_i2c_nop s)) = i2c_inv n s"
  by (simp add: bitbang_i2c_nop_def)


lemma nvram_write_inv:
  assumes "i2c_inv n s" "0 \<le> off" "off + len \<le> 2 ^ n"
  shows "\<exists>t. nvram_write s off len = Some t \<and> i2c_inv n t \<and> write_offset t = write_offset s \<and> i2c_size t = i2c_size s"
  using assms by (auto simp: nvram_write_def i2c_inv_def split: option.splits)

lemma enter_stop_inv:
  assumes "i2c_inv n s"
  shows "\<exists>t. bitbang_i2c_enter_stop s = Some t \<and> i2c_inv n t"
proof -
  have fin: "i2c_inv n t \<Longrightarrow> i2c_inv n (t\<lparr>write_offset := -1, current_addr := -1, i2c_state := STOPPED,
           estate := I2C_DEVICEADDR\<rparr>)" for t :: "'a i2c"
    by (auto simp: i2c_inv_def intro: order.strict_trans1 [of _ 0])
  show ?thesis
  proof (cases "write_offset s \<ge> 0")
    case True
    define len where "len = min (i2c_size s - write_offset s) 16"
    have sz: "i2c_size s = 2 ^ n" "write_offset s < 2 ^ n" "16 \<le> (2::int) ^ n"
      using assms power_increasing [of 4 n "2 :: int"] by (auto simp: i2c_inv_def)
    have "write_offset s + len \<le> 2 ^ n" "0 < len" using sz by (auto simp: len_def)
    then obtain t where t: "nvram_write s (write_offset s) len = Some t" "i2c_inv n t"
      using nvram_write_inv [OF assms True] by blast
    have "0 + (16 - len) \<le> 2 ^ n" using sz by (auto simp: len_def)
    then obtain u where u: "nvram_write t 0 (16 - len) = Some u" "i2c_inv n u"
      using nvram_write_inv [OF t(2), of 0 "16 - len"] by auto
    show ?thesis
      unfolding bitbang_i2c_enter_stop_def Let_def len_def [symmetric]
      using True \<open>0 < len\<close> t u fin by simp
  next
    case False
    then show ?thesis using assms fin by (simp add: bitbang_i2c_enter_stop_def)
  qed
qed

lemma i2c_store_inv:
  assumes "i2c_inv n s"
  shows "\<exists>t. i2c_store s = Some t \<and> i2c_inv n t"
  using assms page_wrap_bound [of n "eeprom_addr s"]
  by (auto simp: i2c_store_def i2c_inv_def Let_def)

lemma i2c_fetch_inv:
  assumes "i2c_inv n s"
  shows "\<exists>t. i2c_fetch s = Some t \<and> i2c_inv n t"
  using assms
  by (auto simp: i2c_fetch_def i2c_inv_def Let_def int_mask_and)

lemma i2c_ack_done_inv [simp]: "i2c_inv n (snd (i2c_ack_done s)) = i2c_inv n s"
  by (simp add: i2c_ack_done_def i2c_inv_def bitbang_i2c_ret_def)

lemma i2c_ack_inv:
  assumes "i2c_inv n s"
  shows "\<exists>r. i2c_ack s = Some r \<and> i2c_inv n (snd r)"
proof (cases "estate s")
  case I2C_DEVICEADDR
  have "i2c_inv n (s\<lparr>current_addr := c, estate := e, eeprom_addr := push_bit 8 (x AND addressbitmask s)\<rparr>)" for c e x
    using assms device_page_bound [of n x] by (simp add: i2c_inv_def)
  moreover have "i2c_inv n (s\<lparr>current_addr := c, estate := e\<rparr>)" "i2c_inv n (s\<lparr>current_addr := c, i2c_state := x\<rparr>)" for c e x
    using assms by (simp_all add: i2c_inv_def)
  ultimately show ?thesis
    using I2C_DEVICEADDR by (simp add: i2c_ack_def Let_def del: ex_simps split_paired_Ex)
next
  case I2C_WORDADDR
  have "i2c_inv n (s\<lparr>estate := I2C_DATA, eeprom_addr := (eeprom_addr s AND m) OR uint (i2c_buffer s)\<rparr>)" for m
    using assms word_addr_bound [of n "eeprom_addr s"] by (simp add: i2c_inv_def)
  then show ?thesis
    using I2C_WORDADDR by (simp add: i2c_ack_def del: split_paired_Ex)
next
  case I2C_DATA
  obtain t where "i2c_store s = Some t" "i2c_inv n t"
    using i2c_store_inv [OF assms] by blast
  then show ?thesis
    using I2C_DATA assms by (simp add: i2c_ack_def del: split_paired_Ex)
qed

lemma i2c_clock_rise_inv:
  assumes "i2c_inv n s"
  shows "\<exists>r. i2c_clock_rise s = Some r \<and> i2c_inv n (snd r)"
proof -
  have keep: "i2c_inv n t \<Longrightarrow> i2c_inv n (t\<lparr>i2c_state := x\<rparr>)" "i2c_inv n t \<Longrightarrow> i2c_inv n (t\<lparr>i2c_buffer := b\<rparr>)"
    for t x b
    by (simp_all add: i2c_inv_def)
  have shift: "i2c_inv n t \<Longrightarrow> i2c_inv n (snd (i2c_shift_out t))" for t
    by (simp add: i2c_shift_out_def keep)
  show ?thesis
    using assms i2c_ack_inv [OF assms] i2c_fetch_inv [OF assms] shift
    by (auto simp: i2c_clock_rise_def keep simp del: split_paired_Ex)
qed

lemma eeprom_i2c_set_inv:
  assumes "i2c_inv n s"
  shows "\<exists>r. eeprom_i2c_set s line level = Some r \<and> i2c_inv n (snd r)"
proof -
  have keep: "i2c_inv n (t\<lparr>last_data := x\<rparr>) = i2c_inv n t" "i2c_inv n (t\<lparr>last_clock := x\<rparr>) = i2c_inv n t"
     "i2c_inv n (t\<lparr>i2c_state := y\<rparr>) = i2c_inv n t" "i2c_inv n (t\<lparr>current_addr := x\<rparr>) = i2c_inv n t"
    for t x y
    by (simp_all add: i2c_inv_def)
  show ?thesis
    using assms enter_stop_inv [of n "s\<lparr>last_data := level\<rparr>"] i2c_clock_rise_inv [of n "s\<lparr>last_clock := level\<rparr>"]
    by (auto simp: eeprom_i2c_set_def Let_def keep simp del: split_paired_Ex)
qed

interpretation i2c_bus: safe_machine i2c_event "i2c_inv n" for n
proof unfold_locales
  fix s :: "'a i2c" and ev
  assume "i2c_inv n s"
  then obtain r where "eeprom_i2c_set s (if fst ev then BITBANG_I2C_SCL else BITBANG_I2C_SDA)
      (of_bool (snd ev)) = Some r" "i2c_inv n (snd r)"
    using eeprom_i2c_set_inv by blast
  then show "\<exists>t. i2c_event s ev = Some t \<and> i2c_inv n t"
    by (simp add: i2c_event_def)
qed

text \<open>C30: on an EEPROM of \<open>2 ^ n\<close> bytes (at least 256) no sequence of levels on the two lines,
  well-formed or not, makes the device access memory outside its array or fall out of its
  state machine.\<close>

theorem i2c_traffic_safe:
  assumes "8 \<le> n" "int (length mem) = 2 ^ n"
  shows "\<exists>t. run_checked i2c_event (eeprom_new mem (2 ^ n) zf d) evs = Some t \<and>
    length (i2c_memory t) = length mem \<and> 0 \<le> eeprom_addr t \<and> eeprom_addr t < 2 ^ n"
proof -
  obtain t where "run_checked i2c_event (eeprom_new mem (2 ^ n) zf d) evs = Some t" "i2c_inv n t"
    using i2c_bus.run_safe [OF eeprom_new_inv [OF assms, of zf d], of evs] by blast
  then show ?thesis using assms by (auto simp: i2c_inv_def)
qed

lemma i2c_traffic_safe_witness:
  "\<exists>t. run_checked i2c_event (eeprom_new (replicate 256 0xff) 256 (Some []) ())
     [(True, False), (False, False), (True, True), (False, True)] = Some t \<and>
     length (i2c_memory t) = 256"
  using i2c_traffic_safe [of 8 "replicate 256 0xff" "Some []" "()"
      "[(True, False), (False, False), (True, True), (False, True)]"]
  by auto

section \<open>Transactions\<close>

text \<open>
  What a bus master sends: one bit (data set while the clock is low, then a clock pulse), a
  byte with its acknowledge clock, the start and the stop condition.
\<close>

definition i2c_bit :: "bool \<Rightarrow> (bool \<times> bool) list" where
  "i2c_bit b = [(False, b), (True, True), (True, False)]"

definition i2c_byte :: "u8 \<Rightarrow> (bool \<times> bool) list" where
  "i2c_byte b = concat (map i2c_bit (msb_bits 8 b)) @ i2c_bit True"

definition i2c_start :: "(bool \<times> bool) list" where
  "i2c_start = [(False, True), (True, True), (False, False), (True, False)]"

definition i2c_stop :: "(bool \<times> bool) list" where
  "i2c_stop = [(False, False), (True, True), (False, True)]"

lemma i2c_event_data_low:
  "last_clock s = 0 \<Longrightarrow> i2c_event s (False, b) = Some (s\<lparr>last_data := of_bool b\<rparr>)"
  by (simp add: i2c_event_def eeprom_i2c_set_def BITBANG_I2C_SDA_def BITBANG_I2C_SCL_def
      bitbang_i2c_nop_def bitbang_i2c_ret_def)

lemma i2c_event_clock_rise:
  "last_clock s = 0 \<Longrightarrow> i2c_event s (True, True) = map_option snd (i2c_clock_rise (s\<lparr>last_clock := 1\<rparr>))"
  by (simp add: i2c_event_def eeprom_i2c_set_def BITBANG_I2C_SDA_def BITBANG_I2C_SCL_def)

lemma i2c_event_clock_fall:
  "last_clock s = 1 \<Longrightarrow> i2c_event s (True, False) = Some (s\<lparr>last_clock := 0, device_out := 1\<rparr>)"
  by (simp add: i2c_event_def eeprom_i2c_set_def BITBANG_I2C_SDA_def BITBANG_I2C_SCL_def
      bitbang_i2c_ret_def)

lemmas i2c_events = i2c_event_data_low i2c_event_clock_rise i2c_event_clock_fall

definition i2c_sending :: "bitbang_i2c_state \<Rightarrow> bool" where
  "i2c_sending st \<longleftrightarrow> st \<in> {SENDING_BIT7, SENDING_BIT6, SENDING_BIT5, SENDING_BIT4,
                SENDING_BIT3, SENDING_BIT2, SENDING_BIT1, SENDING_BIT0}"

lemma run_send_bit:
  assumes "last_clock s = 0" "i2c_sending (i2c_state s)"
  shows "run_checked i2c_event s (i2c_bit b) = Some (s\<lparr>last_data := of_bool b, device_out := 1,
    i2c_buffer := push_bit 1 (i2c_buffer s) OR of_bool b, i2c_state := i2c_next (i2c_state s)\<rparr>)"
  using assms
  by (auto simp: i2c_bit_def i2c_events i2c_clock_rise_def i2c_sending_def bitbang_i2c_ret_def)

lemma shift_in_eight:
  fixes w :: u8
  defines "f \<equiv> \<lambda>v b. push_bit 1 v OR of_bool b"
  shows "foldl f w (msb_bits 8 b) = b"
proof (rule bit_word_eqI)
  fix n assume "n < LENGTH(8)"
  then have "n \<in> {0,1,2,3,4,5,6,7}" by auto
  then show "bit (foldl f w (msb_bits 8 b)) n = bit b n"
    by (auto simp: numeral_nat f_def bit_simps simp del: push_bit_Suc)
qed

lemma run_send_eight:
  assumes "last_clock s = 0" "i2c_state s = SENDING_BIT7"
  shows "run_checked i2c_event s (concat (map i2c_bit (msb_bits 8 b))) =
    Some (s\<lparr>last_data := of_bool (bit b 0), device_out := 1, i2c_buffer := b, i2c_state := WAITING_FOR_ACK\<rparr>)"
  using assms shift_in_eight [of "i2c_buffer s" b]
  by (simp add: numeral_eq_Suc run_checked_append run_send_bit i2c_sending_def del: push_bit_Suc)


text \<open>Between two bytes the clock is low and the device waits for the first bit.\<close>

definition i2c_ready :: "'d i2c \<Rightarrow> bool" where
  "i2c_ready s \<longleftrightarrow> last_clock s = 0 \<and> i2c_state s = SENDING_BIT7"

lemma run_byte:
  assumes "i2c_ready s"
  shows "run_checked i2c_event s (i2c_byte b) =
    (case i2c_ack (s\<lparr>device_out := 1, i2c_buffer := b, i2c_state := WAITING_FOR_ACK,
                     last_data := 1, last_clock := 1\<rparr>) of
       None \<Rightarrow> None | Some r \<Rightarrow> i2c_event (snd r) (True, False))"
  using assms
  by (simp add: i2c_byte_def i2c_ready_def run_checked_append run_send_eight del: msb_bits_Suc)
     (simp add: i2c_bit_def i2c_events i2c_clock_rise_def split: option.splits)

lemma run_device_write:
  assumes "i2c_ready s" "estate s = I2C_DEVICEADDR" "uint b AND uint (device_address_mask s) = uint (device_address s)"
    "uint b AND 1 = 0"
  shows "run_checked i2c_event s (i2c_byte b) = Some (s\<lparr>last_data := 1, last_clock := 0, device_out := 1,
    i2c_buffer := b, i2c_state := SENDING_BIT7, current_addr := uint b, estate := I2C_WORDADDR,
    eeprom_addr := push_bit 8 (uint (drop_bit 1 b) AND addressbitmask s)\<rparr>)"
  using assms by (simp add: run_byte i2c_ack_def i2c_ack_done_def bitbang_i2c_ret_def i2c_events Let_def)

lemma run_word_address:
  assumes "i2c_ready s" "estate s = I2C_WORDADDR" "current_addr s AND 1 = 0"
  shows "run_checked i2c_event s (i2c_byte b) = Some (s\<lparr>last_data := 1, last_clock := 0, device_out := 1,
    i2c_buffer := b, i2c_state := SENDING_BIT7, estate := I2C_DATA,
    eeprom_addr := (eeprom_addr s AND push_bit 8 (addressbitmask s)) OR uint b\<rparr>)"
  using assms by (simp add: run_byte i2c_ack_def i2c_ack_done_def bitbang_i2c_ret_def i2c_events Let_def)

lemma run_data:
  assumes "i2c_ready s" "estate s = I2C_DATA" "current_addr s AND 1 = 0" "write_func s = None"
    "0 \<le> eeprom_addr s" "eeprom_addr s < int (length (i2c_memory s))"
  shows "run_checked i2c_event s (i2c_byte b) = Some (s\<lparr>last_data := 1, last_clock := 0, device_out := 1,
    i2c_buffer := b, i2c_state := SENDING_BIT7,
    write_offset := (if write_offset s < 0 then eeprom_addr s else write_offset s),
    i2c_memory := (i2c_memory s)[nat (eeprom_addr s) := b],
    eeprom_addr := (eeprom_addr s AND NOT 15) OR ((eeprom_addr s + 1) AND 15)\<rparr>)"
  using assms by (simp add: run_byte i2c_ack_def i2c_store_def i2c_ack_done_def bitbang_i2c_ret_def i2c_events Let_def)

lemma run_turn_around:
  assumes "i2c_ready s" "estate s = I2C_DATA" "current_addr s AND 1 \<noteq> 0"
  shows "run_checked i2c_event s (i2c_byte b) = Some (s\<lparr>last_data := 1, last_clock := 0, device_out := 1,
    i2c_buffer := b, i2c_state := RECEIVING_BIT7\<rparr>)"
  using assms by (simp add: run_byte i2c_ack_def i2c_ack_done_def bitbang_i2c_ret_def i2c_events Let_def)

text \<open>The start condition, on an idle bus and repeated; the stop condition.\<close>

definition i2c_idle :: "'d i2c \<Rightarrow> bool" where
  "i2c_idle s \<longleftrightarrow> last_clock s = 1 \<and> last_data s = 1 \<and> i2c_state s = STOPPED \<and> estate s = I2C_DEVICEADDR \<and>
     write_offset s = -1"

lemma run_start_idle:
  assumes "i2c_idle s"
  shows "run_checked i2c_event s i2c_start = Some (s\<lparr>last_data := 0, last_clock := 0, device_out := 1,
    i2c_state := SENDING_BIT7, current_addr := -1\<rparr>)"
  using assms
  by (simp add: i2c_idle_def i2c_start_def i2c_event_def eeprom_i2c_set_def BITBANG_I2C_SDA_def
      BITBANG_I2C_SCL_def bitbang_i2c_nop_def bitbang_i2c_ret_def Let_def)

lemma run_start_repeated:
  assumes "i2c_ready s"
  shows "run_checked i2c_event s i2c_start = Some (s\<lparr>last_data := 0, last_clock := 0, device_out := 1,
    i2c_buffer := push_bit 1 (i2c_buffer s) OR 1, i2c_state := SENDING_BIT7, current_addr := -1\<rparr>)"
  using assms
  by (simp add: i2c_ready_def i2c_start_def i2c_event_def eeprom_i2c_set_def BITBANG_I2C_SDA_def
      BITBANG_I2C_SCL_def bitbang_i2c_nop_def bitbang_i2c_ret_def i2c_clock_rise_def Let_def)

lemma run_stop:
  assumes "i2c_ready s"
  shows "run_checked i2c_event s i2c_stop = map_option (\<lambda>s. s\<lparr>device_out := 1\<rparr>) (bitbang_i2c_enter_stop (s\<lparr>last_clock := 1, i2c_buffer := push_bit 1 (i2c_buffer s),
    i2c_state := SENDING_BIT6, device_out := 1, last_data := 1\<rparr>))"
  using assms
  by (simp add: i2c_ready_def i2c_stop_def i2c_event_def eeprom_i2c_set_def BITBANG_I2C_SDA_def
      BITBANG_I2C_SCL_def bitbang_i2c_nop_def bitbang_i2c_ret_def i2c_clock_rise_def Let_def comp_def split: option.splits)


subsection \<open>Page writes\<close>

text \<open>The specification: bytes go to successive addresses of the 16-byte page, wrapping inside it.\<close>

definition page_next :: "nat \<Rightarrow> nat" where
  "page_next a = 16 * (a div 16) + (a + 1) mod 16"

fun page_write :: "u8 list \<Rightarrow> nat \<Rightarrow> u8 list \<Rightarrow> u8 list" where
  "page_write m a [] = m"
| "page_write m a (b # bs) = page_write (m[a := b]) (page_next a) bs"

lemma page_next_code: "(int a AND NOT 15) OR ((int a + 1) AND 15) = int (page_next a)"
proof -
  have m: "x AND 15 = x mod 16" for x :: int
    using int_mask_and [of x 4] by simp
  have "int a AND NOT 15 = 16 * (int a div 16)"
  proof -
    have "int a AND NOT (mask 4) = push_bit 4 (drop_bit 4 (int a))"
      by (rule bit_eqI) (auto simp: bit_simps)
    then show ?thesis by (simp add: mask_eq_exp_minus_1 push_bit_eq_mult drop_bit_eq_div)
  qed
  moreover have "16 * (int a div 16) OR ((int a + 1) mod 16) = 16 * (int a div 16) + (int a + 1) mod 16"
  proof -
    have "push_bit 4 x OR take_bit 4 y = push_bit 4 x + take_bit 4 y" for x y :: int
      by (rule disjunctive_add [symmetric]) (auto simp: bit_simps)
    from this [of "int a div 16" "int a + 1"] show ?thesis
      by (simp add: push_bit_eq_mult take_bit_eq_mod mult.commute)
  qed
  ultimately show ?thesis
    unfolding m page_next_def by (simp add: zmod_int zdiv_int add.commute)
qed

lemma length_page_write [simp]: "length (page_write m a bs) = length m"
  by (induction m a bs rule: page_write.induct) simp_all

text \<open>A run that stays in the page is a plain block write.\<close>

lemma page_next_inside: "a mod 16 + 1 < 16 \<Longrightarrow> page_next a = Suc a"
  using mult_div_mod_eq [of 16 a] by (simp add: page_next_def mod_Suc)

lemma page_write_block:
  assumes "a mod 16 + length bs \<le> 16" "a + length bs \<le> length m"
  shows "page_write m a bs = take a m @ bs @ drop (a + length bs) m"
  using assms
proof (induction bs arbitrary: m a)
  case (Cons b bs)
  have a: "a < length m" using Cons.prems by simp
  show ?case
  proof (cases bs)
    case Nil
    then show ?thesis using a by (simp add: upd_conv_take_nth_drop)
  next
    case (Cons c cs)
    then have n: "page_next a = Suc a" using Cons.prems by (simp add: page_next_inside)
    have "Suc a mod 16 + length bs \<le> 16" using Cons.prems Cons by (simp add: mod_Suc)
    then have "page_write (m[a := b]) (Suc a) bs = take (Suc a) (m[a := b]) @ bs @ drop (Suc a + length bs) (m[a := b])"
      using Cons.IH [of "Suc a" "m[a := b]"] Cons.prems by simp
    then show ?thesis using n a by (simp add: take_Suc_conv_app_nth)
  qed
qed simp

lemmas page_next_simps = page_next_code page_next_code [simplified]

text \<open>A part of at most 2048 bytes, as the CD32 and the Oktagon have, answering at \<open>1010ppp\<close>.\<close>

definition i2c_24cxx :: "nat \<Rightarrow> 'd i2c \<Rightarrow> bool" where
  "i2c_24cxx n s \<longleftrightarrow> i2c_inv n s \<and> n \<le> 11 \<and> device_address s = 0xa0 \<and> device_address_mask s = 0xf0"

definition i2c_writing :: "nat \<Rightarrow> 'd i2c \<Rightarrow> bool" where
  "i2c_writing n s \<longleftrightarrow> i2c_24cxx n s \<and> i2c_ready s \<and> estate s = I2C_DATA \<and> current_addr s AND 1 = 0"

lemma run_data_bytes:
  assumes "i2c_writing n s" "eeprom_addr s = int a" "write_offset s \<ge> 0"
  shows "\<exists>t. run_checked i2c_event s (concat (map i2c_byte bs)) = Some t \<and> i2c_writing n t \<and>
    write_offset t = write_offset s \<and> i2c_memory t = page_write (i2c_memory s) a bs \<and> i2c_zf t = i2c_zf s"
  using assms
proof (induction bs arbitrary: s a)
  case (Cons b bs)
  define t where "t = s\<lparr>last_data := 1, last_clock := 0, device_out := 1,
    i2c_buffer := b, i2c_state := SENDING_BIT7, write_offset := write_offset s,
    i2c_memory := (i2c_memory s)[a := b], eeprom_addr := int (page_next a)\<rparr>"
  have st: "run_checked i2c_event s (i2c_byte b) = Some t"
    unfolding t_def using Cons.prems
    by (subst run_data) (auto simp: i2c_writing_def i2c_24cxx_def i2c_inv_def page_next_simps)
  have "i2c_writing n t"
    using Cons.prems page_wrap_bound [of n "int a"]
    by (auto simp: t_def i2c_writing_def i2c_24cxx_def i2c_ready_def i2c_inv_def page_next_simps)
  from Cons.IH [OF this, of "page_next a"] Cons.prems st show ?case
    by (simp add: run_checked_append t_def)
qed simp

lemma run_data_first:
  assumes "i2c_writing n s" "eeprom_addr s = int a" "write_offset s < 0" "bs \<noteq> []"
  shows "\<exists>t. run_checked i2c_event s (concat (map i2c_byte bs)) = Some t \<and> i2c_writing n t \<and>
    write_offset t = int a \<and> i2c_memory t = page_write (i2c_memory s) a bs \<and> i2c_zf t = i2c_zf s"
proof -
  obtain b cs where bs: "bs = b # cs" using assms(4) by (cases bs) auto
  define t where "t = s\<lparr>last_data := 1, last_clock := 0, device_out := 1,
    i2c_buffer := b, i2c_state := SENDING_BIT7, write_offset := int a,
    i2c_memory := (i2c_memory s)[a := b], eeprom_addr := int (page_next a)\<rparr>"
  have st: "run_checked i2c_event s (i2c_byte b) = Some t"
    unfolding t_def using assms
    by (subst run_data) (auto simp: i2c_writing_def i2c_24cxx_def i2c_inv_def page_next_simps)
  have "i2c_writing n t"
    using assms page_wrap_bound [of n "int a"]
    by (auto simp: t_def i2c_writing_def i2c_24cxx_def i2c_ready_def i2c_inv_def page_next_simps)
  from run_data_bytes [OF this, of "page_next a" cs] assms st bs show ?thesis
    by (simp add: run_checked_append t_def)
qed


text \<open>The address phase: device address with the page bits, then the low byte.\<close>

definition device_byte :: "nat \<Rightarrow> u8" where
  "device_byte a = 0xa0 OR push_bit 1 (of_nat (a div 256))"

definition i2c_address :: "nat \<Rightarrow> (bool \<times> bool) list" where
  "i2c_address a = i2c_start @ i2c_byte (device_byte a) @ i2c_byte (of_nat a)"

lemma address_bytes:
  assumes "8 \<le> n" "n \<le> 11" "a < 2 ^ n"
  shows "uint (device_byte a) AND 0xf0 = 0xa0" "uint (device_byte a) AND 1 = 0"
    "(push_bit 8 (uint (drop_bit 1 (device_byte a)) AND (2 ^ (n - 8) - 1)) AND
       push_bit 8 (2 ^ (n - 8) - 1)) OR uint (of_nat a :: u8) = int a"
proof -
  define p where "p = a div 256"
  have n: "(2 :: nat) ^ n = 2 ^ (n - 8) * 256"
    using assms(1) power_add [of "2 :: nat" "n - 8" 8] by simp
  have p: "p < 2 ^ (n - 8)" using assms(3) by (simp add: p_def n less_mult_imp_div_less)
  have "(2 :: nat) ^ (n - 8) \<le> 2 ^ 3" using assms by (intro power_increasing) auto
  then have "p < 8" using p by simp
  then have "p \<in> {0,1,2,3,4,5,6,7}" by auto
  then have b: "uint (device_byte a) AND 0xf0 = 0xa0 \<and> uint (device_byte a) AND 1 = 0 \<and>
      uint (drop_bit 1 (device_byte a)) mod 8 = int p"
    by (elim insertE emptyE) (simp_all add: device_byte_def flip: p_def)
  then show "uint (device_byte a) AND 0xf0 = 0xa0" "uint (device_byte a) AND 1 = 0" by auto
  have "int p = uint (drop_bit 1 (device_byte a)) mod 2 ^ (n - 8)"
  proof -
    have "(2 :: int) ^ (n - 8) dvd 8"
      using assms le_imp_power_dvd [of "n - 8" 3 "2 :: int"] by simp
    then have "uint (drop_bit 1 (device_byte a)) mod 2 ^ (n - 8) = int p mod 2 ^ (n - 8)"
      using b by (metis mod_mod_cancel)
    then show ?thesis using p by (simp add: mod_pos_pos_trivial)
  qed
  then have pg: "uint (drop_bit 1 (device_byte a)) AND (2 ^ (n - 8) - 1) = int p"
    by (simp add: int_mask_and)
  have "push_bit 8 (int p) AND push_bit 8 (2 ^ (n - 8) - 1) = push_bit 8 (int p)"
    using p by (simp add: int_mask_and flip: push_bit_and)
  moreover have "push_bit 8 (int p) OR take_bit 8 (int a) = push_bit 8 (int p) + take_bit 8 (int a)"
    by (rule disjunctive_add [symmetric]) (auto simp: bit_simps)
  moreover have "uint (of_nat a :: u8) = take_bit 8 (int a)"
    by (simp add: unsigned_of_nat flip: take_bit_of_nat)
  ultimately show "(push_bit 8 (uint (drop_bit 1 (device_byte a)) AND (2 ^ (n - 8) - 1)) AND
       push_bit 8 (2 ^ (n - 8) - 1)) OR uint (of_nat a :: u8) = int a"
    unfolding pg by (simp add: push_bit_eq_mult take_bit_eq_mod p_def zdiv_int)
qed

lemma run_address:
  assumes "i2c_24cxx n s" "i2c_idle s" "a < 2 ^ n"
  shows "\<exists>t. run_checked i2c_event s (i2c_address a) = Some t \<and> i2c_writing n t \<and> eeprom_addr t = int a \<and>
    write_offset t < 0 \<and> i2c_memory t = i2c_memory s \<and> i2c_zf t = i2c_zf s"
proof -
  have n: "8 \<le> n" "n \<le> 11" and m: "addressbitmask s = 2 ^ (n - 8) - 1"
    and d: "device_address s = 0xa0" "device_address_mask s = 0xf0"
    using assms by (auto simp: i2c_24cxx_def i2c_inv_def)
  note b = address_bytes [OF n assms(3)]
  define t where "t = s\<lparr>last_data := 1, last_clock := 0, device_out := 1,
     current_addr := uint (device_byte a), i2c_buffer := of_nat a, i2c_state := SENDING_BIT7,
     estate := I2C_DATA, eeprom_addr := int a\<rparr>"
  have "run_checked i2c_event s (i2c_address a) = Some t"
    using assms(2) b
    by (simp add: i2c_address_def run_checked_append run_start_idle run_device_write run_word_address
        i2c_ready_def i2c_idle_def d m t_def)
  moreover have "i2c_writing n t"
    using assms b by (auto simp: i2c_writing_def i2c_24cxx_def i2c_inv_def i2c_ready_def t_def)
  ultimately show ?thesis
    using assms(2) by (auto simp: t_def i2c_idle_def)
qed


subsection \<open>The backing file\<close>

text \<open>The file after the requested writes.\<close>

definition i2c_file :: "u8 list \<Rightarrow> (int \<times> u8 list) list \<Rightarrow> u8 list" where
  "i2c_file f log = foldl overlay f log"

lemma stop_log:
  assumes "i2c_inv n s" "write_offset s = int a" "i2c_zf s = Some log"
  shows "\<exists>t. bitbang_i2c_enter_stop s = Some t \<and> i2c_memory t = i2c_memory s \<and>
     i2c_inv n t \<and> i2c_state t = STOPPED \<and> estate t = I2C_DEVICEADDR \<and> write_offset t = -1 \<and>
     last_clock t = last_clock s \<and> last_data t = last_data s \<and>
     device_address t = device_address s \<and> device_address_mask t = device_address_mask s \<and>
     i2c_zf t = Some (log @ (int a, take 16 (drop a (i2c_memory s))) #
       (if length (i2c_memory s) < a + 16 then [(0, take (a + 16 - length (i2c_memory s)) (i2c_memory s))] else []))"
proof -
  define L where "L = length (i2c_memory s)"
  have sz: "i2c_size s = int L" "a < L"
    using assms by (simp_all add: i2c_inv_def L_def) 
  have "(16 :: int) \<le> 2 ^ n"
    using assms power_increasing [of 4 n "2 :: int"] by (auto simp: i2c_inv_def)
  moreover have "int L = 2 ^ n" using assms(1) unfolding i2c_inv_def L_def by blast
  ultimately have "16 \<le> L" by linarith
  obtain t where t: "bitbang_i2c_enter_stop s = Some t" "i2c_inv n t"
    using enter_stop_inv [OF assms(1)] by blast
  have len: "min (int L - int a) 16 = (if L < a + 16 then int (L - a) else 16)"
    using sz by auto
  have "i2c_memory t = i2c_memory s \<and> i2c_state t = STOPPED \<and> estate t = I2C_DEVICEADDR \<and> write_offset t = -1 \<and>
     last_clock t = last_clock s \<and> last_data t = last_data s \<and>
     device_address t = device_address s \<and> device_address_mask t = device_address_mask s \<and>
     i2c_zf t = Some (log @ (int a, take 16 (drop a (i2c_memory s))) #
       (if L < a + 16 then [(0, take (a + 16 - L) (i2c_memory s))] else []))"
    using t(1) assms(2,3) sz \<open>16 \<le> L\<close>
    unfolding bitbang_i2c_enter_stop_def Let_def sz(1) assms(2) len
    by (auto simp: nvram_write_def L_def [symmetric] nat_diff_distrib add.commute split: if_splits)
  then show ?thesis using t by (auto simp: L_def)
qed


lemma run_stop_log:
  assumes "i2c_writing n s" "write_offset s = int a" "i2c_zf s = Some log"
  shows "\<exists>t. run_checked i2c_event s i2c_stop = Some t \<and> i2c_memory t = i2c_memory s \<and>
     i2c_24cxx n t \<and> i2c_idle t \<and>
     i2c_zf t = Some (log @ (int a, take 16 (drop a (i2c_memory s))) #
       (if length (i2c_memory s) < a + 16 then [(0, take (a + 16 - length (i2c_memory s)) (i2c_memory s))] else []))"
proof -
  define u where "u = s\<lparr>last_clock := 1, i2c_buffer := push_bit 1 (i2c_buffer s),
    i2c_state := SENDING_BIT6, device_out := 1, last_data := 1\<rparr>"
  have u: "i2c_inv n u" "write_offset u = int a" "i2c_zf u = Some log" "i2c_memory u = i2c_memory s"
    using assms by (simp_all add: u_def i2c_writing_def i2c_24cxx_def i2c_inv_def)
  obtain t where t: "bitbang_i2c_enter_stop u = Some t" "i2c_memory t = i2c_memory s"
     "i2c_inv n t" "i2c_state t = STOPPED" "estate t = I2C_DEVICEADDR" "write_offset t = -1"
     "last_clock t = last_clock u" "last_data t = last_data u"
     "device_address t = device_address u" "device_address_mask t = device_address_mask u"
     "i2c_zf t = Some (log @ (int a, take 16 (drop a (i2c_memory s))) #
       (if length (i2c_memory s) < a + 16 then [(0, take (a + 16 - length (i2c_memory s)) (i2c_memory s))] else []))"
    using stop_log [OF u(1-3)] unfolding u(4) by blast
  have r: "i2c_ready s" using assms by (simp add: i2c_writing_def)
  show ?thesis
    using t assms run_stop [OF r] unfolding u_def [symmetric]
    by (auto simp: i2c_24cxx_def i2c_inv_def i2c_idle_def i2c_writing_def u_def)
qed

definition i2c_page_write :: "nat \<Rightarrow> u8 list \<Rightarrow> (bool \<times> bool) list" where
  "i2c_page_write a bs = i2c_address a @ concat (map i2c_byte bs) @ i2c_stop"

lemma run_page_write:
  assumes "i2c_24cxx n s" "i2c_idle s" "a < 2 ^ n" "bs \<noteq> []" "i2c_zf s = Some log"
  shows "\<exists>t. run_checked i2c_event s (i2c_page_write a bs) = Some t \<and> i2c_24cxx n t \<and> i2c_idle t \<and>
    i2c_memory t = page_write (i2c_memory s) a bs \<and>
     i2c_zf t = Some (log @ (int a, take 16 (drop a (i2c_memory t))) #
       (if length (i2c_memory s) < a + 16 then [(0, take (a + 16 - length (i2c_memory s)) (i2c_memory t))] else []))"
proof -
  obtain t1 where t1: "run_checked i2c_event s (i2c_address a) = Some t1" "i2c_writing n t1"
      "eeprom_addr t1 = int a" "write_offset t1 < 0" "i2c_memory t1 = i2c_memory s" "i2c_zf t1 = Some log"
    using run_address [OF assms(1-3)] assms(5) by auto
  obtain t2 where t2: "run_checked i2c_event t1 (concat (map i2c_byte bs)) = Some t2" "i2c_writing n t2"
      "write_offset t2 = int a" "i2c_memory t2 = page_write (i2c_memory s) a bs" "i2c_zf t2 = Some log"
    using run_data_first [OF t1(2-4) assms(4)] t1(5,6) by auto
  show ?thesis
    using t1 t2 run_stop_log [OF t2(2,3,5)]
    by (auto simp: i2c_page_write_def run_checked_append)
qed

lemma page_end_fits: "16 dvd L \<Longrightarrow> a < L \<Longrightarrow> a mod 16 + k \<le> 16 \<Longrightarrow> a + k \<le> (L :: nat)"
proof -
  assume "16 dvd L" "a < L" and k: "a mod 16 + k \<le> 16"
  then obtain c where c: "L = 16 * c" "a div 16 < c"
    by (auto simp: dvd_def less_mult_imp_div_less mult.commute)
  then have "16 * Suc (a div 16) \<le> L" by simp
  then have "16 * (a div 16) + (a mod 16 + k) \<le> L" using k by (intro le_trans [OF add_left_mono [OF k]]) simp
  then show ?thesis by (metis add.assoc mult_div_mod_eq)
qed

text \<open>C28: a page write that stays inside its page (start, device address with the page bits, low
  address byte, the data bytes, stop) stores exactly its bytes at its address, leaves the device
  idle, and the writes it requests bring the backing file up to date with the memory.\<close>

theorem i2c_page_write_persists:
  assumes "i2c_24cxx n s" "i2c_idle s" "a < 2 ^ n" "bs \<noteq> []" "a mod 16 + length bs \<le> 16"
    "i2c_zf s = Some log" "i2c_file f log = i2c_memory s"
  shows "\<exists>t log'. run_checked i2c_event s (i2c_page_write a bs) = Some t \<and> i2c_idle t \<and>
    i2c_memory t = take a (i2c_memory s) @ bs @ drop (a + length bs) (i2c_memory s) \<and>
    i2c_zf t = Some log' \<and> i2c_file f log' = i2c_memory t"
proof -
  define L where "L = length (i2c_memory s)"
  have L: "L = 2 ^ n"
    using assms(1) by (simp add: i2c_24cxx_def i2c_inv_def L_def)
  have sixteen: "16 dvd L"
    using assms(1) le_imp_power_dvd [of 4 n "2 :: nat"] by (simp add: i2c_24cxx_def i2c_inv_def L)
  obtain t where t: "run_checked i2c_event s (i2c_page_write a bs) = Some t" "i2c_idle t"
     "i2c_memory t = page_write (i2c_memory s) a bs"
     "i2c_zf t = Some (log @ (int a, take 16 (drop a (i2c_memory t))) #
       (if L < a + 16 then [(0, take (a + 16 - L) (i2c_memory t))] else []))"
    using run_page_write [OF assms(1-4,6)] by (auto simp: L_def)
  have fits: "a + length bs \<le> L"
    using page_end_fits [OF sixteen] assms(3,5) L by simp
  have m: "i2c_memory t = take a (i2c_memory s) @ bs @ drop (a + length bs) (i2c_memory s)"
    unfolding t(3) using assms(5) fits by (intro page_write_block) (auto simp: L_def)
  have "length bs \<le> 16" using assms(5) by linarith
  then have same: "i2c_memory s ! i = i2c_memory t ! i" if "i < L" "\<not> (a \<le> i \<and> i < a + min 16 (L - a))" for i
    using that fits unfolding m by (auto simp: nth_append L_def)
  have "overlay (i2c_memory s) (int a, take (min 16 (L - a)) (drop a (i2c_memory t))) = i2c_memory t"
    using assms(3) L t(3) same by (intro overlay_sync) (auto simp: L_def)
  moreover have "take (min 16 (L - a)) (drop a (i2c_memory t)) = take 16 (drop a (i2c_memory t))"
    using t(3) by (simp add: L_def min_def)
  moreover have "overlay (i2c_memory t) (int 0, take k (drop 0 (i2c_memory t))) = i2c_memory t" if "k \<le> L" for k
    using that t(3) by (intro overlay_sync) (auto simp: L_def)
  moreover have "a + 16 - L \<le> L" if "L < a + 16"
    using assms(1,3) power_increasing [of 4 n "2 :: nat"] by (simp add: i2c_24cxx_def i2c_inv_def L)
  ultimately have "i2c_file f (log @ (int a, take 16 (drop a (i2c_memory t))) #
       (if L < a + 16 then [(0, take (a + 16 - L) (i2c_memory t))] else [])) = i2c_memory t"
    using assms(7) by (simp add: i2c_file_def)
  then show ?thesis using t m by blast
qed


text \<open>A device of 256 bytes with an empty backing file, as its constructor leaves it.\<close>

lemma eeprom_new_24cxx:
  "8 \<le> n \<Longrightarrow> n \<le> 11 \<Longrightarrow> int (length mem) = 2 ^ n \<Longrightarrow>
   i2c_24cxx n (eeprom_new mem (2 ^ n) zf d) \<and> i2c_idle (eeprom_new mem (2 ^ n) zf d)"
  using eeprom_new_inv [of n mem zf d]
  by (simp add: i2c_24cxx_def i2c_idle_def eeprom_new_def eeprom_reset_def i2c_zero_def)

definition i2c_blank :: "unit i2c" where
  "i2c_blank = eeprom_new (replicate 256 0xff) 256 (Some []) ()"

lemma i2c_blank: "i2c_24cxx 8 i2c_blank" "i2c_idle i2c_blank" "i2c_memory i2c_blank = replicate 256 0xff"
    "i2c_zf i2c_blank = Some []"
  using eeprom_new_24cxx [of 8 "replicate 256 0xff" "Some []" "()"]
  by (simp_all add: i2c_blank_def eeprom_new_def eeprom_reset_def i2c_zero_def)

lemma i2c_page_write_persists_witness:
  "\<exists>t log'. run_checked i2c_event i2c_blank (i2c_page_write 20 [1, 2, 3]) = Some t \<and>
     i2c_memory t = replicate 20 0xff @ [1, 2, 3] @ replicate 233 0xff \<and>
     i2c_zf t = Some log' \<and> i2c_file (replicate 256 0xff) log' = i2c_memory t"
proof -
  have "i2c_file (replicate 256 0xff) [] = i2c_memory i2c_blank"
    by (simp add: i2c_file_def i2c_blank)
  from i2c_page_write_persists [OF i2c_blank(1,2) _ _ _ i2c_blank(4) this, of 20 "[1, 2, 3]"]
  show ?thesis by (auto simp: i2c_blank)
qed

text \<open>a page write that wraps inside its page is stored in memory but not in full in the
  backing file: three bytes sent to address 15 of a fresh 256-byte part land at 15, 0 and 1, and the
  flush at the stop condition writes bytes 15 to 30, so that the file keeps the old bytes 0 and 1.\<close>

theorem i2c_wrapped_write_not_persisted:
  "\<exists>t log'. run_checked i2c_event i2c_blank (i2c_page_write 15 [1, 2, 3]) = Some t \<and> i2c_zf t = Some log' \<and>
     i2c_memory t = [2, 3] @ replicate 13 0xff @ [1] @ replicate 240 0xff \<and>
     i2c_file (replicate 256 0xff) log' = replicate 15 0xff @ [1] @ replicate 240 0xff"
proof -
  have m: "page_write (replicate 256 0xff) 15 [1, 2, 3] = [2, 3] @ replicate 13 0xff @ [1] @ replicate 240 0xff"
    by code_simp
  obtain t where t: "run_checked i2c_event i2c_blank (i2c_page_write 15 [1, 2, 3]) = Some t"
     "i2c_memory t = [2, 3] @ replicate 13 0xff @ [1] @ replicate 240 0xff"
     "i2c_zf t = Some [(15, take 16 (drop 15 (i2c_memory t)))]"
    using run_page_write [OF i2c_blank(1,2) _ _ i2c_blank(4), of 15 "[1, 2, 3]"]
    by (auto simp: i2c_blank m simp del: page_write.simps)
  have "overlay (replicate 256 0xff) (15, take 16 (drop 15 (i2c_memory t))) =
      replicate 15 0xff @ [1] @ replicate 240 0xff"
    unfolding t(2) by code_simp
  then show ?thesis using t by (simp add: i2c_file_def)
qed

subsection \<open>Reading\<close>

text \<open>The master clocks in a byte: it samples the data line while the clock is high.\<close>

fun i2c_receive :: "'d i2c \<Rightarrow> nat \<Rightarrow> (bool list \<times> 'd i2c) option" where
  "i2c_receive s 0 = Some ([], s)"
| "i2c_receive s (Suc n) =
     (case eeprom_i2c_set s BITBANG_I2C_SCL 1 of
        None \<Rightarrow> None
      | Some (v, s) \<Rightarrow>
          (case eeprom_i2c_set s BITBANG_I2C_SCL 0 of
             None \<Rightarrow> None
           | Some (_, s) \<Rightarrow> map_option (\<lambda>(bs, t). ((v \<noteq> 0) # bs, t)) (i2c_receive s n)))"

definition i2c_random_read :: "nat \<Rightarrow> u8 \<Rightarrow> (bool \<times> bool) list" where
  "i2c_random_read a dev = i2c_address a @ i2c_start @ i2c_byte dev"


lemma i2c_set_clock_low:
  "last_clock s = 1 \<Longrightarrow> eeprom_i2c_set s BITBANG_I2C_SCL 0 = Some (last_data s AND 1, s\<lparr>last_clock := 0, device_out := 1\<rparr>)"
  by (simp add: eeprom_i2c_set_def BITBANG_I2C_SDA_def BITBANG_I2C_SCL_def bitbang_i2c_ret_def and.commute)

lemma i2c_set_clock_high:
  "last_clock s = 0 \<Longrightarrow> eeprom_i2c_set s BITBANG_I2C_SCL 1 = i2c_clock_rise (s\<lparr>last_clock := 1\<rparr>)"
  by (simp add: eeprom_i2c_set_def BITBANG_I2C_SDA_def BITBANG_I2C_SCL_def)

definition i2c_bit_out :: "'d i2c \<Rightarrow> 'd i2c" where
  "i2c_bit_out s = s\<lparr>i2c_state := i2c_next (i2c_state s), i2c_buffer := push_bit 1 (i2c_buffer s),
     last_clock := 0, device_out := 1\<rparr>"

lemma top_bit_out: "(uint (drop_bit 7 w) AND 1 = 0) = (\<not> bit w 7)" for w :: u8
proof -
  have "even (uint v) = (\<not> bit v 0)" for v :: u8
    using bit_uint_iff [of v 0] by (simp add: bit_0)
  then show ?thesis
    by (simp add: and_one_eq flip: even_iff_mod_2_eq_zero) (simp add: bit_simps)
qed

lemma receive_step:
  assumes "last_clock s = 0" "i2c_clock_rise (s\<lparr>last_clock := 1\<rparr>) = Some (i2c_shift_out u)"
    "last_clock u = 1" "last_data u = 1"
  shows "i2c_receive s (Suc n) =
    map_option (\<lambda>(bs, t). (bit (i2c_buffer u) 7 # bs, t)) (i2c_receive (i2c_bit_out u) n)"
  using assms
  by (simp add: i2c_set_clock_high i2c_set_clock_low i2c_shift_out_def bitbang_i2c_ret_def i2c_bit_out_def
      top_bit_out)

lemma receive_shift:
  assumes "last_clock s = 0" "last_data s = 1" "i2c_state s \<in> {RECEIVING_BIT6, RECEIVING_BIT5, RECEIVING_BIT4,
    RECEIVING_BIT3, RECEIVING_BIT2, RECEIVING_BIT1, RECEIVING_BIT0}"
  shows "i2c_receive s (Suc n) =
    map_option (\<lambda>(bs, t). (bit (i2c_buffer s) 7 # bs, t)) (i2c_receive (i2c_bit_out s) n)"
proof -
  have "i2c_receive s (Suc n) =
    map_option (\<lambda>(bs, t). (bit (i2c_buffer (s\<lparr>last_clock := 1\<rparr>)) 7 # bs, t))
      (i2c_receive (i2c_bit_out (s\<lparr>last_clock := 1\<rparr>)) n)"
    using assms by (intro receive_step) (auto simp: i2c_clock_rise_def)
  then show ?thesis by (simp add: i2c_bit_out_def)
qed

lemma i2c_receive_byte:
  assumes "last_clock s = 0" "last_data s = 1" "i2c_state s = RECEIVING_BIT7" "read_func s = None"
    "0 \<le> eeprom_addr s" "eeprom_addr s < int (length (i2c_memory s))"
  shows "\<exists>t. i2c_receive s 8 = Some (msb_bits 8 (i2c_memory s ! nat (eeprom_addr s)), t) \<and>
    i2c_state t = SENDING_ACK \<and> i2c_memory t = i2c_memory s \<and>
    eeprom_addr t = (eeprom_addr s + 1) AND (i2c_size s - 1)"
proof -
  define u where "u = s\<lparr>last_clock := 1, i2c_buffer := i2c_memory s ! nat (eeprom_addr s),
      eeprom_addr := (eeprom_addr s + 1) AND (i2c_size s - 1)\<rparr>"
  have "i2c_clock_rise (s\<lparr>last_clock := 1\<rparr>) = Some (i2c_shift_out u)"
    using assms by (simp add: i2c_clock_rise_def i2c_fetch_def u_def Let_def)
  then have "i2c_receive s (Suc 7) =
    map_option (\<lambda>(bs, t). (bit (i2c_buffer u) 7 # bs, t)) (i2c_receive (i2c_bit_out u) 7)"
    using assms by (intro receive_step) (simp_all add: u_def)
  then show ?thesis
    using assms by (simp add: receive_shift i2c_bit_out_def u_def numeral_eq_Suc bit_simps
        del: push_bit_Suc i2c_receive.simps(2))
qed

text \<open>C29: a random read (address phase of a write, repeated start, a second device byte, then
  eight clocks) returns the addressed byte most significant bit first, and the next
  sequential read is at the following address, modulo the size of the part. The second device
  byte is not compared with the device's address.\<close>

theorem i2c_random_read_returns:
  assumes "i2c_24cxx n s" "i2c_idle s" "a < 2 ^ n"
  shows "\<exists>t u. run_checked i2c_event s (i2c_random_read a dev) = Some t \<and>
    i2c_receive t 8 = Some (msb_bits 8 (i2c_memory s ! a), u) \<and>
    i2c_memory u = i2c_memory s \<and> eeprom_addr u = (int a + 1) mod 2 ^ n"
proof -
  obtain t1 where t1: "run_checked i2c_event s (i2c_address a) = Some t1" "i2c_writing n t1"
      "eeprom_addr t1 = int a" "i2c_memory t1 = i2c_memory s"
    using run_address [OF assms] by auto
  define t2 where "t2 = t1\<lparr>last_data := 0, last_clock := 0, device_out := 1,
    i2c_buffer := push_bit 1 (i2c_buffer t1) OR 1, i2c_state := SENDING_BIT7, current_addr := -1\<rparr>"
  define t where "t = t2\<lparr>last_data := 1, last_clock := 0, device_out := 1,
    i2c_buffer := dev, i2c_state := RECEIVING_BIT7\<rparr>"
  have t2: "run_checked i2c_event t1 i2c_start = Some t2"
    unfolding t2_def using t1(2) by (intro run_start_repeated) (simp add: i2c_writing_def)
  have "run_checked i2c_event t2 (i2c_byte dev) = Some t"
    unfolding t_def using t1(2)
    by (intro run_turn_around) (simp_all add: i2c_writing_def i2c_ready_def t2_def)
  then have r: "run_checked i2c_event s (i2c_random_read a dev) = Some t"
    using t1(1) t2 by (simp add: i2c_random_read_def run_checked_append)
  have "a < length (i2c_memory s)" "i2c_size t1 = 2 ^ n" "read_func t1 = None"
    using assms(1,3) t1(2) by (auto simp: i2c_24cxx_def i2c_inv_def i2c_writing_def)
  then show ?thesis
    using i2c_receive_byte [of t] r t1 by (auto simp: t_def t2_def int_mask_and)
qed

lemma i2c_random_read_returns_witness:
  "\<exists>t u. run_checked i2c_event i2c_blank (i2c_random_read 255 0xa1) = Some t \<and>
    i2c_receive t 8 = Some (replicate 8 True, u) \<and> eeprom_addr u = 0"
proof -
  have "msb_bits 8 (0xff :: u8) = replicate 8 True" by (simp add: numeral_eq_Suc) 
  then show ?thesis
    using i2c_random_read_returns [OF i2c_blank(1,2), of 255 "0xa1"] by (auto simp: i2c_blank)
qed

end
