(* ===== verification/Flash.thy ===== *)
theory Flash
  imports Prelude
begin

text \<open>
  The flash ROM of \<^verbatim>\<open>sources/src/flashrom.c\<close> (from \<^verbatim>\<open>struct flashrom_data\<close> on): the command
  state machine of AMD-style flash chips and parallel EEPROMs on accelerator, SCSI and IDE
  boards. \<^verbatim>\<open>rom\<close> points into memory of the owner: \<open>fl_rom\<close> is what the owner allocated there, and an access
  beyond it is \<open>None\<close>. Addresses are \<^verbatim>\<open>uaecptr\<close> (32 bits), offsets \<^verbatim>\<open>int\<close>. The backing file is
  seen as the list of block writes requested of it. LED and log calls are left out.

  Shown: the contents change only after an unlock sequence, programming and erasing do what
  the data sheets say, no access leaves the ROM when its size is a multiple of the sector size,
  the file written back equals the ROM, and the configurations in which erasing does leave it.
\<close>

section \<open>State\<close>

record flashrom =
  fl_rom :: "u8 list"
  flashsize :: int
  allocsize :: int
  fl_mask :: int
  fl_state :: int
  modified :: int
  sectorsize :: int
  pagesize :: int
  devicecode :: u8
  mfgcode :: u8
  fl_flags :: int
  writeprot :: int
  lastpagewrite :: int
  firstwriteoffset :: int
  lastwriteoffset :: int
  fl_page :: "u8 list"
  fl_mpage :: "bool list"
  pagemodified :: bool

definition FLASHROM_EVERY_OTHER_BYTE :: int where "FLASHROM_EVERY_OTHER_BYTE = 1"
definition FLASHROM_EVERY_OTHER_BYTE_ODD :: int where "FLASHROM_EVERY_OTHER_BYTE_ODD = 2"
definition FLASHROM_PARALLEL_EEPROM :: int where "FLASHROM_PARALLEL_EEPROM = 4"
definition FLASHROM_SKIP_EVERY_OTHER_BYTE :: int where "FLASHROM_SKIP_EVERY_OTHER_BYTE = 8"
definition FLASHROM_DATA_PROTECT :: int where "FLASHROM_DATA_PROTECT = 16"

definition fl_has :: "flashrom \<Rightarrow> int \<Rightarrow> bool" where
  "fl_has fd flag \<longleftrightarrow> fl_flags fd AND flag \<noteq> 0"

section \<open>Operations\<close>

definition setmodified :: "flashrom \<Rightarrow> int \<Rightarrow> flashrom" where
  "setmodified fd offset = fd\<lparr>modified := 1,
     firstwriteoffset := (if offset < firstwriteoffset fd then offset else firstwriteoffset fd),
     lastwriteoffset := (if offset > lastwriteoffset fd then offset else lastwriteoffset fd)\<rparr>"

definition flash_new :: "u8 list \<Rightarrow> int \<Rightarrow> int \<Rightarrow> u8 \<Rightarrow> u8 \<Rightarrow> int \<Rightarrow> flashrom" where
  "flash_new rom fsize asize mfg dev flags =
     \<lparr>fl_rom = rom, flashsize = fsize, allocsize = asize, fl_mask = fsize - 1, fl_state = 0, modified = 0,
      sectorsize = (if dev = 0x20 then 16384 else 65536), pagesize = (if mfg = 0xbf then 128 else 64),
      devicecode = dev, mfgcode = mfg, fl_flags = flags,
      writeprot = (if flags AND FLASHROM_DATA_PROTECT \<noteq> 0 then 1 else 0), lastpagewrite = -1,
      firstwriteoffset = asize, lastwriteoffset = 0,
      fl_page = replicate 128 0, fl_mpage = replicate 128 False, pagemodified = False\<rparr>"

text \<open>One byte of the ROM; outside it the access is an error.\<close>

definition rom_get :: "flashrom \<Rightarrow> int \<Rightarrow> u8 option" where
  "rom_get fd a = (if 0 \<le> a \<and> a < int (length (fl_rom fd)) then Some (fl_rom fd ! nat a) else None)"

definition rom_set :: "flashrom \<Rightarrow> int \<Rightarrow> u8 \<Rightarrow> flashrom" where
  "rom_set fd a v = fd\<lparr>fl_rom := (fl_rom fd)[nat a := v]\<rparr>"

definition flash_size :: "flashrom option \<Rightarrow> int" where
  "flash_size fdv = (case fdv of None \<Rightarrow> 0 | Some fd \<Rightarrow> flashsize fd)"

definition flash_active :: "flashrom option \<Rightarrow> u32 \<Rightarrow> bool" where
  "flash_active fdv addr = (case fdv of None \<Rightarrow> False | Some fd \<Rightarrow> fl_state fd \<noteq> 0)"

definition page_load :: "flashrom \<Rightarrow> int \<Rightarrow> flashrom" where
  "page_load fd page =
     (if lastpagewrite fd \<noteq> page then
        fd\<lparr>fl_mpage := replicate 128 False, pagemodified := False, lastpagewrite := page\<rparr>
      else fd)"

definition writeflash :: "flashrom \<Rightarrow> int \<Rightarrow> u8 \<Rightarrow> flashrom option" where
  "writeflash fd addr v =
     (if \<not> fl_has fd FLASHROM_PARALLEL_EEPROM then
        let fd = fd\<lparr>fl_state := 100\<rparr>
        in if writeprot fd \<le> 0 then
             case rom_get fd addr of
               None \<Rightarrow> None
             | Some old \<Rightarrow>
                 let fd = (if old \<noteq> v then (rom_set fd addr v)\<lparr>modified := 1\<rparr> else fd)
                 in Some (if modified fd \<noteq> 0 then setmodified fd addr else fd)
           else Some fd
      else
        let page = addr AND NOT (pagesize fd - 1);
            mpage = nat (addr AND (pagesize fd - 1));
            fd = page_load fd page;
            fd = (if writeprot fd \<le> 0 then
                    fd\<lparr>fl_page := (fl_page fd)[mpage := v], fl_mpage := (fl_mpage fd)[mpage := True],
                       pagemodified := True\<rparr>
                  else fd)
        in Some (fd\<lparr>fl_state := 7 + 1\<rparr>))"

text \<open>The loop of the chip and sector erase, over the offsets it visits.\<close>

fun flash_erase :: "int list \<Rightarrow> flashrom \<Rightarrow> flashrom option" where
  "flash_erase [] fd = Some fd"
| "flash_erase (a # as) fd =
     (case rom_get fd a of
        None \<Rightarrow> None
      | Some old \<Rightarrow> flash_erase as (if old \<noteq> 0xff then setmodified (rom_set fd a 0xff) a else fd))"

definition other_byte_mult :: "flashrom \<Rightarrow> int" where
  "other_byte_mult fd =
     (if fl_flags fd AND (FLASHROM_SKIP_EVERY_OTHER_BYTE OR FLASHROM_EVERY_OTHER_BYTE) \<noteq> 0 then 2 else 1)"

definition flash_addr :: "flashrom \<Rightarrow> u32 \<Rightarrow> u32" where
  "flash_addr fd addr = (if other_byte_mult fd = 2 then drop_bit 1 addr else addr)"

text \<open>The guards from the unlock sequence to the erase prefix, in source order; the pair is the
  state and the flag \<^verbatim>\<open>det\<close>. The two data protection commands return at once.\<close>

definition cmd_if :: "bool \<Rightarrow> int \<Rightarrow> int \<times> bool \<Rightarrow> int \<times> bool" where
  "cmd_if c st p = (if c then (st, True) else p)"

definition flash_unlock :: "u32 \<Rightarrow> u8 \<Rightarrow> int \<times> bool \<Rightarrow> int \<times> bool" where
  "flash_unlock addr v p =
     (let p = cmd_if (addr = 0x5555 \<and> fst p \<le> 2 \<and> v = 0xaa) 1 p;
          p = cmd_if (addr = 0x2aaa \<and> fst p = 1 \<and> v = 0x55) 2 p;
          p = cmd_if (addr = 0x5555 \<and> fst p = 3 \<and> v = 0xaa) 1 p
      in cmd_if (addr = 0x5555 \<and> fst p = 2 \<and> v = 0x90) 3 p)"

definition flash_erase_prefix :: "u32 \<Rightarrow> u8 \<Rightarrow> int \<times> bool \<Rightarrow> int \<times> bool" where
  "flash_erase_prefix addr v p =
     (let p = cmd_if (addr = 0x5555 \<and> fst p = 2 \<and> v = 0x80) 4 p;
          p = cmd_if (addr = 0x5555 \<and> fst p = 4 \<and> v = 0xaa) 5 p
      in cmd_if (addr = 0x2aaa \<and> fst p = 5 \<and> v = 0x55) 6 p)"

definition chip_offsets :: "flashrom \<Rightarrow> int list" where
  "chip_offsets fd = map (\<lambda>i. int i * other_byte_mult fd) [0..<nat (allocsize fd)]"

definition sector_base :: "flashrom \<Rightarrow> u32 \<Rightarrow> int" where
  "sector_base fd addr = sint (addr AND word_of_int (NOT (sectorsize fd - 1)))"

definition sector_offsets :: "flashrom \<Rightarrow> int \<Rightarrow> int list" where
  "sector_offsets fd saddr = map (\<lambda>i. (saddr + int i) * other_byte_mult fd) [0..<nat (sectorsize fd)]"

text \<open>What is left of \<^verbatim>\<open>flash_write\<close> after the data protection commands.\<close>

definition flash_command :: "flashrom \<Rightarrow> int \<Rightarrow> u32 \<Rightarrow> u8 \<Rightarrow> bool \<Rightarrow> (bool \<times> flashrom) option" where
  "flash_command fd oldstate addr v det =
     (case flash_erase_prefix addr v (fl_state fd, det) of
        (st, det) \<Rightarrow>
          let fd = fd\<lparr>fl_state := st\<rparr>
          in if addr = 0x5555 \<and> st = 6 \<and> v = 0x10 then
               map_option (\<lambda>fd. (True, fd\<lparr>fl_state := 200\<rparr>)) (flash_erase (chip_offsets fd) fd)
             else if st = 6 \<and> v = 0x30 then
               map_option (\<lambda>fd. (True, fd\<lparr>fl_state := 200\<rparr>))
                 (if sector_base fd addr < allocsize fd
                  then flash_erase (sector_offsets fd (sector_base fd addr)) fd else Some fd)
             else
               let fd = (if st = oldstate \<or> \<not> det then fd\<lparr>fl_state := 0\<rparr> else fd)
               in if \<not> det \<and> fl_has fd FLASHROM_PARALLEL_EEPROM then
                    map_option (\<lambda>fd. (True, fd)) (writeflash fd (sint (addr * word_of_int (other_byte_mult fd))) v)
                  else Some (False, fd))"

definition flash_write :: "flashrom \<Rightarrow> u32 \<Rightarrow> u8 \<Rightarrow> (bool \<times> flashrom) option" where
  "flash_write fd addr v =
     (let addr = flash_addr fd addr
      in if addr * word_of_int (other_byte_mult fd) \<ge> word_of_int (allocsize fd) then Some (False, fd)
         else
           let oldstate = fl_state fd; addr = addr AND word_of_int (fl_mask fd)
           in if fl_state fd = 7 \<or> fl_state fd = 8 then
                map_option (\<lambda>fd. (True, fd)) (writeflash fd (sint (addr * word_of_int (other_byte_mult fd))) v)
              else if v = 0xf0 \<and> fl_state fd > 0 \<and> fl_state fd < 7 then Some (False, fd\<lparr>fl_state := 0\<rparr>)
              else
                case flash_unlock addr v (fl_state fd, False) of
                  (st, det) \<Rightarrow>
                    if addr = 0x5555 \<and> st = 2 \<and> v = 0xa0 then
                      Some (False, fd\<lparr>fl_state := 7, writeprot := -1\<rparr>)
                    else if addr = 0x5555 \<and> st = 6 \<and> v = 0x20 then
                      Some (False, fd\<lparr>fl_state := 0, writeprot := 0\<rparr>)
                    else flash_command (fd\<lparr>fl_state := st\<rparr>) oldstate addr v det)"

text \<open>Any read first stores the page buffer: the loop over \<^verbatim>\<open>i < pagesize\<close>.\<close>

fun page_store :: "nat list \<Rightarrow> flashrom \<Rightarrow> flashrom option" where
  "page_store [] fd = Some fd"
| "page_store (i # is) fd =
     (let offset = lastpagewrite fd + int i
      in if fl_mpage fd ! i then
           case rom_get fd offset of
             None \<Rightarrow> None
           | Some old \<Rightarrow>
               page_store is
                 ((if old \<noteq> fl_page fd ! i then setmodified (rom_set fd offset (fl_page fd ! i)) offset else fd)
                  \<lparr>fl_mpage := (fl_mpage fd)[i := False]\<rparr>)
         else page_store is fd)"

definition flash_commit :: "flashrom \<Rightarrow> flashrom option" where
  "flash_commit fd =
     (if fl_has fd FLASHROM_PARALLEL_EEPROM \<and> pagemodified fd then
        page_store [0..<nat (pagesize fd)] (fd\<lparr>pagemodified := False\<rparr>)
      else Some fd)"

definition flash_status :: "flashrom \<Rightarrow> u32 \<Rightarrow> (u8 \<times> flashrom) option" where
  "flash_status fd addr =
     (let a = (ucast (addr AND 0xff) :: u8); offset = sint (addr * word_of_int (other_byte_mult fd));
          toggle = (if fl_state fd AND 1 \<noteq> 0 then 0x40 else 0) :: u8; st = fl_state fd + 1
      in if fl_state fd = 3 then
           Some (if a = 2 then 0 else if a = 1 then devicecode fd else if a = 0 then mfgcode fd else 0xff, fd)
         else if fl_state fd \<ge> 200 then
           Some ((0 XOR toggle) OR 0x08, fd\<lparr>fl_state := (if st \<ge> 210 then 0 else st)\<rparr>)
         else if fl_state fd > 7 then
           map_option (\<lambda>r. (((r AND 0x80) XOR 0x80) XOR toggle, fd\<lparr>fl_state := (if st \<ge> 110 then 0 else st)\<rparr>))
             (rom_get fd offset)
         else map_option (\<lambda>r. (r, fd\<lparr>fl_state := 0\<rparr>)) (rom_get fd offset))"

definition flash_read :: "flashrom \<Rightarrow> u32 \<Rightarrow> (u8 \<times> flashrom) option" where
  "flash_read fd addr =
     (let addr = flash_addr fd addr
      in if addr * word_of_int (other_byte_mult fd) \<ge> word_of_int (allocsize fd) then Some (0xff, fd)
         else
           case flash_commit fd of
             None \<Rightarrow> None
           | Some fd \<Rightarrow> flash_status fd (addr AND word_of_int (fl_mask fd)))"

text \<open>Closing: the writes requested of the file, \<open>pos\<close> being its current position. The first loop
  writes one byte and skips one; the second writes the even bytes in sequence.\<close>

definition round512 :: "flashrom \<Rightarrow> int" where
  "round512 fd =
     (let last = (lastwriteoffset fd + 1 + 511) AND NOT 511
      in if last > allocsize fd then allocsize fd else last)"

fun even_bytes :: "flashrom \<Rightarrow> nat list \<Rightarrow> (nat \<Rightarrow> int) \<Rightarrow> (int \<times> u8 list) list option" where
  "even_bytes fd [] at = Some []"
| "even_bytes fd (i # is) at =
     (case rom_get fd (int i * 2) of
        None \<Rightarrow> None
      | Some b \<Rightarrow> map_option (\<lambda>ws. (at i, [b]) # ws) (even_bytes fd is at))"

definition flash_free :: "flashrom \<Rightarrow> int option \<Rightarrow> (int \<times> u8 list) list option" where
  "flash_free fd zf =
     (case zf of
        None \<Rightarrow> Some []
      | Some pos \<Rightarrow>
          if modified fd = 0 then Some []
          else if fl_has fd FLASHROM_EVERY_OTHER_BYTE then
            even_bytes fd [0..<nat (round512 fd)]
              (\<lambda>i. (if fl_has fd FLASHROM_EVERY_OTHER_BYTE_ODD then 1 else 0) + 2 * int i)
          else if fl_has fd FLASHROM_SKIP_EVERY_OTHER_BYTE then
            even_bytes fd [0..<nat (round512 fd div 2)] int
          else
            let first = (if pos > lastwriteoffset fd then firstwriteoffset fd else 0)
            in if 0 \<le> first \<and> lastwriteoffset fd < int (length (fl_rom fd)) then
                 Some [(first, take (nat (lastwriteoffset fd - first + 1)) (drop (nat first) (fl_rom fd)))]
               else None)"

section \<open>Configurations whose accesses stay in the ROM\<close>

text \<open>Bytes not interleaved, a power-of-two size of whole sectors, the buffer of a page in place.\<close>

definition flash_good :: "nat \<Rightarrow> flashrom \<Rightarrow> bool" where
  "flash_good k fd \<longleftrightarrow> k \<le> 30 \<and> other_byte_mult fd = 1 \<and> flashsize fd = 2 ^ k \<and> allocsize fd = 2 ^ k \<and>
     fl_mask fd = 2 ^ k - 1 \<and> length (fl_rom fd) = 2 ^ k \<and>
     (sectorsize fd = 2 ^ 14 \<and> 14 \<le> k \<or> sectorsize fd = 2 ^ 16 \<and> 16 \<le> k) \<and>
     (pagesize fd = 2 ^ 6 \<or> pagesize fd = 2 ^ 7) \<and> length (fl_page fd) = 128 \<and> length (fl_mpage fd) = 128 \<and>
     (pagemodified fd \<longrightarrow> 0 \<le> lastpagewrite fd \<and> lastpagewrite fd + pagesize fd \<le> 2 ^ k)"

lemma obm_1: "other_byte_mult fd = 1 \<longleftrightarrow>
    fl_flags fd AND (FLASHROM_SKIP_EVERY_OTHER_BYTE OR FLASHROM_EVERY_OTHER_BYTE) = 0"
  by (simp add: other_byte_mult_def)

lemma sint_small: "uint (w :: u32) < 2 ^ 31 \<Longrightarrow> sint w = uint w"
  unfolding sint_uint by (rule signed_take_bit_int_eq_self) (auto intro: order_trans [OF _ uint_ge_0])

lemma and_mask_good:
  assumes "k \<le> 30"
  shows "(w :: u32) AND word_of_int (2 ^ k - 1) = take_bit k w"
proof -
  have "word_of_int (2 ^ k - 1) = (mask k :: u32)" by (simp add: mask_eq_exp_minus_1)
  then show ?thesis by (simp only: take_bit_eq_mask)
qed

lemma pow30_less: "(2 :: int) ^ 30 \<le> 2 ^ 31"
  by simp

lemma sint_masked:
  assumes "k \<le> 30"
  shows "sint (take_bit k (w :: u32)) = uint w mod 2 ^ k"
proof -
  have u: "uint (take_bit k w) = uint w mod 2 ^ k"
    by (simp only: unsigned_take_bit_eq take_bit_eq_mod [where 'a = int])
  have "uint w mod 2 ^ k < 2 ^ k" by simp
  moreover have "(2 :: int) ^ k \<le> 2 ^ 30" using assms by (intro power_increasing) auto
  ultimately have "uint w mod 2 ^ k < 2 ^ 31" by (meson less_le_trans order_trans pow30_less)
  then show ?thesis using sint_small [of "take_bit k w"] u by simp
qed

lemma not_mask_word: "word_of_int (NOT (2 ^ m - 1)) = (NOT (mask m) :: u32)"
  by (simp add: mask_eq_exp_minus_1 of_int_not_eq)

lemma uint_and_not_mask: "uint ((w :: u32) AND NOT (mask m)) = 2 ^ m * (uint w div 2 ^ m)"
proof -
  have "uint (w AND NOT (mask m)) = push_bit m (drop_bit m (uint w))"
    by (rule bit_eqI) (auto simp: bit_simps dest: bit_imp_le_length)
  then show ?thesis by (simp add: push_bit_eq_mult drop_bit_eq_div mult.commute)
qed

lemma block_inside:
  assumes "m \<le> k" "0 \<le> x" "x < (2 :: int) ^ k"
  shows "0 \<le> 2 ^ m * (x div 2 ^ m) \<and> 2 ^ m * (x div 2 ^ m) + 2 ^ m \<le> (2 :: int) ^ k"
proof -
  have k: "(2 :: int) ^ k = 2 ^ (k - m) * 2 ^ m" using assms(1) by (simp flip: power_add)
  have "x div 2 ^ m < 2 ^ (k - m)"
  proof (rule ccontr)
    assume "\<not> x div 2 ^ m < 2 ^ (k - m)"
    then have "2 ^ (k - m) * 2 ^ m \<le> x div 2 ^ m * 2 ^ m" by (intro mult_right_mono) auto
    also have "\<dots> = x - x mod 2 ^ m" by (simp add: minus_mod_eq_mult_div mult.commute)
    also have "\<dots> \<le> x" by simp
    finally show False using assms(3) by (simp add: k)
  qed
  then have "x div 2 ^ m + 1 \<le> 2 ^ (k - m)" by simp
  then have "2 ^ m * (x div 2 ^ m + 1) \<le> 2 ^ m * 2 ^ (k - m)" by (intro mult_left_mono) auto
  then show ?thesis using assms(2) by (simp add: k algebra_simps pos_imp_zdiv_nonneg_iff)
qed

lemma int_and_not_low: "(x :: int) AND NOT (2 ^ m - 1) = 2 ^ m * (x div 2 ^ m)"
proof -
  have "x AND NOT (mask m) = push_bit m (drop_bit m x)"
    by (rule bit_eqI) (auto simp: bit_simps)
  then show ?thesis by (simp add: mask_eq_exp_minus_1 push_bit_eq_mult drop_bit_eq_div mult.commute)
qed

lemma sector_good:
  assumes "flash_good k fd" "uint addr < 2 ^ k"
  shows "\<exists>m. sectorsize fd = 2 ^ m \<and> m \<le> k \<and> sector_base fd addr = 2 ^ m * (uint addr div 2 ^ m) \<and>
    0 \<le> sector_base fd addr \<and> sector_base fd addr + sectorsize fd \<le> 2 ^ k"
proof -
  obtain m where m: "sectorsize fd = 2 ^ m" "m \<le> k"
  proof -
    have "sectorsize fd = 2 ^ 14 \<and> 14 \<le> k \<or> sectorsize fd = 2 ^ 16 \<and> 16 \<le> k"
      using assms(1) unfolding flash_good_def by blast
    then show thesis using that by blast
  qed
  have b: "0 \<le> 2 ^ m * (uint addr div 2 ^ m) \<and> 2 ^ m * (uint addr div 2 ^ m) + 2 ^ m \<le> (2 :: int) ^ k"
    using assms(2) m(2) by (intro block_inside) auto
  then have "2 ^ m * (uint addr div 2 ^ m) + 2 ^ m \<le> (2 :: int) ^ k" by blast
  also have "(2 :: int) ^ k \<le> 2 ^ 30" using assms(1) by (intro power_increasing) (auto simp: flash_good_def)
  finally have "2 ^ m * (uint addr div 2 ^ m) + 2 ^ m \<le> (2 :: int) ^ 30" .
  then have "2 ^ m * (uint addr div 2 ^ m) < (2 :: int) ^ 30"
    by (rule less_le_trans [rotated]) simp
  then have "2 ^ m * (uint addr div 2 ^ m) < (2 :: int) ^ 31"
    by (rule less_le_trans) simp
  then have "sector_base fd addr = 2 ^ m * (uint addr div 2 ^ m)"
    unfolding sector_base_def m(1) not_mask_word
    by (subst sint_small) (simp_all only: uint_and_not_mask)
  then show ?thesis using m b by auto
qed


section \<open>What is written back\<close>

text \<open>The span of the offsets changed since the image \<open>rom0\<close> was loaded.\<close>

definition flash_span :: "u8 list \<Rightarrow> flashrom \<Rightarrow> bool" where
  "flash_span rom0 fd \<longleftrightarrow> length (fl_rom fd) = length rom0 \<and>
     (modified fd \<noteq> 0 \<longrightarrow> 0 \<le> firstwriteoffset fd \<and> firstwriteoffset fd \<le> lastwriteoffset fd \<and>
        lastwriteoffset fd < int (length rom0)) \<and>
     (modified fd = 0 \<longrightarrow> firstwriteoffset fd = int (length rom0) \<and> lastwriteoffset fd = 0) \<and>
     (\<forall>i < length rom0. fl_rom fd ! i \<noteq> rom0 ! i \<longrightarrow>
        modified fd \<noteq> 0 \<and> firstwriteoffset fd \<le> int i \<and> int i \<le> lastwriteoffset fd)"

definition flash_same :: "flashrom \<Rightarrow> flashrom \<Rightarrow> bool" where
  "flash_same fd fd' \<longleftrightarrow> length (fl_rom fd') = length (fl_rom fd) \<and> flashsize fd' = flashsize fd \<and>
     allocsize fd' = allocsize fd \<and> fl_mask fd' = fl_mask fd \<and> sectorsize fd' = sectorsize fd \<and>
     pagesize fd' = pagesize fd \<and> devicecode fd' = devicecode fd \<and> mfgcode fd' = mfgcode fd \<and>
     fl_flags fd' = fl_flags fd"

lemma flash_same_refl [simp]: "flash_same fd fd"
  by (simp add: flash_same_def)

lemma flash_same_trans: "flash_same a b \<Longrightarrow> flash_same b c \<Longrightarrow> flash_same a c"
  by (simp add: flash_same_def)

lemma setmodified_same [simp]: "flash_same fd (setmodified (rom_set fd a v) b)"
  by (simp add: flash_same_def setmodified_def rom_set_def)

lemma span_set:
  assumes "flash_span rom0 fd" "0 \<le> a" "a < int (length (fl_rom fd))"
  shows "flash_span rom0 (setmodified (rom_set fd a v) a)"
  using assms
  by (auto simp: flash_span_def setmodified_def rom_set_def nth_list_update)

lemma span_keep:
  "flash_span rom0 (fd\<lparr>fl_state := st\<rparr>) = flash_span rom0 fd"
  "flash_span rom0 (fd\<lparr>fl_state := st, writeprot := wp\<rparr>) = flash_span rom0 fd"
  "flash_span rom0 (fd\<lparr>fl_mpage := mp\<rparr>) = flash_span rom0 fd"
  "flash_span rom0 (fd\<lparr>pagemodified := pm\<rparr>) = flash_span rom0 fd"
  "flash_span rom0 (fd\<lparr>fl_page := pg, fl_mpage := mp, pagemodified := pm\<rparr>) = flash_span rom0 fd"
  "flash_span rom0 (fd\<lparr>fl_mpage := mp, pagemodified := pm, lastpagewrite := lp\<rparr>) = flash_span rom0 fd"
  by (simp_all add: flash_span_def)

lemma flash_erase_ok:
  assumes "\<forall>a \<in> set as. 0 \<le> a \<and> a < int (length (fl_rom fd))"
  shows "\<exists>fd'. flash_erase as fd = Some fd' \<and> flash_same fd fd' \<and>
    fl_page fd' = fl_page fd \<and> fl_mpage fd' = fl_mpage fd \<and> pagemodified fd' = pagemodified fd \<and>
    lastpagewrite fd' = lastpagewrite fd \<and> writeprot fd' = writeprot fd \<and>
    (\<forall>i < length (fl_rom fd). fl_rom fd' ! i = (if int i \<in> set as then 0xff else fl_rom fd ! i)) \<and>
    (\<forall>rom0. flash_span rom0 fd \<longrightarrow> flash_span rom0 fd')"
  using assms
proof (induction as arbitrary: fd)
  case (Cons a as)
  define fd1 where "fd1 = (if fl_rom fd ! nat a \<noteq> 0xff then setmodified (rom_set fd a 0xff) a else fd)"
  have a: "0 \<le> a" "a < int (length (fl_rom fd))" using Cons.prems by auto
  have l: "length (fl_rom fd1) = length (fl_rom fd)"
    by (simp add: fd1_def setmodified_def rom_set_def)
  obtain fd' where fd': "flash_erase as fd1 = Some fd'" "flash_same fd1 fd'"
    "fl_page fd' = fl_page fd1" "fl_mpage fd' = fl_mpage fd1" "pagemodified fd' = pagemodified fd1"
    "lastpagewrite fd' = lastpagewrite fd1" "writeprot fd' = writeprot fd1"
    "\<forall>i < length (fl_rom fd1). fl_rom fd' ! i = (if int i \<in> set as then 0xff else fl_rom fd1 ! i)"
    "\<forall>rom0. flash_span rom0 fd1 \<longrightarrow> flash_span rom0 fd'"
    using Cons.IH [of fd1] Cons.prems l by auto
  have "flash_erase (a # as) fd = Some fd'"
    using fd'(1) a by (simp add: rom_get_def fd1_def)
  moreover have "fl_page fd1 = fl_page fd" "fl_mpage fd1 = fl_mpage fd" "pagemodified fd1 = pagemodified fd"
    "lastpagewrite fd1 = lastpagewrite fd" "writeprot fd1 = writeprot fd" "flash_same fd fd1"
    by (simp_all add: fd1_def) (simp_all add: setmodified_def rom_set_def)
  moreover have "fl_rom fd1 ! i = (if int i = a then 0xff else fl_rom fd ! i)" if "i < length (fl_rom fd)" for i
    using that a by (auto simp: fd1_def setmodified_def rom_set_def nth_list_update)
  moreover have "flash_span rom0 fd \<Longrightarrow> flash_span rom0 fd1" for rom0
    using span_set [of rom0 fd a] a by (simp add: fd1_def)
  ultimately show ?case
    using fd' l flash_same_trans [of fd fd1 fd'] by (intro exI [of _ fd'] conjI) simp_all
qed simp

lemma flash_erase_out:
  assumes "a \<in> set as" "int (length (fl_rom fd)) \<le> a"
  shows "flash_erase as fd = None"
  using assms
proof (induction as arbitrary: fd)
  case (Cons b as)
  show ?case
  proof (cases "rom_get fd b")
    case (Some old)
    then have "b \<noteq> a" using Cons.prems by (auto simp: rom_get_def split: if_splits)
    then have "a \<in> set as" using Cons.prems by simp
    then show ?thesis
      using Cons.IH [of "setmodified (rom_set fd b 0xff) b"] Cons.IH [of fd] Cons.prems Some
      by (simp add: setmodified_def rom_set_def)
  qed simp
qed simp

lemma writeflash_ok:
  assumes g: "flash_good k fd" and a: "0 \<le> a" "a < 2 ^ k"
  shows "\<exists>fd'. writeflash fd a v = Some fd' \<and> flash_good k fd' \<and>
    (\<forall>rom0. flash_span rom0 fd \<longrightarrow> flash_span rom0 fd')"
proof (cases "fl_has fd FLASHROM_PARALLEL_EEPROM")
  case False
  have len: "a < int (length (fl_rom fd))" using g a by (simp add: flash_good_def)
  define fd1 where "fd1 = (if fl_rom fd ! nat a \<noteq> v then setmodified (rom_set (fd\<lparr>fl_state := 100\<rparr>) a v) a
     else if modified fd \<noteq> 0 then setmodified (fd\<lparr>fl_state := 100\<rparr>) a else fd\<lparr>fl_state := 100\<rparr>)"
  have twice: "setmodified (x\<lparr>modified := 1\<rparr>) b = setmodified x b" for x b
    by (simp add: setmodified_def)
  have w: "writeflash fd a v = Some (if writeprot fd \<le> 0 then fd1 else fd\<lparr>fl_state := 100\<rparr>)"
    using False a len by (simp add: writeflash_def fl_has_def rom_get_def rom_set_def fd1_def Let_def setmodified_def)
  have good: "flash_good k fd1" "flash_good k (fd\<lparr>fl_state := 100\<rparr>)"
    using g by (simp_all add: flash_good_def fd1_def setmodified_def rom_set_def obm_1)
  have "flash_span rom0 fd \<Longrightarrow> flash_span rom0 (setmodified fd a)" if "modified fd \<noteq> 0" for rom0
    using that a len by (auto simp: flash_span_def setmodified_def)
  then have "flash_span rom0 fd \<Longrightarrow> flash_span rom0 fd1" for rom0
    using span_set [of rom0 "fd\<lparr>fl_state := 100\<rparr>" a v] a len
    by (auto simp: fd1_def span_keep setmodified_def flash_span_def)
  then show ?thesis using w good by (auto simp: span_keep)
next
  case True
  obtain m where m: "pagesize fd = 2 ^ m" "m \<le> k" "m \<le> 7"
  proof -
    have "(pagesize fd = 2 ^ 6 \<or> pagesize fd = 2 ^ 7) \<and> 14 \<le> k"
      using g unfolding flash_good_def by auto
    then show thesis using that [of 6] that [of 7] by auto
  qed
  define p where "p = a AND NOT (pagesize fd - 1)"
  have p: "0 \<le> p" "p + pagesize fd \<le> 2 ^ k"
    using block_inside [of m k a] m a by (auto simp: p_def int_and_not_low)
  define fd1 where "fd1 = page_load fd p"
  have g1: "flash_good k fd1" "lastpagewrite fd1 = p" "pagesize fd1 = pagesize fd" "writeprot fd1 = writeprot fd"
    using g by (auto simp: fd1_def page_load_def flash_good_def obm_1)
  have s1: "flash_span rom0 fd \<Longrightarrow> flash_span rom0 fd1" for rom0
    by (simp add: fd1_def page_load_def span_keep)
  show ?thesis
    using True g1 p s1
    by (auto simp: writeflash_def Let_def simp flip: p_def fd1_def)
       (auto simp: flash_good_def obm_1 span_keep flash_span_def)
qed


definition flash_inv :: "nat \<Rightarrow> u8 list \<Rightarrow> flashrom \<Rightarrow> bool" where
  "flash_inv k rom0 fd \<longleftrightarrow> flash_good k fd \<and> flash_span rom0 fd"

lemma inv_keep [simp]:
  "flash_inv k rom0 (fd\<lparr>fl_state := st\<rparr>) = flash_inv k rom0 fd"
  "flash_inv k rom0 (fd\<lparr>fl_state := st, writeprot := wp\<rparr>) = flash_inv k rom0 fd"
  by (simp_all add: flash_inv_def span_keep flash_good_def obm_1)

lemma good_same:
  assumes "flash_good k fd" "flash_same fd fd'" "length (fl_page fd') = length (fl_page fd)"
    "length (fl_mpage fd') = length (fl_mpage fd)" "pagemodified fd' \<longrightarrow> pagemodified fd"
    "lastpagewrite fd' = lastpagewrite fd"
  shows "flash_good k fd'"
  using assms by (auto simp: flash_good_def flash_same_def obm_1)

lemma writeflash_inv:
  assumes "flash_inv k rom0 fd" "0 \<le> a" "a < 2 ^ k"
  shows "\<exists>fd'. writeflash fd a v = Some fd' \<and> flash_inv k rom0 fd'"
  using writeflash_ok [of k fd a v] assms by (auto simp: flash_inv_def)

lemma flash_erase_inv:
  assumes "flash_inv k rom0 fd" "\<forall>a \<in> set as. 0 \<le> a \<and> a < 2 ^ k"
  shows "\<exists>fd'. flash_erase as fd = Some fd' \<and> flash_inv k rom0 fd'"
proof -
  have "\<forall>a \<in> set as. 0 \<le> a \<and> a < int (length (fl_rom fd))"
    using assms by (auto simp: flash_inv_def flash_good_def)
  from flash_erase_ok [OF this] show ?thesis
    using assms(1) good_same [of k fd] by (auto simp: flash_inv_def)
qed

lemma offset_good:
  assumes "flash_good k fd"
  shows "(addr :: u32) AND word_of_int (fl_mask fd) = take_bit k addr"
    "sint (take_bit k addr * word_of_int (other_byte_mult fd)) = uint (take_bit k addr)"
    "uint (take_bit k addr) < 2 ^ k"
proof -
  have k: "k \<le> 30" "fl_mask fd = 2 ^ k - 1" "other_byte_mult fd = 1" using assms by (simp_all add: flash_good_def)
  show "addr AND word_of_int (fl_mask fd) = take_bit k addr" by (simp only: k(2) and_mask_good [OF k(1)])
  have u: "uint (take_bit k addr) = uint addr mod 2 ^ k"
    by (simp only: unsigned_take_bit_eq take_bit_eq_mod [where 'a = int])
  then show "sint (take_bit k addr * word_of_int (other_byte_mult fd)) = uint (take_bit k addr)"
    using sint_masked [OF k(1), of addr] k(3) by simp
  show "uint (take_bit k addr) < 2 ^ k" using u by simp
qed

lemma flash_command_inv:
  assumes "flash_inv k rom0 fd" "uint addr < 2 ^ k" "addr = take_bit k addr"
  shows "\<exists>r. flash_command fd old addr v det = Some r \<and> flash_inv k rom0 (snd r)"
proof -
  have g: "flash_good k fd" using assms by (simp add: flash_inv_def)
  obtain st d where p: "flash_erase_prefix addr v (fl_state fd, det) = (st, d)" by force
  define fd1 where "fd1 = fd\<lparr>fl_state := st\<rparr>"
  have i1: "flash_inv k rom0 fd1" using assms by (simp add: fd1_def)
  then have g1: "flash_good k fd1" by (simp add: flash_inv_def)
  have "\<forall>a \<in> set (chip_offsets fd1). 0 \<le> a \<and> a < 2 ^ k"
    using g1 unfolding chip_offsets_def flash_good_def by (auto simp: nat_power_eq)
  from flash_erase_inv [OF i1 this] obtain fd2 where e: "flash_erase (chip_offsets fd1) fd1 = Some fd2" "flash_inv k rom0 fd2"
    by blast
  have "\<forall>a \<in> set (sector_offsets fd1 (sector_base fd1 addr)). 0 \<le> a \<and> a < 2 ^ k"
    using g1 sector_good [OF g1 assms(2)] by (auto simp: sector_offsets_def flash_good_def)
  from flash_erase_inv [OF i1 this] obtain fd3 where s: "flash_erase (sector_offsets fd1 (sector_base fd1 addr)) fd1 = Some fd3" "flash_inv k rom0 fd3"
    by blast
  have "\<exists>fd'. writeflash x (sint (addr * word_of_int (other_byte_mult fd1))) v = Some fd'" 
    "\<And>fd'. writeflash x (sint (addr * word_of_int (other_byte_mult fd1))) v = Some fd' \<Longrightarrow> flash_inv k rom0 fd'"
    if "flash_inv k rom0 x" for x
    using writeflash_inv [OF that, of "uint addr" v] offset_good(2) [OF g1, of addr] assms(2,3) by auto
  note w = this
  have i0: "flash_inv k rom0 (fd1\<lparr>fl_state := 0\<rparr>)" using i1 by simp
  obtain fd4 fd5 where f: "writeflash fd1 (sint (addr * word_of_int (other_byte_mult fd1))) v = Some fd4"
      "writeflash (fd1\<lparr>fl_state := 0\<rparr>) (sint (addr * word_of_int (other_byte_mult fd1))) v = Some fd5"
    using w(1) [OF i1] w(1) [OF i0] by blast
  note f' = w(2) [OF i1 f(1)] w(2) [OF i0 f(2)]
  have "other_byte_mult (fd1\<lparr>fl_state := 0\<rparr>) = other_byte_mult fd1"
    "fl_has (fd1\<lparr>fl_state := 0\<rparr>) = fl_has fd1" by (auto simp: other_byte_mult_def fl_has_def)
  then show ?thesis
    using e s i1 i0 f f' unfolding flash_command_def p case_prod_conv fd1_def [symmetric] Let_def
    by simp blast
qed

lemma flash_write_inv:
  assumes "flash_inv k rom0 fd"
  shows "\<exists>r. flash_write fd addr v = Some r \<and> flash_inv k rom0 (snd r)"
proof -
  have g: "flash_good k fd" using assms by (simp add: flash_inv_def)
  define a where "a = take_bit k (flash_addr fd addr)"
  obtain st d where p: "flash_unlock a v (fl_state fd, False) = (st, d)" by force
  have a: "uint a < 2 ^ k" "a = take_bit k a" "sint (a * word_of_int (other_byte_mult fd)) = uint a"
    using offset_good [OF g, of "flash_addr fd addr"] by (simp_all add: a_def)
  obtain fd1 where w: "writeflash fd (sint (a * word_of_int (other_byte_mult fd))) v = Some fd1" "flash_inv k rom0 fd1"
    using writeflash_inv [OF assms, of "uint a" v] a by auto
  obtain r where c: "flash_command (fd\<lparr>fl_state := st\<rparr>) (fl_state fd) a v d = Some r" "flash_inv k rom0 (snd r)"
  proof -
    have "flash_inv k rom0 (fd\<lparr>fl_state := st\<rparr>)" using assms by simp
    from flash_command_inv [OF this a(1,2)] that show thesis by blast
  qed
  show ?thesis
    using w c assms unfolding flash_write_def Let_def offset_good(1) [OF g] a_def [symmetric] p case_prod_conv
    by (auto simp del: split_paired_Ex)
qed


lemma page_store_inv:
  assumes "flash_inv k rom0 fd" "0 \<le> lastpagewrite fd" "lastpagewrite fd + pagesize fd \<le> 2 ^ k"
    "\<forall>i \<in> set is. int i < pagesize fd"
  shows "\<exists>fd'. page_store is fd = Some fd' \<and> flash_inv k rom0 fd'"
  using assms
proof (induction "is" arbitrary: fd)
  case (Cons i "is")
  define off where "off = lastpagewrite fd + int i"
  have o: "0 \<le> off" "off < 2 ^ k" using Cons.prems by (auto simp: off_def)
  have len: "int (length (fl_rom fd)) = 2 ^ k" using Cons.prems(1) by (simp add: flash_inv_def flash_good_def)
  define fd1 where "fd1 = (if fl_rom fd ! nat off \<noteq> fl_page fd ! i
      then setmodified (rom_set fd off (fl_page fd ! i)) off else fd)"
  have "flash_span rom0 fd1"
    using span_set [of rom0 fd off] Cons.prems(1) o len by (auto simp: fd1_def flash_inv_def)
  moreover have "flash_good k fd1"
    using Cons.prems(1) unfolding flash_inv_def fd1_def
    by (intro good_same [of k fd fd1, unfolded fd1_def]) (auto simp: setmodified_def rom_set_def flash_same_def)
  ultimately have "flash_inv k rom0 (fd1\<lparr>fl_mpage := (fl_mpage fd)[i := False]\<rparr>)"
    using Cons.prems(1) by (simp add: flash_inv_def span_keep) (simp add: flash_good_def obm_1)
  moreover have "lastpagewrite fd1 = lastpagewrite fd" "pagesize fd1 = pagesize fd"
    by (simp_all add: fd1_def setmodified_def rom_set_def)
  ultimately show ?case
    using Cons.IH [of "fd1\<lparr>fl_mpage := (fl_mpage fd)[i := False]\<rparr>"] Cons.IH [of fd] Cons.prems o len
    by (simp add: rom_get_def Let_def flip: off_def fd1_def)
qed simp

lemma flash_commit_inv:
  assumes "flash_inv k rom0 fd"
  shows "\<exists>fd'. flash_commit fd = Some fd' \<and> flash_inv k rom0 fd'"
proof -
  have "flash_inv k rom0 (fd\<lparr>pagemodified := False\<rparr>)"
    using assms by (simp add: flash_inv_def span_keep) (simp add: flash_good_def obm_1)
  moreover have "\<forall>i \<in> set [0..<nat (pagesize fd)]. int i < pagesize fd" by auto
  moreover have "0 \<le> lastpagewrite fd \<and> lastpagewrite fd + pagesize fd \<le> 2 ^ k" if "pagemodified fd"
    using assms that by (simp add: flash_inv_def flash_good_def)
  ultimately show ?thesis
    using assms page_store_inv [of k rom0 "fd\<lparr>pagemodified := False\<rparr>" "[0..<nat (pagesize fd)]"]
    by (auto simp: flash_commit_def)
qed

lemma flash_read_inv:
  assumes "flash_inv k rom0 fd"
  shows "\<exists>r. flash_read fd addr = Some r \<and> flash_inv k rom0 (snd r)"
proof -
  obtain fd1 where c: "flash_commit fd = Some fd1" "flash_inv k rom0 fd1"
    using flash_commit_inv [OF assms] by blast
  then have g: "flash_good k fd1" by (simp add: flash_inv_def)
  define a where "a = take_bit k (flash_addr fd addr)"
  have "uint a < int (length (fl_rom fd1))"
    using g offset_good(3) [OF g] by (simp add: a_def flash_good_def)
  then obtain r where "rom_get fd1 (sint (a * word_of_int (other_byte_mult fd1))) = Some r"
    using offset_good(2) [OF g, of "flash_addr fd addr"] by (auto simp: rom_get_def a_def)
  then have "\<exists>r. flash_status fd1 a = Some r \<and> flash_inv k rom0 (snd r)"
    using c(2) by (auto simp: flash_status_def Let_def simp del: split_paired_Ex)
  then show ?thesis
    using c assms by (auto simp: flash_read_def Let_def a_def offset_good(1) [OF g] simp del: split_paired_Ex)
qed

datatype flash_op = FWrite u32 u8 | FRead u32

fun flash_step :: "flashrom \<Rightarrow> flash_op \<Rightarrow> flashrom option" where
  "flash_step fd (FWrite addr v) = map_option snd (flash_write fd addr v)"
| "flash_step fd (FRead addr) = map_option snd (flash_read fd addr)"

interpretation flash_chip: safe_machine flash_step "flash_inv k rom0" for k rom0
proof unfold_locales
  fix fd ev
  assume "flash_inv k rom0 fd"
  then show "\<exists>fd'. flash_step fd ev = Some fd' \<and> flash_inv k rom0 fd'"
    using flash_write_inv [of k rom0 fd] flash_read_inv [of k rom0 fd] by (cases ev) fastforce+
qed

lemma flash_new_inv:
  assumes "length rom = 2 ^ k" "k \<le> 30" "if dev = 0x20 then 14 \<le> k else 16 \<le> k" "flags AND 9 = 0"
  shows "flash_inv k rom (flash_new rom (2 ^ k) (2 ^ k) mfg dev flags)"
  using assms
  by (auto simp: flash_inv_def flash_good_def flash_span_def flash_new_def obm_1 FLASHROM_SKIP_EVERY_OTHER_BYTE_def
      FLASHROM_EVERY_OTHER_BYTE_def)

lemma flash_free_sync:
  assumes "flash_inv k rom0 fd"
  shows "\<exists>ws. flash_free fd (Some pos) = Some ws \<and> foldl overlay rom0 ws = fl_rom fd"
proof -
  have len: "length (fl_rom fd) = length rom0" and sp: "flash_span rom0 fd"
    using assms(1) by (simp_all add: flash_inv_def flash_span_def)
  have plain: "\<not> fl_has fd FLASHROM_EVERY_OTHER_BYTE \<and> \<not> fl_has fd FLASHROM_SKIP_EVERY_OTHER_BYTE"
  proof -
    have n: "fl_flags fd AND 9 = 0"
      using assms by (simp add: flash_inv_def flash_good_def obm_1 FLASHROM_SKIP_EVERY_OTHER_BYTE_def
        FLASHROM_EVERY_OTHER_BYTE_def)
    have "(fl_flags fd AND 9) AND 1 = fl_flags fd AND 1" "(fl_flags fd AND 9) AND 8 = fl_flags fd AND 8"
      by (simp_all add: and.assoc)
    then show ?thesis
      using n by (simp add: fl_has_def FLASHROM_SKIP_EVERY_OTHER_BYTE_def FLASHROM_EVERY_OTHER_BYTE_def)
  qed
  show ?thesis
  proof (cases "modified fd = 0")
    case True
    then have "fl_rom fd = rom0"
      using sp len by (intro nth_equalityI) (auto simp: flash_span_def)
    then show ?thesis using True by (simp add: flash_free_def)
  next
    case False
    define first where "first = (if pos > lastwriteoffset fd then firstwriteoffset fd else 0)"
    have f: "0 \<le> first" "first \<le> lastwriteoffset fd" "lastwriteoffset fd < int (length rom0)"
       "first \<le> firstwriteoffset fd"
      using False sp by (auto simp: flash_span_def first_def)
    then have "overlay rom0 (int (nat first), take (nat (lastwriteoffset fd - first + 1)) (drop (nat first) (fl_rom fd))) = fl_rom fd"
      using sp len by (intro overlay_sync) (fastforce simp: flash_span_def)+
    then show ?thesis
      using False f plain len by (simp add: flash_free_def Let_def flip: first_def)
  qed
qed

text \<open>C32: whatever is written to and read from a flash chip of \<open>2 ^ k\<close> bytes in whole sectors whose bytes are
  not interleaved (neither of the flags for every other byte is set; chip erase of an interleaved chip does leave the
  ROM), no access leaves the ROM, and the writes requested when it is closed, at any position of the
  file, turn a file that held the initial image into one that holds the ROM.\<close>

theorem flash_saved:
  assumes "length rom = 2 ^ k" "k \<le> 30" "if dev = 0x20 then 14 \<le> k else 16 \<le> k" "flags AND 9 = 0"
  shows "\<exists>fd. run_checked flash_step (flash_new rom (2 ^ k) (2 ^ k) mfg dev flags) ops = Some fd \<and>
    (\<forall>pos. \<exists>ws. flash_free fd (Some pos) = Some ws \<and> foldl overlay rom ws = fl_rom fd)"
  using flash_chip.run_safe [OF flash_new_inv [OF assms, of mfg], of ops] flash_free_sync by blast

lemma flash_saved_witness:
  "\<exists>fd. run_checked flash_step (flash_new (replicate (2 ^ 17) 0xff) (2 ^ 17) (2 ^ 17) 1 0x20 0)
       [FWrite 0x5555 0xaa, FWrite 0x2aaa 0x55, FWrite 0x5555 0xa0, FWrite 7 1, FRead 7] = Some fd \<and>
    (\<forall>pos. \<exists>ws. flash_free fd (Some pos) = Some ws \<and> foldl overlay (replicate (2 ^ 17) 0xff) ws = fl_rom fd)"
  by (rule flash_saved) simp_all

section \<open>The command state machine\<close>

lemma uint_less_pow: "unat (w :: 'a::len word) < 2 ^ k \<Longrightarrow> uint w < 2 ^ k"
  by (metis of_nat_less_iff of_nat_numeral of_nat_power uint_nat)

lemma addr_in_range:
  assumes "flash_good k fd" "unat (addr :: u32) < 2 ^ k"
  shows "take_bit k addr = addr" "\<not> addr \<ge> word_of_int (allocsize fd)"
proof -
  have k: "k \<le> 30" and m: "allocsize fd = 2 ^ k" using assms(1) by (simp_all add: flash_good_def)
  show "take_bit k addr = addr"
    unfolding word_unat_eq_iff by (simp only: unsigned_take_bit_eq take_bit_nat_eq_self [OF assms(2)])
  have "(2 :: nat) ^ k < 2 ^ 32" using k by (intro power_strict_increasing) auto
  then have "take_bit 32 ((2 :: nat) ^ k) = 2 ^ k" by (rule take_bit_nat_eq_self)
  then have "unat (of_nat (2 ^ k) :: u32) = 2 ^ k"
    unfolding unsigned_of_nat by simp
  then have "unat (word_of_int (2 ^ k) :: u32) = 2 ^ k" by simp
  then show "\<not> addr \<ge> word_of_int (allocsize fd)"
    using assms(2) by (simp add: word_le_nat_alt m)
qed

lemma flash_write_at:
  assumes "flash_good k fd" "unat addr < 2 ^ k"
  shows "flash_write fd addr v =
     (if fl_state fd = 7 \<or> fl_state fd = 8 then map_option (\<lambda>fd. (True, fd)) (writeflash fd (uint addr) v)
      else if v = 0xf0 \<and> fl_state fd > 0 \<and> fl_state fd < 7 then Some (False, fd\<lparr>fl_state := 0\<rparr>)
      else
        case flash_unlock addr v (fl_state fd, False) of
          (st, det) \<Rightarrow>
            if addr = 0x5555 \<and> st = 2 \<and> v = 0xa0 then
              Some (False, fd\<lparr>fl_state := 7, writeprot := -1\<rparr>)
            else if addr = 0x5555 \<and> st = 6 \<and> v = 0x20 then
              Some (False, fd\<lparr>fl_state := 0, writeprot := 0\<rparr>)
            else flash_command (fd\<lparr>fl_state := st\<rparr>) (fl_state fd) addr v det)"
proof -
  have m: "other_byte_mult fd = 1" using assms(1) by (simp add: flash_good_def)
  have a: "flash_addr fd addr = addr" using m by (simp add: flash_addr_def)
  have b: "addr AND word_of_int (fl_mask fd) = addr"
    using offset_good(1) [OF assms(1), of addr] addr_in_range(1) [OF assms] by simp
  show ?thesis
    using m offset_good(2) [OF assms(1), of addr] addr_in_range [OF assms] unfolding flash_write_def Let_def a b
    by simp
qed


subsection \<open>Programming a byte\<close>

text \<open>Three command writes open the array for one byte, the fourth stores it.\<close>

definition flash_program :: "u32 \<Rightarrow> u8 \<Rightarrow> flash_op list" where
  "flash_program addr v = [FWrite 0x5555 0xaa, FWrite 0x2aaa 0x55, FWrite 0x5555 0xa0, FWrite addr v]"

lemma cmd_addr_small: "14 < k \<Longrightarrow> unat (0x5555 :: u32) < 2 ^ k \<and> unat (0x2aaa :: u32) < 2 ^ k"
proof -
  assume "14 < k"
  then have "(2 :: nat) ^ 15 \<le> 2 ^ k" by (intro power_increasing) auto
  then show ?thesis by simp
qed

lemma good_keep [simp]:
  "flash_good k (fd\<lparr>fl_state := st\<rparr>) = flash_good k fd"
  "flash_good k (fd\<lparr>fl_state := st, writeprot := wp\<rparr>) = flash_good k fd"
  by (simp_all add: flash_good_def obm_1)

lemma run_unlock:
  assumes "flash_good k fd" "14 < k" "fl_state fd = 0"
  shows "run_checked flash_step fd [FWrite 0x5555 0xaa, FWrite 0x2aaa 0x55] = Some (fd\<lparr>fl_state := 2\<rparr>)"
  using assms cmd_addr_small [OF assms(2)]
  by (simp add: flash_write_at [of k] flash_unlock_def cmd_if_def flash_command_def flash_erase_prefix_def)

lemma run_program:
  assumes "flash_good k fd" "14 < k" "fl_state fd = 0" "\<not> fl_has fd FLASHROM_PARALLEL_EEPROM" "unat addr < 2 ^ k"
  shows "\<exists>t. run_checked flash_step fd (flash_program addr v) = Some t \<and>
    fl_rom t = (fl_rom fd)[unat addr := v] \<and> fl_state t = 100 \<and> flash_good k t \<and> fl_flags t = fl_flags fd"
proof -
  define fd2 where "fd2 = fd\<lparr>fl_state := 7, writeprot := -1\<rparr>"
  have g: "flash_good k fd2" "flash_good k (fd\<lparr>fl_state := 2\<rparr>)" using assms by (simp_all add: fd2_def)
  have "run_checked flash_step (fd\<lparr>fl_state := 2\<rparr>) [FWrite 0x5555 0xa0] = Some fd2"
    using g(2) cmd_addr_small [OF assms(2)]
    by (simp add: flash_write_at [of k] flash_unlock_def cmd_if_def fd2_def)
  then have r: "run_checked flash_step fd ([FWrite 0x5555 0xaa, FWrite 0x2aaa 0x55] @ [FWrite 0x5555 0xa0]) = Some fd2"
    unfolding run_checked_append run_unlock [OF assms(1-3)] by simp
  have a: "0 \<le> uint addr" "uint addr < 2 ^ k"
    using assms(5) uint_less_pow [of addr k] by simp_all
  obtain t where t: "writeflash fd2 (uint addr) v = Some t" "flash_good k t"
    using writeflash_ok [OF g(1) a] by blast
  have len: "uint addr < int (length (fl_rom fd2))" using g a by (simp add: flash_good_def)
  have "fl_rom t = (fl_rom fd)[unat addr := v] \<and> fl_state t = 100 \<and> fl_flags t = fl_flags fd"
    using t(1) assms(4) len
    by (auto simp: writeflash_def fl_has_def fd2_def rom_get_def rom_set_def setmodified_def Let_def
        split: if_splits)
  moreover have "flash_step fd2 (FWrite addr v) = Some t"
    using g(1) assms(5) t(1) flash_write_at [OF g(1) assms(5), of v] by (simp add: fd2_def)
  moreover have "flash_program addr v =
      ([FWrite 0x5555 0xaa, FWrite 0x2aaa 0x55] @ [FWrite 0x5555 0xa0]) @ [FWrite addr v]"
    by (simp add: flash_program_def)
  ultimately have "run_checked flash_step fd (flash_program addr v) = Some t"
    using run_checked_append [of flash_step fd "[FWrite 0x5555 0xaa, FWrite 0x2aaa 0x55] @ [FWrite 0x5555 0xa0]"
        "[FWrite addr v]"]
    unfolding r by (simp del: flash_step.simps)
  moreover have "fl_rom t = (fl_rom fd)[unat addr := v] \<and> fl_state t = 100 \<and> fl_flags t = fl_flags fd" by fact
  ultimately show ?thesis using t(2) by blast
qed

text \<open>After programming the chip reports its status for ten reads, then reads as an array again.\<close>

lemma flash_read_at:
  assumes "flash_good k fd" "\<not> fl_has fd FLASHROM_PARALLEL_EEPROM" "unat addr < 2 ^ k"
  shows "flash_read fd addr = flash_status fd addr"
    "sint (addr * word_of_int (other_byte_mult fd)) = uint addr"
    "rom_get fd (uint addr) = Some (fl_rom fd ! unat addr)"
proof -
  note w = addr_in_range [OF assms(1,3)]
  show "flash_read fd addr = flash_status fd addr"
    using w(1,2) assms offset_good(1) [OF assms(1), of addr]
    by (simp add: flash_read_def flash_commit_def flash_addr_def Let_def flash_good_def)
  show "sint (addr * word_of_int (other_byte_mult fd)) = uint addr"
    using w(1) offset_good(2) [OF assms(1), of addr] by simp
  show "rom_get fd (uint addr) = Some (fl_rom fd ! unat addr)"
    using assms uint_less_pow [OF assms(3)] by (simp add: rom_get_def flash_good_def)
qed

text \<open>Reads one after the other, with the values they return\<close>

fun flash_reads :: "flashrom \<Rightarrow> u32 list \<Rightarrow> (u8 list \<times> flashrom) option" where
  "flash_reads fd [] = Some ([], fd)"
| "flash_reads fd (a # as) =
     (case flash_read fd a of
        None \<Rightarrow> None
      | Some (v, fd) \<Rightarrow> map_option (\<lambda>(vs, fd). (v # vs, fd)) (flash_reads fd as))"

text \<open>The status in place of a byte: its top bit inverted, and a bit that toggles from read to read\<close>

definition status_of :: "u8 \<Rightarrow> nat \<Rightarrow> u8" where
  "status_of b i = ((b AND 0x80) XOR 0x80) XOR (if odd i then 0x40 else 0)"

lemma read_status_value:
  assumes "flash_good k fd" "\<not> fl_has fd FLASHROM_PARALLEL_EEPROM" "fl_state fd = 100 + int i" "i < 10" "unat addr < 2 ^ k"
  shows "flash_read fd addr =
    Some (status_of (fl_rom fd ! unat addr) i, fd\<lparr>fl_state := (if i = 9 then 0 else 100 + int (Suc i))\<rparr>)"
proof -
  have "(fl_state fd AND 1 \<noteq> 0) = odd i" using assms(3) by (simp add: and_one_eq odd_iff_mod_2_eq_one [of i] zmod_int) presburger
  moreover have "(110 \<le> fl_state fd + 1) = (i = 9)" using assms(3,4) by auto
  ultimately show ?thesis
    using assms(3,4) flash_read_at [OF assms(1,2,5)] by (simp add: flash_status_def Let_def status_of_def)
qed

lemma reads_status:
  assumes "flash_good k fd" "\<not> fl_has fd FLASHROM_PARALLEL_EEPROM" "fl_state fd = 100 + int i" "i + length as = 10" "as \<noteq> []"
    "\<forall>a \<in> set as. unat a < 2 ^ k"
  shows "flash_reads fd as =
    Some (map (\<lambda>j. status_of (fl_rom fd ! unat (as ! j)) (i + j)) [0..<length as], fd\<lparr>fl_state := 0\<rparr>)"
  using assms
proof (induction as arbitrary: fd i)
  case (Cons a as)
  have i: "i < 10" using Cons.prems(4) by simp
  note r = read_status_value [OF Cons.prems(1-3) i, of a]
  show ?case
  proof (cases "as = []")
    case True
    then show ?thesis using Cons.prems r by simp
  next
    case False
    define fd' where "fd' = fd\<lparr>fl_state := 100 + int (Suc i)\<rparr>"
    have "i \<noteq> 9" using False Cons.prems(4) by (cases as) auto
    have "flash_reads fd' as =
        Some (map (\<lambda>j. status_of (fl_rom fd' ! unat (as ! j)) (Suc i + j)) [0..<length as], fd'\<lparr>fl_state := 0\<rparr>)"
      using Cons.prems False by (intro Cons.IH) (simp_all add: fd'_def fl_has_def)
    then show ?thesis
      using r \<open>i \<noteq> 9\<close> Cons.prems(6) by (simp add: fd'_def map_upt_Suc del: upt_Suc)
  qed
qed simp

text \<open>C33: on a chip of at least 32 KB whose bytes are not interleaved and that is not a parallel EEPROM, with no
  command begun (command state 0), the program command (AA to 5555, 55 to 2AAA, A0 to 5555, the byte to its
  address) stores that byte and changes no other. The next ten reads, of any addresses, do not return the bytes there but a
  status: the top bit of the byte inverted and a bit that toggles from each read to the next. The one
  after them returns the byte programmed.\<close>

theorem flash_program_byte:
  assumes "flash_good k fd" "14 < k" "fl_state fd = 0" "\<not> fl_has fd FLASHROM_PARALLEL_EEPROM"
    "unat addr < 2 ^ k" "length as = 10" "\<forall>a \<in> set as. unat a < 2 ^ k"
  shows "\<exists>t u. run_checked flash_step fd (flash_program addr v) = Some t \<and> fl_rom t = (fl_rom fd)[unat addr := v] \<and>
    flash_reads t as = Some (map (\<lambda>i. status_of (fl_rom t ! unat (as ! i)) i) [0..<10], u) \<and>
    fl_rom u = fl_rom t \<and> flash_read u addr = Some (v, u)"
proof -
  obtain t where t: "run_checked flash_step fd (flash_program addr v) = Some t"
    "fl_rom t = (fl_rom fd)[unat addr := v]" "fl_state t = 100" "flash_good k t" "fl_flags t = fl_flags fd"
    using run_program [OF assms(1-5)] by blast
  have np: "\<not> fl_has t FLASHROM_PARALLEL_EEPROM" using assms(4) t(5) by (simp add: fl_has_def)
  have "as \<noteq> []" using assms(6) by auto
  then have r: "flash_reads t as = Some (map (\<lambda>i. status_of (fl_rom t ! unat (as ! i)) i) [0..<10], t\<lparr>fl_state := 0\<rparr>)"
    using reads_status [OF t(4) np, of 0 as] t(3) assms(6,7) by simp
  have g: "flash_good k (t\<lparr>fl_state := 0\<rparr>)" "\<not> fl_has (t\<lparr>fl_state := 0\<rparr>) FLASHROM_PARALLEL_EEPROM"
    using t(4) np by (simp_all add: fl_has_def)
  have "unat addr < length (fl_rom fd)" using assms(1,5) by (simp add: flash_good_def)
  then have "flash_read (t\<lparr>fl_state := 0\<rparr>) addr = Some (v, t\<lparr>fl_state := 0\<rparr>)"
    using flash_read_at [OF g assms(5)] t(2) by (simp add: flash_status_def)
  then show ?thesis using r t(1,2) by (intro exI [of _ t] exI [of _ "t\<lparr>fl_state := 0\<rparr>"]) simp
qed

lemma flash_new_good:
  assumes "length rom = 2 ^ k" "k \<le> 30" "if dev = 0x20 then 14 \<le> k else 16 \<le> k" "flags AND 9 = 0"
  shows "flash_good k (flash_new rom (2 ^ k) (2 ^ k) mfg dev flags)"
  using flash_new_inv [OF assms] by (simp add: flash_inv_def)

lemma flash_program_byte_witness:
  "\<exists>t u. run_checked flash_step (flash_new (replicate (2 ^ 17) 0xff) (2 ^ 17) (2 ^ 17) 1 0x20 0) (flash_program 0x1234 7) = Some t \<and>
    fl_rom t = (replicate (2 ^ 17) 0xff)[0x1234 := 7] \<and>
    flash_reads t (replicate 10 0x1234) = Some ([0x80, 0xc0, 0x80, 0xc0, 0x80, 0xc0, 0x80, 0xc0, 0x80, 0xc0], u) \<and>
    flash_read u 0x1234 = Some (7, u)"
proof -
  define fd where "fd = flash_new (replicate (2 ^ 17) 0xff) (2 ^ 17) (2 ^ 17) 1 0x20 0"
  have g: "flash_good 17 fd" unfolding fd_def by (rule flash_new_good) simp_all
  have s: "fl_state fd = 0" "\<not> fl_has fd FLASHROM_PARALLEL_EEPROM" "fl_rom fd = replicate (2 ^ 17) 0xff"
    by (simp_all add: fd_def flash_new_def fl_has_def)
  obtain t u where t: "run_checked flash_step fd (flash_program 0x1234 7) = Some t" "fl_rom t = (replicate (2 ^ 17) 0xff)[0x1234 := 7]"
    "flash_reads t (replicate 10 0x1234) = Some (map (\<lambda>i. status_of (fl_rom t ! unat (replicate 10 (0x1234 :: u32) ! i)) i) [0..<10], u)"
    "flash_read u 0x1234 = Some (7, u)"
    using flash_program_byte [OF g _ s(1,2), of "0x1234" "replicate 10 0x1234" 7] s(3) by auto
  have "map (\<lambda>i. status_of (fl_rom t ! unat (replicate 10 (0x1234 :: u32) ! i)) i) [0..<10] = map (status_of 7) [0..<10]"
    using t(2) by (intro map_cong) simp_all
  also have "\<dots> = [0x80, 0xc0, 0x80, 0xc0, 0x80, 0xc0, 0x80, 0xc0, 0x80, 0xc0]" by code_simp
  finally show ?thesis using t unfolding fd_def by (simp only:) blast
qed

subsection \<open>The array is locked\<close>

definition flash_idle :: "flashrom \<Rightarrow> bool" where
  "flash_idle fd \<longleftrightarrow> fl_state fd = 0 \<or> fl_state fd = 1"

fun unlocks :: "nat \<Rightarrow> flash_op \<Rightarrow> bool" where
  "unlocks k (FWrite addr v) = (take_bit k addr = 0x2aaa \<and> v = 0x55)"
| "unlocks k (FRead addr) = False"

lemma locked_step:
  assumes "flash_good k fd" "\<not> fl_has fd FLASHROM_PARALLEL_EEPROM" "flash_idle fd" "\<not> unlocks k ev"
    "flash_step fd ev = Some t"
  shows "fl_rom t = fl_rom fd \<and> flash_idle t \<and> fl_flags t = fl_flags fd"
proof (cases ev)
  case (FWrite addr v)
  define a where "a = take_bit k (flash_addr fd addr)"
  have "flash_addr fd addr = addr" using assms(1) by (simp add: flash_addr_def flash_good_def)
  then have n: "\<not> (a = 0x2aaa \<and> v = 0x55)" using assms(4) FWrite by (simp add: a_def)
  have st: "fl_state fd = 0 \<or> fl_state fd = 1" using assms(3) by (simp add: flash_idle_def)
  have u: "flash_unlock a v (fl_state fd, False) = (if a = 0x5555 \<and> v = 0xaa then (1, True) else (fl_state fd, False))"
    using n st by (auto simp: flash_unlock_def cmd_if_def)
  have e: "flash_erase_prefix a v (x, d) = (x, d)" if "x = 0 \<or> x = 1" for x d
    using that by (auto simp: flash_erase_prefix_def cmd_if_def)
  have c: "flash_command (fd\<lparr>fl_state := x\<rparr>) old a v d =
      Some (False, fd\<lparr>fl_state := (if x = old \<or> \<not> d then 0 else x)\<rparr>)" if "x = 0 \<or> x = 1" for x old d
    using that e [of x d] assms(2) by (auto simp: flash_command_def fl_has_def)
  define w where "w = (if a = 0x5555 \<and> v = 0xaa then flash_command (fd\<lparr>fl_state := 1\<rparr>) (fl_state fd) a v True
     else flash_command (fd\<lparr>fl_state := fl_state fd\<rparr>) (fl_state fd) a v False)"
  have w: "\<exists>x. w = Some (False, fd\<lparr>fl_state := x\<rparr>) \<and> (x = 0 \<or> x = 1)"
    unfolding w_def using c [OF st] c [of 1] by auto
  define C where "C \<longleftrightarrow> flash_addr fd addr * word_of_int (other_byte_mult fd) \<ge> word_of_int (allocsize fd)"
  have "flash_write fd addr v = (if C then Some (False, fd)
      else if v = 0xf0 \<and> fl_state fd > 0 \<and> fl_state fd < 7 then Some (False, fd\<lparr>fl_state := 0\<rparr>) else w)"
    using st unfolding flash_write_def Let_def offset_good(1) [OF assms(1)] a_def [symmetric] u w_def
      C_def [symmetric]
    by auto
  then show ?thesis
    using w assms(3,5) FWrite by (auto simp: flash_idle_def split: if_splits)
next
  case (FRead addr)
  then show ?thesis
    using assms(2,3,5)
    by (auto simp: flash_read_def flash_commit_def flash_status_def Let_def flash_idle_def
        split: if_splits)
qed

text \<open>without a write of 55 to address 2AAA (modulo the size), the second cycle of every unlock
  sequence, no traffic of reads and writes changes a byte of a chip that is not a parallel
  EEPROM.\<close>

theorem flash_locked:
  assumes "flash_inv k rom0 fd" "\<not> fl_has fd FLASHROM_PARALLEL_EEPROM" "flash_idle fd"
    "\<forall>ev \<in> set ops. \<not> unlocks k ev"
  shows "\<exists>t. run_checked flash_step fd ops = Some t \<and> fl_rom t = fl_rom fd"
  using assms
proof (induction ops arbitrary: fd)
  case (Cons ev ops)
  obtain t where t: "flash_step fd ev = Some t" "flash_inv k rom0 t"
    using flash_chip.step_safe [OF Cons.prems(1)] by blast
  have g: "flash_good k fd" using Cons.prems(1) by (simp add: flash_inv_def)
  have s: "fl_rom t = fl_rom fd" "flash_idle t" "fl_flags t = fl_flags fd"
    using locked_step [OF g Cons.prems(2,3) _ t(1)] Cons.prems(4) by auto
  then show ?case
    using Cons.IH [OF t(2)] t(1) Cons.prems by (simp add: fl_has_def)
qed simp

lemma flash_locked_witness:
  "\<exists>t. run_checked flash_step (flash_new (replicate (2 ^ 17) 0xff) (2 ^ 17) (2 ^ 17) 1 0x20 0)
      [FWrite 0x5555 0xaa, FWrite 0x2aaa 0x54, FWrite 0x5555 0xa0, FWrite 3 7] = Some t \<and>
    fl_rom t = replicate (2 ^ 17) 0xff"
proof -
  define fd where "fd = flash_new (replicate (2 ^ 17) 0xff) (2 ^ 17) (2 ^ 17) 1 0x20 0"
  have g: "flash_inv 17 (replicate (2 ^ 17) 0xff) fd" unfolding fd_def
    using flash_new_inv [of "replicate (2 ^ 17) 0xff" 17 "0x20" 0 1] by simp
  have s: "flash_idle fd" "\<not> fl_has fd FLASHROM_PARALLEL_EEPROM" "fl_rom fd = replicate (2 ^ 17) 0xff"
    by (simp_all add: fd_def flash_new_def fl_has_def flash_idle_def)
  show ?thesis
    using flash_locked [OF g s(2,1), of "[FWrite 0x5555 0xaa, FWrite 0x2aaa 0x54, FWrite 0x5555 0xa0, FWrite 3 7]"] s(3)
    by (simp add: fd_def del: flash_step.simps)
qed

subsection \<open>Erasing\<close>

text \<open>The prefix of every erase.\<close>

definition flash_erase_setup :: "flash_op list" where
  "flash_erase_setup = [FWrite 0x5555 0xaa, FWrite 0x2aaa 0x55, FWrite 0x5555 0x80,
     FWrite 0x5555 0xaa, FWrite 0x2aaa 0x55]"

lemma run_erase_setup:
  assumes "flash_good k fd" "14 < k" "fl_state fd = 0"
  shows "run_checked flash_step fd flash_erase_setup = Some (fd\<lparr>fl_state := 6\<rparr>)"
  using assms cmd_addr_small [OF assms(2)]
  by (simp add: flash_erase_setup_def flash_write_at [of k] flash_unlock_def cmd_if_def flash_command_def
      flash_erase_prefix_def)

lemma offset_range: "set (map (\<lambda>i. b + int i) [0..<n]) = {b..<b + int n}"
proof -
  have "x \<in> (\<lambda>i. b + int i) ` {0..<n}" if "b \<le> x" "x < b + int n" for x
    using that by (intro image_eqI [of _ _ "nat (x - b)"]) auto
  then show ?thesis by auto
qed

lemma same_block:
  "x \<in> {2 ^ m * (y div 2 ^ m)..<2 ^ m * (y div 2 ^ m) + 2 ^ m} \<longleftrightarrow> x div 2 ^ m = y div (2 ^ m :: int)"
proof
  assume "x \<in> {2 ^ m * (y div 2 ^ m)..<2 ^ m * (y div 2 ^ m) + 2 ^ m}"
  then have "x = 2 ^ m * (y div 2 ^ m) + (x - 2 ^ m * (y div 2 ^ m))"
    "0 \<le> x - 2 ^ m * (y div 2 ^ m)" "x - 2 ^ m * (y div 2 ^ m) < 2 ^ m" by auto
  then show "x div 2 ^ m = y div 2 ^ m" by (metis int_div_pos_eq)
next
  assume "x div 2 ^ m = y div 2 ^ m"
  moreover have "x = 2 ^ m * (x div 2 ^ m) + x mod 2 ^ m" "0 \<le> x mod 2 ^ m" "x mod 2 ^ m < 2 ^ m" by simp_all
  ultimately show "x \<in> {2 ^ m * (y div 2 ^ m)..<2 ^ m * (y div 2 ^ m) + 2 ^ m}"
    by (metis atLeastLessThan_iff add_less_cancel_left le_add_same_cancel1)
qed

text \<open>the six-cycle sector erase sets every byte of the addressed sector to FF and keeps every
  other byte.\<close>

theorem flash_sector_erase:
  assumes "flash_good k fd" "14 < k" "fl_state fd = 0" "unat addr < 2 ^ k"
  shows "\<exists>t. run_checked flash_step fd (flash_erase_setup @ [FWrite addr 0x30]) = Some t \<and> fl_state t = 200 \<and>
    length (fl_rom t) = length (fl_rom fd) \<and>
    (\<forall>i < length (fl_rom fd). fl_rom t ! i =
       (if int i div sectorsize fd = uint addr div sectorsize fd then 0xff else fl_rom fd ! i))"
proof -
  define fd6 where "fd6 = fd\<lparr>fl_state := 6\<rparr>"
  have g: "flash_good k fd6" using assms(1) by (simp add: fd6_def)
  obtain m where m: "sectorsize fd6 = 2 ^ m" "m \<le> k" "sector_base fd6 addr = 2 ^ m * (uint addr div 2 ^ m)"
     "0 \<le> sector_base fd6 addr" "sector_base fd6 addr + sectorsize fd6 \<le> 2 ^ k"
    using sector_good [OF g uint_less_pow [OF assms(4)]] by blast
  have mult: "other_byte_mult fd6 = 1" and al: "allocsize fd6 = 2 ^ k" and len: "int (length (fl_rom fd6)) = 2 ^ k"
    using g by (simp_all add: flash_good_def)
  have offs: "set (sector_offsets fd6 (sector_base fd6 addr)) =
      {sector_base fd6 addr..<sector_base fd6 addr + 2 ^ m}"
    unfolding sector_offsets_def mult m(1) using offset_range [of "sector_base fd6 addr" "2 ^ m"]
    by (simp add: nat_power_eq)
  obtain t where t: "flash_erase (sector_offsets fd6 (sector_base fd6 addr)) fd6 = Some t" "flash_same fd6 t"
     "\<forall>i < length (fl_rom fd6). fl_rom t ! i =
        (if int i \<in> set (sector_offsets fd6 (sector_base fd6 addr)) then 0xff else fl_rom fd6 ! i)"
    using flash_erase_ok [of "sector_offsets fd6 (sector_base fd6 addr)" fd6] m len unfolding offs by auto
  have in_sector: "int i \<in> set (sector_offsets fd6 (sector_base fd6 addr)) \<longleftrightarrow>
      int i div sectorsize fd = uint addr div sectorsize fd" for i
    unfolding offs unfolding m(3) using m(1) same_block [of "int i" m "uint addr"] by (simp add: fd6_def)
  have "flash_unlock addr 0x30 (6, False) = (6, False)" "flash_erase_prefix addr 0x30 (6, False) = (6, False)"
    by (simp_all add: flash_unlock_def flash_erase_prefix_def cmd_if_def)
  moreover have "sector_base fd6 addr < 2 ^ k" using m by (smt (verit) zero_less_power)
  ultimately have "flash_step fd6 (FWrite addr 0x30) = Some (t\<lparr>fl_state := 200\<rparr>)"
    using flash_write_at [OF g assms(4), of "0x30"] t(1) al
    by (simp add: flash_command_def fd6_def Let_def)
  then have "run_checked flash_step fd (flash_erase_setup @ [FWrite addr 0x30]) = Some (t\<lparr>fl_state := 200\<rparr>)"
    unfolding run_checked_append run_erase_setup [OF assms(1-3)] by (simp add: fd6_def del: flash_step.simps)
  then show ?thesis
    using t(2,3) in_sector by (auto simp: flash_same_def fd6_def)
qed

lemma flash_sector_erase_witness:
  "\<exists>t. run_checked flash_step (flash_new (replicate (2 ^ 17) 0) (2 ^ 17) (2 ^ 17) 1 0x20 0)
      (flash_erase_setup @ [FWrite 0x4001 0x30]) = Some t \<and> fl_rom t ! 0x4000 = 0xff \<and> fl_rom t ! 0x3fff = 0"
proof -
  define fd where "fd = flash_new (replicate (2 ^ 17) 0) (2 ^ 17) (2 ^ 17) 1 0x20 0"
  have g: "flash_good 17 fd" unfolding fd_def by (rule flash_new_good) simp_all
  have s: "fl_state fd = 0" "fl_rom fd = replicate (2 ^ 17) 0" "sectorsize fd = 16384"
    by (simp_all add: fd_def flash_new_def fl_has_def)
  show ?thesis
    using flash_sector_erase [OF g _ s(1), of "0x4001"] s(2,3)
    unfolding fd_def [symmetric] by auto
qed


subsection \<open>Page writes of parallel EEPROMs\<close>

text \<open>What the page buffer holds after the bytes \<open>cs\<close> went to offsets \<open>m\<close> on of page \<open>p\<close>.\<close>

definition buffered :: "flashrom \<Rightarrow> nat \<Rightarrow> nat \<Rightarrow> u8 list \<Rightarrow> bool" where
  "buffered fd p m cs \<longleftrightarrow> lastpagewrite fd = int p \<and> pagemodified fd \<and> fl_state fd = 8 \<and> writeprot fd \<le> 0 \<and>
     (\<forall>j < 128. fl_mpage fd ! j = (m \<le> j \<and> j < m + length cs)) \<and>
     (\<forall>j < length cs. fl_page fd ! (m + j) = cs ! j)"

lemma int_and_low: "(x :: int) AND (2 ^ m - 1) = x mod 2 ^ m"
  by (simp add: take_bit_eq_mask mask_eq_exp_minus_1 flip: take_bit_eq_mod)

lemma page_parts:
  assumes "pagesize fd = 2 ^ w" "2 ^ w dvd p" "m < 2 ^ w"
  shows "int (p + m) AND NOT (pagesize fd - 1) = int p" "nat (int (p + m) AND (pagesize fd - 1)) = m"
proof -
  obtain q where q: "p = 2 ^ w * q" using assms(2) by (auto simp: dvd_def)
  have "int (p + m) div 2 ^ w = int q" "int (p + m) mod 2 ^ w = int m"
    using assms(3) by (simp_all add: q)
  then show "int (p + m) AND NOT (pagesize fd - 1) = int p" "nat (int (p + m) AND (pagesize fd - 1)) = m"
    unfolding assms(1) int_and_not_low int_and_low by (simp_all add: q)
qed

lemma buffer_byte:
  assumes "flash_good k fd" "fl_has fd FLASHROM_PARALLEL_EEPROM" "pagesize fd = 2 ^ w" "2 ^ w dvd p"
    "m + length cs < 2 ^ w" "p + 2 ^ w \<le> 2 ^ k" "writeprot fd \<le> 0"
    "cs = [] \<and> (\<forall>j < 128. \<not> fl_mpage fd ! j) \<or> buffered fd p m cs"
  shows "\<exists>t. writeflash fd (int (p + (m + length cs))) b = Some t \<and> flash_good k t \<and> buffered t p m (cs @ [b]) \<and>
    fl_rom t = fl_rom fd \<and> fl_flags t = fl_flags fd \<and> pagesize t = pagesize fd"
proof -
  have a: "0 \<le> int (p + (m + length cs))" "int (p + (m + length cs)) < 2 ^ k"
  proof -
    have "p + (m + length cs) < 2 ^ k" using assms(5,6) by linarith
    then show "int (p + (m + length cs)) < 2 ^ k" by (metis of_nat_less_iff of_nat_numeral of_nat_power)
  qed simp
  obtain t where t: "writeflash fd (int (p + (m + length cs))) b = Some t" "flash_good k t"
    using writeflash_ok [OF assms(1) a] by blast
  have w: "(2 :: nat) ^ w \<le> 128" "length (fl_page fd) = 128" "length (fl_mpage fd) = 128"
  proof -
    have "(2 :: int) ^ w \<le> 128" using assms(1,3) by (auto simp: flash_good_def)
    then show "(2 :: nat) ^ w \<le> 128" by (metis of_nat_le_iff of_nat_numeral of_nat_power)
    show "length (fl_page fd) = 128" "length (fl_mpage fd) = 128" using assms(1) by (simp_all add: flash_good_def)
  qed
  note pp = page_parts [OF assms(3,4,5)]
  have l: "m + length cs < 128" using w assms(5) by linarith
  define fd1 where "fd1 = page_load fd (int p)"
  have f1: "lastpagewrite fd1 = int p" "writeprot fd1 \<le> 0" "fl_rom fd1 = fl_rom fd" "fl_flags fd1 = fl_flags fd"
    "pagesize fd1 = pagesize fd" "length (fl_page fd1) = 128" "length (fl_mpage fd1) = 128"
    "\<forall>j < 128. fl_mpage fd1 ! j = (m \<le> j \<and> j < m + length cs)"
    "\<forall>j < length cs. fl_page fd1 ! (m + j) = cs ! j"
    using assms(7,8) w by (auto simp: fd1_def page_load_def buffered_def)
  have "t = fd1\<lparr>fl_page := (fl_page fd1)[m + length cs := b],
      fl_mpage := (fl_mpage fd1)[m + length cs := True], pagemodified := True, fl_state := 7 + 1\<rparr>"
    using t(1) assms(2) f1(2) unfolding writeflash_def pp Let_def fd1_def [symmetric] by simp
  then have "buffered t p m (cs @ [b]) \<and> fl_rom t = fl_rom fd \<and> fl_flags t = fl_flags fd \<and> pagesize t = pagesize fd"
    using f1 l by (auto simp: buffered_def nth_list_update nth_append less_Suc_eq)
  then show ?thesis using t by blast
qed

lemma state_drop: "fl_state fd = 0 \<Longrightarrow> fd\<lparr>fl_state := 0\<rparr> = fd"
  by simp

lemma buffer_first:
  assumes "flash_good k fd" "fl_has fd FLASHROM_PARALLEL_EEPROM" "fl_state fd = 0" "unat addr < 2 ^ k"
    "addr \<noteq> 0x5555 \<or> b \<noteq> 0xaa"
  shows "flash_write fd addr b = map_option (\<lambda>fd. (True, fd)) (writeflash fd (uint addr) b)"
proof -
  have "flash_unlock addr b (0, False) = (0, False)" "flash_erase_prefix addr b (0, False) = (0, False)"
    using assms(5) by (auto simp: flash_unlock_def flash_erase_prefix_def cmd_if_def)
  moreover have "sint (addr * word_of_int (other_byte_mult fd)) = uint addr"
    using offset_good(2) [OF assms(1), of addr] addr_in_range(1) [OF assms(1,4)] by simp
  moreover have "other_byte_mult (fd\<lparr>fl_state := 0\<rparr>) = other_byte_mult fd" "fl_has (fd\<lparr>fl_state := 0\<rparr>) = fl_has fd"
    by (auto simp: other_byte_mult_def fl_has_def)
  ultimately show ?thesis
    using flash_write_at [OF assms(1,4), of b] assms(2,3) state_drop [OF assms(3)]
    by (simp add: flash_command_def Let_def)
qed

lemma unat_0x5555: "unat (0x5555 :: u32) = 0x5555"
  by simp

lemma word_offset:
  assumes "flash_good k fd" "n < 2 ^ k"
  shows "unat (of_nat n :: u32) = n" "uint (of_nat n :: u32) = int n"
proof -
  have "(2 :: nat) ^ k \<le> 2 ^ 30" using assms(1) by (intro power_increasing) (auto simp: flash_good_def)
  then have "n < 2 ^ 32" using assms(2) by (rule_tac less_le_trans [OF assms(2)]) (simp add: order_trans)
  then have "take_bit 32 n = n" by (rule take_bit_nat_eq_self)
  then show "unat (of_nat n :: u32) = n" by (simp add: unsigned_of_nat)
  then show "uint (of_nat n :: u32) = int n" by (metis uint_nat)
qed

lemma buffer_run:
  assumes "flash_good k fd" "fl_has fd FLASHROM_PARALLEL_EEPROM" "pagesize fd = 2 ^ w" "2 ^ w dvd p"
    "p + 2 ^ w \<le> 2 ^ k" "writeprot fd \<le> 0" "fl_state fd = 0"
    "\<forall>j < 128. \<not> fl_mpage fd ! j"
    "m + length bs \<le> 2 ^ w" "bs \<noteq> []" "p + m \<noteq> 0x5555 \<or> hd bs \<noteq> 0xaa"
  shows "\<exists>t. run_checked flash_step fd (map (\<lambda>i. FWrite (of_nat (p + (m + i))) (bs ! i)) [0..<length bs]) = Some t \<and>
    flash_good k t \<and> buffered t p m bs \<and> fl_rom t = fl_rom fd \<and> fl_flags t = fl_flags fd \<and> pagesize t = pagesize fd"
  using assms(9-11)
proof (induction bs rule: rev_induct)
  case (snoc b cs)
  let ?n = "p + (m + length cs)"
  have n: "?n < 2 ^ k" using assms(5) snoc.prems(1) by simp
  note wo = word_offset [OF assms(1) n]
  have ms: "map (\<lambda>i. FWrite (of_nat (p + (m + i))) ((cs @ [b]) ! i)) [0..<length (cs @ [b])] =
      map (\<lambda>i. FWrite (of_nat (p + (m + i))) (cs ! i)) [0..<length cs] @ [FWrite (of_nat ?n) b]"
    by (simp add: nth_append)
  show ?case
  proof (cases "cs = []")
    case True
    obtain t where t: "writeflash fd (int (p + (m + length cs))) b = Some t" "flash_good k t" "buffered t p m (cs @ [b])"
      "fl_rom t = fl_rom fd" "fl_flags t = fl_flags fd" "pagesize t = pagesize fd"
      using buffer_byte [OF assms(1-4) _ assms(5,6), of m cs b] assms(8) snoc.prems(1) True by auto
    have "of_nat ?n \<noteq> (0x5555 :: u32) \<or> b \<noteq> 0xaa"
      using snoc.prems(3) True wo(1) by (metis append_Nil add_0_right list.sel(1) list.size(3) unat_0x5555)
    from buffer_first [OF assms(1,2,7) _ this] have "flash_step fd (FWrite (of_nat ?n) b) = Some t"
      by (simp only: flash_step.simps wo n t(1) simp_thms option.map snd_conv)
    then show ?thesis using t True unfolding ms by (simp add: run_checked_append del: flash_step.simps)
  next
    case False
    obtain u where u: "run_checked flash_step fd (map (\<lambda>i. FWrite (of_nat (p + (m + i))) (cs ! i)) [0..<length cs]) = Some u"
      "flash_good k u" "buffered u p m cs" "fl_rom u = fl_rom fd" "fl_flags u = fl_flags fd" "pagesize u = pagesize fd"
      using snoc False by auto
    have pu: "fl_has u FLASHROM_PARALLEL_EEPROM" "pagesize u = 2 ^ w" "writeprot u \<le> 0" "fl_state u = 8"
      using u assms(2,3) by (simp_all add: fl_has_def buffered_def)
    obtain t where t: "writeflash u (int (p + (m + length cs))) b = Some t" "flash_good k t" "buffered t p m (cs @ [b])"
      "fl_rom t = fl_rom u" "fl_flags t = fl_flags u" "pagesize t = pagesize u"
      using buffer_byte [OF u(2) pu(1,2) assms(4) _ assms(5) pu(3), of m cs b] u(3) snoc.prems(1) by auto
    have "flash_step u (FWrite (of_nat ?n) b) = Some t"
      using flash_write_at [OF u(2), of "of_nat ?n" b] wo n t(1) pu(4) by simp
    then show ?thesis using t u unfolding ms by (simp add: run_checked_append del: flash_step.simps)
  qed
qed simp

text \<open>The read that follows moves the buffer to the array.\<close>

lemma page_store_block:
  assumes "distinct is" "\<forall>i \<in> set is. 0 \<le> lastpagewrite fd + int i \<and> lastpagewrite fd + int i < int (length (fl_rom fd))"
  shows "\<exists>t. page_store is fd = Some t \<and> length (fl_rom t) = length (fl_rom fd) \<and> fl_state t = fl_state fd \<and>
    flash_same fd t \<and>
    (\<forall>j < length (fl_rom fd). fl_rom t ! j =
       (if \<exists>i \<in> set is. fl_mpage fd ! i \<and> int j = lastpagewrite fd + int i
        then fl_page fd ! nat (int j - lastpagewrite fd) else fl_rom fd ! j))"
  using assms
proof (induction "is" arbitrary: fd)
  case (Cons i "is")
  define off where "off = lastpagewrite fd + int i"
  have o: "0 \<le> off" "off < int (length (fl_rom fd))" using Cons.prems(2) by (auto simp: off_def)
  define fd1 where "fd1 = (if fl_rom fd ! nat off \<noteq> fl_page fd ! i
      then setmodified (rom_set fd off (fl_page fd ! i)) off else fd)\<lparr>fl_mpage := (fl_mpage fd)[i := False]\<rparr>"
  define fd2 where "fd2 = (if fl_mpage fd ! i then fd1 else fd)"
  have f2: "length (fl_rom fd2) = length (fl_rom fd)" "fl_page fd2 = fl_page fd" "lastpagewrite fd2 = lastpagewrite fd"
    "fl_state fd2 = fl_state fd" "flash_same fd fd2"
    by (auto simp: fd2_def fd1_def setmodified_def rom_set_def flash_same_def)
  have mp: "fl_mpage fd2 ! x = fl_mpage fd ! x" if "x \<in> set is" for x
  proof -
    have "i \<noteq> x" using that Cons.prems(1) by auto
    then show ?thesis by (simp add: fd2_def fd1_def setmodified_def rom_set_def)
  qed
  have rom: "fl_rom fd2 ! j = (if fl_mpage fd ! i \<and> int j = off then fl_page fd ! i else fl_rom fd ! j)"
    if "j < length (fl_rom fd)" for j
    using that o by (auto simp: fd2_def fd1_def setmodified_def rom_set_def nth_list_update)
  have "page_store (i # is) fd = page_store is fd2"
    using o by (auto simp: fd2_def fd1_def rom_get_def Let_def simp flip: off_def)
  moreover obtain t where t: "page_store is fd2 = Some t" "length (fl_rom t) = length (fl_rom fd2)" "fl_state t = fl_state fd2"
    "flash_same fd2 t"
    "\<forall>j < length (fl_rom fd2). fl_rom t ! j =
       (if \<exists>i \<in> set is. fl_mpage fd2 ! i \<and> int j = lastpagewrite fd2 + int i
        then fl_page fd2 ! nat (int j - lastpagewrite fd2) else fl_rom fd2 ! j)"
    using Cons.IH [of fd2] Cons.prems f2 by auto
  moreover have "fl_rom t ! j = (if \<exists>i \<in> set (i # is). fl_mpage fd ! i \<and> int j = lastpagewrite fd + int i
        then fl_page fd ! nat (int j - lastpagewrite fd) else fl_rom fd ! j)" if "j < length (fl_rom fd)" for j
    using t(5) that f2 mp rom [OF that] by (auto simp: off_def)
  ultimately show ?case
    using f2 flash_same_trans by (intro exI [of _ t]) auto
qed simp

text \<open>on a parallel EEPROM, writing \<open>bs\<close> to successive addresses inside one page, without any
  command, and then reading anywhere stores exactly those bytes. (The first byte must not be the
  first cycle of an unlock sequence.)\<close>

theorem flash_page_program:
  assumes "flash_good k fd" "fl_has fd FLASHROM_PARALLEL_EEPROM" "pagesize fd = 2 ^ w" "2 ^ w dvd p"
    "p + 2 ^ w \<le> 2 ^ k" "writeprot fd \<le> 0" "fl_state fd = 0"
    "\<forall>j < 128. \<not> fl_mpage fd ! j"
    "m + length bs \<le> 2 ^ w" "bs \<noteq> []" "p + m \<noteq> 0x5555 \<or> hd bs \<noteq> 0xaa" "unat addr < 2 ^ k"
  shows "\<exists>t v u. run_checked flash_step fd (map (\<lambda>i. FWrite (of_nat (p + (m + i))) (bs ! i)) [0..<length bs]) = Some t \<and>
    flash_read t addr = Some (v, u) \<and>
    fl_rom u = take (p + m) (fl_rom fd) @ bs @ drop (p + m + length bs) (fl_rom fd)"
proof -
  obtain t where t: "run_checked flash_step fd (map (\<lambda>i. FWrite (of_nat (p + (m + i))) (bs ! i)) [0..<length bs]) = Some t"
    "flash_good k t" "buffered t p m bs" "fl_rom t = fl_rom fd" "fl_flags t = fl_flags fd" "pagesize t = pagesize fd"
    using buffer_run [OF assms(1-11)] by blast
  let ?t = "t\<lparr>pagemodified := False\<rparr>"
  have L: "length (fl_rom fd) = 2 ^ k" using assms(1) by (simp add: flash_good_def)
  have w: "nat (pagesize t) = 2 ^ w" "(2 :: nat) ^ w \<le> 128" "int (2 ^ w) = 2 ^ w"
  proof -
    show "nat (pagesize t) = 2 ^ w" using t(6) assms(3) by (simp add: nat_power_eq)
    have "(2 :: int) ^ w \<le> 128" using assms(1,3) by (auto simp: flash_good_def)
    then show "(2 :: nat) ^ w \<le> 128" by (metis of_nat_le_iff of_nat_numeral of_nat_power)
  qed simp
  have lp: "lastpagewrite t = int p" "pagemodified t" "fl_state t = 8"
    and mp: "\<forall>j < 128. fl_mpage t ! j = (m \<le> j \<and> j < m + length bs)"
    and pg: "\<forall>j < length bs. fl_page t ! (m + j) = bs ! j"
    using t(3) by (simp_all add: buffered_def)
  have dist: "distinct [0..<nat (pagesize t)]" by simp
  have rng: "\<forall>i \<in> set [0..<nat (pagesize t)]. 0 \<le> lastpagewrite ?t + int i \<and> lastpagewrite ?t + int i < int (length (fl_rom ?t))"
  proof
    fix i assume "i \<in> set [0..<nat (pagesize t)]"
    then have "p + i < length (fl_rom fd)" using w(1) L assms(5) by simp
    then show "0 \<le> lastpagewrite ?t + int i \<and> lastpagewrite ?t + int i < int (length (fl_rom ?t))"
      using lp t(4) by simp
  qed
  obtain u where u: "page_store [0..<nat (pagesize t)] ?t = Some u" "length (fl_rom u) = length (fl_rom ?t)" "fl_state u = fl_state ?t"
    "flash_same ?t u"
    "\<forall>j < length (fl_rom ?t). fl_rom u ! j =
       (if \<exists>i \<in> set [0..<nat (pagesize t)]. fl_mpage ?t ! i \<and> int j = lastpagewrite ?t + int i
        then fl_page ?t ! nat (int j - lastpagewrite ?t) else fl_rom ?t ! j)"
    using page_store_block [OF dist rng] by blast
  have c: "flash_commit t = Some u"
    using u(1) lp assms(2) t(5) by (simp add: flash_commit_def fl_has_def)
  have hit: "(\<exists>i \<in> set [0..<nat (pagesize t)]. fl_mpage t ! i \<and> int j = int p + int i) \<longleftrightarrow>
      p + m \<le> j \<and> j < p + m + length bs" for j
  proof
    assume "\<exists>i \<in> set [0..<nat (pagesize t)]. fl_mpage t ! i \<and> int j = int p + int i"
    then obtain i where "i < 2 ^ w" "fl_mpage t ! i" "j = p + i" using w(1) by auto
    then show "p + m \<le> j \<and> j < p + m + length bs" using mp w(2) by auto
  next
    assume "p + m \<le> j \<and> j < p + m + length bs"
    then have "j - p < 2 ^ w" "m \<le> j - p" "j - p < m + length bs" "j = p + (j - p)" using assms(9) by auto
    then show "\<exists>i \<in> set [0..<nat (pagesize t)]. fl_mpage t ! i \<and> int j = int p + int i"
      using mp w(2) unfolding w(1) by (intro bexI [of _ "j - p"]) auto
  qed
  have "fl_rom u = take (p + m) (fl_rom fd) @ bs @ drop (p + m + length bs) (fl_rom fd)"
  proof (rule nth_equalityI)
    have "p + m + length bs \<le> length (fl_rom fd)" using assms(5,9) L by linarith
    then show "length (fl_rom u) = length (take (p + m) (fl_rom fd) @ bs @ drop (p + m + length bs) (fl_rom fd))"
      using u(2) t(4) by simp
    fix j assume "j < length (fl_rom u)"
    then have "fl_rom u ! j = (if p + m \<le> j \<and> j < p + m + length bs then fl_page t ! nat (int j - int p) else fl_rom fd ! j)"
      using u(2,5) hit [of j] lp t(4) by simp
    moreover have "fl_page t ! nat (int j - int p) = bs ! (j - (p + m))" if "p + m \<le> j" "j < p + m + length bs"
    proof -
      have "nat (int j - int p) = m + (j - (p + m))" "j - (p + m) < length bs" using that by auto
      then show ?thesis using pg by simp
    qed
    ultimately show "fl_rom u ! j = (take (p + m) (fl_rom fd) @ bs @ drop (p + m + length bs) (fl_rom fd)) ! j"
      using \<open>j < length (fl_rom u)\<close> u(2) t(4) by (auto simp: nth_append)
  qed
  moreover have "\<exists>v r. flash_read t addr = Some (v, r) \<and> fl_rom r = fl_rom u"
  proof -
    have m1: "other_byte_mult t = 1" using t(2) by (simp add: flash_good_def)
    have mu: "other_byte_mult u = other_byte_mult t" "fl_mask u = fl_mask t"
      using u(4) by (simp_all add: flash_same_def other_byte_mult_def)
    have a: "flash_addr t addr = addr" "addr AND word_of_int (fl_mask u) = addr" "\<not> addr \<ge> word_of_int (allocsize t)"
      "sint (addr * word_of_int (other_byte_mult u)) = uint addr" "other_byte_mult t = 1"
      using m1 mu offset_good(1,2) [OF t(2), of addr] addr_in_range [OF t(2) assms(12)]
      by (simp_all add: flash_addr_def)
    have "uint addr < int (length (fl_rom u))"
      using uint_less_pow [OF assms(12)] u(2) t(4) L by simp
    then have "\<exists>v r. flash_status u addr = Some (v, r) \<and> fl_rom r = fl_rom u"
      using a(4) u(3) lp(3) by (simp add: flash_status_def rom_get_def Let_def)
    then show ?thesis using a c by (simp add: flash_read_def Let_def)
  qed
  ultimately show ?thesis using t(1) by metis
qed

lemma flash_page_program_witness:
  "\<exists>t v u. run_checked flash_step (flash_new (replicate (2 ^ 16) 0xff) (2 ^ 16) (2 ^ 16) 0xbf 0x5d FLASHROM_PARALLEL_EEPROM)
       (map (\<lambda>i. FWrite (of_nat (128 + (5 + i))) ([1, 2, 3] ! i)) [0..<length [1, 2, 3 :: u8]]) = Some t \<and>
    flash_read t 0 = Some (v, u) \<and>
    fl_rom u = take (128 + 5) (replicate (2 ^ 16) 0xff) @ [1, 2, 3] @ drop (128 + 5 + 3) (replicate (2 ^ 16) 0xff)"
proof -
  define fd where "fd = flash_new (replicate (2 ^ 16) 0xff) (2 ^ 16) (2 ^ 16) 0xbf 0x5d FLASHROM_PARALLEL_EEPROM"
  have g: "flash_good 16 fd" unfolding fd_def by (rule flash_new_good) (simp_all add: FLASHROM_PARALLEL_EEPROM_def)
  have s: "fl_has fd FLASHROM_PARALLEL_EEPROM" "pagesize fd = 2 ^ 7" "writeprot fd \<le> 0" "fl_state fd = 0"
    "\<forall>j < 128. \<not> fl_mpage fd ! j" "fl_rom fd = replicate (2 ^ 16) 0xff"
    by (simp_all add: fd_def flash_new_def fl_has_def FLASHROM_PARALLEL_EEPROM_def FLASHROM_DATA_PROTECT_def)
  have d: "(2 :: nat) ^ 7 dvd 128" by simp
  show ?thesis
    using flash_page_program [OF g s(1,2) d _ s(3,4,5), of 5 "[1, 2, 3]" 0] unfolding s(6) fd_def [symmetric]
    by simp
qed

subsection \<open>Configurations in which an erase leaves the ROM\<close>

lemma chip_offsets_out:
  assumes "0 < allocsize fd" "int (length (fl_rom fd)) \<le> (allocsize fd - 1) * other_byte_mult fd"
    "length (fl_rom fd') = length (fl_rom fd)"
  shows "flash_erase (chip_offsets fd) fd' = None"
proof -
  have "(allocsize fd - 1) * other_byte_mult fd \<in> set (chip_offsets fd)"
    using assms(1) unfolding chip_offsets_def
    by (auto intro!: image_eqI [of _ _ "nat (allocsize fd - 1)"])
  then show ?thesis
    using assms(2,3) by (intro flash_erase_out) simp_all
qed

lemma sector_offsets_out:
  assumes "0 < sectorsize fd" "int (length (fl_rom fd)) \<le> (saddr + (sectorsize fd - 1)) * other_byte_mult fd"
    "length (fl_rom fd') = length (fl_rom fd)"
  shows "flash_erase (sector_offsets fd saddr) fd' = None"
proof -
  have "(saddr + (sectorsize fd - 1)) * other_byte_mult fd \<in> set (sector_offsets fd saddr)"
    using assms(1) unfolding sector_offsets_def
    by (auto intro!: image_eqI [of _ _ "nat (sectorsize fd - 1)"])
  then show ?thesis
    using assms(2,3) by (intro flash_erase_out) simp_all
qed

text \<open>the 32 KB flash of the DKB and RapidFire boards (\<^verbatim>\<open>ncr9x_scsi.c\<close>: device code DC,
  hence a 64 KB sector) accepts the sector erase command, and its loop then writes beyond the
  32768 bytes that were allocated.\<close>

theorem flash_dkb_sector_erase_overruns:
  assumes "length rom = 32768"
  shows "run_checked flash_step (flash_new rom 32768 32768 0x1f 0xdc FLASHROM_PARALLEL_EEPROM)
    (flash_erase_setup @ [FWrite 0 0x30]) = None"
proof -
  define fd where "fd = flash_new rom 32768 32768 0x1f 0xdc FLASHROM_PARALLEL_EEPROM"
  have f: "fl_state fd = 0" "allocsize fd = 32768" "fl_mask fd = 32767" "sectorsize fd = 65536" "length (fl_rom fd) = 32768"
    "other_byte_mult (fd\<lparr>fl_state := x\<rparr>) = 1" "other_byte_mult fd = 1" "flash_addr (fd\<lparr>fl_state := x\<rparr>) a = a" "flash_addr fd a = a" for x a
    by (simp_all add: fd_def flash_new_def assms other_byte_mult_def flash_addr_def FLASHROM_PARALLEL_EEPROM_def
        FLASHROM_SKIP_EVERY_OTHER_BYTE_def FLASHROM_EVERY_OTHER_BYTE_def)
  have "run_checked flash_step fd flash_erase_setup = Some (fd\<lparr>fl_state := 6\<rparr>)"
    by (simp add: flash_erase_setup_def flash_write_def f flash_unlock_def cmd_if_def flash_command_def
      flash_erase_prefix_def Let_def)
  moreover have "flash_erase (sector_offsets (fd\<lparr>fl_state := 6\<rparr>) 0) (fd\<lparr>fl_state := 6\<rparr>) = None"
    by (rule sector_offsets_out) (simp_all add: f)
  moreover have "sector_base (fd\<lparr>fl_state := 6\<rparr>) 0 = 0" by (simp add: sector_base_def)
  ultimately show ?thesis
    unfolding fd_def [symmetric] run_checked_append
    by (simp add: flash_write_def f flash_unlock_def cmd_if_def flash_command_def flash_erase_prefix_def Let_def)
qed

lemma flash_dkb_sector_erase_overruns_witness:
  "run_checked flash_step (flash_new (replicate 32768 0) 32768 32768 0x1f 0xdc FLASHROM_PARALLEL_EEPROM)
    (flash_erase_setup @ [FWrite 0 0x30]) = None"
  by (rule flash_dkb_sector_erase_overruns) simp

text \<open>the interleaved flash of the Wildfire (\<^verbatim>\<open>cpuboard.c\<close>: two chips of 32 KB in 64 KB) accepts the
  chip erase command; the loop runs over \<open>allocsize\<close> bytes and doubles each offset, so it writes
  beyond the 65536 bytes that were allocated.\<close>

theorem flash_wildfire_chip_erase_overruns:
  assumes "length rom = 65536"
  shows "run_checked flash_step (flash_new rom 32768 65536 1 0x20 (FLASHROM_EVERY_OTHER_BYTE OR FLASHROM_PARALLEL_EEPROM))
    [FWrite 0xaaaa 0xaa, FWrite 0x5554 0x55, FWrite 0xaaaa 0x80, FWrite 0xaaaa 0xaa, FWrite 0x5554 0x55,
     FWrite 0xaaaa 0x10] = None"
proof -
  define fd where "fd = flash_new rom 32768 65536 1 0x20 (FLASHROM_EVERY_OTHER_BYTE OR FLASHROM_PARALLEL_EEPROM)"
  have f: "fl_state fd = 0" "allocsize fd = 65536" "fl_mask fd = 32767" "length (fl_rom fd) = 65536"
    "other_byte_mult (fd\<lparr>fl_state := x\<rparr>) = 2" "other_byte_mult fd = 2"
    "flash_addr (fd\<lparr>fl_state := x\<rparr>) a = drop_bit 1 a" "flash_addr fd a = drop_bit 1 a" for x a
    by (simp_all add: fd_def flash_new_def assms other_byte_mult_def flash_addr_def FLASHROM_PARALLEL_EEPROM_def
        FLASHROM_SKIP_EVERY_OTHER_BYTE_def FLASHROM_EVERY_OTHER_BYTE_def)
  have "flash_erase (chip_offsets (fd\<lparr>fl_state := 6\<rparr>)) (fd\<lparr>fl_state := 6\<rparr>) = None"
    by (rule chip_offsets_out) (simp_all add: f)
  then show ?thesis
    unfolding fd_def [symmetric]
    by (simp add: flash_write_def f flash_unlock_def cmd_if_def flash_command_def flash_erase_prefix_def Let_def)
qed

lemma flash_wildfire_chip_erase_overruns_witness:
  "run_checked flash_step (flash_new (replicate 65536 0) 32768 65536 1 0x20
      (FLASHROM_EVERY_OTHER_BYTE OR FLASHROM_PARALLEL_EEPROM))
    [FWrite 0xaaaa 0xaa, FWrite 0x5554 0x55, FWrite 0xaaaa 0x80, FWrite 0xaaaa 0xaa, FWrite 0x5554 0x55,
     FWrite 0xaaaa 0x10] = None"
  by (rule flash_wildfire_chip_erase_overruns) simp

end
