(* ===== verification/Rtc.thy ===== *)
theory Rtc
  imports Prelude
begin

text \<open>
  The battery-backed clock chips of \<^verbatim>\<open>sources/src/rtc.c\<close>: the OKI MSM6242 of the A500 and A2000
  expansions and the Ricoh RF5C01A of the A3000 and A4000. Both show the broken-down host time as BCD
  digits; the Ricoh also has two banks of 4-bit memory and an alarm bank. The time is a parameter (the
  code takes it from its argument or from \<^verbatim>\<open>localtime\<close>). Register numbers are 0 to 15.

  Shown: the digits read are the decimal digits of the time, in both hour modes, the memory banks
  are thirteen independent 4-bit cells each, alarm registers keep the bits the chip has, and the
  chip asks to be saved when its contents change.
\<close>

section \<open>State\<close>

record tm =
  tm_sec :: int
  tm_min :: int
  tm_hour :: int
  tm_mday :: int
  tm_mon :: int
  tm_year :: int
  tm_wday :: int

record rtc_msm_data =
  msm_d :: u8
  msm_e :: u8
  msm_f :: u8
  msm_delayed_write :: int
  yearmode :: bool

record rtc_ricoh_data =
  rf_d :: u8
  rf_e :: u8
  rf_f :: u8
  rtc_memory :: "u8 list"
  rtc_alarm :: "u8 list"
  rf_delayed_write :: int

definition RF5C01A_RAM_SIZE :: nat where "RF5C01A_RAM_SIZE = 16"

section \<open>MSM6242\<close>

definition get_clock_msm :: "rtc_msm_data \<Rightarrow> nat \<Rightarrow> tm \<Rightarrow> u8" where
  "get_clock_msm data addr ct =
     (let year = (if yearmode data \<and> tm_year ct \<ge> 100 then tm_year ct - 100 else tm_year ct)
      in if addr = 0x0 then word_of_int (tm_sec ct smod 10)
         else if addr = 0x1 then word_of_int (tm_sec ct sdiv 10)
         else if addr = 0x2 then word_of_int (tm_min ct smod 10)
         else if addr = 0x3 then word_of_int (tm_min ct sdiv 10)
         else if addr = 0x4 then word_of_int (tm_hour ct smod 10)
         else if addr = 0x5 then
           (if msm_f data AND 4 \<noteq> 0 then word_of_int (tm_hour ct sdiv 10)
            else word_of_int ((tm_hour ct smod 12) sdiv 10) OR (if tm_hour ct \<ge> 12 then 4 else 0))
         else if addr = 0x6 then word_of_int (tm_mday ct smod 10)
         else if addr = 0x7 then word_of_int (tm_mday ct sdiv 10)
         else if addr = 0x8 then word_of_int ((tm_mon ct + 1) smod 10)
         else if addr = 0x9 then word_of_int ((tm_mon ct + 1) sdiv 10)
         else if addr = 0xA then word_of_int (year smod 10)
         else if addr = 0xB then word_of_int ((year sdiv 10) AND 0x0f)
         else if addr = 0xC then word_of_int (tm_wday ct)
         else if addr = 0xD then msm_d data
         else if addr = 0xE then msm_e data
         else if addr = 0xF then msm_f data
         else 0)"

definition put_clock_msm :: "rtc_msm_data \<Rightarrow> nat \<Rightarrow> u8 \<Rightarrow> rtc_msm_data" where
  "put_clock_msm data addr v =
     (if addr = 0xD then
        if msm_d data \<noteq> v AND (1 OR 8) then data\<lparr>msm_d := v AND (1 OR 8), msm_delayed_write := -1\<rparr> else data
      else if addr = 0xE then
        if msm_e data \<noteq> v then data\<lparr>msm_e := v, msm_delayed_write := -1\<rparr> else data
      else if addr = 0xF then
        if msm_f data \<noteq> v then data\<lparr>msm_f := v, msm_delayed_write := -1\<rparr> else data
      else data)"

section \<open>RF5C01A\<close>

definition rf_bank :: "rtc_ricoh_data \<Rightarrow> u8" where
  "rf_bank data = rf_d data AND 3"

definition get_clock_ricoh :: "rtc_ricoh_data \<Rightarrow> nat \<Rightarrow> tm \<Rightarrow> u8" where
  "get_clock_ricoh data addr ct =
     (if rf_bank data \<ge> 2 \<and> addr < 0x0d then
        drop_bit (if rf_bank data = 2 then 0 else 4) (rtc_memory data ! addr) AND 0x0f
      else if rf_bank data = 1 \<and> addr < 0x0d then rtc_alarm data ! addr
      else if addr = 0x0 then word_of_int (tm_sec ct smod 10)
      else if addr = 0x1 then word_of_int (tm_sec ct sdiv 10)
      else if addr = 0x2 then word_of_int (tm_min ct smod 10)
      else if addr = 0x3 then word_of_int (tm_min ct sdiv 10)
      else if addr = 0x4 then word_of_int (tm_hour ct smod 10)
      else if addr = 0x5 then
        (if rtc_alarm data ! 10 AND 1 \<noteq> 0 then word_of_int (tm_hour ct sdiv 10)
         else word_of_int ((tm_hour ct smod 12) sdiv 10) OR (if tm_hour ct \<ge> 12 then 2 else 0))
      else if addr = 0x6 then word_of_int (tm_wday ct)
      else if addr = 0x7 then word_of_int (tm_mday ct smod 10)
      else if addr = 0x8 then word_of_int (tm_mday ct sdiv 10)
      else if addr = 0x9 then word_of_int ((tm_mon ct + 1) smod 10)
      else if addr = 0xA then word_of_int ((tm_mon ct + 1) sdiv 10)
      else if addr = 0xB then word_of_int ((tm_year ct smod 100) smod 10)
      else if addr = 0xC then word_of_int ((tm_year ct smod 100) sdiv 10)
      else if addr = 0xD then rf_d data
      else 0)"

text \<open>The bits that the alarm registers have.\<close>

definition alarm_masks :: "u8 list \<Rightarrow> u8 list" where
  "alarm_masks al =
     (let al = al[12 := 0]; al = al[9 := al ! 12]; al = al[1 := al ! 9]; al = al[0 := al ! 1];
          al = al[3 := al ! 3 AND NOT 0x8];
          al = al[5 := al ! 5 AND NOT 0xc];
          al = al[6 := al ! 6 AND NOT 0x8];
          al = al[8 := al ! 8 AND NOT 0xc];
          al = al[10 := al ! 10 AND NOT 0xe]
      in al[11 := al ! 11 AND NOT 0xc])"

definition put_clock_ricoh :: "rtc_ricoh_data \<Rightarrow> nat \<Rightarrow> u8 \<Rightarrow> rtc_ricoh_data" where
  "put_clock_ricoh data addr v =
     (if rf_bank data \<ge> 2 \<and> addr < 0x0d then
        let ov = rtc_memory data ! addr;
            nv = (ov AND (if rf_bank data = 2 then 0xf0 else 0x0f)) OR push_bit (if rf_bank data = 2 then 0 else 4) v;
            data = data\<lparr>rtc_memory := (rtc_memory data)[addr := nv]\<rparr>
        in if rtc_memory data ! addr \<noteq> ov then data\<lparr>rf_delayed_write := -1\<rparr> else data
      else if rf_bank data = 1 \<and> addr < 0x0d then
        let ov = rtc_alarm data ! addr;
            data = data\<lparr>rtc_alarm := alarm_masks ((rtc_alarm data)[addr := v])\<rparr>
        in if rtc_alarm data ! addr \<noteq> ov then data\<lparr>rf_delayed_write := -1\<rparr> else data
      else if addr = 0xD then
        if rf_d data \<noteq> v then data\<lparr>rf_d := v, rf_delayed_write := -1\<rparr> else data
      else if addr = 0xE then
        if rf_e data \<noteq> v then data\<lparr>rf_e := v, rf_delayed_write := -1\<rparr> else data
      else if addr = 0xF then
        if rf_f data \<noteq> v then data\<lparr>rf_f := v, rf_delayed_write := -1\<rparr> else data
      else data)"

section \<open>The digits of the time\<close>

definition tm_valid :: "tm \<Rightarrow> bool" where
  "tm_valid ct \<longleftrightarrow> tm_sec ct \<in> {0..60} \<and> tm_min ct \<in> {0..59} \<and> tm_hour ct \<in> {0..23} \<and>
     tm_mday ct \<in> {1..31} \<and> tm_mon ct \<in> {0..11} \<and> tm_wday ct \<in> {0..6} \<and> tm_year ct \<in> {0..199}"

lemma and_15_small: "0 \<le> x \<Longrightarrow> x < 16 \<Longrightarrow> x AND 15 = (x :: int)"
  using take_bit_int_eq_self [of x 4] by (simp add: take_bit_eq_mask mask_eq_exp_minus_1)

lemma digit_uint: "0 \<le> x \<Longrightarrow> x < 256 \<Longrightarrow> uint (word_of_int x :: u8) = x"
  by (simp add: take_bit_int_eq_self unsigned_of_int)

text \<open>Two digit registers, units first.\<close>

definition bcd :: "u8 \<Rightarrow> u8 \<Rightarrow> int" where
  "bcd lo hi = 10 * uint hi + uint lo"

lemma bcd_split:
  assumes "0 \<le> x" "x < 160"
  shows "bcd (word_of_int (x smod 10)) (word_of_int (x sdiv 10)) = x \<and>
    uint (word_of_int (x smod 10) :: u8) \<le> 9 \<and> uint (word_of_int (x sdiv 10) :: u8) \<le> 15"
proof -
  have "0 \<le> x div 10" "x div 10 \<le> 15" "0 \<le> x mod 10" "x mod 10 \<le> 9" "10 * (x div 10) + x mod 10 = x"
    using assms by auto
  then show ?thesis
    using assms by (simp add: bcd_def sdiv_nonneg smod_nonneg digit_uint)
qed


text \<open>in 24-hour mode the digit registers of the MSM6242 hold the decimal digits of the host time:
  seconds, minutes, hours, day, month (from 1), and the year, less 100 from 2000 on when the board asks for it.\<close>

theorem msm_reads_time:
  assumes "tm_valid ct" "msm_f data AND 4 \<noteq> 0" "tm_year ct < 160 \<or> yearmode data"
  shows "let r = (\<lambda>a. get_clock_msm data a ct) in
    bcd (r 0) (r 1) = tm_sec ct \<and> bcd (r 2) (r 3) = tm_min ct \<and> bcd (r 4) (r 5) = tm_hour ct \<and>
    bcd (r 6) (r 7) = tm_mday ct \<and> bcd (r 8) (r 9) = tm_mon ct + 1 \<and>
    bcd (r 10) (r 11) = (if yearmode data then tm_year ct mod 100 else tm_year ct) \<and> uint (r 12) = tm_wday ct"
proof -
  define y where "y = (if yearmode data \<and> tm_year ct \<ge> 100 then tm_year ct - 100 else tm_year ct)"
  have y: "0 \<le> y" "y < 160" "y = (if yearmode data then tm_year ct mod 100 else tm_year ct)"
    using assms(1,3) mod_pos_pos_trivial [of "tm_year ct - 100" 100] by (auto simp: y_def tm_valid_def)
  have "0 \<le> y div 10" "y div 10 < 16" using y by auto
  then have "y sdiv 10 AND 15 = y sdiv 10"
    using y by (simp add: sdiv_nonneg and_15_small)
  then show ?thesis
    using assms(1,2) bcd_split [OF y(1,2)] bcd_split [of "tm_sec ct"] bcd_split [of "tm_min ct"]
      bcd_split [of "tm_hour ct"] bcd_split [of "tm_mday ct"] bcd_split [of "tm_mon ct + 1"] y(3)
    by (simp add: get_clock_msm_def Let_def tm_valid_def digit_uint flip: y_def)
qed

lemma msm_reads_time_witness:
  "let data = \<lparr>msm_d = 0, msm_e = 0, msm_f = 4, msm_delayed_write = 0, yearmode = True\<rparr>;
       ct = \<lparr>tm_sec = 59, tm_min = 7, tm_hour = 23, tm_mday = 31, tm_mon = 11, tm_year = 124, tm_wday = 2\<rparr> in
     bcd (get_clock_msm data 4 ct) (get_clock_msm data 5 ct) = 23 \<and>
     bcd (get_clock_msm data 10 ct) (get_clock_msm data 11 ct) = 24"
  using msm_reads_time [of "\<lparr>tm_sec = 59, tm_min = 7, tm_hour = 23, tm_mday = 31, tm_mon = 11, tm_year = 124, tm_wday = 2\<rparr>"
      "\<lparr>msm_d = 0, msm_e = 0, msm_f = 4, msm_delayed_write = 0, yearmode = True\<rparr>"]
  by (simp add: tm_valid_def Let_def)

text \<open>in 12-hour mode the hour digits give the hour of the half day in the morning only: after
  noon the units digit is still that of the 24-hour time, so that 1 pm reads as 3 pm.\<close>

theorem msm_twelve_hour_wrong:
  assumes "tm_valid ct" "msm_f data AND 4 = 0"
  shows "(bcd (get_clock_msm data 4 ct) (get_clock_msm data 5 ct AND 3) = tm_hour ct mod 12) = (tm_hour ct < 12)"
proof -
  have h: "tm_hour ct \<in> set [0..23]" using assms(1) by (simp add: tm_valid_def)
  have "\<forall>h \<in> set [0..23]. (bcd (word_of_int (h smod 10)) ((word_of_int (h smod 12 sdiv 10) OR (if h \<ge> 12 then 4 else 0)) AND 3)
       = h mod 12) = (h < 12)"
    by code_simp
  from bspec [OF this h] show ?thesis
    using assms(2) by (simp add: get_clock_msm_def Let_def)
qed

lemma msm_twelve_hour_wrong_witness:
  "let data = \<lparr>msm_d = 0, msm_e = 0, msm_f = 0, msm_delayed_write = 0, yearmode = True\<rparr>;
       ct = \<lparr>tm_sec = 59, tm_min = 7, tm_hour = 13, tm_mday = 31, tm_mon = 11, tm_year = 124, tm_wday = 2\<rparr> in
     bcd (get_clock_msm data 4 ct) (get_clock_msm data 5 ct AND 3) \<noteq> 1"
  using msm_twelve_hour_wrong [of "\<lparr>tm_sec = 59, tm_min = 7, tm_hour = 13, tm_mday = 31, tm_mon = 11, tm_year = 124, tm_wday = 2\<rparr>"
      "\<lparr>msm_d = 0, msm_e = 0, msm_f = 0, msm_delayed_write = 0, yearmode = True\<rparr>"]
  by (simp add: tm_valid_def Let_def)

section \<open>The memory of the Ricoh chip\<close>

definition rf_ok :: "rtc_ricoh_data \<Rightarrow> bool" where
  "rf_ok data \<longleftrightarrow> length (rtc_memory data) = 16 \<and> length (rtc_alarm data) = 16"

text \<open>A driver selects a bank through register D, then accesses a cell of it.\<close>

definition rf_peek :: "tm \<Rightarrow> rtc_ricoh_data \<Rightarrow> u8 \<times> nat \<Rightarrow> u8" where
  "rf_peek ct data c = get_clock_ricoh (put_clock_ricoh data 0xD (fst c)) (snd c) ct"

definition rf_poke :: "rtc_ricoh_data \<Rightarrow> u8 \<times> nat \<Rightarrow> u8 \<Rightarrow> rtc_ricoh_data" where
  "rf_poke data c v = put_clock_ricoh (put_clock_ricoh data 0xD (fst c)) (snd c) v"

lemma put_bank:
  "put_clock_ricoh data 0xD v = (if rf_d data \<noteq> v then data\<lparr>rf_d := v, rf_delayed_write := -1\<rparr> else data)"
  by (simp add: put_clock_ricoh_def)

lemma put_bank_simps [simp]:
  "rf_d (put_clock_ricoh data 0xD v) = v"
  "rtc_memory (put_clock_ricoh data 0xD v) = rtc_memory data"
  "rtc_alarm (put_clock_ricoh data 0xD v) = rtc_alarm data"
  by (simp_all add: put_bank)


lemma nibble_merge:
  "(drop_bit 0 ((w AND 0xf0) OR push_bit 0 v) AND 0x0f) = v AND (0x0f :: u8)"
  "(drop_bit 4 ((w AND 0x0f) OR push_bit 4 v) AND 0x0f) = v AND (0x0f :: u8)"
  "(drop_bit 4 ((w AND 0xf0) OR push_bit 0 (v AND 0x0f)) AND 0x0f) = drop_bit 4 w AND (0x0f :: u8)"
  "(drop_bit 0 ((w AND 0x0f) OR push_bit 4 v) AND 0x0f) = w AND (0x0f :: u8)"
proof -
  have lo: "bit (0x0f :: u8) n \<longleftrightarrow> n < 4" for n
  proof -
    have "(0x0f :: u8) = mask 4" by (simp add: mask_eq_exp_minus_1)
    then show ?thesis by (simp only: bit_mask_iff) auto
  qed
  have hi: "bit (0xf0 :: u8) n \<longleftrightarrow> 4 \<le> n \<and> n < 8" for n
  proof -
    have "(0xf0 :: u8) = push_bit 4 (mask 4)" by (simp add: mask_eq_exp_minus_1 push_bit_eq_mult)
    then show ?thesis by (simp only: bit_push_bit_iff bit_mask_iff) auto
  qed
  note b = comp_apply add_0 bit_and_iff bit_or_iff bit_drop_bit_eq bit_push_bit_iff lo hi
  show "(drop_bit 0 ((w AND 0xf0) OR push_bit 0 v) AND 0x0f) = v AND (0x0f :: u8)"
    by (rule bit_word_eqI, simp only: b) auto
  show "(drop_bit 4 ((w AND 0x0f) OR push_bit 4 v) AND 0x0f) = v AND (0x0f :: u8)"
    by (rule bit_word_eqI, simp only: b) auto
  show "(drop_bit 4 ((w AND 0xf0) OR push_bit 0 (v AND 0x0f)) AND 0x0f) = drop_bit 4 w AND (0x0f :: u8)"
    by (rule bit_word_eqI, simp only: b) auto
  show "(drop_bit 0 ((w AND 0x0f) OR push_bit 4 v) AND 0x0f) = w AND (0x0f :: u8)"
    by (rule bit_word_eqI, simp only: b) auto
qed

definition rf_cells :: "(u8 \<times> nat) set" where
  "rf_cells = {2, 3} \<times> {0..<13}"

definition rf_vals :: "u8 set" where
  "rf_vals = {v. v AND 0x0f = v}"

lemma rf_poke_memory:
  assumes "c \<in> rf_cells"
  shows "rtc_memory (rf_poke data c v) = (rtc_memory data)[snd c :=
      (rtc_memory data ! snd c AND (if fst c = 2 then 0xf0 else 0x0f)) OR push_bit (if fst c = 2 then 0 else 4) v]"
proof -
  obtain i where i: "i < 13" "c = (2, i) \<or> c = (3, i)" using assms by (auto simp: rf_cells_def)
  have bank: "rf_bank (put_clock_ricoh data 0xD 2) = 2" "rf_bank (put_clock_ricoh data 0xD 3) = 3"
    by (simp_all add: rf_bank_def)
  have m: "rtc_memory (put_clock_ricoh d i v) = (rtc_memory d)[i :=
      (rtc_memory d ! i AND (if rf_bank d = 2 then 0xf0 else 0x0f)) OR push_bit (if rf_bank d = 2 then 0 else 4) v]"
    if "rf_bank d \<ge> 2" for d
    using that i(1) unfolding put_clock_ricoh_def Let_def by simp
  show ?thesis
    using i(2) m [of "put_clock_ricoh data 0xD 2"] m [of "put_clock_ricoh data 0xD 3"]
    unfolding rf_poke_def by (elim disjE) (simp_all add: bank)
qed

lemma rf_peek_memory:
  assumes "c \<in> rf_cells"
  shows "rf_peek ct data c = drop_bit (if fst c = 2 then 0 else 4) (rtc_memory data ! snd c) AND 0x0f"
proof -
  obtain i where i: "i < 13" "c = (2, i) \<or> c = (3, i)" using assms by (auto simp: rf_cells_def)
  have bank: "rf_bank (put_clock_ricoh data 0xD 2) = 2" "rf_bank (put_clock_ricoh data 0xD 3) = 3"
    by (simp_all add: rf_bank_def)
  show ?thesis
    using i unfolding rf_peek_def get_clock_ricoh_def by (elim disjE) (simp_all add: bank)
qed

lemma put_ricoh_ok: "rf_ok data \<Longrightarrow> rf_ok (put_clock_ricoh data addr v)"
  by (auto simp: put_clock_ricoh_def rf_ok_def Let_def alarm_masks_def)

interpretation ricoh: storage "rf_peek ct" rf_poke rf_ok rf_cells rf_vals for ct
proof unfold_locales
  fix s :: rtc_ricoh_data and a b :: "u8 \<times> nat" and v :: u8
  assume s: "rf_ok s" and a: "a \<in> rf_cells" and v: "v \<in> rf_vals"
  show "rf_ok (rf_poke s a v)" by (simp add: rf_poke_def put_ricoh_ok s)
  have l: "snd a < length (rtc_memory s)" using s a by (auto simp: rf_ok_def rf_cells_def)
  show "rf_peek ct (rf_poke s a v) a = v"
    using a v l nibble_merge(1,2) [of "rtc_memory s ! snd a" v]
    by (simp add: rf_peek_memory rf_poke_memory rf_vals_def)
  assume b: "b \<in> rf_cells" "b \<noteq> a"
  show "rf_peek ct (rf_poke s a v) b = rf_peek ct s b"
  proof (cases "snd b = snd a")
    case True
    then have "fst a = 2 \<and> fst b = 3 \<or> fst a = 3 \<and> fst b = 2"
      using a b by (auto simp: rf_cells_def)
    then show ?thesis
      using a b v l True nibble_merge(3,4) [of "rtc_memory s ! snd a" v]
      by (auto simp: rf_peek_memory rf_poke_memory rf_vals_def)
  next
    case False
    then show ?thesis using a b by (simp add: rf_peek_memory rf_poke_memory)
  qed
qed

text \<open>the two memory banks of the Ricoh chip are 26 independent 4-bit cells: after any sequence
  of writes, each made by selecting its bank and writing its register, every cell reads as the last
  value written to it, or as before if there was none, whatever the time.\<close>

theorem ricoh_memory_cells:
  assumes "rf_ok data" "set ws \<subseteq> rf_cells \<times> rf_vals" "c \<in> rf_cells"
  shows "rf_peek ct (foldl (\<lambda>s w. rf_poke s (fst w) (snd w)) data ws) c =
    (case map_of (rev ws) c of None \<Rightarrow> rf_peek ct data c | Some v \<Rightarrow> v)"
  by (rule ricoh.last_write [OF assms])

lemma ricoh_memory_cells_witness:
  "\<forall>ct. rf_peek ct (foldl (\<lambda>s w. rf_poke s (fst w) (snd w))
     \<lparr>rf_d = 0, rf_e = 0, rf_f = 0, rtc_memory = replicate 16 0, rtc_alarm = replicate 16 0, rf_delayed_write = 0\<rparr>
     [((2, 5), 7), ((3, 5), 9), ((2, 5), 1)]) (2, 5) = 1"
proof
  fix ct
  show "rf_peek ct (foldl (\<lambda>s w. rf_poke s (fst w) (snd w))
     \<lparr>rf_d = 0, rf_e = 0, rf_f = 0, rtc_memory = replicate 16 0, rtc_alarm = replicate 16 0, rf_delayed_write = 0\<rparr>
     [((2, 5), 7), ((3, 5), 9), ((2, 5), 1)]) (2, 5) = 1"
    using ricoh_memory_cells [of "\<lparr>rf_d = 0, rf_e = 0, rf_f = 0, rtc_memory = replicate 16 0, rtc_alarm = replicate 16 0, rf_delayed_write = 0\<rparr>"
        "[((2, 5), 7), ((3, 5), 9), ((2, 5), 1)]" "(2, 5)" ct]
    by (simp add: rf_ok_def rf_cells_def rf_vals_def)
qed

text \<open>The bits each alarm register has.\<close>

definition alarm_mask :: "nat \<Rightarrow> u8" where
  "alarm_mask i = (if i \<in> {0, 1, 9, 12} then 0 else if i \<in> {3, 6} then NOT 0x8 else if i \<in> {5, 8, 11} then NOT 0xc
     else if i = 10 then NOT 0xe else 0xff)"

lemma alarm_masks_nth:
  assumes "length al = 16" "i < 13"
  shows "alarm_masks al ! i = al ! i AND alarm_mask i"
proof -
  have "i = 0 \<or> i = 1 \<or> i = 2 \<or> i = 3 \<or> i = 4 \<or> i = 5 \<or> i = 6 \<or> i = 7 \<or> i = 8 \<or> i = 9 \<or> i = 10 \<or>
      i = 11 \<or> i = 12"
    using assms(2) by arith
  moreover have "(x :: u8) AND 0xff = x" for x
  proof -
    have "(0xff :: u8) = mask 8" by (simp add: mask_eq_exp_minus_1)
    then show ?thesis using take_bit_eq_mask [of 8 x] by (simp add: take_bit_word_eq_self)
  qed
  ultimately show ?thesis
    using assms(1) by (elim disjE) (simp_all add: alarm_masks_def alarm_mask_def Let_def)
qed


text \<open>an alarm register written with bank 1 selected reads back as the written value restricted
  to the bits that the chip has, the other alarm registers keep what they have of theirs, and the chip
  asks to be saved exactly when the register now reads differently (or a save was already due).\<close>

theorem ricoh_alarm_registers:
  assumes "rf_ok data" "rf_bank data = 1" "addr < 13"
  shows "let t = put_clock_ricoh data addr v in
    (\<forall>b < 13. get_clock_ricoh t b ct = (if b = addr then v else get_clock_ricoh data b ct) AND alarm_mask b) \<and>
    rf_delayed_write t = (if get_clock_ricoh t addr ct \<noteq> get_clock_ricoh data addr ct then -1 else rf_delayed_write data)"
proof -
  define al where "al = alarm_masks ((rtc_alarm data)[addr := v])"
  define t where "t = put_clock_ricoh data addr v"
  have len: "length (rtc_alarm data) = 16" using assms(1) by (simp add: rf_ok_def)
  have two: "\<not> (2 :: u8) \<le> 1" by (simp add: word_le_nat_alt)
  have t: "t = (if al ! addr \<noteq> rtc_alarm data ! addr then data\<lparr>rtc_alarm := al, rf_delayed_write := -1\<rparr>
      else data\<lparr>rtc_alarm := al\<rparr>)"
    using assms(2,3) two by (simp add: t_def put_clock_ricoh_def al_def Let_def)
  then have "rf_bank t = 1" "rtc_alarm t = al" using assms(2) by (simp_all add: rf_bank_def)
  then have g: "get_clock_ricoh t b ct = al ! b" "get_clock_ricoh data b ct = rtc_alarm data ! b" if "b < 13" for b
    using that assms(2) two by (simp_all add: get_clock_ricoh_def)
  have "al ! b = (if b = addr then v else rtc_alarm data ! b) AND alarm_mask b" if "b < 13" for b
    using that len assms(3) by (simp add: al_def alarm_masks_nth)
  then show ?thesis
    using g t assms(3) by (simp add: Let_def flip: t_def)
qed

lemma ricoh_alarm_registers_witness:
  "let data = \<lparr>rf_d = 1, rf_e = 0, rf_f = 0, rtc_memory = replicate 16 0, rtc_alarm = replicate 16 0, rf_delayed_write = 0\<rparr>;
       t = put_clock_ricoh data 5 0xff
   in get_clock_ricoh t 5 ct = 0xff AND NOT 0xc"
  using ricoh_alarm_registers [of "\<lparr>rf_d = 1, rf_e = 0, rf_f = 0, rtc_memory = replicate 16 0, rtc_alarm = replicate 16 0, rf_delayed_write = 0\<rparr>"
      5 "0xff" ct]
  by (simp add: rf_ok_def rf_bank_def alarm_mask_def Let_def)

end
