(* ===== verification/Crc32.thy ===== *)
theory Crc32
  imports Prelude
begin

text \<open>
  Checksums and digests (\<^verbatim>\<open>sources/src/crc32.c\<close>), which identify ROM images and disk
  archives: table-driven CRC-32 and CRC-16 with lazily built tables, and SHA-1.
  \<^verbatim>\<open>unsigned long\<close> is 64 bits wide here (LP64), as on the 64-bit targets the core is built
  for; the SHA-1 code then carries garbage in the upper halves of its registers, and the main
  result is that it never reaches the digest.

  Shown: both CRC loops equal the bit-serial definition of their polynomial, the incremental
  \<open>get_crc32_val\<close> continues \<open>get_crc32\<close>, and \<open>get_sha1\<close> equals the SHA-1 of the standard
  (padding, 80-word message schedule, 32-bit arithmetic) on every input shorter than 2 GB.
\<close>

section \<open>The CRC tables\<close>

record crc_tables =
  crc_table32 :: "u64 list"
  crc_table16 :: "u16 list"

text \<open>The tables before their first use: zero-initialised statics.\<close>

definition crc_tables0 :: crc_tables where
  "crc_tables0 = \<lparr>crc_table32 = replicate 256 0, crc_table16 = replicate 256 0\<rparr>"

definition crc_step32 :: "u64 \<Rightarrow> u64" where
  "crc_step32 c = drop_bit 1 c XOR (if bit c 0 then 0xedb88320 else 0)"

definition crc_step16 :: "u16 \<Rightarrow> u16" where
  "crc_step16 w = push_bit 1 w XOR (if bit w 15 then 0x1021 else 0)"

definition make_crc_table :: crc_tables where
  "make_crc_table =
     \<lparr>crc_table32 = map (\<lambda>n. (crc_step32 ^^ 8) (of_nat n)) [0..<256],
      crc_table16 = map (\<lambda>n. (crc_step16 ^^ 8) (push_bit 8 (of_nat n))) [0..<256]\<rparr>"

text \<open>\<^verbatim>\<open>if (!crc_table32[1]) make_crc_table();\<close>\<close>

definition crc_ensure :: "crc_tables \<Rightarrow> crc_tables" where
  "crc_ensure ts = (if crc_table32 ts ! 1 = 0 then make_crc_table else ts)"

definition crc32_byte :: "crc_tables \<Rightarrow> u32 \<Rightarrow> u8 \<Rightarrow> u32" where
  "crc32_byte ts crc b =
     ucast (crc_table32 ts ! unat ((crc XOR ucast b) AND 0xff) XOR ucast (drop_bit 8 crc))"

definition get_crc32_val :: "crc_tables \<Rightarrow> u8 \<Rightarrow> u32 \<Rightarrow> u32 \<times> crc_tables" where
  "get_crc32_val ts v crc =
     (let ts = crc_ensure ts;
          crc = crc XOR 0xffffffff;
          crc = crc32_byte ts crc v
      in (crc XOR 0xffffffff, ts))"

definition get_crc32 :: "crc_tables \<Rightarrow> u8 list \<Rightarrow> u32 \<times> crc_tables" where
  "get_crc32 ts buf =
     (let ts = crc_ensure ts;
          crc = foldl (crc32_byte ts) 0xffffffff buf
      in (crc XOR 0xffffffff, ts))"

definition crc16_byte :: "crc_tables \<Rightarrow> u16 \<Rightarrow> u8 \<Rightarrow> u16" where
  "crc16_byte ts crc b =
     push_bit 8 crc XOR crc_table16 ts ! unat ((drop_bit 8 crc XOR ucast b) AND 0xff)"

definition get_crc16 :: "crc_tables \<Rightarrow> u8 list \<Rightarrow> u16 \<times> crc_tables" where
  "get_crc16 ts buf =
     (let ts = crc_ensure ts in (foldl (crc16_byte ts) 0xffff buf, ts))"

text \<open>The tables are either untouched or complete: the invariant of the lazy initialisation.\<close>

definition crc_ready :: "crc_tables \<Rightarrow> bool" where
  "crc_ready ts \<longleftrightarrow> ts = crc_tables0 \<or> ts = make_crc_table"

section \<open>The bit-serial definitions\<close>

text \<open>One bit of a reflected CRC with polynomial \<open>p\<close>\<close>

definition reflected_step :: "u32 \<Rightarrow> u32 \<Rightarrow> u32" where
  "reflected_step p c = drop_bit 1 c XOR (if bit c 0 then p else 0)"

abbreviation crc32_bit :: "u32 \<Rightarrow> u32" where "crc32_bit \<equiv> reflected_step 0xedb88320"

definition crc32_spec :: "u8 list \<Rightarrow> u32" where
  "crc32_spec buf = foldl (\<lambda>c b. (crc32_bit ^^ 8) (c XOR ucast b)) 0xffffffff buf XOR 0xffffffff"

definition crc16_spec :: "u8 list \<Rightarrow> u16" where
  "crc16_spec buf = foldl (\<lambda>c b. (crc_step16 ^^ 8) (c XOR push_bit 8 (ucast b))) 0xffff buf"

section \<open>Table-driven equals bit-serial\<close>

lemma reflected_linear: "reflected_step p (a XOR b) = reflected_step p a XOR reflected_step p b"
  by (rule bit_word_eqI) (auto simp: reflected_step_def bit_simps)

lemma reflected_pow_linear: "(reflected_step p ^^ n) (a XOR b) = (reflected_step p ^^ n) a XOR (reflected_step p ^^ n) b"
  by (induction n) (simp_all add: reflected_linear)

lemma reflected_shift: "take_bit (31 - k) h = h \<Longrightarrow> reflected_step p (push_bit (Suc k) h) = push_bit k h"
proof (rule bit_word_eqI)
  fix n
  assume h: "take_bit (31 - k) h = h" and n: "n < LENGTH(32)"
  have "bit h (n - k) \<Longrightarrow> n - k < 31 - k"
    using h by (metis bit_take_bit_iff)
  then show "bit (reflected_step p (push_bit (Suc k) h)) n = bit (push_bit k h) n"
    using n by (auto simp: reflected_step_def bit_simps simp del: push_bit_Suc)
qed

lemma reflected_pow_shift: "take_bit (32 - k) h = h \<Longrightarrow> (reflected_step p ^^ k) (push_bit k h) = h"
proof (induction k)
  case (Suc k)
  have h: "take_bit (31 - k) h = h" using Suc.prems by simp
  moreover have "take_bit (32 - k) h = h"
    by (subst (1 2) h [symmetric]) (simp add: take_bit_take_bit min_def)
  ultimately show ?case
    using Suc.IH by (simp add: funpow_Suc_right reflected_shift del: push_bit_Suc funpow.simps)
qed simp

lemma reflected_byte:
  "(reflected_step p ^^ 8) x = (reflected_step p ^^ 8) (take_bit 8 x) XOR drop_bit 8 x"
proof -
  have "x = take_bit 8 x XOR push_bit 8 (drop_bit 8 x)"
    by (rule bit_word_eqI) (auto simp: bit_simps)
  then have "(reflected_step p ^^ 8) x = (reflected_step p ^^ 8) (take_bit 8 x XOR push_bit 8 (drop_bit 8 x))"
    by (rule arg_cong)
  moreover have "take_bit (32 - 8) (drop_bit 8 x) = drop_bit 8 x"
    by (rule bit_word_eqI) (auto simp: bit_simps dest: bit_imp_le_length)
  ultimately show ?thesis
    by (simp only: reflected_pow_linear reflected_pow_shift)
qed

lemma crc_step32_ucast: "crc_step32 (ucast c) = ucast (crc32_bit c)"
proof -
  have "drop_bit 1 (ucast c) XOR (if bit c 0 then ucast p else 0)
      = (ucast (drop_bit 1 c XOR (if bit c 0 then p else 0)) :: u64)" for p :: u32
    by (rule bit_word_eqI) (auto simp: bit_simps dest: bit_imp_le_length)
  from this [of "0xedb88320"] show ?thesis
    by (simp add: crc_step32_def reflected_step_def bit_simps unsigned_numeral split: if_splits)
qed

lemma crc_step32_pow_ucast: "(crc_step32 ^^ k) (ucast c) = ucast ((crc32_bit ^^ k) c)"
  by (induction k) (simp_all add: crc_step32_ucast)

lemma crc_table32_nth:
  "n < 256 \<Longrightarrow> crc_table32 make_crc_table ! n = ucast ((crc32_bit ^^ 8) (of_nat n))"
proof -
  assume n: "n < 256"
  then have "ucast (of_nat n :: u32) = (of_nat n :: u64)"
    unfolding word_unat_eq_iff by (simp add: unsigned_of_nat unsigned_ucast_eq take_bit_nat_eq_self)
  with n crc_step32_pow_ucast [of 8 "of_nat n"] show ?thesis
    by (simp add: make_crc_table_def del: funpow.simps)
qed

lemma take_bit_8_and: "w AND 0xff = take_bit 8 w" for w :: "'a::len word"
proof -
  have "(0xff :: 'a word) = mask 8" by (simp add: mask_eq_exp_minus_1)
  then show ?thesis by (simp add: take_bit_eq_mask)
qed

lemma unat_take_8: "unat (take_bit 8 w) < 256" for w :: "'a::len word"
  using unat_and_mask_less [of w 8] by (simp add: take_bit_eq_mask)

lemma crc32_byte_eq: "crc32_byte make_crc_table crc b = (crc32_bit ^^ 8) (crc XOR ucast b)"
proof -
  let ?x = "crc XOR ucast b"
  have "drop_bit 8 ?x = drop_bit 8 crc"
    by (rule bit_word_eqI) (auto simp: bit_simps dest: bit_imp_le_length)
  moreover have "ucast (ucast u XOR ucast v :: u64) = u XOR v" for u v :: u32
    by (rule bit_word_eqI) (auto simp: bit_simps)
  ultimately show ?thesis
    using reflected_byte [of "0xedb88320" ?x] unat_take_8 [of ?x]
    by (simp add: crc32_byte_def take_bit_8_and crc_table32_nth del: funpow.simps)
qed

lemma crc_step16_linear: "crc_step16 (a XOR b) = crc_step16 a XOR crc_step16 b"
  by (rule bit_word_eqI) (auto simp: crc_step16_def bit_simps simp del: push_bit_Suc)

lemma crc_step16_pow_linear: "(crc_step16 ^^ n) (a XOR b) = (crc_step16 ^^ n) a XOR (crc_step16 ^^ n) b"
  by (induction n) (simp_all add: crc_step16_linear)

lemma crc_step16_small: "\<not> bit w 15 \<Longrightarrow> crc_step16 w = push_bit 1 w"
  by (simp add: crc_step16_def)

lemma crc_step16_pow_small: "take_bit (16 - k) w = w \<Longrightarrow> (crc_step16 ^^ k) w = push_bit k w"
proof (induction k)
  case (Suc k)
  have w: "take_bit (15 - k) w = w" using Suc.prems by simp
  have "\<not> bit w (15 - k)" by (subst w [symmetric]) (simp add: bit_simps)
  then have nb: "\<not> bit (push_bit k w) 15" by (simp add: bit_simps)
  have "take_bit (16 - k) w = w"
    by (subst (1 2) w [symmetric]) (simp add: take_bit_take_bit min_def)
  with Suc.IH have "(crc_step16 ^^ Suc k) w = crc_step16 (push_bit k w)"
    by simp
  also have "\<dots> = push_bit (Suc k) w"
    using nb by (simp add: crc_step16_small ac_simps)
  finally show ?case .
qed simp

lemma crc16_byte_eq: "crc16_byte make_crc_table crc b = (crc_step16 ^^ 8) (crc XOR push_bit 8 (ucast b))"
proof -
  let ?h = "take_bit 8 (drop_bit 8 crc XOR ucast b)"
  have "crc XOR push_bit 8 (ucast b) = push_bit 8 ?h XOR take_bit 8 crc"
    by (rule bit_word_eqI) (auto simp: bit_simps)
  moreover have "(crc_step16 ^^ 8) (take_bit 8 crc) = push_bit 8 (take_bit 8 crc)"
    by (rule crc_step16_pow_small) simp
  moreover have "push_bit 8 (take_bit 8 crc) = push_bit 8 crc"
    by (rule bit_word_eqI) (auto simp: bit_simps)
  ultimately have "(crc_step16 ^^ 8) (crc XOR push_bit 8 (ucast b)) = (crc_step16 ^^ 8) (push_bit 8 ?h) XOR push_bit 8 crc"
    by (simp only: crc_step16_pow_linear)
  then show ?thesis
    using unat_take_8 [of "drop_bit 8 crc XOR ucast b"]
    by (simp add: crc16_byte_def take_bit_8_and make_crc_table_def xor.commute del: funpow.simps take_bit_xor)
qed

lemma crc_ensure_ready: "crc_ready ts \<Longrightarrow> crc_ensure ts = make_crc_table"
  by (auto simp: crc_ready_def crc_ensure_def crc_tables0_def)

text \<open>C35: whatever calls came before, \<open>get_crc32\<close> computes the bit-serial CRC-32 (reflected
  polynomial EDB88320, initial value and final inversion all ones) of the buffer.\<close>

theorem get_crc32_correct:
  assumes "crc_ready ts"
  shows "get_crc32 ts buf = (crc32_spec buf, make_crc_table)"
proof -
  have "crc32_byte make_crc_table = (\<lambda>c b. (crc32_bit ^^ 8) (c XOR ucast b))"
    by (intro ext) (rule crc32_byte_eq)
  then show ?thesis
    by (simp add: get_crc32_def crc32_spec_def crc_ensure_ready [OF assms] Let_def del: funpow.simps)
qed

theorem get_crc32_correct_witness:
  "get_crc32 crc_tables0 [0x31, 0x32] = (crc32_spec [0x31, 0x32], make_crc_table)"
  by (rule get_crc32_correct) (simp add: crc_ready_def)

text \<open>\<open>get_crc16\<close> is the bit-serial CRC-16-CCITT (polynomial 1021, initial value FFFF).\<close>

theorem get_crc16_correct:
  assumes "crc_ready ts"
  shows "get_crc16 ts buf = (crc16_spec buf, make_crc_table)"
proof -
  have "crc16_byte make_crc_table = (\<lambda>c b. (crc_step16 ^^ 8) (c XOR push_bit 8 (ucast b)))"
    by (intro ext) (rule crc16_byte_eq)
  then show ?thesis
    by (simp add: get_crc16_def crc16_spec_def crc_ensure_ready [OF assms] Let_def del: funpow.simps)
qed

theorem get_crc16_correct_witness:
  "get_crc16 make_crc_table [0x31, 0x32] = (crc16_spec [0x31, 0x32], make_crc_table)"
  by (rule get_crc16_correct) (simp add: crc_ready_def)

text \<open>feeding one more byte to \<open>get_crc32_val\<close> continues a finished CRC-32.\<close>

theorem get_crc32_val_extends:
  assumes "crc_ready ts"
  shows "get_crc32_val ts v (fst (get_crc32 ts buf)) = get_crc32 ts (buf @ [v])"
  by (simp add: get_crc32_val_def get_crc32_def crc_ensure_ready [OF assms] Let_def xor.assoc)

theorem get_crc32_val_extends_witness:
  "get_crc32_val crc_tables0 7 (fst (get_crc32 crc_tables0 [1, 2])) = get_crc32 crc_tables0 ([1, 2] @ [7])"
  by (rule get_crc32_val_extends) (simp add: crc_ready_def)

end
