(* ===== verification/Sha1.thy ===== *)
theory Sha1
  imports Prelude
begin

text \<open>
  SHA-1 (\<^verbatim>\<open>sources/src/crc32.c\<close>). \<^verbatim>\<open>unsigned long\<close> is 64 bits (LP64): every addition and left
  shift of the code leaves garbage above bit 31, which \<open>S\<close> masks off where it matters. The
  macro \<open>P\<close> is used with its five registers rotated by one place per use; the model rotates
  the tuple instead, and after 80 uses every register is back in its place. The uninitialised
  \<open>buffer\<close> of the context is an argument.

  Shown: one \<open>sha1_process\<close> refines the compression function of the standard on the low
  32 bits, and \<open>get_sha1\<close> computes the standard's digest.
\<close>

section \<open>The code\<close>

record sha1_context =
  sha_total0 :: u64
  sha_total1 :: u64
  sha_state :: "u64 list"
  sha_buffer :: "u8 list"

definition get_uint32_be :: "u8 list \<Rightarrow> nat \<Rightarrow> u64" where
  "get_uint32_be b i =
     push_bit 24 (ucast (b ! i)) OR push_bit 16 (ucast (b ! (i + 1)))
     OR push_bit 8 (ucast (b ! (i + 2))) OR ucast (b ! (i + 3))"

definition put_uint32_be :: "u64 \<Rightarrow> u8 list" where
  "put_uint32_be n = [ucast (drop_bit 24 n), ucast (drop_bit 16 n), ucast (drop_bit 8 n), ucast n]"

definition sha1_starts :: "u8 list \<Rightarrow> sha1_context" where
  "sha1_starts junk = \<lparr>sha_total0 = 0, sha_total1 = 0,
     sha_state = [0x67452301, 0xEFCDAB89, 0x98BADCFE, 0x10325476, 0xC3D2E1F0],
     sha_buffer = junk\<rparr>"

text \<open>The macro \<open>S\<close>: rotate left, the right part taken from the low 32 bits only.\<close>

definition sha_S :: "u64 \<Rightarrow> nat \<Rightarrow> u64" where
  "sha_S x n = push_bit n x OR drop_bit (32 - n) (x AND 0xFFFFFFFF)"

text \<open>The macro \<open>R(t)\<close>: the message schedule in a ring of 16 words.\<close>

definition sha_R :: "nat \<Rightarrow> u64 list \<Rightarrow> u64 list" where
  "sha_R t W =
     (let temp = W ! ((t - 3) mod 16) XOR W ! ((t - 8) mod 16) XOR W ! ((t - 14) mod 16) XOR W ! (t mod 16)
      in W[t mod 16 := sha_S temp 1])"

text \<open>The four definitions of \<open>F\<close> and \<open>K\<close>, by round.\<close>

definition sha_F :: "nat \<Rightarrow> 'a::len word \<Rightarrow> 'a word \<Rightarrow> 'a word \<Rightarrow> 'a word" where
  "sha_F t x y z =
     (if t < 20 then z XOR (x AND (y XOR z))
      else if t < 40 then x XOR y XOR z
      else if t < 60 then (x AND y) OR (z AND (x OR y))
      else x XOR y XOR z)"

definition sha_K :: "nat \<Rightarrow> u32" where
  "sha_K t = (if t < 20 then 0x5A827999 else if t < 40 then 0x6ED9EBA1
     else if t < 60 then 0x8F1BBCDC else 0xCA62C1D6)"

type_synonym 'w sha_regs = "'w \<times> 'w \<times> 'w \<times> 'w \<times> 'w"

fun sha_P :: "nat \<Rightarrow> u64 \<Rightarrow> u64 sha_regs \<Rightarrow> u64 sha_regs" where
  "sha_P t x (a, b, c, d, e) =
     (e + (sha_S a 5 + sha_F t b c d + ucast (sha_K t) + x), a, sha_S b 30, c, d)"

definition sha1_round :: "u64 sha_regs \<times> u64 list \<Rightarrow> nat \<Rightarrow> u64 sha_regs \<times> u64 list" where
  "sha1_round s t =
     (let W = (if t < 16 then snd s else sha_R t (snd s))
      in (sha_P t (W ! (t mod 16)) (fst s), W))"

definition sha1_process :: "sha1_context \<Rightarrow> u8 list \<Rightarrow> sha1_context" where
  "sha1_process ctx data =
     (let W = map (\<lambda>i. get_uint32_be data (4 * i)) [0..<16];
          h = sha_state ctx;
          ((a, b, c, d, e), _) = foldl sha1_round ((h ! 0, h ! 1, h ! 2, h ! 3, h ! 4), W) [0..<80]
      in ctx\<lparr>sha_state := [h ! 0 + a, h ! 1 + b, h ! 2 + c, h ! 3 + d, h ! 4 + e]\<rparr>)"

text \<open>\<^verbatim>\<open>while (ilen >= 64)\<close>: whole blocks straight from the input.\<close>

fun sha1_blocks :: "sha1_context \<Rightarrow> u8 list \<Rightarrow> sha1_context \<times> u8 list" where
  "sha1_blocks ctx input =
     (if length input \<ge> 64 then sha1_blocks (sha1_process ctx (take 64 input)) (drop 64 input)
      else (ctx, input))"

declare sha1_blocks.simps [simp del]

text \<open>\<^verbatim>\<open>memcpy(buffer + left, input, n)\<close>.\<close>

definition buf_copy :: "u8 list \<Rightarrow> nat \<Rightarrow> u8 list \<Rightarrow> u8 list" where
  "buf_copy buf left inp = take left buf @ inp @ drop (left + length inp) buf"

definition sha1_update :: "sha1_context \<Rightarrow> u8 list \<Rightarrow> sha1_context" where
  "sha1_update ctx input =
     (if input = [] then ctx
      else
        let left = unat (sha_total0 ctx AND 0x3F);
            fill = 64 - left;
            ilen = of_nat (length input) :: u64;
            ctx = ctx\<lparr>sha_total0 := (sha_total0 ctx + ilen) AND 0xFFFFFFFF\<rparr>;
            ctx = (if sha_total0 ctx < ilen then ctx\<lparr>sha_total1 := sha_total1 ctx + 1\<rparr> else ctx);
            (ctx, input, left) =
              (if left \<noteq> 0 \<and> length input \<ge> fill then
                 let ctx = ctx\<lparr>sha_buffer := buf_copy (sha_buffer ctx) left (take fill input)\<rparr>
                 in (sha1_process ctx (sha_buffer ctx), drop fill input, 0)
               else (ctx, input, left));
            (ctx, input) = sha1_blocks ctx input
        in if input \<noteq> [] then ctx\<lparr>sha_buffer := buf_copy (sha_buffer ctx) left input\<rparr> else ctx)"

definition sha1_padding :: "u8 list" where
  "sha1_padding = 0x80 # replicate 63 0"

definition sha1_finish :: "sha1_context \<Rightarrow> u8 list" where
  "sha1_finish ctx =
     (let high = drop_bit 29 (sha_total0 ctx) OR push_bit 3 (sha_total1 ctx);
          low = push_bit 3 (sha_total0 ctx);
          msglen = put_uint32_be high @ put_uint32_be low;
          last = unat (sha_total0 ctx AND 0x3F);
          padn = (if last < 56 then 56 - last else 120 - last);
          ctx = sha1_update ctx (take padn sha1_padding);
          ctx = sha1_update ctx msglen
      in concat (map put_uint32_be (take 5 (sha_state ctx))))"

definition get_sha1 :: "u8 list \<Rightarrow> u8 list \<Rightarrow> u8 list" where
  "get_sha1 junk input = sha1_finish (sha1_update (sha1_starts junk) input)"

section \<open>The standard\<close>

definition sha_rotl :: "u32 \<Rightarrow> nat \<Rightarrow> u32" where
  "sha_rotl x n = push_bit n x OR drop_bit (32 - n) x"

definition be32 :: "u8 list \<Rightarrow> u32" where
  "be32 b = push_bit 24 (ucast (b ! 0)) OR push_bit 16 (ucast (b ! 1))
     OR push_bit 8 (ucast (b ! 2)) OR ucast (b ! 3)"

text \<open>The message schedule: word \<open>t\<close> of 80.\<close>

function sha_W :: "u8 list \<Rightarrow> nat \<Rightarrow> u32" where
  "sha_W block t =
     (if t < 16 then be32 (drop (4 * t) block)
      else sha_rotl (sha_W block (t - 3) XOR sha_W block (t - 8) XOR sha_W block (t - 14) XOR sha_W block (t - 16)) 1)"
  by pat_completeness auto
termination
  by (relation "measure snd") auto

declare sha_W.simps [simp del]

fun sha_spec_round :: "u8 list \<Rightarrow> u32 sha_regs \<Rightarrow> nat \<Rightarrow> u32 sha_regs" where
  "sha_spec_round block (a, b, c, d, e) t =
     (sha_rotl a 5 + sha_F t b c d + e + sha_K t + sha_W block t, a, sha_rotl b 30, c, d)"

definition sha_compress :: "u32 list \<Rightarrow> u8 list \<Rightarrow> u32 list" where
  "sha_compress h block =
     (case foldl (sha_spec_round block) (h ! 0, h ! 1, h ! 2, h ! 3, h ! 4) [0..<80] of
        (a, b, c, d, e) \<Rightarrow> [h ! 0 + a, h ! 1 + b, h ! 2 + c, h ! 3 + d, h ! 4 + e])"

fun sha_hash :: "u32 list \<Rightarrow> u8 list \<Rightarrow> u32 list" where
  "sha_hash h m = (if length m \<ge> 64 then sha_hash (sha_compress h (take 64 m)) (drop 64 m) else h)"

declare sha_hash.simps [simp del]

definition sha_H0 :: "u32 list" where
  "sha_H0 = [0x67452301, 0xEFCDAB89, 0x98BADCFE, 0x10325476, 0xC3D2E1F0]"

definition be32_bytes :: "u32 \<Rightarrow> u8 list" where
  "be32_bytes n = [ucast (drop_bit 24 n), ucast (drop_bit 16 n), ucast (drop_bit 8 n), ucast n]"

text \<open>Padding: a one bit, zeros up to 56 modulo 64 bytes, the bit length as 64 bits.\<close>

definition sha_pad :: "nat \<Rightarrow> u8 list" where
  "sha_pad n = 0x80 # replicate ((119 - n mod 64) mod 64) 0
     @ be32_bytes (of_nat (8 * n div 2 ^ 32)) @ be32_bytes (of_nat (8 * n))"

definition sha1_spec :: "u8 list \<Rightarrow> u8 list" where
  "sha1_spec m = concat (map be32_bytes (sha_hash sha_H0 (m @ sha_pad (length m))))"

section \<open>One block\<close>

abbreviation low32 :: "u64 \<Rightarrow> u32" where
  "low32 x \<equiv> ucast x"

fun low_regs :: "u64 sha_regs \<Rightarrow> u32 sha_regs" where
  "low_regs (a, b, c, d, e) = (low32 a, low32 b, low32 c, low32 d, low32 e)"

lemma low32_add [simp]: "low32 (x + y) = low32 x + low32 y"
proof -
  have "take_bit 32 (take_bit 64 i + take_bit 64 j) = take_bit 32 (i + j)" for i j :: int
    using take_bit_add [of 32 "take_bit 64 i" "take_bit 64 j"] take_bit_add [of 32 i j]
    by (simp add: take_bit_take_bit)
  then show ?thesis by transfer simp
qed

lemma low32_ucast [simp]: "low32 (ucast (k :: u32)) = k"
  by (rule bit_word_eqI) (auto simp: bit_simps)

lemma low32_F: "low32 (sha_F t x y z) = sha_F t (low32 x) (low32 y) (low32 z)"
  by (rule bit_word_eqI) (auto simp: sha_F_def bit_simps)

lemma low32_S: "n < 32 \<Longrightarrow> low32 (sha_S x n) = sha_rotl (low32 x) n"
proof -
  assume n: "n < 32"
  have m: "(0xFFFFFFFF :: u64) = mask 32" by (simp add: mask_eq_exp_minus_1)
  show ?thesis using n
    by (intro bit_word_eqI) (auto simp: sha_S_def sha_rotl_def m bit_simps)
qed

definition ring_ok :: "u8 list \<Rightarrow> nat \<Rightarrow> u64 list \<Rightarrow> bool" where
  "ring_ok block t W \<longleftrightarrow> length W = 16 \<and>
     (\<forall>j. j < max t 16 \<and> max t 16 \<le> j + 16 \<longrightarrow> low32 (W ! (j mod 16)) = sha_W block j)"

lemma ring_ok_nth:
  "ring_ok block t W \<Longrightarrow> j < max t 16 \<Longrightarrow> max t 16 \<le> j + 16 \<Longrightarrow> low32 (W ! (j mod 16)) = sha_W block j"
  by (simp add: ring_ok_def)

lemma low32_xor [simp]: "low32 (x XOR y) = low32 x XOR low32 y"
  by (rule bit_word_eqI) (auto simp: bit_simps)

lemma sha_R_nth:
  assumes "ring_ok block t W" "16 \<le> t"
  shows "low32 (sha_R t W ! (t mod 16)) = sha_W block t"
proof -
  have w: "low32 (W ! ((t - k) mod 16)) = sha_W block (t - k)" if "0 < k" "k \<le> 16" for k
    using ring_ok_nth [OF assms(1), of "t - k"] assms(2) that by simp
  have "t mod 16 = (t - 16) mod 16" using assms(2) by (simp add: le_mod_geq)
  then have "low32 (sha_R t W ! (t mod 16)) = sha_rotl (sha_W block (t - 3) XOR sha_W block (t - 8)
      XOR sha_W block (t - 14) XOR sha_W block (t - 16)) 1"
    using assms(1) w [of 3] w [of 8] w [of 14] w [of 16]
    by (simp add: sha_R_def Let_def ring_ok_def low32_S)
  also have "\<dots> = sha_W block t"
    using assms(2) by (subst (5) sha_W.simps) simp
  finally show ?thesis .
qed

lemma sha_R_ring:
  assumes "ring_ok block t W" "16 \<le> t"
  shows "ring_ok block (Suc t) (sha_R t W)"
proof -
  have "low32 (sha_R t W ! (j mod 16)) = sha_W block j" if "j < Suc t" "Suc t \<le> j + 16" for j
  proof (cases "j = t")
    case True
    then show ?thesis using sha_R_nth [OF assms] by simp
  next
    case False
    with that have "j < t" "t - j < 16" by auto
    then have "t mod 16 \<noteq> j mod 16"
      by (metis diff_diff_cancel less_imp_le_nat mod_eq_dvd_iff_nat nat_dvd_not_less zero_less_diff)
    then show ?thesis
      using ring_ok_nth [OF assms(1), of j] assms(2) that \<open>j < t\<close>
      by (simp add: sha_R_def Let_def)
  qed
  then show ?thesis
    using assms by (simp add: ring_ok_def sha_R_def Let_def)
qed

lemma sha1_round_refines:
  assumes "ring_ok block t (snd s)"
  shows "low_regs (fst (sha1_round s t)) = sha_spec_round block (low_regs (fst s)) t"
    and "ring_ok block (Suc t) (snd (sha1_round s t))"
proof -
  obtain a b c d e W where s: "s = ((a, b, c, d, e), W)" by (metis prod_cases5 surj_pair)
  let ?W = "if t < 16 then W else sha_R t W"
  have w: "low32 (?W ! (t mod 16)) = sha_W block t"
    using ring_ok_nth [OF assms, of t] sha_R_nth [OF assms] by (auto simp: s)
  show "low_regs (fst (sha1_round s t)) = sha_spec_round block (low_regs (fst s)) t"
    using w by (cases "t < 16") (simp_all add: s sha1_round_def Let_def low32_S low32_F ac_simps)
  show "ring_ok block (Suc t) (snd (sha1_round s t))"
    using assms sha_R_ring [OF assms] by (auto simp: s sha1_round_def Let_def ring_ok_def)
qed

lemma sha1_rounds_refine:
  assumes "ring_ok block 0 (snd s)"
  shows "low_regs (fst (foldl sha1_round s [0..<n])) = foldl (sha_spec_round block) (low_regs (fst s)) [0..<n]
    \<and> ring_ok block n (snd (foldl sha1_round s [0..<n]))"
proof (induction n)
  case 0
  show ?case using assms by simp
next
  case (Suc n)
  then show ?case
    using sha1_round_refines [of block n "foldl sha1_round s [0..<n]"] by simp
qed

lemma ring_ok_load:
  assumes "length block = 64"
  shows "ring_ok block 0 (map (\<lambda>i. get_uint32_be block (4 * i)) [0..<16])"
proof -
  have "low32 (get_uint32_be block (4 * j)) = sha_W block j" if "j < 16" for j
  proof -
    have "low32 (get_uint32_be block (4 * j)) = be32 (drop (4 * j) block)"
      using that assms
      by (intro bit_word_eqI) (auto simp: get_uint32_be_def be32_def bit_simps)
    then show ?thesis using that by (simp add: sha_W.simps)
  qed
  then show ?thesis by (simp add: ring_ok_def)
qed

lemma sha1_process_state:
  assumes "length data = 64" "length (sha_state ctx) = 5"
  shows "map low32 (sha_state (sha1_process ctx data)) = sha_compress (map low32 (sha_state ctx)) data"
proof -
  let ?h = "sha_state ctx"
  let ?s = "((?h ! 0, ?h ! 1, ?h ! 2, ?h ! 3, ?h ! 4), map (\<lambda>i. get_uint32_be data (4 * i)) [0..<16])"
  obtain a b c d e W where r: "foldl sha1_round ?s [0..<80] = ((a, b, c, d, e), W)"
    by (metis prod_cases5 surj_pair)
  have "foldl (sha_spec_round data) (low_regs (fst ?s)) [0..<80] = low_regs (a, b, c, d, e)"
    using sha1_rounds_refine [of data ?s 80] ring_ok_load [OF assms(1)] by (simp only: r fst_conv snd_conv)
  then show ?thesis
    using assms(2)
    by (simp add: sha1_process_def sha_compress_def Let_def r del: upt_Suc One_nat_def)
qed

lemma sha1_process_frame [simp]:
  "sha_total0 (sha1_process ctx d) = sha_total0 ctx" "sha_total1 (sha1_process ctx d) = sha_total1 ctx"
  "sha_buffer (sha1_process ctx d) = sha_buffer ctx" "length (sha_state (sha1_process ctx d)) = 5"
  by (simp_all add: sha1_process_def Let_def split: prod.splits)


section \<open>Streaming\<close>

lemma length_compress [simp]: "length (sha_compress h b) = 5"
  by (simp add: sha_compress_def split: prod.splits)

lemma sha_hash_short: "length m < 64 \<Longrightarrow> sha_hash h m = h"
  by (subst sha_hash.simps) simp

lemma sha_hash_append:
  "64 dvd length m \<Longrightarrow> sha_hash h (m @ k) = sha_hash (sha_hash h m) k"
proof (induction h m rule: sha_hash.induct)
  case (1 h m)
  show ?case
  proof (cases "64 \<le> length m")
    case True
    with "1.prems" have "64 dvd length (drop 64 m)" by (simp add: dvd_diff_nat)
    with True "1.IH" show ?thesis
      by (simp add: sha_hash.simps [of h "m @ k"] sha_hash.simps [of h m])
  next
    case False
    with "1.prems" have "m = []"
      by (metis dvd_imp_le length_0_conv not_gr_zero)
    then show ?thesis by (simp add: sha_hash_short)
  qed
qed

text \<open>
  The context after absorbing the message \<open>m\<close>: the hash of its whole blocks in the low halves
  of the state, the bytes left over at the front of the buffer, the length in the counters.
\<close>

definition left_over :: "u8 list \<Rightarrow> u8 list" where
  "left_over m = drop (64 * (length m div 64)) m"

definition absorbed :: "sha1_context \<Rightarrow> u8 list \<Rightarrow> bool" where
  "absorbed ctx m \<longleftrightarrow> length m < 2 ^ 32 \<and> length (sha_buffer ctx) = 64 \<and> length (sha_state ctx) = 5 \<and>
     sha_total0 ctx = of_nat (length m) \<and> sha_total1 ctx = 0 \<and>
     map low32 (sha_state ctx) = sha_hash sha_H0 m \<and>
     take (length m mod 64) (sha_buffer ctx) = left_over m"

lemma length_left_over [simp]: "length (left_over m) = length m mod 64"
  by (simp add: left_over_def minus_mult_div_eq_mod)

lemma left_over_split: "m = take (64 * (length m div 64)) m @ left_over m"
  by (simp add: left_over_def)

lemma sha_hash_split:
  "sha_hash h (m @ k) = sha_hash (sha_hash h m) (left_over m @ k)"
proof -
  let ?m1 = "take (64 * (length m div 64)) m"
  have d: "64 dvd length ?m1"
    by (simp add: min_absorb2 times_div_less_eq_dividend)
  have "sha_hash h m = sha_hash (sha_hash h ?m1) (left_over m)"
    using sha_hash_append [OF d, of h "left_over m"] left_over_split [of m] by simp
  then have "sha_hash h m = sha_hash h ?m1" by (simp add: sha_hash_short)
  then show ?thesis
    using sha_hash_append [OF d, of h "left_over m @ k"] left_over_split [of m]
    by (metis append_assoc)
qed

lemma div_64_add: "(a + b) div 64 = a div 64 + (a mod 64 + b) div 64" for a b :: nat
proof -
  have "a + b = (a mod 64 + b) + 64 * (a div 64)" by simp
  then show ?thesis by (simp only: div_mult_self2 zero_neq_numeral [symmetric] simp_thms)
qed

lemma left_over_append: "left_over (m @ k) = left_over (left_over m @ k)"
proof -
  have "drop (64 * (length (m @ k) div 64)) (m @ k)
      = drop (64 * ((length m mod 64 + length k) div 64)) (drop (64 * (length m div 64)) (m @ k))"
    using div_64_add [of "length m" "length k"] by (simp add: distrib_left add.commute del: drop_append)
  also have "drop (64 * (length m div 64)) (m @ k) = left_over m @ k"
    by (simp add: left_over_def times_div_less_eq_dividend)
  finally show ?thesis by (simp add: left_over_def [of "m @ k"] left_over_def [of "left_over m @ k"])
qed

lemma sha_hash_block: "length b = 64 \<Longrightarrow> sha_hash h (b @ k) = sha_hash (sha_compress h b) k"
  by (simp add: sha_hash.simps [of h "b @ k"])

lemma left_over_block: "length b = 64 \<Longrightarrow> left_over (b @ k) = left_over k"
  using left_over_append [of b k] by (simp add: left_over_def [of b])

lemma sha1_blocks_spec:
  assumes "length (sha_state ctx) = 5"
  shows "case sha1_blocks ctx inp of (ctx', rest) \<Rightarrow>
    map low32 (sha_state ctx') = sha_hash (map low32 (sha_state ctx)) inp \<and> rest = left_over inp \<and>
    length (sha_state ctx') = 5 \<and> sha_total0 ctx' = sha_total0 ctx \<and> sha_total1 ctx' = sha_total1 ctx \<and>
    sha_buffer ctx' = sha_buffer ctx"
  using assms
proof (induction ctx inp rule: sha1_blocks.induct)
  case (1 ctx inp)
  show ?case
  proof (cases "64 \<le> length inp")
    case True
    have "left_over inp = left_over (drop 64 inp)"
      using True left_over_append [of "take 64 inp" "drop 64 inp"] by (simp add: left_over_def)
    moreover have "sha_hash h inp = sha_hash (sha_compress h (take 64 inp)) (drop 64 inp)" for h
      using True by (simp add: sha_hash.simps [of h inp])
    ultimately show ?thesis
      using "1.IH" [OF True] True "1.prems"
      by (simp add: sha1_blocks.simps [of ctx inp] sha1_process_state)
  next
    case False
    then show ?thesis
      using "1.prems" by (simp add: sha1_blocks.simps [of ctx inp] sha_hash_short left_over_def)
  qed
qed

lemma low6: "unat (w AND 0x3F) = unat w mod 64" for w :: u64
proof -
  have "(0x3F :: u64) = mask 6" by (simp add: mask_eq_exp_minus_1)
  then have "w AND 0x3F = take_bit 6 w" by (simp add: take_bit_eq_mask)
  then show ?thesis unfolding unsigned_take_bit_eq by (simp add: take_bit_eq_mod unat_mod_distrib)
qed

lemma low_total:
  assumes "n + k < 2 ^ 32"
  shows "(of_nat n + of_nat k) AND 0xFFFFFFFF = (of_nat (n + k) :: u64)"
    and "\<not> ((of_nat (n + k) :: u64) < of_nat k)"
proof -
  have u: "unat (of_nat (n + k) :: u64) = n + k" "unat (of_nat k :: u64) = k"
    using assms by (simp_all add: unsigned_of_nat take_bit_nat_eq_self del: of_nat_add)
  have "(0xFFFFFFFF :: u64) = mask 32" by (simp add: mask_eq_exp_minus_1)
  moreover have "take_bit 32 (of_nat (n + k)) = (of_nat (n + k) :: u64)"
    unfolding word_unat_eq_iff unsigned_take_bit_eq u using assms by (simp add: take_bit_nat_eq_self)
  ultimately show "(of_nat n + of_nat k) AND 0xFFFFFFFF = (of_nat (n + k) :: u64)"
    by (simp add: take_bit_eq_mask)
  show "\<not> ((of_nat (n + k) :: u64) < of_nat k)"
    unfolding word_less_nat_alt u by simp
qed

lemma length_buf_copy [simp]: "left + length inp \<le> length buf \<Longrightarrow> length (buf_copy buf left inp) = length buf"
  by (simp add: buf_copy_def)

lemma take_buf_copy: "left \<le> length buf \<Longrightarrow> take (left + length inp) (buf_copy buf left inp) = take left buf @ inp"
  by (simp add: buf_copy_def)

lemma buf_front:
  assumes "rest = left_over m" "length buf = 64"
  shows "take (length m mod 64) (if rest \<noteq> [] then buf_copy buf 0 rest else buf) = rest"
    and "length (if rest \<noteq> [] then buf_copy buf 0 rest else buf) = 64"
proof -
  have "length rest = length m mod 64" using assms(1) by simp
  then show "take (length m mod 64) (if rest \<noteq> [] then buf_copy buf 0 rest else buf) = rest"
    "length (if rest \<noteq> [] then buf_copy buf 0 rest else buf) = 64"
    using assms(2) by (auto simp: buf_copy_def)
qed

lemma sha1_update_absorbs:
  assumes A: "absorbed ctx m" and len: "length m + length inp < 2 ^ 32"
  shows "absorbed (sha1_update ctx inp) (m @ inp)"
proof (cases "inp = []")
  case True
  then show ?thesis using A by (simp add: sha1_update_def)
next
  case ne: False
  let ?left = "length m mod 64"
  let ?fill = "64 - ?left"
  define ctx1 where "ctx1 = ctx\<lparr>sha_total0 := of_nat (length (m @ inp))\<rparr>"
  have m: "length m < 2 ^ 32" and buf: "length (sha_buffer ctx) = 64" and st: "length (sha_state ctx) = 5"
    and t0: "sha_total0 ctx = of_nat (length m)" and t1: "sha_total1 ctx = 0"
    and h: "map low32 (sha_state ctx) = sha_hash sha_H0 m"
    and lo: "take ?left (sha_buffer ctx) = left_over m"
    using A by (simp_all add: absorbed_def)
  have left: "unat (of_nat (length m) AND 0x3F :: u64) = ?left"
    using m by (simp add: low6 unsigned_of_nat take_bit_nat_eq_self)
  note tot = low_total [OF len]
  have hash: "sha_hash sha_H0 (m @ inp) = sha_hash (map low32 (sha_state ctx)) (left_over m @ inp)"
    unfolding h by (rule sha_hash_split)
  show ?thesis
  proof (cases "?left \<noteq> 0 \<and> ?fill \<le> length inp")
    case True
    let ?b = "buf_copy (sha_buffer ctx) ?left (take ?fill inp)"
    let ?c = "sha1_process (ctx1\<lparr>sha_buffer := ?b\<rparr>) ?b"
    have l: "length (take ?fill inp) = ?fill" using True by simp
    have b: "length ?b = 64" "?b = left_over m @ take ?fill inp"
      using buf lo l by (simp_all add: buf_copy_def)
    obtain c' rest where bl: "sha1_blocks ?c (drop ?fill inp) = (c', rest)" by fastforce
    have split: "left_over m @ inp = ?b @ drop ?fill inp" by (simp add: b(2))
    have h': "sha_hash sha_H0 (m @ inp) = sha_hash (map low32 (sha_state ?c)) (drop ?fill inp)"
      using b(1) st unfolding hash split by (simp add: sha_hash_block sha1_process_state ctx1_def)
    have lo': "left_over (m @ inp) = left_over (drop ?fill inp)"
      unfolding left_over_append [of m inp] split using b(1) by (rule left_over_block)
    have upd: "sha1_update ctx inp = (if rest \<noteq> [] then c'\<lparr>sha_buffer := buf_copy (sha_buffer c') 0 rest\<rparr> else c')"
      using ne True bl tot by (simp add: sha1_update_def Let_def left t0 ctx1_def)
    note bs = sha1_blocks_spec [of ?c "drop ?fill inp", unfolded bl prod.case]
    have r: "map low32 (sha_state c') = sha_hash sha_H0 (m @ inp)" "rest = left_over (m @ inp)"
        "length (sha_state c') = 5" "sha_total0 c' = of_nat (length (m @ inp))" "sha_total1 c' = 0" "length (sha_buffer c') = 64"
      using bs h' lo' b(1) t1 by (auto simp: ctx1_def)
    then show ?thesis
      using len buf_front [of rest "m @ inp" "sha_buffer c'"]
        by (auto simp: absorbed_def upd split: if_splits)
  next
    case False
    obtain c' rest where bl: "sha1_blocks ctx1 inp = (c', rest)" by fastforce
    have upd: "sha1_update ctx inp = (if rest \<noteq> [] then c'\<lparr>sha_buffer := buf_copy (sha_buffer c') ?left rest\<rparr> else c')"
      using ne False bl tot by (auto simp: sha1_update_def Let_def left t0 ctx1_def)
    note bs = sha1_blocks_spec [of ctx1 inp, unfolded bl, simplified]
    show ?thesis
    proof (cases "?left = 0")
      case True
      then have "left_over m = []" by (metis length_0_conv length_left_over)
      then have r: "map low32 (sha_state c') = sha_hash sha_H0 (m @ inp)" "rest = left_over (m @ inp)"
          "length (sha_state c') = 5" "sha_total0 c' = of_nat (length (m @ inp))" "sha_total1 c' = 0" "length (sha_buffer c') = 64"
        using bs hash st t1 buf left_over_append [of m inp] by (simp_all add: ctx1_def)
      then show ?thesis
        using len True buf_front [of rest "m @ inp" "sha_buffer c'"]
        by (auto simp: absorbed_def upd split: if_splits)
    next
      case l0: False
      then have short: "?left + length inp < 64" using False by auto
      then have r: "c' = ctx1" "rest = inp"
        using bl by (simp_all add: sha1_blocks.simps)
      have "left_over (m @ inp) = left_over m @ inp"
        using short by (subst left_over_append) (simp add: left_over_def [of "left_over m @ inp"])
      moreover have "length (m @ inp) mod 64 = ?left + length inp"
        using short by (metis length_append mod_add_left_eq mod_less)
      moreover have "sha_hash sha_H0 (m @ inp) = map low32 (sha_state ctx)"
        using short hash by (simp add: sha_hash_short)
      moreover have "take (?left + length inp) (buf_copy (sha_buffer ctx) ?left inp) = left_over m @ inp"
        using buf lo by (simp add: take_buf_copy)
      ultimately show ?thesis
        using ne len st t1 buf short by (simp add: absorbed_def upd r ctx1_def)
    qed
  qed
qed


section \<open>The digest\<close>

lemma absorbed_start: "length junk = 64 \<Longrightarrow> absorbed (sha1_starts junk) []"
  by (simp add: absorbed_def sha1_starts_def sha_H0_def sha_hash_short left_over_def unsigned_numeral)

lemma put_uint32_be_low: "put_uint32_be x = be32_bytes (low32 x)"
  by (simp add: put_uint32_be_def be32_bytes_def; intro conjI bit_word_eqI; auto simp: bit_simps)

lemma take_padding: "0 < k \<Longrightarrow> k \<le> 64 \<Longrightarrow> take k sha1_padding = 0x80 # replicate (k - 1) 0"
  by (cases k) (auto simp: sha1_padding_def min_def)

lemma msglen_eq:
  assumes "n < 2 ^ 31"
  shows "put_uint32_be (drop_bit 29 (of_nat n) OR push_bit 3 0) @ put_uint32_be (push_bit 3 (of_nat n))
    = be32_bytes (of_nat (8 * n div 2 ^ 32)) @ be32_bytes (of_nat (8 * n))"
proof -
  have n: "unat (of_nat n :: u64) = n"
    using assms by (simp add: unsigned_of_nat take_bit_nat_eq_self)
  have "unat (drop_bit 29 (of_nat n :: u64)) = n div 2 ^ 29"
    by (simp add: bit_arith n)
  then have "drop_bit 29 (of_nat n :: u64) = of_nat (n div 2 ^ 29)"
    by (rule word_eq_of_nat)
  moreover have "low32 (of_nat k) = of_nat k" for k
    by transfer (simp add: take_bit_take_bit)
  moreover have "push_bit 3 (of_nat n :: u64) = of_nat (8 * n)"
    by (simp add: push_bit_eq_mult)
  ultimately show ?thesis
    by (simp only: put_uint32_be_low) simp
qed

lemma pad_count:
  fixes x :: nat
  assumes "x < 64"
  defines "p \<equiv> if x < 56 then 56 - x else 120 - x"
  shows "0 < p \<and> p \<le> 64 \<and> p - 1 = (119 - x) mod 64"
proof (cases "x < 56")
  case True
  then have "(119 - x) mod 64 = 119 - x - 64"
    using le_mod_geq [of 64 "119 - x"] by simp
  with True show ?thesis by (simp add: p_def)
next
  case False
  with assms(1) show ?thesis by (simp add: p_def)
qed

lemma sha1_finish_digest:
  assumes A: "absorbed ctx m" and len: "length m < 2 ^ 31"
  shows "sha1_finish ctx = sha1_spec m"
proof -
  let ?last = "length m mod 64"
  let ?padn = "if ?last < 56 then 56 - ?last else 120 - ?last"
  let ?pad = "take ?padn sha1_padding"
  let ?msg = "be32_bytes (of_nat (8 * length m div 2 ^ 32)) @ be32_bytes (of_nat (8 * length m))"
  have last: "unat (of_nat (length m) AND 0x3F :: u64) = ?last" and t1: "sha_total1 ctx = 0" "sha_total0 ctx = of_nat (length m)"
    using A len by (simp_all add: absorbed_def low6 unsigned_of_nat take_bit_nat_eq_self)
  have k: "0 < ?padn" "?padn \<le> 64" "?padn - 1 = (119 - ?last) mod 64"
    using pad_count [of ?last] by simp_all
  have pad: "?pad @ ?msg = sha_pad (length m)"
    using take_padding [OF k(1,2)] k(3) by (simp add: sha_pad_def)
  have "length ?pad \<le> 64" "length ?msg = 8"
    by (simp_all add: be32_bytes_def sha1_padding_def)
  then have "absorbed (sha1_update (sha1_update ctx ?pad) ?msg) ((m @ ?pad) @ ?msg)"
    using A len by (intro sha1_update_absorbs) (simp_all del: take_take length_take)
  then have st: "map low32 (sha_state (sha1_update (sha1_update ctx ?pad) ?msg)) = sha_hash sha_H0 (m @ sha_pad (length m))"
      "length (sha_state (sha1_update (sha1_update ctx ?pad) ?msg)) = 5"
    unfolding absorbed_def append_assoc pad by blast+
  have out: "concat (map put_uint32_be (take 5 S)) = concat (map be32_bytes (map low32 S))"
    if "length S = 5" for S
  proof -
    have "put_uint32_be = be32_bytes \<circ> low32" by (rule ext) (simp add: put_uint32_be_low)
    with that show ?thesis by simp
  qed
  have "sha1_finish ctx = concat (map put_uint32_be (take 5 (sha_state (sha1_update (sha1_update ctx ?pad) ?msg))))"
    using msglen_eq [OF len] by (simp only: sha1_finish_def Let_def last t1)
  also have "\<dots> = concat (map be32_bytes (map low32 (sha_state (sha1_update (sha1_update ctx ?pad) ?msg))))"
    by (rule out [OF st(2)])
  finally show ?thesis by (simp only: st(1) sha1_spec_def)
qed

text \<open>C34: for every input below 2 GB \<open>get_sha1\<close> returns the digest of the SHA-1 standard,
  whatever the stack garbage in the context's buffer: the 64-bit registers, the streaming
  buffer and the in-place message schedule are invisible in the result.\<close>

theorem get_sha1_correct:
  assumes "length junk = 64" "length input < 2 ^ 31"
  shows "get_sha1 junk input = sha1_spec input"
proof -
  have "absorbed (sha1_update (sha1_starts junk) input) ([] @ input)"
    using assms by (intro sha1_update_absorbs absorbed_start) simp_all
  then show ?thesis
    using assms(2) by (simp add: get_sha1_def sha1_finish_digest)
qed

theorem get_sha1_correct_witness:
  "get_sha1 (replicate 64 0xAA) [0x61, 0x62, 0x63] = sha1_spec [0x61, 0x62, 0x63]"
  by (rule get_sha1_correct) simp_all

end
