(* ===== verification/Cia.thy ===== *)
theory Cia
  imports Prelude
begin

text \<open>
  The two 8520 interface adapters (\<^verbatim>\<open>sources/src/cia.c\<close>): their timers with the input pipeline, the
  interrupt control registers, the time-of-day counters with alarm and latch, the serial register,
  and the access to registers 4 to 15. \<open>cia_timer\<close> and \<open>cia\<close> are \<^verbatim>\<open>struct CIATimer\<close> and
  \<^verbatim>\<open>struct CIA\<close>; \<open>cia_sys\<close> holds both chips with the event slot of the timers, and logs what goes to
  the rest of the machine: interrupt requests (\<^verbatim>\<open>safe_interrupt_set\<close>) and queued events
  (\<^verbatim>\<open>event2_newevent_xx\<close>). \<open>cia_env\<close> has what the code reads from elsewhere: the accuracy mode,
  the preferences, the beam position and the clocks. A failed \<^verbatim>\<open>assert\<close> or an \<^verbatim>\<open>abort\<close> is \<open>None\<close>.
\<close>

unbundle bit_operations_syntax

section \<open>State\<close>

record cia_timer =
  timer :: u32
  latch :: u32
  passed :: u32
  inputpipe :: u16
  loaddelay :: u32
  preovfl :: bool
  cr :: u8

record cia =
  pra :: u8
  prb :: u8
  dra :: u8
  drb :: u8
  ta :: cia_timer
  tb :: cia_timer
  tod :: u32
  tol :: u32
  alarm :: u32
  tlatch :: bool
  todon :: bool
  tod_event_state :: int
  tod_offset :: int
  icr1 :: u8
  icr2 :: u8
  icr_change :: bool
  imask :: u8
  sdr :: u8
  sdr_buf :: u8
  sdr_load :: bool
  sdr_cnt :: nat

record cia_env =
  acc_mode :: bool
  cs_velvet :: bool
  cs_cia6526 :: bool
  cs_ciatodbug :: bool
  current_hpos :: int
  maxhpos :: int
  e_cycles :: int
  e_clock_sync :: int
  e_clock_start :: int
  e_clock_tod :: int
  get_cycles :: int

datatype cia_event = Synced_interrupt | Tod_inc_event

record cia_sys =
  ciaa :: cia
  ciab :: cia
  oldcycles :: int
  evtime :: int
  ev_active :: bool
  irqs :: "u32 list"
  queued :: "(int \<times> nat \<times> cia_event) list"

definition chip :: "cia_sys \<Rightarrow> nat \<Rightarrow> cia" where
  "chip s num = (if num = 0 then ciaa s else ciab s)"

definition set_chip :: "nat \<Rightarrow> cia \<Rightarrow> cia_sys \<Rightarrow> cia_sys" where
  "set_chip num c s = (if num = 0 then s\<lparr>ciaa := c\<rparr> else s\<lparr>ciab := c\<rparr>)"

definition CR_START :: u8 where "CR_START = 1"
definition CR_PBON :: u8 where "CR_PBON = 2"
definition CR_OUTMODE :: u8 where "CR_OUTMODE = 4"
definition CR_RUNMODE :: u8 where "CR_RUNMODE = 8"
definition CR_LOAD :: u8 where "CR_LOAD = 0x10"
definition CR_INMODE :: u8 where "CR_INMODE = 0x20"
definition CR_INMODE1 :: u8 where "CR_INMODE1 = 0x40"
definition CR_SPMODE :: u8 where "CR_SPMODE = 0x40"
definition CR_ALARM :: u8 where "CR_ALARM = 0x80"
definition ICR_A :: u8 where "ICR_A = 1"
definition ICR_B :: u8 where "ICR_B = 2"
definition ICR_ALARM :: u8 where "ICR_ALARM = 4"
definition ICR_SP :: u8 where "ICR_SP = 8"
definition ICR_FLAG :: u8 where "ICR_FLAG = 0x10"
definition ICR_MASK :: u8 where "ICR_MASK = 0x1f"
definition CIA_PIPE_ALL_MASK :: u16 where "CIA_PIPE_ALL_MASK = 3"
definition CIA_PIPE_INPUT :: u16 where "CIA_PIPE_INPUT = 2"
definition CIA_PIPE_CLR1 :: u16 where "CIA_PIPE_CLR1 = 1"
definition CIA_PIPE_CLR2 :: u16 where "CIA_PIPE_CLR2 = 3"
definition CIA_PIPE_OUTPUT :: u16 where "CIA_PIPE_OUTPUT = 1"
definition CYCLE_UNIT :: int where "CYCLE_UNIT = 512"
definition E_CYCLE_UNIT :: int where "E_CYCLE_UNIT = CYCLE_UNIT div 2"
definition DIV10 :: int where "DIV10 = 10 * E_CYCLE_UNIT"
definition MAXINT :: int where "MAXINT = 0x7fffffff"

lemmas cr_bits = CR_START_def CR_PBON_def CR_OUTMODE_def CR_RUNMODE_def CR_LOAD_def CR_INMODE_def CR_INMODE1_def
  CR_SPMODE_def CR_ALARM_def
lemmas icr_bits = ICR_A_def ICR_B_def ICR_ALARM_def ICR_SP_def ICR_FLAG_def ICR_MASK_def
lemmas pipe_bits = CIA_PIPE_ALL_MASK_def CIA_PIPE_INPUT_def CIA_PIPE_CLR1_def CIA_PIPE_CLR2_def CIA_PIPE_OUTPUT_def

section \<open>Interrupts\<close>

definition setclr :: "u8 \<Rightarrow> u8 \<Rightarrow> u8" where
  "setclr p val = (if val AND 0x80 \<noteq> 0 then p OR (val AND 0x7f) else p AND NOT val)"

definition ICRIRQ :: "u32 \<Rightarrow> cia_sys \<Rightarrow> cia_sys" where
  "ICRIRQ data s = s\<lparr>irqs := irqs s @ [data]\<rparr>"

definition ICR :: "cia_env \<Rightarrow> nat \<Rightarrow> cia_sys \<Rightarrow> cia_sys" where
  "ICR e num s =
     (let c = chip s num; s = set_chip num (c\<lparr>icr1 := icr1 c OR 0x20\<rparr>) s
      in if num \<noteq> 0 \<and> \<not> cs_velvet e then ICRIRQ 0x2000 s else ICRIRQ 0x0008 s)"

definition RethinkICR :: "cia_env \<Rightarrow> nat \<Rightarrow> cia_sys \<Rightarrow> cia_sys" where
  "RethinkICR e num s =
     (let c = chip s num
      in if icr1 c AND imask c AND ICR_MASK \<noteq> 0 \<and> icr1 c AND 0x80 = 0
         then ICR e num (set_chip num (c\<lparr>icr1 := icr1 c OR (0x80 OR 0x40)\<rparr>) s)
         else s)"

definition rethink_cias :: "cia_env \<Rightarrow> cia_sys \<Rightarrow> cia_sys" where
  "rethink_cias e s =
     (let s = (if icr1 (ciaa s) AND 0x40 \<noteq> 0 then ICRIRQ 0x0008 s else s)
      in if icr1 (ciab s) AND 0x40 \<noteq> 0 then (if cs_velvet e then ICRIRQ 0x0008 s else ICRIRQ 0x2000 s) else s)"

section \<open>Timers\<close>

definition bitstodelay :: "u16 \<Rightarrow> nat option" where
  "bitstodelay v =
     (if v = 0 then Some 2 else if v = 1 \<or> v = 2 then Some 1 else if v = 3 then Some 0 else None)"

definition passed_clocks :: "nat \<Rightarrow> cia_timer \<Rightarrow> u8 \<Rightarrow> cia_timer option" where
  "passed_clocks ciaclocks t crmask =
     (let t = t\<lparr>passed := 0\<rparr>
      in if cr t AND crmask = CR_START then
           (case bitstodelay (inputpipe t) of
              None \<Rightarrow> None
            | Some pipe \<Rightarrow>
                let cc = (if ciaclocks > pipe then ciaclocks - pipe else 0)
                in if cc < 65536 then Some (t\<lparr>passed := of_nat cc\<rparr>) else None)
         else Some t)"

definition compute_passed_time_cia :: "nat \<Rightarrow> cia \<Rightarrow> cia option" where
  "compute_passed_time_cia ciaclocks c =
     (case passed_clocks ciaclocks (ta c) (CR_INMODE OR CR_START) of
        None \<Rightarrow> None
      | Some a \<Rightarrow>
          (case passed_clocks ciaclocks (tb c) (CR_INMODE OR CR_INMODE1 OR CR_START) of
             None \<Rightarrow> None
           | Some b \<Rightarrow> Some (c\<lparr>ta := a, tb := b\<rparr>)))"

definition ccount_since :: "cia_env \<Rightarrow> cia_sys \<Rightarrow> int" where
  "ccount_since e s = (let ccount = get_cycles e - oldcycles s in if ccount > MAXINT then MAXINT else ccount)"

definition compute_passed_time :: "cia_env \<Rightarrow> cia_sys \<Rightarrow> cia_sys option" where
  "compute_passed_time e s =
     (let n = nat (uint (word_of_int (ccount_since e s) :: u32) div DIV10)
      in case compute_passed_time_cia n (ciaa s) of
           None \<Rightarrow> None
         | Some a \<Rightarrow> map_option (\<lambda>b. s\<lparr>ciaa := a, ciab := b\<rparr>) (compute_passed_time_cia n (ciab s)))"

definition timer_reset :: "cia_env \<Rightarrow> cia_timer \<Rightarrow> cia_timer" where
  "timer_reset e t =
     (let t = t\<lparr>timer := latch t\<rparr>
      in if acc_mode e then
           (if cr t AND CR_RUNMODE \<noteq> 0 then t\<lparr>inputpipe := inputpipe t AND NOT CIA_PIPE_CLR1\<rparr>
            else t\<lparr>inputpipe := inputpipe t AND NOT CIA_PIPE_CLR2\<rparr>)
         else t)"

text \<open>A pulse on \<^verbatim>\<open>CNT\<close>: the timers that count pulses step once.\<close>

definition inmode_underflow :: "cia_env \<Rightarrow> cia_timer \<Rightarrow> cia_timer" where
  "inmode_underflow e t =
     (let t = timer_reset e t
      in if cr t AND CR_RUNMODE \<noteq> 0 then t\<lparr>cr := cr t AND NOT CR_START\<rparr> else t)"

definition cia_inmode_cnt :: "cia_env \<Rightarrow> cia \<Rightarrow> u8 \<times> cia" where
  "cia_inmode_cnt e c =
     (let (icr, decb, c) =
        (if cr (ta c) AND (CR_INMODE OR CR_START) = CR_INMODE OR CR_START then
           (if timer (ta c) = 0 then
              (ICR_A, cr (tb c) AND (CR_INMODE1 OR CR_START) = CR_INMODE1 OR CR_START, c\<lparr>ta := inmode_underflow e (ta c)\<rparr>)
            else (0, False, c\<lparr>ta := (ta c)\<lparr>timer := timer (ta c) - 1\<rparr>\<rparr>))
         else (0, False, c));
         decb = (if cr (tb c) AND (CR_INMODE1 OR CR_INMODE OR CR_START) = CR_INMODE OR CR_START then True else decb)
      in if decb then
           (if timer (tb c) = 0 then (icr OR ICR_B, c\<lparr>tb := inmode_underflow e (tb c)\<rparr>)
            else (icr, c\<lparr>tb := (tb c)\<lparr>timer := timer (tb c) - 1\<rparr>\<rparr>))
         else (icr, c))"

text \<open>
  The pipeline of two stages between the start bit and the counter: while it is not full each
  clock moves it on, and only clocks that find its output stage set count.
\<close>

definition pipe_shift :: "u8 \<Rightarrow> cia_timer \<Rightarrow> cia_timer" where
  "pipe_shift crmask t =
     (let t = t\<lparr>inputpipe := drop_bit 1 (inputpipe t)\<rparr>
      in if cr t AND crmask = CR_START then t\<lparr>inputpipe := inputpipe t OR CIA_PIPE_INPUT\<rparr> else t)"

fun pipe_loop :: "u8 \<Rightarrow> cia_timer \<Rightarrow> nat \<Rightarrow> int \<Rightarrow> cia_timer \<times> int" where
  "pipe_loop crmask t 0 ccout = (t, ccout)"
| "pipe_loop crmask t (Suc cc) ccout =
     (if inputpipe t \<noteq> CIA_PIPE_ALL_MASK
      then pipe_loop crmask (pipe_shift crmask t) cc (if inputpipe t AND CIA_PIPE_OUTPUT = 0 then ccout - 1 else ccout)
      else (t, ccout))"

text \<open>The timer, the clocks to count and the overflow state.\<close>

definition process_pipe :: "cia_env \<Rightarrow> cia_timer \<Rightarrow> nat \<Rightarrow> u8 \<Rightarrow> int \<Rightarrow> bool \<Rightarrow> cia_timer \<times> int \<times> int" where
  "process_pipe e t cc crmask ovfl loadednow =
     (if cc = 1 \<and> acc_mode e then
        let out = (if inputpipe t AND CIA_PIPE_OUTPUT \<noteq> 0 then 1 else 0);
            t = pipe_shift crmask t;
            ovfl = (if timer t = 0 \<and> latch t = 0 \<and> inputpipe t AND CIA_PIPE_OUTPUT \<noteq> 0
                    then (if loadednow then 1 else 2) else ovfl)
        in (t, out, ovfl)
      else let (t, ccout) = pipe_loop crmask t cc (int cc) in (t, ccout, ovfl))"

text \<open>Delayed loads; the three flags tell what the clock found.\<close>

definition load_step :: "cia_timer \<Rightarrow> cia_timer \<times> int \<times> bool \<times> bool \<times> bool" where
  "load_step t =
     (if loaddelay t = 0 then (t, 0, False, False, False)
      else
        let ld = loaddelay t;
            t = (if ld AND 0x00000001 \<noteq> 0 then t\<lparr>timer := latch t, inputpipe := inputpipe t AND NOT CIA_PIPE_CLR1\<rparr> else t);
            (t, ovfl) = (if ld AND 0x00010000 \<noteq> 0 then (t\<lparr>cr := cr t AND NOT CR_START\<rparr>, 2) else (t, 0));
            loaded2 = (ld AND 0x00000100 \<noteq> 0 \<and> timer t = 0);
            loaded = (ld AND 0x01000000 \<noteq> 0);
            loaded3 = (ld AND 0x10000000 \<noteq> 0)
        in (t\<lparr>loaddelay := drop_bit 1 ld AND 0x77777777\<rparr>, ovfl, loaded, loaded2, loaded3))"

text \<open>The serial register in output mode counts underflows of timer A.\<close>

definition sp_clock :: "cia \<Rightarrow> cia \<times> bool" where
  "sp_clock c =
     (if cr (ta c) AND (CR_SPMODE OR CR_RUNMODE) = CR_SPMODE \<and> sdr_cnt c > 0 then
        let c = c\<lparr>sdr_cnt := sdr_cnt c - 1\<rparr>;
            c = (if odd (sdr_cnt c) then c\<lparr>sdr_buf := push_bit 1 (sdr_buf c)\<rparr> else c)
        in if sdr_cnt c = 0 then
             (if sdr_load c then c\<lparr>sdr_load := False, sdr_buf := sdr c, sdr_cnt := 16\<rparr> else c, True)
           else (c, False)
      else (c, False))"

definition timer_a_clock :: "cia_env \<Rightarrow> nat \<Rightarrow> int \<Rightarrow> bool \<Rightarrow> cia \<Rightarrow> cia \<times> int \<times> bool" where
  "timer_a_clock e ciaclocks ovfl loaded3 c =
     (let (t, cc, ovfl) =
        (if cr (ta c) AND (CR_INMODE OR CR_START) = CR_START \<or> inputpipe (ta c) \<noteq> 0
         then process_pipe e (ta c) ciaclocks (CR_INMODE OR CR_START) ovfl loaded3 else (ta c, 0, ovfl));
         c = c\<lparr>ta := t\<rparr>
      in if cc > 0 then
           (let c = c\<lparr>ta := t\<lparr>timer := (timer t - word_of_int cc) AND 0xffff\<rparr>\<rparr>
            in if timer (ta c) = 0 then (let (c, sp) = sp_clock c in (c, 2, sp)) else (c, ovfl, False))
         else (c, ovfl, False))"

definition timer_b_clock :: "cia_env \<Rightarrow> nat \<Rightarrow> int \<Rightarrow> bool \<Rightarrow> cia_timer \<Rightarrow> cia_timer \<times> int" where
  "timer_b_clock e ciaclocks ovfl loaded3 t =
     (let (t, cc, ovfl) =
        (if cr t AND (CR_INMODE OR CR_INMODE1 OR CR_START) = CR_START \<or> inputpipe t \<noteq> 0
         then process_pipe e t ciaclocks (CR_INMODE OR CR_INMODE1 OR CR_START) ovfl loaded3 else (t, 0, ovfl))
      in if cc > 0 then
           (if timer t = 0 \<and> cr t AND (CR_INMODE OR CR_INMODE1) \<noteq> 0 then (t, 2)
            else
              let t = t\<lparr>timer := (timer t - word_of_int cc) AND 0xffff\<rparr>
              in (t, if timer t = 0 \<and> cr t AND (CR_INMODE OR CR_INMODE1) = 0 then 2 else ovfl))
         else (t, ovfl))"

text \<open>Underflow of a timer: reload, and stop or restart.\<close>

definition overflow_step :: "cia_env \<Rightarrow> int \<Rightarrow> bool \<Rightarrow> bool \<Rightarrow> cia_timer \<Rightarrow> cia_timer" where
  "overflow_step e ovfl loaded loaded2 t =
     (if ovfl \<noteq> 0 \<or> preovfl t then
        let t = (if ovfl \<noteq> 0 then t\<lparr>timer := latch t\<rparr> else t);
            t = (if \<not> loaded then
                   (if cr t AND CR_RUNMODE \<noteq> 0 then
                      let t = (if loaded2 then t\<lparr>loaddelay := loaddelay t OR 0x00010000\<rparr> else t\<lparr>cr := cr t AND NOT CR_START\<rparr>);
                          t = (if \<not> acc_mode e then t\<lparr>inputpipe := 0\<rparr> else t)
                      in if acc_mode e then t\<lparr>inputpipe := inputpipe t AND NOT CIA_PIPE_CLR2\<rparr> else t
                    else if acc_mode e then t\<lparr>inputpipe := inputpipe t AND NOT CIA_PIPE_CLR1\<rparr> else t)
                 else t)
        in t\<lparr>preovfl := False\<rparr>
      else t)"

text \<open>The underflows of both timers, once counted, and the flags they raise.\<close>

definition finish_chip ::
  "cia_env \<Rightarrow> nat \<Rightarrow> u8 \<Rightarrow> int \<Rightarrow> bool \<Rightarrow> bool \<Rightarrow> bool \<Rightarrow> int \<Rightarrow> bool \<Rightarrow> bool \<Rightarrow> cia \<Rightarrow> cia_timer \<Rightarrow> cia \<times> u8" where
  "finish_chip e num icr ovfla loada load2a sp ovflb loadb load2b c b =
     (let b = (if ovfla \<noteq> 0 \<and> (cr b AND (CR_INMODE OR CR_INMODE1 OR CR_START) = CR_INMODE1 OR CR_START \<or>
                 cr b AND (CR_INMODE OR CR_INMODE1 OR CR_START) = CR_INMODE OR CR_INMODE1 OR CR_START)
               then b\<lparr>inputpipe := inputpipe b OR CIA_PIPE_INPUT\<rparr> else b);
          flags = (if ovfla > 1 then ICR_A else 0) OR (if ovflb > 1 then ICR_B else 0) OR (if sp then ICR_SP else 0);
          icr = (if flags \<noteq> 0 then icr OR push_bit num 1 else icr);
          c = c\<lparr>ta := overflow_step e ovfla loada load2a (ta c), tb := overflow_step e ovflb loadb load2b b,
                icr2 := icr2 c OR flags\<rparr>
      in (if \<not> acc_mode e then c\<lparr>icr1 := icr1 c OR icr2 c, icr2 := 0\<rparr>
          else if icr \<noteq> 0 then c\<lparr>icr_change := True\<rparr> else c, icr))"

text \<open>
  One chip's part of \<^verbatim>\<open>CIA_update_check\<close>. \<open>icr\<close> is the local flag word of the C function, which both
  chips share.
\<close>

definition update_chip :: "cia_env \<Rightarrow> nat \<Rightarrow> nat \<Rightarrow> u8 \<Rightarrow> cia \<Rightarrow> (cia \<times> u8) option" where
  "update_chip e ciaclocks num icr c =
     (let c = c\<lparr>icr1 := icr1 c OR icr2 c, icr2 := 0, icr_change := False\<rparr>
      in if (loaddelay (ta c) \<noteq> 0 \<or> loaddelay (tb c) \<noteq> 0) \<and> ciaclocks > 1 then None
         else
           let (a, ovfla, loada, load2a, load3a) = load_step (ta c);
               (b, ovflb, loadb, load2b, load3b) = load_step (tb c);
               (c, ovfla, sp) = timer_a_clock e ciaclocks ovfla load3a (c\<lparr>ta := a, tb := b\<rparr>)
           in if timer (ta c) \<ge> 0x10000 then None
              else
                let (b, ovflb) = timer_b_clock e ciaclocks ovflb load3b (tb c)
                in if timer b \<ge> 0x10000 then None
                   else Some (finish_chip e num icr ovfla loada load2a sp ovflb loadb load2b c b))"

definition ciaclocks_since :: "cia_env \<Rightarrow> cia_sys \<Rightarrow> int" where
  "ciaclocks_since e s =
     (let cc = ccount_since e s in sint (word_of_int (if cc < 0 then - (- cc div DIV10) else cc div DIV10) :: u32))"

definition CIA_update_check :: "cia_env \<Rightarrow> cia_sys \<Rightarrow> cia_sys option" where
  "CIA_update_check e s =
     (let n = ciaclocks_since e s
      in if n = 0 then Some s
         else case update_chip e (nat n) 0 0 (ciaa s) of
                None \<Rightarrow> None
              | Some (a, icr) \<Rightarrow>
                  (case update_chip e (nat n) 1 icr (ciab s) of
                     None \<Rightarrow> None
                   | Some (b, icr) \<Rightarrow> Some (s\<lparr>ciaa := a, ciab := b\<rparr>)))"

definition CIA_check_ICR :: "cia_env \<Rightarrow> cia_sys \<Rightarrow> cia_sys" where
  "CIA_check_ICR e s =
     (let s = (if icr1 (ciaa s) AND ICR_MASK \<noteq> 0 then RethinkICR e 0 s else s)
      in if icr1 (ciab s) AND ICR_MASK \<noteq> 0 then RethinkICR e 1 s else s)"

definition CIA_update :: "cia_env \<Rightarrow> cia_sys \<Rightarrow> cia_sys option" where
  "CIA_update e s = map_option (CIA_check_ICR e) (CIA_update_check e s)"

subsection \<open>Scheduling of the next event\<close>

text \<open>The time until a timer wants service, with \<open>None\<close> for the code's -1.\<close>

definition timer_time :: "u8 \<Rightarrow> cia_timer \<Rightarrow> int option option" where
  "timer_time crmask t =
     (if cr t AND crmask = CR_START then
        (case bitstodelay (inputpipe t) of
           None \<Rightarrow> None
         | Some pipe \<Rightarrow>
             let v = sint (word_of_int DIV10 * (timer t + of_nat pipe) :: u32) in Some (Some (if v = 0 then DIV10 else v)))
      else Some None)"

definition cap_time :: "int option \<Rightarrow> int option" where
  "cap_time v = (case v of None \<Rightarrow> Some DIV10 | Some n \<Rightarrow> Some (if n < 0 \<or> n > DIV10 then DIV10 else n))"

definition timerspecial :: "bool \<Rightarrow> cia_timer \<Rightarrow> bool" where
  "timerspecial counting t =
     (if cr t AND CR_START \<noteq> 0
      then loaddelay t \<noteq> 0 \<or> inputpipe t \<noteq> CIA_PIPE_ALL_MASK \<and> (counting \<or> inputpipe t \<noteq> 0)
      else loaddelay t \<noteq> 0 \<or> inputpipe t \<noteq> 0)"

definition chip_times :: "cia \<Rightarrow> int option list option" where
  "chip_times c =
     (case timer_time (CR_INMODE OR CR_START) (ta c) of
        None \<Rightarrow> None
      | Some va \<Rightarrow>
          (case timer_time (CR_INMODE OR CR_INMODE1 OR CR_START) (tb c) of
             None \<Rightarrow> None
           | Some vb \<Rightarrow>
               let va = (if timerspecial (va \<noteq> None) (ta c) then cap_time va else va);
                   vb = (if timerspecial (vb \<noteq> None) (tb c) then cap_time vb else vb);
                   va = (if icr_change c then cap_time va else va)
               in Some [va, vb]))"

definition earlier :: "int option \<Rightarrow> int \<Rightarrow> int" where
  "earlier v m = (case v of None \<Rightarrow> m | Some n \<Rightarrow> if 0 \<le> n \<and> n < m then n else m)"

definition ciatime :: "int option list \<Rightarrow> int" where
  "ciatime vs = fold earlier vs MAXINT"

definition CIA_calctimers :: "cia_env \<Rightarrow> cia_sys \<Rightarrow> cia_sys option" where
  "CIA_calctimers e s =
     (let s = s\<lparr>oldcycles := get_cycles e\<rparr>
      in case chip_times (ciaa s) of
           None \<Rightarrow> None
         | Some va \<Rightarrow>
             (case chip_times (ciab s) of
                None \<Rightarrow> None
              | Some vb \<Rightarrow>
                  let t = ciatime (va @ vb)
                  in Some (if t < MAXINT then s\<lparr>evtime := get_cycles e + t, ev_active := True\<rparr>
                           else s\<lparr>ev_active := False\<rparr>)))"

definition CIA_handler :: "cia_env \<Rightarrow> cia_sys \<Rightarrow> cia_sys option" where
  "CIA_handler e s = Option.bind (CIA_update e s) (CIA_calctimers e)"

text \<open>The delay until the interrupt line sees a pulse: the wait for the E clock and its first phase.\<close>

definition get_cia_sync_cycles :: "cia_env \<Rightarrow> int \<times> int" where
  "get_cia_sync_cycles e =
     (let div10 = e_cycles e mod DIV10; synccycle = e_clock_sync e * E_CYCLE_UNIT;
          add = (if div10 < synccycle then synccycle - div10
                 else if div10 > synccycle then DIV10 - div10 + synccycle else 0)
      in (e_clock_start e * E_CYCLE_UNIT, add))"

definition event2_newevent_xx :: "int \<Rightarrow> nat \<Rightarrow> cia_event \<Rightarrow> cia_sys \<Rightarrow> cia_sys" where
  "event2_newevent_xx t num ev s = s\<lparr>queued := queued s @ [(t, num, ev)]\<rparr>"

definition CIA_sync_interrupt :: "cia_env \<Rightarrow> nat \<Rightarrow> u8 \<Rightarrow> cia_sys \<Rightarrow> cia_sys" where
  "CIA_sync_interrupt e num icr s =
     (let c = chip s num
      in if acc_mode e then
           (if icr AND imask c = 0 then set_chip num (c\<lparr>icr1 := icr1 c OR icr\<rparr>) s
            else
              let c = c\<lparr>icr2 := icr2 c OR icr\<rparr>; s = set_chip num c s
              in if icr1 c AND ICR_MASK = icr2 c AND ICR_MASK then s
                 else let (delay, syncdelay) = get_cia_sync_cycles e
                      in event2_newevent_xx (DIV10 + (delay + syncdelay)) num Synced_interrupt s)
         else CIA_check_ICR e (set_chip num (c\<lparr>icr1 := icr1 c OR icr\<rparr>) s))"

section \<open>Well-formed timers\<close>

definition timer_ok :: "cia_timer \<Rightarrow> bool" where
  "timer_ok t \<longleftrightarrow> timer t < 0x10000 \<and> latch t < 0x10000 \<and> inputpipe t < 4"

definition chip_ok :: "cia \<Rightarrow> bool" where
  "chip_ok c \<longleftrightarrow> timer_ok (ta c) \<and> timer_ok (tb c)"

definition sys_ok :: "cia_sys \<Rightarrow> bool" where
  "sys_ok s \<longleftrightarrow> chip_ok (ciaa s) \<and> chip_ok (ciab s)"

lemma pipe_cases: "p < 4 \<longleftrightarrow> p = 0 \<or> p = 1 \<or> p = 2 \<or> p = 3" for p :: u16
proof
  assume "p < 4"
  then have "unat p < 4" by (simp add: word_less_nat_alt)
  then have "unat p = 0 \<or> unat p = 1 \<or> unat p = 2 \<or> unat p = 3" by linarith
  then show "p = 0 \<or> p = 1 \<or> p = 2 \<or> p = 3" by (simp add: word_unat_eq_iff)
qed auto

lemma and_ffff_less [simp]: "(x AND 0xffff :: u32) < 0x10000"
  by (rule le_less_trans [OF word_and_le1]) simp

lemma pipe_and_less [simp]: "p < 4 \<Longrightarrow> p AND m < 4" for p m :: u16
  by (rule le_less_trans [OF word_and_le2])

lemma pipe_shift_less [simp]: "p < 4 \<Longrightarrow> drop_bit (Suc 0) p OR 2 < 4" "p < 4 \<Longrightarrow> drop_bit (Suc 0) p < 4"
  "p < 4 \<Longrightarrow> p OR 2 < 4" for p :: u16
  by (auto simp: pipe_cases)

lemma bitstodelay_ok [simp]: "p < 4 \<Longrightarrow> bitstodelay p = Some (if p = 0 then 2 else if p = 3 then 0 else 1)"
  by (auto simp: pipe_cases bitstodelay_def)

lemma timer_ok_simps [simp]:
  "timer_ok (t\<lparr>passed := x\<rparr>) = timer_ok t" "timer_ok (t\<lparr>loaddelay := d\<rparr>) = timer_ok t"
  "timer_ok (t\<lparr>preovfl := b\<rparr>) = timer_ok t" "timer_ok (t\<lparr>cr := r\<rparr>) = timer_ok t"
  "timer_ok t \<Longrightarrow> timer_ok (t\<lparr>timer := latch t\<rparr>)"
  "timer_ok t \<Longrightarrow> timer_ok (t\<lparr>timer := y AND 0xffff\<rparr>)" "timer_ok t \<Longrightarrow> timer_ok (t\<lparr>timer := 0\<rparr>)"
  "timer_ok t \<Longrightarrow> timer_ok (t\<lparr>inputpipe := inputpipe t AND m\<rparr>)"
  "timer_ok t \<Longrightarrow> timer_ok (t\<lparr>inputpipe := 0\<rparr>)" "timer_ok t \<Longrightarrow> timer_ok (t\<lparr>inputpipe := 3\<rparr>)"
  "timer_ok t \<Longrightarrow> timer_ok (t\<lparr>inputpipe := inputpipe t OR 2\<rparr>)"
  "timer_ok t \<Longrightarrow> timer_ok (t\<lparr>timer := latch t, inputpipe := inputpipe t AND m\<rparr>)"
  by (auto simp: timer_ok_def)

lemma timer_reset_ok [simp]: "timer_ok t \<Longrightarrow> timer_ok (timer_reset e t)"
  by (auto simp: timer_reset_def Let_def timer_ok_def)

lemma inmode_underflow_ok [simp]: "timer_ok t \<Longrightarrow> timer_ok (inmode_underflow e t)"
  by (simp add: inmode_underflow_def Let_def)

lemma pred_less: "x < m \<Longrightarrow> x \<noteq> 0 \<Longrightarrow> x - 1 < m" for x m :: u32
  by (simp add: word_less_nat_alt unat_minus_one)

lemma timer_pred_ok [simp]: "timer_ok t \<Longrightarrow> timer t \<noteq> 0 \<Longrightarrow> timer_ok (t\<lparr>timer := timer t - 1\<rparr>)"
  by (simp add: timer_ok_def pred_less)

lemma cia_inmode_cnt_ok: "chip_ok c \<Longrightarrow> chip_ok (snd (cia_inmode_cnt e c))"
  by (simp add: cia_inmode_cnt_def chip_ok_def Let_def case_prod_beta timer_pred_ok)

lemma pipe_shift_ok [simp]: "timer_ok t \<Longrightarrow> timer_ok (pipe_shift m t)"
  by (auto simp: pipe_shift_def timer_ok_def Let_def CIA_PIPE_INPUT_def)

lemma pipe_loop_ok: "timer_ok t \<Longrightarrow> timer_ok (fst (pipe_loop m t n k))"
  by (induction m t n k rule: pipe_loop.induct) auto

lemma process_pipe_ok: "timer_ok t \<Longrightarrow> timer_ok (fst (process_pipe e t n m ov l))"
  by (simp add: process_pipe_def Let_def case_prod_beta pipe_loop_ok)

lemma load_step_ok: "timer_ok t \<Longrightarrow> timer_ok (fst (load_step t))"
  by (simp add: load_step_def Let_def CIA_PIPE_CLR1_def)

lemma overflow_step_ok [simp]: "timer_ok t \<Longrightarrow> timer_ok (overflow_step e ov l l2 t)"
  by (simp add: overflow_step_def Let_def CIA_PIPE_CLR1_def CIA_PIPE_CLR2_def)

lemma timer_b_clock_ok: "timer_ok t \<Longrightarrow> timer_ok (fst (timer_b_clock e n ov l t))"
  by (simp add: timer_b_clock_def Let_def case_prod_beta process_pipe_ok)

lemma sp_clock_timers [simp]: "ta (fst (sp_clock c)) = ta c" "tb (fst (sp_clock c)) = tb c"
  by (auto simp: sp_clock_def Let_def)

lemma timer_a_clock_ok: "chip_ok c \<Longrightarrow> chip_ok (fst (timer_a_clock e n ov l c))"
  by (simp add: timer_a_clock_def chip_ok_def Let_def case_prod_beta process_pipe_ok)

lemma timer_a_clock_timers:
  assumes "timer_ok (ta c)" "timer_ok (tb c)"
  shows "timer_ok (ta (fst (timer_a_clock e n ov l c)))" "timer_ok (tb (fst (timer_a_clock e n ov l c)))"
  using timer_a_clock_ok [of c e n ov l] assms by (simp_all add: chip_ok_def)

lemma timer_ok_small: "timer_ok t \<Longrightarrow> \<not> 0x10000 \<le> timer t"
  by (simp add: timer_ok_def not_le)

lemma update_chip_total:
  assumes "chip_ok c" "n \<le> 1 \<or> loaddelay (ta c) = 0 \<and> loaddelay (tb c) = 0"
  shows "\<exists>c' i. update_chip e n num icr c = Some (c', i) \<and> chip_ok c'"
proof -
  have go: "loaddelay (ta c) = 0 \<and> loaddelay (tb c) = 0 \<or> \<not> Suc 0 < n" using assms(2) by auto
  show ?thesis
    using assms(1)
    by (simp add: update_chip_def finish_chip_def Let_def case_prod_beta go chip_ok_def load_step_ok timer_a_clock_timers timer_b_clock_ok timer_ok_small CIA_PIPE_INPUT_def)
qed

lemma CIA_check_ICR_ok [simp]: "sys_ok (CIA_check_ICR e s) = sys_ok s"
  by (simp add: CIA_check_ICR_def RethinkICR_def ICR_def ICRIRQ_def chip_def set_chip_def sys_ok_def chip_ok_def Let_def)

definition pipe_delay :: "u16 \<Rightarrow> int" where
  "pipe_delay p = (if p = 0 then 2 else if p = 3 then 0 else 1)"

definition due :: "u8 \<Rightarrow> cia_timer \<Rightarrow> int option" where
  "due crmask t = (if cr t AND crmask = CR_START then Some (DIV10 * max 1 (uint (timer t) + pipe_delay (inputpipe t))) else None)"

lemma sint_s32_small: "0 \<le> v \<Longrightarrow> v < 0x80000000 \<Longrightarrow> sint (word_of_int v :: u32) = v"
  by (simp add: sint_sbintrunc' signed_take_bit_int_eq_self)

lemma timer_time_ok: "timer_ok t \<Longrightarrow> timer_time crmask t = Some (due crmask t)"
proof -
  assume t: "timer_ok t"
  define d :: int where "d = pipe_delay (inputpipe t)"
  have d: "0 \<le> d" "d \<le> 2" by (simp_all add: d_def pipe_delay_def)
  have b: "bitstodelay (inputpipe t) = Some (nat d)"
    using t by (simp add: timer_ok_def d_def pipe_delay_def)
  have u: "uint (timer t) < 65536" "0 \<le> uint (timer t)"
    using t by (simp_all add: timer_ok_def word_less_def)
  have "sint (word_of_int 2560 * (timer t + of_nat (nat d)) :: u32) = 2560 * (uint (timer t) + d)"
  proof -
    obtain k where k: "timer t = word_of_int k" "uint (timer t) = k" by (metis word_of_int_uint)
    have "sint (word_of_int (2560 * (k + d)) :: u32) = 2560 * (k + d)"
      using d u unfolding k(2) by (intro sint_s32_small) simp_all
    moreover have "word_of_int 2560 * (timer t + of_nat (nat d)) = (word_of_int (2560 * (k + d)) :: u32)"
      using d k(1) by (simp add: wi_hom_syms)
    ultimately show ?thesis using k(2) by simp
  qed
  then have s: "sint (word_of_int DIV10 * (timer t + of_nat (nat d)) :: u32) = DIV10 * (uint (timer t) + d)"
    by (simp only: DIV10_def E_CYCLE_UNIT_def CYCLE_UNIT_def) simp
  define v where "v = uint (timer t) + d"
  have v: "0 \<le> v" using d u by (simp add: v_def)
  then have "(if DIV10 * v = 0 then DIV10 else DIV10 * v) = DIV10 * max 1 v"
    by (auto simp: max_def DIV10_def E_CYCLE_UNIT_def CYCLE_UNIT_def)
  then show ?thesis
    by (simp only: timer_time_def due_def b option.case Let_def s flip: d_def v_def) (simp only: if_distrib [of Some])
qed

section \<open>Scheduling\<close>

text \<open>
  What the event table promises for a timer: a counting timer is served before it can pass zero,
  and a timer with a pending delayed load is served at the next clock.
\<close>

definition served_within :: "cia_sys \<Rightarrow> int \<Rightarrow> bool" where
  "served_within s d \<longleftrightarrow> ev_active s \<and> evtime s \<le> oldcycles s + d"

definition timer_sched :: "cia_sys \<Rightarrow> u8 \<Rightarrow> cia_timer \<Rightarrow> bool" where
  "timer_sched s crmask t \<longleftrightarrow>
     (\<forall>d. due crmask t = Some d \<longrightarrow> served_within s d) \<and> (loaddelay t \<noteq> 0 \<longrightarrow> served_within s DIV10)"

definition chip_sched :: "cia_sys \<Rightarrow> cia \<Rightarrow> bool" where
  "chip_sched s c \<longleftrightarrow> timer_sched s (CR_INMODE OR CR_START) (ta c) \<and> timer_sched s (CR_INMODE OR CR_INMODE1 OR CR_START) (tb c)"

definition cia_inv :: "cia_sys \<Rightarrow> bool" where
  "cia_inv s \<longleftrightarrow> sys_ok s \<and> chip_sched s (ciaa s) \<and> chip_sched s (ciab s)"

text \<open>The event of the timers runs in the clock it is due in.\<close>

definition on_time :: "cia_env \<Rightarrow> cia_sys \<Rightarrow> bool" where
  "on_time e s \<longleftrightarrow> oldcycles s \<le> get_cycles e \<and> (ev_active s \<longrightarrow> get_cycles e < evtime s + DIV10)"

lemma DIV10_val: "DIV10 = 2560"
  by (simp add: DIV10_def E_CYCLE_UNIT_def CYCLE_UNIT_def)

lemma fold_earlier_le: "fold earlier vs m \<le> m"
proof (induction vs arbitrary: m)
  case (Cons v vs)
  have "earlier v m \<le> m" by (auto simp: earlier_def split: option.splits)
  then show ?case using Cons [of "earlier v m"] by simp
qed simp

lemma fold_earlier_mem: "Some n \<in> set vs \<Longrightarrow> 0 \<le> n \<Longrightarrow> fold earlier vs m \<le> n"
proof (induction vs arbitrary: m)
  case (Cons v vs)
  show ?case
  proof (cases "v = Some n")
    case True
    then have "earlier v m \<le> n" using Cons.prems by (simp add: earlier_def)
    then show ?thesis using fold_earlier_le [of vs "earlier v m"] by simp
  qed (use Cons in simp)
qed simp

lemma ciatime_le: "Some n \<in> set vs \<Longrightarrow> 0 \<le> n \<Longrightarrow> ciatime vs \<le> n"
  using fold_earlier_mem [of n vs MAXINT] by (simp add: ciatime_def)

definition service_time :: "bool \<Rightarrow> int option \<Rightarrow> int option" where
  "service_time special v = (if special then cap_time v else v)"

lemma chip_times_ok:
  assumes "chip_ok c"
  shows "\<exists>va vb. chip_times c = Some [va, vb] \<and>
    va = service_time (icr_change c \<or> timerspecial (due (CR_INMODE OR CR_START) (ta c) \<noteq> None) (ta c)) (due (CR_INMODE OR CR_START) (ta c)) \<and>
    vb = service_time (timerspecial (due (CR_INMODE OR CR_INMODE1 OR CR_START) (tb c) \<noteq> None) (tb c))
           (due (CR_INMODE OR CR_INMODE1 OR CR_START) (tb c))"
  using assms
  by (auto simp: chip_times_def chip_ok_def timer_time_ok service_time_def cap_time_def Let_def DIV10_val split: option.splits)

lemma due_pos: "due m t = Some d \<Longrightarrow> 0 < d"
  by (auto simp: due_def DIV10_val max_def split: if_splits)

lemma service_time_le: "due m t = Some d \<Longrightarrow> \<exists>n. service_time b (due m t) = Some n \<and> 0 \<le> n \<and> n \<le> d"
  using due_pos [of m t d] by (auto simp: service_time_def cap_time_def DIV10_val)

lemma service_time_special: "b \<Longrightarrow> \<exists>n. service_time b (due m t) = Some n \<and> 0 \<le> n \<and> n \<le> DIV10"
  using due_pos [of m t] by (auto simp: service_time_def cap_time_def DIV10_val split: option.splits)

lemma timer_sched_ok:
  assumes "timer_sched s m t"
    and "ev_active s' = ev_active s" "evtime s' = evtime s" "oldcycles s' = oldcycles s"
  shows "timer_sched s' m t"
  using assms by (simp add: timer_sched_def served_within_def)

lemma CIA_calctimers_inv:
  assumes "sys_ok s"
  shows "\<exists>s'. CIA_calctimers e s = Some s' \<and> cia_inv s' \<and> oldcycles s' = get_cycles e \<and>
    ciaa s' = ciaa s \<and> ciab s' = ciab s \<and> irqs s' = irqs s \<and> queued s' = queued s"
proof -
  have ok: "timer_ok (ta (ciaa s))" "timer_ok (tb (ciaa s))" "timer_ok (ta (ciab s))" "timer_ok (tb (ciab s))"
    using assms by (simp_all add: sys_ok_def chip_ok_def)
  obtain va vb where a: "chip_times (ciaa s) = Some [va, vb]"
    and va: "va = service_time (icr_change (ciaa s) \<or> timerspecial (due (CR_INMODE OR CR_START) (ta (ciaa s)) \<noteq> None) (ta (ciaa s)))
        (due (CR_INMODE OR CR_START) (ta (ciaa s)))"
    and vb: "vb = service_time (timerspecial (due (CR_INMODE OR CR_INMODE1 OR CR_START) (tb (ciaa s)) \<noteq> None) (tb (ciaa s)))
           (due (CR_INMODE OR CR_INMODE1 OR CR_START) (tb (ciaa s)))"
    using chip_times_ok [of "ciaa s"] assms by (auto simp: sys_ok_def)
  obtain vc vd where b: "chip_times (ciab s) = Some [vc, vd]"
    and vc: "vc = service_time (icr_change (ciab s) \<or> timerspecial (due (CR_INMODE OR CR_START) (ta (ciab s)) \<noteq> None) (ta (ciab s)))
        (due (CR_INMODE OR CR_START) (ta (ciab s)))"
    and vd: "vd = service_time (timerspecial (due (CR_INMODE OR CR_INMODE1 OR CR_START) (tb (ciab s)) \<noteq> None) (tb (ciab s)))
           (due (CR_INMODE OR CR_INMODE1 OR CR_START) (tb (ciab s)))"
    using chip_times_ok [of "ciab s"] assms by (auto simp: sys_ok_def)
  define t where "t = ciatime [va, vb, vc, vd]"
  define s' where "s' = (if t < MAXINT then s\<lparr>oldcycles := get_cycles e, evtime := get_cycles e + t, ev_active := True\<rparr>
    else s\<lparr>oldcycles := get_cycles e, ev_active := False\<rparr>)"
  have s': "CIA_calctimers e s = Some s'"
    by (simp add: CIA_calctimers_def a b s'_def t_def Let_def)
  have le: "served_within s' d" if "Some n \<in> {va, vb, vc, vd}" "0 \<le> n" "n \<le> d" "d \<le> 0x10000000" for n d
    using ciatime_le [of n "[va, vb, vc, vd]"] that by (auto simp: served_within_def s'_def t_def MAXINT_def)
  have sched: "timer_sched s' m t"
    if v: "v = service_time (b \<or> timerspecial (due m t \<noteq> None) t) (due m t)" and m: "v \<in> {va, vb, vc, vd}" and t: "timer_ok t" for b v m t
  proof -
    let ?b = "b \<or> timerspecial (due m t \<noteq> None) t"
    show ?thesis
      unfolding timer_sched_def
    proof (intro conjI allI impI)
      fix d
      assume d: "due m t = Some d"
      then have "d \<le> 0x10000000"
        using t by (auto simp: due_def DIV10_val max_def pipe_delay_def timer_ok_def word_less_def split: if_splits)
      moreover obtain n where "service_time ?b (due m t) = Some n" "0 \<le> n" "n \<le> d"
        using service_time_le [OF d] by blast
      ultimately show "served_within s' d" using le [of n d] v m by simp
    next
      assume "loaddelay t \<noteq> 0"
      then have ?b by (simp add: timerspecial_def)
      from service_time_special [OF this, of m t] obtain n where "service_time ?b (due m t) = Some n" "0 \<le> n" "n \<le> DIV10"
        by blast
      then show "served_within s' DIV10" using le [of n DIV10] v m by (simp add: DIV10_val)
    qed
  qed
  have sides: "oldcycles s' = get_cycles e" "ciaa s' = ciaa s" "ciab s' = ciab s" "irqs s' = irqs s" "queued s' = queued s"
    by (simp_all add: s'_def)
  have "cia_inv s'"
    using ok sched [OF va _ ok(1)] sched [where b = False, unfolded simp_thms, OF vb _ ok(2)]
      sched [OF vc _ ok(3)] sched [where b = False, unfolded simp_thms, OF vd _ ok(4)]
    by (simp add: cia_inv_def sys_ok_def chip_ok_def chip_sched_def sides)
  with s' sides show ?thesis by blast
qed

lemma ccount_on_time:
  assumes "on_time e s" "served_within s d"
  shows "0 \<le> ccount_since e s" "ccount_since e s < d + DIV10"
  using assms by (auto simp: on_time_def served_within_def ccount_since_def Let_def MAXINT_def)

lemma ccount_bounds: "on_time e s \<Longrightarrow> 0 \<le> ccount_since e s \<and> ccount_since e s \<le> MAXINT"
  by (auto simp: on_time_def ccount_since_def Let_def MAXINT_def)

lemma ciaclocks_div: "on_time e s \<Longrightarrow> ciaclocks_since e s = ccount_since e s div DIV10"
  using ccount_bounds [of e s]
  by (auto simp: ciaclocks_since_def Let_def DIV10_val MAXINT_def intro!: sint_s32_small)

lemma passed_div: "on_time e s \<Longrightarrow> uint (word_of_int (ccount_since e s) :: u32) = ccount_since e s"
  using ccount_bounds [of e s]
  by (simp add: MAXINT_def uint_word_of_int_eq take_bit_int_eq_self)

lemma clocks_within:
  assumes "on_time e s" "served_within s (DIV10 * k)"
  shows "ccount_since e s div DIV10 \<le> k"
  using ccount_on_time [OF assms] by (simp add: DIV10_val)

text \<open>Run on time, no assertion fails: a delayed load never has to skip clocks.\<close>

lemma CIA_update_total:
  assumes "cia_inv s" "on_time e s"
  shows "\<exists>s'. CIA_update e s = Some s' \<and> sys_ok s'"
proof (cases "ciaclocks_since e s = 0")
  case True
  then show ?thesis using assms by (simp add: CIA_update_def CIA_update_check_def cia_inv_def)
next
  case False
  define n where "n = nat (ciaclocks_since e s)"
  have one: "n \<le> 1" if "served_within s DIV10"
    using clocks_within [of e s 1] that assms(2) by (simp add: n_def ciaclocks_div)
  have "n \<le> 1 \<or> loaddelay (ta (ciaa s)) = 0 \<and> loaddelay (tb (ciaa s)) = 0"
    "n \<le> 1 \<or> loaddelay (ta (ciab s)) = 0 \<and> loaddelay (tb (ciab s)) = 0"
    using one assms(1) by (auto simp: cia_inv_def chip_sched_def timer_sched_def)
  moreover have ok: "chip_ok (ciaa s)" "chip_ok (ciab s)" using assms(1) by (simp_all add: cia_inv_def sys_ok_def)
  ultimately obtain a i b j where u: "update_chip e n 0 0 (ciaa s) = Some (a, i)" "chip_ok a"
    "update_chip e n 1 i (ciab s) = Some (b, j)" "chip_ok b"
    using update_chip_total by metis
  moreover have "sys_ok (s\<lparr>ciaa := a, ciab := b\<rparr>)" using u by (simp add: sys_ok_def)
  ultimately show ?thesis
    using False by (simp add: CIA_update_def CIA_update_check_def Let_def n_def)
qed

lemma CIA_handler_inv:
  assumes "cia_inv s" "on_time e s"
  shows "\<exists>s'. CIA_handler e s = Some s' \<and> cia_inv s' \<and> oldcycles s' = get_cycles e"
  using CIA_update_total [OF assms] CIA_calctimers_inv [of _ e] by (fastforce simp: CIA_handler_def)

lemma passed_clocks_total:
  assumes "timer_ok t" "timer_sched s m t" "on_time e s"
  shows "\<exists>x. passed_clocks (nat (ccount_since e s div DIV10)) t m = Some (t\<lparr>passed := x\<rparr>)"
proof (cases "cr t AND m = CR_START")
  case True
  define d where "d = pipe_delay (inputpipe t)"
  have d: "0 \<le> d" "d \<le> 2" by (simp_all add: d_def pipe_delay_def)
  have b: "bitstodelay (inputpipe t) = Some (nat d)"
    using assms(1) by (simp add: timer_ok_def d_def pipe_delay_def)
  have "served_within s (DIV10 * max 1 (uint (timer t) + d))"
    using assms(2) True by (simp add: timer_sched_def due_def d_def)
  then have "ccount_since e s div DIV10 \<le> max 1 (uint (timer t) + d)" using clocks_within assms(3) by blast
  moreover have "uint (timer t) < 65536" using assms(1) by (simp add: timer_ok_def word_less_def)
  ultimately have "nat (ccount_since e s div DIV10) < nat d + 65536" using d by (auto simp: max_def split: if_splits)
  then show ?thesis using True b by (auto simp: passed_clocks_def Let_def)
qed (auto simp: passed_clocks_def Let_def)

lemma compute_passed_time_total:
  assumes "cia_inv s" "on_time e s"
  shows "\<exists>w x y z. compute_passed_time e s =
    Some (s\<lparr>ciaa := (ciaa s)\<lparr>ta := (ta (ciaa s))\<lparr>passed := w\<rparr>, tb := (tb (ciaa s))\<lparr>passed := x\<rparr>\<rparr>,
            ciab := (ciab s)\<lparr>ta := (ta (ciab s))\<lparr>passed := y\<rparr>, tb := (tb (ciab s))\<lparr>passed := z\<rparr>\<rparr>\<rparr>)"
proof -
  have ok: "timer_ok (ta (ciaa s))" "timer_ok (tb (ciaa s))" "timer_ok (ta (ciab s))" "timer_ok (tb (ciab s))"
    using assms(1) by (simp_all add: cia_inv_def sys_ok_def chip_ok_def)
  have sc: "timer_sched s (CR_INMODE OR CR_START) (ta (ciaa s))" "timer_sched s (CR_INMODE OR CR_INMODE1 OR CR_START) (tb (ciaa s))"
    "timer_sched s (CR_INMODE OR CR_START) (ta (ciab s))" "timer_sched s (CR_INMODE OR CR_INMODE1 OR CR_START) (tb (ciab s))"
    using assms(1) by (simp_all add: cia_inv_def chip_sched_def)
  obtain w x y z where
    "passed_clocks (nat (ccount_since e s div DIV10)) (ta (ciaa s)) (CR_INMODE OR CR_START) = Some ((ta (ciaa s))\<lparr>passed := w\<rparr>)"
    "passed_clocks (nat (ccount_since e s div DIV10)) (tb (ciaa s)) (CR_INMODE OR CR_INMODE1 OR CR_START) = Some ((tb (ciaa s))\<lparr>passed := x\<rparr>)"
    "passed_clocks (nat (ccount_since e s div DIV10)) (ta (ciab s)) (CR_INMODE OR CR_START) = Some ((ta (ciab s))\<lparr>passed := y\<rparr>)"
    "passed_clocks (nat (ccount_since e s div DIV10)) (tb (ciab s)) (CR_INMODE OR CR_INMODE1 OR CR_START) = Some ((tb (ciab s))\<lparr>passed := z\<rparr>)"
    using passed_clocks_total [OF ok(1) sc(1) assms(2)] passed_clocks_total [OF ok(2) sc(2) assms(2)]
      passed_clocks_total [OF ok(3) sc(3) assms(2)] passed_clocks_total [OF ok(4) sc(4) assms(2)] by blast
  then show ?thesis
    by (simp add: compute_passed_time_def compute_passed_time_cia_def passed_div [OF assms(2)] Let_def) blast
qed

end
