(* ===== verification/CiaRegs.thy ===== *)
theory CiaRegs
  imports Cia
begin

text \<open>
  The time-of-day counters of the 8520s and the access to registers 4 to 15
  (\<^verbatim>\<open>sources/src/cia.c\<close>): lazy counting of the horizontal pulse, alarm, latched reading, the
  serial and control registers, and the sequence update, access, reschedule of a bus write.
\<close>

unbundle bit_operations_syntax

section \<open>Time of day\<close>

definition checkalarm :: "cia_env \<Rightarrow> u32 \<Rightarrow> u32 \<Rightarrow> bool \<Rightarrow> bool" where
  "checkalarm e td al inc =
     (if td = al then True
      else if \<not> cs_ciatodbug e then False
      else if \<not> inc then False
      else if td AND 0x000fff \<noteq> 0 then False
      else (td - 1) AND 0xfff000 = al)"

definition cia_checkalarm :: "cia_env \<Rightarrow> bool \<Rightarrow> bool \<Rightarrow> nat \<Rightarrow> cia_sys \<Rightarrow> bool \<times> cia_sys" where
  "cia_checkalarm e inc irq num s =
     (if checkalarm e (tod (chip s num)) (alarm (chip s num)) inc
      then (True, if irq then CIA_sync_interrupt e num ICR_ALARM s else s)
      else (False, s))"

definition TOD_INC_DELAY :: int where "TOD_INC_DELAY = 12 * 10 div 2"

definition tod_inc_delay :: "cia_env \<Rightarrow> int \<Rightarrow> int" where
  "tod_inc_delay e hoffset =
     (let hoff = hoffset + 1;
          c = e_cycles e + 6 * E_CYCLE_UNIT + hoff * CYCLE_UNIT;
          offset = hoff + TOD_INC_DELAY;
          unit = (10 * 4) div 2;
          div10 = (c div CYCLE_UNIT) mod unit
      in offset + (unit - div10) + e_clock_tod e)"

definition CIA_tod_inc :: "cia_env \<Rightarrow> bool \<Rightarrow> nat \<Rightarrow> cia_sys \<Rightarrow> cia_sys" where
  "CIA_tod_inc e irq num s =
     (let c = (chip s num)\<lparr>tod_event_state := 3\<rparr>; s = set_chip num c s
      in if \<not> todon c then s
         else snd (cia_checkalarm e True irq num (set_chip num (c\<lparr>tod := (tod c + 1) AND 0xFFFFFF\<rparr>) s)))"

definition event_CIA_tod_inc_event :: "cia_env \<Rightarrow> nat \<Rightarrow> cia_sys \<Rightarrow> cia_sys" where
  "event_CIA_tod_inc_event e num s = (if tod_event_state (chip s num) \<noteq> 2 then s else CIA_tod_inc e True num s)"

definition CIA_tod_event_check :: "cia_env \<Rightarrow> nat \<Rightarrow> cia_sys \<Rightarrow> cia_sys" where
  "CIA_tod_event_check e num s =
     (if tod_event_state (chip s num) = 1 \<and> current_hpos e \<ge> tod_offset (chip s num)
      then let s = CIA_tod_inc e False num s in set_chip num ((chip s num)\<lparr>tod_event_state := 0\<rparr>) s
      else s)"

definition CIA_tod_check :: "cia_env \<Rightarrow> nat \<Rightarrow> cia_sys \<Rightarrow> cia_sys" where
  "CIA_tod_check e num s =
     (let s = CIA_tod_event_check e num s; c = chip s num
      in if \<not> todon c \<or> tod_event_state c \<noteq> 1 \<or> tod_offset c < 0 then s
         else
           let hpos = current_hpos e - tod_offset c
           in if hpos \<ge> 0 \<or> \<not> acc_mode e then CIA_tod_inc e True num s
              else event2_newevent_xx (- hpos * CYCLE_UNIT) num Tod_inc_event (set_chip num (c\<lparr>tod_event_state := 2\<rparr>) s))"

definition CIA_tod_handler :: "cia_env \<Rightarrow> int \<Rightarrow> nat \<Rightarrow> bool \<Rightarrow> cia_sys \<Rightarrow> cia_sys" where
  "CIA_tod_handler e hoffset num delayedevent s =
     (let c = (chip s num)\<lparr>tod_event_state := 0, tod_offset := tod_inc_delay e hoffset\<rparr>
      in if tod_offset c \<ge> maxhpos e then
           (if \<not> delayedevent then set_chip num c s
            else set_chip num (c\<lparr>tod_offset := tod_offset c - maxhpos e, tod_event_state := 4\<rparr>) s)
         else
           let c = c\<lparr>tod_event_state := 1\<rparr>
           in if checkalarm e ((tod c + 1) AND 0xffffff) (alarm c) True
              then event2_newevent_xx (tod_offset c * CYCLE_UNIT) num Tod_inc_event (set_chip num (c\<lparr>tod_event_state := 2\<rparr>) s)
              else set_chip num c s)"

definition cia_delayed_tod :: "cia_env \<Rightarrow> nat \<Rightarrow> cia_sys \<Rightarrow> cia_sys" where
  "cia_delayed_tod e num s =
     (let c = chip s num
      in if tod_event_state c = 4 then set_chip num (c\<lparr>tod_event_state := 1\<rparr>) s
         else
           let s = (if tod_event_state c = 1 then CIA_tod_inc e False num s else s)
           in set_chip num ((chip s num)\<lparr>tod_event_state := 0, tod_offset := -1\<rparr>) s)"

text \<open>The four-digit loops of the 6526 mode.\<close>

fun getciatod_loop :: "nat \<Rightarrow> u32 \<Rightarrow> u32 \<Rightarrow> u32" where
  "getciatod_loop 0 td bcdtod = bcdtod"
| "getciatod_loop (Suc i) td bcdtod = getciatod_loop i (td div 10) (bcdtod * 16 + td mod 10)"

definition getciatod :: "cia_env \<Rightarrow> u32 \<Rightarrow> u32" where
  "getciatod e td = (if \<not> cs_cia6526 e then td else getciatod_loop 4 td 0)"

fun setciatod_loop :: "nat \<Rightarrow> u32 \<Rightarrow> u32 \<Rightarrow> u32" where
  "setciatod_loop 0 v bintod = bintod"
| "setciatod_loop (Suc i) v bintod = setciatod_loop i (v div 16) (bintod * 10 + v div 16)"

definition setciatod :: "cia_env \<Rightarrow> u32 \<Rightarrow> u32" where
  "setciatod e v = (if \<not> cs_cia6526 e then v else setciatod_loop 4 v 0)"

section \<open>Registers\<close>

definition tmr :: "cia \<Rightarrow> nat \<Rightarrow> cia_timer" where
  "tmr c tnum = (if tnum = 0 then ta c else tb c)"

definition set_tmr :: "nat \<Rightarrow> cia_timer \<Rightarrow> cia \<Rightarrow> cia" where
  "set_tmr tnum t c = (if tnum = 0 then c\<lparr>ta := t\<rparr> else c\<lparr>tb := t\<rparr>)"

definition reg_tnum :: "nat \<Rightarrow> nat" where
  "reg_tnum reg = (if reg = 6 \<or> reg = 7 \<or> reg = 15 then 1 else 0)"

definition ReadCIAReg :: "cia_env \<Rightarrow> nat \<Rightarrow> nat \<Rightarrow> cia_sys \<Rightarrow> u8 \<times> cia_sys" where
  "ReadCIAReg e num reg s =
     (if 4 \<le> reg \<and> reg \<le> 7 then
        let t = tmr (chip s num) (reg_tnum reg); tval = ucast (timer t - passed t) :: u16
        in (if reg = 4 \<or> reg = 6 then ucast (tval AND 0xff) else ucast (drop_bit 8 tval), s)
      else if reg = 8 then
        let s = CIA_tod_check e num s; c = chip s num
        in if tlatch c then (ucast (getciatod e (tol c)), set_chip num (c\<lparr>tlatch := False\<rparr>) s)
           else (ucast (getciatod e (tod c)), s)
      else if reg = 9 then
        let s = CIA_tod_check e num s; c = chip s num
        in (ucast (drop_bit 8 (getciatod e (if tlatch c then tol c else tod c))), s)
      else if reg = 10 then
        let s = CIA_tod_check e num s; c = chip s num
        in if \<not> cs_cia6526 e then
             let c = (if \<not> tlatch c then c\<lparr>tlatch := cr (tb c) AND CR_ALARM = 0, tol := tod c\<rparr> else c)
             in (ucast (drop_bit 16 (getciatod e (tol c))), set_chip num c s)
           else (ucast (drop_bit 16 (getciatod e (if tlatch c then tol c else tod c))), s)
      else if reg = 11 then
        let s = CIA_tod_check e num s; c = chip s num
        in if cs_cia6526 e then
             let c = (if \<not> tlatch c then c\<lparr>tlatch := cr (tb c) AND CR_ALARM = 0, tol := tod c\<rparr> else c)
             in (ucast (drop_bit 24 (getciatod e (if tlatch c then tol c else tod c))), set_chip num c s)
           else (0xff, s)
      else if reg = 12 then (sdr (chip s num), s)
      else if reg = 13 then
        let c = chip s num in (icr1 c AND NOT (0x40 OR 0x20), set_chip num (c\<lparr>icr1 := 0\<rparr>) s)
      else if reg = 14 \<or> reg = 15 then (cr (tmr (chip s num) (reg_tnum reg)), s)
      else (0xff, s))"

definition CIA_timer_inmode :: "nat \<Rightarrow> u8 \<Rightarrow> bool" where
  "CIA_timer_inmode num v = (if num \<noteq> 0 then v AND (CR_INMODE OR CR_INMODE1) \<noteq> 0 else v AND CR_INMODE \<noteq> 0)"

definition CIA_thi_write :: "cia_env \<Rightarrow> nat \<Rightarrow> u8 \<Rightarrow> cia_timer \<Rightarrow> cia_timer" where
  "CIA_thi_write e tnum val t =
     (let t = t\<lparr>latch := (latch t AND 0xff) OR push_bit 8 (ucast val)\<rparr>
      in if \<not> acc_mode e then
           let t = (if cr t AND CR_START = 0 then t\<lparr>timer := latch t\<rparr> else t);
               t = (if cr t AND CR_RUNMODE \<noteq> 0 then
                      let t = t\<lparr>cr := cr t OR CR_START\<rparr>
                      in if \<not> CIA_timer_inmode tnum (cr t) then t\<lparr>inputpipe := CIA_PIPE_ALL_MASK\<rparr> else t
                    else t)
           in if cr t AND CR_START \<noteq> 0 \<and> \<not> CIA_timer_inmode tnum (cr t) \<and> timer t \<le> 1 then t\<lparr>preovfl := True\<rparr> else t
         else
           let t = (if cr t AND CR_START = 0
                    then t\<lparr>loaddelay := loaddelay t OR push_bit 1 0x00000001 OR push_bit 2 0x00000001\<rparr> else t)
           in if cr t AND CR_RUNMODE \<noteq> 0
              then t\<lparr>cr := cr t OR CR_START,
                     loaddelay := loaddelay t OR push_bit 2 0x00000001 OR push_bit 1 0x01000000 OR push_bit 1 0x10000000\<rparr>
              else t)"

definition CIA_cr_write :: "cia_env \<Rightarrow> nat \<Rightarrow> u8 \<Rightarrow> cia_timer \<Rightarrow> cia_timer" where
  "CIA_cr_write e tnum val t =
     (let val = (if tnum = 0 then val AND 0x7f else val)
      in if \<not> acc_mode e then
           let (val, t) = (if val AND CR_LOAD \<noteq> 0 then (val AND NOT CR_LOAD, t\<lparr>timer := latch t\<rparr>) else (val, t));
               t = (if val AND CR_START \<noteq> 0 then
                      (if \<not> CIA_timer_inmode tnum val then
                         let t = t\<lparr>inputpipe := CIA_PIPE_ALL_MASK\<rparr>
                         in if timer t \<le> 1 then t\<lparr>preovfl := True\<rparr> else t
                       else t)
                    else t\<lparr>inputpipe := 0\<rparr>)
           in t\<lparr>cr := val\<rparr>
         else
           let (val, t) =
             (if val AND CR_LOAD \<noteq> 0 then
                (val AND NOT CR_LOAD,
                 let t = t\<lparr>loaddelay := loaddelay t OR push_bit 2 0x00000001 OR push_bit 0 0x00000100 OR push_bit 1 0x00000100\<rparr>;
                     t = (if cr t AND CR_START = 0 then t\<lparr>loaddelay := loaddelay t OR push_bit 1 0x00000001\<rparr> else t)
                 in t\<lparr>loaddelay := loaddelay t OR push_bit 1 0x10000000\<rparr>)
              else (val, t));
               t = (if val AND CR_START = 0 then t\<lparr>inputpipe := inputpipe t AND NOT CIA_PIPE_CLR1\<rparr> else t)
           in t\<lparr>cr := val\<rparr>)"

text \<open>Registers 8 to 11: a byte of the counter, or of the alarm.\<close>

definition set_todbyte :: "cia_env \<Rightarrow> nat \<Rightarrow> u8 \<Rightarrow> u32 \<Rightarrow> u32" where
  "set_todbyte e shift val v =
     setciatod e ((getciatod e v AND NOT (push_bit shift 0xff)) OR push_bit shift (ucast val))"

definition WriteCIAReg :: "cia_env \<Rightarrow> nat \<Rightarrow> nat \<Rightarrow> u8 \<Rightarrow> cia_sys \<Rightarrow> cia_sys" where
  "WriteCIAReg e num reg val s =
     (let tnum = reg_tnum reg
      in if reg = 4 \<or> reg = 6 then
        let c = chip s num; t = tmr c tnum
        in set_chip num (set_tmr tnum (t\<lparr>latch := (latch t AND 0xff00) OR ucast val\<rparr>) c) s
      else if reg = 5 \<or> reg = 7 then
        let c = chip s num in set_chip num (set_tmr tnum (CIA_thi_write e tnum val (tmr c tnum)) c) s
      else if reg = 8 then
        let s = CIA_tod_check e num s; c = chip s num
        in if cr (tb c) AND CR_ALARM \<noteq> 0 then set_chip num (c\<lparr>alarm := set_todbyte e 0 val (alarm c)\<rparr>) s
           else
             let s = set_chip num (c\<lparr>tod := set_todbyte e 0 val (tod c), todon := True\<rparr>) s;
                 s = snd (cia_checkalarm e False True num s)
             in CIA_tod_check e num s
      else if reg = 9 then
        let s = CIA_tod_check e num s; c = chip s num
        in if cr (tb c) AND CR_ALARM \<noteq> 0 then set_chip num (c\<lparr>alarm := set_todbyte e 8 val (alarm c)\<rparr>) s
           else set_chip num (c\<lparr>tod := set_todbyte e 8 val (tod c)\<rparr>) s
      else if reg = 10 then
        let s = CIA_tod_check e num s; c = chip s num
        in if cr (tb c) AND CR_ALARM \<noteq> 0 then set_chip num (c\<lparr>alarm := set_todbyte e 16 val (alarm c)\<rparr>) s
           else
             let c = c\<lparr>tod := set_todbyte e 16 val (tod c)\<rparr>
             in set_chip num (if \<not> cs_cia6526 e then c\<lparr>todon := False\<rparr> else c) s
      else if reg = 11 then
        let s = CIA_tod_check e num s; c = chip s num
        in if cs_cia6526 e then
             (if cr (tb c) AND CR_ALARM \<noteq> 0 then set_chip num (c\<lparr>alarm := set_todbyte e 24 val (alarm c)\<rparr>) s
              else set_chip num (c\<lparr>tod := set_todbyte e 24 val (tod c), todon := False\<rparr>) s)
           else s
      else if reg = 12 then
        let c = (chip s num)\<lparr>sdr := val\<rparr>;
            c = (if cr (ta c) AND (CR_INMODE1 OR CR_START) = CR_INMODE1 OR CR_START then
                   let c = c\<lparr>sdr_load := True\<rparr>
                   in if sdr_cnt c = 0 then c\<lparr>sdr_cnt := 8 * 2, sdr_load := False, sdr_buf := sdr c\<rparr> else c
                 else c)
        in set_chip num c s
      else if reg = 13 then
        let c = chip s num in RethinkICR e num (set_chip num (c\<lparr>imask := setclr (imask c) val\<rparr>) s)
      else if reg = 14 \<or> reg = 15 then
        let c = chip s num in set_chip num (set_tmr tnum (CIA_cr_write e tnum val (tmr c tnum)) c) s
      else s)"

definition CIA_PBON :: "cia \<Rightarrow> u8 \<Rightarrow> u8" where
  "CIA_PBON c v =
     (let v = (if cr (ta c) AND CR_PBON \<noteq> 0 then
                 let pb6 = (if cr (ta c) AND CR_OUTMODE \<noteq> 0 then cr (ta c) AND CR_START else 0)
                 in (v AND NOT 0x40) OR (if pb6 \<noteq> 0 then 0x40 else 0)
               else v)
      in if cr (tb c) AND CR_PBON \<noteq> 0 then
           let pb7 = (if cr (tb c) AND CR_OUTMODE \<noteq> 0 then cr (tb c) AND CR_START else 0)
           in (v AND NOT 0x80) OR (if pb7 \<noteq> 0 then 0x80 else 0)
         else v)"

text \<open>
  A bus access to registers 4 to 15 of a chip. A write of control register A of the first chip also ends
  the keyboard handshake, which is outside this state.
\<close>

definition cia_bus_write :: "cia_env \<Rightarrow> nat \<Rightarrow> nat \<Rightarrow> u8 \<Rightarrow> cia_sys \<Rightarrow> cia_sys option" where
  "cia_bus_write e num reg val s =
     Option.bind (CIA_update e s) (\<lambda>s. CIA_calctimers e (WriteCIAReg e num reg val s))"

definition cia_bus_read :: "cia_env \<Rightarrow> nat \<Rightarrow> nat \<Rightarrow> cia_sys \<Rightarrow> (u8 \<times> cia_sys) option" where
  "cia_bus_read e num reg s = map_option (ReadCIAReg e num reg) (compute_passed_time e s)"

text \<open>Port A of the second chip drives the serial clock and data inputs of the same chip.\<close>

definition write_ciab_serial :: "cia_env \<Rightarrow> u8 \<Rightarrow> u8 \<Rightarrow> u8 \<Rightarrow> u8 \<Rightarrow> cia_sys \<Rightarrow> cia_sys" where
  "write_ciab_serial e ndata odata ndir odir s =
     (let val = ndata AND ndir
      in if val AND 2 \<noteq> 0 \<and> (odata AND odir) AND 2 = 0 then
           let c = ciab s;
               (c, icr) = (if cr (ta c) AND CR_SPMODE = 0 then
                  let c = c\<lparr>sdr_buf := push_bit 1 (sdr_buf c) OR (if val AND 1 \<noteq> 0 then 1 else 0), sdr_cnt := sdr_cnt c + 1\<rparr>
                  in if sdr_cnt c \<ge> 8 then (c\<lparr>sdr := sdr_buf c, sdr_cnt := 0\<rparr>, ICR_SP) else (c, 0)
                else (c, 0));
               (icr2, c) = cia_inmode_cnt e c;
               s = s\<lparr>ciab := c\<rparr>
           in if icr OR icr2 \<noteq> 0 then CIA_sync_interrupt e 1 (icr OR icr2) s else s
         else s)"

text \<open>Power-up: everything zero but the timers and the drive port; the savestate branch is not modelled.\<close>

definition timer_zero :: cia_timer where
  "timer_zero = \<lparr>timer = 0, latch = 0, passed = 0, inputpipe = 0, loaddelay = 0, preovfl = False, cr = 0\<rparr>"

definition cia_zero :: cia where
  "cia_zero = \<lparr>pra = 0, prb = 0, dra = 0, drb = 0, ta = timer_zero, tb = timer_zero, tod = 0, tol = 0, alarm = 0,
     tlatch = False, todon = False, tod_event_state = 0, tod_offset = 0, icr1 = 0, icr2 = 0, icr_change = False,
     imask = 0, sdr = 0, sdr_buf = 0, sdr_load = False, sdr_cnt = 0\<rparr>"

definition CIA_reset :: "cia_env \<Rightarrow> cia_sys \<Rightarrow> cia_sys option" where
  "CIA_reset e s =
     (let t = timer_zero\<lparr>timer := 0xffff, latch := 0xffff\<rparr>; c = cia_zero\<lparr>ta := t, tb := t\<rparr>
      in CIA_calctimers e (s\<lparr>ciaa := c, ciab := c\<lparr>pra := 0x8c\<rparr>\<rparr>))"

section \<open>Runs\<close>

text \<open>What the rest of the machine can make the chips do, and sequences of it in which the timer event is on time.\<close>

datatype cia_action =
  Timer_event
  | Reg_write nat nat u8
  | Reg_read nat nat
  | Tod_pulse int nat bool
  | Tod_line nat
  | Tod_event nat
  | Interrupt_line nat u8
  | Serial_lines u8 u8 u8 u8

fun cia_act :: "cia_env \<Rightarrow> cia_action \<Rightarrow> cia_sys \<Rightarrow> cia_sys option" where
  "cia_act e Timer_event s = CIA_handler e s"
| "cia_act e (Reg_write num reg val) s = cia_bus_write e num reg val s"
| "cia_act e (Reg_read num reg) s = map_option snd (cia_bus_read e num reg s)"
| "cia_act e (Tod_pulse hoffset num delayed) s = Some (CIA_tod_handler e hoffset num delayed s)"
| "cia_act e (Tod_line num) s = Some (cia_delayed_tod e num s)"
| "cia_act e (Tod_event num) s = Some (event_CIA_tod_inc_event e num s)"
| "cia_act e (Interrupt_line num icr) s = Some (CIA_sync_interrupt e num icr s)"
| "cia_act e (Serial_lines ndata odata ndir odir) s = Some (write_ciab_serial e ndata odata ndir odir s)"

inductive cia_run :: "cia_sys \<Rightarrow> cia_sys \<Rightarrow> bool" for s0 where
  run_start: "cia_run s0 s0"
| run_step: "cia_run s0 s \<Longrightarrow> on_time e s \<Longrightarrow> cia_act e a s = Some s' \<Longrightarrow> cia_run s0 s'"

inductive_cases cia_runE [elim]: "cia_run s0 s"

section \<open>What an operation leaves of the timers\<close>

definition timers :: "cia_sys \<Rightarrow> (cia_timer \<times> cia_timer) \<times> (cia_timer \<times> cia_timer) \<times> int \<times> int \<times> bool" where
  "timers s = ((ta (ciaa s), tb (ciaa s)), (ta (ciab s), tb (ciab s)), oldcycles s, evtime s, ev_active s)"

lemma cia_inv_timers: "timers s' = timers s \<Longrightarrow> cia_inv s' = cia_inv s"
  by (simp add: timers_def cia_inv_def sys_ok_def chip_ok_def chip_sched_def timer_sched_def served_within_def)

lemma sys_ok_timers: "timers s' = timers s \<Longrightarrow> sys_ok s' = sys_ok s"
  by (simp add: timers_def sys_ok_def chip_ok_def)

lemma timers_set_chip [simp]:
  "ta c = ta (chip s num) \<Longrightarrow> tb c = tb (chip s num) \<Longrightarrow> timers (set_chip num c s) = timers s"
  by (simp add: timers_def set_chip_def chip_def)

lemma chip_set_chip [simp]: "chip (set_chip num c s) num = c"
  by (simp add: chip_def set_chip_def)

lemma timers_RethinkICR [simp]: "timers (RethinkICR e num s) = timers s"
  by (auto simp: RethinkICR_def ICR_def ICRIRQ_def Let_def timers_def set_chip_def chip_def)

lemma timers_check_ICR [simp]: "timers (CIA_check_ICR e s) = timers s"
  by (simp add: CIA_check_ICR_def Let_def)

lemma timers_event [simp]: "timers (event2_newevent_xx t num ev s) = timers s"
  by (simp add: event2_newevent_xx_def timers_def)

lemma timers_sync [simp]: "timers (CIA_sync_interrupt e num icr s) = timers s"
  by (simp add: CIA_sync_interrupt_def Let_def case_prod_beta)

lemma timers_checkalarm [simp]: "timers (snd (cia_checkalarm e inc irq num s)) = timers s"
  by (simp add: cia_checkalarm_def)

lemma timers_tod_inc [simp]: "timers (CIA_tod_inc e irq num s) = timers s"
  by (simp add: CIA_tod_inc_def Let_def)

lemma timers_tod_event [simp]: "timers (event_CIA_tod_inc_event e num s) = timers s"
  by (simp add: event_CIA_tod_inc_event_def)

lemma timers_tod_event_check [simp]: "timers (CIA_tod_event_check e num s) = timers s"
  by (simp add: CIA_tod_event_check_def Let_def)

lemma timers_tod_check [simp]: "timers (CIA_tod_check e num s) = timers s"
  by (simp add: CIA_tod_check_def Let_def)

lemma timers_tod_handler [simp]: "timers (CIA_tod_handler e h num d s) = timers s"
  by (simp add: CIA_tod_handler_def Let_def)

lemma timers_delayed_tod [simp]: "timers (cia_delayed_tod e num s) = timers s"
  by (simp add: cia_delayed_tod_def Let_def)

lemma timers_read [simp]: "timers (snd (ReadCIAReg e num reg s)) = timers s"
  by (simp add: ReadCIAReg_def Let_def)

section \<open>The invariant of a run\<close>

lemma byte_or_ffff: "(v AND 0xff) OR push_bit 8 (ucast (x :: u8)) < (0x10000 :: u32)" "(v AND 0xff00) OR ucast x < (0x10000 :: u32)"
proof -
  have m: "(0xffff :: u32) = mask 16" "(0xff :: u32) = mask 8" "(0xff00 :: u32) = push_bit 8 (mask 8)"
    by (simp_all add: mask_eq_exp_minus_1)
  have "(v AND 0xff) OR push_bit 8 (ucast x) = ((v AND 0xff) OR push_bit 8 (ucast x)) AND 0xffff"
    "(v AND 0xff00) OR ucast x = ((v AND 0xff00) OR ucast x) AND 0xffff"
    unfolding m by (rule bit_word_eqI, auto simp: bit_simps dest: bit_imp_le_length)+
  then show "(v AND 0xff) OR push_bit 8 (ucast x) < 0x10000" "(v AND 0xff00) OR ucast x < 0x10000"
    by (metis and_ffff_less)+
qed

lemma thi_write_ok: "timer_ok t \<Longrightarrow> timer_ok (CIA_thi_write e tnum val t)"
  by (simp add: CIA_thi_write_def Let_def timer_ok_def byte_or_ffff CIA_PIPE_ALL_MASK_def)

lemma cr_write_ok: "timer_ok t \<Longrightarrow> timer_ok (CIA_cr_write e tnum val t)"
  by (simp add: CIA_cr_write_def Let_def timer_ok_def CIA_PIPE_ALL_MASK_def CIA_PIPE_CLR1_def case_prod_beta)

lemma chip_ok_tmr [simp]: "chip_ok c \<Longrightarrow> timer_ok (tmr c k)"
  by (simp add: chip_ok_def tmr_def)

lemma chip_ok_set_tmr [simp]: "chip_ok c \<Longrightarrow> timer_ok t \<Longrightarrow> chip_ok (set_tmr k t c)"
  by (simp add: chip_ok_def set_tmr_def)

lemma sys_ok_chip [simp]: "sys_ok s \<Longrightarrow> chip_ok (chip s num)"
  by (simp add: sys_ok_def chip_def)

lemma sys_ok_set_chip [simp]: "sys_ok s \<Longrightarrow> chip_ok c \<Longrightarrow> sys_ok (set_chip num c s)"
  by (simp add: sys_ok_def set_chip_def)

lemma WriteCIAReg_ok:
  assumes "sys_ok s"
  shows "sys_ok (WriteCIAReg e num reg val s)"
proof -
  have latch: "timer_ok (t\<lparr>latch := latch t AND 0xff00 OR ucast val\<rparr>)" if "timer_ok t" for t
    using that by (simp add: timer_ok_def byte_or_ffff)
  have other: "timers (WriteCIAReg e num reg val s) = timers s" if "reg \<notin> {4, 5, 6, 7, 14, 15}"
    using that by (simp add: WriteCIAReg_def Let_def)
  show ?thesis
  proof (cases "reg \<in> {4, 5, 6, 7, 14, 15}")
    case True
    then consider "reg = 4 \<or> reg = 6" | "reg = 5 \<or> reg = 7" | "reg = 14 \<or> reg = 15" by blast
    then show ?thesis
    proof cases
      case 1
      then show ?thesis using assms by (simp add: WriteCIAReg_def Let_def latch)
    next
      case 2
      then have "WriteCIAReg e num reg val s =
          set_chip num (set_tmr (reg_tnum reg) (CIA_thi_write e (reg_tnum reg) val (tmr (chip s num) (reg_tnum reg))) (chip s num)) s"
        by (elim disjE) (simp_all add: WriteCIAReg_def Let_def)
      then show ?thesis using assms by (simp add: thi_write_ok)
    next
      case 3
      then have "WriteCIAReg e num reg val s =
          set_chip num (set_tmr (reg_tnum reg) (CIA_cr_write e (reg_tnum reg) val (tmr (chip s num) (reg_tnum reg))) (chip s num)) s"
        by (elim disjE) (simp_all add: WriteCIAReg_def Let_def)
      then show ?thesis using assms by (simp add: cr_write_ok)
    qed
  qed (use other sys_ok_timers assms in blast)
qed

lemma timer_sched_passed [simp]: "timer_sched s m (t\<lparr>passed := x\<rparr>) = timer_sched s m t"
  by (simp add: timer_sched_def due_def)

lemma cia_inv_chips:
  assumes "cia_inv s" "sys_ok s'" "oldcycles s' = oldcycles s" "evtime s' = evtime s" "ev_active s' = ev_active s"
    and "chip_sched s (ciaa s')" "chip_sched s (ciab s')"
  shows "cia_inv s'"
  using assms by (simp add: cia_inv_def chip_sched_def timer_sched_def served_within_def)

lemma cia_bus_read_inv:
  assumes "cia_inv s" "on_time e s"
  shows "\<exists>v s'. cia_bus_read e num reg s = Some (v, s') \<and> cia_inv s'"
proof -
  define s1 where "s1 = the (compute_passed_time e s)"
  obtain w x y z where e: "compute_passed_time e s =
      Some (s\<lparr>ciaa := (ciaa s)\<lparr>ta := (ta (ciaa s))\<lparr>passed := w\<rparr>, tb := (tb (ciaa s))\<lparr>passed := x\<rparr>\<rparr>,
              ciab := (ciab s)\<lparr>ta := (ta (ciab s))\<lparr>passed := y\<rparr>, tb := (tb (ciab s))\<lparr>passed := z\<rparr>\<rparr>\<rparr>)"
    using compute_passed_time_total [OF assms] by blast
  then have s1: "compute_passed_time e s = Some s1" by (simp add: s1_def)
  have inv: "cia_inv s1"
    using assms(1) e
    by (intro cia_inv_chips [OF assms(1)]) (simp_all add: s1_def cia_inv_def sys_ok_def chip_ok_def chip_sched_def)
  show ?thesis
    using s1 inv cia_inv_timers [OF timers_read, of e num reg s1]
    by (cases "ReadCIAReg e num reg s1") (auto simp: cia_bus_read_def)
qed

lemma cia_bus_write_inv:
  assumes "cia_inv s" "on_time e s"
  shows "\<exists>s'. cia_bus_write e num reg val s = Some s' \<and> cia_inv s'"
  using CIA_update_total [OF assms] CIA_calctimers_inv [OF WriteCIAReg_ok, of _ e e num reg val]
  by (fastforce simp: cia_bus_write_def)

text \<open>Pulses on the count line only touch timers that do not count the system clock.\<close>

lemma inmode_mask:
  "x AND (CR_INMODE OR CR_START) = CR_INMODE OR CR_START \<Longrightarrow> x AND (CR_INMODE OR CR_START) \<noteq> CR_START"
  "x AND (CR_INMODE1 OR CR_INMODE OR CR_START) = CR_INMODE OR CR_START \<Longrightarrow> x AND (CR_INMODE OR CR_INMODE1 OR CR_START) \<noteq> CR_START"
  by (auto simp: cr_bits)

lemma inmode1_mask:
  assumes "x AND (CR_INMODE1 OR CR_START) = CR_INMODE1 OR CR_START"
  shows "x AND (CR_INMODE OR CR_INMODE1 OR CR_START) \<noteq> CR_START"
proof
  assume a: "x AND (CR_INMODE OR CR_INMODE1 OR CR_START) = CR_START"
  have "x AND (CR_INMODE1 OR CR_START) = (x AND (CR_INMODE OR CR_INMODE1 OR CR_START)) AND (CR_INMODE1 OR CR_START)"
    by (simp add: cr_bits and.assoc)
  with a assms show False by (simp add: cr_bits)
qed

lemma chip_sched_same:
  assumes "chip_sched s c"
    and "ta c' = ta c \<or> due (CR_INMODE OR CR_START) (ta c') = None \<and> loaddelay (ta c') = loaddelay (ta c)"
    and "tb c' = tb c \<or> due (CR_INMODE OR CR_INMODE1 OR CR_START) (tb c') = None \<and> loaddelay (tb c') = loaddelay (tb c)"
  shows "chip_sched s c'"
  using assms by (auto simp: chip_sched_def timer_sched_def)

lemma inmode_underflow_fields [simp]:
  "loaddelay (inmode_underflow e t) = loaddelay t"
  "cr (inmode_underflow e t) = (if cr t AND CR_RUNMODE \<noteq> 0 then cr t AND NOT CR_START else cr t)"
  by (simp_all add: inmode_underflow_def timer_reset_def Let_def)

lemma stopped_not_due: "(x AND NOT CR_START) AND (m OR CR_START) \<noteq> CR_START" for x m :: u8
proof
  assume "(x AND NOT CR_START) AND (m OR CR_START) = CR_START"
  then have "bit ((x AND NOT CR_START) AND (m OR CR_START)) 0 = bit CR_START 0" by simp
  then show False by (simp add: CR_START_def bit_simps)
qed

lemma cia_inmode_cnt_sched:
  assumes "chip_sched s c"
  shows "chip_sched s (snd (cia_inmode_cnt e c))"
proof -
  have a: "due (CR_INMODE OR CR_START) t = None" "due (CR_INMODE OR CR_START) (inmode_underflow e t) = None"
    if "cr t AND (CR_INMODE OR CR_START) = CR_INMODE OR CR_START" for t
    using inmode_mask(1) [OF that] stopped_not_due [of "cr t" CR_INMODE] by (simp_all add: due_def)
  have b: "due (CR_INMODE OR CR_INMODE1 OR CR_START) t = None" "due (CR_INMODE OR CR_INMODE1 OR CR_START) (inmode_underflow e t) = None"
    if "cr t AND (CR_INMODE1 OR CR_INMODE OR CR_START) = CR_INMODE OR CR_START \<or> cr t AND (CR_INMODE1 OR CR_START) = CR_INMODE1 OR CR_START" for t
    using that inmode_mask(2) [of "cr t"] inmode1_mask [of "cr t"]
      stopped_not_due [of "cr t" "CR_INMODE OR CR_INMODE1", unfolded or.assoc] by (auto simp: due_def)
  have a': "due (CR_INMODE OR CR_START) (t\<lparr>timer := v\<rparr>) = None" if "due (CR_INMODE OR CR_START) t = None" for t v
    using that by (auto simp: due_def split: if_splits)
  have b': "due (CR_INMODE OR CR_INMODE1 OR CR_START) (t\<lparr>timer := v\<rparr>) = None" if "due (CR_INMODE OR CR_INMODE1 OR CR_START) t = None" for t v
    using that by (auto simp: due_def split: if_splits)
  show ?thesis
    by (rule chip_sched_same [OF assms]) (simp_all add: cia_inmode_cnt_def Let_def a b a' b')
qed

lemma write_ciab_serial_inv:
  assumes "cia_inv s"
  shows "cia_inv (write_ciab_serial e nd od ndir odir s)"
proof -
  have ok: "chip_ok (ciab s)" "chip_sched s (ciab s)" using assms by (simp_all add: cia_inv_def sys_ok_def)
  have c: "cia_inv (s\<lparr>ciab := snd (cia_inmode_cnt e c)\<rparr>)" if "ta c = ta (ciab s)" "tb c = tb (ciab s)" for c
  proof (rule cia_inv_chips [OF assms])
    have "chip_ok c" "chip_sched s c" using ok that by (simp_all add: chip_ok_def chip_sched_def)
    then show "sys_ok (s\<lparr>ciab := snd (cia_inmode_cnt e c)\<rparr>)" "chip_sched s (ciab (s\<lparr>ciab := snd (cia_inmode_cnt e c)\<rparr>))"
      using assms cia_inmode_cnt_ok [of c e] cia_inmode_cnt_sched [of s c e] by (simp_all add: sys_ok_def cia_inv_def)
  qed (use assms in \<open>simp_all add: cia_inv_def\<close>)
  have sync: "cia_inv (CIA_sync_interrupt e num icr s') = cia_inv s'" for num icr s'
    by (rule cia_inv_timers) simp
  show ?thesis
    using assms c by (auto simp: write_ciab_serial_def Let_def case_prod_beta sync)
qed

lemma cia_act_inv:
  assumes "cia_inv s" "on_time e s"
  shows "\<exists>s'. cia_act e a s = Some s' \<and> cia_inv s'"
proof (cases a)
  case Timer_event
  then show ?thesis using CIA_handler_inv [OF assms] by auto
next
  case (Reg_write num reg val)
  then show ?thesis using cia_bus_write_inv [OF assms] by simp
next
  case (Reg_read num reg)
  then show ?thesis using cia_bus_read_inv [OF assms, of num reg] by auto
qed (use assms(1) in \<open>simp_all add: write_ciab_serial_inv cia_inv_timers [OF timers_tod_handler]
    cia_inv_timers [OF timers_delayed_tod] cia_inv_timers [OF timers_tod_event] cia_inv_timers [OF timers_sync]\<close>)

lemma cia_run_inv: "cia_run s0 s \<Longrightarrow> cia_inv s0 \<Longrightarrow> cia_inv s"
proof (induction rule: cia_run.induct)
  case (run_step s e a s')
  then show ?case using cia_act_inv [of s e a] by auto
qed

lemma CIA_reset_inv: "\<exists>s'. CIA_reset e s = Some s' \<and> cia_inv s' \<and> oldcycles s' = get_cycles e"
proof -
  have "\<exists>s'. CIA_calctimers e x = Some s' \<and> cia_inv s' \<and> oldcycles s' = get_cycles e" if "sys_ok x" for x
    using CIA_calctimers_inv [OF that, of e] by blast
  then show ?thesis
    by (simp add: CIA_reset_def Let_def sys_ok_def chip_ok_def timer_ok_def timer_zero_def)
qed

definition env0 :: cia_env where
  "env0 = \<lparr>acc_mode = True, cs_velvet = False, cs_cia6526 = False, cs_ciatodbug = True, current_hpos = 0, maxhpos = 227,
     e_cycles = 0, e_clock_sync = 2, e_clock_start = 4, e_clock_tod = -2, get_cycles = 0\<rparr>"

definition sys0 :: cia_sys where
  "sys0 = \<lparr>ciaa = cia_zero, ciab = cia_zero, oldcycles = 0, evtime = 0, ev_active = False, irqs = [], queued = []\<rparr>"

text \<open>C18: From power-up, through any accesses to the registers of both chips, interrupt lines, TOD pulses and
  serial edges in any order, as long as the timer event is run in the clock it was scheduled for, no assertion or
  \<^verbatim>\<open>abort\<close> of the timer code is reached (a delayed load never skips clocks, the pipe state is always one of the
  four, elapsed clocks fit 16 bits), and timers and latches stay 16 bits wide.\<close>

theorem cia_run_never_aborts:
  assumes "CIA_reset e0 s0 = Some s1" "cia_run s1 s" "on_time e s"
  shows "\<exists>s'. cia_act e a s = Some s' \<and> sys_ok s'"
proof -
  have "cia_inv s1" using CIA_reset_inv [of e0 s0] assms(1) by auto
  then have "cia_inv s" by (rule cia_run_inv [OF assms(2)])
  then show ?thesis using cia_act_inv [OF _ assms(3), of a] by (auto simp: cia_inv_def)
qed

lemma reset_env0: "CIA_reset env0 sys0 = Some (the (CIA_reset env0 sys0))" "on_time env0 (the (CIA_reset env0 sys0))"
  by (code_simp)+

theorem cia_run_never_aborts_witness:
  "\<exists>s'. cia_act env0 (Reg_write 0 14 0x11) (the (CIA_reset env0 sys0)) = Some s' \<and> sys_ok s'"
  using cia_run_never_aborts [OF reset_env0(1) run_start reset_env0(2)] by blast

section \<open>Interrupt requests and their acknowledgement\<close>

lemma irqs_set_chip [simp]: "irqs (set_chip num c s) = irqs s"
  by (simp add: set_chip_def)

lemma set_chip_set_chip [simp]: "set_chip num c (set_chip num d s) = set_chip num c s"
  by (simp add: set_chip_def)

lemma set_chip_ICRIRQ [simp]: "chip (ICRIRQ d s) num = chip s num" "irqs (ICRIRQ d s) = irqs s @ [d]"
  by (simp_all add: ICRIRQ_def chip_def)

definition irq_line :: "cia_env \<Rightarrow> nat \<Rightarrow> u32" where
  "irq_line e num = (if num \<noteq> 0 \<and> \<not> cs_velvet e then 0x2000 else 0x0008)"

lemma RethinkICR_raises:
  assumes "icr1 (chip s num) AND imask (chip s num) AND ICR_MASK \<noteq> 0" "icr1 (chip s num) AND 0x80 = 0"
  shows "irqs (RethinkICR e num s) = irqs s @ [irq_line e num]"
    "chip (RethinkICR e num s) num = (chip s num)\<lparr>icr1 := icr1 (chip s num) OR 0xe0\<rparr>"
  using assms by (simp_all add: RethinkICR_def ICR_def Let_def irq_line_def or.assoc)

lemma RethinkICR_quiet:
  "icr1 (chip s num) AND imask (chip s num) AND ICR_MASK = 0 \<or> icr1 (chip s num) AND 0x80 \<noteq> 0 \<Longrightarrow> RethinkICR e num s = s"
  by (auto simp: RethinkICR_def Let_def)

lemma RethinkICR_idem: "RethinkICR e num (RethinkICR e num s) = RethinkICR e num s"
proof (cases "icr1 (chip s num) AND imask (chip s num) AND ICR_MASK \<noteq> 0 \<and> icr1 (chip s num) AND 0x80 = 0")
  case True
  have "(x OR 0xe0) AND 0x80 \<noteq> (0 :: u8)" for x
  proof
    assume "(x OR 0xe0) AND 0x80 = 0"
    then have "bit ((x OR 0xe0) AND 0x80) 7 = bit (0 :: u8) 7" by simp
    then show False by (simp add: bit_simps)
  qed
  with True show ?thesis by (intro RethinkICR_quiet) (simp add: RethinkICR_raises)
qed (auto simp: RethinkICR_quiet)

text \<open>C23: An enabled interrupt flag raises the interrupt line of its chip exactly once: evaluating the flags
  again raises nothing until the flag register is read; the read returns the five flags with the bit that tells an
  interrupt was requested, clears them, and after it nothing is raised again.\<close>

theorem irq_once_until_read:
  assumes "icr1 (chip s num) AND imask (chip s num) AND ICR_MASK \<noteq> 0" "icr1 (chip s num) AND 0x80 = 0"
  shows "irqs (RethinkICR e num s) = irqs s @ [irq_line e num] \<and>
    RethinkICR e num (RethinkICR e num s) = RethinkICR e num s \<and>
    (let (v, s') = ReadCIAReg e num 13 (RethinkICR e num s)
     in v = (icr1 (chip s num) AND ICR_MASK) OR 0x80 \<and> icr1 (chip s' num) = 0 \<and> RethinkICR e num s' = s')"
proof -
  have b: "(x OR 0xe0) AND NOT (0x40 OR 0x20) = (x AND 0x1f) OR (0x80 :: u8)" for x
    by (rule bit_word_eqI) (auto simp: bit_simps less_Suc_eq numeral_eq_Suc)
  note b = b [simplified]
  show ?thesis
    using assms by (simp add: RethinkICR_raises RethinkICR_idem ReadCIAReg_def Let_def b ICR_MASK_def RethinkICR_quiet)
qed

theorem irq_once_until_read_witness:
  "irqs (RethinkICR env0 1 (sys0\<lparr>ciab := cia_zero\<lparr>icr1 := 2, imask := 3\<rparr>\<rparr>)) = [0x2000]"
  using irq_once_until_read [of "sys0\<lparr>ciab := cia_zero\<lparr>icr1 := 2, imask := 3\<rparr>\<rparr>" 1 env0]
  by (simp add: chip_def sys0_def env0_def cia_zero_def ICR_MASK_def irq_line_def)

section \<open>The clock registers\<close>

fun tod_action :: "cia_action \<Rightarrow> bool" where
  "tod_action (Tod_pulse h num d) = True"
| "tod_action (Tod_line num) = True"
| "tod_action (Tod_event num) = True"
| "tod_action _ = False"

definition tod_run :: "(cia_env \<times> cia_action) list \<Rightarrow> cia_sys \<Rightarrow> cia_sys" where
  "tod_run as s = fold (\<lambda>(e, a) s. if tod_action a then the (cia_act e a s) else s) as s"

definition latched :: "nat \<Rightarrow> cia_sys \<Rightarrow> bool \<times> u32 \<times> u8" where
  "latched num s = (tlatch (chip s num), tol (chip s num), cr (tb (chip s num)))"

lemma chip_set_other: "chip (set_chip num c s) k = (if (k = 0) = (num = 0) then c else chip s k)"
  by (simp add: chip_def set_chip_def)

lemma latched_set_chip [simp]:
  "tlatch c = tlatch (chip s num) \<Longrightarrow> tol c = tol (chip s num) \<Longrightarrow> cr (tb c) = cr (tb (chip s num)) \<Longrightarrow>
   latched k (set_chip num c s) = latched k s"
  by (auto simp: latched_def chip_def set_chip_def)

lemma latched_Rethink [simp]: "latched k (RethinkICR e num s) = latched k s"
  by (auto simp: RethinkICR_def ICR_def ICRIRQ_def Let_def latched_def set_chip_def chip_def)

lemma latched_event [simp]: "latched k (event2_newevent_xx t num ev s) = latched k s"
  by (simp add: event2_newevent_xx_def latched_def chip_def)

lemma latched_sync [simp]: "latched k (CIA_sync_interrupt e num icr s) = latched k s"
  by (simp add: CIA_sync_interrupt_def CIA_check_ICR_def Let_def case_prod_beta)

lemma latched_tod_inc [simp]: "latched k (CIA_tod_inc e irq num s) = latched k s"
  by (simp add: CIA_tod_inc_def cia_checkalarm_def Let_def)

lemma latched_tod_check [simp]: "latched k (CIA_tod_check e num s) = latched k s"
  by (simp add: CIA_tod_check_def CIA_tod_event_check_def Let_def)



lemma tod_check_tod_state:
  "tod_event_state (chip s num) \<noteq> 1 \<Longrightarrow> CIA_tod_check e num s = s"
  by (simp add: CIA_tod_check_def CIA_tod_event_check_def Let_def)





definition clock_state :: "nat \<Rightarrow> cia_sys \<Rightarrow> bool \<times> u32 \<times> u8" where
  "clock_state num s = (todon (chip s num), tod (chip s num), cr (tb (chip s num)))"

lemma clock_set_chip [simp]:
  "todon c = todon (chip s num) \<Longrightarrow> tod c = tod (chip s num) \<Longrightarrow> cr (tb c) = cr (tb (chip s num)) \<Longrightarrow>
   clock_state k (set_chip num c s) = clock_state k s"
  by (auto simp: clock_state_def chip_def set_chip_def)

lemma clock_Rethink [simp]: "clock_state k (RethinkICR e num s) = clock_state k s"
  by (auto simp: RethinkICR_def ICR_def ICRIRQ_def Let_def clock_state_def set_chip_def chip_def)

lemma clock_event [simp]: "clock_state k (event2_newevent_xx t num ev s) = clock_state k s"
  by (simp add: event2_newevent_xx_def clock_state_def chip_def)

lemma clock_sync [simp]: "clock_state k (CIA_sync_interrupt e num icr s) = clock_state k s"
  by (simp add: CIA_sync_interrupt_def CIA_check_ICR_def Let_def case_prod_beta)

lemma clock_checkalarm [simp]: "clock_state k (snd (cia_checkalarm e inc irq num s)) = clock_state k s"
  by (simp add: cia_checkalarm_def)

lemma clock_tod_inc [simp]: "\<not> todon (chip s k) \<Longrightarrow> clock_state k (CIA_tod_inc e irq num s) = clock_state k s"
proof (cases "(k = 0) = (num = 0)")
  case True
  then have "chip s num = chip s k" by (simp add: chip_def)
  then show "\<not> todon (chip s k) \<Longrightarrow> clock_state k (CIA_tod_inc e irq num s) = clock_state k s"
    by (simp add: CIA_tod_inc_def Let_def)
next
  case False
  then have "clock_state k (set_chip num c s) = clock_state k s" for c
    by (cases "num = 0") (auto simp: clock_state_def chip_set_other)
  then show "clock_state k (CIA_tod_inc e irq num s) = clock_state k s"
    by (simp add: CIA_tod_inc_def Let_def)
qed

lemma clock_stopped: "clock_state k s' = clock_state k s \<Longrightarrow> todon (chip s' k) = todon (chip s k)"
  by (simp add: clock_state_def)

lemma clock_tod_check [simp]: "\<not> todon (chip s k) \<Longrightarrow> clock_state k (CIA_tod_check e num s) = clock_state k s"
proof -
  assume s: "\<not> todon (chip s k)"
  then have 1: "clock_state k (CIA_tod_event_check e num s) = clock_state k s"
    by (simp add: CIA_tod_event_check_def Let_def)
  then have "\<not> todon (chip (CIA_tod_event_check e num s) k)" using s clock_stopped [OF 1] by simp
  then show ?thesis using 1 by (simp add: CIA_tod_check_def Let_def)
qed

lemma clock_tod_action: "tod_action a \<Longrightarrow> \<not> todon (chip s k) \<Longrightarrow> clock_state k (the (cia_act e a s)) = clock_state k s"
  by (cases a) (simp_all add: CIA_tod_handler_def cia_delayed_tod_def event_CIA_tod_inc_event_def Let_def)

lemma clock_tod_run: "\<not> todon (chip s k) \<Longrightarrow> clock_state k (tod_run as s) = clock_state k s"
  unfolding tod_run_def
proof (induction as arbitrary: s)
  case (Cons x as)
  obtain e a where x: "x = (e, a)" by fastforce
  show ?case
  proof (cases "tod_action a")
    case True
    from clock_tod_action [OF True Cons.prems, of e] have c: "clock_state k (the (cia_act e a s)) = clock_state k s" .
    with Cons.prems have "\<not> todon (chip (the (cia_act e a s)) k)" using clock_stopped by blast
    with c show ?thesis by (simp add: x True Cons.IH)
  qed (simp add: x Cons)
qed simp

lemma byte_not_bit: "8 \<le> n \<Longrightarrow> \<not> bit b n" for b :: u8
  using bit_imp_le_length [of b n] by auto

lemma le_diff_conv2_nat: "8 \<le> n - k \<longleftrightarrow> k + 8 \<le> n" for n k :: nat
  by arith

lemma set_byte_bit:
  "bit ((v AND NOT (push_bit k 0xff)) OR push_bit k (ucast b)) n \<longleftrightarrow> n < 32 \<and> (if k \<le> n \<and> n < k + 8 then bit b (n - k) else bit v n)"
  for v :: u32 and b :: u8
proof -
  have m: "(0xff :: u32) = mask 8" by (simp add: mask_eq_exp_minus_1)
  show ?thesis
    unfolding m using byte_not_bit [of "n - k" b, unfolded le_diff_conv2_nat] bit_imp_le_length [of v n]
    by (auto simp: bit_or_iff bit_and_iff bit_not_iff bit_push_bit_iff bit_mask_iff bit_ucast_iff)
qed

lemma byte_or:
  "((((v AND NOT (push_bit 16 0xff)) OR push_bit 16 (ucast hi)) AND NOT (push_bit 8 0xff) OR push_bit 8 (ucast mid))
     AND NOT (push_bit 0 0xff) OR push_bit 0 (ucast lo)) AND mask 24
   = (push_bit 16 (ucast hi) OR push_bit 8 (ucast mid) OR ucast lo :: u32)" for v :: u32 and hi mid lo :: u8
proof (rule bit_word_eqI)
  fix n :: nat
  assume "n < LENGTH(32)"
  then have "bit (((((v AND NOT (push_bit 16 0xff)) OR push_bit 16 (ucast hi)) AND NOT (push_bit 8 0xff) OR push_bit 8 (ucast mid))
       AND NOT (push_bit 0 0xff) OR push_bit 0 (ucast lo)) AND mask 24) n
     \<longleftrightarrow> n < 24 \<and> (if n < 8 then bit lo n else if n < 16 then bit mid (n - 8) else bit hi (n - 16))"
    by (simp only: bit_and_iff [of _ "mask 24"] set_byte_bit bit_mask_iff) (auto simp: not_less)
  moreover have "bit (push_bit 16 (ucast hi) OR push_bit 8 (ucast mid) OR ucast lo :: u32) n
     \<longleftrightarrow> n < 24 \<and> (if n < 8 then bit lo n else if n < 16 then bit mid (n - 8) else bit hi (n - 16))"
    using \<open>n < LENGTH(32)\<close> byte_not_bit [of n lo] byte_not_bit [of "n - 8" mid, unfolded le_diff_conv2_nat]
      byte_not_bit [of "n - 16" hi, unfolded le_diff_conv2_nat]
    by (cases "24 \<le> n") (auto simp: bit_or_iff bit_push_bit_iff bit_ucast_iff)
  ultimately show "bit (((((v AND NOT (push_bit 16 0xff)) OR push_bit 16 (ucast hi)) AND NOT (push_bit 8 0xff) OR push_bit 8 (ucast mid))
       AND NOT (push_bit 0 0xff) OR push_bit 0 (ucast lo)) AND mask 24) n
     = bit (push_bit 16 (ucast hi) OR push_bit 8 (ucast mid) OR ucast lo :: u32) n"
    by (rule trans [OF _ sym])
qed

lemma event_state_set_chip:
  "tod_event_state c = tod_event_state (chip s num) \<Longrightarrow> tod_event_state (chip (set_chip num c s) k) = tod_event_state (chip s k)"
  by (auto simp: chip_def set_chip_def)

lemma event_state_Rethink [simp]: "tod_event_state (chip (RethinkICR e num s) k) = tod_event_state (chip s k)"
  by (simp add: RethinkICR_def ICR_def Let_def event_state_set_chip)

lemma event_state_check_ICR [simp]: "tod_event_state (chip (CIA_check_ICR e s) k) = tod_event_state (chip s k)"
  by (simp add: CIA_check_ICR_def Let_def)

lemma event_state_event [simp]: "chip (event2_newevent_xx t num ev s) k = chip s k"
  by (simp add: event2_newevent_xx_def chip_def)

lemma event_state_sync: "tod_event_state (chip (snd (cia_checkalarm e inc irq num s)) k) = tod_event_state (chip s k)"
  by (simp add: cia_checkalarm_def CIA_sync_interrupt_def Let_def case_prod_beta event_state_set_chip)

lemma offset_set_chip:
  "tod_offset c = tod_offset (chip s num) \<Longrightarrow> tod_offset (chip (set_chip num c s) k) = tod_offset (chip s k)"
  by (auto simp: chip_def set_chip_def)

lemma offset_Rethink [simp]: "tod_offset (chip (RethinkICR e num s) k) = tod_offset (chip s k)"
  by (simp add: RethinkICR_def ICR_def Let_def offset_set_chip)

lemma offset_sync: "tod_offset (chip (snd (cia_checkalarm e inc irq num s)) k) = tod_offset (chip s k)"
  by (simp add: cia_checkalarm_def CIA_sync_interrupt_def CIA_check_ICR_def Let_def case_prod_beta offset_set_chip)

lemma tod_inc_running:
  "todon (chip s num) \<Longrightarrow>
     clock_state num (CIA_tod_inc e irq num s) = (True, (tod (chip s num) + 1) AND 0xFFFFFF, cr (tb (chip s num)))"
  by (simp add: CIA_tod_inc_def Let_def) (simp add: clock_state_def)

text \<open>A pulse that has come in this line, but whose place in the line the clock has not reached\<close>

definition pulse_ahead :: "cia_env \<Rightarrow> cia \<Rightarrow> bool" where
  "pulse_ahead e c \<longleftrightarrow> tod_event_state c = 1 \<and> 0 \<le> tod_offset c \<and> current_hpos e < tod_offset c"

lemma tod_check_stopped:
  assumes "\<not> todon (chip s num)"
  shows "\<exists>x. CIA_tod_check e num s = set_chip num ((chip s num)\<lparr>tod_event_state := x\<rparr>) s \<and>
    (x = 1 \<longleftrightarrow> tod_event_state (chip s num) = 1 \<and> current_hpos e < tod_offset (chip s num))"
proof -
  have "set_chip num ((chip s num)\<lparr>tod_event_state := tod_event_state (chip s num)\<rparr>) s = s"
    by (simp add: set_chip_def chip_def)
  moreover have "CIA_tod_check e num s = (if tod_event_state (chip s num) = 1 \<and> current_hpos e \<ge> tod_offset (chip s num)
      then set_chip num ((chip s num)\<lparr>tod_event_state := 0\<rparr>) s else s)"
    using assms by (simp add: CIA_tod_check_def CIA_tod_event_check_def CIA_tod_inc_def Let_def)
  ultimately show ?thesis
    by (intro exI [of _ "if tod_event_state (chip s num) = 1 \<and> current_hpos e \<ge> tod_offset (chip s num) then 0
        else tod_event_state (chip s num)"]) auto
qed

lemma tod_check_running:
  assumes "todon (chip s num)" "tod_event_state (chip s num) = 1 \<longrightarrow> current_hpos e < tod_offset (chip s num)"
  shows "clock_state num (CIA_tod_check e num s) =
    (True, if pulse_ahead e (chip s num) \<and> \<not> acc_mode e then (tod (chip s num) + 1) AND 0xFFFFFF else tod (chip s num),
     cr (tb (chip s num)))"
proof -
  have "CIA_tod_event_check e num s = s" using assms(2) by (auto simp: CIA_tod_event_check_def)
  then have "CIA_tod_check e num s =
      (if pulse_ahead e (chip s num) then
         if \<not> acc_mode e then CIA_tod_inc e True num s
         else event2_newevent_xx (- (current_hpos e - tod_offset (chip s num)) * CYCLE_UNIT) num Tod_inc_event
                (set_chip num ((chip s num)\<lparr>tod_event_state := 2\<rparr>) s)
       else s)"
    using assms by (auto simp: CIA_tod_check_def pulse_ahead_def Let_def)
  then show ?thesis using assms(1) tod_inc_running [OF assms(1)] by (simp add: clock_state_def)
qed

lemma and_mask_Suc: "(v + 1) AND mask 24 = ((v AND mask 24) + 1) AND mask 24" for v :: u32
proof -
  have u: "uint (take_bit 24 (x + 1)) = (uint x + 1) mod 2 ^ 24" for x :: u32
  proof -
    have "uint (take_bit 24 (x + 1)) = uint (x + 1) mod 2 ^ 24"
      unfolding unsigned_take_bit_eq by (rule take_bit_eq_mod)
    also have "uint (x + 1) = (uint x + 1) mod 2 ^ 32" by (simp add: uint_word_ariths)
    also have "\<dots> mod 2 ^ 24 = (uint x + 1) mod 2 ^ 24" by (rule mod_mod_cancel) simp
    finally show ?thesis .
  qed
  have "uint (take_bit 24 (v + 1)) = uint (take_bit 24 (take_bit 24 v + 1))"
    unfolding u by (simp only: unsigned_take_bit_eq take_bit_eq_mod [of 24 "uint v"] mod_add_left_eq)
  then show ?thesis unfolding take_bit_eq_mask [symmetric] by (simp only: word_uint_eq_iff)
qed

text \<open>C25: Writing the clock of an 8520 from the high byte down, with the alarm bit of the control register clear, sets it in one step: the first write stops the counter, so
  pulses between the writes are not counted, and the last write restarts it with exactly the 24 bits
  written. One pulse can follow at once: one that has come in the present line, but whose place
  in the line the clock has not reached, is counted with the last write in the fast mode; in the
  accurate mode it is left to an event at its place.\<close>

theorem tod_write_atomic:
  assumes "\<not> cs_cia6526 e1" "\<not> cs_cia6526 e2" "\<not> cs_cia6526 e3"
    and "cr (tb (chip (CIA_tod_check e1 num s) num)) AND CR_ALARM = 0"
    and "s1 = WriteCIAReg e1 num 10 hi s"
    and "s2 = WriteCIAReg e2 num 9 mid (tod_run as s1)"
    and "s3 = WriteCIAReg e3 num 8 lo (tod_run bs s2)"
  shows "\<not> todon (chip (tod_run bs s2) num) \<and> todon (chip s3 num) \<and>
    (let written = push_bit 16 (ucast hi) OR push_bit 8 (ucast mid) OR ucast lo
     in tod (chip s3 num) AND mask 24 =
       (if pulse_ahead e3 (chip (tod_run bs s2) num) \<and> \<not> acc_mode e3 then (written + 1) AND mask 24 else written))"
proof -
  define c where "c = chip (CIA_tod_check e1 num s) num"
  let ?byte = "\<lambda>k v (b :: u8). (v AND NOT (push_bit k 0xff)) OR push_bit k (ucast b) :: u32"
  have 1: "clock_state num s1 = (False, ?byte 16 (tod c) hi, cr (tb c))"
    using assms(1,4,5) by (simp add: WriteCIAReg_def Let_def set_todbyte_def getciatod_def setciatod_def clock_state_def flip: c_def)
  have 2: "clock_state num (tod_run as s1) = (False, ?byte 16 (tod c) hi, cr (tb c))"
    using clock_tod_run [of s1 num as] 1 by (simp add: clock_state_def)
  let ?u = "CIA_tod_check e2 num (tod_run as s1)"
  have u: "clock_state num ?u = (False, ?byte 16 (tod c) hi, cr (tb c))"
    using clock_tod_check [of "tod_run as s1" num e2 num] 2 by (simp add: clock_state_def)
  have 3: "clock_state num s2 = (False, ?byte 8 (?byte 16 (tod c) hi) mid, cr (tb c))"
    using assms(2,4,6) u
    by (simp add: WriteCIAReg_def Let_def set_todbyte_def getciatod_def setciatod_def clock_state_def flip: c_def)
  define w where "w = tod_run bs s2"
  have 4: "clock_state num w = (False, ?byte 8 (?byte 16 (tod c) hi) mid, cr (tb c))"
    using clock_tod_run [of s2 num bs] 3 by (simp add: clock_state_def w_def)
  define X where "X = ?byte 0 (?byte 8 (?byte 16 (tod c) hi) mid) lo"
  have X: "X AND mask 24 = push_bit 16 (ucast hi) OR push_bit 8 (ucast mid) OR ucast lo"
    unfolding X_def by (rule byte_or)
  have "\<not> todon (chip w num)" using 4 by (simp add: clock_state_def)
  from tod_check_stopped [OF this, of e3] obtain x where
    x: "CIA_tod_check e3 num w = set_chip num ((chip w num)\<lparr>tod_event_state := x\<rparr>) w"
      "x = 1 \<longleftrightarrow> tod_event_state (chip w num) = 1 \<and> current_hpos e3 < tod_offset (chip w num)" by blast
  define w' where "w' = set_chip num ((chip w num)\<lparr>tod_event_state := x, tod := X, todon := True\<rparr>) w"
  define y where "y = snd (cia_checkalarm e3 False True num w')"
  have "s3 = CIA_tod_check e3 num y"
    using assms(3,4,7) 4
    by (simp add: WriteCIAReg_def Let_def set_todbyte_def getciatod_def setciatod_def clock_state_def x(1) w'_def X_def y_def
        flip: c_def w_def)
  moreover have y: "clock_state num y = (True, X, cr (tb c))" "tod_event_state (chip y num) = x"
      "tod_offset (chip y num) = tod_offset (chip w num)"
    using 4 by (simp_all add: y_def clock_state_def [of num w'] w'_def event_state_sync offset_sync) (simp add: clock_state_def)
  then have "todon (chip y num)" "tod_event_state (chip y num) = 1 \<longrightarrow> current_hpos e3 < tod_offset (chip y num)"
    using x(2) by (auto simp: clock_state_def)
  from tod_check_running [OF this] have "clock_state num (CIA_tod_check e3 num y) =
      (True, if pulse_ahead e3 (chip y num) \<and> \<not> acc_mode e3 then (X + 1) AND 0xFFFFFF else X, cr (tb c))"
    using y(1) by (simp add: clock_state_def)
  moreover have "pulse_ahead e3 (chip y num) = pulse_ahead e3 (chip w num)"
    using x(2) y(2,3) by (auto simp: pulse_ahead_def)
  ultimately have s3: "todon (chip s3 num)"
      "tod (chip s3 num) = (if pulse_ahead e3 (chip w num) \<and> \<not> acc_mode e3 then (X + 1) AND 0xFFFFFF else X)"
    by (simp_all add: clock_state_def)
  have m: "(0xFFFFFF :: u32) = mask 24" by (simp add: mask_eq_exp_minus_1)
  have "((X + 1) AND 0xFFFFFF) AND mask 24 = ((X AND mask 24) + 1) AND mask 24"
    unfolding m and_mask_Suc [of X, symmetric] by simp
  then show ?thesis
    using 4 s3 X unfolding Let_def w_def [symmetric] by (simp add: clock_state_def)
qed

theorem tod_write_atomic_witness:
  "let s1 = WriteCIAReg env0 0 10 0x12 sys0; s2 = WriteCIAReg env0 0 9 0x34 (tod_run [(env0, Tod_line 0)] s1);
       s3 = WriteCIAReg env0 0 8 0x56 (tod_run [] s2)
   in tod (ciaa s3) AND mask 24 = 0x123456"
proof -
  define s1 where "s1 = WriteCIAReg env0 0 10 0x12 sys0"
  define s2 where "s2 = WriteCIAReg env0 0 9 0x34 (tod_run [(env0, Tod_line 0)] s1)"
  define s3 where "s3 = WriteCIAReg env0 0 8 0x56 (tod_run [] s2)"
  have h: "\<not> cs_cia6526 env0" "cr (tb (chip (CIA_tod_check env0 0 sys0) 0)) AND CR_ALARM = 0"
    "\<not> pulse_ahead env0 (chip (tod_run [] s2) 0)"
    unfolding s2_def s1_def by code_simp+
  show ?thesis
    using tod_write_atomic [OF h(1) h(1) h(1) h(2) s1_def s2_def s3_def] h(3)
    by (simp add: Let_def s1_def s2_def s3_def chip_def)
qed

text \<open>C39: In the mode for chips with a BCD clock the conversions between the counter and the registers are not
  inverse: a value below 16 written to the counter is stored as zero, because the digit loop takes the quotient
  by 16 where the digit is the remainder, and a count below ten is read in the topmost of the four digits.\<close>

theorem bcd_clock_conversion_wrong:
  assumes "cs_cia6526 e"
  shows "(\<forall>v < 16. setciatod e v = 0) \<and> (\<forall>t < 10. getciatod e t = 0x1000 * t)"
proof (intro conjI allI impI)
  fix v :: u32
  assume "v < 16"
  then have "v div 16 = 0" by (simp add: div_word_less)
  then show "setciatod e v = 0"
    using assms by (simp add: setciatod_def eval_nat_numeral)
next
  fix t :: u32
  assume "t < 10"
  then have "t div 10 = 0" "t mod 10 = t" by (simp_all add: div_word_less mod_word_less)
  then show "getciatod e t = 0x1000 * t"
    using assms by (simp add: getciatod_def eval_nat_numeral)
qed

theorem bcd_clock_conversion_wrong_witness:
  "setciatod (env0\<lparr>cs_cia6526 := True\<rparr>) 5 = 0"
  using bcd_clock_conversion_wrong [of "env0\<lparr>cs_cia6526 := True\<rparr>"] by (simp add: env0_def)

end
