(* ===== verification/CiaTiming.thy ===== *)
theory CiaTiming
  imports CiaRegs
begin

text \<open>
  When the timers of the 8520s count, and when they interrupt: lazy evaluation
  (\<^verbatim>\<open>CIA_update_check\<close> after any number of clocks) against counting clock by clock, and the event that
  \<^verbatim>\<open>CIA_calctimers\<close> schedules against the clock of the first underflow.
\<close>

unbundle bit_operations_syntax

section \<open>Settled timers\<close>

abbreviation maskA :: u8 where "maskA \<equiv> CR_INMODE OR CR_START"
abbreviation maskB :: u8 where "maskB \<equiv> CR_INMODE OR CR_INMODE1 OR CR_START"

text \<open>A timer that counts every clock, and one that counts none, with nothing pending.\<close>

definition counting :: "u8 \<Rightarrow> cia_timer \<Rightarrow> bool" where
  "counting m t \<longleftrightarrow> cr t AND m = CR_START \<and> inputpipe t = 3 \<and> loaddelay t = 0 \<and> \<not> preovfl t \<and> timer_ok t \<and> timer t \<noteq> 0"

definition idle :: "u8 \<Rightarrow> cia_timer \<Rightarrow> bool" where
  "idle m t \<longleftrightarrow> cr t AND m \<noteq> CR_START \<and> inputpipe t = 0 \<and> loaddelay t = 0 \<and> \<not> preovfl t \<and> timer_ok t"

definition settled :: "cia \<Rightarrow> bool" where
  "settled c \<longleftrightarrow> (counting maskA (ta c) \<or> idle maskA (ta c)) \<and> (counting maskB (tb c) \<or> idle maskB (tb c))"

definition advance :: "u8 \<Rightarrow> nat \<Rightarrow> cia_timer \<Rightarrow> cia_timer" where
  "advance m k t = (if cr t AND m = CR_START then t\<lparr>timer := timer t - of_nat k\<rparr> else t)"

text \<open>No counting timer reaches zero before the given clock.\<close>

definition room :: "nat \<Rightarrow> cia \<Rightarrow> bool" where
  "room n c \<longleftrightarrow> (counting maskA (ta c) \<longrightarrow> n \<le> unat (timer (ta c))) \<and> (counting maskB (tb c) \<longrightarrow> n \<le> unat (timer (tb c)))"

definition advanced :: "nat \<Rightarrow> cia \<Rightarrow> cia" where
  "advanced k c = c\<lparr>icr1 := icr1 c OR icr2 c, icr2 := 0, icr_change := False,
     ta := advance maskA k (ta c), tb := advance maskB k (tb c)\<rparr>"

lemma settled_cases:
  assumes "settled c"
  obtains "counting maskA (ta c)" "counting maskB (tb c)" | "counting maskA (ta c)" "idle maskB (tb c)"
    | "idle maskA (ta c)" "counting maskB (tb c)" | "idle maskA (ta c)" "idle maskB (tb c)"
  using assms by (auto simp: settled_def)

lemma process_pipe_counting:
  assumes "counting m t" "0 < n"
  shows "process_pipe e t n m ov l = (t, int n, ov)"
proof -
  have s: "pipe_shift m t = t" using assms(1) by (simp add: counting_def pipe_shift_def Let_def CIA_PIPE_INPUT_def)
  have "pipe_loop m t n (int n) = (t, int n)"
    using assms by (cases n) (simp_all add: counting_def CIA_PIPE_ALL_MASK_def)
  then show ?thesis
    using assms s by (simp add: process_pipe_def Let_def counting_def CIA_PIPE_OUTPUT_def)
qed

lemma load_step_settled: "loaddelay t = 0 \<Longrightarrow> load_step t = (t, 0, False, False, False)"
  by (simp add: load_step_def)

lemma timer_a_counting:
  assumes "counting maskA (ta c)" "0 < n"
  shows "timer_a_clock e n ov l c =
    (let c' = c\<lparr>ta := (ta c)\<lparr>timer := (timer (ta c) - of_nat n) AND 0xffff\<rparr>\<rparr>
     in if (timer (ta c) - of_nat n) AND 0xffff = 0 then (let (c', sp) = sp_clock c' in (c', 2, sp)) else (c', ov, False))"
  using assms process_pipe_counting [OF assms, of e ov l] by (simp add: timer_a_clock_def counting_def Let_def)

lemma timer_a_idle: "idle maskA (ta c) \<Longrightarrow> timer_a_clock e n ov l c = (c, ov, False)"
  by (simp add: timer_a_clock_def idle_def)

lemma timer_b_counting:
  assumes "counting maskB t" "0 < n"
  shows "timer_b_clock e n ov l t =
    (t\<lparr>timer := (timer t - of_nat n) AND 0xffff\<rparr>, if (timer t - of_nat n) AND 0xffff = 0 then 2 else ov)"
proof -
  have "cr t AND (CR_INMODE OR CR_INMODE1) = 0"
  proof -
    have "cr t AND (CR_INMODE OR CR_INMODE1) = (cr t AND maskB) AND (CR_INMODE OR CR_INMODE1)"
      by (simp add: cr_bits and.assoc)
    then show ?thesis using assms(1) by (simp add: counting_def cr_bits)
  qed
  then show ?thesis
    using assms process_pipe_counting [OF assms, of e ov l] by (simp add: timer_b_clock_def counting_def Let_def)
qed

lemma timer_b_idle: "idle maskB t \<Longrightarrow> timer_b_clock e n ov l t = (t, ov)"
  by (simp add: timer_b_clock_def idle_def)

lemma advance_idle [simp]: "idle m t \<Longrightarrow> advance m k t = t"
  by (simp add: advance_def idle_def)

lemma advance_counting: "counting m t \<Longrightarrow> advance m k t = t\<lparr>timer := timer t - of_nat k\<rparr>"
  by (simp add: advance_def counting_def)

lemma counting_advance:
  assumes "counting m t" "k < unat (timer t)"
  shows "counting m (advance m k t)" "unat (timer (advance m k t)) = unat (timer t) - k"
proof -
  have k: "unat (of_nat k :: u32) = k"
    using assms by (simp add: counting_def timer_ok_def word_less_nat_alt unat_of_nat take_bit_nat_eq_self)
  have u: "unat (timer t - of_nat k) = unat (timer t) - k"
    using assms(2) k by (simp add: unat_sub word_le_nat_alt)
  then show "unat (timer (advance m k t)) = unat (timer t) - k" using assms(1) by (simp add: advance_counting)
  have "timer t - of_nat k \<noteq> 0" using u assms(2) by (metis unat_0 zero_less_diff less_numeral_extra(3))
  then show "counting m (advance m k t)"
    using assms u by (simp add: advance_counting) (auto simp: counting_def timer_ok_def word_less_nat_alt)
qed

lemma small_timer: "timer_ok t \<Longrightarrow> n \<le> unat (timer t) \<Longrightarrow> (timer t - of_nat n) AND 0xffff = timer t - of_nat n"
proof -
  assume t: "timer_ok t" and n: "n \<le> unat (timer t)"
  have k: "unat (of_nat n :: u32) = n"
    using t n by (simp add: timer_ok_def word_less_nat_alt unat_of_nat take_bit_nat_eq_self)
  have "unat (timer t - of_nat n) = unat (timer t) - n" using n k by (simp add: unat_sub word_le_nat_alt)
  moreover have "unat (timer t) < 2 ^ 16" using t by (simp add: timer_ok_def word_less_nat_alt)
  ultimately have "unat (timer t - of_nat n) < 2 ^ 16" by linarith
  then have "uint (timer t - of_nat n) < 2 ^ 16" unfolding uint_nat by (metis of_nat_less_iff of_nat_numeral of_nat_power)
  then have "(timer t - of_nat n) AND mask 16 = timer t - of_nat n" by (simp only: mask_eq_iff)
  then show ?thesis by (simp add: mask_eq_exp_minus_1)
qed

lemma sp_clock_tb: "sp_clock (c\<lparr>tb := b\<rparr>) = ((fst (sp_clock c))\<lparr>tb := b\<rparr>, snd (sp_clock c))"
  by (simp add: sp_clock_def Let_def)

lemma timer_a_tb:
  "timer_a_clock e n ov l (c\<lparr>tb := b\<rparr>) = (let (c', r) = timer_a_clock e n ov l c in (c'\<lparr>tb := b\<rparr>, r))"
proof -
  have ta: "c\<lparr>tb := b, ta := t\<rparr> = (c\<lparr>ta := t\<rparr>)\<lparr>tb := b\<rparr>" for t by simp
  show ?thesis
    by (simp add: timer_a_clock_def Let_def case_prod_beta ta sp_clock_tb del: cia.update_convs)
qed

lemma timer_a_split:
  assumes "counting maskA (ta c) \<and> k + n \<le> unat (timer (ta c)) \<or> idle maskA (ta c)" "0 < n"
  shows "timer_a_clock e (k + n) ov l c = timer_a_clock e n ov l (c\<lparr>ta := advance maskA k (ta c)\<rparr>)"
  using assms(1)
proof
  assume c: "counting maskA (ta c) \<and> k + n \<le> unat (timer (ta c))"
  then have "counting maskA (advance maskA k (ta c))" using counting_advance(1) assms(2) by simp
  with c assms(2) show ?thesis
    by (simp add: timer_a_counting) (simp add: advance_counting diff_diff_eq)
qed (simp add: timer_a_idle)

lemma timer_b_split:
  assumes "counting maskB t \<and> k + n \<le> unat (timer t) \<or> idle maskB t" "0 < n"
  shows "timer_b_clock e (k + n) ov l t = timer_b_clock e n ov l (advance maskB k t)"
  using assms(1)
proof
  assume c: "counting maskB t \<and> k + n \<le> unat (timer t)"
  then have "counting maskB (advance maskB k t)" using counting_advance(1) assms(2) by simp
  with c assms(2) show ?thesis
    by (simp add: timer_b_counting) (simp add: advance_counting diff_diff_eq)
qed (simp add: timer_b_idle)

lemma finish_tb: "finish_chip e num icr oa la l2a sp ob lb l2b (c\<lparr>tb := x\<rparr>) b = finish_chip e num icr oa la l2a sp ob lb l2b c b"
  by (simp add: finish_chip_def Let_def)

definition begun :: "cia \<Rightarrow> cia" where
  "begun c = c\<lparr>icr1 := icr1 c OR icr2 c, icr2 := 0, icr_change := False\<rparr>"

lemma update_chip_settled:
  assumes "loaddelay (ta c) = 0" "loaddelay (tb c) = 0"
  shows "update_chip e n num icr c =
    (let (c', oa, sp) = timer_a_clock e n 0 False (begun c); (b, ob) = timer_b_clock e n 0 False (tb c)
     in if timer (ta c') \<ge> 0x10000 \<or> timer b \<ge> 0x10000 then None
        else Some (finish_chip e num icr oa False False sp ob False False c' b))"
proof -
  have "tb (fst (timer_a_clock e n ov l c)) = tb c" for ov l c
    by (simp add: timer_a_clock_def Let_def case_prod_beta)
  moreover have "c\<lparr>icr1 := x, icr2 := y, icr_change := z, ta := ta c, tb := tb c\<rparr> = c\<lparr>icr1 := x, icr2 := y, icr_change := z\<rparr>" for x y z
    by simp
  ultimately show ?thesis
    using load_step_settled [OF assms(1)] load_step_settled [OF assms(2)] assms
    by (simp add: update_chip_def Let_def case_prod_beta begun_def)
qed

text \<open>Clocks that reach no underflow can be counted first.\<close>

lemma update_chip_split:
  assumes "settled c" "room (k + n) c" "0 < n"
  shows "update_chip e (k + n) num icr c = update_chip e n num icr (advanced k c)"
    and "settled (advanced k c)" "room n (advanced k c)"
proof -
  have a: "counting maskA (advance maskA k (ta c))" "n \<le> unat (timer (advance maskA k (ta c)))" if "counting maskA (ta c)"
    using counting_advance [OF that, of k] assms(2,3) that by (auto simp: room_def)
  have b: "counting maskB (advance maskB k (tb c))" "n \<le> unat (timer (advance maskB k (tb c)))" if "counting maskB (tb c)"
    using counting_advance [OF that, of k] assms(2,3) that by (auto simp: room_def)
  have na: "\<not> counting m t" if "idle m t" for m t using that by (auto simp: idle_def counting_def)
  show "settled (advanced k c)"
    using assms(1) by (rule settled_cases) (simp_all add: settled_def advanced_def a b)
  show "room n (advanced k c)"
    using assms(1) by (rule settled_cases) (simp_all add: room_def advanced_def a b na)
  have l: "loaddelay (ta c) = 0" "loaddelay (tb c) = 0" using assms(1) by (auto simp: settled_def counting_def idle_def)
  have l': "loaddelay (advance m k t) = loaddelay t" for m t by (simp add: advance_def)
  have ad: "ta (advanced k c) = advance maskA k (ta c)" "tb (advanced k c) = advance maskB k (tb c)"
    "begun (advanced k c) = (begun c)\<lparr>ta := advance maskA k (ta c), tb := advance maskB k (tb c)\<rparr>"
    by (simp_all add: advanced_def begun_def)
  have "counting maskA (ta (begun c)) \<and> k + n \<le> unat (timer (ta (begun c))) \<or> idle maskA (ta (begun c))"
    "counting maskB (tb c) \<and> k + n \<le> unat (timer (tb c)) \<or> idle maskB (tb c)"
    using assms(1,2) by (auto simp: settled_def room_def begun_def)
  from timer_a_split [OF this(1) assms(3)] timer_b_split [OF this(2) assms(3)]
  show "update_chip e (k + n) num icr c = update_chip e n num icr (advanced k c)"
    by (simp add: update_chip_settled l l' ad timer_a_tb Let_def case_prod_beta finish_tb) (simp add: begun_def)
qed

lemma timer_a_step:
  assumes "counting maskA (ta c) \<and> n < unat (timer (ta c)) \<or> idle maskA (ta c)" "0 < n"
  shows "timer_a_clock e n 0 l c = (c\<lparr>ta := advance maskA n (ta c)\<rparr>, 0, False)" "\<not> preovfl (advance maskA n (ta c))"
    "\<not> 0x10000 \<le> timer (advance maskA n (ta c))"
proof -
  have "timer_a_clock e n 0 l c = (c\<lparr>ta := advance maskA n (ta c)\<rparr>, 0, False) \<and> \<not> preovfl (advance maskA n (ta c)) \<and>
      \<not> 0x10000 \<le> timer (advance maskA n (ta c))"
    using assms(1)
  proof
    assume c: "counting maskA (ta c) \<and> n < unat (timer (ta c))"
    then have a: "counting maskA (advance maskA n (ta c))" using counting_advance(1) by blast
    moreover have "(timer (ta c) - of_nat n) AND 0xffff = timer (ta c) - of_nat n"
      using c by (intro small_timer) (simp_all add: counting_def)
    ultimately show ?thesis
      using c assms(2) by (auto simp: timer_a_counting advance_counting Let_def counting_def timer_ok_def)
  qed (auto simp: timer_a_idle idle_def timer_ok_def advance_def)
  then show "timer_a_clock e n 0 l c = (c\<lparr>ta := advance maskA n (ta c)\<rparr>, 0, False)" "\<not> preovfl (advance maskA n (ta c))"
    "\<not> 0x10000 \<le> timer (advance maskA n (ta c))" by simp_all
qed

lemma timer_b_step:
  assumes "counting maskB t \<and> n < unat (timer t) \<or> idle maskB t" "0 < n"
  shows "timer_b_clock e n 0 l t = (advance maskB n t, 0)" "\<not> preovfl (advance maskB n t)"
    "\<not> 0x10000 \<le> timer (advance maskB n t)"
proof -
  have "timer_b_clock e n 0 l t = (advance maskB n t, 0) \<and> \<not> preovfl (advance maskB n t) \<and> \<not> 0x10000 \<le> timer (advance maskB n t)"
    using assms(1)
  proof
    assume c: "counting maskB t \<and> n < unat (timer t)"
    then have a: "counting maskB (advance maskB n t)" using counting_advance(1) by blast
    moreover have "(timer t - of_nat n) AND 0xffff = timer t - of_nat n"
      using c by (intro small_timer) (simp_all add: counting_def)
    ultimately show ?thesis
      using c assms(2) by (auto simp: timer_b_counting advance_counting counting_def timer_ok_def)
  qed (auto simp: timer_b_idle idle_def timer_ok_def advance_def)
  then show "timer_b_clock e n 0 l t = (advance maskB n t, 0)" "\<not> preovfl (advance maskB n t)"
    "\<not> 0x10000 \<le> timer (advance maskB n t)" by simp_all
qed

lemma overflow_none: "\<not> preovfl t \<Longrightarrow> overflow_step e 0 l l2 t = t"
  by (simp add: overflow_step_def)

lemma update_chip_step:
  assumes "settled c" "room (Suc n) c" "0 < n"
  shows "update_chip e n num icr c = Some (if acc_mode e \<and> icr \<noteq> 0 then (advanced n c)\<lparr>icr_change := True\<rparr> else advanced n c, icr)"
proof -
  have l: "loaddelay (ta c) = 0" "loaddelay (tb c) = 0" using assms(1) by (auto simp: settled_def counting_def idle_def)
  have "counting maskA (ta (begun c)) \<and> n < unat (timer (ta (begun c))) \<or> idle maskA (ta (begun c))"
    "counting maskB (tb c) \<and> n < unat (timer (tb c)) \<or> idle maskB (tb c)"
    using assms(1,2) by (auto simp: settled_def room_def begun_def)
  note t = timer_a_step [OF this(1) assms(3)] timer_b_step [OF this(2) assms(3)]
  show ?thesis
    using t by (simp add: update_chip_settled l) (simp add: finish_chip_def overflow_none advanced_def begun_def Let_def)
qed

text \<open>The same clocks one at a time.\<close>

fun single_clocks :: "cia_env \<Rightarrow> nat \<Rightarrow> nat \<Rightarrow> cia \<Rightarrow> cia option" where
  "single_clocks e num 0 c = Some c"
| "single_clocks e num (Suc n) c =
     (case update_chip e 1 num 0 c of None \<Rightarrow> None | Some (c', _) \<Rightarrow> single_clocks e num n c')"

text \<open>C9: Counting lazily is counting every clock: bringing a chip with settled timers up to date after any
  number of clocks, up to and including the one in which the first timer underflows, gives the state that
  as many updates of one clock each give - counters, reload, stop of a one-shot timer, pipeline, serial shift
  and interrupt flags - in both accuracy modes.\<close>

theorem lazy_counting_exact:
  assumes "settled c" "room n c" "0 < n"
  shows "map_option fst (update_chip e n num 0 c) = single_clocks e num n c"
  using assms
proof (induction n arbitrary: c)
  case (Suc n)
  show ?case
  proof (cases "n = 0")
    case False
    have s: "update_chip e (1 + n) num 0 c = update_chip e n num 0 (advanced 1 c)" "settled (advanced 1 c)" "room n (advanced 1 c)"
      using update_chip_split [of c 1 n] Suc.prems False by simp_all
    have "update_chip e 1 num 0 c = Some (advanced 1 c, 0)"
      using Suc.prems False update_chip_step [of c 1 e num 0] by (auto simp: room_def)
    then show ?thesis using s Suc.IH [OF s(2,3)] False by simp
  qed (auto split: option.splits)
qed simp

theorem lazy_counting_exact_witness:
  "let c = cia_zero\<lparr>ta := timer_zero\<lparr>timer := 3, latch := 5, cr := 9, inputpipe := 3\<rparr>, imask := 1\<rparr>
   in map_option fst (update_chip env0 3 0 0 c) = single_clocks env0 0 3 c \<and>
      map_option (\<lambda>c. (timer (ta c), cr (ta c), icr2 c)) (single_clocks env0 0 3 c) = Some (5, 8, 1)"
proof -
  define c where "c = cia_zero\<lparr>ta := timer_zero\<lparr>timer := 3, latch := 5, cr := 9, inputpipe := 3\<rparr>, imask := 1\<rparr>"
  have "settled c" "room 3 c" unfolding c_def by code_simp+
  moreover have "map_option (\<lambda>c. (timer (ta c), cr (ta c), icr2 c)) (single_clocks env0 0 3 c) = Some (5, 8, 1)"
    unfolding c_def by code_simp
  ultimately show ?thesis
    using lazy_counting_exact [of c 3 env0 0] by (simp add: Let_def c_def)
qed

section \<open>The scheduled clock is the clock of the interrupt\<close>

definition quiet :: "cia \<Rightarrow> bool" where
  "quiet c \<longleftrightarrow> settled c \<and> icr1 c = 0 \<and> icr2 c = 0 \<and> \<not> icr_change c"

lemma start_bit: "x AND maskA = CR_START \<Longrightarrow> x AND CR_START \<noteq> 0" "x AND maskB = CR_START \<Longrightarrow> x AND CR_START \<noteq> 0"
proof -
  have "x AND CR_START = (x AND maskA) AND CR_START" "x AND CR_START = (x AND maskB) AND CR_START"
    by (simp_all add: cr_bits and.assoc)
  then show "x AND maskA = CR_START \<Longrightarrow> x AND CR_START \<noteq> 0" "x AND maskB = CR_START \<Longrightarrow> x AND CR_START \<noteq> 0"
    by (simp_all add: CR_START_def)
qed

lemma counting_due:
  assumes "counting m t"
  shows "due m t = Some (DIV10 * uint (timer t))"
proof -
  have "0 < timer t" using assms by (simp add: counting_def word_neq_0_conv)
  then have "0 < uint (timer t)" by (simp add: word_less_def)
  then show ?thesis using assms by (simp add: due_def counting_def pipe_delay_def)
qed

lemma quiet_times:
  assumes "quiet c"
  shows "chip_times c = Some [due maskA (ta c), due maskB (tb c)]"
proof -
  have ok: "chip_ok c" using assms by (auto simp: quiet_def settled_def counting_def idle_def chip_ok_def)
  have "\<not> timerspecial (due maskA (ta c) \<noteq> None) (ta c)" "\<not> timerspecial (due maskB (tb c) \<noteq> None) (tb c)"
    using assms by (auto simp: quiet_def settled_def counting_def idle_def timerspecial_def due_def CIA_PIPE_ALL_MASK_def start_bit
        split: if_splits)
  then show ?thesis
    using chip_times_ok [OF ok] assms by (auto simp: service_time_def quiet_def)
qed

lemma quiet_due:
  assumes "quiet c" "room n c"
  shows "\<forall>d. due maskA (ta c) = Some d \<longrightarrow> DIV10 * int n \<le> d" "\<forall>d. due maskB (tb c) = Some d \<longrightarrow> DIV10 * int n \<le> d"
proof -
  have i: "idle m t \<Longrightarrow> due m t = None" for m t by (simp add: idle_def due_def)
  have "DIV10 * int n \<le> DIV10 * uint x" if "n \<le> unat x" for x :: u32
    using that unfolding uint_nat DIV10_val by linarith
  then show "\<forall>d. due maskA (ta c) = Some d \<longrightarrow> DIV10 * int n \<le> d" "\<forall>d. due maskB (tb c) = Some d \<longrightarrow> DIV10 * int n \<le> d"
    using assms by (auto simp: quiet_def settled_def room_def counting_due i)
qed

lemma ciatime_first:
  assumes "\<forall>v \<in> set vs. \<forall>d. v = Some d \<longrightarrow> n \<le> d" "0 \<le> n" "n < MAXINT"
  shows "ciatime (Some n # vs) = n"
proof -
  have "fold earlier vs n = n"
    using assms(1) by (induction vs) (auto simp: earlier_def split: option.splits)
  then show ?thesis using assms(2,3) by (simp add: ciatime_def earlier_def)
qed

lemma calctimers_quiet:
  assumes "quiet (ciaa s)" "quiet (ciab s)" "counting maskA (ta (ciaa s))"
    and "room (unat (timer (ta (ciaa s)))) (ciaa s)" "room (unat (timer (ta (ciaa s)))) (ciab s)"
  shows "CIA_calctimers e s =
    Some (s\<lparr>oldcycles := get_cycles e, evtime := get_cycles e + DIV10 * uint (timer (ta (ciaa s))), ev_active := True\<rparr>)"
proof -
  let ?n = "DIV10 * uint (timer (ta (ciaa s)))"
  have "uint (timer (ta (ciaa s))) < 0x10000" using assms(3) by (simp add: counting_def timer_ok_def word_less_def)
  then have n: "?n < MAXINT" "0 \<le> ?n" by (simp_all add: DIV10_val MAXINT_def)
  have "ciatime [due maskA (ta (ciaa s)), due maskB (tb (ciaa s)), due maskA (ta (ciab s)), due maskB (tb (ciab s))] = ?n"
    unfolding counting_due [OF assms(3)]
    using quiet_due [OF assms(1,4), unfolded uint_nat [symmetric]] quiet_due [OF assms(2,5), unfolded uint_nat [symmetric]] n by (intro ciatime_first) auto
  then show ?thesis
    using n(1) by (simp add: CIA_calctimers_def quiet_times [OF assms(1)] quiet_times [OF assms(2)])
qed

lemma quiet_room_now: "room 0 c" by (simp add: room_def)

text \<open>Before the first underflow nothing is raised.\<close>

lemma update_before:
  assumes "quiet (ciaa s)" "quiet (ciab s)" "room (Suc n) (ciaa s)" "room (Suc n) (ciab s)" "ciaclocks_since e s = int n"
  shows "\<exists>s'. CIA_update e s = Some s' \<and> irqs s' = irqs s"
proof (cases "n = 0")
  case True
  then show ?thesis
    using assms by (simp add: CIA_update_def CIA_update_check_def CIA_check_ICR_def quiet_def)
next
  case False
  let ?s = "s\<lparr>ciaa := advanced n (ciaa s), ciab := advanced n (ciab s)\<rparr>"
  have "CIA_update_check e s = Some ?s"
    using assms False update_chip_step [of "ciaa s" n e 0 0] update_chip_step [of "ciab s" n e "Suc 0" 0]
    by (simp add: CIA_update_check_def Let_def quiet_def)
  moreover have "CIA_check_ICR e ?s = ?s"
    using assms(1,2) by (simp add: CIA_check_ICR_def advanced_def quiet_def)
  ultimately show ?thesis by (simp add: CIA_update_def)
qed

text \<open>In its clock the underflow reloads the counter and sets the flag.\<close>

lemma update_underflow:
  assumes "quiet c" "counting maskA (ta c)" "unat (timer (ta c)) = n"
    and "counting maskB (tb c) \<longrightarrow> n < unat (timer (tb c))"
  shows "\<exists>c' i. update_chip e n 0 0 c = Some (c', i) \<and> timer (ta c') = latch (ta c) \<and> latch (ta c') = latch (ta c) \<and>
    (if acc_mode e then icr1 c' = 0 \<and> bit (icr2 c') 0 \<and> \<not> bit (icr2 c') 7 \<and> icr_change c'
     else bit (icr1 c') 0 \<and> \<not> bit (icr1 c') 7) \<and> imask c' = imask c \<and> chip_ok c'"
proof -
  have set: "settled c" using assms(1) by (simp add: quiet_def)
  have l: "loaddelay (ta c) = 0" "loaddelay (tb c) = 0" using set by (auto simp: settled_def counting_def idle_def)
  have n: "0 < n" using assms(2,3) by (auto simp: counting_def unat_gt_0)
  have z: "timer (ta c) - of_nat n = 0" using assms(3) by auto
  have b: "counting maskB (tb c) \<and> n < unat (timer (tb c)) \<or> idle maskB (tb c)"
    using set assms(4) by (auto simp: settled_def)
  note tb = timer_b_step [OF b n]
  let ?c = "(begun c)\<lparr>ta := (ta c)\<lparr>timer := 0\<rparr>\<rparr>"
  have a: "timer_a_clock e n 0 False (begun c) = (fst (sp_clock ?c), 2, snd (sp_clock ?c))"
    using timer_a_counting [of "begun c" n e 0 False] assms(2) n z by (simp add: begun_def Let_def case_prod_beta)
  have sp: "icr1 (fst (sp_clock c)) = icr1 c" "icr2 (fst (sp_clock c)) = icr2 c" "imask (fst (sp_clock c)) = imask c" for c
    by (auto simp: sp_clock_def Let_def)
  have ov: "timer (overflow_step e 2 False False t) = latch t" "latch (overflow_step e 2 False False t) = latch t" for t
    by (simp_all add: overflow_step_def Let_def)
  have u: "update_chip e n 0 0 c = Some (finish_chip e 0 0 2 False False (snd (sp_clock ?c)) 0 False False (fst (sp_clock ?c)) (advance maskB n (tb c)))"
    using tb by (simp add: update_chip_settled l a)
  obtain c' i where c': "update_chip e n 0 0 c = Some (c', i)" and "chip_ok c'"
    using update_chip_total [of c n e 0 0] set l by (auto simp: settled_def counting_def idle_def chip_ok_def)
  moreover have "timer (ta c') = latch (ta c)" "latch (ta c') = latch (ta c)" "imask c' = imask c"
    using u c' by (auto simp: finish_chip_def Let_def ov sp begun_def)
  moreover have "if acc_mode e then icr1 c' = 0 \<and> bit (icr2 c') 0 \<and> \<not> bit (icr2 c') 7 \<and> icr_change c'
      else bit (icr1 c') 0 \<and> \<not> bit (icr1 c') 7"
    using u c' assms(1)
    by (auto simp: finish_chip_def Let_def sp begun_def quiet_def icr_bits bit_simps split: if_splits)
  ultimately show ?thesis by blast
qed

lemma raised_bits:
  fixes x y :: u8
  assumes "bit x 0" "bit y 0" "\<not> bit x 7"
  shows "x AND y AND ICR_MASK \<noteq> 0" "x AND 0x80 = 0" "x AND ICR_MASK \<noteq> 0"
proof -
  have m: "bit ICR_MASK 0" by (simp add: ICR_MASK_def)
  have b: "bit (x AND y AND ICR_MASK) 0" "bit (x AND ICR_MASK) 0" unfolding bit_and_iff using assms m by blast+
  show "x AND y AND ICR_MASK \<noteq> 0" using b(1) by (intro notI) (simp only: bit_0_eq bot_apply bot_bool_def)
  show "x AND ICR_MASK \<noteq> 0" using b(2) by (intro notI) (simp only: bit_0_eq bot_apply bot_bool_def)
  show "x AND 0x80 = 0" using assms(3) and_exp_eq_0_iff_not_bit [of x 7] by simp
qed

text \<open>The flag of timer A in the interrupt register of the first chip, and none in the second's, raise the
  line once.\<close>

lemma check_raises:
  assumes "bit (icr1 (ciaa s)) 0" "\<not> bit (icr1 (ciaa s)) 7" "bit (imask (ciaa s)) 0" "icr1 (ciab s) = 0"
  shows "irqs (CIA_check_ICR e s) = irqs s @ [0x0008]" "ciaa (CIA_check_ICR e s) = (ciaa s)\<lparr>icr1 := icr1 (ciaa s) OR 0xe0\<rparr>"
    "bit (icr1 (ciaa (CIA_check_ICR e s))) 7"
proof -
  note r = raised_bits [OF assms(1,3,2)]
  have r1: "icr1 (chip s 0) AND imask (chip s 0) AND ICR_MASK \<noteq> 0" "icr1 (chip s 0) AND 0x80 = 0"
    using r by (simp_all add: chip_def)
  have "icr1 (ciab (RethinkICR e 0 s)) AND ICR_MASK = 0"
    using assms(4) by (simp add: RethinkICR_def ICR_def Let_def set_chip_def ICRIRQ_def chip_def)
  then have chk: "CIA_check_ICR e s = RethinkICR e 0 s"
    using r(3) by (simp add: CIA_check_ICR_def)
  then show "irqs (CIA_check_ICR e s) = irqs s @ [0x0008]"
    using RethinkICR_raises(1) [OF r1, of e] by (simp add: irq_line_def)
  show a: "ciaa (CIA_check_ICR e s) = (ciaa s)\<lparr>icr1 := icr1 (ciaa s) OR 0xe0\<rparr>"
    using chk RethinkICR_raises(2) [OF r1, of e] by (simp add: chip_def)
  show "bit (icr1 (ciaa (CIA_check_ICR e s))) 7" unfolding a by (simp add: bit_or_iff)
qed

lemma update_at_underflow:
  assumes "quiet (ciaa s)" "quiet (ciab s)" "counting maskA (ta (ciaa s))"
    and "counting maskB (tb (ciaa s)) \<longrightarrow> unat (timer (ta (ciaa s))) < unat (timer (tb (ciaa s)))"
    and "room (Suc (unat (timer (ta (ciaa s))))) (ciab s)" "bit (imask (ciaa s)) 0"
    and "ciaclocks_since e s = uint (timer (ta (ciaa s)))"
  shows "\<exists>s'. CIA_update e s = Some s' \<and> timer (ta (ciaa s')) = latch (ta (ciaa s)) \<and> sys_ok s' \<and>
    (if acc_mode e then irqs s' = irqs s \<and> icr1 (ciaa s') = 0 \<and> bit (icr2 (ciaa s')) 0 \<and> \<not> bit (icr2 (ciaa s')) 7 \<and>
       icr_change (ciaa s') \<and> imask (ciaa s') = imask (ciaa s) \<and> icr1 (ciab s') = 0 \<and> icr2 (ciab s') = 0
     else irqs s' = irqs s @ [0x0008] \<and> bit (icr1 (ciaa s')) 7)"
proof -
  define n where "n = unat (timer (ta (ciaa s)))"
  have n: "0 < n" using assms(3) by (simp add: n_def counting_def unat_gt_0)
  have cl: "ciaclocks_since e s = int n" using assms(7) by (simp add: n_def)
  obtain a i where a: "update_chip e n 0 0 (ciaa s) = Some (a, i)" "timer (ta a) = latch (ta (ciaa s))"
      "if acc_mode e then icr1 a = 0 \<and> bit (icr2 a) 0 \<and> \<not> bit (icr2 a) 7 \<and> icr_change a
       else bit (icr1 a) 0 \<and> \<not> bit (icr1 a) 7" "imask a = imask (ciaa s)" "chip_ok a"
    using update_underflow [OF assms(1,3) _ , of n e] assms(4) by (auto simp: n_def)
  obtain b where b: "update_chip e n (Suc 0) i (ciab s) = Some (b, i)" "icr1 b = 0" "icr2 b = 0"
    using update_chip_step [of "ciab s" n e "Suc 0" i] assms(2,5) n by (auto simp: quiet_def n_def advanced_def)
  have "chip_ok (ciab s)" "loaddelay (ta (ciab s)) = 0 \<and> loaddelay (tb (ciab s)) = 0"
    using assms(2) by (auto simp: quiet_def settled_def counting_def idle_def chip_ok_def)
  then have okb: "chip_ok b" using update_chip_total [of "ciab s" n e "Suc 0" i] b(1) by auto
  let ?s = "s\<lparr>ciaa := a, ciab := b\<rparr>"
  have c: "CIA_update e s = Some (CIA_check_ICR e ?s)"
    using n by (simp add: CIA_update_def CIA_update_check_def cl a b)
  have "sys_ok ?s" using a(5) okb by (simp add: sys_ok_def)
  then have ok: "sys_ok (CIA_check_ICR e ?s)" by simp
  show ?thesis
  proof (cases "acc_mode e")
    case True
    then have "CIA_check_ICR e ?s = ?s" using a(3) b(2) by (simp add: CIA_check_ICR_def)
    then show ?thesis using True a b c ok by simp
  next
    case False
    then show ?thesis
      using check_raises [of ?s e] a b c ok assms(6) by simp
  qed
qed

lemma sys_ok_quiet: "quiet (ciaa s) \<Longrightarrow> quiet (ciab s) \<Longrightarrow> sys_ok s"
  by (auto simp: sys_ok_def chip_ok_def quiet_def settled_def counting_def idle_def)

text \<open>In the accurate mode the flag waits one clock: the change of the second register makes
  \<^verbatim>\<open>CIA_calctimers\<close> schedule the very next one.\<close>

lemma service_time_clock: "service_time b (due m t) = Some d \<Longrightarrow> DIV10 \<le> d"
  by (auto simp: service_time_def cap_time_def due_def DIV10_val max_def split: option.splits if_splits)

lemma calctimers_next_clock:
  assumes "sys_ok s" "icr_change (ciaa s)"
  shows "CIA_calctimers e s = Some (s\<lparr>oldcycles := get_cycles e, evtime := get_cycles e + DIV10, ev_active := True\<rparr>)"
proof -
  obtain va vb where a: "chip_times (ciaa s) = Some [va, vb]"
    and va: "va = service_time True (due maskA (ta (ciaa s)))" and vb: "\<exists>x. vb = service_time x (due maskB (tb (ciaa s)))"
    using chip_times_ok [of "ciaa s"] assms by (auto simp: sys_ok_def)
  obtain vc vd where b: "chip_times (ciab s) = Some [vc, vd]"
    and vc: "\<exists>x. vc = service_time x (due maskA (ta (ciab s)))" and vd: "\<exists>x. vd = service_time x (due maskB (tb (ciab s)))"
    using chip_times_ok [of "ciab s"] assms by (auto simp: sys_ok_def)
  have "va = Some DIV10"
    unfolding va
    by (auto simp: service_time_def cap_time_def due_def DIV10_val max_def split: option.splits if_splits)
  moreover have "\<forall>v \<in> set [vb, vc, vd]. \<forall>d. v = Some d \<longrightarrow> DIV10 \<le> d"
    using vb vc vd by (auto dest: service_time_clock)
  ultimately have "ciatime ([va, vb] @ [vc, vd]) = DIV10"
    using ciatime_first [of "[vb, vc, vd]" DIV10] by (simp add: DIV10_val MAXINT_def)
  then show ?thesis
    by (simp add: CIA_calctimers_def a b DIV10_val MAXINT_def)
qed

lemma update_chip_acc:
  assumes "acc_mode e" "update_chip e n num i c = Some (c', j)"
  shows "icr1 c' = icr1 c OR icr2 c" "imask c' = imask c"
proof -
  have sp: "icr1 (fst (sp_clock c)) = icr1 c" "imask (fst (sp_clock c)) = imask c" for c
    by (auto simp: sp_clock_def Let_def)
  have ta: "icr1 (fst (timer_a_clock e n ov l c)) = icr1 c" "imask (fst (timer_a_clock e n ov l c)) = imask c" for ov l c
    by (simp_all add: timer_a_clock_def Let_def case_prod_beta sp)
  have fin: "icr1 (fst (finish_chip e num i oa la l2a s ob lb l2b c b)) = icr1 c"
    "imask (fst (finish_chip e num i oa la l2a s ob lb l2b c b)) = imask c" for oa la l2a s ob lb l2b c b
    using assms(1) by (simp_all add: finish_chip_def Let_def)
  have "\<exists>ov l oa la l2a s ob lb l2b a b b'. c' = fst (finish_chip e num i oa la l2a s ob lb l2b
      (fst (timer_a_clock e n ov l (c\<lparr>icr1 := icr1 c OR icr2 c, icr2 := 0, icr_change := False, ta := a, tb := b\<rparr>))) b')"
    using assms(2) unfolding update_chip_def Let_def case_prod_beta by (simp split: if_splits) (metis fst_conv)
  then show "icr1 c' = icr1 c OR icr2 c" "imask c' = imask c" by (auto simp: fin ta)
qed

lemma update_next_clock:
  assumes "sys_ok s" "acc_mode e" "ciaclocks_since e s = 1" "bit (icr1 (ciaa s) OR icr2 (ciaa s)) 0"
    and "\<not> bit (icr1 (ciaa s) OR icr2 (ciaa s)) 7" "bit (imask (ciaa s)) 0" "icr1 (ciab s) = 0" "icr2 (ciab s) = 0"
  shows "\<exists>s'. CIA_update e s = Some s' \<and> sys_ok s' \<and> irqs s' = irqs s @ [0x0008] \<and> bit (icr1 (ciaa s')) 7"
proof -
  obtain a i where a: "update_chip e 1 0 0 (ciaa s) = Some (a, i)" "chip_ok a"
    using update_chip_total [of "ciaa s" 1 e 0 0] assms(1) by (auto simp: sys_ok_def)
  obtain b j where b: "update_chip e 1 1 i (ciab s) = Some (b, j)" "chip_ok b"
    using update_chip_total [of "ciab s" 1 e 1 i] assms(1) by (auto simp: sys_ok_def)
  let ?s = "s\<lparr>ciaa := a, ciab := b\<rparr>"
  have "icr1 a = icr1 (ciaa s) OR icr2 (ciaa s)" "imask a = imask (ciaa s)" "icr1 b = 0"
    using update_chip_acc [OF assms(2) a(1)] update_chip_acc [OF assms(2) b(1)] assms(7,8) by simp_all
  then have "irqs (CIA_check_ICR e ?s) = irqs s @ [0x0008] \<and> bit (icr1 (ciaa (CIA_check_ICR e ?s))) 7"
    using check_raises [of ?s e] assms(4-6) by simp
  moreover have "CIA_update e s = Some (CIA_check_ICR e ?s)"
    using a(1) b(1) assms(3) by (simp add: CIA_update_def CIA_update_check_def)
  moreover have "sys_ok ?s" using a(2) b(2) by (simp add: sys_ok_def)
  then have "sys_ok (CIA_check_ICR e ?s)" by simp
  ultimately show ?thesis by simp
qed

text \<open>C8: The timer event is scheduled for exactly the clock of the underflow, and the interrupt comes on time:
  with timer A of the first chip the next to underflow and its interrupt enabled, and both chips otherwise
  quiet, \<^verbatim>\<open>CIA_calctimers\<close> sets the event to ten E-clock units per remaining count, and an update at any earlier time raises
  no interrupt. Running the event at its time reloads the timer from its latch; in the fast mode it
  also raises the interrupt line, once; in the accurate mode (\<^verbatim>\<open>acc_mode\<close>) it raises nothing, but sets the
  event to the next E clock, no update before that raises anything, and running the event there raises the line, once.\<close>

theorem timer_interrupt_on_time:
  assumes "quiet (ciaa s)" "quiet (ciab s)" "counting maskA (ta (ciaa s))"
    and "counting maskB (tb (ciaa s)) \<longrightarrow> unat (timer (ta (ciaa s))) < unat (timer (tb (ciaa s)))"
    and "room (Suc (unat (timer (ta (ciaa s))))) (ciab s)" "bit (imask (ciaa s)) 0"
    and "CIA_calctimers e s = Some s1"
  shows "ev_active s1 \<and> evtime s1 = get_cycles e + DIV10 * uint (timer (ta (ciaa s))) \<and>
    (\<forall>e1. get_cycles e \<le> get_cycles e1 \<and> get_cycles e1 < evtime s1 \<longrightarrow>
       (\<exists>s2. CIA_update e1 s1 = Some s2 \<and> irqs s2 = irqs s)) \<and>
    (\<forall>e1. get_cycles e1 = evtime s1 \<and> \<not> acc_mode e1 \<longrightarrow>
       (\<exists>s2. CIA_handler e1 s1 = Some s2 \<and> irqs s2 = irqs s @ [0x0008] \<and>
         timer (ta (ciaa s2)) = latch (ta (ciaa s)) \<and> bit (icr1 (ciaa s2)) 7)) \<and>
    (\<forall>e1. get_cycles e1 = evtime s1 \<and> acc_mode e1 \<longrightarrow>
       (\<exists>s2. CIA_handler e1 s1 = Some s2 \<and> irqs s2 = irqs s \<and> timer (ta (ciaa s2)) = latch (ta (ciaa s)) \<and>
         ev_active s2 \<and> evtime s2 = evtime s1 + DIV10 \<and>
         (\<forall>e2. evtime s1 \<le> get_cycles e2 \<and> get_cycles e2 < evtime s2 \<longrightarrow>
            (\<exists>s3. CIA_update e2 s2 = Some s3 \<and> irqs s3 = irqs s)) \<and>
         (\<forall>e2. get_cycles e2 = evtime s2 \<and> acc_mode e2 \<longrightarrow>
            (\<exists>s3. CIA_handler e2 s2 = Some s3 \<and> irqs s3 = irqs s @ [0x0008] \<and> bit (icr1 (ciaa s3)) 7))))"
proof -
  define n where "n = unat (timer (ta (ciaa s)))"
  have u: "uint (timer (ta (ciaa s))) = int n" by (simp add: n_def)
  have room: "room n (ciaa s)" "room n (ciab s)"
    using assms(4,5) by (auto simp: room_def n_def)
  have s1: "s1 = s\<lparr>oldcycles := get_cycles e, evtime := get_cycles e + DIV10 * int n, ev_active := True\<rparr>"
    using calctimers_quiet [OF assms(1-3), of e] room assms(7) by (simp add: n_def)
  have same: "ciaa s1 = ciaa s" "ciab s1 = ciab s" "irqs s1 = irqs s" by (simp_all add: s1)
  have "n < 0x10000" using assms(3) by (simp add: n_def counting_def timer_ok_def word_less_nat_alt)
  then have cl: "ciaclocks_since e1 s1 = (get_cycles e1 - get_cycles e) div DIV10"
    if "get_cycles e \<le> get_cycles e1" "get_cycles e1 \<le> evtime s1" for e1
    using ciaclocks_div [of e1 s1] that
    by (simp add: on_time_def s1 DIV10_val ccount_since_def MAXINT_def Let_def)
  have before: "\<exists>s2. CIA_update e1 s1 = Some s2 \<and> irqs s2 = irqs s"
    if t: "get_cycles e \<le> get_cycles e1" "get_cycles e1 < evtime s1" for e1
  proof -
    define m where "m = nat ((get_cycles e1 - get_cycles e) div DIV10)"
    have "(get_cycles e1 - get_cycles e) div DIV10 = int m" using t by (simp add: m_def DIV10_val)
    moreover from this have "m < n" using t by (simp add: s1 DIV10_val)
    then have "room (Suc m) (ciaa s1)" "room (Suc m) (ciab s1)" using room by (auto simp: room_def same)
    ultimately show ?thesis
      using update_before [of s1 m e1] assms(1,2) cl [of e1] t by (simp add: same)
  qed
  have at: "\<exists>s2. CIA_update e1 s1 = Some s2 \<and> timer (ta (ciaa s2)) = latch (ta (ciaa s)) \<and> sys_ok s2 \<and>
      (if acc_mode e1 then irqs s2 = irqs s \<and> icr1 (ciaa s2) = 0 \<and> bit (icr2 (ciaa s2)) 0 \<and> \<not> bit (icr2 (ciaa s2)) 7 \<and>
         icr_change (ciaa s2) \<and> imask (ciaa s2) = imask (ciaa s) \<and> icr1 (ciab s2) = 0 \<and> icr2 (ciab s2) = 0
       else irqs s2 = irqs s @ [0x0008] \<and> bit (icr1 (ciaa s2)) 7)"
    if t: "get_cycles e1 = evtime s1" for e1
  proof -
    have "ciaclocks_since e1 s1 = uint (timer (ta (ciaa s1)))" using cl [of e1] t by (simp add: s1 DIV10_val n_def)
    then show ?thesis using update_at_underflow [of s1 e1] assms(1-6) by (simp only: same)
  qed
  have fast: "\<exists>s2. CIA_handler e1 s1 = Some s2 \<and> irqs s2 = irqs s @ [0x0008] \<and>
      timer (ta (ciaa s2)) = latch (ta (ciaa s)) \<and> bit (icr1 (ciaa s2)) 7"
    if t: "get_cycles e1 = evtime s1 \<and> \<not> acc_mode e1" for e1
    using at [of e1] CIA_calctimers_inv [of _ e1] t by (fastforce simp: CIA_handler_def)
  have slow: "\<exists>s2. CIA_handler e1 s1 = Some s2 \<and> irqs s2 = irqs s \<and> timer (ta (ciaa s2)) = latch (ta (ciaa s)) \<and>
      ev_active s2 \<and> evtime s2 = evtime s1 + DIV10 \<and>
      (\<forall>e2. evtime s1 \<le> get_cycles e2 \<and> get_cycles e2 < evtime s2 \<longrightarrow>
         (\<exists>s3. CIA_update e2 s2 = Some s3 \<and> irqs s3 = irqs s)) \<and>
      (\<forall>e2. get_cycles e2 = evtime s2 \<and> acc_mode e2 \<longrightarrow>
         (\<exists>s3. CIA_handler e2 s2 = Some s3 \<and> irqs s3 = irqs s @ [0x0008] \<and> bit (icr1 (ciaa s3)) 7))"
    if t: "get_cycles e1 = evtime s1 \<and> acc_mode e1" for e1
  proof -
    obtain x where x: "CIA_update e1 s1 = Some x" "timer (ta (ciaa x)) = latch (ta (ciaa s))" "sys_ok x" "irqs x = irqs s"
        "icr1 (ciaa x) = 0" "bit (icr2 (ciaa x)) 0" "\<not> bit (icr2 (ciaa x)) 7" "icr_change (ciaa x)"
        "imask (ciaa x) = imask (ciaa s)" "icr1 (ciab x) = 0" "icr2 (ciab x) = 0"
      using at [of e1] t by auto
    define s2 where "s2 = x\<lparr>oldcycles := evtime s1, evtime := evtime s1 + DIV10, ev_active := True\<rparr>"
    have h: "CIA_handler e1 s1 = Some s2"
      using calctimers_next_clock [OF x(3,8), of e1] x(1) t by (simp add: CIA_handler_def s2_def)
    have c2: "ciaclocks_since e2 s2 = (get_cycles e2 - evtime s1) div DIV10"
      if "evtime s1 \<le> get_cycles e2" "get_cycles e2 \<le> evtime s2" for e2
      using ciaclocks_div [of e2 s2] that by (simp add: on_time_def s2_def DIV10_val ccount_since_def MAXINT_def Let_def)
    have mid: "\<exists>s3. CIA_update e2 s2 = Some s3 \<and> irqs s3 = irqs s"
      if "evtime s1 \<le> get_cycles e2 \<and> get_cycles e2 < evtime s2" for e2
    proof -
      have "ciaclocks_since e2 s2 = 0" using that c2 [of e2] by (simp add: s2_def DIV10_val)
      then show ?thesis using x by (simp add: CIA_update_def CIA_update_check_def CIA_check_ICR_def s2_def)
    qed
    have last: "\<exists>s3. CIA_handler e2 s2 = Some s3 \<and> irqs s3 = irqs s @ [0x0008] \<and> bit (icr1 (ciaa s3)) 7"
      if t2: "get_cycles e2 = evtime s2 \<and> acc_mode e2" for e2
    proof -
      have "ciaclocks_since e2 s2 = 1" using t2 c2 [of e2] by (simp add: s2_def DIV10_val)
      moreover have "sys_ok s2" using x(3) by (simp add: s2_def sys_ok_def)
      ultimately obtain s3 where "CIA_update e2 s2 = Some s3" "sys_ok s3" "irqs s3 = irqs s @ [0x0008]" "bit (icr1 (ciaa s3)) 7"
        using update_next_clock [of s2 e2] x assms(6) t2 by (auto simp: s2_def)
      then show ?thesis using CIA_calctimers_inv [of s3 e2] by (auto simp: CIA_handler_def)
    qed
    show ?thesis using h x(2,4) mid last by (auto simp: s2_def)
  qed
  show ?thesis
    using before fast slow unfolding s1 by (simp add: u)
qed

theorem timer_interrupt_on_time_witness:
  "let c = cia_zero\<lparr>ta := timer_zero\<lparr>timer := 3, latch := 5, cr := 1, inputpipe := 3\<rparr>, imask := 1\<rparr>;
       s1 = the (CIA_calctimers env0 (sys0\<lparr>ciaa := c\<rparr>))
   in evtime s1 = 7680 \<and> (\<exists>s2. CIA_handler (env0\<lparr>acc_mode := False, get_cycles := 7680\<rparr>) s1 = Some s2 \<and> irqs s2 = [8])"
proof -
  define s where "s = sys0\<lparr>ciaa := cia_zero\<lparr>ta := timer_zero\<lparr>timer := 3, latch := 5, cr := 1, inputpipe := 3\<rparr>, imask := 1\<rparr>\<rparr>"
  have "quiet (ciaa s)" "quiet (ciab s)" "counting maskA (ta (ciaa s))"
    "counting maskB (tb (ciaa s)) \<longrightarrow> unat (timer (ta (ciaa s))) < unat (timer (tb (ciaa s)))"
    "room (Suc (unat (timer (ta (ciaa s))))) (ciab s)" "bit (imask (ciaa s)) 0"
    "CIA_calctimers env0 s = Some (the (CIA_calctimers env0 s))"
    unfolding s_def by code_simp+
  note t = timer_interrupt_on_time [OF this]
  have v: "get_cycles env0 + DIV10 * uint (timer (ta (ciaa s))) = 7680" "irqs s = []" unfolding s_def by code_simp+
  let ?e = "env0\<lparr>acc_mode := False, get_cycles := 7680\<rparr>"
  have e: "get_cycles ?e = 7680" "\<not> acc_mode ?e" by simp_all
  have ev: "evtime (the (CIA_calctimers env0 s)) = 7680" using t v(1) by argo
  then have "\<exists>s2. CIA_handler ?e (the (CIA_calctimers env0 s)) = Some s2 \<and> irqs s2 = [] @ [8]"
    using t [THEN conjunct2, THEN conjunct2, THEN conjunct2, THEN conjunct1, rule_format, of ?e] e v(2) by auto
  with ev have "evtime (the (CIA_calctimers env0 s)) = 7680 \<and> (\<exists>s2. CIA_handler ?e (the (CIA_calctimers env0 s)) = Some s2 \<and> irqs s2 = [8])"
    by simp
  then show ?thesis by (simp add: Let_def s_def)
qed

end
