(* ===== verification/Events.thy ===== *)
theory Events
  imports CiaTiming "HOL-Library.Monad_Syntax"
begin

text \<open>
  The event tables (\<^verbatim>\<open>sources/src/events.c\<close>): five fixed events with absolute times in
  \<^verbatim>\<open>eventtab\<close>, run by \<^verbatim>\<open>do_cycles_slow\<close> as the clock passes them, and twelve slots for events queued
  at run time in \<^verbatim>\<open>eventtab2\<close>, run by \<^verbatim>\<open>MISC_handler\<close>. The handlers are the rest of the
  emulator and a parameter: \<open>h i\<close> for the fixed events (\<open>None\<close> for a null pointer) and \<open>h2 f d\<close>
  for a queued function \<open>f\<close> with data \<open>d\<close>; a handler that aborts gives \<open>None\<close>. \<open>dev\<close> is the
  state they act on besides the tables. The waits for the host's display (\<^verbatim>\<open>is_syncline\<close>) and
  the thread mode are left out: the definitions are the code with both off.

  Shown: with handlers that keep to their contract (the locale \<open>event_handlers\<close>) no event is ever late, in
  particular that of the 8520 timers, and queueing an event sets the table for the slot that is due first.
\<close>

section \<open>Tables\<close>

record ev =
  active :: bool
  ev_time :: int
  ev_old :: int

record ev2 =
  active2 :: bool
  ev2_time :: int
  ev2_data :: nat
  ev2_handler :: nat
  ev2_next :: "nat option"

record 'd events =
  eventtab :: "ev list"
  eventtab2 :: "ev2 list"
  nextevent :: int
  currcycle :: int
  pissoff :: int
  last_event2 :: "nat option"
  next_slot :: nat
  recursive :: bool
  dorecheck :: bool
  dev :: 'd

definition EVT_MAX :: int where "EVT_MAX = 0x7fffffffffffffff"
definition ev_cia :: nat where "ev_cia = 0"
definition ev_misc :: nat where "ev_misc = 3"
definition ev_max :: nat where "ev_max = 5"
definition ev2_misc :: nat where "ev2_misc = 1"
definition ev2_max :: nat where "ev2_max = 12"

section \<open>The fixed events\<close>

definition soonest :: "(bool \<times> int) list \<Rightarrow> int \<Rightarrow> int" where
  "soonest tab now = fold (\<lambda>(a, t) m. if a \<and> t - now < m then t - now else m) tab EVT_MAX"

definition events_schedule :: "'d events \<Rightarrow> 'd events" where
  "events_schedule s =
     (let mintime = soonest (map (\<lambda>e. (active e, ev_time e)) (eventtab s)) (currcycle s)
      in s\<lparr>nextevent := (if mintime < EVT_MAX then currcycle s + mintime else EVT_MAX)\<rparr>)"

type_synonym 'd handlers = "nat \<Rightarrow> ('d events \<Rightarrow> 'd events option) option"

fun run_due :: "'d handlers \<Rightarrow> nat list \<Rightarrow> 'd events \<Rightarrow> 'd events option" where
  "run_due h [] s = Some s"
| "run_due h (i # is) s =
     (if active (eventtab s ! i) \<and> ev_time (eventtab s ! i) = currcycle s then
        (case h i of
           None \<Rightarrow> run_due h is (s\<lparr>eventtab := (eventtab s)[i := (eventtab s ! i)\<lparr>active := False\<rparr>]\<rparr>)
         | Some f \<Rightarrow> do { s \<leftarrow> f s; run_due h is s })
      else run_due h is s)"

partial_function (option) do_cycles_loop :: "'d handlers \<Rightarrow> int \<Rightarrow> 'd events \<Rightarrow> 'd events option" where
  [code]: "do_cycles_loop h n s =
     (if nextevent s - currcycle s \<le> n then
        do {
          s' \<leftarrow> run_due h [0..<ev_max] (s\<lparr>currcycle := nextevent s\<rparr>);
          do_cycles_loop h (n - (nextevent s - currcycle s)) (events_schedule s') }
      else Some (s\<lparr>currcycle := currcycle s + n\<rparr>))"

definition do_cycles_slow :: "'d handlers \<Rightarrow> int \<Rightarrow> 'd events \<Rightarrow> 'd events option" where
  "do_cycles_slow h cycles_to_add s =
     (let p = pissoff s - cycles_to_add
      in if p \<ge> 0 then Some (s\<lparr>pissoff := p\<rparr>)
         else do_cycles_loop h (- p) (s\<lparr>pissoff := 0\<rparr>))"

section \<open>The queued events\<close>

type_synonym 'd handlers2 = "nat \<Rightarrow> nat \<Rightarrow> 'd events \<Rightarrow> 'd events option"

definition ev2_off :: "nat \<Rightarrow> 'd events \<Rightarrow> 'd events" where
  "ev2_off i s = s\<lparr>eventtab2 := (eventtab2 s)[i := (eventtab2 s ! i)\<lparr>active2 := False\<rparr>]\<rparr>"

text \<open>One due slot: its handler, then the one chained behind it for the next cycle.\<close>

definition run_slot :: "'d handlers2 \<Rightarrow> nat \<Rightarrow> 'd events \<Rightarrow> 'd events option" where
  "run_slot h2 i s =
     (let e = eventtab2 s ! i in do {
        s \<leftarrow> h2 (ev2_handler e) (ev2_data e) (ev2_off i s);
        (case ev2_next (eventtab2 s ! i) of
           None \<Rightarrow> Some s
         | Some j \<Rightarrow>
             let s = s\<lparr>eventtab2 := (eventtab2 s)[i := (eventtab2 s ! i)\<lparr>ev2_next := None\<rparr>]\<rparr>; e2 = eventtab2 s ! j
             in if active2 e2 \<and> ev2_time e2 = ev2_time (eventtab2 s ! i) + 1
                then h2 (ev2_handler e2) (ev2_data e2) (ev2_off j s)
                else Some s) })"

fun misc_pass :: "'d handlers2 \<Rightarrow> int \<Rightarrow> nat list \<Rightarrow> int \<Rightarrow> bool \<Rightarrow> 'd events \<Rightarrow> (int \<times> bool \<times> 'd events) option" where
  "misc_pass h2 ct [] mintime recheck s = Some (mintime, recheck, s)"
| "misc_pass h2 ct (i # is) mintime recheck s =
     (if active2 (eventtab2 s ! i) then
        (if ev2_time (eventtab2 s ! i) = ct then do {
           s \<leftarrow> run_slot h2 i s;
           if dorecheck s \<or> active2 (eventtab2 s ! i)
           then misc_pass h2 ct is mintime True (s\<lparr>dorecheck := False\<rparr>)
           else misc_pass h2 ct is mintime recheck s }
         else
           let t = ev2_time (eventtab2 s ! i) - ct
           in misc_pass h2 ct is (if t < mintime then t else mintime) recheck s)
      else misc_pass h2 ct is mintime recheck s)"

partial_function (option) misc_loop :: "'d handlers2 \<Rightarrow> int \<Rightarrow> 'd events \<Rightarrow> (int \<times> 'd events) option" where
  [code]: "misc_loop h2 ct s =
     do { (mintime, recheck, s) \<leftarrow> misc_pass h2 ct [0..<ev2_max] EVT_MAX False s;
          if recheck then misc_loop h2 ct s else Some (mintime, s) }"

definition MISC_handler :: "'d handlers2 \<Rightarrow> 'd events \<Rightarrow> 'd events option" where
  "MISC_handler h2 s =
     (if recursive s then Some (s\<lparr>dorecheck := True\<rparr>)
      else
        let ct = currcycle s;
            s = s\<lparr>recursive := True, eventtab := (eventtab s)[ev_misc := (eventtab s ! ev_misc)\<lparr>active := False\<rparr>]\<rparr>
        in do {
          (mintime, s) \<leftarrow> misc_loop h2 ct s;
          let s = (if mintime < EVT_MAX
                   then events_schedule (s\<lparr>eventtab := (eventtab s)[ev_misc := \<lparr>active = True, ev_time = ct + mintime, ev_old = ct\<rparr>]\<rparr>)
                   else s);
          Some (s\<lparr>recursive := False\<rparr>) })"

text \<open>
  Queueing a function: the first free slot from where the last one was found, or one that already
  holds the same event; with all slots in use the earliest event is run at once.
\<close>

definition earliest :: "int \<Rightarrow> ev2 list \<Rightarrow> nat option" where
  "earliest ct tab =
     snd (fold (\<lambda>i (m, k). if active2 (tab ! i) \<and> ev2_time (tab ! i) - ct < m then (ev2_time (tab ! i) - ct, Some i) else (m, k))
       [0..<ev2_max] (EVT_MAX, None))"

partial_function (option) find_slot :: "'d handlers2 \<Rightarrow> int \<Rightarrow> nat \<Rightarrow> nat \<Rightarrow> nat \<Rightarrow> 'd events \<Rightarrow> (nat \<times> 'd events) option" where
  [code]: "find_slot h2 et func data no s =
     (let e = eventtab2 s ! no
      in if \<not> active2 e then Some (no, s)
         else if ev2_time e = et \<and> ev2_handler e = func \<and> ev2_data e = data then Some (no, s)
         else
           let no = no + 1; no = (if no = ev2_max then ev2_misc else no)
           in if no = next_slot s then
                (case earliest (currcycle s) (eventtab2 s) of
                   None \<Rightarrow> find_slot h2 et func data no s
                 | Some i \<Rightarrow>
                     do { s \<leftarrow> h2 (ev2_handler (eventtab2 s ! i)) (ev2_data (eventtab2 s ! i)) (ev2_off i s);
                          find_slot h2 et func data no s })
              else find_slot h2 et func data no s)"

definition chain_slot :: "nat \<Rightarrow> int \<Rightarrow> 'd events \<Rightarrow> int \<times> 'd events" where
  "chain_slot no et s =
     (case last_event2 s of
        Some l \<Rightarrow>
          (if active2 (eventtab2 s ! l) \<and> l \<noteq> no \<and> et = ev2_time (eventtab2 s ! l)
           then (et + 1, s\<lparr>eventtab2 := (eventtab2 s)[l := (eventtab2 s ! l)\<lparr>ev2_next := Some no\<rparr>]\<rparr>)
           else (et, s))
      | None \<Rightarrow> (et, s))"

definition event2_newevent_xx :: "'d handlers2 \<Rightarrow> nat option \<Rightarrow> int \<Rightarrow> nat \<Rightarrow> nat \<Rightarrow> 'd events \<Rightarrow> 'd events option" where
  "event2_newevent_xx h2 slot t data func s =
     (let et = t + currcycle s in do {
        (no, s) \<leftarrow> (case slot of
           Some no \<Rightarrow> Some (no, s)
         | None \<Rightarrow> do { (no, s) \<leftarrow> find_slot h2 et func data (next_slot s) s; Some (no, s\<lparr>next_slot := no\<rparr>) });
        let (et, s) = chain_slot no et s;
        let e = (eventtab2 s ! no)\<lparr>active2 := True, ev2_time := et, ev2_handler := func, ev2_data := data\<rparr>;
        MISC_handler h2 (s\<lparr>eventtab2 := (eventtab2 s)[no := e], last_event2 := Some no\<rparr>) })"

definition event2_newevent_xx_ce :: "bool \<Rightarrow> 'd handlers2 \<Rightarrow> int \<Rightarrow> nat \<Rightarrow> nat \<Rightarrow> 'd events \<Rightarrow> 'd events option" where
  "event2_newevent_xx_ce cpu_memory_cycle_exact h2 t data func s =
     (if \<not> cpu_memory_cycle_exact then h2 func data s else event2_newevent_xx h2 None t data func s)"

definition event2_newevent_x :: "'d handlers2 \<Rightarrow> nat option \<Rightarrow> int \<Rightarrow> nat \<Rightarrow> nat \<Rightarrow> 'd events \<Rightarrow> 'd events option" where
  "event2_newevent_x h2 no t data func s =
     (if t \<le> 0 then h2 func data s else event2_newevent_xx h2 no (t * CYCLE_UNIT) data func s)"

definition event2_newevent :: "'d handlers2 \<Rightarrow> nat \<Rightarrow> int \<Rightarrow> nat \<Rightarrow> 'd events \<Rightarrow> 'd events option" where
  "event2_newevent h2 no t data s = event2_newevent_x h2 (Some no) t data (ev2_handler (eventtab2 s ! no)) s"

definition event2_newevent2 :: "'d handlers2 \<Rightarrow> int \<Rightarrow> nat \<Rightarrow> nat \<Rightarrow> 'd events \<Rightarrow> 'd events option" where
  "event2_newevent2 h2 t data func s = event2_newevent_x h2 None t data func s"

definition event2_remevent :: "nat \<Rightarrow> 'd events \<Rightarrow> 'd events" where
  "event2_remevent no s = ev2_off no s"

definition event2_newevent_x_replace_exists :: "'d handlers2 \<Rightarrow> int \<Rightarrow> nat \<Rightarrow> nat \<Rightarrow> 'd events \<Rightarrow> 'd events option" where
  "event2_newevent_x_replace_exists h2 t data func s =
     (case find (\<lambda>i. active2 (eventtab2 s ! i) \<and> ev2_handler (eventtab2 s ! i) = func) [0..<ev2_max] of
        None \<Rightarrow> Some s
      | Some i \<Rightarrow>
          let s = ev2_off i s
          in if t \<le> 0 then h2 func data s else event2_newevent_xx h2 None (t * CYCLE_UNIT) data func s)"

definition event2_newevent_x_remove :: "nat \<Rightarrow> 'd events \<Rightarrow> 'd events" where
  "event2_newevent_x_remove func s =
     s\<lparr>eventtab2 := map (\<lambda>e. if active2 e \<and> ev2_handler e = func then e\<lparr>active2 := False\<rparr> else e) (eventtab2 s)\<rparr>"

definition event2_newevent_x_replace :: "'d handlers2 \<Rightarrow> int \<Rightarrow> nat \<Rightarrow> nat \<Rightarrow> 'd events \<Rightarrow> 'd events option" where
  "event2_newevent_x_replace h2 t data func s =
     (let s = event2_newevent_x_remove func s
      in if t \<le> 0 then h2 func data s else event2_newevent_xx h2 None (t * CYCLE_UNIT) data func s)"

definition clear_events :: "'d events \<Rightarrow> 'd events" where
  "clear_events s =
     s\<lparr>nextevent := EVT_MAX,
       eventtab := map (\<lambda>e. e\<lparr>active := False, ev_old := currcycle s\<rparr>) (eventtab s),
       eventtab2 := map (\<lambda>e. e\<lparr>active2 := False\<rparr>) (eventtab2 s)\<rparr>"

section \<open>No event is late\<close>

text \<open>The table has its five entries, none in the past, or all strictly ahead; and the next event is known.\<close>

definition ahead :: "'d events \<Rightarrow> bool" where
  "ahead s \<longleftrightarrow> length (eventtab s) = ev_max \<and> (\<forall>i<ev_max. active (eventtab s ! i) \<longrightarrow> currcycle s \<le> ev_time (eventtab s ! i))"

definition all_future :: "'d events \<Rightarrow> bool" where
  "all_future s \<longleftrightarrow> length (eventtab s) = ev_max \<and> (\<forall>i<ev_max. active (eventtab s ! i) \<longrightarrow> currcycle s < ev_time (eventtab s ! i))"

definition next_known :: "'d events \<Rightarrow> bool" where
  "next_known s \<longleftrightarrow> (\<forall>i<ev_max. active (eventtab s ! i) \<longrightarrow> nextevent s \<le> ev_time (eventtab s ! i)) \<and>
     (nextevent s < EVT_MAX \<longrightarrow> (\<exists>i<ev_max. active (eventtab s ! i) \<and> ev_time (eventtab s ! i) = nextevent s))"

lemma soonest_le_acc: "fold (\<lambda>(a, t) m. if a \<and> t - now < m then t - now else m) tab m \<le> m" for m :: int
proof (induction tab arbitrary: m)
  case (Cons e tab)
  obtain a t where e: "e = (a, t)" by fastforce
  show ?case using Cons [of m] Cons [of "t - now"] by (auto simp: e)
qed simp

lemma soonest_le: "(True, t) \<in> set tab \<Longrightarrow> fold (\<lambda>(a, t) m. if a \<and> t - now < m then t - now else m) tab m \<le> t - now" for m :: int
proof (induction tab arbitrary: m)
  case (Cons e tab)
  then show ?case
    using soonest_le_acc [of now tab "t - now"] soonest_le_acc [of now tab m]
    by (cases e) (auto simp: not_less intro: order_trans)
qed simp

lemma soonest_mem:
  "fold (\<lambda>(a, t) m. if a \<and> t - now < m then t - now else m) tab m < m \<Longrightarrow>
   \<exists>t. (True, t) \<in> set tab \<and> fold (\<lambda>(a, t) m. if a \<and> t - now < m then t - now else m) tab m = t - now" for m :: int
proof (induction tab arbitrary: m)
  case (Cons e tab)
  obtain a t where e: "e = (a, t)" by fastforce
  define m' where "m' = (if a \<and> t - now < m then t - now else m)"
  have f: "fold (\<lambda>(a, t) m. if a \<and> t - now < m then t - now else m) (e # tab) m =
      fold (\<lambda>(a, t) m. if a \<and> t - now < m then t - now else m) tab m'" by (simp add: e m'_def)
  consider "fold (\<lambda>(a, t) m. if a \<and> t - now < m then t - now else m) tab m' < m'"
    | "fold (\<lambda>(a, t) m. if a \<and> t - now < m then t - now else m) tab m' = m'"
    using soonest_le_acc [of now tab m'] by linarith
  then show ?case
  proof cases
    case 1
    from Cons.IH [OF this] show ?thesis unfolding f by auto
  next
    case 2
    then have "m' < m" using Cons.prems f by simp
    then have "a" "m' = t - now" by (auto simp: m'_def split: if_splits)
    then show ?thesis unfolding f 2 by (auto simp: e)
  qed
qed simp

lemma events_schedule_known:
  assumes "length (eventtab s) = ev_max" "\<forall>i<ev_max. active (eventtab s ! i) \<longrightarrow> ev_time (eventtab s ! i) - currcycle s < EVT_MAX"
    "0 \<le> currcycle s"
  shows "next_known (events_schedule s)"
proof -
  let ?tab = "map (\<lambda>e. (active e, ev_time e)) (eventtab s)"
  define m where "m = soonest ?tab (currcycle s)"
  have mem: "(True, t) \<in> set ?tab \<longleftrightarrow> (\<exists>i<ev_max. active (eventtab s ! i) \<and> ev_time (eventtab s ! i) = t)" for t
    unfolding in_set_conv_nth length_map assms(1) by (rule ex_cong1) (auto simp: assms(1))
  have le: "m \<le> t - currcycle s" if "(True, t) \<in> set ?tab" for t
    using soonest_le [OF that] by (simp add: m_def soonest_def)
  have n: "nextevent (events_schedule s) = (if m < EVT_MAX then currcycle s + m else EVT_MAX)"
    by (simp add: events_schedule_def m_def Let_def)
  have same: "eventtab (events_schedule s) = eventtab s" "currcycle (events_schedule s) = currcycle s"
    by (simp_all add: events_schedule_def Let_def)
  have "nextevent (events_schedule s) \<le> ev_time (eventtab s ! i)" if "i < ev_max" "active (eventtab s ! i)" for i
    using le [of "ev_time (eventtab s ! i)"] mem [of "ev_time (eventtab s ! i)"] that assms(2) n by fastforce
  moreover have "\<exists>i<ev_max. active (eventtab s ! i) \<and> ev_time (eventtab s ! i) = nextevent (events_schedule s)"
    if "nextevent (events_schedule s) < EVT_MAX"
  proof -
    have "m < EVT_MAX" using that n by (auto split: if_splits)
    then obtain t where "(True, t) \<in> set ?tab" "m = t - currcycle s"
      using soonest_mem [of "currcycle s" ?tab EVT_MAX] by (auto simp: m_def soonest_def)
    then show ?thesis using mem [of t] n \<open>m < EVT_MAX\<close> by auto
  qed
  ultimately show ?thesis by (simp add: next_known_def same)
qed

text \<open>
  What the fixed handlers owe the table. Called for its due event a handler keeps the invariant and
  the clock and leaves its event off or in the future; another event it may only move into the future.
\<close>

locale event_handlers =
  fixes h :: "'d handlers"
    and inv :: "'d events \<Rightarrow> bool"
  assumes handler: "inv s \<Longrightarrow> ahead s \<Longrightarrow> i < ev_max \<Longrightarrow> active (eventtab s ! i) \<Longrightarrow> ev_time (eventtab s ! i) = currcycle s \<Longrightarrow>
      h i = Some f \<Longrightarrow>
      \<exists>s'. f s = Some s' \<and> inv s' \<and> currcycle s' = currcycle s \<and> length (eventtab s') = ev_max \<and>
        (active (eventtab s' ! i) \<longrightarrow> currcycle s < ev_time (eventtab s' ! i)) \<and>
        (\<forall>j<ev_max. eventtab s' ! j = eventtab s ! j \<or> \<not> active (eventtab s' ! j) \<or> currcycle s < ev_time (eventtab s' ! j))"
    and inv_null: "inv s \<Longrightarrow> i < ev_max \<Longrightarrow> h i = None \<Longrightarrow>
      inv (s\<lparr>eventtab := (eventtab s)[i := (eventtab s ! i)\<lparr>active := False\<rparr>]\<rparr>)"
    and inv_clock: "inv s \<Longrightarrow> currcycle s \<le> t \<Longrightarrow> (\<forall>i<ev_max. active (eventtab s ! i) \<longrightarrow> t \<le> ev_time (eventtab s ! i)) \<Longrightarrow>
      inv (s\<lparr>currcycle := t\<rparr>)"
    and inv_next: "inv s \<Longrightarrow> inv (s\<lparr>nextevent := t\<rparr>)"
    and inv_pissoff: "inv s \<Longrightarrow> inv (s\<lparr>pissoff := p\<rparr>)"
    and inv_range: "inv s \<Longrightarrow> i < ev_max \<Longrightarrow> active (eventtab s ! i) \<Longrightarrow> ev_time (eventtab s ! i) - currcycle s < EVT_MAX"
begin

lemma run_due_total:
  assumes "inv s" "ahead s" "set is \<subseteq> {..<ev_max}" "distinct is"
  shows "\<exists>s'. run_due h is s = Some s' \<and> inv s' \<and> currcycle s' = currcycle s \<and> length (eventtab s') = ev_max \<and>
    (\<forall>j<ev_max. j \<in> set is \<or> eventtab s' ! j \<noteq> eventtab s ! j \<longrightarrow> active (eventtab s' ! j) \<longrightarrow> currcycle s < ev_time (eventtab s' ! j))"
  using assms
proof (induction "is" arbitrary: s)
  case Nil
  then show ?case by (auto simp: ahead_def)
next
  case (Cons i "is")
  have i: "i < ev_max" "i \<notin> set is" using Cons.prems by auto
  have sub: "set is \<subseteq> {..<ev_max}" "distinct is" using Cons.prems by auto
  define due where "due \<longleftrightarrow> active (eventtab s ! i) \<and> ev_time (eventtab s ! i) = currcycle s"
  obtain s1 where s1: "run_due h (i # is) s = run_due h is s1" "inv s1" "currcycle s1 = currcycle s" "length (eventtab s1) = ev_max"
      "active (eventtab s1 ! i) \<longrightarrow> currcycle s < ev_time (eventtab s1 ! i)"
      "\<forall>j<ev_max. eventtab s1 ! j = eventtab s ! j \<or> \<not> active (eventtab s1 ! j) \<or> currcycle s < ev_time (eventtab s1 ! j)"
  proof (cases due)
    case False
    then show thesis
      using that [of s] Cons.prems i by (auto simp: due_def ahead_def)
  next
    case True
    show thesis
    proof (cases "h i")
      case None
      then show thesis
        using that [of "s\<lparr>eventtab := (eventtab s)[i := (eventtab s ! i)\<lparr>active := False\<rparr>]\<rparr>"] True Cons.prems i inv_null [OF _ i(1) None]
        by (auto simp: due_def ahead_def nth_list_update)
    next
      case (Some f)
      then obtain s' where "f s = Some s'" "inv s'" "currcycle s' = currcycle s" "length (eventtab s') = ev_max"
        "active (eventtab s' ! i) \<longrightarrow> currcycle s < ev_time (eventtab s' ! i)"
        "\<forall>j<ev_max. eventtab s' ! j = eventtab s ! j \<or> \<not> active (eventtab s' ! j) \<or> currcycle s < ev_time (eventtab s' ! j)"
        using handler [OF Cons.prems(1,2) i(1)] True by (auto simp: due_def)
      then show thesis
        using that [of s'] True Some by (simp add: due_def)
    qed
  qed
  have "ahead s1"
    unfolding ahead_def
  proof (intro conjI allI impI)
    fix j
    assume j: "j < ev_max" "active (eventtab s1 ! j)"
    then consider "eventtab s1 ! j = eventtab s ! j" | "currcycle s < ev_time (eventtab s1 ! j)" using s1(6) by blast
    then show "currcycle s1 \<le> ev_time (eventtab s1 ! j)"
      by cases (use Cons.prems(2) j s1(3) in \<open>auto simp: ahead_def\<close>)
  qed (rule s1(4))
  from Cons.IH [OF s1(2) this sub] obtain s' where s': "run_due h is s1 = Some s'" "inv s'" "currcycle s' = currcycle s1"
      "length (eventtab s') = ev_max"
      "\<forall>j<ev_max. j \<in> set is \<or> eventtab s' ! j \<noteq> eventtab s1 ! j \<longrightarrow> active (eventtab s' ! j) \<longrightarrow> currcycle s1 < ev_time (eventtab s' ! j)"
    by blast
  have "currcycle s < ev_time (eventtab s' ! j)"
    if j: "j < ev_max" "j \<in> set (i # is) \<or> eventtab s' ! j \<noteq> eventtab s ! j" "active (eventtab s' ! j)" for j
  proof (cases "j \<in> set is \<or> eventtab s' ! j \<noteq> eventtab s1 ! j")
    case True
    then show ?thesis using s'(5) j s1(3) by auto
  next
    case False
    then have "eventtab s' ! j = eventtab s1 ! j" "j = i \<or> eventtab s1 ! j \<noteq> eventtab s ! j" using j(2) by auto
    then show ?thesis using s1(5,6) j by auto
  qed
  then show ?case using s1(1,3) s' by (intro exI [of _ s']) auto
qed

text \<open>The loop ends, after exactly the cycles asked for, with every event still in the future.\<close>

lemma do_cycles_loop_total:
  assumes "inv s" "all_future s" "next_known s" "0 \<le> n" "0 \<le> currcycle s" "currcycle s + n < EVT_MAX"
  shows "\<exists>s'. do_cycles_loop h n s = Some s' \<and> inv s' \<and> all_future s' \<and> next_known s' \<and> currcycle s' = currcycle s + n"
  using assms
proof (induction "nat n" arbitrary: n s rule: less_induct)
  case less
  show ?case
  proof (cases "nextevent s - currcycle s \<le> n")
    case False
    then have "\<forall>i<ev_max. active (eventtab s ! i) \<longrightarrow> currcycle s + n < ev_time (eventtab s ! i)"
      using less.prems(3) by (fastforce simp: next_known_def)
    moreover from this have "inv (s\<lparr>currcycle := currcycle s + n\<rparr>)"
      using less.prems(1,4) by (intro inv_clock) auto
    ultimately show ?thesis
      using False less.prems by (simp add: do_cycles_loop.simps all_future_def next_known_def)
  next
    case True
    let ?s = "s\<lparr>currcycle := nextevent s\<rparr>"
    have "nextevent s < EVT_MAX" using True less.prems(6) by linarith
    then have gt: "currcycle s < nextevent s"
      using less.prems(2,3) by (auto simp: next_known_def all_future_def)
    have le: "\<forall>i<ev_max. active (eventtab s ! i) \<longrightarrow> nextevent s \<le> ev_time (eventtab s ! i)"
      using less.prems(3) by (simp add: next_known_def)
    have inv: "inv ?s" using less.prems(1) gt le by (intro inv_clock) auto
    have "ahead ?s" using less.prems(2) le by (simp add: ahead_def all_future_def)
    then obtain s1 where s1: "run_due h [0..<ev_max] ?s = Some s1" "inv s1" "currcycle s1 = nextevent s" "length (eventtab s1) = ev_max"
        "\<forall>j<ev_max. active (eventtab s1 ! j) \<longrightarrow> nextevent s < ev_time (eventtab s1 ! j)"
      using run_due_total [OF inv, of "[0..<ev_max]"] by (auto simp: atLeast0LessThan)
    let ?t = "events_schedule s1"
    have t: "eventtab ?t = eventtab s1" "currcycle ?t = nextevent s" "inv ?t"
      using s1(2,3) inv_next by (auto simp: events_schedule_def Let_def)
    have fut: "all_future ?t" using s1 t by (simp add: all_future_def)
    have "\<forall>i<ev_max. active (eventtab s1 ! i) \<longrightarrow> ev_time (eventtab s1 ! i) - currcycle s1 < EVT_MAX"
      using inv_range [OF s1(2)] by blast
    moreover have "0 \<le> currcycle s1" using s1(3) gt less.prems(5) by linarith
    ultimately have known: "next_known ?t" using events_schedule_known [OF s1(4)] by blast
    have "\<exists>s'. do_cycles_loop h (n - (nextevent s - currcycle s)) ?t = Some s' \<and> inv s' \<and> all_future s' \<and> next_known s' \<and>
        currcycle s' = currcycle ?t + (n - (nextevent s - currcycle s))"
      using True gt less.prems t by (intro less.hyps [OF _ t(3) fut known]) auto
    then show ?thesis
      using True s1(1) t(2) by (subst do_cycles_loop.simps) auto
  qed
qed

end

section \<open>The timers in the table\<close>

text \<open>
  The first fixed event is that of the 8520s. The state the handlers act on is the two chips and
  whatever else the machine has, \<open>'r\<close>: \<open>cia_of\<close> gives the chips the times of their table entry, and \<open>cia_event\<close> is \<^verbatim>\<open>CIA_handler\<close> with the entry written back and the table scheduled.
\<close>

definition cia_of :: "(cia_sys \<times> 'r) events \<Rightarrow> cia_sys" where
  "cia_of s = (fst (dev s))\<lparr>oldcycles := ev_old (eventtab s ! ev_cia), evtime := ev_time (eventtab s ! ev_cia),
     ev_active := active (eventtab s ! ev_cia)\<rparr>"

definition now :: "cia_env \<Rightarrow> 'd events \<Rightarrow> cia_env" where
  "now e s = e\<lparr>get_cycles := currcycle s\<rparr>"

definition put_cia :: "cia_sys \<Rightarrow> (cia_sys \<times> 'r) events \<Rightarrow> (cia_sys \<times> 'r) events" where
  "put_cia c s = s\<lparr>dev := (c, snd (dev s)), eventtab := (eventtab s)[ev_cia := \<lparr>active = ev_active c, ev_time = evtime c, ev_old = oldcycles c\<rparr>]\<rparr>"

definition cia_event :: "cia_env \<Rightarrow> (cia_sys \<times> 'r) events \<Rightarrow> (cia_sys \<times> 'r) events option" where
  "cia_event e s = map_option (\<lambda>c. events_schedule (put_cia c s)) (CIA_handler (now e s) (cia_of s))"

definition cia_handlers :: "cia_env \<Rightarrow> (cia_sys \<times> 'r) handlers \<Rightarrow> (cia_sys \<times> 'r) handlers" where
  "cia_handlers e g i = (if i = ev_cia then Some (cia_event e) else g i)"

definition cia_table_inv :: "(cia_sys \<times> 'r) events \<Rightarrow> bool" where
  "cia_table_inv s \<longleftrightarrow> cia_inv (cia_of s) \<and> ev_old (eventtab s ! ev_cia) \<le> currcycle s \<and> length (eventtab s) = ev_max \<and>
     (\<forall>i<ev_max. active (eventtab s ! i) \<longrightarrow> ev_time (eventtab s ! i) - currcycle s < EVT_MAX)"

text \<open>
  What another part of the machine may do to the chips in one cycle: any number of the actions of a run (register
  accesses, TOD pulses, interrupt and serial lines, the timer handler itself), between them any change that leaves
  timers and table entry alone.
\<close>

inductive chip_work :: "int \<Rightarrow> cia_sys \<Rightarrow> cia_sys \<Rightarrow> bool" for t s0 where
  work_none: "chip_work t s0 s0"
| work_act: "chip_work t s0 s \<Longrightarrow> get_cycles e = t \<Longrightarrow> cia_act e a s = Some s' \<Longrightarrow> chip_work t s0 s'"
| work_other: "chip_work t s0 s \<Longrightarrow> timers s' = timers s \<Longrightarrow> chip_work t s0 s'"

text \<open>
  The other fixed handlers: called when due they return in the same cycle; they work on the chips in the way above,
  may set, move into the future or stop any other event, and leave their own in the future or off.
\<close>

definition polite :: "(cia_sys \<times> 'r) handlers \<Rightarrow> bool" where
  "polite g \<longleftrightarrow> (\<forall>i f s. g i = Some f \<longrightarrow> i \<noteq> ev_cia \<longrightarrow> i < ev_max \<longrightarrow> cia_table_inv s \<longrightarrow> ahead s \<longrightarrow>
     active (eventtab s ! i) \<longrightarrow> ev_time (eventtab s ! i) = currcycle s \<longrightarrow>
     (\<exists>s'. f s = Some s' \<and> chip_work (currcycle s) (cia_of s) (cia_of s') \<and> currcycle s' = currcycle s \<and> length (eventtab s') = ev_max \<and>
        (\<forall>j<ev_max. j \<noteq> ev_cia \<longrightarrow> j \<noteq> i \<and> eventtab s' ! j = eventtab s ! j \<or> \<not> active (eventtab s' ! j) \<or>
           currcycle s < ev_time (eventtab s' ! j) \<and> ev_time (eventtab s' ! j) - currcycle s < EVT_MAX)))"

lemma ev_consts [simp]: "ev_cia < ev_max" "0 < ev_max"
  by (simp_all add: ev_cia_def ev_max_def)

lemma fold_earlier_cases: "fold earlier vs m = m \<or> Some (fold earlier vs m) \<in> set vs"
proof (induction vs arbitrary: m)
  case (Cons v vs)
  have "earlier v m = m \<or> v = Some (earlier v m)" by (auto simp: earlier_def split: option.splits)
  then show ?case using Cons [of "earlier v m"] by auto
qed simp

lemma service_time_pos: "service_time b (due m t) = Some v \<Longrightarrow> 0 < v"
  using due_pos [of m t] by (auto simp: service_time_def cap_time_def DIV10_val split: option.splits if_splits)

lemma chip_times_pos:
  assumes "chip_ok c"
  shows "\<exists>va vb. chip_times c = Some [va, vb] \<and> (\<forall>v. va = Some v \<or> vb = Some v \<longrightarrow> 0 < v)"
proof -
  obtain va vb ba bb ta' tb' ma mb where v: "chip_times c = Some [va, vb]" "va = service_time ba (due ma ta')" "vb = service_time bb (due mb tb')"
    using chip_times_ok [OF assms] by blast
  show ?thesis using v(1) service_time_pos v(2,3) by (intro exI [of _ va] exI [of _ vb]) (metis (full_types))
qed

lemma CIA_calctimers_future:
  assumes "sys_ok s" "CIA_calctimers e s = Some s'" "ev_active s'"
  shows "get_cycles e < evtime s'" "evtime s' - get_cycles e < EVT_MAX"
proof -
  obtain va vb where a: "chip_times (ciaa s) = Some [va, vb]" "\<forall>v. va = Some v \<or> vb = Some v \<longrightarrow> 0 < v"
    using chip_times_pos assms(1) unfolding sys_ok_def by metis
  obtain vc vd where b: "chip_times (ciab s) = Some [vc, vd]" "\<forall>v. vc = Some v \<or> vd = Some v \<longrightarrow> 0 < v"
    using chip_times_pos assms(1) unfolding sys_ok_def by metis
  let ?t = "ciatime [va, vb, vc, vd]"
  have "?t < MAXINT" "evtime s' = get_cycles e + ?t"
    using assms(2,3) by (auto simp: CIA_calctimers_def a(1) b(1) Let_def split: if_splits)
  moreover from this have "Some ?t \<in> set [va, vb, vc, vd]"
    using fold_earlier_cases [of "[va, vb, vc, vd]" MAXINT] by (auto simp: ciatime_def simp del: fold.simps)
  then have "0 < ?t" using a(2) b(2) by auto
  ultimately show "get_cycles e < evtime s'" "evtime s' - get_cycles e < EVT_MAX"
    by (simp_all add: MAXINT_def EVT_MAX_def)
qed

lemma cia_event_law:
  assumes "cia_table_inv s" "active (eventtab s ! ev_cia)" "ev_time (eventtab s ! ev_cia) = currcycle s"
  shows "\<exists>s'. cia_event e s = Some s' \<and> cia_table_inv s' \<and> currcycle s' = currcycle s \<and> length (eventtab s') = ev_max \<and>
    (active (eventtab s' ! ev_cia) \<longrightarrow> currcycle s < ev_time (eventtab s' ! ev_cia)) \<and>
    (\<forall>j<ev_max. j \<noteq> ev_cia \<longrightarrow> eventtab s' ! j = eventtab s ! j)"
proof -
  have on: "on_time (now e s) (cia_of s)"
    using assms by (simp add: on_time_def now_def cia_of_def cia_table_inv_def DIV10_val)
  have inv: "cia_inv (cia_of s)" using assms(1) by (simp add: cia_table_inv_def)
  obtain u where u: "CIA_update (now e s) (cia_of s) = Some u" "sys_ok u" using CIA_update_total [OF inv on] by blast
  obtain c where c: "CIA_calctimers (now e s) u = Some c" "cia_inv c" "oldcycles c = currcycle s"
    using CIA_calctimers_inv [OF u(2), of "now e s"] by (auto simp: now_def)
  have h: "CIA_handler (now e s) (cia_of s) = Some c" using u(1) c(1) by (simp add: CIA_handler_def)
  let ?s' = "events_schedule (put_cia c s)"
  have tab: "eventtab ?s' = (eventtab s)[ev_cia := \<lparr>active = ev_active c, ev_time = evtime c, ev_old = oldcycles c\<rparr>]"
    "currcycle ?s' = currcycle s" "fst (dev ?s') = c"
    by (simp_all add: events_schedule_def put_cia_def Let_def)
  have len: "length (eventtab s) = ev_max" using assms(1) by (simp add: cia_table_inv_def)
  have "cia_of ?s' = c" using len by (simp add: cia_of_def tab)
  moreover have "ev_active c \<longrightarrow> currcycle s < evtime c \<and> evtime c - currcycle s < EVT_MAX"
    using CIA_calctimers_future [OF u(2) c(1)] by (auto simp: now_def)
  ultimately show ?thesis
    using c assms(1) len
    by (intro exI [of _ ?s']) (simp add: cia_event_def h cia_table_inv_def tab nth_list_update)
qed

text \<open>Work on the chips in a cycle in which their event is not overdue leaves it as it was, off, or in the future.\<close>

definition entry :: "cia_sys \<Rightarrow> int \<times> int \<times> bool" where
  "entry s = (oldcycles s, evtime s, ev_active s)"

definition entry_kept :: "int \<Rightarrow> cia_sys \<Rightarrow> cia_sys \<Rightarrow> bool" where
  "entry_kept t s s' \<longleftrightarrow> entry s' = entry s \<or>
     oldcycles s' = t \<and> (ev_active s' \<longrightarrow> t < evtime s' \<and> evtime s' - t < EVT_MAX)"

lemma entry_kept_trans: "entry_kept t s s1 \<Longrightarrow> entry_kept t s1 s2 \<Longrightarrow> entry_kept t s s2"
  by (auto simp: entry_kept_def entry_def)

lemma entry_timers: "timers s' = timers s \<Longrightarrow> entry s' = entry s"
  by (simp add: timers_def entry_def)

lemma entry_on_time: "entry_kept (get_cycles e) s s' \<Longrightarrow> on_time e s \<Longrightarrow> on_time e s'"
  by (auto simp: entry_kept_def entry_def on_time_def DIV10_val)

lemma calctimers_entry:
  "sys_ok s \<Longrightarrow> CIA_calctimers e s = Some s' \<Longrightarrow> oldcycles s' = get_cycles e \<and>
     (ev_active s' \<longrightarrow> get_cycles e < evtime s' \<and> evtime s' - get_cycles e < EVT_MAX)"
  using CIA_calctimers_inv [of s e] CIA_calctimers_future [of s e s'] by auto

lemma entry_serial: "entry (write_ciab_serial e nd od ndir odir s) = entry s"
proof -
  have sync: "entry (CIA_sync_interrupt e num icr s) = entry s" for num icr s
    by (rule entry_timers) simp
  show ?thesis
    unfolding write_ciab_serial_def Let_def case_prod_beta
    by (cases "ndata AND ndir AND 2 \<noteq> 0") (simp_all add: sync, simp_all add: entry_def)
qed

lemma cia_act_entry:
  assumes "cia_inv s" "on_time e s" "cia_act e a s = Some s'"
  shows "entry_kept (get_cycles e) s s'"
proof (cases a)
  case Timer_event
  then obtain u where "CIA_update e s = Some u" "CIA_calctimers e u = Some s'"
    using assms(3) by (auto simp: CIA_handler_def bind_eq_Some_conv)
  then show ?thesis using calctimers_entry CIA_update_total [OF assms(1,2)] by (auto simp: entry_kept_def)
next
  case (Reg_write num reg val)
  then obtain u where "CIA_update e s = Some u" "CIA_calctimers e (WriteCIAReg e num reg val u) = Some s'"
    using assms(3) by (auto simp: cia_bus_write_def bind_eq_Some_conv)
  then show ?thesis
    using calctimers_entry [OF WriteCIAReg_ok] CIA_update_total [OF assms(1,2)] by (auto simp: entry_kept_def)
next
  case (Reg_read num reg)
  then obtain u where u: "compute_passed_time e s = Some u" "s' = snd (ReadCIAReg e num reg u)"
    using assms(3) by (auto simp: cia_bus_read_def)
  have "entry u = entry s" using compute_passed_time_total [OF assms(1,2)] u(1) by (auto simp: entry_def)
  moreover have "entry s' = entry u" unfolding u(2) by (rule entry_timers) simp
  ultimately show ?thesis by (simp add: entry_kept_def)
next
  case (Serial_lines nd od ndir odir)
  then show ?thesis using assms(3) by (auto simp: entry_kept_def entry_serial)
qed (use assms(3) in \<open>auto simp: entry_kept_def intro!: entry_timers\<close>)

lemma chip_work_kept:
  assumes "chip_work t s0 s" "cia_inv s0" "oldcycles s0 \<le> t" "ev_active s0 \<longrightarrow> t < evtime s0 + DIV10"
  shows "cia_inv s \<and> entry_kept t s0 s"
  using assms
proof (induction rule: chip_work.induct)
  case work_none
  then show ?case by (simp add: entry_kept_def)
next
  case (work_act s e a s')
  then have kept: "cia_inv s" "entry_kept t s0 s" "get_cycles e = t" by blast+
  have "on_time e s0" using work_act.prems work_act.hyps by (simp add: on_time_def)
  then have on: "on_time e s" using entry_on_time kept(2,3) by blast
  have "cia_inv s'" using cia_act_inv [OF kept(1) on, of a] work_act.hyps by auto
  moreover have "entry_kept t s s'" using cia_act_entry [OF kept(1) on] work_act.hyps kept(3) by auto
  ultimately show ?case using entry_kept_trans kept(2) by blast
next
  case (work_other s s')
  then have kept: "cia_inv s" "entry_kept t s0 s" by blast+
  have "cia_inv s'" using kept(1) cia_inv_timers [OF work_other.hyps(2)] by simp
  moreover have "entry_kept t s s'" using entry_timers [OF work_other.hyps(2)] by (simp add: entry_kept_def)
  ultimately show ?case using entry_kept_trans kept(2) by blast
qed

lemma work_law:
  assumes "cia_table_inv s" "ahead s" "chip_work (currcycle s) (cia_of s) (cia_of s')" "currcycle s' = currcycle s"
    "length (eventtab s') = ev_max"
    "\<forall>j<ev_max. j \<noteq> ev_cia \<longrightarrow> eventtab s' ! j = eventtab s ! j \<or> \<not> active (eventtab s' ! j) \<or>
       currcycle s < ev_time (eventtab s' ! j) \<and> ev_time (eventtab s' ! j) - currcycle s < EVT_MAX"
  shows "cia_table_inv s'" "eventtab s' ! ev_cia = eventtab s ! ev_cia \<or> \<not> active (eventtab s' ! ev_cia) \<or>
    currcycle s < ev_time (eventtab s' ! ev_cia)"
proof -
  have "active (eventtab s ! ev_cia) \<longrightarrow> currcycle s \<le> ev_time (eventtab s ! ev_cia)"
    using assms(2) ev_consts(1) unfolding ahead_def by blast
  then have k: "cia_inv (cia_of s')" "entry_kept (currcycle s) (cia_of s) (cia_of s')"
    using chip_work_kept [OF assms(3)] assms(1) by (auto simp: cia_table_inv_def cia_of_def DIV10_val)
  then consider "eventtab s' ! ev_cia = eventtab s ! ev_cia"
    | "ev_old (eventtab s' ! ev_cia) = currcycle s" "active (eventtab s' ! ev_cia) \<longrightarrow>
        currcycle s < ev_time (eventtab s' ! ev_cia) \<and> ev_time (eventtab s' ! ev_cia) - currcycle s < EVT_MAX"
    by (auto simp: entry_kept_def entry_def cia_of_def intro: ev.equality)
  note c = this
  then show "eventtab s' ! ev_cia = eventtab s ! ev_cia \<or> \<not> active (eventtab s' ! ev_cia) \<or>
      currcycle s < ev_time (eventtab s' ! ev_cia)" by cases auto
  have old: "ev_old (eventtab s' ! ev_cia) \<le> currcycle s'"
    using c assms(1,4) by cases (auto simp: cia_table_inv_def)
  have "ev_time (eventtab s' ! j) - currcycle s' < EVT_MAX" if j: "j < ev_max" "active (eventtab s' ! j)" for j
  proof (cases "j = ev_cia")
    case True
    show ?thesis
      using c
    proof cases
      case 1
      then have "active (eventtab s ! ev_cia)" using j(2) True by simp
      then have "ev_time (eventtab s ! ev_cia) - currcycle s < EVT_MAX"
        using assms(1) ev_consts(1) unfolding cia_table_inv_def by blast
      then show ?thesis using 1 True assms(4) by simp
    next
      case 2
      then show ?thesis using j(2) True assms(4) by simp
    qed
  next
    case False
    then show ?thesis using assms(1,4,6) j unfolding cia_table_inv_def by metis
  qed
  then show "cia_table_inv s'" using k(1) old assms(5) by (simp add: cia_table_inv_def)
qed

lemma cia_event_handlers:
  fixes g :: "(cia_sys \<times> 'r) handlers"
  assumes "polite g"
  shows "event_handlers (cia_handlers e g) cia_table_inv"
proof
  fix i f and s :: "(cia_sys \<times> 'r) events"
  assume s: "cia_table_inv s" "ahead s" "i < ev_max" "active (eventtab s ! i)" "ev_time (eventtab s ! i) = currcycle s"
    "cia_handlers e g i = Some f"
  show "\<exists>s'. f s = Some s' \<and> cia_table_inv s' \<and> currcycle s' = currcycle s \<and> length (eventtab s') = ev_max \<and>
        (active (eventtab s' ! i) \<longrightarrow> currcycle s < ev_time (eventtab s' ! i)) \<and>
        (\<forall>j<ev_max. eventtab s' ! j = eventtab s ! j \<or> \<not> active (eventtab s' ! j) \<or> currcycle s < ev_time (eventtab s' ! j))"
  proof (cases "i = ev_cia")
    case True
    then have f: "f = cia_event e" using s(6) by (simp add: cia_handlers_def)
    show ?thesis using cia_event_law [OF s(1), of e] s(4,5) unfolding f True by fast
  next
    case False
    then have "g i = Some f" using s(6) by (simp add: cia_handlers_def)
    then obtain s' where s': "f s = Some s'" "chip_work (currcycle s) (cia_of s) (cia_of s')" "currcycle s' = currcycle s"
        "length (eventtab s') = ev_max"
        "\<forall>j<ev_max. j \<noteq> ev_cia \<longrightarrow> j \<noteq> i \<and> eventtab s' ! j = eventtab s ! j \<or> \<not> active (eventtab s' ! j) \<or>
           currcycle s < ev_time (eventtab s' ! j) \<and> ev_time (eventtab s' ! j) - currcycle s < EVT_MAX"
      using assms False s(1-5) unfolding polite_def by blast
    then have w: "\<forall>j<ev_max. j \<noteq> ev_cia \<longrightarrow> eventtab s' ! j = eventtab s ! j \<or> \<not> active (eventtab s' ! j) \<or>
       currcycle s < ev_time (eventtab s' ! j) \<and> ev_time (eventtab s' ! j) - currcycle s < EVT_MAX" by blast
    note l = work_law [OF s(1,2) s'(2-4) w]
    have "active (eventtab s' ! i) \<longrightarrow> currcycle s < ev_time (eventtab s' ! i)" using s'(5) s(3) False by blast
    then show ?thesis using l s'(1,3,4) w by (intro exI [of _ s']) blast
  qed
next
  fix s :: "(cia_sys \<times> 'r) events" and i
  assume s: "cia_table_inv s" "i < ev_max" "cia_handlers e g i = None"
  then have "i \<noteq> ev_cia" by (auto simp: cia_handlers_def)
  then show "cia_table_inv (s\<lparr>eventtab := (eventtab s)[i := (eventtab s ! i)\<lparr>active := False\<rparr>]\<rparr>)"
    using s by (auto simp: cia_table_inv_def cia_of_def nth_list_update)
qed (auto simp: cia_table_inv_def cia_of_def)

text \<open>
  A handler of this kind, in the manner of the line handler of the custom chips: in every line of 227 cycles it performs
  a list of actions on the chips, then sets its own event for the next line.
\<close>

definition ev_hsync :: nat where "ev_hsync = 1"

definition chip_acts :: "cia_env \<Rightarrow> cia_action list \<Rightarrow> cia_sys \<Rightarrow> cia_sys option" where
  "chip_acts e acts c = foldl (\<lambda>c a. Option.bind c (cia_act e a)) (Some c) acts"

definition line_handler :: "cia_env \<Rightarrow> cia_action list \<Rightarrow> (cia_sys \<times> 'r) events \<Rightarrow> (cia_sys \<times> 'r) events option" where
  "line_handler e acts s =
     do { c \<leftarrow> chip_acts (now e s) acts (cia_of s);
          let s = put_cia c s;
          Some (events_schedule (s\<lparr>eventtab := (eventtab s)[ev_hsync :=
            \<lparr>active = True, ev_time = currcycle s + 227 * CYCLE_UNIT, ev_old = currcycle s\<rparr>]\<rparr>)) }"

definition line_handlers :: "cia_env \<Rightarrow> cia_action list \<Rightarrow> (cia_sys \<times> 'r) handlers" where
  "line_handlers e acts i = (if i = ev_hsync then Some (line_handler e acts) else None)"

lemma chip_acts_work:
  assumes "cia_inv c" "on_time e c"
  shows "\<exists>c'. chip_acts e acts c = Some c' \<and> chip_work (get_cycles e) c c'"
proof (induction acts rule: rev_induct)
  case Nil
  show ?case by (simp add: chip_acts_def chip_work.work_none)
next
  case (snoc a acts)
  then obtain c' where c': "chip_acts e acts c = Some c'" "chip_work (get_cycles e) c c'" by blast
  have "cia_inv c' \<and> entry_kept (get_cycles e) c c'"
    using chip_work_kept [OF c'(2) assms(1)] assms(2) by (auto simp: on_time_def)
  then obtain c'' where "cia_act e a c' = Some c''" using cia_act_inv entry_on_time assms(2) by blast
  then show ?case using c' chip_work.work_act [OF c'(2) refl] by (simp add: chip_acts_def)
qed

lemma line_handlers_polite: "polite (line_handlers e acts :: (cia_sys \<times> 'r) handlers)"
  unfolding polite_def
proof (intro allI impI)
  fix i and f :: "(cia_sys \<times> 'r) events \<Rightarrow> (cia_sys \<times> 'r) events option" and s :: "(cia_sys \<times> 'r) events"
  assume s: "line_handlers e acts i = Some f" "i \<noteq> ev_cia" "i < ev_max" "cia_table_inv s" "ahead s"
  then have i: "i = ev_hsync" "f = line_handler e acts" by (auto simp: line_handlers_def split: if_splits)
  have len: "length (eventtab s) = ev_max" and n: "ev_hsync < ev_max" "ev_cia \<noteq> ev_hsync"
    using s(4) by (simp_all add: cia_table_inv_def ev_hsync_def ev_max_def ev_cia_def)
  have "active (eventtab s ! ev_cia) \<longrightarrow> currcycle s \<le> ev_time (eventtab s ! ev_cia)"
    using s(5) ev_consts(1) unfolding ahead_def by blast
  then have "cia_inv (cia_of s)" "on_time (now e s) (cia_of s)"
    using s(4) by (auto simp: on_time_def now_def cia_of_def cia_table_inv_def DIV10_val)
  from chip_acts_work [OF this, of acts] obtain c where c: "chip_acts (now e s) acts (cia_of s) = Some c"
      "chip_work (currcycle s) (cia_of s) c" by (auto simp: now_def)
  define u where "u = put_cia c s"
  define s' where "s' = events_schedule (u\<lparr>eventtab := (eventtab u)[ev_hsync :=
      \<lparr>active = True, ev_time = currcycle u + 227 * CYCLE_UNIT, ev_old = currcycle u\<rparr>]\<rparr>)"
  have f: "f s = Some s'" unfolding i(2) line_handler_def c(1) by (simp add: Let_def u_def s'_def)
  have tab: "eventtab s' = (eventtab s)[ev_cia := \<lparr>active = ev_active c, ev_time = evtime c, ev_old = oldcycles c\<rparr>,
      ev_hsync := \<lparr>active = True, ev_time = currcycle s + 227 * CYCLE_UNIT, ev_old = currcycle s\<rparr>]" "currcycle s' = currcycle s"
      "fst (dev s') = c"
    by (simp_all add: s'_def u_def put_cia_def events_schedule_def Let_def)
  have "cia_of s' = c" using len n(2) ev_consts(1) by (simp add: cia_of_def tab)
  then show "\<exists>s'. f s = Some s' \<and> chip_work (currcycle s) (cia_of s) (cia_of s') \<and> currcycle s' = currcycle s \<and>
      length (eventtab s') = ev_max \<and>
      (\<forall>j<ev_max. j \<noteq> ev_cia \<longrightarrow> j \<noteq> i \<and> eventtab s' ! j = eventtab s ! j \<or> \<not> active (eventtab s' ! j) \<or>
         currcycle s < ev_time (eventtab s' ! j) \<and> ev_time (eventtab s' ! j) - currcycle s < EVT_MAX)"
    using f c(2) len n i(1)
    by (intro exI [of _ s']) (auto simp: tab nth_list_update CYCLE_UNIT_def EVT_MAX_def)
qed

interpretation cia_table: event_handlers "cia_handlers e (line_handlers e acts)" cia_table_inv for e acts
  by (rule cia_event_handlers) (rule line_handlers_polite)

text \<open>C19: The event table serves the 8520 timers in time: started with a table in which nothing is
  overdue and whose next event is known, the loop of \<^verbatim>\<open>do_cycles_slow\<close> ends, however many cycles it is asked for, after exactly those, no assertion of the timer code has failed, and at its end
  the timer event is not overdue, so that a register access made then cannot fail either. The other fixed handlers may
  be any functions on the chips, the table and the rest of the machine that, called when due, return in the same cycle, have worked on the chips by
  the actions of the chip model (\<open>cia_act\<close>) or without touching timers and their event, and leave the
  entries of the table they changed, and their own, off or in the future.\<close>

theorem timers_served_in_time:
  assumes "polite g" "cia_table_inv s" "all_future s" "next_known s" "0 \<le> n" "0 \<le> currcycle s" "currcycle s + n < EVT_MAX"
  shows "\<exists>s'. do_cycles_loop (cia_handlers e g) n s = Some s' \<and> currcycle s' = currcycle s + n \<and> all_future s' \<and> next_known s' \<and>
    cia_table_inv s' \<and> on_time (now e s') (cia_of s') \<and> (\<forall>a. \<exists>c. cia_act (now e s') a (cia_of s') = Some c \<and> sys_ok c)"
proof -
  obtain s' where s': "do_cycles_loop (cia_handlers e g) n s = Some s'" "cia_table_inv s'" "all_future s'" "next_known s'"
      "currcycle s' = currcycle s + n"
    using event_handlers.do_cycles_loop_total [OF cia_event_handlers [OF assms(1)] assms(2-7)] by blast
  have on: "on_time (now e s') (cia_of s')"
    using s'(2,3) spec [OF conjunct2 [OF s'(3) [unfolded all_future_def]], of ev_cia]
    by (auto simp: on_time_def now_def cia_of_def cia_table_inv_def DIV10_val)
  have "cia_inv (cia_of s')" using s'(2) by (simp add: cia_table_inv_def)
  then show ?thesis using s' on cia_act_inv [OF _ on] by (intro exI [of _ s']) (auto simp: cia_inv_def)
qed

theorem timers_served_in_time_witness:
  "let c = cia_zero\<lparr>ta := timer_zero\<lparr>timer := 3, latch := 5, cr := 1, inputpipe := 3\<rparr>, imask := 1\<rparr>;
       line = line_handlers env0 [Tod_line 1, Reg_write 0 4 7, Reg_read 1 13];
       s = events_schedule (put_cia (the (CIA_calctimers env0 (sys0\<lparr>ciaa := c\<rparr>)))
         \<lparr>eventtab = (replicate 5 \<lparr>active = False, ev_time = 0, ev_old = 0\<rparr>)[1 := \<lparr>active = True, ev_time = 116224, ev_old = 0\<rparr>],
            eventtab2 = [], nextevent = 0, currcycle = 0,
            pissoff = 0, last_event2 = None, next_slot = 1, recursive = False, dorecheck = False, dev = (sys0, ())\<rparr>)
   in \<exists>s'. do_cycles_loop (cia_handlers env0 line) 400000 s = Some s' \<and> on_time (now env0 s') (cia_of s')"
proof -
  define c where "c = sys0\<lparr>ciaa := cia_zero\<lparr>ta := timer_zero\<lparr>timer := 3, latch := 5, cr := 1, inputpipe := 3\<rparr>, imask := 1\<rparr>\<rparr>"
  define s where "s = put_cia (the (CIA_calctimers env0 c))
         \<lparr>eventtab = (replicate 5 \<lparr>active = False, ev_time = 0, ev_old = 0\<rparr>)[1 := \<lparr>active = True, ev_time = 116224, ev_old = 0\<rparr>],
            eventtab2 = [], nextevent = 0, currcycle = 0,
            pissoff = 0, last_event2 = None, next_slot = 1, recursive = False, dorecheck = False, dev = (sys0, ())\<rparr>"
  have ok: "sys_ok c" unfolding c_def by code_simp
  obtain c' where c': "CIA_calctimers env0 c = Some c'" "cia_inv c'" "oldcycles c' = get_cycles env0"
    using CIA_calctimers_inv [OF ok, of env0] by blast
  have z: "get_cycles env0 = 0" by code_simp
  have s: "eventtab s = \<lparr>active = ev_active c', ev_time = evtime c', ev_old = oldcycles c'\<rparr> #
      \<lparr>active = True, ev_time = 116224, ev_old = 0\<rparr> # replicate 3 \<lparr>active = False, ev_time = 0, ev_old = 0\<rparr>"
    "currcycle s = 0" "dev s = (c', ())"
    by (simp_all add: s_def put_cia_def c' ev_cia_def numeral_eq_Suc)
  have i: "i < ev_max \<longleftrightarrow> i = 0 \<or> i = 1 \<or> i = 2 \<or> i = 3 \<or> i = 4" for i by (auto simp: ev_max_def)
  have len: "length (eventtab s) = ev_max" by (simp add: s ev_max_def)
  have fut: "ev_active c' \<longrightarrow> 0 < evtime c' \<and> evtime c' < EVT_MAX"
    using CIA_calctimers_future [OF ok c'(1)] z by simp
  have act: "\<forall>j<ev_max. active (eventtab s ! j) \<longrightarrow> 0 < ev_time (eventtab s ! j) \<and> ev_time (eventtab s ! j) < EVT_MAX"
    using fut by (auto simp: i s EVT_MAX_def)
  let ?s = "events_schedule s" and ?g = "line_handlers env0 [Tod_line 1, Reg_write 0 4 7, Reg_read 1 13]"
  have same: "eventtab ?s = eventtab s" "currcycle ?s = 0" "dev ?s = (c', ())"
    by (simp_all add: events_schedule_def Let_def s)
  have "next_known ?s" using act len by (intro events_schedule_known) (auto simp: s)
  moreover have "all_future ?s" using act len by (auto simp: all_future_def same)
  moreover have "cia_of ?s = c'" by (simp add: cia_of_def same s ev_cia_def)
  then have "cia_table_inv ?s" using c'(2,3) z act len by (auto simp: cia_table_inv_def same s ev_cia_def)
  moreover have "polite ?g" by (rule line_handlers_polite)
  ultimately obtain s' where "do_cycles_loop (cia_handlers env0 ?g) 400000 ?s = Some s'" "on_time (now env0 s') (cia_of s')"
    using timers_served_in_time [of ?g ?s 400000 env0] same(2) by (auto simp: EVT_MAX_def)
  then show ?thesis unfolding Let_def c_def [symmetric] s_def [symmetric] by blast
qed

section \<open>Queued events are run\<close>

text \<open>The slots are searched in a ring from the one used last.\<close>

definition ring :: "nat \<Rightarrow> nat \<Rightarrow> nat" where
  "ring st k = ev2_misc + (st - ev2_misc + k) mod (ev2_max - ev2_misc)"

lemma ring_Suc [simp]: "ring (Suc x) k = Suc ((x + k) mod 11)"
  by (simp add: ring_def ev2_max_def ev2_misc_def)

lemma ring_slot: "ev2_misc \<le> st \<Longrightarrow> st < ev2_max \<Longrightarrow> \<exists>x<11. st = Suc x"
  by (cases st) (auto simp: ev2_misc_def ev2_max_def)

lemma ring_step:
  assumes "ev2_misc \<le> st" "st < ev2_max"
  shows "(if ring st k + 1 = ev2_max then ev2_misc else ring st k + 1) = ring st (Suc k)"
proof -
  obtain x where "st = Suc x" using ring_slot [OF assms] by blast
  then show ?thesis by (simp add: ev2_max_def ev2_misc_def mod_Suc)
qed

lemma ring_start: "ev2_misc \<le> st \<Longrightarrow> st < ev2_max \<Longrightarrow> ring st 0 = st"
  using ring_slot [of st] by auto

lemma ring_range: "ev2_misc \<le> ring st k" "ring st k < ev2_max"
  using mod_less_divisor [of "11 :: nat" "st - 1 + k"] by (simp_all add: ring_def ev2_max_def ev2_misc_def del: mod_less_divisor)

lemma ring_back:
  assumes "ev2_misc \<le> st" "st < ev2_max" "0 < k" "k < ev2_max - ev2_misc"
  shows "ring st k \<noteq> st"
proof
  obtain x where x: "x < 11" "st = Suc x" using ring_slot [OF assms(1,2)] by blast
  assume "ring st k = st"
  then have "(x + k) mod 11 = x" by (simp add: x)
  moreover have "k < 11" using assms(4) by (simp add: ev2_max_def ev2_misc_def)
  ultimately show False using x(1) assms(3) by (cases "x + k < 11") (auto simp: le_mod_geq)
qed

lemma ring_reaches:
  assumes "ev2_misc \<le> st" "st < ev2_max" "ev2_misc \<le> i" "i < ev2_max"
  shows "\<exists>k<ev2_max - ev2_misc. ring st k = i"
proof -
  obtain x y where x: "x < 11" "st = Suc x" "y < 11" "i = Suc y" using ring_slot assms by metis
  show ?thesis
  proof (cases "x \<le> y")
    case True
    then show ?thesis using x by (intro exI [of _ "y - x"]) (auto simp: ev2_max_def ev2_misc_def)
  next
    case False
    then show ?thesis using x by (intro exI [of _ "11 + y - x"]) (auto simp: ev2_max_def ev2_misc_def)
  qed
qed

lemma find_slot_ends:
  assumes "ev2_misc \<le> next_slot s" "next_slot s < ev2_max" "\<not> active2 (eventtab2 s ! ring (next_slot s) (k + d))" "k + d < ev2_max - ev2_misc"
  shows "\<exists>no. find_slot h2 et func data (ring (next_slot s) k) s = Some (no, s) \<and> ev2_misc \<le> no \<and> no < ev2_max"
  using assms
proof (induction d arbitrary: k)
  case 0
  then show ?case using ring_range by (subst find_slot.simps) (auto simp: Let_def)
next
  case (Suc d)
  have "ring (next_slot s) (Suc k) \<noteq> next_slot s"
    using Suc.prems by (intro ring_back) auto
  then show ?case
    using Suc.IH [of "Suc k"] Suc.prems ring_range ring_step [OF Suc.prems(1,2), of k]
    by (subst find_slot.simps) (auto simp: Let_def)
qed

lemma misc_pass_idle:
  assumes "\<forall>i\<in>set is. active2 (eventtab2 s ! i) \<longrightarrow> ev2_time (eventtab2 s ! i) \<noteq> ct"
  shows "\<exists>m'. misc_pass h2 ct is m r s = Some (m', r, s) \<and> m' \<le> m \<and>
    (\<forall>i\<in>set is. active2 (eventtab2 s ! i) \<longrightarrow> m' \<le> ev2_time (eventtab2 s ! i) - ct) \<and>
    (m' = m \<or> (\<exists>i\<in>set is. active2 (eventtab2 s ! i) \<and> m' = ev2_time (eventtab2 s ! i) - ct))"
  using assms
proof (induction "is" arbitrary: m)
  case (Cons i "is")
  let ?t = "ev2_time (eventtab2 s ! i) - ct"
  show ?case
  proof (cases "active2 (eventtab2 s ! i)")
    case True
    obtain m' where m': "misc_pass h2 ct is (if ?t < m then ?t else m) r s = Some (m', r, s)" "m' \<le> (if ?t < m then ?t else m)"
      "\<forall>i\<in>set is. active2 (eventtab2 s ! i) \<longrightarrow> m' \<le> ev2_time (eventtab2 s ! i) - ct"
      "m' = (if ?t < m then ?t else m) \<or> (\<exists>i\<in>set is. active2 (eventtab2 s ! i) \<and> m' = ev2_time (eventtab2 s ! i) - ct)"
      using Cons.IH [of "if ?t < m then ?t else m"] Cons.prems by auto
    have "m' \<le> m" "m' \<le> ?t" using m'(2) by (auto split: if_splits)
    moreover have "m' = m \<or> m' = ?t \<or> (\<exists>i\<in>set is. active2 (eventtab2 s ! i) \<and> m' = ev2_time (eventtab2 s ! i) - ct)"
      using m'(4) by (auto split: if_splits)
    ultimately show ?thesis using True Cons.prems m'(1,3) by (intro exI [of _ m']) (auto simp: Let_def)
  next
    case False
    then show ?thesis using Cons.IH [of m] Cons.prems by auto
  qed
qed simp

text \<open>With no slot due, \<^verbatim>\<open>MISC_handler\<close> only sets its own event for the slot that is due first.\<close>

lemma MISC_handler_idle:
  assumes "\<not> recursive s" "length (eventtab s) = ev_max" "\<forall>i<ev2_max. active2 (eventtab2 s ! i) \<longrightarrow> ev2_time (eventtab2 s ! i) \<noteq> currcycle s"
    "i < ev2_max" "active2 (eventtab2 s ! i)" "ev2_time (eventtab2 s ! i) - currcycle s < EVT_MAX"
  shows "\<exists>s' j. MISC_handler h2 s = Some s' \<and> eventtab2 s' = eventtab2 s \<and> currcycle s' = currcycle s \<and> dev s' = dev s \<and>
    \<not> recursive s' \<and> next_slot s' = next_slot s \<and> active (eventtab s' ! ev_misc) \<and>
    (\<forall>k<ev2_max. active2 (eventtab2 s ! k) \<longrightarrow> ev_time (eventtab s' ! ev_misc) \<le> ev2_time (eventtab2 s ! k)) \<and>
    j < ev2_max \<and> active2 (eventtab2 s ! j) \<and> ev_time (eventtab s' ! ev_misc) = ev2_time (eventtab2 s ! j)"
proof -
  let ?s = "s\<lparr>recursive := True, eventtab := (eventtab s)[ev_misc := (eventtab s ! ev_misc)\<lparr>active := False\<rparr>]\<rparr>"
  obtain m where m: "misc_pass h2 (currcycle s) [0..<ev2_max] EVT_MAX False ?s = Some (m, False, ?s)"
    "\<forall>i<ev2_max. active2 (eventtab2 s ! i) \<longrightarrow> m \<le> ev2_time (eventtab2 s ! i) - currcycle s"
    "m = EVT_MAX \<or> (\<exists>i<ev2_max. active2 (eventtab2 s ! i) \<and> m = ev2_time (eventtab2 s ! i) - currcycle s)"
  proof -
    have "\<forall>i\<in>set [0..<ev2_max]. active2 (eventtab2 ?s ! i) \<longrightarrow> ev2_time (eventtab2 ?s ! i) \<noteq> currcycle s" using assms(3) by simp
    from misc_pass_idle [OF this, of h2 EVT_MAX False] show thesis using that by (auto simp: atLeast0LessThan)
  qed
  have lt: "m < EVT_MAX" using m(2) assms(4-6) by force
  then obtain j where j: "j < ev2_max" "active2 (eventtab2 s ! j)" "m = ev2_time (eventtab2 s ! j) - currcycle s" using m(3) by auto
  have "misc_loop h2 (currcycle s) ?s = Some (m, ?s)" by (subst misc_loop.simps) (simp add: m(1))
  moreover have "ev_misc < length (eventtab s)" by (simp add: assms(2) ev_misc_def ev_max_def)
  ultimately show ?thesis
    using assms(1) lt j m(2)
    by (intro exI [of _ "the (MISC_handler h2 s)"] exI [of _ j]) (auto simp: MISC_handler_def events_schedule_def Let_def)
qed

text \<open>C20: An event queued with \<^verbatim>\<open>event2_newevent_xx\<close> without a slot of its own (which is what the calls of
  \<^verbatim>\<open>event2_newevent2\<close> with a positive time come to) gets into the table: called outside the handlers of queued events, while a slot is free and none is due,
  the search for a slot ends and runs no handler, whatever the handlers are; the function and its data stand in a slot for the
  time asked for, or, when the event queued last is still active in another slot for that very time, one cycle later and chained behind
  it; every other slot keeps its event and time; and the event of the fixed table is set for the time of the slot that is due first.\<close>

theorem queued_event_scheduled:
  assumes "\<not> recursive s" "length (eventtab s) = ev_max" "length (eventtab2 s) = ev2_max"
    "ev2_misc \<le> next_slot s" "next_slot s < ev2_max" "\<forall>l. last_event2 s = Some l \<longrightarrow> l < ev2_max"
    "ev2_misc \<le> f" "f < ev2_max" "\<not> active2 (eventtab2 s ! f)"
    "\<forall>i<ev2_max. active2 (eventtab2 s ! i) \<longrightarrow> ev2_time (eventtab2 s ! i) \<noteq> currcycle s" "0 < t" "t < EVT_MAX - 1"
  shows "\<exists>s' no. event2_newevent_xx h2 None t data func s = Some s' \<and> no < ev2_max \<and> active2 (eventtab2 s' ! no) \<and>
    ev2_handler (eventtab2 s' ! no) = func \<and> ev2_data (eventtab2 s' ! no) = data \<and>
    (if \<exists>l. last_event2 s = Some l \<and> active2 (eventtab2 s ! l) \<and> l \<noteq> no \<and> ev2_time (eventtab2 s ! l) = currcycle s + t
     then ev2_time (eventtab2 s' ! no) = currcycle s + t + 1 \<and> ev2_next (eventtab2 s' ! the (last_event2 s)) = Some no
     else ev2_time (eventtab2 s' ! no) = currcycle s + t) \<and>
    (\<forall>j<ev2_max. j \<noteq> no \<longrightarrow> (eventtab2 s' ! j)\<lparr>ev2_next := None\<rparr> = (eventtab2 s ! j)\<lparr>ev2_next := None\<rparr>) \<and>
    active (eventtab s' ! ev_misc) \<and>
    (\<forall>k<ev2_max. active2 (eventtab2 s' ! k) \<longrightarrow> ev_time (eventtab s' ! ev_misc) \<le> ev2_time (eventtab2 s' ! k)) \<and>
    (\<exists>j<ev2_max. active2 (eventtab2 s' ! j) \<and> ev_time (eventtab s' ! ev_misc) = ev2_time (eventtab2 s' ! j)) \<and>
    currcycle s' = currcycle s \<and> dev s' = dev s"
proof -
  obtain k where k: "k < ev2_max - ev2_misc" "ring (next_slot s) k = f" using ring_reaches [OF assms(4,5,7,8)] by blast
  obtain no where no: "find_slot h2 (t + currcycle s) func data (next_slot s) s = Some (no, s)" "no < ev2_max"
    using find_slot_ends [OF assms(4,5), of 0 k h2 "t + currcycle s" func data] k assms(9) ring_start [OF assms(4,5)] by auto
  define s1 where "s1 = s\<lparr>next_slot := no\<rparr>"
  define et where "et = fst (chain_slot no (t + currcycle s) s1)"
  define s2 where "s2 = snd (chain_slot no (t + currcycle s) s1)"
  have et: "et \<in> {currcycle s + t, currcycle s + t + 1}"
    by (auto simp: et_def chain_slot_def split: option.splits)
  have s2: "recursive s2 = recursive s" "eventtab s2 = eventtab s" "length (eventtab2 s2) = ev2_max" "currcycle s2 = currcycle s" "dev s2 = dev s"
    "\<forall>j<ev2_max. (eventtab2 s2 ! j)\<lparr>ev2_next := None\<rparr> = (eventtab2 s ! j)\<lparr>ev2_next := None\<rparr>"
    using assms(3,6) by (auto simp: s2_def s1_def chain_slot_def nth_list_update split: option.splits)
  let ?e = "(eventtab2 s2 ! no)\<lparr>active2 := True, ev2_time := et, ev2_handler := func, ev2_data := data\<rparr>"
  define s3 where "s3 = s2\<lparr>eventtab2 := (eventtab2 s2)[no := ?e], last_event2 := Some no\<rparr>"
  have new: "event2_newevent_xx h2 None t data func s = MISC_handler h2 s3"
    by (simp add: event2_newevent_xx_def no s3_def s2_def et_def s1_def Let_def case_prod_beta)
  have at: "eventtab2 s3 ! no = ?e" using no(2) s2(3) by (simp add: s3_def)
  have chain: "if \<exists>l. last_event2 s = Some l \<and> active2 (eventtab2 s ! l) \<and> l \<noteq> no \<and> ev2_time (eventtab2 s ! l) = currcycle s + t
      then ev2_time (eventtab2 s3 ! no) = currcycle s + t + 1 \<and> ev2_next (eventtab2 s3 ! the (last_event2 s)) = Some no
      else ev2_time (eventtab2 s3 ! no) = currcycle s + t"
    unfolding at using assms(3,6)
    by (auto simp: s3_def s2_def et_def s1_def chain_slot_def nth_list_update add.commute split: option.splits)
  have other: "(eventtab2 s3 ! j)\<lparr>ev2_next := None\<rparr> = (eventtab2 s ! j)\<lparr>ev2_next := None\<rparr>" if "j < ev2_max" "j \<noteq> no" for j
    using s2(6) that by (simp add: s3_def)
  have eq: "active2 (eventtab2 s3 ! j) = active2 (eventtab2 s ! j)" "ev2_time (eventtab2 s3 ! j) = ev2_time (eventtab2 s ! j)"
    if "j < ev2_max" "j \<noteq> no" for j
    using other [OF that] by (metis ev2.select_convs(1,2) ev2.update_convs(5) ev2.surjective)+
  have "\<forall>i<ev2_max. active2 (eventtab2 s3 ! i) \<longrightarrow> ev2_time (eventtab2 s3 ! i) \<noteq> currcycle s3"
  proof (intro allI impI)
    fix i
    assume i: "i < ev2_max" "active2 (eventtab2 s3 ! i)"
    have c: "currcycle s3 = currcycle s" using s2(4) by (simp add: s3_def)
    show "ev2_time (eventtab2 s3 ! i) \<noteq> currcycle s3"
    proof (cases "i = no")
      case True
      then show ?thesis using at et assms(11) c by auto
    next
      case False
      then show ?thesis using eq [OF i(1) False] i assms(10) c by simp
    qed
  qed
  moreover have "\<not> recursive s3" "length (eventtab s3) = ev_max" using assms(1,2) s2 by (simp_all add: s3_def)
  moreover have "active2 (eventtab2 s3 ! no)" "ev2_time (eventtab2 s3 ! no) - currcycle s3 < EVT_MAX"
    using at et assms(12) s2(4) by (auto simp: s3_def)
  ultimately obtain s' where s': "MISC_handler h2 s3 = Some s'" "eventtab2 s' = eventtab2 s3" "currcycle s' = currcycle s3" "dev s' = dev s3"
      "active (eventtab s' ! ev_misc)" "\<forall>k<ev2_max. active2 (eventtab2 s3 ! k) \<longrightarrow> ev_time (eventtab s' ! ev_misc) \<le> ev2_time (eventtab2 s3 ! k)"
      "\<exists>j<ev2_max. active2 (eventtab2 s3 ! j) \<and> ev_time (eventtab s' ! ev_misc) = ev2_time (eventtab2 s3 ! j)"
    using MISC_handler_idle [of s3 no h2] no(2) by blast
  have fields: "active2 (eventtab2 s3 ! no)" "ev2_handler (eventtab2 s3 ! no) = func" "ev2_data (eventtab2 s3 ! no) = data"
    by (simp_all add: at)
  have same: "currcycle s3 = currcycle s" "dev s3 = dev s" using s2(4,5) by (simp_all add: s3_def)
  show ?thesis
    by (rule exI [of _ s'], rule exI [of _ no], unfold s'(2-4) same, intro conjI)
      (use new s'(1) chain fields other s'(5-7) no(2) in \<open>simp_all only:\<close>, use other in blast)
qed

theorem queued_event_scheduled_witness:
  "let s = \<lparr>eventtab = replicate 5 \<lparr>active = False, ev_time = 0, ev_old = 0\<rparr>,
         eventtab2 = replicate 12 \<lparr>active2 = False, ev2_time = 0, ev2_data = 0, ev2_handler = 0, ev2_next = None\<rparr>,
         nextevent = 0, currcycle = 100, pissoff = 0, last_event2 = None, next_slot = 1, recursive = False, dorecheck = False, dev = ()\<rparr>
   in \<exists>s' no. event2_newevent_xx (\<lambda>_ _ s. Some s) None 50 7 3 s = Some s' \<and> ev2_handler (eventtab2 s' ! no) = 3 \<and>
        active (eventtab s' ! ev_misc)"
proof -
  define s where "s = \<lparr>eventtab = replicate 5 \<lparr>active = False, ev_time = 0, ev_old = 0\<rparr>,
         eventtab2 = replicate 12 \<lparr>active2 = False, ev2_time = 0, ev2_data = 0, ev2_handler = 0, ev2_next = None\<rparr>,
         nextevent = 0, currcycle = 100, pissoff = 0, last_event2 = None, next_slot = 1, recursive = False, dorecheck = False, dev = ()\<rparr>"
  have "\<not> recursive s" "length (eventtab s) = ev_max" "length (eventtab2 s) = ev2_max" "ev2_misc \<le> next_slot s" "next_slot s < ev2_max"
    "\<forall>l. last_event2 s = Some l \<longrightarrow> l < ev2_max" "ev2_misc \<le> 1" "1 < ev2_max" "\<not> active2 (eventtab2 s ! 1)"
    "\<forall>i<ev2_max. active2 (eventtab2 s ! i) \<longrightarrow> ev2_time (eventtab2 s ! i) \<noteq> currcycle s" "0 < (50 :: int)" "50 < EVT_MAX - 1"
    by (auto simp: s_def ev_max_def ev2_max_def ev2_misc_def EVT_MAX_def)
  from queued_event_scheduled [OF this, of "\<lambda>_ _ s. Some s" 7 3]
  have "\<exists>s' no. event2_newevent_xx (\<lambda>_ _ s. Some s) None 50 7 3 s = Some s' \<and> ev2_handler (eventtab2 s' ! no) = 3 \<and>
      active (eventtab s' ! ev_misc)" by blast
  then show ?thesis unfolding Let_def s_def [symmetric] by blast
qed

end
