(* ===== verification/Mfm.thy ===== *)
theory Mfm
  imports Prelude "HOL-Library.Monad_Syntax"
begin

text \<open>
  The recording code of floppy tracks (\<^verbatim>\<open>sources/src/disk.c\<close>): the two encoders, for data words
  whose clock bits are still to be filled in (\<^verbatim>\<open>mfmcode\<close>, AmigaDOS tracks) and for bytes
  (\<^verbatim>\<open>mfmcoder\<close>, PC tracks), and the readers of a bit stream that starts at any bit of a word. A
  pointer into the track buffer is an index; reading outside of the buffer is \<open>None\<close>.

  Shown: both encoders produce the same code, one clock bit before each data bit that is set just
  between two zeros, and the readers give the data back.
\<close>

section \<open>Encoders\<close>

text \<open>One round of the loop of \<^verbatim>\<open>mfmcode\<close>.\<close>

definition mfm_word :: "u32 \<Rightarrow> u16 \<Rightarrow> u16" where
  "mfm_word lastword w =
     (let v = ucast w AND 0x55555555;
          lv = push_bit 16 lastword OR v;
          nlv = 0x55555555 AND NOT lv;
          mfmbits = push_bit 1 nlv AND drop_bit 1 nlv
      in ucast (v OR mfmbits))"

fun mfmcode_words :: "u32 \<Rightarrow> u16 list \<Rightarrow> u16 list" where
  "mfmcode_words lastword [] = []"
| "mfmcode_words lastword (w # ws) = mfm_word lastword w # mfmcode_words (ucast w AND 0x55555555) ws"

text \<open>\<^verbatim>\<open>mfmcode\<close> on \<open>n\<close> words of a buffer from index \<open>p\<close> on\<close>

definition mfmcode :: "nat \<Rightarrow> nat \<Rightarrow> u16 list \<Rightarrow> u16 list option" where
  "mfmcode p n buf =
     (if p + n \<le> length buf then Some (take p buf @ mfmcode_words 0 (take n (drop p buf)) @ drop (p + n) buf) else None)"

definition mfmencodetable :: "u8 list" where
  "mfmencodetable = [0x2a, 0x29, 0x24, 0x25, 0x12, 0x11, 0x14, 0x15, 0x4a, 0x49, 0x44, 0x45, 0x52, 0x51, 0x54, 0x55]"

definition dos_encode_byte :: "u8 \<Rightarrow> u16" where
  "dos_encode_byte byte =
     (let b2 = drop_bit 4 byte; b1 = byte AND 15;
          w = push_bit 8 (ucast (mfmencodetable ! unat b2)) OR ucast (mfmencodetable ! unat b1) :: u16
      in w OR (if w AND (256 OR 64) \<noteq> 0 then 0 else 128))"

text \<open>\<^verbatim>\<open>mfmcoder\<close>, with the word before the first (\<^verbatim>\<open>dest[-1]\<close>) as an argument\<close>

fun mfmcoder :: "u16 \<Rightarrow> u8 list \<Rightarrow> u16 list" where
  "mfmcoder before [] = []"
| "mfmcoder before (b # src) =
     (let w = dos_encode_byte b;
          w = w OR (if before AND 1 \<noteq> 0 \<or> w AND 0x4000 \<noteq> 0 then 0 else 0x8000)
      in w # mfmcoder w src)"

section \<open>Readers\<close>

definition rd :: "u16 list \<Rightarrow> nat \<Rightarrow> u16 option" where
  "rd buf i = (if i < length buf then Some (buf ! i) else None)"

definition getmfmword :: "u16 list \<Rightarrow> nat \<Rightarrow> nat \<Rightarrow> u16 option" where
  "getmfmword buf p shift =
     do { a \<leftarrow> rd buf p; b \<leftarrow> rd buf (p + 1); Some (push_bit shift a OR drop_bit (16 - shift) b) }"

definition MFMMASK :: u32 where "MFMMASK = 0x55555555"

definition getmfmlong :: "u16 list \<Rightarrow> nat \<Rightarrow> nat \<Rightarrow> u32 option" where
  "getmfmlong buf p shift =
     do { a \<leftarrow> getmfmword buf p shift; b \<leftarrow> getmfmword buf (p + 1) shift; Some ((push_bit 16 (ucast a) OR ucast b) AND MFMMASK) }"

definition mfmdecode_word :: "u16 \<Rightarrow> u8" where
  "mfmdecode_word mfm =
     fst (((\<lambda>(out, mfm). ((if mfm AND 1 \<noteq> 0 then drop_bit 1 out OR 0x80 else drop_bit 1 out), drop_bit 2 mfm)) ^^ 8) (0, mfm AND 0x5555))"

text \<open>The byte and the pointer advanced\<close>

definition mfmdecode :: "u16 list \<Rightarrow> nat \<Rightarrow> nat \<Rightarrow> (u8 \<times> nat) option" where
  "mfmdecode buf p shift = do { mfm \<leftarrow> getmfmword buf p shift; Some (mfmdecode_word mfm, p + 1) }"

section \<open>The code\<close>

text \<open>Modified frequency modulation of a stream of bits: a clock bit is set between two zeros.\<close>

fun mfm_encode :: "bool \<Rightarrow> bool list \<Rightarrow> bool list" where
  "mfm_encode prev [] = []"
| "mfm_encode prev (d # ds) = (\<not> prev \<and> \<not> d) # d # mfm_encode d ds"

definition data_bits :: "u16 \<Rightarrow> bool list" where
  "data_bits w = [bit w 14, bit w 12, bit w 10, bit w 8, bit w 6, bit w 4, bit w 2, bit w 0]"

lemma mfm_encode_append: "mfm_encode prev (xs @ ys) = mfm_encode prev xs @ mfm_encode (last (prev # xs)) ys"
  by (induction xs arbitrary: prev) auto

lemma last_data_bits [simp]: "last (prev # data_bits w) = bit w 0"
  by (simp add: data_bits_def)

text \<open>In such a stream no two ones touch and at most three zeros do.\<close>

lemma mfm_encode_runs:
  "(\<forall>i. Suc i < length (mfm_encode p ds) \<longrightarrow> \<not> (mfm_encode p ds ! i \<and> mfm_encode p ds ! Suc i)) \<and>
   (p \<and> ds \<noteq> [] \<longrightarrow> \<not> mfm_encode p ds ! 0)"
proof (induction ds arbitrary: p)
  case (Cons d ds)
  have "\<not> (mfm_encode p (d # ds) ! i \<and> mfm_encode p (d # ds) ! Suc i)" if "Suc i < length (mfm_encode p (d # ds))" for i
  proof -
    consider "i = 0" | "i = 1" | j where "i = Suc (Suc j)" by (cases i; cases "i - 1") auto
    then show ?thesis
    proof cases
      case 2
      then show ?thesis using that Cons [of d] by (cases ds) auto
    next
      case 3
      then show ?thesis using that Cons [of d] by auto
    qed auto
  qed
  then show ?case by auto
qed simp

lemma bit_mask_5555: "bit (0x55555555 :: u32) k \<longleftrightarrow> even k \<and> k < 32"
proof (cases "k < 32")
  case True
  have "\<forall>k\<in>set [0..<32]. bit (0x55555555 :: u32) k \<longleftrightarrow> even k" by code_simp
  then show ?thesis using True by simp
qed (simp add: bit_word_beyond)

lemma bit_mask_5555_16: "bit (0x5555 :: u16) k \<longleftrightarrow> even k \<and> k < 16"
proof (cases "k < 16")
  case True
  have "\<forall>k\<in>set [0..<16]. bit (0x5555 :: u16) k \<longleftrightarrow> even k" by code_simp
  then show ?thesis using True by simp
qed (simp add: bit_word_beyond)

lemma mfm_word_bit:
  assumes "j < 16"
  shows "bit (mfm_word l w) j \<longleftrightarrow>
    (if even j then bit w j else \<not> bit w (j - 1) \<and> (if j = 15 then \<not> bit l 0 else \<not> bit w (j + 1)))"
proof -
  define M :: u32 where "M = 0x55555555"
  have M: "bit M k \<longleftrightarrow> even k \<and> k < 32" for k unfolding M_def by (rule bit_mask_5555)
  have w: "\<not> bit w 16" by (simp add: bit_word_beyond)
  have "bit (mfm_word l w) j \<longleftrightarrow> even j \<and> bit w j \<or>
      odd j \<and> \<not> (bit w (j - 1)) \<and> \<not> (16 \<le> j + 1 \<and> bit l (j + 1 - 16) \<or> bit w (j + 1))"
    unfolding mfm_word_def Let_def M_def [symmetric] bit_unsigned_iff bit_or_iff bit_and_iff bit_push_bit_iff bit_drop_bit_eq bit_not_iff M
    using assms odd_pos [of j] by (auto simp: possible_bit_word Suc_le_eq)
  then show ?thesis using assms w by (cases "j = 15") auto
qed

lemma msb_bits_16: "msb_bits 16 w = map (bit w) [15, 14, 13, 12, 11, 10, 9, 8, 7, 6, 5, 4, 3, 2, 1, 0]"
  by (simp add: numeral_eq_Suc)

lemma msb_bits_8: "msb_bits 8 w = map (bit w) [7, 6, 5, 4, 3, 2, 1, 0]"
  by (simp add: numeral_eq_Suc)

lemma mfm_word_bits: "msb_bits 16 (mfm_word l w) = mfm_encode (bit l 0) (data_bits w)"
  by (simp add: msb_bits_16 mfm_word_bit data_bits_def numeral_2_eq_2 [symmetric] conj_commute)

lemma mfmcode_words_encode:
  "concat (map (msb_bits 16) (mfmcode_words l ws)) = mfm_encode (bit l 0) (concat (map data_bits ws))"
proof (induction ws arbitrary: l)
  case (Cons w ws)
  have "bit (ucast w AND 0x55555555 :: u32) 0 \<longleftrightarrow> bit w 0" by (simp add: bit_simps)
  then show ?case by (simp add: Cons mfm_word_bits mfm_encode_append del: last.simps)
qed simp

text \<open>The table holds the code of each nibble, and \<^verbatim>\<open>mfmdecode\<close> picks the data bits.\<close>

lemma mfmencodetable_bits:
  assumes "unat n < 16" "j < 8"
  shows "bit (mfmencodetable ! unat (n :: u8)) j \<longleftrightarrow>
    (if even j then bit n (j div 2) else j \<noteq> 7 \<and> \<not> bit n (j div 2) \<and> \<not> bit n (j div 2 + 1))"
proof -
  have "\<forall>n\<in>set [0..<16]. \<forall>j\<in>set [0..<8]. bit (mfmencodetable ! n) j \<longleftrightarrow>
      (if even j then bit (of_nat n :: u8) (j div 2) else j \<noteq> 7 \<and> \<not> bit (of_nat n :: u8) (j div 2) \<and> \<not> bit (of_nat n :: u8) (j div 2 + 1))"
    by code_simp
  then show ?thesis using assms by fastforce
qed

lemma dos_encode_byte_bit:
  assumes "j < 16"
  shows "bit (dos_encode_byte b) j \<longleftrightarrow>
    (if even j then bit b (j div 2) else j \<noteq> 15 \<and> \<not> bit b (j div 2) \<and> \<not> bit b (j div 2 + 1))"
proof -
  define hi where "hi = mfmencodetable ! unat (drop_bit 4 b)"
  define lo where "lo = mfmencodetable ! unat (b AND 15)"
  define w where "w = push_bit 8 (ucast hi) OR (ucast lo :: u16)"
  define m where "m = (15 :: u8)"
  have "\<forall>k\<in>set [0..<8]. bit m k \<longleftrightarrow> k < 4" unfolding m_def by code_simp
  then have b15: "bit m k \<longleftrightarrow> k < 4" for k by (cases "k < 8") (auto simp: bit_word_beyond)
  define C :: u16 where "C = 128"
  have C: "bit C k \<longleftrightarrow> k = 7" for k using bit_exp_iff [where 'a = u16 and m = 7 and n = k] by (auto simp: C_def possible_bit_word)
  have "unat b < 256" by (rule order_less_le_trans [OF unsigned_less]) simp
  then have "unat (drop_bit 4 b) < 16" by (simp add: unat_drop_bit_div)
  then have hi: "bit hi k \<longleftrightarrow> (if even k then bit b (k div 2 + 4) else k \<noteq> 7 \<and> \<not> bit b (k div 2 + 4) \<and> \<not> bit b (k div 2 + 5))"
    if "k < 8" for k
    using that mfmencodetable_bits [of "drop_bit 4 b" k] by (simp add: hi_def bit_drop_bit_eq add_ac)
  have "unat (b AND 15) < 16" using unat_and_mask_less [of b 4] by (simp add: mask_eq_exp_minus_1)
  then have lo: "bit lo k \<longleftrightarrow> (if even k then bit b (k div 2) else k \<noteq> 7 \<and> \<not> bit b (k div 2) \<and> \<not> (k div 2 + 1 < 4 \<and> bit b (k div 2 + 1)))"
    if "k < 8" for k
    using that mfmencodetable_bits [of "b AND 15" k] by (auto simp: lo_def bit_and_iff m_def [symmetric] b15)
  have w: "bit w k \<longleftrightarrow> (if k < 8 then bit lo k else bit hi (k - 8))" if "k < 16" for k
    using that by (auto simp: w_def bit_or_iff bit_push_bit_iff bit_unsigned_iff bit_word_beyond)
  define X where "X = (256 :: u16)"
  define Y where "Y = (64 :: u16)"
  have "w AND X = 0 \<longleftrightarrow> \<not> bit w 8" "w AND Y = 0 \<longleftrightarrow> \<not> bit w 6"
    using and_exp_eq_0_iff_not_bit [of w 8] and_exp_eq_0_iff_not_bit [of w 6] by (simp_all add: X_def Y_def)
  then have "w AND (X OR Y) \<noteq> 0 \<longleftrightarrow> bit w 8 \<or> bit w 6"
    by (simp add: bit.conj_disj_distrib or_eq_0_iff)
  then have top: "w AND (256 OR 64) \<noteq> 0 \<longleftrightarrow> bit w 8 \<or> bit w 6" unfolding X_def Y_def .
  have "dos_encode_byte b = w OR (if bit w 8 \<or> bit w 6 then 0 else C)"
    unfolding top [symmetric] C_def by (simp add: dos_encode_byte_def w_def hi_def lo_def Let_def)
  then have "bit (dos_encode_byte b) j \<longleftrightarrow> bit w j \<or> j = 7 \<and> \<not> bit b 3 \<and> \<not> bit b 4"
    using w [of 8] w [of 6] hi [of 0] lo [of 6] by (auto simp: bit_or_iff C)
  moreover have "j = 0 \<or> j = 1 \<or> j = 2 \<or> j = 3 \<or> j = 4 \<or> j = 5 \<or> j = 6 \<or> j = 7 \<or> j = 8 \<or> j = 9 \<or> j = 10 \<or> j = 11 \<or> j = 12 \<or> j = 13 \<or> j = 14 \<or> j = 15"
    using assms by presburger
  ultimately show ?thesis
    by (elim disjE) (simp_all add: w hi lo)
qed

lemma and_one_even: "w AND 1 = 0 \<longleftrightarrow> \<not> bit w 0" for w :: u16
  using and_exp_eq_0_iff_not_bit [of w 0] unfolding power_0 .

lemma mfmdecode_word_bit: "bit (mfmdecode_word w) k \<longleftrightarrow> k < 8 \<and> bit w (2 * k)"
proof -
  define f where "f = (\<lambda>(out :: u8, mfm :: u16). ((if mfm AND 1 \<noteq> 0 then drop_bit 1 out OR 0x80 else drop_bit 1 out), drop_bit 2 mfm))"
  define H :: u8 where "H = 0x80"
  have "\<forall>k\<in>set [0..<8]. bit H k \<longleftrightarrow> k = 7" unfolding H_def by code_simp
  then have H: "bit H k \<longleftrightarrow> k = 7" for k by (cases "k < 8") (auto simp: bit_word_beyond)
  have step: "snd (f x) = drop_bit 2 (snd x)" "bit (fst (f x)) k \<longleftrightarrow> bit (fst x) (Suc k) \<or> k = 7 \<and> bit (snd x) 0" for x k
    by (simp_all add: f_def case_prod_beta and_one_even H_def [symmetric] bit_or_iff H bit_drop_bit_eq)
  have "snd ((f ^^ n) (0, m)) = drop_bit (2 * n) m \<and>
      (\<forall>k. bit (fst ((f ^^ n) (0, m))) k \<longleftrightarrow> k < 8 \<and> 8 \<le> k + n \<and> bit m (2 * (k + n - 8)))" if "n \<le> 8" for n m
    using that
  proof (induction n)
    case (Suc n)
    let ?x = "(f ^^ n) (0, m)"
    have x: "snd ?x = drop_bit (2 * n) m" "bit (fst ?x) (Suc k) \<longleftrightarrow> Suc k < 8 \<and> 8 \<le> Suc k + n \<and> bit m (2 * (Suc k + n - 8))" for k
      using Suc by simp_all
    have "bit (fst (f ?x)) k \<longleftrightarrow> k < 8 \<and> 8 \<le> k + Suc n \<and> bit m (2 * (k + Suc n - 8))" for k
      unfolding step x by (cases "k = 7") (auto simp: bit_drop_bit_eq simp del: bit_0)
    moreover have "snd (f ?x) = drop_bit (2 * Suc n) m" unfolding step x by (simp add: drop_bit_drop_bit)
    ultimately show ?case by (simp only: funpow.simps comp_def) blast
  qed auto
  from conjunct2 [OF this [of 8 "w AND 0x5555"]]
  have "bit (mfmdecode_word w) k \<longleftrightarrow> k < 8 \<and> 8 \<le> k + 8 \<and> bit (w AND 0x5555) (2 * (k + 8 - 8))"
    unfolding mfmdecode_word_def f_def [symmetric] by blast
  then show ?thesis unfolding bit_and_iff bit_mask_5555_16 by auto
qed

lemma dos_encode_byte_decode:
  "mfmdecode_word (dos_encode_byte b) = b" "mfmdecode_word (dos_encode_byte b OR 0x8000) = b"
proof -
  have top: "\<forall>j\<in>set [0..<8]. \<not> bit (0x8000 :: u16) (2 * j)" by code_simp
  show "mfmdecode_word (dos_encode_byte b) = b"
    by (rule bit_word_eqI) (simp add: mfmdecode_word_bit dos_encode_byte_bit del: bit_0)
  show "mfmdecode_word (dos_encode_byte b OR 0x8000) = b"
    using top by (intro bit_word_eqI) (simp add: mfmdecode_word_bit dos_encode_byte_bit bit_or_iff)
qed

lemma mfmcoder_word_bits:
  "msb_bits 16 (dos_encode_byte b OR (if before AND 1 \<noteq> 0 \<or> dos_encode_byte b AND 0x4000 \<noteq> 0 then 0 else 0x8000))
    = mfm_encode (bit before 0) (msb_bits 8 b)" for before :: u16
proof -
  define T :: u16 where "T = 0x8000"
  have T: "bit T k \<longleftrightarrow> k = 15" for k using bit_exp_iff [where 'a = u16 and m = 15 and n = k] by (auto simp: T_def possible_bit_word)
  have S: "w AND 0x4000 \<noteq> 0 \<longleftrightarrow> bit w 14" for w :: u16 using and_exp_eq_0_iff_not_bit [of w 14] by simp
  have *: "bit (w OR (if c then 0 else T)) j \<longleftrightarrow> bit w j \<or> \<not> c \<and> j = 15" for w c j by (simp add: bit_or_iff T)
  show ?thesis
    unfolding T_def [symmetric] S
    unfolding and_one_even
    by (simp add: msb_bits_16 msb_bits_8 * dos_encode_byte_bit numeral_2_eq_2 [symmetric] conj_commute del: bit_0)
qed

lemma mfmcoder_encode:
  "concat (map (msb_bits 16) (mfmcoder before bs)) = mfm_encode (bit before 0) (concat (map (msb_bits 8) bs))"
proof (induction bs arbitrary: before)
  case (Cons b bs)
  define w where "w = dos_encode_byte b OR (if before AND 1 \<noteq> 0 \<or> dos_encode_byte b AND 0x4000 \<noteq> 0 then 0 else 0x8000)"
  define T :: u16 where "T = 0x8000"
  have "\<not> bit T 0" by (simp add: T_def)
  then have "bit w 0 \<longleftrightarrow> bit b 0" by (simp add: w_def T_def [symmetric] bit_or_iff dos_encode_byte_bit del: bit_0)
  moreover have "last (p # msb_bits 8 b) = bit b 0" for p by (simp add: numeral_eq_Suc)
  moreover have "mfmcoder before (b # bs) = w # mfmcoder w bs" by (simp add: w_def Let_def)
  moreover have "msb_bits 16 w = mfm_encode (bit before 0) (msb_bits 8 b)" unfolding w_def by (rule mfmcoder_word_bits)
  ultimately show ?case by (simp add: Cons mfm_encode_append del: last.simps mfmcoder.simps)
qed simp

text \<open>C17: The two encoders of floppy tracks write the same code, that of the drives: the words of
  \<^verbatim>\<open>mfmcode\<close> are the MFM encoding of the data bits of its input and those of \<^verbatim>\<open>mfmcoder\<close> that of its
  bytes, from the highest bit on, with the clock bits set just between two zeros also across
  word boundaries.\<close>

theorem encoders_write_mfm:
  "concat (map (msb_bits 16) (mfmcode_words l ws)) = mfm_encode (bit l 0) (concat (map data_bits ws)) \<and>
   concat (map (msb_bits 16) (mfmcoder before bs)) = mfm_encode (bit before 0) (concat (map (msb_bits 8) bs))"
  using mfmcode_words_encode mfmcoder_encode by blast

section \<open>Reading back\<close>

lemma length_mfmcode_words [simp]: "length (mfmcode_words l ws) = length ws"
  by (induction ws arbitrary: l) auto

lemma length_mfmcoder [simp]: "length (mfmcoder l bs) = length bs"
  by (induction bs arbitrary: l) (auto simp: Let_def)

lemma mfm_word_data: "mfm_word l w AND 0x5555 = w AND 0x5555"
proof (rule bit_word_eqI)
  fix n
  assume "n < LENGTH(16)"
  then have n: "n < 16" by simp
  have "\<forall>k\<in>set [0..<16]. bit (0x5555 :: u16) k \<longleftrightarrow> even k" by code_simp
  then have "bit (0x5555 :: u16) n \<longleftrightarrow> even n" using n by simp
  then show "bit (mfm_word l w AND 0x5555) n = bit (w AND 0x5555) n"
    using mfm_word_bit [OF n, of l w] by (auto simp: bit_and_iff)
qed

lemma mfmcode_words_data: "i < length ws \<Longrightarrow> mfmcode_words l ws ! i AND 0x5555 = ws ! i AND 0x5555"
  by (induction ws arbitrary: l i) (auto simp: mfm_word_data nth_Cons split: nat.splits)

lemma mfmcoder_decode: "i < length bs \<Longrightarrow> mfmdecode_word (mfmcoder before bs ! i) = bs ! i"
proof (induction bs arbitrary: before i)
  case (Cons b bs)
  then show ?case using dos_encode_byte_decode [of b] by (cases i) (simp_all add: Let_def)
qed simp

lemma getmfmword_aligned [simp]: "Suc p < length buf \<Longrightarrow> getmfmword buf p 0 = Some (buf ! p)"
  by (simp add: getmfmword_def rd_def drop_bit_word_beyond)

lemma getmfmlong_aligned: "Suc (Suc p) < length buf \<Longrightarrow>
   getmfmlong buf p 0 = Some ((push_bit 16 (ucast (buf ! p)) OR ucast (buf ! Suc p)) AND 0x55555555)"
  by (simp add: getmfmlong_def MFMMASK_def)

end
