(* ===== verification/AmigaTrack.thy ===== *)
theory AmigaTrack
  imports Mfm
begin

text \<open>
  AmigaDOS tracks (\<^verbatim>\<open>sources/src/disk.c\<close>): \<^verbatim>\<open>decode_amigados\<close> writes the sectors of an image as an MFM
  track into the buffer of the drive, and \<^verbatim>\<open>decode_buffer\<close> finds the sectors in a track the machine wrote. The image
  is a list of bytes; a read past its end reads what is there. \<^verbatim>\<open>side\<close> and \<open>wl\<close> (\<^verbatim>\<open>FLOPPY_WRITE_LEN\<close>, a
  preference) are arguments, and so is the stack memory a short read leaves as it was. An access outside a buffer,
  a copy of negative length or through a null pointer is \<open>None\<close>. Log calls are left out.
\<close>

section \<open>Drives and images\<close>

datatype drive_filetype =
  ADF_NONE | ADF_NORMAL | ADF_EXT1 | ADF_EXT2 | ADF_FDI | ADF_IPF | ADF_SCP | ADF_CATWEASEL | ADF_PCDOS | ADF_KICK
  | ADF_SKICK | ADF_NORMAL_HEADER | ADF_FLOPPYBRIDGE

record trackid =
  offs :: int
  extraoffs :: int
  track :: int

record drive =
  diskfile :: "u8 list"
  filetype :: drive_filetype
  trackdata :: "trackid list"
  cyl :: nat
  num_secs :: nat
  ddhd :: nat
  bigmfmbuf :: "u16 list"
  skipoffset :: nat
  tracklen :: nat

definition MAX_SECTORS :: nat where "MAX_SECTORS = 22"
definition MAXMFMBUF :: nat where "MAXMFMBUF = 0x8000"

text \<open>\<^verbatim>\<open>zfile_fseek\<close> and \<^verbatim>\<open>zfile_fread\<close> into the start of \<open>dst\<close>\<close>

definition fread_at :: "u8 list \<Rightarrow> int \<Rightarrow> int \<Rightarrow> u8 list \<Rightarrow> u8 list option" where
  "fread_at f off len dst =
     (let bs = take (nat len) (drop (nat off) f)
      in if 0 \<le> len \<and> length bs \<le> length dst then Some (bs @ drop (length bs) dst) else None)"

definition overwrite :: "'a list \<Rightarrow> 'a list \<Rightarrow> 'a list" where
  "overwrite bs dst = bs @ drop (length bs) dst"

text \<open>The tail of the function, where \<open>len\<close> bytes are still to be read\<close>

definition read_image :: "u8 list \<Rightarrow> drive_filetype \<Rightarrow> trackid \<Rightarrow> int \<Rightarrow> u8 list \<Rightarrow> u8 list option \<Rightarrow> int \<Rightarrow> (u8 list \<times> u8 list option) option" where
  "read_image f ftype tid sector dst head len =
     (if offs tid < 0 \<or> sector < 0 then Some (dst, head)
      else do {
        head \<leftarrow> (if ftype = ADF_NORMAL_HEADER \<and> extraoffs tid > 0
                then do { h \<leftarrow> head; h \<leftarrow> fread_at f (extraoffs tid + sector * 16) 16 h; Some (Some h) }
                else Some head);
        dst \<leftarrow> fread_at f (offs tid + sector * 512) len dst;
        Some (dst, head) })"

definition read_floppy_data ::
  "u8 list \<Rightarrow> drive_filetype \<Rightarrow> trackid \<Rightarrow> int \<Rightarrow> u8 list \<Rightarrow> u8 list option \<Rightarrow> int \<Rightarrow> (u8 list \<times> u8 list option) option" where
  "read_floppy_data f ftype tid sector dst head len =
     (if len \<le> 0 then Some (dst, head)
      else
        let head = map_option (overwrite (replicate 16 0)) head;
            clear = overwrite (replicate (nat (if len > 512 then 512 else len)) 0) dst
        in if track tid = 0 \<and> ftype = ADF_KICK then
             (if sector = 0
              then read_image f ftype tid sector (overwrite [0x4b, 0x49, 0x43, 0x4b] clear) head (len - 512)
              else read_image f ftype tid sector clear head len)
           else if track tid = 0 \<and> ftype = ADF_SKICK then
             (if sector = 0
              then read_image f ftype tid sector (overwrite [0x4b, 0x49, 0x43, 0x4b, 0x53, 0x55, 0x50, 0x30] clear) head (len - 1024)
              else if sector = 1 then read_image f ftype tid sector clear head (len - 512)
              else read_image f ftype tid sector clear head len)
           else read_image f ftype tid sector dst head len)"

section \<open>Writing a track\<close>

definition be_long :: "u8 list \<Rightarrow> nat \<Rightarrow> u32" where
  "be_long bs i = push_bit 24 (ucast (bs ! i)) OR push_bit 16 (ucast (bs ! (i + 1))) OR
     push_bit 8 (ucast (bs ! (i + 2))) OR ucast (bs ! (i + 3))"

text \<open>The odd bits of a long to words \<open>i\<close> and \<open>i + 1\<close> of \<^verbatim>\<open>mfmbuf\<close>, the even ones to \<open>j\<close> and \<open>j + 1\<close>\<close>

definition odd_bits :: "u32 \<Rightarrow> u32" where "odd_bits v = drop_bit 1 v AND 0x55555555"
definition even_bits :: "u32 \<Rightarrow> u32" where "even_bits v = v AND 0x55555555"

definition put_long :: "nat \<Rightarrow> u32 \<Rightarrow> u16 list \<Rightarrow> u16 list" where
  "put_long i v m = m[i := ucast (drop_bit 16 v), i + 1 := ucast v]"

definition split_long :: "nat \<Rightarrow> nat \<Rightarrow> u32 \<Rightarrow> u16 list \<Rightarrow> u16 list" where
  "split_long i j v m = put_long j (even_bits v) (put_long i (odd_bits v) m)"

definition mfm_long :: "u16 list \<Rightarrow> nat \<Rightarrow> u32" where
  "mfm_long m i = push_bit 16 (ucast (m ! i)) OR ucast (m ! (i + 1))"

definition xor_longs :: "u16 list \<Rightarrow> nat \<Rightarrow> nat \<Rightarrow> u32" where
  "xor_longs m from n = fold (\<lambda>k c. c XOR mfm_long m (from + 2 * k)) [0..<n] 0"

definition store_sum :: "nat \<Rightarrow> u32 \<Rightarrow> u16 list \<Rightarrow> u16 list" where
  "store_sum i v m = put_long (i + 2) v (put_long i (drop_bit 1 v) m)"

text \<open>The words of one sector, with a first word of the next behind them\<close>

definition sector_words :: "nat \<Rightarrow> nat \<Rightarrow> nat \<Rightarrow> bool \<Rightarrow> u8 list \<Rightarrow> u8 list \<Rightarrow> u16 list" where
  "sector_words tr sec n prevbit data head =
     (let m = (replicate 545 0)[0 := (if prevbit then 0x2aaa else 0xaaaa), 1 := 0xaaaa, 2 := 0x4489, 3 := 0x4489];
          m = split_long 4 6 (be_long [0xff, word_of_nat tr, word_of_nat sec, word_of_nat n - word_of_nat sec] 0) m;
          m = fold (\<lambda>k. split_long (8 + 2 * k) (16 + 2 * k) (be_long head (4 * k))) [0..<4] m;
          m = store_sum 24 (xor_longs m 4 10) m;
          m = fold (\<lambda>k. split_long (32 + 2 * k) (288 + 2 * k) (be_long data (4 * k))) [0..<128] m;
          m = store_sum 28 (xor_longs m 32 256) m
      in m[544 := 0])"

definition amiga_sector :: "nat \<Rightarrow> nat \<Rightarrow> nat \<Rightarrow> bool \<Rightarrow> u8 list \<Rightarrow> u8 list \<Rightarrow> u16 list option" where
  "amiga_sector tr sec n prevbit data head = mfmcode 4 541 (sector_words tr sec n prevbit data head)"

definition put_sector :: "nat \<Rightarrow> nat \<Rightarrow> u16 list \<Rightarrow> u16 list \<Rightarrow> u16 list" where
  "put_sector len off m buf = fold (\<lambda>i b. b[(off + i) mod len := m ! i]) [0..<545] buf"

fun amiga_sectors ::
  "(nat \<Rightarrow> (u8 list \<times> u8 list option) option) \<Rightarrow> nat \<Rightarrow> nat \<Rightarrow> nat \<Rightarrow> nat \<Rightarrow> bool \<Rightarrow> nat list \<Rightarrow> u16 list \<Rightarrow> u16 list option" where
  "amiga_sectors rds tr n len off prevbit [] buf = Some buf"
| "amiga_sectors rds tr n len off prevbit (sec # secs) buf =
     do { (data, head) \<leftarrow> rds sec;
          head \<leftarrow> head;
          m \<leftarrow> amiga_sector tr sec n prevbit data head;
          amiga_sectors rds tr n len (off + 544) (bit (m ! 543) 0) secs (put_sector len off m buf) }"

text \<open>With a gap below zero the code would write in front of the buffer.\<close>

definition decode_amigados :: "int \<Rightarrow> (nat \<Rightarrow> u8 list \<times> u8 list) \<Rightarrow> nat \<Rightarrow> drive \<Rightarrow> drive option" where
  "decode_amigados wl stack tside drv =
     (let tr = cyl drv * 2 + tside;
          gap = wl - 11 * 544;
          len = nat (int (num_secs drv) * 544 + gap);
          rds = (\<lambda>sec. read_floppy_data (diskfile drv) (filetype drv) (trackdata drv ! tr) (int sec)
                   (fst (stack sec)) (Some (snd (stack sec))) 512)
      in if gap < 0 \<or> length (bigmfmbuf drv) < len then None
         else do {
           buf \<leftarrow> amiga_sectors rds tr (num_secs drv) len (nat gap) False [0..<num_secs drv]
                   (overwrite (replicate len 0xaaaa) (bigmfmbuf drv));
           Some (drv\<lparr>bigmfmbuf := buf, skipoffset := nat gap * 8 div 3 * 2, tracklen := len * 2 * 8\<rparr>) })"

section \<open>Finding the sectors of a track\<close>

record decoded =
  writebuffer :: "u8 list"
  writesecheadbuffer :: "u8 list"
  sectable :: "nat list"

partial_function (option) find_sync :: "u16 list \<Rightarrow> nat \<Rightarrow> nat \<Rightarrow> nat \<Rightarrow> (nat \<times> nat) option option" where
  [code]: "find_sync buf mend p shift =
     do { w \<leftarrow> getmfmword buf p shift;
          if w = 0x4489 then Some (Some (p, shift))
          else if mend \<le> p then Some None
          else if shift + 1 = 16 then find_sync buf mend (p + 1) 0
          else find_sync buf mend p (shift + 1) }"

partial_function (option) skip_sync :: "u16 list \<Rightarrow> nat \<Rightarrow> nat \<Rightarrow> nat \<Rightarrow> nat option option" where
  [code]: "skip_sync buf mend p shift =
     do { w \<leftarrow> getmfmword buf p shift;
          if w \<noteq> 0x4489 then Some (Some p)
          else if mend \<le> p then Some None
          else skip_sync buf mend (p + 1) shift }"

text \<open>Longs of four and of 128 with their odd bits first; the sum over the bits and the longs joined\<close>

definition join_long :: "u32 \<Rightarrow> u32 \<Rightarrow> u32" where "join_long od ev = push_bit 1 od OR ev"

fun get_longs :: "u16 list \<Rightarrow> nat \<Rightarrow> nat \<Rightarrow> nat \<Rightarrow> nat \<Rightarrow> u32 \<Rightarrow> (u32 list \<times> u32) option" where
  "get_longs buf p shift gap 0 chksum = Some ([], chksum)"
| "get_longs buf p shift gap (Suc n) chksum =
     do { od \<leftarrow> getmfmlong buf p shift;
          ev \<leftarrow> getmfmlong buf (p + gap) shift;
          (ls, chksum) \<leftarrow> get_longs buf (p + 2) shift gap n (chksum XOR (od XOR ev));
          Some (join_long od ev # ls, chksum) }"

definition long_bytes :: "u32 \<Rightarrow> u8 list" where
  "long_bytes v = [ucast (drop_bit 24 v), ucast (drop_bit 16 v), ucast (drop_bit 8 v), ucast v]"

definition patch :: "nat \<Rightarrow> 'a list \<Rightarrow> 'a list \<Rightarrow> 'a list option" where
  "patch i bs xs = (if i + length bs \<le> length xs then Some (take i xs @ bs @ drop (i + length bs) xs) else None)"

text \<open>What is found after a sync mark: an error code to return with, or where to search on and whether a sector was stored\<close>

definition decode_sector ::
  "u16 list \<Rightarrow> int \<Rightarrow> nat \<Rightarrow> drive_filetype \<Rightarrow> bool \<Rightarrow> nat \<Rightarrow> nat \<Rightarrow> decoded \<Rightarrow> (int + (nat \<times> bool \<times> decoded)) option" where
  "decode_sector buf trk drvsec ftype checkmode p shift d =
     do { od \<leftarrow> getmfmlong buf p shift;
          ev \<leftarrow> getmfmlong buf (p + 2) shift;
          let p = p + 4; let idl = join_long od ev; let trackoffs = unat (drop_bit 8 (idl AND 0xff00));
          if trackoffs + 1 > drvsec then Some (if ftype = ADF_EXT2 then Inl 2 else Inr (p, False, d))
          else do {
            (sechead, chksum) \<leftarrow> get_longs buf p shift 8 4 (od XOR ev);
            let p = p + 8; let issechead = (\<not> checkmode \<and> (\<exists>l\<in>set sechead. l \<noteq> 0));
            if issechead \<and> ftype = ADF_EXT2 then Some (Inl 6)
            else do {
              let p = p + 8;
              od \<leftarrow> getmfmlong buf p shift;
              ev \<leftarrow> getmfmlong buf (p + 2) shift;
              let p = p + 4;
              if join_long od ev \<noteq> chksum then Some (if ftype = ADF_EXT2 then Inl 3 else Inr (p, False, d))
              else if uint (drop_bit 16 (idl AND 0x00ff0000)) \<noteq> trk then Some (if ftype = ADF_EXT2 then Inl 3 else Inr (p, False, d))
              else do {
                od \<leftarrow> getmfmlong buf p shift;
                ev \<leftarrow> getmfmlong buf (p + 2) shift;
                let p = p + 4;
                (dlongs, chksum) \<leftarrow> get_longs buf p shift 256 128 (join_long od ev);
                let p = p + 256;
                if chksum \<noteq> 0 then Some (if ftype = ADF_EXT2 then Inl 4 else Inr (p, False, d))
                else do {
                  wb \<leftarrow> patch (trackoffs * 512) (concat (map long_bytes dlongs)) (writebuffer d);
                  hb \<leftarrow> patch (trackoffs * 16) (concat (map long_bytes sechead)) (writesecheadbuffer d);
                  st \<leftarrow> patch trackoffs [1] (sectable d);
                  Some (Inr (p + 256, True, d\<lparr>writebuffer := wb, writesecheadbuffer := hb, sectable := st\<rparr>)) } } } } }"

partial_function (option) decode_loop ::
  "u16 list \<Rightarrow> nat \<Rightarrow> int \<Rightarrow> nat \<Rightarrow> drive_filetype \<Rightarrow> bool \<Rightarrow> nat \<Rightarrow> nat \<Rightarrow> nat \<Rightarrow> decoded \<Rightarrow> (int \<times> decoded) option" where
  [code]: "decode_loop buf mend trk drvsec ftype checkmode p shift secwritten d =
     (if secwritten < drvsec then do {
        r \<leftarrow> find_sync buf mend p shift;
        (case r of None \<Rightarrow> Some (1, d)
         | Some (p, shift) \<Rightarrow> do {
             r \<leftarrow> skip_sync buf mend p shift;
             (case r of None \<Rightarrow> Some (1, d)
              | Some p \<Rightarrow> do {
                  r \<leftarrow> decode_sector buf trk drvsec ftype checkmode p shift d;
                  (case r of Inl code \<Rightarrow> Some (code, d)
                   | Inr (p, stored, d) \<Rightarrow>
                       decode_loop buf mend trk drvsec ftype checkmode p shift (if stored then secwritten + 1 else secwritten) d) }) }) }
      else if ftype = ADF_EXT2 \<and> secwritten = 0 then Some (5, d)
      else Some (0, d))"

definition decode_buffer ::
  "nat \<Rightarrow> nat \<Rightarrow> u16 list \<Rightarrow> nat \<Rightarrow> nat \<Rightarrow> nat \<Rightarrow> drive_filetype \<Rightarrow> bool \<Rightarrow> decoded \<Rightarrow> (int \<times> decoded \<times> u16 list) option" where
  "decode_buffer wl side mbuf cylinder drvsec dens ftype checkmode d =
     (let fwlen = wl * dens; mend = 2 * fwlen - (4 + 16 + 8 + 512)
      in do {
        mbuf \<leftarrow> patch fwlen (take fwlen mbuf) mbuf;
        (code, d) \<leftarrow> decode_loop mbuf mend (int (cylinder * 2 + side)) drvsec ftype checkmode 0 0 0
                       (d\<lparr>sectable := replicate MAX_SECTORS 0\<rparr>);
        Some (code, d, mbuf) })"

section \<open>Longs and their checksums\<close>

lemma join_halves: "push_bit 16 (ucast (ucast (drop_bit 16 v) :: u16)) OR ucast (ucast v :: u16) = v" for v :: u32
  by (rule bit_word_eqI) (auto simp: bit_simps)

lemma join_split [simp]: "join_long (odd_bits v) (even_bits v) = v"
proof (rule bit_word_eqI)
  fix n
  define M :: u32 where "M = 0x55555555"
  have M: "bit M k \<longleftrightarrow> even k \<and> k < 32" for k unfolding M_def by (rule bit_mask_5555)
  assume "n < LENGTH(32)"
  then show "bit (join_long (odd_bits v) (even_bits v)) n = bit v n"
    unfolding join_long_def odd_bits_def even_bits_def M_def [symmetric] bit_or_iff bit_and_iff bit_push_bit_iff bit_drop_bit_eq M
    by (cases n) (auto simp: possible_bit_word)
qed

lemma length_put_long [simp]: "length (put_long i v m) = length m"
  by (simp add: put_long_def)

lemma nth_put_long: "j \<noteq> i \<Longrightarrow> j \<noteq> Suc i \<Longrightarrow> put_long i v m ! j = m ! j"
  by (simp add: put_long_def)

lemma mfm_long_put: "Suc i < length m \<Longrightarrow> mfm_long (put_long i v m) i = v"
  by (simp add: mfm_long_def put_long_def join_halves)

lemma mfm_long_put_other: "Suc j < i \<or> Suc i < j \<Longrightarrow> mfm_long (put_long i v m) j = mfm_long m j"
  by (auto simp: mfm_long_def put_long_def nth_list_update)

lemma length_split_long [simp]: "length (split_long i j v m) = length m"
  by (simp add: split_long_def)

lemma split_fold:
  assumes "a + 2 * n \<le> b" "b + 2 * n \<le> length m"
  shows "length (fold (\<lambda>k. split_long (a + 2 * k) (b + 2 * k) (f k)) [0..<n] m) = length m \<and>
    (\<forall>k<n. mfm_long (fold (\<lambda>k. split_long (a + 2 * k) (b + 2 * k) (f k)) [0..<n] m) (a + 2 * k) = odd_bits (f k) \<and>
           mfm_long (fold (\<lambda>k. split_long (a + 2 * k) (b + 2 * k) (f k)) [0..<n] m) (b + 2 * k) = even_bits (f k)) \<and>
    (\<forall>i. (i < a \<or> a + 2 * n \<le> i) \<and> (i < b \<or> b + 2 * n \<le> i) \<longrightarrow>
      fold (\<lambda>k. split_long (a + 2 * k) (b + 2 * k) (f k)) [0..<n] m ! i = m ! i)"
  using assms
proof (induction n)
  case (Suc n)
  let ?m = "fold (\<lambda>k. split_long (a + 2 * k) (b + 2 * k) (f k)) [0..<n] m"
  have IH: "length ?m = length m" "\<And>k. k < n \<Longrightarrow> mfm_long ?m (a + 2 * k) = odd_bits (f k)"
    "\<And>k. k < n \<Longrightarrow> mfm_long ?m (b + 2 * k) = even_bits (f k)"
    "\<And>i. (i < a \<or> a + 2 * n \<le> i) \<Longrightarrow> (i < b \<or> b + 2 * n \<le> i) \<Longrightarrow> ?m ! i = m ! i"
    using Suc by auto
  have "mfm_long (split_long (a + 2 * n) (b + 2 * n) (f n) ?m) (a + 2 * k) = odd_bits (f k) \<and>
      mfm_long (split_long (a + 2 * n) (b + 2 * n) (f n) ?m) (b + 2 * k) = even_bits (f k)" if "k < Suc n" for k
    using Suc.prems IH(1-3) that
    by (cases "k = n") (auto simp: split_long_def mfm_long_put mfm_long_put_other)
  moreover have "split_long (a + 2 * n) (b + 2 * n) (f n) ?m ! i = m ! i"
    if "i < a \<or> a + 2 * Suc n \<le> i" "i < b \<or> b + 2 * Suc n \<le> i" for i
    using that IH(4) [of i] by (auto simp: split_long_def nth_put_long)
  ultimately show ?case using IH(1) by simp
qed auto

lemma mfm_long_cong: "m ! i = m' ! i \<Longrightarrow> m ! Suc i = m' ! Suc i \<Longrightarrow> mfm_long m i = mfm_long m' i"
  by (simp add: mfm_long_def)

lemma xor_longs_sum: "xor_longs m from n = xsum (\<lambda>k. mfm_long m (from + 2 * k)) n"
  by (simp add: xor_longs_def xsum_def)

lemma get_longs_all:
  assumes "\<And>k. k < n \<Longrightarrow> getmfmlong buf (p + 2 * k) shift = Some (fo k) \<and> getmfmlong buf (p + gap + 2 * k) shift = Some (fe k)"
  shows "get_longs buf p shift gap n c = Some (map (\<lambda>k. join_long (fo k) (fe k)) [0..<n], c XOR xsum (\<lambda>k. fo k XOR fe k) n)"
  using assms
proof (induction n arbitrary: p c fo fe)
  case (Suc n)
  have "getmfmlong buf p shift = Some (fo 0)" "getmfmlong buf (p + gap) shift = Some (fe 0)" using Suc.prems [of 0] by simp_all
  moreover have "get_longs buf (p + 2) shift gap n (c XOR (fo 0 XOR fe 0)) =
      Some (map (\<lambda>k. join_long (fo (Suc k)) (fe (Suc k))) [0..<n], (c XOR (fo 0 XOR fe 0)) XOR xsum (\<lambda>k. fo (Suc k) XOR fe (Suc k)) n)"
    using Suc.prems [of "Suc k" for k] by (intro Suc.IH) (simp add: add_ac)
  moreover have "xsum (\<lambda>k. fo k XOR fe k) (Suc n) = (fo 0 XOR fe 0) XOR xsum (\<lambda>k. fo (Suc k) XOR fe (Suc k)) n"
    using xsum_add [of "\<lambda>k. fo k XOR fe k" 1 n] by simp
  moreover have "map (\<lambda>k. join_long (fo k) (fe k)) [0..<Suc n] = join_long (fo 0) (fe 0) # map (\<lambda>k. join_long (fo (Suc k)) (fe (Suc k))) [0..<n]"
    by (simp add: upt_rec [of 0] map_Suc_upt [symmetric] comp_def del: upt_Suc)
  ultimately show ?case by (simp add: xor.assoc del: upt_Suc xsum_Suc)
qed simp

lemma long_bytes_be_long: "long_bytes (be_long bs i) = [bs ! i, bs ! (i + 1), bs ! (i + 2), bs ! (i + 3)]"
proof -
  have "ucast (drop_bit 24 (be_long bs i)) = bs ! i" "ucast (drop_bit 16 (be_long bs i)) = bs ! (i + 1)"
    "ucast (drop_bit 8 (be_long bs i)) = bs ! (i + 2)" "ucast (be_long bs i) = bs ! (i + 3)"
    by (rule bit_word_eqI; auto simp: be_long_def bit_simps bit_word_beyond)+
  then show ?thesis by (simp add: long_bytes_def)
qed

lemma concat_long_bytes: "length bs = 4 * n \<Longrightarrow> concat (map (\<lambda>k. long_bytes (be_long bs (4 * k))) [0..<n]) = bs"
proof (induction n arbitrary: bs)
  case (Suc n)
  have "be_long bs (4 * k) = be_long (take (4 * n) bs) (4 * k)" if "k < n" for k using that by (simp add: be_long_def)
  then have "map (\<lambda>k. long_bytes (be_long bs (4 * k))) [0..<n] = map (\<lambda>k. long_bytes (be_long (take (4 * n) bs) (4 * k))) [0..<n]"
    by (intro map_cong) simp_all
  then have "concat (map (\<lambda>k. long_bytes (be_long bs (4 * k))) [0..<n]) = take (4 * n) bs"
    using Suc.IH [of "take (4 * n) bs"] Suc.prems by (simp only:) simp
  moreover have "[bs ! (4 * n), bs ! (4 * n + 1), bs ! (4 * n + 2), bs ! (4 * n + 3)] = drop (4 * n) bs"
    using Suc.prems by (intro nth_equalityI) (auto simp: less_Suc_eq numeral_eq_Suc)
  ultimately show ?case by (simp add: long_bytes_be_long)
qed simp

section \<open>The words of a sector\<close>

definition sector_id :: "nat \<Rightarrow> nat \<Rightarrow> nat \<Rightarrow> u32" where
  "sector_id tr sec n = be_long [0xff, word_of_nat tr, word_of_nat sec, word_of_nat n - word_of_nat sec] 0"

definition both_bits :: "u32 \<Rightarrow> u32" where "both_bits v = odd_bits v XOR even_bits v"

lemma sector_words_content:
  assumes "W = sector_words tr sec n prevbit data head"
  shows "length W = 545" "W ! 0 = (if prevbit then 0x2aaa else 0xaaaa)" "W ! 1 = 0xaaaa" "W ! 2 = 0x4489" "W ! 3 = 0x4489" "W ! 544 = 0"
    "mfm_long W 4 = odd_bits (sector_id tr sec n)" "mfm_long W 6 = even_bits (sector_id tr sec n)"
    "k < 4 \<Longrightarrow> mfm_long W (8 + 2 * k) = odd_bits (be_long head (4 * k)) \<and> mfm_long W (16 + 2 * k) = even_bits (be_long head (4 * k))"
    "mfm_long W 26 = both_bits (sector_id tr sec n) XOR xsum (\<lambda>k. both_bits (be_long head (4 * k))) 4"
    "mfm_long W 24 = drop_bit 1 (mfm_long W 26)" "mfm_long W 28 = drop_bit 1 (mfm_long W 30)"
    "mfm_long W 30 = xsum (\<lambda>k. both_bits (be_long data (4 * k))) 128"
    "l < 128 \<Longrightarrow> mfm_long W (32 + 2 * l) = odd_bits (be_long data (4 * l)) \<and> mfm_long W (288 + 2 * l) = even_bits (be_long data (4 * l))"
proof -
  define m1 where "m1 = (replicate 545 0 :: u16 list)[0 := (if prevbit then 0x2aaa else 0xaaaa), 1 := 0xaaaa, 2 := 0x4489, 3 := 0x4489]"
  define m2 where "m2 = split_long 4 6 (sector_id tr sec n) m1"
  define m3 where "m3 = fold (\<lambda>k. split_long (8 + 2 * k) (16 + 2 * k) (be_long head (4 * k))) [0..<4] m2"
  define m4 where "m4 = store_sum 24 (xor_longs m3 4 10) m3"
  define m5 where "m5 = fold (\<lambda>k. split_long (32 + 2 * k) (288 + 2 * k) (be_long data (4 * k))) [0..<128] m4"
  define m6 where "m6 = store_sum 28 (xor_longs m5 32 256) m5"
  have W: "W = m6[544 := 0]"
    unfolding assms sector_words_def Let_def sector_id_def [symmetric] m1_def [symmetric] m2_def [symmetric] m3_def [symmetric]
      m4_def [symmetric] m5_def [symmetric] m6_def [symmetric] ..
  have l1: "length m1 = 545" "length m2 = 545" by (simp_all add: m1_def m2_def)
  have m3: "length m3 = 545" "\<And>k. k < 4 \<Longrightarrow> mfm_long m3 (8 + 2 * k) = odd_bits (be_long head (4 * k))"
    "\<And>k. k < 4 \<Longrightarrow> mfm_long m3 (16 + 2 * k) = even_bits (be_long head (4 * k))" "\<And>i. i < 8 \<or> 24 \<le> i \<Longrightarrow> m3 ! i = m2 ! i"
    using split_fold [of 8 4 16 m2 "\<lambda>k. be_long head (4 * k)"] l1 unfolding m3_def by auto
  have m4: "length m4 = 545" "\<And>i. i < 24 \<or> 28 \<le> i \<Longrightarrow> m4 ! i = m3 ! i"
    using m3(1) by (auto simp: m4_def store_sum_def nth_put_long)
  have m5: "length m5 = 545" "\<And>k. k < 128 \<Longrightarrow> mfm_long m5 (32 + 2 * k) = odd_bits (be_long data (4 * k))"
    "\<And>k. k < 128 \<Longrightarrow> mfm_long m5 (288 + 2 * k) = even_bits (be_long data (4 * k))" "\<And>i. i < 32 \<or> 544 \<le> i \<Longrightarrow> m5 ! i = m4 ! i"
    using split_fold [of 32 128 288 m4 "\<lambda>k. be_long data (4 * k)"] m4(1) unfolding m5_def by auto
  have m6: "length m6 = 545" "\<And>i. i < 28 \<or> 32 \<le> i \<Longrightarrow> m6 ! i = m5 ! i"
    using m5(1) by (auto simp: m6_def store_sum_def nth_put_long)
  have same: "W ! i = m5 ! i" if "i < 28 \<or> 32 \<le> i" "i \<noteq> 544" for i using that m6(2) by (simp add: W)
  have low: "W ! i = m2 ! i" if "i < 8" for i using that same [of i] m5(4) [of i] m4(2) [of i] m3(4) [of i] by simp
  show "length W = 545" "W ! 544 = 0" using m6(1) by (simp_all add: W)
  show "W ! 0 = (if prevbit then 0x2aaa else 0xaaaa)" "W ! 1 = 0xaaaa" "W ! 2 = 0x4489" "W ! 3 = 0x4489"
    using low by (simp_all add: m2_def split_long_def nth_put_long m1_def)
  have id: "mfm_long m2 4 = odd_bits (sector_id tr sec n)" "mfm_long m2 6 = even_bits (sector_id tr sec n)"
    using l1 by (simp_all add: m2_def split_long_def mfm_long_put mfm_long_put_other)
  show "mfm_long W 4 = odd_bits (sector_id tr sec n)" "mfm_long W 6 = even_bits (sector_id tr sec n)"
    using id low by (simp_all add: mfm_long_def)
  have head: "mfm_long W (8 + 2 * k) = mfm_long m3 (8 + 2 * k)" "mfm_long W (16 + 2 * k) = mfm_long m3 (16 + 2 * k)" if "k < 4" for k
    using that same m5(4) m4(2) by (auto intro!: mfm_long_cong)
  show "mfm_long W (8 + 2 * k) = odd_bits (be_long head (4 * k)) \<and> mfm_long W (16 + 2 * k) = even_bits (be_long head (4 * k))" if "k < 4"
    using head [OF that] m3(2,3) [OF that] by simp
  have "mfm_long m4 26 = xor_longs m3 4 10" "mfm_long m4 24 = drop_bit 1 (xor_longs m3 4 10)"
    using m3(1) by (simp_all add: m4_def store_sum_def mfm_long_put mfm_long_put_other)
  moreover have "mfm_long W 26 = mfm_long m4 26" "mfm_long W 24 = mfm_long m4 24"
    using same m5(4) by (auto intro!: mfm_long_cong)
  ultimately have sum: "mfm_long W 26 = xor_longs m3 4 10" "mfm_long W 24 = drop_bit 1 (xor_longs m3 4 10)" by simp_all
  have "mfm_long m3 4 = odd_bits (sector_id tr sec n)" "mfm_long m3 6 = even_bits (sector_id tr sec n)"
    using id m3(4) by (simp_all add: mfm_long_def)
  then have "xor_longs m3 4 10 = both_bits (sector_id tr sec n) XOR xsum (\<lambda>k. both_bits (be_long head (4 * k))) 4"
    using m3(2,3) [of 0] m3(2,3) [of 1] m3(2,3) [of 2] m3(2,3) [of 3]
    by (simp add: xor_longs_sum numeral_eq_Suc both_bits_def xor.assoc xor.left_commute xor.commute)
  then show "mfm_long W 26 = both_bits (sector_id tr sec n) XOR xsum (\<lambda>k. both_bits (be_long head (4 * k))) 4"
    "mfm_long W 24 = drop_bit 1 (mfm_long W 26)"
    using sum by simp_all
  have dat: "mfm_long W (32 + 2 * l) = mfm_long m5 (32 + 2 * l)" "mfm_long W (288 + 2 * l) = mfm_long m5 (288 + 2 * l)" if "l < 128" for l
    using that same by (auto intro!: mfm_long_cong)
  show "mfm_long W (32 + 2 * l) = odd_bits (be_long data (4 * l)) \<and> mfm_long W (288 + 2 * l) = even_bits (be_long data (4 * l))" if "l < 128"
    using dat [OF that] m5(2,3) [OF that] by simp
  have "mfm_long m6 30 = xor_longs m5 32 256" "mfm_long m6 28 = drop_bit 1 (xor_longs m5 32 256)"
    using m5(1) by (simp_all add: m6_def store_sum_def mfm_long_put mfm_long_put_other)
  moreover have "mfm_long W 30 = mfm_long m6 30" "mfm_long W 28 = mfm_long m6 28" by (simp_all add: W mfm_long_def)
  moreover have "xor_longs m5 32 256 = xsum (\<lambda>k. both_bits (be_long data (4 * k))) 128"
  proof -
    have "xor_longs m5 32 256 = xsum (\<lambda>k. mfm_long m5 (32 + 2 * k)) 128 XOR xsum (\<lambda>k. mfm_long m5 (288 + 2 * k)) 128"
      using xsum_add [of "\<lambda>k. mfm_long m5 (32 + 2 * k)" 128 128] by (simp add: xor_longs_sum algebra_simps)
    also have "\<dots> = xsum (\<lambda>k. odd_bits (be_long data (4 * k))) 128 XOR xsum (\<lambda>k. even_bits (be_long data (4 * k))) 128"
      using m5(2,3) by (simp cong: xsum_cong)
    finally show ?thesis by (simp add: both_bits_def xsum_xor)
  qed
  ultimately show "mfm_long W 30 = xsum (\<lambda>k. both_bits (be_long data (4 * k))) 128" "mfm_long W 28 = drop_bit 1 (mfm_long W 30)"
    by simp_all
qed

section \<open>One sector read back\<close>

text \<open>What the decoder sees of a word does not depend on the clock bits.\<close>

lemma long_of_data: "(push_bit 16 (ucast a) OR ucast b :: u32) AND 0x55555555 =
   push_bit 16 (ucast (a AND 0x5555)) OR ucast (b AND 0x5555)" for a b :: u16
proof (rule bit_word_eqI)
  fix n
  define M :: u32 where "M = 0x55555555"
  have M: "bit M k \<longleftrightarrow> even k \<and> k < 32" for k unfolding M_def by (rule bit_mask_5555)
  define N :: u16 where "N = 0x5555"
  have N: "bit N k \<longleftrightarrow> even k \<and> k < 16" for k unfolding N_def by (rule bit_mask_5555_16)
  assume n: "n < LENGTH(32)"
  show "bit ((push_bit 16 (ucast a) OR ucast b :: u32) AND 0x55555555) n =
      bit (push_bit 16 (ucast (a AND 0x5555)) OR ucast (b AND 0x5555) :: u32) n"
    unfolding M_def [symmetric] N_def [symmetric]
    unfolding bit_or_iff bit_and_iff bit_push_bit_iff bit_unsigned_iff M N
    using n by (auto simp: possible_bit_word bit_word_beyond)
qed

lemma getmfmlong_data:
  assumes "Suc (Suc p) < length buf" "buf ! p AND 0x5555 = W ! i AND 0x5555" "buf ! Suc p AND 0x5555 = W ! Suc i AND 0x5555"
  shows "getmfmlong buf p 0 = Some (even_bits (mfm_long W i))"
  using assms by (simp add: getmfmlong_aligned long_of_data mfm_long_def even_bits_def)

lemma even_bits_odd [simp]: "even_bits (odd_bits v) = odd_bits v" and even_bits_even [simp]: "even_bits (even_bits v) = even_bits v"
  by (simp_all add: even_bits_def odd_bits_def and.assoc)

lemma even_bits_both [simp]: "even_bits (both_bits v) = both_bits v"
  by (simp add: even_bits_def odd_bits_def both_bits_def bit.conj_xor_distrib2 and.assoc)

lemma even_bits_xor: "even_bits (a XOR b) = even_bits a XOR even_bits b"
  by (simp add: even_bits_def bit.conj_xor_distrib2)

lemma even_bits_xsum: "even_bits (xsum f n) = xsum (\<lambda>k. even_bits (f k)) n"
  by (induction n) (simp_all add: even_bits_xor, simp add: even_bits_def)

lemma even_bits_shifted: "even_bits v = v \<Longrightarrow> even_bits (drop_bit 1 v) = 0"
proof (rule bit_word_eqI)
  fix n
  define M :: u32 where "M = 0x55555555"
  have M: "bit M k \<longleftrightarrow> even k \<and> k < 32" for k unfolding M_def by (rule bit_mask_5555)
  assume v: "even_bits v = v" and n: "n < LENGTH(32)"
  have "bit (v AND M) (Suc n) = bit v (Suc n)" using v by (simp add: even_bits_def M_def)
  then show "bit (even_bits (drop_bit 1 v)) n = bit 0 n"
    unfolding even_bits_def M_def [symmetric] bit_and_iff bit_drop_bit_eq M by auto
qed

lemma join_sum: "even_bits v = v \<Longrightarrow> join_long (even_bits (drop_bit 1 v)) v = v"
  unfolding join_long_def by (subst even_bits_shifted) simp_all

text \<open>The identification: format, track, sector and sectors to the gap.\<close>

lemma sector_id_fields:
  assumes "tr < 256" "sec < 256"
  shows "unat (drop_bit 8 (sector_id tr sec n AND 0xff00)) = sec" "uint (drop_bit 16 (sector_id tr sec n AND 0x00ff0000)) = int tr"
proof -
  have m: "v AND 0xff00 = push_bit 8 (take_bit 8 (drop_bit 8 v))" "v AND 0xff0000 = push_bit 16 (take_bit 8 (drop_bit 16 v))" for v :: u32
  proof -
    define A :: u32 where "A = 0xff00"
    define B :: u32 where "B = 0xff0000"
    have "\<forall>k\<in>set [0..<32]. (bit A k \<longleftrightarrow> 8 \<le> k \<and> k < 16) \<and> (bit B k \<longleftrightarrow> 16 \<le> k \<and> k < 24)" unfolding A_def B_def by code_simp
    then have A: "bit A k \<longleftrightarrow> 8 \<le> k \<and> k < 16" and B: "bit B k \<longleftrightarrow> 16 \<le> k \<and> k < 24" for k
      by (cases "k < 32"; simp add: bit_word_beyond)+
    show "v AND 0xff00 = push_bit 8 (take_bit 8 (drop_bit 8 v))" unfolding A_def [symmetric]
      by (rule bit_word_eqI) (auto simp: bit_and_iff A bit_push_bit_iff bit_take_bit_iff bit_drop_bit_eq possible_bit_word)
    show "v AND 0xff0000 = push_bit 16 (take_bit 8 (drop_bit 16 v))" unfolding B_def [symmetric]
      by (rule bit_word_eqI) (auto simp: bit_and_iff B bit_push_bit_iff bit_take_bit_iff bit_drop_bit_eq possible_bit_word)
  qed
  have f: "drop_bit 8 (sector_id tr sec n AND 0xff00) = ucast (word_of_nat sec :: u8)"
    "drop_bit 16 (sector_id tr sec n AND 0xff0000) = ucast (word_of_nat tr :: u8)"
    unfolding m by (rule bit_word_eqI; auto simp: sector_id_def be_long_def bit_simps bit_word_beyond)+
  show "unat (drop_bit 8 (sector_id tr sec n AND 0xff00)) = sec" "uint (drop_bit 16 (sector_id tr sec n AND 0x00ff0000)) = int tr"
    unfolding f using assms by (simp_all add: unsigned_ucast_eq unat_of_nat uint_nat take_bit_nat_eq_self)
qed

lemma sector_id_mark: "bit (odd_bits (sector_id tr sec n)) 24"
proof -
  define F :: u8 where "F = 0xff"
  have F: "bit F 1" by (simp add: F_def)
  define M :: u32 where "M = 0x55555555"
  have "bit M 24" unfolding M_def bit_mask_5555 by simp
  then show ?thesis
    using F unfolding odd_bits_def sector_id_def be_long_def F_def [symmetric] M_def [symmetric]
    by (simp add: bit_and_iff bit_drop_bit_eq bit_or_iff bit_push_bit_iff bit_unsigned_iff possible_bit_word)
qed

text \<open>The words of a sector as \<^verbatim>\<open>decode_amigados\<close> copies them\<close>

lemma mfm_word_zero: "ws ! i = 0 \<Longrightarrow> i < length ws \<Longrightarrow> mfmcode_words l ws ! i \<in> {0xaaaa, 0x2aaa}"
proof (induction ws arbitrary: l i)
  case (Cons w ws)
  show ?case
  proof (cases i)
    case 0
    define A where "A = (0xaaaa :: u16)"
    define B where "B = (0x2aaa :: u16)"
    have "\<forall>j\<in>set [0..<16]. bit A j = odd j" "\<forall>j\<in>set [0..<16]. bit B j = (j \<noteq> 15 \<and> odd j)" unfolding A_def B_def by code_simp+
    then have AB: "bit A j = odd j" "bit B j = (j \<noteq> 15 \<and> odd j)" if "j < 16" for j using that by auto
    have "mfm_word l w = (if bit (mfm_word l w) 15 then A else B)"
    proof (rule bit_word_eqI)
      fix j assume "j < LENGTH(16)"
      then have j: "j < 16" by simp
      then show "bit (mfm_word l w) j = bit (if bit (mfm_word l w) 15 then A else B) j"
        using Cons.prems 0 mfm_word_bit [OF j, of l w] by (cases "j = 15") (auto simp: AB)
    qed
    then have "mfm_word l w \<in> {A, B}" by (metis insertCI)
    then show ?thesis using 0 by (simp add: A_def B_def)
  next
    case (Suc j)
    then show ?thesis using Cons by simp
  qed
qed simp

lemma amiga_sector_words:
  assumes "W = sector_words tr sec n prevbit data head" "amiga_sector tr sec n prevbit data head = Some C"
  shows "length C = 545" "i < 4 \<Longrightarrow> C ! i = W ! i" "4 \<le> i \<Longrightarrow> i < 545 \<Longrightarrow> C ! i AND 0x5555 = W ! i AND 0x5555"
    "C ! 544 \<in> {0xaaaa, 0x2aaa}" "C ! 4 \<noteq> 0x4489"
proof -
  note W = sector_words_content [OF assms(1)]
  have C: "C = take 4 W @ mfmcode_words 0 (take 541 (drop 4 W)) @ drop 545 W"
    using assms W(1) by (simp add: amiga_sector_def mfmcode_def)
  show "length C = 545" using W(1) by (simp add: C)
  show "C ! i = W ! i" if "i < 4" using that W(1) by (simp add: C nth_append)
  show dat: "C ! i AND 0x5555 = W ! i AND 0x5555" if "4 \<le> i" "i < 545" for i
    using that W(1) by (simp add: C nth_append mfmcode_words_data)
  show "C ! 544 \<in> {0xaaaa, 0x2aaa}"
    using W(1,6) mfm_word_zero [of "take 541 (drop 4 W)" 540 0] by (simp add: C nth_append)
  have "bit (mfm_long W 4) 24" using W(7) sector_id_mark by simp
  then have "bit (W ! 4) 8" by (simp add: mfm_long_def bit_or_iff bit_push_bit_iff bit_unsigned_iff bit_word_beyond)
  moreover have "bit (C ! 4 AND 0x5555) 8 = bit (W ! 4 AND 0x5555) 8" using dat [of 4] by simp
  ultimately have "bit (C ! 4) 8" unfolding bit_and_iff bit_mask_5555_16 by simp
  moreover have "\<not> bit (0x4489 :: u16) 8" by simp
  ultimately show "C ! 4 \<noteq> 0x4489" by metis
qed

text \<open>A sector of the track at word \<open>p\<close> of a buffer, from its identification on\<close>

definition sector_at :: "u16 list \<Rightarrow> nat \<Rightarrow> nat \<Rightarrow> nat \<Rightarrow> nat \<Rightarrow> u8 list \<Rightarrow> u8 list \<Rightarrow> bool" where
  "sector_at buf p tr sec n data head \<longleftrightarrow> p + 540 < length buf \<and> length data = 512 \<and> length head = 16 \<and>
     (\<exists>prevbit C. amiga_sector tr sec n prevbit data head = Some C \<and> (\<forall>i<540. buf ! (p + i) = C ! (4 + i)))"

lemma sector_at_longs:
  assumes "sector_at buf p tr sec n data head"
  shows "getmfmlong buf p 0 = Some (odd_bits (sector_id tr sec n))" "getmfmlong buf (p + 2) 0 = Some (even_bits (sector_id tr sec n))"
    "k < 4 \<Longrightarrow> getmfmlong buf (p + 4 + 2 * k) 0 = Some (odd_bits (be_long head (4 * k)))"
    "k < 4 \<Longrightarrow> getmfmlong buf (p + 4 + 8 + 2 * k) 0 = Some (even_bits (be_long head (4 * k)))"
    "l < 128 \<Longrightarrow> getmfmlong buf (p + 28 + 2 * l) 0 = Some (odd_bits (be_long data (4 * l)))"
    "l < 128 \<Longrightarrow> getmfmlong buf (p + 28 + 256 + 2 * l) 0 = Some (even_bits (be_long data (4 * l)))"
    "\<exists>od ev. getmfmlong buf (p + 20) 0 = Some od \<and> getmfmlong buf (p + 22) 0 = Some ev \<and>
      join_long od ev = both_bits (sector_id tr sec n) XOR xsum (\<lambda>k. both_bits (be_long head (4 * k))) 4"
    "\<exists>od ev. getmfmlong buf (p + 24) 0 = Some od \<and> getmfmlong buf (p + 26) 0 = Some ev \<and>
      join_long od ev = xsum (\<lambda>k. both_bits (be_long data (4 * k))) 128"
proof -
  obtain prevbit C where C: "amiga_sector tr sec n prevbit data head = Some C" "\<forall>i<540. buf ! (p + i) = C ! (4 + i)"
    and len: "p + 540 < length buf"
    using assms unfolding sector_at_def by blast
  define W where "W = sector_words tr sec n prevbit data head"
  note W = sector_words_content [OF W_def]
  have at: "getmfmlong buf (p + i) 0 = Some (even_bits (mfm_long W (4 + i)))" if "i < 539" for i
    using that len C(2) amiga_sector_words(3) [OF W_def C(1), of "4 + i"] amiga_sector_words(3) [OF W_def C(1), of "Suc (4 + i)"]
    by (intro getmfmlong_data) (auto simp: add_Suc_right [symmetric] simp del: add_Suc_right)
  show "getmfmlong buf p 0 = Some (odd_bits (sector_id tr sec n))" "getmfmlong buf (p + 2) 0 = Some (even_bits (sector_id tr sec n))"
    using at [of 0] at [of 2] W(7,8) by simp_all
  show "getmfmlong buf (p + 4 + 2 * k) 0 = Some (odd_bits (be_long head (4 * k)))"
    "getmfmlong buf (p + 4 + 8 + 2 * k) 0 = Some (even_bits (be_long head (4 * k)))" if "k < 4"
    using at [of "4 + 2 * k"] at [of "12 + 2 * k"] W(9) [OF that] that by (simp_all add: add.assoc)
  show "getmfmlong buf (p + 28 + 2 * l) 0 = Some (odd_bits (be_long data (4 * l)))"
    "getmfmlong buf (p + 28 + 256 + 2 * l) 0 = Some (even_bits (be_long data (4 * l)))" if "l < 128"
    using at [of "28 + 2 * l"] at [of "284 + 2 * l"] W(14) [OF that] that by (simp_all add: add.assoc)
  have e: "even_bits (mfm_long W 26) = mfm_long W 26" "even_bits (mfm_long W 30) = mfm_long W 30"
    unfolding W(10,13) by (simp_all add: even_bits_xor even_bits_xsum)
  show "\<exists>od ev. getmfmlong buf (p + 20) 0 = Some od \<and> getmfmlong buf (p + 22) 0 = Some ev \<and>
      join_long od ev = both_bits (sector_id tr sec n) XOR xsum (\<lambda>k. both_bits (be_long head (4 * k))) 4"
    using at [of 20] at [of 22] W(11) join_sum [OF e(1)] e(1) unfolding W(10) [symmetric] by simp
  show "\<exists>od ev. getmfmlong buf (p + 24) 0 = Some od \<and> getmfmlong buf (p + 26) 0 = Some ev \<and>
      join_long od ev = xsum (\<lambda>k. both_bits (be_long data (4 * k))) 128"
    using at [of 24] at [of 26] W(12) join_sum [OF e(2)] e(2) unfolding W(13) [symmetric] by simp
qed

lemma length_long_bytes_concat: "length (concat (map (\<lambda>k. long_bytes (f k)) [0..<n])) = 4 * n"
  by (induction n) (auto simp: long_bytes_def)

text \<open>The bytes of header and data are nonzero longs just when a byte is nonzero.\<close>

lemma head_longs_zero: "set head \<subseteq> {0} \<Longrightarrow> length head = 16 \<Longrightarrow> k < 4 \<Longrightarrow> be_long head (4 * k) = 0"
proof -
  assume h: "set head \<subseteq> {0}" "length head = 16" and k: "k < 4"
  have "head ! i = 0" if "i < 16" for i using h(1,2) that by (metis nth_mem singletonD subsetD)
  then show "be_long head (4 * k) = 0" using k by (simp add: be_long_def)
qed

definition stored :: "nat \<Rightarrow> u8 list \<Rightarrow> u8 list \<Rightarrow> decoded \<Rightarrow> decoded option" where
  "stored sec data head d =
     do { wb \<leftarrow> patch (sec * 512) data (writebuffer d);
          hb \<leftarrow> patch (sec * 16) head (writesecheadbuffer d);
          st \<leftarrow> patch sec [1] (sectable d);
          Some (d\<lparr>writebuffer := wb, writesecheadbuffer := hb, sectable := st\<rparr>) }"

lemma decode_sector_at:
  assumes "sector_at buf p tr sec m data head" "tr < 256" "sec < n" "n \<le> 256" "ftype \<noteq> ADF_EXT2 \<or> checkmode \<or> set head \<subseteq> {0}"
    "stored sec data head d = Some d'"
  shows "decode_sector buf (int tr) n ftype checkmode p 0 d = Some (Inr (p + 540, True, d'))"
proof -
  note s = sector_at_longs [OF assms(1)]
  have len: "length data = 512" "length head = 16" using assms(1) by (auto simp: sector_at_def)
  obtain od ev where sum: "getmfmlong buf (p + 20) 0 = Some od" "getmfmlong buf (p + 22) 0 = Some ev"
      "join_long od ev = both_bits (sector_id tr sec m) XOR xsum (\<lambda>k. both_bits (be_long head (4 * k))) 4"
    using s(7) by blast
  obtain od2 ev2 where sum2: "getmfmlong buf (p + 24) 0 = Some od2" "getmfmlong buf (p + 26) 0 = Some ev2"
      "join_long od2 ev2 = xsum (\<lambda>k. both_bits (be_long data (4 * k))) 128"
    using s(8) by blast
  define hl where "hl = map (\<lambda>k. be_long head (4 * k)) [0..<4]"
  define dl where "dl = map (\<lambda>k. be_long data (4 * k)) [0..<128]"
  have hb: "concat (map long_bytes hl) = head" and db: "concat (map long_bytes dl) = data"
    using concat_long_bytes [of head 4] concat_long_bytes [of data 128] len by (simp_all add: hl_def dl_def comp_def)
  have h: "get_longs buf (p + 4) 0 8 4 c = Some (hl, c XOR xsum (\<lambda>k. both_bits (be_long head (4 * k))) 4)" for c
    unfolding hl_def
    using get_longs_all [of 4 buf "p + 4" 0 "\<lambda>k. odd_bits (be_long head (4 * k))" 8 "\<lambda>k. even_bits (be_long head (4 * k))" c] s(3,4)
    by (simp add: both_bits_def [symmetric])
  have dt: "get_longs buf (p + 28) 0 256 128 c = Some (dl, c XOR xsum (\<lambda>k. both_bits (be_long data (4 * k))) 128)" for c
    unfolding dl_def
    using get_longs_all [of 128 buf "p + 28" 0 "\<lambda>k. odd_bits (be_long data (4 * k))" 256 "\<lambda>k. even_bits (be_long data (4 * k))" c] s(5,6)
    by (simp add: both_bits_def [symmetric])
  have sec: "sec < 256" using assms(3,4) by linarith
  note id = sector_id_fields [OF assms(2) sec, of m]
  have nohead: "\<not> (ftype = ADF_EXT2 \<and> \<not> checkmode \<and> (\<exists>l\<in>set hl. l \<noteq> 0))"
    using assms(5) head_longs_zero [OF _ len(2)] by (auto simp: hl_def)
  have x: "odd_bits v XOR even_bits v = both_bits v" for v by (simp add: both_bits_def)
  obtain wb hb' st where w: "patch (sec * 512) data (writebuffer d) = Some wb" "patch (sec * 16) head (writesecheadbuffer d) = Some hb'"
      "patch sec [1] (sectable d) = Some st" "d' = d\<lparr>writebuffer := wb, writesecheadbuffer := hb', sectable := st\<rparr>"
    using assms(6) by (auto simp: stored_def split: bind_splits)
  have nosec: "\<not> (sec + 1 > n)" using assms(3) by simp
  have e: "p + 4 + 8 = p + 12" "p + 12 + 8 = p + 20" "p + 20 + 2 = p + 22" "p + 20 + 4 = p + 24" "p + 24 + 2 = p + 26"
    "p + 24 + 4 = p + 28" "p + 28 + 256 + 256 = p + 540" by simp_all
  show ?thesis
    unfolding decode_sector_def s(1,2) Let_def bind.bind_lunit join_split id(1) if_not_P [OF nosec] h x prod.case
    unfolding e sum bind.bind_lunit sum2 dt prod.case id(2)
    using nohead hb db w by (auto simp: w id(1))
qed

section \<open>Finding the sync marks\<close>

text \<open>The words a track has between sectors. At no bit position is a sync mark read from them, also not
  across the word in front of one.\<close>

definition gap_words :: "u16 set" where "gap_words = {0xaaaa, 0x2aaa}"

lemma gap_no_sync:
  assumes "a \<in> gap_words" "b \<in> gap_words \<or> b = 0x4489" "s < 16"
  shows "push_bit s a OR drop_bit (16 - s) b \<noteq> 0x4489"
proof -
  have "\<forall>s\<in>set [0..<16]. \<forall>a\<in>set [0xaaaa, 0x2aaa]. \<forall>b\<in>set [0xaaaa, 0x2aaa, 0x4489].
      push_bit s (a :: u16) OR drop_bit (16 - s) b \<noteq> 0x4489"
    by code_simp
  then show ?thesis using assms by (auto simp: gap_words_def)
qed

lemma find_sync_word:
  assumes "buf ! p \<in> gap_words" "buf ! Suc p \<in> gap_words \<or> buf ! Suc p = 0x4489" "Suc p < length buf" "p < mend" "s < 16"
  shows "find_sync buf mend p s = find_sync buf mend (Suc p) 0"
  using assms(5)
proof (induction "16 - s" arbitrary: s)
  case (Suc n)
  have w: "getmfmword buf p s = Some (push_bit s (buf ! p) OR drop_bit (16 - s) (buf ! Suc p))"
    using assms(3) by (simp add: getmfmword_def rd_def)
  note no = gap_no_sync [OF assms(1,2) Suc.prems]
  show ?case
  proof (cases "s + 1 = 16")
    case True
    then show ?thesis using w no assms(4) by (subst find_sync.simps) simp
  next
    case False
    have "find_sync buf mend p s = find_sync buf mend p (s + 1)"
      using w no assms(4) False by (subst find_sync.simps) simp
    then show ?thesis using Suc.hyps(1) [of "s + 1"] Suc.hyps(2) Suc.prems False by simp
  qed
qed simp

lemma find_sync_gap:
  assumes "p \<le> q" "\<forall>i. p \<le> i \<and> i < q \<longrightarrow> buf ! i \<in> gap_words" "buf ! q = 0x4489" "Suc q < length buf" "q \<le> mend"
  shows "find_sync buf mend p 0 = Some (Some (q, 0))"
  using assms(1,2)
proof (induction "q - p" arbitrary: p)
  case 0
  then show ?case using assms(3-5) by (subst find_sync.simps) simp
next
  case (Suc n)
  then have "find_sync buf mend p 0 = find_sync buf mend (Suc p) 0"
  proof (intro find_sync_word)
    show "buf ! p \<in> gap_words" using Suc by simp
    show "buf ! Suc p \<in> gap_words \<or> buf ! Suc p = 0x4489" using Suc assms(3) by (cases "Suc p = q") auto
  qed (use Suc.hyps(2) assms(4,5) in auto)
  then show ?case using Suc by auto
qed

lemma skip_sync_two:
  assumes "buf ! q = 0x4489" "buf ! (q + 1) = 0x4489" "buf ! (q + 2) \<noteq> 0x4489" "q + 3 < length buf" "q + 1 < mend"
  shows "skip_sync buf mend q 0 = Some (Some (q + 2))"
  using assms by (simp add: skip_sync.simps numeral_eq_Suc)

section \<open>A whole track\<close>

definition track_laid :: "u16 list \<Rightarrow> nat \<Rightarrow> nat \<Rightarrow> nat \<Rightarrow> nat \<Rightarrow> (nat \<Rightarrow> u8 list) \<Rightarrow> (nat \<Rightarrow> u8 list) \<Rightarrow> bool" where
  "track_laid buf g tr n s data head \<longleftrightarrow> (\<forall>i<g. buf ! i \<in> gap_words) \<and>
     (\<forall>t < s. buf ! (g + 544 * t) \<in> gap_words \<and>
        (\<exists>prevbit C. amiga_sector tr t n prevbit (data t) (head t) = Some C \<and>
           (\<forall>i. 0 < i \<and> i < 544 \<longrightarrow> buf ! (g + 544 * t + i) = C ! i)))"

lemma put_sector_nth:
  assumes "off + 544 \<le> len" "len \<le> length buf"
  shows "length (put_sector len off m buf) = length buf \<and>
    (\<forall>i<length buf. put_sector len off m buf ! i =
       (if i = (off + 544) mod len then m ! 544 else if off \<le> i \<and> i < off + 544 then m ! (i - off) else buf ! i))"
proof -
  have *: "k \<le> 544 \<Longrightarrow> length (fold (\<lambda>i b. b[(off + i) mod len := m ! i]) [0..<k] buf) = length buf \<and>
      (\<forall>i<length buf. fold (\<lambda>i b. b[(off + i) mod len := m ! i]) [0..<k] buf ! i =
        (if off \<le> i \<and> i < off + k then m ! (i - off) else buf ! i))" for k
  proof (induction k)
    case (Suc k)
    then have "(off + k) mod len = off + k" using assms by simp
    then show ?case using Suc assms by (auto simp: nth_list_update)
  qed auto
  have "0 < len" using assms(1) by simp
  then have "(off + 544) mod len < length buf" using assms(2) mod_less_divisor order_less_le_trans by blast
  moreover have "[0..<545] = [0..<544] @ [544]" by (simp add: upt_Suc_append [symmetric] numeral_eq_Suc del: upt_Suc)
  ultimately show ?thesis using * [of 544] by (simp add: put_sector_def nth_list_update)
qed

lemma amiga_sector_total: "\<exists>C. amiga_sector tr sec n prevbit data head = Some C"
  using sector_words_content(1) [OF refl] by (simp add: amiga_sector_def mfmcode_def)

lemma amiga_sector_first: "amiga_sector tr sec n prevbit data head = Some C \<Longrightarrow> C ! 0 \<in> gap_words"
  using amiga_sector_words(2) [OF refl, of tr sec n prevbit data head C 0] sector_words_content(2) [OF refl, of tr sec n prevbit data head]
  by (simp add: gap_words_def)

lemma track_laid_step:
  assumes "track_laid buf g tr n s data head" "amiga_sector tr s n prevbit (data s) (head s) = Some C" "g + 544 * s + 544 \<le> len"
    "len \<le> length buf"
  shows "track_laid (put_sector len (g + 544 * s) C buf) g tr n (Suc s) data head"
proof -
  define off where "off = g + 544 * s"
  let ?b = "put_sector len off C buf"
  define z where "z = (off + 544) mod len"
  have z: "z = off + 544 \<or> z = 0"
  proof (cases "off + 544 = len")
    case False
    then show ?thesis using assms(3) by (simp add: z_def off_def)
  qed (simp add: z_def)
  have put: "?b ! i = (if i = z then C ! 544 else if off \<le> i \<and> i < off + 544 then C ! (i - off) else buf ! i)" if "i < length buf" for i
    using put_sector_nth [of off len buf C] assms(3,4) that unfolding z_def off_def by blast
  have last: "C ! 544 \<in> gap_words" using amiga_sector_words(4) [OF refl assms(2)] by (simp add: gap_words_def)
  have lt: "g + 544 * t + i < length buf" if "t \<le> s" "i < 544" for t i
  proof -
    have "544 * t \<le> 544 * s" using that(1) by simp
    then show ?thesis using that(2) assms(3,4) by linarith
  qed
  have "\<forall>i<g. ?b ! i \<in> gap_words"
  proof (intro allI impI)
    fix i assume i: "i < g"
    have "i < length buf" using i assms(3,4) by linarith
    moreover have "\<not> off \<le> i" using i by (simp add: off_def)
    ultimately show "?b ! i \<in> gap_words" using put [of i] last assms(1) i by (simp add: track_laid_def)
  qed
  moreover have "?b ! (g + 544 * t) \<in> gap_words \<and>
      (\<exists>prevbit C. amiga_sector tr t n prevbit (data t) (head t) = Some C \<and> (\<forall>i. 0 < i \<and> i < 544 \<longrightarrow> ?b ! (g + 544 * t + i) = C ! i))"
    if t: "t < Suc s" for t
  proof (cases "t = s")
    case True
    have "?b ! off \<in> gap_words"
      using put [of off] lt [of s 0] last amiga_sector_first [OF assms(2)] by (auto simp: off_def)
    moreover have "?b ! (off + i) = C ! i" if "0 < i" "i < 544" for i
      using put [of "off + i"] lt [of s i] z that by (auto simp: off_def)
    ultimately show ?thesis using assms(2) True unfolding off_def by blast
  next
    case False
    then have "t < s" using t by simp
    then obtain prevbit C' where c: "buf ! (g + 544 * t) \<in> gap_words" "amiga_sector tr t n prevbit (data t) (head t) = Some C'"
        "\<forall>i. 0 < i \<and> i < 544 \<longrightarrow> buf ! (g + 544 * t + i) = C' ! i"
      using assms(1) unfolding track_laid_def by blast
    have "Suc t \<le> s" using \<open>t < s\<close> by simp
    then have "544 * Suc t \<le> 544 * s" by (rule mult_le_mono2)
    then have below: "g + 544 * t + i < off" if "i < 544" for i using that by (simp add: off_def)
    have "?b ! (g + 544 * t) \<in> gap_words" using put [of "g + 544 * t"] lt [of t 0] below [of 0] last c(1) \<open>t < s\<close> by simp
    moreover have "?b ! (g + 544 * t + i) = C' ! i" if "0 < i" "i < 544" for i
      using put [of "g + 544 * t + i"] lt [of t i] below [of i] c(3) z that \<open>t < s\<close> by auto
    ultimately show ?thesis using c(2) by blast
  qed
  ultimately show ?thesis unfolding track_laid_def off_def by blast
qed

lemma amiga_sectors_laid:
  assumes "track_laid buf g tr n s data head" "s \<le> n" "g + 544 * n \<le> len" "len \<le> length buf"
    "\<forall>t<n. rds t = Some (data t, Some (head t))"
  shows "\<exists>buf'. amiga_sectors rds tr n len (g + 544 * s) prevbit [s..<n] buf = Some buf' \<and> length buf' = length buf \<and>
    track_laid buf' g tr n n data head"
  using assms(1,2,4)
proof (induction "n - s" arbitrary: s buf prevbit)
  case 0
  then show ?case by auto
next
  case (Suc k)
  then have s: "s < n" by simp
  obtain C where C: "amiga_sector tr s n prevbit (data s) (head s) = Some C" using amiga_sector_total by blast
  have fit: "g + 544 * s + 544 \<le> len"
  proof -
    have "544 * Suc s \<le> 544 * n" using s by (intro mult_le_mono2) simp
    then show ?thesis using assms(3) by simp
  qed
  let ?b = "put_sector len (g + 544 * s) C buf"
  have len: "length ?b = length buf" using put_sector_nth [OF fit Suc.prems(3)] by blast
  have "track_laid ?b g tr n (Suc s) data head" by (rule track_laid_step [OF Suc.prems(1) C fit Suc.prems(3)])
  moreover have "k = n - Suc s" using Suc.hyps(2) by simp
  ultimately obtain buf' where b: "amiga_sectors rds tr n len (g + 544 * Suc s) (bit (C ! 543) 0) [Suc s..<n] ?b = Some buf'"
      "length buf' = length ?b" "track_laid buf' g tr n n data head"
    using Suc.hyps(1) [of "Suc s" ?b "bit (C ! 543) 0"] s Suc.prems(3) len by auto
  have "amiga_sectors rds tr n len (g + 544 * s) prevbit [s..<n] buf = Some buf'"
    using b(1) assms(5) s C by (simp add: upt_conv_Cons algebra_simps)
  then show ?case using b len by auto
qed

lemma amiga_sectors_beyond:
  assumes "amiga_sectors rds tr n len off prevbit secs buf = Some buf'" "off + 544 * length secs \<le> len" "len \<le> length buf" "len \<le> i" "i < length buf"
  shows "buf' ! i = buf ! i"
  using assms
proof (induction secs arbitrary: off prevbit buf)
  case (Cons sec secs)
  obtain m where m: "amiga_sectors rds tr n len (off + 544) (bit (m ! 543) 0) secs (put_sector len off m buf) = Some buf'"
    using Cons.prems(1) by (auto split: bind_splits)
  have fit: "off + 544 \<le> len" using Cons.prems(2) by simp
  have z: "(off + 544) mod len < len" using fit by (intro mod_less_divisor) simp
  have "length (put_sector len off m buf) = length buf" "put_sector len off m buf ! i = buf ! i"
  proof -
    have "i \<noteq> (off + 544) mod len" "\<not> i < off + 544" using z Cons.prems(4) fit by linarith+
    then show "length (put_sector len off m buf) = length buf" "put_sector len off m buf ! i = buf ! i"
      using put_sector_nth [OF fit Cons.prems(3), of m] Cons.prems(5) by simp_all
  qed
  then show ?case using Cons.IH [OF m] Cons.prems by simp
qed simp

text \<open>What the decoder has stored after the first \<open>s\<close> sectors\<close>

definition stored_upto :: "(nat \<Rightarrow> u8 list) \<Rightarrow> (nat \<Rightarrow> u8 list) \<Rightarrow> nat \<Rightarrow> decoded \<Rightarrow> decoded" where
  "stored_upto data head s d = d\<lparr>writebuffer := overwrite (concat (map data [0..<s])) (writebuffer d),
     writesecheadbuffer := overwrite (concat (map head [0..<s])) (writesecheadbuffer d),
     sectable := overwrite (replicate s 1) (sectable d)\<rparr>"

lemma patch_overwrite:
  assumes "length xs = i" "i + length bs \<le> length ys"
  shows "patch i bs (overwrite xs ys) = Some (overwrite (xs @ bs) ys)"
  using assms by (simp add: patch_def overwrite_def add.commute)

lemma length_concat_map: "\<forall>t < s. length (f t) = k \<Longrightarrow> length (concat (map f [0..<s])) = s * k"
  by (induction s) auto

lemma stored_upto_step:
  assumes "\<forall>t \<le> s. length (data t) = 512" "\<forall>t \<le> s. length (head t) = 16" "512 * Suc s \<le> length (writebuffer d)"
    "16 * Suc s \<le> length (writesecheadbuffer d)" "Suc s \<le> length (sectable d)"
  shows "stored s (data s) (head s) (stored_upto data head s d) = Some (stored_upto data head (Suc s) d)"
proof -
  have "length (concat (map data [0..<s])) = s * 512" "length (concat (map head [0..<s])) = s * 16"
    using assms(1,2) by (auto intro: length_concat_map)
  then show ?thesis
    using assms by (simp add: stored_def stored_upto_def patch_overwrite replicate_append_same [symmetric])
qed

text \<open>The loop runs over sectors \<open>a\<close> to \<open>b\<close> of a track that starts at word \<open>g\<close>.\<close>

lemma decode_loop_lap:
  assumes laid: "\<forall>t<m. buf ! (g + 544 * t) \<in> gap_words \<and>
      (\<exists>prevbit C. amiga_sector tr t m prevbit (data t) (head t) = Some C \<and>
         (\<forall>i. 0 < i \<and> i < 544 \<longrightarrow> buf ! (g + 544 * t + i) = C ! i))"
    and fit: "g + 544 * m < length buf" "g + 544 * b \<le> mend" and bounds: "tr < 256" "n \<le> 256" "b \<le> m" "b \<le> n"
    and lens: "\<forall>t<m. length (data t) = 512 \<and> length (head t) = 16"
    and zero: "ftype \<noteq> ADF_EXT2 \<or> checkmode \<or> (\<forall>t<m. set (head t) \<subseteq> {0})"
    and D: "\<And>t. t < m \<Longrightarrow> stored t (data t) (head t) (D t) = Some (D (Suc t))"
    and start: "a \<le> b" "c + (b - a) \<le> n" "p \<le> g + 544 * a" "\<forall>i. p \<le> i \<and> i < g + 544 * a \<longrightarrow> buf ! i \<in> gap_words"
  shows "decode_loop buf mend (int tr) n ftype checkmode p 0 c (D a) =
    decode_loop buf mend (int tr) n ftype checkmode (if a = b then p else g + 544 * b) 0 (c + (b - a)) (D b)"
  using start
proof (induction "b - a" arbitrary: a c p)
  case 0
  then show ?case by simp
next
  case (Suc k)
  then have s: "a < b" "a < m" using bounds(3) by simp_all
  define q where "q = g + 544 * a"
  have "544 * Suc a \<le> 544 * b" "544 * b \<le> 544 * m" using s bounds(3) by (intro mult_le_mono2; simp)+
  then have q: "q + 544 \<le> g + 544 * b" "q + 544 \<le> g + 544 * m" by (simp_all add: q_def)
  obtain prevbit C where C: "amiga_sector tr a m prevbit (data a) (head a) = Some C" "\<And>i. 0 < i \<Longrightarrow> i < 544 \<Longrightarrow> buf ! (q + i) = C ! i"
      "buf ! q \<in> gap_words"
    using laid s(2) unfolding q_def by blast
  note W = sector_words_content [OF refl [of "sector_words tr a m prevbit (data a) (head a)"]]
  note c = amiga_sector_words [OF refl C(1)]
  have w: "buf ! (q + 1) \<in> gap_words" "buf ! (q + 2) = 0x4489" "buf ! (q + 3) = 0x4489" "buf ! (q + 4) \<noteq> 0x4489"
    using C(2) [of 1] C(2) [of 2] C(2) [of 3] C(2) [of 4] c(2) [of 1] c(2) [of 2] c(2) [of 3] c(5) W(3-5) by (simp_all add: gap_words_def)
  have "\<forall>i. p \<le> i \<and> i < q + 2 \<longrightarrow> buf ! i \<in> gap_words"
  proof (intro allI impI)
    fix i assume i: "p \<le> i \<and> i < q + 2"
    then consider "i < q" | "i = q" | "i = q + 1" by linarith
    then show "buf ! i \<in> gap_words" by cases (use i Suc.prems(4) C(3) w(1) in \<open>auto simp: q_def\<close>)
  qed
  then have find: "find_sync buf mend p 0 = Some (Some (q + 2, 0))"
    using w(2) q fit Suc.prems(3) by (intro find_sync_gap) (auto simp: q_def)
  have e: "q + 2 + 1 = q + 3" "q + 2 + 2 = q + 4" by simp_all
  have skip: "skip_sync buf mend (q + 2) 0 = Some (Some (q + 4))"
    using skip_sync_two [of buf "q + 2" mend] w q fit unfolding e by simp
  have at: "sector_at buf (q + 4) tr a m (data a) (head a)"
    unfolding sector_at_def
  proof (intro conjI exI allI impI)
    show "buf ! (q + 4 + i) = C ! (4 + i)" if "i < 540" for i using C(2) [of "4 + i"] that by (simp add: add.assoc)
  qed (use C(1) q fit lens s in auto)
  have n: "a < n" using s(1) bounds(4) by simp
  have sec: "decode_sector buf (int tr) n ftype checkmode (q + 4) 0 (D a) = Some (Inr (q + 4 + 540, True, D (Suc a)))"
    using zero s by (intro decode_sector_at [OF at bounds(1) n bounds(2) _ D]) auto
  have cn: "c < n" using Suc.hyps(2) Suc.prems(2) by linarith
  have "decode_loop buf mend (int tr) n ftype checkmode p 0 c (D a) =
      decode_loop buf mend (int tr) n ftype checkmode (q + 544) 0 (c + 1) (D (Suc a))"
    using find skip sec cn by (subst decode_loop.simps) (simp add: add.commute)
  also have "\<dots> = decode_loop buf mend (int tr) n ftype checkmode (if Suc a = b then q + 544 else g + 544 * b) 0 (c + 1 + (b - Suc a)) (D b)"
    using Suc.hyps(2) Suc.prems s by (intro Suc.hyps(1)) (auto simp: q_def)
  also have "(if Suc a = b then q + 544 else g + 544 * b) = g + 544 * b" by (auto simp: q_def)
  also have "c + 1 + (b - Suc a) = c + (b - a)" using s(1) by simp
  finally show ?case using s(1) by simp
qed

text \<open>The track of an image in the buffer of its drive\<close>

definition image_ok :: "(nat \<Rightarrow> u8 list \<times> u8 list) \<Rightarrow> nat \<Rightarrow> drive \<Rightarrow> (nat \<Rightarrow> u8 list) \<Rightarrow> (nat \<Rightarrow> u8 list) \<Rightarrow> bool" where
  "image_ok stack tside drv data head \<longleftrightarrow>
     (\<forall>sec<num_secs drv. read_floppy_data (diskfile drv) (filetype drv) (trackdata drv ! (cyl drv * 2 + tside)) (int sec)
         (fst (stack sec)) (Some (snd (stack sec))) 512 = Some (data sec, Some (head sec)) \<and>
       length (data sec) = 512 \<and> length (head sec) = 16)"

lemma decode_amigados_laid:
  assumes "image_ok stack tside drv data head" "11 * 544 \<le> wl" "num_secs drv * 544 + (wl - 11 * 544) \<le> length (bigmfmbuf drv)"
  shows "\<exists>buf. decode_amigados (int wl) stack tside drv = Some (drv\<lparr>bigmfmbuf := buf, skipoffset := (wl - 11 * 544) * 8 div 3 * 2,
      tracklen := (num_secs drv * 544 + (wl - 11 * 544)) * 2 * 8\<rparr>) \<and> length buf = length (bigmfmbuf drv) \<and>
    track_laid buf (wl - 11 * 544) (cyl drv * 2 + tside) (num_secs drv) (num_secs drv) data head \<and>
    (\<forall>i. num_secs drv * 544 + (wl - 11 * 544) \<le> i \<and> i < length buf \<longrightarrow> buf ! i = bigmfmbuf drv ! i)"
proof -
  let ?n = "num_secs drv" and ?g = "wl - 11 * 544" and ?tr = "cyl drv * 2 + tside"
  define len where "len = ?n * 544 + ?g"
  define rds where "rds = (\<lambda>sec. read_floppy_data (diskfile drv) (filetype drv) (trackdata drv ! ?tr) (int sec)
                   (fst (stack sec)) (Some (snd (stack sec))) 512)"
  let ?b = "overwrite (replicate len 0xaaaa) (bigmfmbuf drv)"
  have lb: "length ?b = length (bigmfmbuf drv)" using assms(3) by (simp add: overwrite_def len_def)
  have "track_laid ?b ?g ?tr ?n 0 data head"
    by (auto simp: track_laid_def overwrite_def nth_append len_def gap_words_def)
  moreover have "\<forall>t<?n. rds t = Some (data t, Some (head t))" using assms(1) by (simp add: image_ok_def rds_def)
  ultimately obtain buf where b: "amiga_sectors rds ?tr ?n len (?g + 544 * 0) False [0..<?n] ?b = Some buf" "length buf = length ?b"
      "track_laid buf ?g ?tr ?n ?n data head"
    using amiga_sectors_laid [of ?b ?g ?tr ?n 0 data head len rds False] lb assms(3) by (auto simp: len_def)
  have i: "int ?n * 544 + (int wl - 11 * 544) = int len" "nat (int wl - 11 * 544) = ?g" "\<not> int wl - 11 * 544 < 0"
    using assms(2) by (simp_all add: len_def of_nat_diff nat_diff_distrib)
  have fit: "len \<le> length ?b" using lb assms(3) by (simp add: len_def)
  have beyond: "\<forall>i. num_secs drv * 544 + (wl - 11 * 544) \<le> i \<and> i < length buf \<longrightarrow> buf ! i = bigmfmbuf drv ! i"
    unfolding len_def [symmetric]
  proof (intro allI impI)
    fix i assume i: "len \<le> i \<and> i < length buf"
    have "buf ! i = ?b ! i" by (rule amiga_sectors_beyond [OF b(1) _ fit]) (use i b(2) in \<open>auto simp: len_def\<close>)
    then show "buf ! i = bigmfmbuf drv ! i" using i b(2) lb by (simp add: overwrite_def nth_append)
  qed
  have "\<not> length (bigmfmbuf drv) < len" using assms(3) by (simp add: len_def)
  then have "decode_amigados (int wl) stack tside drv = Some (drv\<lparr>bigmfmbuf := buf, skipoffset := (wl - 11 * 544) * 8 div 3 * 2,
      tracklen := (num_secs drv * 544 + (wl - 11 * 544)) * 2 * 8\<rparr>)"
    using b i by (simp add: decode_amigados_def Let_def rds_def [symmetric] len_def [symmetric])
  moreover have "length buf = length (bigmfmbuf drv)" using b(2) lb by (rule trans)
  ultimately show ?thesis using b(3) beyond by (intro exI [of _ buf] conjI)
qed

text \<open>The copy of the track that \<^verbatim>\<open>decode_buffer\<close> puts behind it\<close>

lemma doubled:
  assumes "2 * w \<le> length buf"
  shows "\<exists>buf'. patch w (take w buf) buf = Some buf' \<and> length buf' = length buf \<and> (\<forall>i<w. buf' ! i = buf ! i \<and> buf' ! (w + i) = buf ! i)"
  using assms by (intro exI [of _ "take w buf @ take w buf @ drop (w + w) buf"]) (auto simp: patch_def nth_append)

text \<open>C10: An AmigaDOS track survives the recording code: whatever the sectors of an image hold, the track that
  \<^verbatim>\<open>decode_amigados\<close> writes into the drive's buffer is one in which \<^verbatim>\<open>decode_buffer\<close> finds every sector; it returns 0, the
  sectors and their headers stand in the write buffers as they were in the image, in order, and every
  sector of the track is marked in the table.\<close>

theorem amigados_track_round_trip:
  assumes "image_ok stack tside drv data head" "11 * 544 \<le> wl" "ddhd drv \<in> {1, 2}" "num_secs drv \<le> 11 * ddhd drv"
    "2 * (wl * ddhd drv) < length (bigmfmbuf drv)" "cyl drv * 2 + tside < 256"
    "filetype drv \<noteq> ADF_EXT2 \<or> 0 < num_secs drv \<and> (checkmode \<or> (\<forall>t<num_secs drv. set (head t) \<subseteq> {0}))"
    "512 * MAX_SECTORS \<le> length (writebuffer d)" "16 * MAX_SECTORS \<le> length (writesecheadbuffer d)"
  shows "\<exists>drv' buf'. decode_amigados (int wl) stack tside drv = Some drv' \<and>
    decode_buffer wl tside (bigmfmbuf drv') (cyl drv) (num_secs drv) (ddhd drv) (filetype drv) checkmode d =
      Some (0, d\<lparr>writebuffer := overwrite (concat (map data [0..<num_secs drv])) (writebuffer d),
        writesecheadbuffer := overwrite (concat (map head [0..<num_secs drv])) (writesecheadbuffer d),
        sectable := replicate (num_secs drv) 1 @ replicate (MAX_SECTORS - num_secs drv) 0\<rparr>, buf')"
proof -
  let ?n = "num_secs drv" and ?g = "wl - 11 * 544" and ?w = "wl * ddhd drv" and ?tr = "cyl drv * 2 + tside"
  have n: "?n \<le> 22" "?g + 544 * ?n \<le> ?w" using assms(2-4) by auto
  obtain drv' where drv': "decode_amigados (int wl) stack tside drv = Some drv'" "length (bigmfmbuf drv') = length (bigmfmbuf drv)"
      "track_laid (bigmfmbuf drv') ?g ?tr ?n ?n data head"
    using decode_amigados_laid [OF assms(1,2)] n(2) assms(5) by (auto simp: mult.commute)
  obtain buf' where buf': "patch ?w (take ?w (bigmfmbuf drv')) (bigmfmbuf drv') = Some buf'" "length buf' = length (bigmfmbuf drv)"
      "\<And>i. i < ?w \<Longrightarrow> buf' ! i = bigmfmbuf drv' ! i"
    using doubled [of ?w "bigmfmbuf drv'"] assms(5) drv'(2) by auto
  have lt: "?g + 544 * t + i < ?w" if "t < ?n" "i < 544" for t i
  proof -
    have "544 * Suc t \<le> 544 * ?n" using that(1) by (intro mult_le_mono2) simp
    then show ?thesis using that(2) n(2) by simp
  qed
  let ?d = "d\<lparr>sectable := replicate MAX_SECTORS 0\<rparr>"
  have "decode_loop buf' (2 * ?w - 540) (int ?tr) ?n (filetype drv) checkmode 0 0 0 (stored_upto data head 0 ?d) =
      decode_loop buf' (2 * ?w - 540) (int ?tr) ?n (filetype drv) checkmode (if 0 = ?n then 0 else ?g + 544 * ?n) 0 (0 + (?n - 0)) (stored_upto data head ?n ?d)"
  proof (rule decode_loop_lap [where m = ?n and g = ?g and data = data and head = head and D = "\<lambda>s. stored_upto data head s ?d"])
    show "\<forall>t<?n. buf' ! (?g + 544 * t) \<in> gap_words \<and> (\<exists>prevbit C. amiga_sector ?tr t ?n prevbit (data t) (head t) = Some C \<and>
         (\<forall>i. 0 < i \<and> i < 544 \<longrightarrow> buf' ! (?g + 544 * t + i) = C ! i))"
      using drv'(3) buf'(3) [OF lt] buf'(3) [OF lt [where i = 0]] unfolding track_laid_def by simp
    show "\<forall>i. 0 \<le> i \<and> i < ?g + 544 * 0 \<longrightarrow> buf' ! i \<in> gap_words" using drv'(3) n(2) buf'(3) by (simp add: track_laid_def)
    show "stored t (data t) (head t) (stored_upto data head t ?d) = Some (stored_upto data head (Suc t) ?d)" if "t < ?n" for t
      using that assms(1,8,9) n(1) by (intro stored_upto_step) (auto simp: image_ok_def MAX_SECTORS_def)
  qed (use assms n buf'(2) in \<open>auto simp: image_ok_def\<close>)
  also have "\<dots> = Some (0, stored_upto data head ?n ?d)" using assms(7) by (subst decode_loop.simps) auto
  finally have "decode_loop buf' (2 * ?w - 540) (int ?tr) ?n (filetype drv) checkmode 0 0 0 ?d = Some (0, stored_upto data head ?n ?d)"
    by (simp add: stored_upto_def overwrite_def)
  then show ?thesis
    using drv'(1) buf'(1) n(1)
    by (intro exI [of _ drv'] exI [of _ buf']) (simp add: decode_buffer_def Let_def stored_upto_def overwrite_def MAX_SECTORS_def)
qed

definition sample_drive :: "nat \<Rightarrow> drive" where
  "sample_drive n = \<lparr>diskfile = replicate (11 * 512) 7, filetype = ADF_NORMAL, trackdata = [\<lparr>offs = 0, extraoffs = 0, track = 0\<rparr>], cyl = 0,
     num_secs = n, ddhd = 1, bigmfmbuf = replicate MAXMFMBUF 0xaaaa, skipoffset = 0, tracklen = 0\<rparr>"

definition sample_buffers :: decoded where
  "sample_buffers = \<lparr>writebuffer = replicate (544 * MAX_SECTORS) 0, writesecheadbuffer = replicate (16 * MAX_SECTORS) 0, sectable = []\<rparr>"

lemma sample_image: "n \<le> 11 \<Longrightarrow>
  image_ok (\<lambda>_. (replicate 512 0, replicate 16 1)) 0 (sample_drive n) (\<lambda>_. replicate 512 7) (\<lambda>_. replicate 16 0)"
  by (simp add: image_ok_def sample_drive_def read_floppy_data_def read_image_def fread_at_def overwrite_def Let_def nat_mult_distrib)

theorem amigados_track_round_trip_witness:
  "\<exists>drv' d' buf'. decode_amigados (int 6334) (\<lambda>_. (replicate 512 0, replicate 16 1)) 0 (sample_drive 11) = Some drv' \<and>
    decode_buffer 6334 0 (bigmfmbuf drv') 0 11 1 ADF_NORMAL False sample_buffers = Some (0, d', buf') \<and>
    sectable d' = replicate 11 1 @ replicate 11 0"
proof -
  have [simp]: "num_secs (sample_drive 11) = 11" "ddhd (sample_drive 11) = 1" "cyl (sample_drive 11) = 0" "filetype (sample_drive 11) = ADF_NORMAL"
    "length (bigmfmbuf (sample_drive 11)) = MAXMFMBUF"
    by (simp_all add: sample_drive_def)
  have "length (writebuffer sample_buffers) = 544 * MAX_SECTORS" "length (writesecheadbuffer sample_buffers) = 16 * MAX_SECTORS"
    by (simp_all add: sample_buffers_def)
  then show ?thesis
    using amigados_track_round_trip [OF sample_image [OF order_refl], of 6334 False sample_buffers]
    by (auto simp: MAX_SECTORS_def MAXMFMBUF_def)
qed

section \<open>Tracks that are damaged or foreign\<close>

lemma find_sync_total:
  assumes "s < 16" "Suc (max p mend) < length buf"
  shows "\<exists>r. find_sync buf mend p s = Some r \<and>
    (\<forall>p' s'. r = Some (p', s') \<longrightarrow> p \<le> p' \<and> p' \<le> max p mend \<and> s' < 16 \<and> getmfmword buf p' s' = Some 0x4489)"
  using assms
proof (induction "16 * (mend - p) + (16 - s)" arbitrary: p s rule: less_induct)
  case less
  have "Suc p < length buf" using less.prems by simp
  then obtain w where w: "getmfmword buf p s = Some w" by (simp add: getmfmword_def rd_def)
  consider "w = 0x4489" | "w \<noteq> 0x4489" "mend \<le> p" | "w \<noteq> 0x4489" "p < mend" "s + 1 = 16" | "w \<noteq> 0x4489" "p < mend" "s + 1 < 16"
    using less.prems by linarith
  then show ?case
  proof cases
    case 3
    have "find_sync buf mend p s = find_sync buf mend (p + 1) 0" using w 3 by (subst find_sync.simps) simp
    then show ?thesis using less.hyps [of "p + 1" 0] 3 less.prems by (fastforce simp: max_def)
  next
    case 4
    have "find_sync buf mend p s = find_sync buf mend p (s + 1)" using w 4 by (subst find_sync.simps) simp
    then show ?thesis using less.hyps [of p "s + 1"] 4 less.prems by fastforce
  qed (use w less.prems in \<open>subst find_sync.simps, auto\<close>)+
qed

lemma skip_sync_total:
  assumes "Suc (max p mend) < length buf" "getmfmword buf p s = Some 0x4489"
  shows "\<exists>r. skip_sync buf mend p s = Some r \<and> (\<forall>p'. r = Some p' \<longrightarrow> p < p' \<and> p' \<le> mend)"
  using assms
proof (induction "mend - p" arbitrary: p rule: less_induct)
  case less
  show ?case
  proof (cases "mend \<le> p")
    case True
    then show ?thesis using less.prems by (subst skip_sync.simps) simp
  next
    case False
    have "Suc (Suc p) < length buf" using less.prems False by simp
    then obtain w where w: "getmfmword buf (p + 1) s = Some w" by (simp add: getmfmword_def rd_def)
    have s: "skip_sync buf mend p s = skip_sync buf mend (p + 1) s" using less.prems False by (subst skip_sync.simps) simp
    show ?thesis
    proof (cases "w = 0x4489")
      case True
      then show ?thesis using less.hyps [of "p + 1"] w s less.prems False by fastforce
    next
      case False
      then have "skip_sync buf mend (p + 1) s = Some (Some (p + 1))" using w by (subst skip_sync.simps) simp
      then show ?thesis using s \<open>\<not> mend \<le> p\<close> by simp
    qed
  qed
qed

lemma getmfmlong_total: "Suc (Suc p) < length buf \<Longrightarrow> \<exists>v. getmfmlong buf p s = Some v"
  by (simp add: getmfmlong_def getmfmword_def rd_def)

lemma get_longs_total: "p + gap + 2 * n < length buf \<Longrightarrow>
   \<exists>ls c'. get_longs buf p s gap n c = Some (ls, c') \<and> length ls = n"
proof (induction n arbitrary: p c)
  case (Suc n)
  obtain od ev where "getmfmlong buf p s = Some od" "getmfmlong buf (p + gap) s = Some ev"
    using getmfmlong_total [of p buf s] getmfmlong_total [of "p + gap" buf s] Suc.prems by auto
  then show ?case using Suc.IH [of "p + 2" "c XOR (od XOR ev)"] Suc.prems by fastforce
qed simp

definition buffers_ok :: "decoded \<Rightarrow> bool" where
  "buffers_ok d \<longleftrightarrow> length (writebuffer d) = 544 * MAX_SECTORS \<and> length (writesecheadbuffer d) = 16 * MAX_SECTORS \<and>
     length (sectable d) = MAX_SECTORS"

lemma patch_total: "i + length bs \<le> length xs \<Longrightarrow> \<exists>ys. patch i bs xs = Some ys \<and> length ys = length xs"
  by (simp add: patch_def)

lemma length_concat_long_bytes: "length (concat (map long_bytes ls)) = 4 * length ls"
  by (induction ls) (auto simp: long_bytes_def)

lemma decode_sector_total:
  assumes "p + 540 < length buf" "n \<le> MAX_SECTORS" "buffers_ok d"
  shows "(\<exists>code. decode_sector buf trk n ftype checkmode p s d = Some (Inl code) \<and> code \<in> {2, 3, 4, 6}) \<or>
    (\<exists>p' st d'. decode_sector buf trk n ftype checkmode p s d = Some (Inr (p', st, d')) \<and> p < p' \<and> p' \<le> p + 540 \<and> buffers_ok d')"
proof -
  have rd: "\<exists>v. getmfmlong buf (p + i) s = Some v" if "i < 538" for i using getmfmlong_total [of "p + i" buf s] that assms(1) by simp
  obtain o1 e1 o2 e2 o3 e3 where g: "getmfmlong buf p s = Some o1" "getmfmlong buf (p + 2) s = Some e1" "getmfmlong buf (p + 20) s = Some o2"
      "getmfmlong buf (p + 22) s = Some e2" "getmfmlong buf (p + 24) s = Some o3" "getmfmlong buf (p + 26) s = Some e3"
    using rd [of 0] rd [of 2] rd [of 20] rd [of 22] rd [of 24] rd [of 26] by auto
  obtain hl c1 where h: "get_longs buf (p + 4) s 8 4 (o1 XOR e1) = Some (hl, c1)" "length hl = 4"
    using get_longs_total [of "p + 4" 8 4 buf s "o1 XOR e1"] assms(1) by auto
  obtain dl c2 where dt: "get_longs buf (p + 28) s 256 128 (join_long o3 e3) = Some (dl, c2)" "length dl = 128"
    using get_longs_total [of "p + 28" 256 128 buf s "join_long o3 e3"] assms(1) by auto
  define sec where "sec = unat (drop_bit 8 (join_long o1 e1 AND 0xff00))"
  have e: "p + 4 + 8 = p + 12" "p + 12 + 8 = p + 20" "p + 20 + 2 = p + 22" "p + 20 + 4 = p + 24" "p + 24 + 2 = p + 26"
    "p + 24 + 4 = p + 28" "p + 28 + 256 + 256 = p + 540" by simp_all
  show ?thesis
  proof (cases "sec + 1 > n")
    case True
    then show ?thesis
      unfolding decode_sector_def g(1,2) Let_def bind.bind_lunit sec_def [symmetric] using assms(3) by auto
  next
    case False
    then have "sec < MAX_SECTORS" using assms(2) by simp
    moreover have "length (concat (map long_bytes dl)) = 512" "length (concat (map long_bytes hl)) = 16"
      by (simp_all add: length_concat_long_bytes h(2) dt(2))
    ultimately obtain wb hb st where w: "patch (sec * 512) (concat (map long_bytes dl)) (writebuffer d) = Some wb"
        "patch (sec * 16) (concat (map long_bytes hl)) (writesecheadbuffer d) = Some hb" "patch sec [1] (sectable d) = Some st"
        "buffers_ok (d\<lparr>writebuffer := wb, writesecheadbuffer := hb, sectable := st\<rparr>)"
      using assms(3) patch_total [of "sec * 512" "concat (map long_bytes dl)" "writebuffer d"]
        patch_total [of "sec * 16" "concat (map long_bytes hl)" "writesecheadbuffer d"] patch_total [of sec "[1]" "sectable d"]
      by (auto simp: buffers_ok_def)
    have "decode_sector buf trk n ftype checkmode p s d =
      (if (\<not> checkmode \<and> (\<exists>l\<in>set hl. l \<noteq> 0)) \<and> ftype = ADF_EXT2 then Some (Inl 6)
       else if join_long o2 e2 \<noteq> c1 then Some (if ftype = ADF_EXT2 then Inl 3 else Inr (p + 24, False, d))
       else if uint (drop_bit 16 (join_long o1 e1 AND 0x00ff0000)) \<noteq> trk then Some (if ftype = ADF_EXT2 then Inl 3 else Inr (p + 24, False, d))
       else if c2 \<noteq> 0 then Some (if ftype = ADF_EXT2 then Inl 4 else Inr (p + 28 + 256, False, d))
       else Some (Inr (p + 540, True, d\<lparr>writebuffer := wb, writesecheadbuffer := hb, sectable := st\<rparr>)))"
      unfolding decode_sector_def g(1,2) Let_def bind.bind_lunit sec_def [symmetric] if_not_P [OF False] h(1) prod.case
      unfolding e g(3-6) bind.bind_lunit dt(1) prod.case w(1-3) ..
    moreover have "\<exists>b. b" "\<exists>b. \<not> b" by blast+
    ultimately show ?thesis using assms(3) w(4) by (simp split: if_split)
  qed
qed

lemma decode_loop_total:
  assumes "mend + 541 < length buf" "p \<le> mend + 540" "shift < 16" "n \<le> MAX_SECTORS" "buffers_ok d"
  shows "\<exists>code d'. decode_loop buf mend trk n ftype checkmode p shift c d = Some (code, d') \<and> code \<in> {0..6} \<and> buffers_ok d'"
  using assms(2-)
proof (induction "mend + 540 - p" arbitrary: p shift c d rule: less_induct)
  case less
  show ?case
  proof (cases "c < n")
    case False
    then show ?thesis using less.prems(4) by (subst decode_loop.simps) auto
  next
    case True
    obtain r where r: "find_sync buf mend p shift = Some r"
        "\<And>p' s'. r = Some (p', s') \<Longrightarrow> p \<le> p' \<and> p' \<le> max p mend \<and> s' < 16 \<and> getmfmword buf p' s' = Some 0x4489"
      proof -
      have "Suc (max p mend) < length buf" using less.prems(1) assms(1) by simp
      from find_sync_total [OF less.prems(2) this] show thesis using that by blast
    qed
    show ?thesis
    proof (cases r)
      case None
      then show ?thesis using r True less.prems(4) by (subst decode_loop.simps) simp
    next
      case (Some ps)
      obtain p1 s1 where ps: "r = Some (p1, s1)" using Some by (cases ps) simp
      note at = r(2) [OF ps]
      obtain q where q: "skip_sync buf mend p1 s1 = Some q" "\<And>p'. q = Some p' \<Longrightarrow> p1 < p' \<and> p' \<le> mend"
      proof -
        have "max p mend \<le> mend + 540" using less.prems(1) by simp
        then have "p1 \<le> mend + 540" using at by linarith
        then have "Suc (max p1 mend) < length buf" using assms(1) by simp
        moreover have "getmfmword buf p1 s1 = Some 0x4489" using at by blast
        ultimately show thesis using skip_sync_total [of p1 mend buf s1] that by blast
      qed
      show ?thesis
      proof (cases q)
        case None
        then show ?thesis using r(1) ps q(1) True less.prems(4) by (subst decode_loop.simps) simp
      next
        case (Some p2)
        have p2: "p < p2" "p2 \<le> mend" using q(2) [OF Some] at by auto
        have "p2 + 540 < length buf" using p2 assms(1) by simp
        from decode_sector_total [OF this less.prems(3,4), of trk ftype checkmode s1] show ?thesis
        proof (elim disjE exE conjE)
          fix code
          assume "decode_sector buf trk n ftype checkmode p2 s1 d = Some (Inl code)" "code \<in> {2, 3, 4, 6}"
          then show ?thesis using r(1) ps q(1) Some True less.prems(4) by (subst decode_loop.simps) auto
        next
          fix p3 st d'
          assume d: "decode_sector buf trk n ftype checkmode p2 s1 d = Some (Inr (p3, st, d'))" "p2 < p3" "p3 \<le> p2 + 540" "buffers_ok d'"
          have "mend + 540 - p3 < mend + 540 - p" using d p2 by simp
          then obtain code d'' where "decode_loop buf mend trk n ftype checkmode p3 s1 (if st then c + 1 else c) d' = Some (code, d'')"
              "code \<in> {0..6}" "buffers_ok d''"
            using less.hyps [of p3 s1 d' "if st then c + 1 else c"] d p2 at less.prems(3) by auto
          then show ?thesis using r(1) ps q(1) Some True d(1) by (subst decode_loop.simps) simp
        qed
      qed
    qed
  qed
qed

text \<open>C11: Whatever bits a track holds, \<^verbatim>\<open>decode_buffer\<close> ends and stays within its buffers: with the track and its
  copy shorter than the buffer of the drive (both lengths are even, so two words of the buffer stay unused) and at most as many
  sectors asked for as the tables have, the search comes
  to an end with one of its seven codes, without reading past the buffer or writing past the write buffers
  or the table. (A track and a copy that fill the buffer exactly are not covered: reading the last word of a
  sector also reads the word behind it, and that may then lie behind the buffer.)\<close>

theorem decode_buffer_safe:
  assumes "length mbuf = MAXMFMBUF" "2 * (wl * dens) < MAXMFMBUF" "n \<le> MAX_SECTORS"
    "length (writebuffer d) = 544 * MAX_SECTORS" "length (writesecheadbuffer d) = 16 * MAX_SECTORS"
  shows "\<exists>code d' mbuf'. decode_buffer wl sd mbuf cylinder n dens ftype checkmode d = Some (code, d', mbuf') \<and> code \<in> {0..6} \<and>
    buffers_ok d' \<and> length mbuf' = MAXMFMBUF"
proof -
  obtain mbuf' where m: "patch (wl * dens) (take (wl * dens) mbuf) mbuf = Some mbuf'" "length mbuf' = MAXMFMBUF"
    using doubled [of "wl * dens" mbuf] assms(1,2) by auto
  define x where "x = wl * dens"
  have "2 * x - 540 + 541 < length mbuf'" using m(2) assms(2) unfolding x_def [symmetric] by (simp add: MAXMFMBUF_def)
  then have fit: "2 * (wl * dens) - 540 + 541 < length mbuf'" by (simp only: x_def)
  have ok: "buffers_ok (d\<lparr>sectable := replicate MAX_SECTORS 0\<rparr>)" using assms(4,5) by (simp add: buffers_ok_def)
  obtain code d' where "decode_loop mbuf' (2 * (wl * dens) - 540) (int (cylinder * 2 + sd)) n ftype checkmode 0 0 0
      (d\<lparr>sectable := replicate MAX_SECTORS 0\<rparr>) = Some (code, d')" "code \<in> {0..6}" "buffers_ok d'"
    using decode_loop_total [OF fit _ _ assms(3) ok, of 0 0 "int (cylinder * 2 + sd)" ftype checkmode 0] by auto
  then show ?thesis using m by (simp add: decode_buffer_def Let_def)
qed

theorem decode_buffer_safe_witness:
  "\<exists>code d' mbuf'. decode_buffer 6334 0 (replicate MAXMFMBUF 0x4489) 0 11 1 ADF_NORMAL False sample_buffers = Some (code, d', mbuf') \<and>
     code \<in> {0..6} \<and> buffers_ok d' \<and> length mbuf' = MAXMFMBUF"
  by (rule decode_buffer_safe) (simp_all add: sample_buffers_def MAXMFMBUF_def MAX_SECTORS_def)

section \<open>Two errors\<close>

lemma patch_same: "take (length bs) (drop i xs) = bs \<Longrightarrow> i + length bs \<le> length xs \<Longrightarrow> patch i bs xs = Some xs"
  unfolding patch_def by (simp, metis append_take_drop_id drop_drop add.commute)

lemma take_drop_concat:
  assumes "t < m" "\<forall>t<m. length (f t) = k"
  shows "take k (drop (t * k) (concat (map f [0..<m]) @ ys)) = f t"
proof -
  have "[0..<m] = [0..<t] @ t # [Suc t..<m]"
    using upt_add_eq_append [of 0 t "m - t"] assms(1) by (simp add: upt_conv_Cons)
  moreover have "length (concat (map f [0..<t])) = t * k" using assms by (intro length_concat_map) simp
  ultimately show ?thesis using assms by simp
qed

lemma stored_again:
  assumes "t < m" "\<forall>t<m. length (data t) = 512 \<and> length (head t) = 16" "512 * m \<le> length (writebuffer d)"
    "16 * m \<le> length (writesecheadbuffer d)" "m \<le> length (sectable d)"
  shows "stored t (data t) (head t) (stored_upto data head m d) = Some (stored_upto data head m d)"
proof -
  have l: "length (concat (map data [0..<m])) = m * 512" "length (concat (map head [0..<m])) = m * 16"
    using assms(2) by (simp_all add: length_concat_map)
  have le: "t * 512 + 512 \<le> m * 512" "t * 16 + 16 \<le> m * 16" using assms(1) by simp_all
  have "patch (t * 512) (data t) (overwrite (concat (map data [0..<m])) (writebuffer d)) = Some (overwrite (concat (map data [0..<m])) (writebuffer d))"
    "patch (t * 16) (head t) (overwrite (concat (map head [0..<m])) (writesecheadbuffer d)) = Some (overwrite (concat (map head [0..<m])) (writesecheadbuffer d))"
    using take_drop_concat [of t m data 512] take_drop_concat [of t m head 16] assms l le
    by (intro patch_same; simp add: overwrite_def)+
  moreover have "patch t [1] (overwrite (replicate m 1) (sectable d)) = Some (overwrite (replicate m 1) (sectable d))"
  proof (rule patch_same)
    have "drop t (replicate m 1) = 1 # replicate (m - Suc t) (1 :: nat)" using assms(1) by (simp add: replicate_Suc [symmetric] Suc_diff_Suc del: replicate_Suc)
    then show "take (length [1]) (drop t (overwrite (replicate m 1) (sectable d))) = [1]" by (simp add: overwrite_def)
  qed (use assms in \<open>simp add: overwrite_def\<close>)
  ultimately show ?thesis by (simp add: stored_def stored_upto_def)
qed

text \<open>C36: A track with too few sectors passes for a whole one: \<^verbatim>\<open>decode_buffer\<close> counts sectors without looking whether the
  table has them already, and the copy of the track behind it holds each of them once more. Take a drive with a plain image
  (\<^verbatim>\<open>ADF_NORMAL\<close>), of \<open>m\<close> sectors per track, whose whole track buffer holds the gap pattern \<open>aaaa\<close> before
  \<^verbatim>\<open>decode_amigados\<close> writes the \<open>m\<close> sectors of the track into it. Asked for \<open>n\<close> sectors, more than \<open>m\<close>,
  at most twice as many and at most eleven (22 on a high density disk), \<^verbatim>\<open>decode_buffer\<close> returns 0, success, though the table of sectors found lacks those from \<open>m\<close> on,
  and the write buffer holds in their place what it held before.\<close>

theorem decode_buffer_counts_twice:
  assumes "image_ok stack tside drv data head" "11 * 544 \<le> wl" "ddhd drv \<in> {1, 2}" "num_secs drv = m" "1 \<le> m" "m < n" "n \<le> 2 * m" "n \<le> 11 * ddhd drv"
    "2 * (wl * ddhd drv) < length (bigmfmbuf drv)" "\<forall>i<length (bigmfmbuf drv). bigmfmbuf drv ! i = 0xaaaa" "cyl drv * 2 + tside < 256"
    "filetype drv = ADF_NORMAL" "buffers_ok (d\<lparr>sectable := replicate MAX_SECTORS 0\<rparr>)"
  shows "\<exists>drv' d' buf'. decode_amigados (int wl) stack tside drv = Some drv' \<and>
    decode_buffer wl tside (bigmfmbuf drv') (cyl drv) n (ddhd drv) (filetype drv) checkmode d = Some (0, d', buf') \<and>
    (\<forall>t. m \<le> t \<and> t < n \<longrightarrow> sectable d' ! t = 0) \<and> drop (512 * m) (writebuffer d') = drop (512 * m) (writebuffer d)"
proof -
  let ?g = "wl - 11 * 544" and ?w = "wl * ddhd drv" and ?tr = "cyl drv * 2 + tside"
  have n: "n \<le> 22" "?g + 544 * m \<le> ?w" "?g + 544 * (n - m) + 540 \<le> ?w" using assms(2-8) by auto
  obtain drv' where drv': "decode_amigados (int wl) stack tside drv = Some drv'" and buf: "length (bigmfmbuf drv') = length (bigmfmbuf drv)"
      "track_laid (bigmfmbuf drv') ?g ?tr m m data head"
      "\<And>i. ?g + 544 * m \<le> i \<Longrightarrow> i < length (bigmfmbuf drv) \<Longrightarrow> bigmfmbuf drv' ! i \<in> gap_words"
    using decode_amigados_laid [OF assms(1,2)] n(2) assms(4,9,10) by (auto simp: mult.commute add.commute gap_words_def)
  obtain buf' where buf': "patch ?w (take ?w (bigmfmbuf drv')) (bigmfmbuf drv') = Some buf'" "length buf' = length (bigmfmbuf drv)"
      "\<And>i. i < ?w \<Longrightarrow> buf' ! i = bigmfmbuf drv' ! i" "\<And>i. i < ?w \<Longrightarrow> buf' ! (?w + i) = bigmfmbuf drv' ! i"
    using doubled [of ?w "bigmfmbuf drv'"] assms(9) buf(1) by auto
  have lt: "?g + 544 * t + i < ?w" if "t < m" "i < 544" for t i
  proof -
    have "544 * Suc t \<le> 544 * m" using that(1) by (intro mult_le_mono2) simp
    then show ?thesis using that(2) n(2) by simp
  qed
  let ?d = "d\<lparr>sectable := replicate MAX_SECTORS 0\<rparr>"
  let ?loop = "decode_loop buf' (2 * ?w - 540) (int ?tr) n (filetype drv) checkmode"
  have len: "\<forall>t<m. length (data t) = 512 \<and> length (head t) = 16" using assms(1,4) by (simp add: image_ok_def)
  have d: "length (writebuffer ?d) = 544 * 22" "length (writesecheadbuffer ?d) = 16 * 22" "length (sectable ?d) = 22"
    using assms(13) by (simp_all add: buffers_ok_def MAX_SECTORS_def)
  have m: "m \<le> 11 * ddhd drv" "m \<le> 22" using assms(6) n(1) assms(8) by simp_all
  have "?loop 0 0 0 (stored_upto data head 0 ?d) = ?loop (if 0 = m then 0 else ?g + 544 * m) 0 (0 + (m - 0)) (stored_upto data head m ?d)"
  proof (rule decode_loop_lap [where m = m and g = ?g and data = data and head = head and D = "\<lambda>s. stored_upto data head s ?d"])
    show "\<forall>t<m. buf' ! (?g + 544 * t) \<in> gap_words \<and> (\<exists>prevbit C. amiga_sector ?tr t m prevbit (data t) (head t) = Some C \<and>
         (\<forall>i. 0 < i \<and> i < 544 \<longrightarrow> buf' ! (?g + 544 * t + i) = C ! i))"
      using buf(2) buf'(3) [OF lt] buf'(3) [OF lt [where i = 0]] unfolding track_laid_def by simp
    show "\<forall>i. 0 \<le> i \<and> i < ?g + 544 * 0 \<longrightarrow> buf' ! i \<in> gap_words" using buf(2) n(2) buf'(3) by (simp add: track_laid_def)
    show "stored t (data t) (head t) (stored_upto data head t ?d) = Some (stored_upto data head (Suc t) ?d)" if "t < m" for t
      using that len d m(2) by (intro stored_upto_step) auto
    show "?g + 544 * m \<le> 2 * ?w - 540" using n(2,3) by linarith
  qed (use assms n buf'(2) m len in auto)
  also have "\<dots> = ?loop (?g + 544 * m) 0 m (stored_upto data head m ?d)" using assms(5) by simp
  also have "\<dots> = ?loop (if 0 = n - m then ?g + 544 * m else ?w + ?g + 544 * (n - m)) 0 (m + (n - m - 0)) (stored_upto data head m ?d)"
  proof (rule decode_loop_lap [where m = m and g = "?w + ?g" and a = 0 and data = data and head = head and D = "\<lambda>_. stored_upto data head m ?d"])
    show "\<forall>t<m. buf' ! (?w + ?g + 544 * t) \<in> gap_words \<and> (\<exists>prevbit C. amiga_sector ?tr t m prevbit (data t) (head t) = Some C \<and>
         (\<forall>i. 0 < i \<and> i < 544 \<longrightarrow> buf' ! (?w + ?g + 544 * t + i) = C ! i))"
      using buf(2) buf'(4) [OF lt] buf'(4) [OF lt [where i = 0]] unfolding track_laid_def by (simp add: add.assoc)
    show "\<forall>i. ?g + 544 * m \<le> i \<and> i < ?w + ?g + 544 * 0 \<longrightarrow> buf' ! i \<in> gap_words"
    proof (intro allI impI)
      fix i assume i: "?g + 544 * m \<le> i \<and> i < ?w + ?g + 544 * 0"
      show "buf' ! i \<in> gap_words"
      proof (cases "i < ?w")
        case True
        then show ?thesis using i buf(3) buf'(3) assms(9) by simp
      next
        case False
        then have "i - ?w < ?g" using i by linarith
        moreover from this have "i - ?w < ?w" using n(2) by linarith
        moreover have "?w + (i - ?w) = i" using False by simp
        ultimately show ?thesis using buf'(4) [of "i - ?w"] buf(2) by (simp add: track_laid_def)
      qed
    qed
    show "stored t (data t) (head t) (stored_upto data head m ?d) = Some (stored_upto data head m ?d)" if "t < m" for t
      using that len d m(2) by (intro stored_again) auto
    show "?w + ?g + 544 * (n - m) \<le> 2 * ?w - 540" "?w + ?g + 544 * m < length buf'" using n(2,3) assms(9) buf'(2) by linarith+
  qed (use assms n m len in auto)
  also have "\<dots> = Some (0, stored_upto data head m ?d)" using assms(5,6,12) by (subst decode_loop.simps) auto
  finally have run: "?loop 0 0 0 ?d = Some (0, stored_upto data head m ?d)" by (simp add: stored_upto_def overwrite_def)
  have "sectable (stored_upto data head m ?d) ! t = 0" if "m \<le> t \<and> t < n" for t
  proof -
    have "t - m < 22 - m" using that n(1) by linarith
    then show ?thesis using that by (simp add: stored_upto_def overwrite_def nth_append MAX_SECTORS_def)
  qed
  moreover have "drop (512 * m) (writebuffer (stored_upto data head m ?d)) = drop (512 * m) (writebuffer d)"
    using len by (simp add: stored_upto_def overwrite_def length_concat_map [of m data 512] mult.commute)
  ultimately show ?thesis
    using drv' buf'(1) run
    by (intro exI [of _ drv'] exI [of _ "stored_upto data head m ?d"] exI [of _ buf']) (simp add: decode_buffer_def Let_def)
qed

theorem decode_buffer_counts_twice_witness:
  "\<exists>drv' d' buf'. decode_amigados (int 6334) (\<lambda>_. (replicate 512 0, replicate 16 1)) 0 (sample_drive 10) = Some drv' \<and>
    decode_buffer 6334 0 (bigmfmbuf drv') 0 11 1 ADF_NORMAL False sample_buffers = Some (0, d', buf') \<and> sectable d' ! 10 = 0"
proof -
  have [simp]: "num_secs (sample_drive 10) = 10" "ddhd (sample_drive 10) = 1" "cyl (sample_drive 10) = 0" "filetype (sample_drive 10) = ADF_NORMAL"
    "bigmfmbuf (sample_drive 10) = replicate MAXMFMBUF 0xaaaa"
    by (simp_all add: sample_drive_def)
  have "buffers_ok (sample_buffers\<lparr>sectable := replicate MAX_SECTORS 0\<rparr>)" by (simp add: buffers_ok_def sample_buffers_def)
  then show ?thesis
    using decode_buffer_counts_twice [OF sample_image [of 10], of 6334 10 11 sample_buffers False] by (fastforce simp: MAXMFMBUF_def)
qed

text \<open>The first track of a Kickstart disk image (\<^verbatim>\<open>ADF_KICK\<close>): its offset is -512, because the image lacks the
  boot block, and \<^verbatim>\<open>read_floppy_data\<close> leaves the file alone for a track with a negative offset. Of the eleven sectors that
  \<^verbatim>\<open>decode_amigados\<close> asks for, with a buffer for the header, ten are zeros whatever the image holds.\<close>

definition kick_track :: "nat \<Rightarrow> trackid" where
  "kick_track i = \<lparr>offs = int i * 512 * 11 - 512, extraoffs = 0, track = int i\<rparr>"

lemma kick_disk_first_track_blank:
  assumes "length dst = 512" "length head = 16" "0 < sector"
  shows "read_floppy_data f ADF_KICK (kick_track 0) sector dst (Some head) 512 = Some (replicate 512 0, Some (replicate 16 0))"
  using assms by (simp add: read_floppy_data_def read_image_def overwrite_def kick_track_def Let_def)

end
