(* ===== verification/CdSector.thy ===== *)
theory CdSector
  imports Crc32 "HOL-Library.Signed_Division"
begin

text \<open>
  The error detection and correction bytes of CD-ROM mode 1 sectors (\<^verbatim>\<open>sources/src/cdrom.c\<close>): a
  32-bit check sum over a table, and the two interleaved Reed-Solomon codes, P and Q, computed with tables of
  logarithms. A sector is the list of its 2352 bytes; the C functions receive pointers into it.

  Shown: the check sum is the bit-serial CRC of its polynomial, and every P column and
  Q diagonal of an encoded sector is a word of the code over GF(256) it belongs to.
\<close>

section \<open>Tables\<close>

definition EDC_crctable :: "u32 list" where
  "EDC_crctable =
    [0x00000000, 0x90910101, 0x91210201, 0x01B00300, 0x92410401, 0x02D00500, 0x03600600, 0x93F10701,
     0x94810801, 0x04100900, 0x05A00A00, 0x95310B01, 0x06C00C00, 0x96510D01, 0x97E10E01, 0x07700F00,
     0x99011001, 0x09901100, 0x08201200, 0x98B11301, 0x0B401400, 0x9BD11501, 0x9A611601, 0x0AF01700,
     0x0D801800, 0x9D111901, 0x9CA11A01, 0x0C301B00, 0x9FC11C01, 0x0F501D00, 0x0EE01E00, 0x9E711F01,
     0x82012001, 0x12902100, 0x13202200, 0x83B12301, 0x10402400, 0x80D12501, 0x81612601, 0x11F02700,
     0x16802800, 0x86112901, 0x87A12A01, 0x17302B00, 0x84C12C01, 0x14502D00, 0x15E02E00, 0x85712F01,
     0x1B003000, 0x8B913101, 0x8A213201, 0x1AB03300, 0x89413401, 0x19D03500, 0x18603600, 0x88F13701,
     0x8F813801, 0x1F103900, 0x1EA03A00, 0x8E313B01, 0x1DC03C00, 0x8D513D01, 0x8CE13E01, 0x1C703F00,
     0xB4014001, 0x24904100, 0x25204200, 0xB5B14301, 0x26404400, 0xB6D14501, 0xB7614601, 0x27F04700,
     0x20804800, 0xB0114901, 0xB1A14A01, 0x21304B00, 0xB2C14C01, 0x22504D00, 0x23E04E00, 0xB3714F01,
     0x2D005000, 0xBD915101, 0xBC215201, 0x2CB05300, 0xBF415401, 0x2FD05500, 0x2E605600, 0xBEF15701,
     0xB9815801, 0x29105900, 0x28A05A00, 0xB8315B01, 0x2BC05C00, 0xBB515D01, 0xBAE15E01, 0x2A705F00,
     0x36006000, 0xA6916101, 0xA7216201, 0x37B06300, 0xA4416401, 0x34D06500, 0x35606600, 0xA5F16701,
     0xA2816801, 0x32106900, 0x33A06A00, 0xA3316B01, 0x30C06C00, 0xA0516D01, 0xA1E16E01, 0x31706F00,
     0xAF017001, 0x3F907100, 0x3E207200, 0xAEB17301, 0x3D407400, 0xADD17501, 0xAC617601, 0x3CF07700,
     0x3B807800, 0xAB117901, 0xAAA17A01, 0x3A307B00, 0xA9C17C01, 0x39507D00, 0x38E07E00, 0xA8717F01,
     0xD8018001, 0x48908100, 0x49208200, 0xD9B18301, 0x4A408400, 0xDAD18501, 0xDB618601, 0x4BF08700,
     0x4C808800, 0xDC118901, 0xDDA18A01, 0x4D308B00, 0xDEC18C01, 0x4E508D00, 0x4FE08E00, 0xDF718F01,
     0x41009000, 0xD1919101, 0xD0219201, 0x40B09300, 0xD3419401, 0x43D09500, 0x42609600, 0xD2F19701,
     0xD5819801, 0x45109900, 0x44A09A00, 0xD4319B01, 0x47C09C00, 0xD7519D01, 0xD6E19E01, 0x46709F00,
     0x5A00A000, 0xCA91A101, 0xCB21A201, 0x5BB0A300, 0xC841A401, 0x58D0A500, 0x5960A600, 0xC9F1A701,
     0xCE81A801, 0x5E10A900, 0x5FA0AA00, 0xCF31AB01, 0x5CC0AC00, 0xCC51AD01, 0xCDE1AE01, 0x5D70AF00,
     0xC301B001, 0x5390B100, 0x5220B200, 0xC2B1B301, 0x5140B400, 0xC1D1B501, 0xC061B601, 0x50F0B700,
     0x5780B800, 0xC711B901, 0xC6A1BA01, 0x5630BB00, 0xC5C1BC01, 0x5550BD00, 0x54E0BE00, 0xC471BF01,
     0x6C00C000, 0xFC91C101, 0xFD21C201, 0x6DB0C300, 0xFE41C401, 0x6ED0C500, 0x6F60C600, 0xFFF1C701,
     0xF881C801, 0x6810C900, 0x69A0CA00, 0xF931CB01, 0x6AC0CC00, 0xFA51CD01, 0xFBE1CE01, 0x6B70CF00,
     0xF501D001, 0x6590D100, 0x6420D200, 0xF4B1D301, 0x6740D400, 0xF7D1D501, 0xF661D601, 0x66F0D700,
     0x6180D800, 0xF111D901, 0xF0A1DA01, 0x6030DB00, 0xF3C1DC01, 0x6350DD00, 0x62E0DE00, 0xF271DF01,
     0xEE01E001, 0x7E90E100, 0x7F20E200, 0xEFB1E301, 0x7C40E400, 0xECD1E501, 0xED61E601, 0x7DF0E700,
     0x7A80E800, 0xEA11E901, 0xEBA1EA01, 0x7B30EB00, 0xE8C1EC01, 0x7850ED00, 0x79E0EE00, 0xE971EF01,
     0x7700F000, 0xE791F101, 0xE621F201, 0x76B0F300, 0xE541F401, 0x75D0F500, 0x7460F600, 0xE4F1F701,
     0xE381F801, 0x7310F900, 0x72A0FA00, 0xE231FB01, 0x71C0FC00, 0xE151FD01, 0xE0E1FE01, 0x7070FF00]"

definition rs_l12_alog :: "u8 list" where
  "rs_l12_alog =
    [1, 2, 4, 8, 16, 32, 64, 128, 29, 58, 116, 232, 205, 135, 19, 38, 76, 152, 45, 90,
     180, 117, 234, 201, 143, 3, 6, 12, 24, 48, 96, 192, 157, 39, 78, 156, 37, 74, 148, 53,
     106, 212, 181, 119, 238, 193, 159, 35, 70, 140, 5, 10, 20, 40, 80, 160, 93, 186, 105, 210,
     185, 111, 222, 161, 95, 190, 97, 194, 153, 47, 94, 188, 101, 202, 137, 15, 30, 60, 120, 240,
     253, 231, 211, 187, 107, 214, 177, 127, 254, 225, 223, 163, 91, 182, 113, 226, 217, 175, 67, 134,
     17, 34, 68, 136, 13, 26, 52, 104, 208, 189, 103, 206, 129, 31, 62, 124, 248, 237, 199, 147,
     59, 118, 236, 197, 151, 51, 102, 204, 133, 23, 46, 92, 184, 109, 218, 169, 79, 158, 33, 66,
     132, 21, 42, 84, 168, 77, 154, 41, 82, 164, 85, 170, 73, 146, 57, 114, 228, 213, 183, 115,
     230, 209, 191, 99, 198, 145, 63, 126, 252, 229, 215, 179, 123, 246, 241, 255, 227, 219, 171, 75,
     150, 49, 98, 196, 149, 55, 110, 220, 165, 87, 174, 65, 130, 25, 50, 100, 200, 141, 7, 14,
     28, 56, 112, 224, 221, 167, 83, 166, 81, 162, 89, 178, 121, 242, 249, 239, 195, 155, 43, 86,
     172, 69, 138, 9, 18, 36, 72, 144, 61, 122, 244, 245, 247, 243, 251, 235, 203, 139, 11, 22,
     44, 88, 176, 125, 250, 233, 207, 131, 27, 54, 108, 216, 173, 71, 142]"

definition rs_l12_log :: "u8 list" where
  "rs_l12_log =
    [0, 0, 1, 25, 2, 50, 26, 198, 3, 223, 51, 238, 27, 104, 199, 75, 4, 100, 224, 14,
     52, 141, 239, 129, 28, 193, 105, 248, 200, 8, 76, 113, 5, 138, 101, 47, 225, 36, 15, 33,
     53, 147, 142, 218, 240, 18, 130, 69, 29, 181, 194, 125, 106, 39, 249, 185, 201, 154, 9, 120,
     77, 228, 114, 166, 6, 191, 139, 98, 102, 221, 48, 253, 226, 152, 37, 179, 16, 145, 34, 136,
     54, 208, 148, 206, 143, 150, 219, 189, 241, 210, 19, 92, 131, 56, 70, 64, 30, 66, 182, 163,
     195, 72, 126, 110, 107, 58, 40, 84, 250, 133, 186, 61, 202, 94, 155, 159, 10, 21, 121, 43,
     78, 212, 229, 172, 115, 243, 167, 87, 7, 112, 192, 247, 140, 128, 99, 13, 103, 74, 222, 237,
     49, 197, 254, 24, 227, 165, 153, 119, 38, 184, 180, 124, 17, 68, 146, 217, 35, 32, 137, 46,
     55, 63, 209, 91, 149, 188, 207, 205, 144, 135, 151, 178, 220, 252, 190, 97, 242, 86, 211, 171,
     20, 42, 93, 158, 132, 60, 57, 83, 71, 109, 65, 162, 31, 45, 67, 216, 183, 123, 164, 118,
     196, 23, 73, 236, 127, 12, 111, 246, 108, 161, 59, 82, 41, 157, 85, 170, 251, 96, 134, 177,
     187, 204, 62, 90, 203, 89, 95, 176, 156, 169, 160, 81, 11, 245, 22, 235, 122, 117, 44, 215,
     79, 174, 213, 233, 230, 231, 173, 232, 116, 214, 244, 234, 168, 80, 88, 175]"

definition DQ0 :: "u8 list" where
  "DQ0 =
    [190, 96, 250, 132, 59, 81, 159, 154, 200, 7, 111, 245, 10, 20, 41, 156, 168, 79, 173, 231,
     229, 171, 210, 240, 17, 67, 215, 43, 120, 8, 199, 74, 102, 220, 251, 95, 175, 87, 166, 113,
     75, 198, 25]"

definition DQ1 :: "u8 list" where
  "DQ1 =
    [97, 251, 133, 60, 82, 160, 155, 201, 8, 112, 246, 11, 21, 42, 157, 169, 80, 174, 232, 230,
     172, 211, 241, 18, 68, 216, 44, 121, 9, 200, 75, 103, 221, 252, 96, 176, 88, 167, 114, 76,
     199, 26, 1]"

definition DP0 :: "u8 list" where
  "DP0 =
    [231, 229, 171, 210, 240, 17, 67, 215, 43, 120, 8, 199, 74, 102, 220, 251, 95, 175, 87, 166,
     113, 75, 198, 25]"

definition DP1 :: "u8 list" where
  "DP1 =
    [230, 172, 211, 241, 18, 68, 216, 44, 121, 9, 200, 75, 103, 221, 252, 96, 176, 88, 167, 114,
     76, 199, 26, 1]"

section \<open>The encoder\<close>

definition build_edc :: "u8 list \<Rightarrow> nat \<Rightarrow> nat \<Rightarrow> u32" where
  "build_edc p start stop =
     foldl (\<lambda>result b. EDC_crctable ! unat ((result XOR ucast b) AND 0xff) XOR drop_bit 8 result) 0
       (map (\<lambda>i. p ! i) [start..<stop + 1])"

text \<open>\<^verbatim>\<open>Q[d] ^= rs_l12_alog[sum]\<close>, where \<open>e\<close> is the entry of \<^verbatim>\<open>DP\<close> or \<^verbatim>\<open>DQ\<close>\<close>

definition rs_add :: "u8 \<Rightarrow> u8 \<Rightarrow> nat \<Rightarrow> u8 list \<Rightarrow> u8 list" where
  "rs_add data e d p =
     (if data \<noteq> 0
      then
        let base = unat (rs_l12_log ! unat data); sum = base + unat e; sum = (if sum \<ge> 255 then sum - 255 else sum)
        in p[d := p ! d XOR rs_l12_alog ! sum]
      else p)"

text \<open>The two parity bytes a data byte goes into; and the inner loop, low and high bytes of the 16-bit units in turn\<close>

definition rs_lane :: "nat \<Rightarrow> u8 \<Rightarrow> u8 \<Rightarrow> nat \<Rightarrow> nat \<Rightarrow> u8 list \<Rightarrow> u8 list" where
  "rs_lane s e0 e1 d0 d1 p = (let data = p ! s in rs_add data e1 d1 (rs_add data e0 d0 p))"

definition rs_unit :: "(nat \<Rightarrow> nat \<Rightarrow> nat) \<Rightarrow> u8 list \<Rightarrow> u8 list \<Rightarrow> nat \<Rightarrow> nat \<Rightarrow> nat \<Rightarrow> u8 list \<Rightarrow> u8 list" where
  "rs_unit src e0 e1 d0 d1 n p =
     fold (\<lambda>i p. rs_lane (src i 1) (e0 ! i) (e1 ! i) (d0 + 1) (d1 + 1) (rs_lane (src i 0) (e0 ! i) (e1 ! i) d0 d1 p)) [0..<n] p"

definition fill :: "nat \<Rightarrow> nat \<Rightarrow> u8 \<Rightarrow> u8 list \<Rightarrow> u8 list" where
  "fill d n v p = take d p @ replicate n v @ drop (d + n) p"

text \<open>\<open>o\<close> is the offset of the pointer the function gets.\<close>

definition encode_L2_P :: "nat \<Rightarrow> u8 list \<Rightarrow> u8 list" where
  "encode_L2_P off p =
     fold (\<lambda>j. rs_unit (\<lambda>i b. off + 2 * j + i * 2 * 43 + b) DP0 DP1 (off + 2064 + 2 * j) (off + 2064 + 2 * j + 43 * 2) 24)
       [0..<43] (fill (off + 2064) 172 0 p)"

definition encode_L2_Q :: "nat \<Rightarrow> u8 list \<Rightarrow> u8 list" where
  "encode_L2_Q off p =
     fold (\<lambda>j. rs_unit (\<lambda>i b. off + (j * 43 * 2 + i * 2 * 44 + b) mod 2236) DQ0 DQ1 (off + 2236 + 2 * j) (off + 2236 + 2 * j + 26 * 2) 43)
       [0..<26] (fill (off + 2236) 104 0 p)"

definition tobcd :: "u8 \<Rightarrow> u8" where
  "tobcd v = push_bit 4 (v div 10) OR v mod 10"

definition encode_l2 :: "u8 list \<Rightarrow> int \<Rightarrow> u8 list option" where
  "encode_l2 p address =
     (if length p < 2352 then None
      else
        let p = p[0 := 0];
            p = fill 1 11 0xff p;
            p = p[12 := tobcd (word_of_int (address sdiv (60 * 75)))];
            p = p[13 := tobcd (word_of_int ((address sdiv 75) smod 60))];
            p = p[14 := tobcd (word_of_int (address smod 75))];
            p = p[15 := 1];
            v = build_edc p 0 (16 + 2048 - 1);
            p = p[2064 + 0 := ucast v, 2064 + 1 := ucast (drop_bit 8 v), 2064 + 2 := ucast (drop_bit 16 v), 2064 + 3 := ucast (drop_bit 24 v)];
            p = fill (2064 + 4) 8 0 p;
            p = encode_L2_P 12 p
        in Some (encode_L2_Q 12 p))"

section \<open>The field\<close>

text \<open>Multiplication by the generator in GF(256) with polynomial 11D; the value of a code word at 1 and at the generator\<close>

definition xtime :: "u8 \<Rightarrow> u8" where
  "xtime w = push_bit 1 w XOR (if bit w 7 then 0x1d else 0)"

definition syndrome0 :: "u8 list \<Rightarrow> u8" where
  "syndrome0 cs = foldl (\<lambda>s c. s XOR c) 0 cs"

definition syndrome1 :: "u8 list \<Rightarrow> u8" where
  "syndrome1 cs = foldl (\<lambda>s c. xtime s XOR c) 0 cs"

lemma xtime_linear: "xtime (a XOR b) = xtime a XOR xtime b"
  by (rule bit_word_eqI) (auto simp: xtime_def bit_simps simp del: push_bit_Suc)

lemma xtime_pow_linear: "(xtime ^^ n) (a XOR b) = (xtime ^^ n) a XOR (xtime ^^ n) b"
  by (induction n) (simp_all add: xtime_linear)

lemma xtime_zero [simp]: "xtime 0 = 0"
  by (simp add: xtime_def)

lemma xtime_pow_zero [simp]: "(xtime ^^ n) 0 = 0"
  by (induction n) simp_all

text \<open>The tables in rows of sixteen, so that a look-up is short\<close>

fun chunks :: "nat \<Rightarrow> 'a list \<Rightarrow> 'a list list" where
  "chunks 0 xs = []"
| "chunks (Suc n) xs = take 16 xs # chunks n (drop 16 xs)"

lemma nth_chunks: "k < 16 * n \<Longrightarrow> k < length xs \<Longrightarrow> chunks n xs ! (k div 16) ! (k mod 16) = xs ! k"
proof (induction n arbitrary: xs k)
  case (Suc n)
  show ?case
  proof (cases "k < 16")
    case False
    then have "k div 16 = Suc ((k - 16) div 16)" "k mod 16 = (k - 16) mod 16" by (simp_all add: le_div_geq le_mod_geq)
    then show ?thesis using Suc.IH [of "k - 16" "drop 16 xs"] Suc.prems False by simp
  qed simp
qed simp

definition alog_rows :: "u8 list list" where
  "alog_rows =
    [[1, 2, 4, 8, 16, 32, 64, 128, 29, 58, 116, 232, 205, 135, 19, 38],
     [76, 152, 45, 90, 180, 117, 234, 201, 143, 3, 6, 12, 24, 48, 96, 192],
     [157, 39, 78, 156, 37, 74, 148, 53, 106, 212, 181, 119, 238, 193, 159, 35],
     [70, 140, 5, 10, 20, 40, 80, 160, 93, 186, 105, 210, 185, 111, 222, 161],
     [95, 190, 97, 194, 153, 47, 94, 188, 101, 202, 137, 15, 30, 60, 120, 240],
     [253, 231, 211, 187, 107, 214, 177, 127, 254, 225, 223, 163, 91, 182, 113, 226],
     [217, 175, 67, 134, 17, 34, 68, 136, 13, 26, 52, 104, 208, 189, 103, 206],
     [129, 31, 62, 124, 248, 237, 199, 147, 59, 118, 236, 197, 151, 51, 102, 204],
     [133, 23, 46, 92, 184, 109, 218, 169, 79, 158, 33, 66, 132, 21, 42, 84],
     [168, 77, 154, 41, 82, 164, 85, 170, 73, 146, 57, 114, 228, 213, 183, 115],
     [230, 209, 191, 99, 198, 145, 63, 126, 252, 229, 215, 179, 123, 246, 241, 255],
     [227, 219, 171, 75, 150, 49, 98, 196, 149, 55, 110, 220, 165, 87, 174, 65],
     [130, 25, 50, 100, 200, 141, 7, 14, 28, 56, 112, 224, 221, 167, 83, 166],
     [81, 162, 89, 178, 121, 242, 249, 239, 195, 155, 43, 86, 172, 69, 138, 9],
     [18, 36, 72, 144, 61, 122, 244, 245, 247, 243, 251, 235, 203, 139, 11, 22],
     [44, 88, 176, 125, 250, 233, 207, 131, 27, 54, 108, 216, 173, 71, 142]]"

definition alog16 :: "nat \<Rightarrow> u8" where
  "alog16 k = alog_rows ! (k div 16) ! (k mod 16)"

lemma alog16_eq: "k < 255 \<Longrightarrow> alog16 k = rs_l12_alog ! k"
proof -
  have "alog_rows = chunks 16 rs_l12_alog" by (simp add: rs_l12_alog_def alog_rows_def numeral_eq_Suc)
  then show "k < 255 \<Longrightarrow> alog16 k = rs_l12_alog ! k"
    using nth_chunks [of k 16 rs_l12_alog] by (simp add: alog16_def rs_l12_alog_def)
qed

lemma alog_table: "tl rs_l12_alog = map xtime (butlast rs_l12_alog)" "hd rs_l12_alog = 1" "xtime (last rs_l12_alog) = 1" "length rs_l12_alog = 255"
  by (simp_all add: rs_l12_alog_def xtime_def)

lemma alog_pow: "k < 255 \<Longrightarrow> rs_l12_alog ! k = (xtime ^^ k) 1"
proof (induction k)
  case 0
  then show ?case using alog_table(2,4) by (metis funpow_0 hd_conv_nth list.size(3) zero_neq_numeral)
next
  case (Suc k)
  then have "tl rs_l12_alog ! k = map xtime (butlast rs_l12_alog) ! k" "k < 254" using alog_table(1) by simp_all
  then show ?case using Suc alog_table(4) by (simp add: nth_tl nth_butlast)
qed

lemma log_table:
  "list_all2 (\<lambda>l d. unat l < 255 \<and> alog_rows ! (unat l div 16) ! (unat l mod 16) = d) (tl rs_l12_log)
    [1, 2, 3, 4, 5, 6, 7, 8, 9, 10, 11, 12, 13, 14, 15, 16, 17, 18, 19, 20, 21, 22, 23, 24, 25, 26, 27, 28,
     29, 30, 31, 32, 33, 34, 35, 36, 37, 38, 39, 40, 41, 42, 43, 44, 45, 46, 47, 48, 49, 50, 51, 52, 53, 54,
     55, 56, 57, 58, 59, 60, 61, 62, 63, 64, 65, 66, 67, 68, 69, 70, 71, 72, 73, 74, 75, 76, 77, 78, 79, 80,
     81, 82, 83, 84, 85, 86, 87, 88, 89, 90, 91, 92, 93, 94, 95, 96, 97, 98, 99, 100, 101, 102, 103, 104, 105,
     106, 107, 108, 109, 110, 111, 112, 113, 114, 115, 116, 117, 118, 119, 120, 121, 122, 123, 124, 125, 126,
     127, 128, 129, 130, 131, 132, 133, 134, 135, 136, 137, 138, 139, 140, 141, 142, 143, 144, 145, 146, 147,
     148, 149, 150, 151, 152, 153, 154, 155, 156, 157, 158, 159, 160, 161, 162, 163, 164, 165, 166, 167, 168,
     169, 170, 171, 172, 173, 174, 175, 176, 177, 178, 179, 180, 181, 182, 183, 184, 185, 186, 187, 188, 189,
     190, 191, 192, 193, 194, 195, 196, 197, 198, 199, 200, 201, 202, 203, 204, 205, 206, 207, 208, 209, 210,
     211, 212, 213, 214, 215, 216, 217, 218, 219, 220, 221, 222, 223, 224, 225, 226, 227, 228, 229, 230, 231,
     232, 233, 234, 235, 236, 237, 238, 239, 240, 241, 242, 243, 244, 245, 246, 247, 248, 249, 250, 251, 252,
     253, 254, 255]"
  by (simp add: rs_l12_log_def alog_rows_def)

lemma byte_list:
  "([1, 2, 3, 4, 5, 6, 7, 8, 9, 10, 11, 12, 13, 14, 15, 16, 17, 18, 19, 20, 21, 22, 23, 24, 25, 26, 27, 28,
     29, 30, 31, 32, 33, 34, 35, 36, 37, 38, 39, 40, 41, 42, 43, 44, 45, 46, 47, 48, 49, 50, 51, 52, 53, 54,
     55, 56, 57, 58, 59, 60, 61, 62, 63, 64, 65, 66, 67, 68, 69, 70, 71, 72, 73, 74, 75, 76, 77, 78, 79, 80,
     81, 82, 83, 84, 85, 86, 87, 88, 89, 90, 91, 92, 93, 94, 95, 96, 97, 98, 99, 100, 101, 102, 103, 104, 105,
     106, 107, 108, 109, 110, 111, 112, 113, 114, 115, 116, 117, 118, 119, 120, 121, 122, 123, 124, 125, 126,
     127, 128, 129, 130, 131, 132, 133, 134, 135, 136, 137, 138, 139, 140, 141, 142, 143, 144, 145, 146, 147,
     148, 149, 150, 151, 152, 153, 154, 155, 156, 157, 158, 159, 160, 161, 162, 163, 164, 165, 166, 167, 168,
     169, 170, 171, 172, 173, 174, 175, 176, 177, 178, 179, 180, 181, 182, 183, 184, 185, 186, 187, 188, 189,
     190, 191, 192, 193, 194, 195, 196, 197, 198, 199, 200, 201, 202, 203, 204, 205, 206, 207, 208, 209, 210,
     211, 212, 213, 214, 215, 216, 217, 218, 219, 220, 221, 222, 223, 224, 225, 226, 227, 228, 229, 230, 231,
     232, 233, 234, 235, 236, 237, 238, 239, 240, 241, 242, 243, 244, 245, 246, 247, 248, 249, 250, 251, 252,
     253, 254, 255] :: u8 list)
   = map word_of_nat [1..<256]"
  by code_simp

lemma log_table_nth:
  assumes "0 < k" "k < 256"
  shows "unat (rs_l12_log ! k) < 255 \<and> rs_l12_alog ! unat (rs_l12_log ! k) = word_of_nat k"
proof -
  have len: "length rs_l12_log = 256" by (simp add: rs_l12_log_def)
  have "list_all2 (\<lambda>l d. unat l < 255 \<and> alog16 (unat l) = d) (tl rs_l12_log) (map word_of_nat [1..<256])"
    using log_table unfolding alog16_def byte_list .
  moreover have "k - 1 < length (tl rs_l12_log)" using assms len by simp
  ultimately have "unat (tl rs_l12_log ! (k - 1)) < 255 \<and> alog16 (unat (tl rs_l12_log ! (k - 1))) = map word_of_nat [1..<256] ! (k - 1)"
    by (rule list_all2_nthD)
  moreover have "tl rs_l12_log ! (k - 1) = rs_l12_log ! k" using assms len by (simp add: nth_tl)
  moreover have "map word_of_nat [1..<256] ! (k - 1) = (word_of_nat k :: u8)" using assms by simp
  ultimately have "unat (rs_l12_log ! k) < 255 \<and> alog16 (unat (rs_l12_log ! k)) = word_of_nat k" by simp
  then show ?thesis using alog16_eq by metis
qed

lemma xtime_period: "(xtime ^^ 255) 1 = 1"
proof -
  have "last rs_l12_alog = rs_l12_alog ! 254" using alog_table(4) by (metis diff_Suc_1 eval_nat_numeral(3) last_conv_nth list.size(3) zero_neq_numeral)
  then have "xtime ((xtime ^^ 254) 1) = 1" using alog_table(3) alog_pow [of 254] by simp
  moreover have "Suc 254 = 255" by simp
  ultimately show ?thesis using funpow.simps(2) [of 254 xtime] by (metis comp_apply)
qed

text \<open>\<^verbatim>\<open>rs_add\<close> adds the byte times a power of the generator.\<close>

lemma log_data:
  assumes "d \<noteq> 0"
  shows "unat (rs_l12_log ! unat d) < 255" "d = (xtime ^^ unat (rs_l12_log ! unat d)) 1"
proof -
  have "unat d < 256" by (rule order_less_le_trans [OF unsigned_less]) simp
  moreover have "0 < unat d" using assms by (simp add: unat_gt_0)
  ultimately have d: "unat (rs_l12_log ! unat d) < 255 \<and> rs_l12_alog ! unat (rs_l12_log ! unat d) = word_of_nat (unat d)"
    by (intro log_table_nth)
  then show l: "unat (rs_l12_log ! unat d) < 255" by blast
  have "rs_l12_alog ! unat (rs_l12_log ! unat d) = word_of_nat (unat d)" using d by blast
  then show "d = (xtime ^^ unat (rs_l12_log ! unat d)) 1" using alog_pow [OF l] by simp
qed

lemma rs_add_mult:
  assumes "unat e < 255"
  shows "rs_add data e d p = p[d := p ! d XOR (xtime ^^ unat e) data]"
proof (cases "data = 0")
  case False
  define b where "b = unat (rs_l12_log ! unat data)"
  have b: "b < 255" "data = (xtime ^^ b) 1" unfolding b_def using log_data [OF False] by blast+
  have "rs_l12_alog ! (if b + unat e \<ge> 255 then b + unat e - 255 else b + unat e) = (xtime ^^ (b + unat e)) 1"
  proof (cases "b + unat e \<ge> 255")
    case True
    then have "(xtime ^^ (b + unat e)) 1 = (xtime ^^ (b + unat e - 255)) ((xtime ^^ 255) 1)"
      by (simp only: funpow_add [symmetric, THEN fun_cong, unfolded comp_def]) simp
    then show ?thesis using True b(1) assms xtime_period by (simp add: alog_pow)
  qed (simp add: alog_pow)
  moreover have "(xtime ^^ (unat e + b)) 1 = (xtime ^^ unat e) data" unfolding funpow_add comp_def b(2) [symmetric] ..
  then have "(xtime ^^ (b + unat e)) 1 = (xtime ^^ unat e) data" by (simp only: add.commute)
  ultimately show ?thesis using False by (simp add: rs_add_def b_def [symmetric] Let_def)
qed (simp add: rs_add_def)

section \<open>The parity bytes\<close>

definition scaled :: "u8 \<Rightarrow> u8 \<Rightarrow> u8" where
  "scaled e data = (xtime ^^ unat e) data"

lemma rs_lane_mult:
  assumes "unat e0 < 255" "unat e1 < 255" "d0 \<noteq> d1"
  shows "rs_lane s e0 e1 d0 d1 p = p[d0 := p ! d0 XOR scaled e0 (p ! s), d1 := p ! d1 XOR scaled e1 (p ! s)]"
  using assms by (simp add: rs_lane_def Let_def rs_add_mult scaled_def)

lemma rs_unit_sums:
  assumes "\<forall>i<n. unat (e0 ! i) < 255 \<and> unat (e1 ! i) < 255" "Suc d0 < d1" "Suc d1 < length p"
    "\<forall>i<n. \<forall>b<2. src i b \<notin> {d0, Suc d0, d1, Suc d1}"
  shows "length (rs_unit src e0 e1 d0 d1 n p) = length p \<and>
    (\<forall>b<2. rs_unit src e0 e1 d0 d1 n p ! (d0 + b) = p ! (d0 + b) XOR xsum (\<lambda>i. scaled (e0 ! i) (p ! src i b)) n \<and>
           rs_unit src e0 e1 d0 d1 n p ! (d1 + b) = p ! (d1 + b) XOR xsum (\<lambda>i. scaled (e1 ! i) (p ! src i b)) n) \<and>
    (\<forall>x. x \<notin> {d0, Suc d0, d1, Suc d1} \<longrightarrow> rs_unit src e0 e1 d0 d1 n p ! x = p ! x)"
  using assms(1,4)
proof (induction n)
  case 0
  then show ?case by (simp add: rs_unit_def)
next
  case (Suc n)
  let ?r = "rs_unit src e0 e1 d0 d1 n p"
  have IH: "length ?r = length p" "\<And>x. x \<notin> {d0, Suc d0, d1, Suc d1} \<Longrightarrow> ?r ! x = p ! x"
    "\<And>b. b < 2 \<Longrightarrow> ?r ! (d0 + b) = p ! (d0 + b) XOR xsum (\<lambda>i. scaled (e0 ! i) (p ! src i b)) n"
    "\<And>b. b < 2 \<Longrightarrow> ?r ! (d1 + b) = p ! (d1 + b) XOR xsum (\<lambda>i. scaled (e1 ! i) (p ! src i b)) n"
    using Suc by simp_all
  define v0 where "v0 = p ! src n 0"
  define v1 where "v1 = p ! src n 1"
  have s: "src n 0 \<notin> {d0, Suc d0, d1, Suc d1}" "src n 1 \<notin> {d0, Suc d0, d1, Suc d1}" using Suc.prems(2) by auto
  then have v: "?r ! src n 0 = v0" "?r ! src n 1 = v1" using IH(2) by (simp_all add: v0_def v1_def)
  have e: "unat (e0 ! n) < 255" "unat (e1 ! n) < 255" using Suc.prems(1) by simp_all
  have "rs_unit src e0 e1 d0 d1 (Suc n) p =
      ?r[d0 := ?r ! d0 XOR scaled (e0 ! n) v0, d1 := ?r ! d1 XOR scaled (e1 ! n) v0,
         Suc d0 := ?r ! Suc d0 XOR scaled (e0 ! n) v1, Suc d1 := ?r ! Suc d1 XOR scaled (e1 ! n) v1]"
    using s v e assms(2) by (simp add: rs_unit_def rs_lane_mult)
  moreover have "b < 2 \<longleftrightarrow> b = 0 \<or> b = 1" for b :: nat by linarith
  ultimately show ?case
    using IH(1,2) IH(3,4) [of 0] IH(3,4) [of 1] assms(2,3) by (auto simp: v0_def v1_def xor.assoc nth_list_update)
qed

text \<open>The outer loops of both codes: \<open>rows\<close> units with their parity bytes behind the data, from \<open>base\<close> on\<close>

lemma rs_rows_sums:
  assumes e: "\<forall>i<n. unat (e0 ! i) < 255 \<and> unat (e1 ! i) < 255" and len: "base + 4 * rows \<le> length p"
    and src: "\<forall>j<rows. \<forall>i<n. \<forall>b<2. src j i b < base" and zero: "\<forall>x<4 * rows. p ! (base + x) = 0"
    and r: "r = fold (\<lambda>j. rs_unit (src j) e0 e1 (base + 2 * j) (base + 2 * j + 2 * rows) n) [0..<k] p" and k: "k \<le> rows"
  shows "length r = length p \<and> (\<forall>x. x < base \<or> base + 4 * rows \<le> x \<longrightarrow> r ! x = p ! x) \<and>
    (\<forall>j<rows. \<forall>b<2.
       r ! (base + 2 * j + b) = (if j < k then xsum (\<lambda>i. scaled (e0 ! i) (p ! src j i b)) n else 0) \<and>
       r ! (base + 2 * j + 2 * rows + b) = (if j < k then xsum (\<lambda>i. scaled (e1 ! i) (p ! src j i b)) n else 0))"
  using r k
proof (induction k arbitrary: r)
  case 0
  then show ?case using zero by (simp add: add.assoc)
next
  case (Suc k)
  define q where "q = fold (\<lambda>j. rs_unit (src j) e0 e1 (base + 2 * j) (base + 2 * j + 2 * rows) n) [0..<k] p"
  have k: "k < rows" using Suc.prems by simp
  have IH: "length q = length p" "\<And>x. x < base \<or> base + 4 * rows \<le> x \<Longrightarrow> q ! x = p ! x"
    "\<And>j b. j < rows \<Longrightarrow> b < 2 \<Longrightarrow> q ! (base + 2 * j + b) = (if j < k then xsum (\<lambda>i. scaled (e0 ! i) (p ! src j i b)) n else 0) \<and>
       q ! (base + 2 * j + 2 * rows + b) = (if j < k then xsum (\<lambda>i. scaled (e1 ! i) (p ! src j i b)) n else 0)"
    using Suc.IH [OF q_def] k by auto
  let ?d0 = "base + 2 * k" and ?d1 = "base + 2 * k + 2 * rows"
  have r: "r = rs_unit (src k) e0 e1 ?d0 ?d1 n q" using Suc.prems(1) by (simp add: q_def)
  have sk: "\<forall>i<n. \<forall>b<2. src k i b < base" using src k by blast
  then have "\<forall>i<n. \<forall>b<2. src k i b \<notin> {?d0, Suc ?d0, ?d1, Suc ?d1}" by fastforce
  from rs_unit_sums [OF e _ _ this, of q] have u: "length r = length q"
    "\<And>b. b < 2 \<Longrightarrow> r ! (?d0 + b) = q ! (?d0 + b) XOR xsum (\<lambda>i. scaled (e0 ! i) (q ! src k i b)) n"
    "\<And>b. b < 2 \<Longrightarrow> r ! (?d1 + b) = q ! (?d1 + b) XOR xsum (\<lambda>i. scaled (e1 ! i) (q ! src k i b)) n"
    "\<And>x. x \<notin> {?d0, Suc ?d0, ?d1, Suc ?d1} \<Longrightarrow> r ! x = q ! x"
    using len k IH(1) unfolding r by auto
  have qs: "q ! src k i b = p ! src k i b" if "i < n" "b < 2" for i b using sk that IH(2) by blast
  have "r ! x = p ! x" if "x < base \<or> base + 4 * rows \<le> x" for x
    using u(4) [of x] IH(2) [OF that] that k by auto
  moreover have "r ! (base + 2 * j + b) = (if j < Suc k then xsum (\<lambda>i. scaled (e0 ! i) (p ! src j i b)) n else 0) \<and>
      r ! (base + 2 * j + 2 * rows + b) = (if j < Suc k then xsum (\<lambda>i. scaled (e1 ! i) (p ! src j i b)) n else 0)"
    if j: "j < rows" "b < 2" for j b
  proof (cases "j = k")
    case True
    have "xsum (\<lambda>i. scaled (e0 ! i) (q ! src k i b)) n = xsum (\<lambda>i. scaled (e0 ! i) (p ! src k i b)) n"
      "xsum (\<lambda>i. scaled (e1 ! i) (q ! src k i b)) n = xsum (\<lambda>i. scaled (e1 ! i) (p ! src k i b)) n"
      using qs j(2) by (auto intro: xsum_cong)
    then show ?thesis using u(2,3) [OF j(2)] IH(3) [OF j] True by simp
  next
    case False
    then have "base + 2 * j + b \<notin> {?d0, Suc ?d0, ?d1, Suc ?d1}" "base + 2 * j + 2 * rows + b \<notin> {?d0, Suc ?d0, ?d1, Suc ?d1}"
      using j k by auto
    then show ?thesis using u(4) IH(3) [OF j] False by (simp add: less_Suc_eq)
  qed
  ultimately show ?case using u(1) IH(1) by simp
qed

section \<open>Code words\<close>

lemma xtime_xsum: "(xtime ^^ m) (xsum f n) = xsum (\<lambda>i. (xtime ^^ m) (f i)) n"
  by (induction n) (simp_all add: xtime_pow_linear)

lemma syndrome0_sum: "syndrome0 (map f [0..<n] @ [a, b]) = xsum f n XOR a XOR b"
  by (induction n arbitrary: a b) (simp_all add: syndrome0_def xor.assoc)

lemma syndrome1_sum: "syndrome1 (map f [0..<n]) = xsum (\<lambda>i. (xtime ^^ (n - Suc i)) (f i)) n"
proof (induction n)
  case (Suc n)
  have "xsum (\<lambda>i. (xtime ^^ (Suc n - Suc i)) (f i)) n = xtime (xsum (\<lambda>i. (xtime ^^ (n - Suc i)) (f i)) n)"
    using xtime_xsum [of 1 "\<lambda>i. (xtime ^^ (n - Suc i)) (f i)" n] funpow.simps(2) [of "n - Suc i" xtime for i]
    by (auto intro!: xsum_cong simp: Suc_diff_Suc [symmetric])
  then show ?case using Suc by (simp add: syndrome1_def)
qed (simp add: syndrome1_def)

lemma xtime_zero_all:
  assumes "(xtime ^^ a) 1 XOR (xtime ^^ b) 1 XOR (xtime ^^ c) 1 = 0"
  shows "(xtime ^^ a) d XOR (xtime ^^ b) d XOR (xtime ^^ c) d = 0"
proof (cases "d = 0")
  case False
  then obtain k where d: "d = (xtime ^^ k) 1" using log_data by blast
  have "(xtime ^^ n) d = (xtime ^^ k) ((xtime ^^ n) 1)" for n
    unfolding d by (metis add.commute comp_apply funpow_add)
  then have "(xtime ^^ a) d XOR (xtime ^^ b) d XOR (xtime ^^ c) d = (xtime ^^ k) ((xtime ^^ a) 1 XOR (xtime ^^ b) 1 XOR (xtime ^^ c) 1)"
    by (simp add: xtime_pow_linear)
  then show ?thesis using assms by simp
qed simp

lemma code_word:
  assumes "\<forall>i<n. 1 XOR (xtime ^^ unat (e0 ! i)) 1 XOR (xtime ^^ unat (e1 ! i)) 1 = 0 \<and>
      (xtime ^^ (n + 1 - i)) 1 XOR (xtime ^^ (1 + unat (e0 ! i))) 1 XOR (xtime ^^ unat (e1 ! i)) 1 = 0"
    "a = xsum (\<lambda>i. scaled (e0 ! i) (f i)) n" "b = xsum (\<lambda>i. scaled (e1 ! i) (f i)) n"
  shows "syndrome0 (map f [0..<n] @ [a, b]) = 0" "syndrome1 (map f [0..<n] @ [a, b]) = 0"
proof -
  have 0: "f i XOR scaled (e0 ! i) (f i) XOR scaled (e1 ! i) (f i) = 0" if "i < n" for i
    using assms(1) that xtime_zero_all [of 0 "unat (e0 ! i)" "unat (e1 ! i)" "f i"] by (simp add: scaled_def)
  have "syndrome0 (map f [0..<n] @ [a, b]) = xsum (\<lambda>i. f i XOR scaled (e0 ! i) (f i) XOR scaled (e1 ! i) (f i)) n"
    unfolding syndrome0_sum assms(2,3) xsum_xor ..
  also have "\<dots> = xsum (\<lambda>i. 0) n" using 0 by (intro xsum_cong) simp
  also have z: "\<dots> = 0" by (induction n) simp_all
  finally show "syndrome0 (map f [0..<n] @ [a, b]) = 0" .
  have 1: "(xtime ^^ (n + 1 - i)) (f i) XOR xtime (scaled (e0 ! i) (f i)) XOR scaled (e1 ! i) (f i) = 0" if "i < n" for i
    using assms(1) that xtime_zero_all [of "n + 1 - i" "1 + unat (e0 ! i)" "unat (e1 ! i)" "f i"] by (simp add: scaled_def)
  have "syndrome1 (map f [0..<n] @ [a, b]) = xtime (xtime (syndrome1 (map f [0..<n])) XOR a) XOR b" by (simp add: syndrome1_def)
  also have "\<dots> = (xtime ^^ 2) (syndrome1 (map f [0..<n])) XOR (xtime ^^ 1) a XOR b" by (simp add: xtime_linear numeral_eq_Suc xor.assoc)
  also have "(xtime ^^ 2) (syndrome1 (map f [0..<n])) = xsum (\<lambda>i. (xtime ^^ (n + 1 - i)) (f i)) n"
    unfolding syndrome1_sum xtime_xsum
  proof (rule xsum_cong)
    fix i assume "i < n"
    then have "n + 1 - i = 2 + (n - Suc i)" by simp
    then show "(xtime ^^ 2) ((xtime ^^ (n - Suc i)) (f i)) = (xtime ^^ (n + 1 - i)) (f i)" by (simp only: funpow_add comp_def)
  qed
  also have "xsum (\<lambda>i. (xtime ^^ (n + 1 - i)) (f i)) n XOR (xtime ^^ 1) a XOR b =
      xsum (\<lambda>i. (xtime ^^ (n + 1 - i)) (f i) XOR xtime (scaled (e0 ! i) (f i)) XOR scaled (e1 ! i) (f i)) n"
    unfolding assms(2,3) xtime_xsum by (simp add: xsum_xor)
  also have "\<dots> = xsum (\<lambda>i. 0) n" using 1 by (intro xsum_cong) simp
  also note z
  finally show "syndrome1 (map f [0..<n] @ [a, b]) = 0" .
qed

lemma alog_xtime: "k < 255 \<Longrightarrow> (xtime ^^ k) 1 = alog16 k"
  by (simp add: alog_pow alog16_eq)

lemma exponents_ok:
  "\<forall>i\<in>set [0..<24]. unat (DP0 ! i) < 254 \<and> unat (DP1 ! i) < 255" "\<forall>i\<in>set [0..<43]. unat (DQ0 ! i) < 254 \<and> unat (DQ1 ! i) < 255"
  "\<forall>i\<in>set [0..<24]. 1 XOR alog16 (unat (DP0 ! i)) XOR alog16 (unat (DP1 ! i)) = 0 \<and>
     alog16 (25 - i) XOR alog16 (1 + unat (DP0 ! i)) XOR alog16 (unat (DP1 ! i)) = 0"
  "\<forall>i\<in>set [0..<43]. 1 XOR alog16 (unat (DQ0 ! i)) XOR alog16 (unat (DQ1 ! i)) = 0 \<and>
     alog16 (44 - i) XOR alog16 (1 + unat (DQ0 ! i)) XOR alog16 (unat (DQ1 ! i)) = 0"
  by code_simp+

section \<open>A whole sector\<close>

text \<open>The check sum bit by bit: the reflected polynomial 8001801B\<close>

definition edc_spec :: "u8 list \<Rightarrow> u32" where
  "edc_spec bs = foldl (\<lambda>c b. (reflected_step 0xd8018001 ^^ 8) (c XOR ucast b)) 0 bs"

lemma EDC_heads: "map hd (chunks 16 EDC_crctable) =
    map (reflected_step 0xd8018001 ^^ 8) [0, 16, 32, 48, 64, 80, 96, 112, 128, 144, 160, 176, 192, 208, 224, 240]"
  by code_simp

lemma sixteens: "[0, 16, 32, 48, 64, 80, 96, 112, 128, 144, 160, 176, 192, 208, 224, 240 :: u32] = map (\<lambda>h. word_of_nat (16 * h)) [0..<16]"
  by code_simp

definition EDC_first :: "u32 list" where
  "EDC_first =
    [0x00000000, 0x90910101, 0x91210201, 0x01B00300, 0x92410401, 0x02D00500, 0x03600600, 0x93F10701,
     0x94810801, 0x04100900, 0x05A00A00, 0x95310B01, 0x06C00C00, 0x96510D01, 0x97E10E01, 0x07700F00]"

lemma EDC_first_row: "EDC_first = map (\<lambda>l. (reflected_step 0xd8018001 ^^ 8) (word_of_nat l)) [0..<16]"
  by code_simp

lemma EDC_rows: "list_all (\<lambda>row. row = map (\<lambda>x. hd row XOR x) EDC_first) (chunks 16 EDC_crctable)"
  by code_simp

lemma nibble_xor: "(word_of_nat (16 * h + l) :: u32) = word_of_nat (16 * h) XOR word_of_nat l" if "h < 16" "l < 16"
proof -
  have "\<forall>h\<in>set [0..<16]. \<forall>l\<in>set [0..<16]. (word_of_nat (16 * h + l) :: u32) = word_of_nat (16 * h) XOR word_of_nat l" by code_simp
  then show ?thesis using that by simp
qed

lemma EDC_table:
  assumes "n < 256"
  shows "EDC_crctable ! n = (reflected_step 0xd8018001 ^^ 8) (word_of_nat n)"
proof -
  define h where "h = n div 16"
  define l where "l = n mod 16"
  have n: "n = 16 * h + l" and hl: "h < 16" "l < 16" using assms by (auto simp: h_def l_def)
  have len: "length EDC_crctable = 256" "length (chunks 16 EDC_crctable) = 16" by (simp_all add: EDC_crctable_def numeral_eq_Suc)
  define row where "row = chunks 16 EDC_crctable ! h"
  have "map hd (chunks 16 EDC_crctable) ! h = map (\<lambda>h. (reflected_step 0xd8018001 ^^ 8) (word_of_nat (16 * h))) [0..<16] ! h"
    unfolding EDC_heads sixteens map_map comp_def ..
  then have r2: "hd row = (reflected_step 0xd8018001 ^^ 8) (word_of_nat (16 * h))"
    using hl(1) len(2) by (simp add: row_def del: funpow.simps)
  have r1: "row = map (\<lambda>x. hd row XOR x) EDC_first"
    using EDC_rows hl(1) len(2) unfolding list_all_length row_def by metis
  have "EDC_crctable ! n = row ! l"
    using nth_chunks [of n 16 EDC_crctable] assms len(1) by (simp add: row_def h_def l_def)
  also have "\<dots> = hd row XOR EDC_first ! l" using arg_cong [OF r1, of "\<lambda>r. r ! l"] hl(2) by (simp add: EDC_first_row del: funpow.simps)
  also have "\<dots> = (reflected_step 0xd8018001 ^^ 8) (word_of_nat (16 * h)) XOR (reflected_step 0xd8018001 ^^ 8) (word_of_nat l)"
    unfolding r2 EDC_first_row using hl by (simp del: funpow.simps)
  also have "\<dots> = (reflected_step 0xd8018001 ^^ 8) (word_of_nat (16 * h + l))" unfolding nibble_xor [OF hl] reflected_pow_linear ..
  finally show ?thesis by (simp only: n)
qed

lemma edc_byte: "EDC_crctable ! unat ((c XOR ucast b) AND 0xff) XOR drop_bit 8 c = (reflected_step 0xd8018001 ^^ 8) (c XOR ucast b)" for b :: u8
proof -
  define w where "w = c XOR ucast b"
  have "EDC_crctable ! unat (take_bit 8 w) = (reflected_step 0xd8018001 ^^ 8) (take_bit 8 w)"
    using EDC_table [OF unat_take_8 [of w]] by (simp del: funpow.simps)
  moreover have "drop_bit 8 w = drop_bit 8 c"
    unfolding w_def by (rule bit_word_eqI) (auto simp: bit_simps dest: bit_imp_le_length)
  ultimately show ?thesis unfolding w_def [symmetric] take_bit_8_and by (metis reflected_byte)
qed

lemma build_edc_spec: "build_edc p 0 n = edc_spec (map (\<lambda>i. p ! i) [0..<n + 1])"
  by (simp only: build_edc_def edc_spec_def edc_byte)

lemma fill_nth:
  assumes "d + n \<le> length p"
  shows "length (fill d n v p) = length p" "x < length p \<Longrightarrow> fill d n v p ! x = (if d \<le> x \<and> x < d + n then v else p ! x)"
  using assms by (auto simp: fill_def nth_append)

definition generators :: "nat \<Rightarrow> u8 list \<Rightarrow> u8 list \<Rightarrow> bool" where
  "generators n e0 e1 \<longleftrightarrow> (\<forall>i<n. unat (e0 ! i) < 255 \<and> unat (e1 ! i) < 255 \<and>
     1 XOR (xtime ^^ unat (e0 ! i)) 1 XOR (xtime ^^ unat (e1 ! i)) 1 = 0 \<and>
     (xtime ^^ (n + 1 - i)) 1 XOR (xtime ^^ (1 + unat (e0 ! i))) 1 XOR (xtime ^^ unat (e1 ! i)) 1 = 0)"

lemma generators_P: "generators 24 DP0 DP1"
  unfolding generators_def
proof (intro allI impI)
  fix i :: nat
  assume "i < 24"
  then have i: "i \<in> set [0..<24]" by simp
  note x = bspec [OF exponents_ok(1) i] bspec [OF exponents_ok(3) i]
  have k: "unat (DP0 ! i) < 255" "unat (DP1 ! i) < 255" "24 + 1 - i < 255" "1 + unat (DP0 ! i) < 255" using x(1) by auto
  show "unat (DP0 ! i) < 255 \<and> unat (DP1 ! i) < 255 \<and>
     1 XOR (xtime ^^ unat (DP0 ! i)) 1 XOR (xtime ^^ unat (DP1 ! i)) 1 = 0 \<and>
     (xtime ^^ (24 + 1 - i)) 1 XOR (xtime ^^ (1 + unat (DP0 ! i))) 1 XOR (xtime ^^ unat (DP1 ! i)) 1 = 0"
    unfolding alog_xtime [OF k(1)] alog_xtime [OF k(2)] alog_xtime [OF k(3)] alog_xtime [OF k(4)] using x k by simp
qed

lemma generators_Q: "generators 43 DQ0 DQ1"
  unfolding generators_def
proof (intro allI impI)
  fix i :: nat
  assume "i < 43"
  then have i: "i \<in> set [0..<43]" by simp
  note x = bspec [OF exponents_ok(2) i] bspec [OF exponents_ok(4) i]
  have k: "unat (DQ0 ! i) < 255" "unat (DQ1 ! i) < 255" "43 + 1 - i < 255" "1 + unat (DQ0 ! i) < 255" using x(1) by auto
  show "unat (DQ0 ! i) < 255 \<and> unat (DQ1 ! i) < 255 \<and>
     1 XOR (xtime ^^ unat (DQ0 ! i)) 1 XOR (xtime ^^ unat (DQ1 ! i)) 1 = 0 \<and>
     (xtime ^^ (43 + 1 - i)) 1 XOR (xtime ^^ (1 + unat (DQ0 ! i))) 1 XOR (xtime ^^ unat (DQ1 ! i)) 1 = 0"
    unfolding alog_xtime [OF k(1)] alog_xtime [OF k(2)] alog_xtime [OF k(3)] alog_xtime [OF k(4)] using x k by simp
qed

definition zero_syndromes :: "u8 list \<Rightarrow> bool" where
  "zero_syndromes cs \<longleftrightarrow> syndrome0 cs = 0 \<and> syndrome1 cs = 0"

lemma rs_rows_words:
  assumes gen: "generators n e0 e1" and len: "base + 4 * rows \<le> length p" and src: "\<forall>j<rows. \<forall>i<n. \<forall>b<2. src j i b < base"
    and r: "r = fold (\<lambda>j. rs_unit (src j) e0 e1 (base + 2 * j) (base + 2 * j + 2 * rows) n) [0..<rows] (fill base (4 * rows) 0 p)"
  shows "length r = length p" "x < base \<or> base + 4 * rows \<le> x \<and> x < length p \<Longrightarrow> r ! x = p ! x"
    "j < rows \<Longrightarrow> b < 2 \<Longrightarrow> zero_syndromes (map (\<lambda>i. r ! src j i b) [0..<n] @ [r ! (base + 2 * j + b), r ! (base + 2 * j + 2 * rows + b)])"
proof -
  define z where "z = fill base (4 * rows) 0 p"
  have z: "length z = length p" "\<And>x. x < length p \<Longrightarrow> z ! x = (if base \<le> x \<and> x < base + 4 * rows then 0 else p ! x)"
    using fill_nth [OF len, where v = 0] unfolding z_def by simp_all
  have e: "\<forall>i<n. unat (e0 ! i) < 255 \<and> unat (e1 ! i) < 255" using gen by (simp add: generators_def)
  have "\<forall>x<4 * rows. z ! (base + x) = 0" using z(2) len by simp
  from rs_rows_sums [OF e _ src this r [folded z_def] order_refl] z(1) len
  have s: "length r = length p" "\<And>x. x < base \<or> base + 4 * rows \<le> x \<Longrightarrow> r ! x = z ! x"
    "\<And>j b. j < rows \<Longrightarrow> b < 2 \<Longrightarrow> r ! (base + 2 * j + b) = xsum (\<lambda>i. scaled (e0 ! i) (z ! src j i b)) n \<and>
      r ! (base + 2 * j + 2 * rows + b) = xsum (\<lambda>i. scaled (e1 ! i) (z ! src j i b)) n"
    by auto
  show "length r = length p" by (rule s(1))
  show "r ! x = p ! x" if "x < base \<or> base + 4 * rows \<le> x \<and> x < length p" using s(2) [of x] z(2) [of x] len that by auto
  show "zero_syndromes (map (\<lambda>i. r ! src j i b) [0..<n] @ [r ! (base + 2 * j + b), r ! (base + 2 * j + 2 * rows + b)])"
    if j: "j < rows" "b < 2"
  proof -
    have m: "map (\<lambda>i. r ! src j i b) [0..<n] = map (\<lambda>i. z ! src j i b) [0..<n]" using s(2) src j by simp
    have c: "\<forall>i<n. 1 XOR (xtime ^^ unat (e0 ! i)) 1 XOR (xtime ^^ unat (e1 ! i)) 1 = 0 \<and>
      (xtime ^^ (n + 1 - i)) 1 XOR (xtime ^^ (1 + unat (e0 ! i))) 1 XOR (xtime ^^ unat (e1 ! i)) 1 = 0"
      using gen unfolding generators_def by blast
    show ?thesis
      unfolding zero_syndromes_def m
      using code_word [OF c conjunct1 [OF s(3) [OF j]] conjunct2 [OF s(3) [OF j]]] by blast
  qed
qed

lemma map_upt_two: "map f [0..<n + 2] = map f [0..<n] @ [f n, f (n + 1)]"
  by simp

lemma encode_L2_P_words:
  assumes "2352 \<le> length p" "q = encode_L2_P 12 p"
  shows "length q = length p" "x < 2076 \<or> 2248 \<le> x \<and> x < length p \<Longrightarrow> q ! x = p ! x"
    "j < 43 \<Longrightarrow> b < 2 \<Longrightarrow> zero_syndromes (map (\<lambda>i. q ! (12 + 2 * j + 86 * i + b)) [0..<26])"
proof -
  define src where "src = (\<lambda>j i b. 12 + 2 * j + i * 2 * 43 + b :: nat)"
  have q: "q = fold (\<lambda>j. rs_unit (src j) DP0 DP1 (2076 + 2 * j) (2076 + 2 * j + 2 * 43) 24) [0..<43] (fill 2076 (4 * 43) 0 p)"
    by (simp add: assms(2) encode_L2_P_def src_def)
  have s: "\<forall>j<43. \<forall>i<24. \<forall>b<2. src j i b < 2076" by (auto simp: src_def)
  have len: "2076 + 4 * 43 \<le> length p" using assms(1) by simp
  note r = rs_rows_words [OF generators_P len s q]
  show "length q = length p" by (rule r(1))
  show "q ! x = p ! x" if "x < 2076 \<or> 2248 \<le> x \<and> x < length p" using r(2) [of x] that by simp
  show "zero_syndromes (map (\<lambda>i. q ! (12 + 2 * j + 86 * i + b)) [0..<26])" if j: "j < 43" "b < 2"
    using r(3) [OF j] map_upt_two [of "\<lambda>i. q ! (12 + 2 * j + 86 * i + b)" 24] by (simp add: src_def add_ac mult_ac)
qed

lemma encode_L2_Q_words:
  assumes "2352 \<le> length p" "q = encode_L2_Q 12 p"
  shows "length q = length p" "x < 2248 \<or> 2352 \<le> x \<and> x < length p \<Longrightarrow> q ! x = p ! x"
    "j < 26 \<Longrightarrow> b < 2 \<Longrightarrow> zero_syndromes (map (\<lambda>i. q ! (12 + (86 * j + 88 * i + b) mod 2236)) [0..<43] @
       [q ! (2248 + 2 * j + b), q ! (2300 + 2 * j + b)])"
proof -
  define src where "src = (\<lambda>j i b. 12 + (j * 43 * 2 + i * 2 * 44 + b) mod 2236 :: nat)"
  have q: "q = fold (\<lambda>j. rs_unit (src j) DQ0 DQ1 (2248 + 2 * j) (2248 + 2 * j + 2 * 26) 43) [0..<26] (fill 2248 (4 * 26) 0 p)"
    by (simp add: assms(2) encode_L2_Q_def src_def)
  have s: "\<forall>j<26. \<forall>i<43. \<forall>b<2. src j i b < 2248" using mod_less_divisor [of 2236] by (simp add: src_def)
  have len: "2248 + 4 * 26 \<le> length p" using assms(1) by simp
  note r = rs_rows_words [OF generators_Q len s q]
  show "length q = length p" by (rule r(1))
  show "q ! x = p ! x" if "x < 2248 \<or> 2352 \<le> x \<and> x < length p" using r(2) [of x] that by simp
  show "zero_syndromes (map (\<lambda>i. q ! (12 + (86 * j + 88 * i + b) mod 2236)) [0..<43] @
       [q ! (2248 + 2 * j + b), q ! (2300 + 2 * j + b)])" if j: "j < 26" "b < 2"
    using r(3) [OF j] by (simp add: src_def add_ac mult_ac)
qed

definition bcd :: "nat \<Rightarrow> u8" where
  "bcd n = word_of_nat (16 * (n div 10) + n mod 10)"

lemma tobcd_bcd: "n < 100 \<Longrightarrow> tobcd (word_of_nat n) = bcd n"
proof -
  have "\<forall>n\<in>set [0..<100]. tobcd (word_of_nat n) = bcd n" by code_simp
  then show "n < 100 \<Longrightarrow> tobcd (word_of_nat n) = bcd n" by simp
qed

text \<open>The bytes before the data; the check sum behind them; the address\<close>

lemma sector_head:
  assumes "2352 \<le> length p" "h = (fill 1 11 0xff (p[0 := 0]))[12 := m, 13 := s, 14 := f, 15 := 1]"
  shows "length h = length p" "16 \<le> x \<Longrightarrow> x < length p \<Longrightarrow> h ! x = p ! x" "take 16 h = [0] @ replicate 11 0xff @ [m, s, f, 1]"
proof -
  have "1 + 11 \<le> length (p[0 := 0])" using assms(1) by simp
  from fill_nth [OF this, where v = "0xff"] have hl: "length (fill 1 11 0xff (p[0 := 0])) = length p"
    "\<And>x. x < length p \<Longrightarrow> fill 1 11 0xff (p[0 := 0]) ! x = (if 1 \<le> x \<and> x < 12 then 0xff else p[0 := 0] ! x)"
    by simp_all
  show len: "length h = length p" "16 \<le> x \<Longrightarrow> x < length p \<Longrightarrow> h ! x = p ! x"
    using hl assms(1) by (auto simp: assms(2))
  show "take 16 h = [0] @ replicate 11 0xff @ [m, s, f, 1]"
  proof (rule nth_equalityI)
    fix x assume "x < length (take 16 h)"
    then have x: "x < 16" by simp
    then have "take 16 h ! x = (fill 1 11 0xff (p[0 := 0]))[12 := m, 13 := s, 14 := f, 15 := 1] ! x" by (simp add: assms(2))
    moreover have "x = 0 \<or> 1 \<le> x \<and> x < 12 \<or> x = 12 \<or> x = 13 \<or> x = 14 \<or> x = 15" using x by linarith
    moreover have "p \<noteq> []" using assms(1) by auto
    ultimately show "take 16 h ! x = ([0] @ replicate 11 0xff @ [m, s, f, 1]) ! x"
      using hl assms(1) by (elim disjE) (auto simp add: nth_append nth_Cons')
  qed (use len(1) assms(1) in simp)
qed

lemma sector_edc:
  assumes "2352 \<le> length h"
    "g = fill 2068 8 0 (h[2064 := ucast v, 2065 := ucast (drop_bit 8 v), 2066 := ucast (drop_bit 16 v), 2067 := ucast (drop_bit 24 v)])"
    "length q = length g" "\<And>x. x < 2076 \<Longrightarrow> q ! x = g ! x"
  shows "take 2064 q = take 2064 h"
    "take 12 (drop 2064 q) = [ucast v, ucast (drop_bit 8 v), ucast (drop_bit 16 v), ucast (drop_bit 24 v)] @ replicate 8 0"
proof -
  let ?h = "h[2064 := ucast v, 2065 := ucast (drop_bit 8 v), 2066 := ucast (drop_bit 16 v), 2067 := ucast (drop_bit 24 v)]"
  have "2068 + 8 \<le> length ?h" using assms(1) by simp
  note f = fill_nth [OF this, where v = 0, folded assms(2)]
  have g: "length g = length h" "\<And>x. x < 2064 \<Longrightarrow> g ! x = h ! x" "\<And>x. 2068 \<le> x \<Longrightarrow> x < 2076 \<Longrightarrow> g ! x = 0"
    "g ! 2064 = ucast v" "g ! 2065 = ucast (drop_bit 8 v)" "g ! 2066 = ucast (drop_bit 16 v)" "g ! 2067 = ucast (drop_bit 24 v)"
    using f assms(1) by simp_all
  show "take 2064 q = take 2064 h"
    using assms(1,3,4) g(1,2) by (intro nth_equalityI) auto
  show "take 12 (drop 2064 q) = [ucast v, ucast (drop_bit 8 v), ucast (drop_bit 16 v), ucast (drop_bit 24 v)] @ replicate 8 0"
  proof (rule nth_equalityI)
    fix x assume "x < length (take 12 (drop 2064 q))"
    then have x: "x < 12" by simp
    then have "q ! (2064 + x) = g ! (2064 + x)" using assms(4) by simp
    moreover have "x = 0 \<or> x = 1 \<or> x = 2 \<or> x = 3 \<or> 4 \<le> x" by linarith
    ultimately show "take 12 (drop 2064 q) ! x =
        ([ucast v, ucast (drop_bit 8 v), ucast (drop_bit 16 v), ucast (drop_bit 24 v)] @ replicate 8 0) ! x"
      using x assms(1,3) g(1) g(3) [of "2064 + x"] by (elim disjE) (simp_all add: g(4-7) nth_append)
  qed (use assms(1,3) g(1) in simp)
qed

lemma sector_address:
  assumes "n < 100 * 60 * 75"
  shows "tobcd (word_of_int (int n sdiv (60 * 75))) = bcd (n div 4500)"
    "tobcd (word_of_int ((int n sdiv 75) smod 60)) = bcd (n div 75 mod 60)" "tobcd (word_of_int (int n smod 75)) = bcd (n mod 75)"
proof -
  have i: "int n sdiv (60 * 75) = int (n div 4500)" "(int n sdiv 75) smod 60 = int (n div 75 mod 60)" "int n smod 75 = int (n mod 75)"
    by (simp_all add: sdiv_nonneg smod_nonneg zdiv_int zmod_int)
  have "n div 4500 < 100" using assms by (simp add: less_mult_imp_div_less)
  moreover have "n div 75 mod 60 < 100" "n mod 75 < 100" by (simp_all add: order_less_trans [OF mod_less_divisor])
  ultimately show "tobcd (word_of_int (int n sdiv (60 * 75))) = bcd (n div 4500)"
    "tobcd (word_of_int ((int n sdiv 75) smod 60)) = bcd (n div 75 mod 60)" "tobcd (word_of_int (int n smod 75)) = bcd (n mod 75)"
    unfolding i of_int_of_nat_eq by (simp_all only: tobcd_bcd)
qed

text \<open>The sync field of a sector of a CD, which the CHD reader and the frontend of the same program use\<close>

definition cd_sync :: "u8 list" where "cd_sync = [0] @ replicate 10 0xff @ [0]"

lemma sync_field:
  assumes "take 16 q = [0] @ replicate 11 0xff @ [a, b, c, d]"
  shows "take 11 q = take 11 cd_sync" "q ! 11 = 0xff" "cd_sync ! 11 = 0" "take 4 (drop 12 q) = [a, b, c, d]"
proof -
  have r: "replicate 11 (0xff :: u8) = [0xff, 0xff, 0xff, 0xff, 0xff, 0xff, 0xff, 0xff, 0xff, 0xff, 0xff]"
    by (simp add: numeral_eq_Suc)
  have q: "take 16 q = [0, 0xff, 0xff, 0xff, 0xff, 0xff, 0xff, 0xff, 0xff, 0xff, 0xff, 0xff, a, b, c, d]"
    using assms by (simp add: r)
  show "take 11 q = take 11 cd_sync"
    using arg_cong [OF q, of "take 11"] by (simp add: cd_sync_def numeral_eq_Suc)
  show "q ! 11 = 0xff" using arg_cong [OF q, of "\<lambda>l. l ! 11"] by simp
  show "cd_sync ! 11 = 0" by (simp add: cd_sync_def nth_append)
  show "take 4 (drop 12 q) = [a, b, c, d]"
    using arg_cong [OF q, of "\<lambda>l. drop 12 l"] by (simp add: drop_take)
qed

text \<open>C16: \<^verbatim>\<open>encode_l2\<close> fills in all of a mode 1 sector at an address below 100 minutes but its sync field as the standard has it: the 2048
  bytes of data stay, in front of them stand the address in minutes, seconds and frames as BCD and the mode, behind them the CRC of all
  2064 bytes up to there, low byte first, and eight zeros; and all 86 P columns and all 52 Q diagonals, each with its two parity
  bytes, are words of their Reed-Solomon code: their values at 1 and at the generator of GF(256) are zero. The
  sync field is wrong in its last byte, which the code sets to \<open>ff\<close> where a CD has \<open>00\<close> (an error of the
  code); the CRC covers this byte as it was written.\<close>

theorem encode_l2_sector:
  assumes "2352 \<le> length p" "n < 100 * 60 * 75"
  shows "\<exists>q. encode_l2 p (int n) = Some q \<and> length q = length p \<and>
    take 11 q = take 11 cd_sync \<and> q ! 11 = 0xff \<and> cd_sync ! 11 = 0 \<and>
    take 4 (drop 12 q) = [bcd (n div 4500), bcd (n div 75 mod 60), bcd (n mod 75), 1] \<and>
    take 2048 (drop 16 q) = take 2048 (drop 16 p) \<and>
    (let v = edc_spec (take 2064 q) in take 12 (drop 2064 q) =
       [ucast v, ucast (drop_bit 8 v), ucast (drop_bit 16 v), ucast (drop_bit 24 v)] @ replicate 8 0) \<and>
    (\<forall>j<43. \<forall>b<2. zero_syndromes (map (\<lambda>i. q ! (12 + 2 * j + 86 * i + b)) [0..<26])) \<and>
    (\<forall>j<26. \<forall>b<2. zero_syndromes (map (\<lambda>i. q ! (12 + (86 * j + 88 * i + b) mod 2236)) [0..<43] @
       [q ! (2248 + 2 * j + b), q ! (2300 + 2 * j + b)]))"
proof -
  define h where "h = (fill 1 11 0xff (p[0 := 0]))[12 := tobcd (word_of_int (int n sdiv (60 * 75))),
    13 := tobcd (word_of_int ((int n sdiv 75) smod 60)), 14 := tobcd (word_of_int (int n smod 75)), 15 := 1]"
  define v where "v = build_edc h 0 2063"
  define g where "g = fill 2068 8 0 (h[2064 := ucast v, 2065 := ucast (drop_bit 8 v), 2066 := ucast (drop_bit 16 v), 2067 := ucast (drop_bit 24 v)])"
  define a where "a = encode_L2_P 12 g"
  define q where "q = encode_L2_Q 12 a"
  have enc: "encode_l2 p (int n) = Some q"
    using assms(1) by (simp add: encode_l2_def Let_def q_def a_def g_def v_def h_def)
  note h = sector_head [OF assms(1) h_def]
  have lh: "2352 \<le> length h" using h(1) assms(1) by simp
  then have lg: "2352 \<le> length g" by (simp add: g_def fill_nth(1))
  note P = encode_L2_P_words [OF lg a_def]
  have la: "2352 \<le> length a" using P(1) lg by simp
  note Q = encode_L2_Q_words [OF la q_def]
  have len: "length q = length g" using Q(1) P(1) by simp
  have low: "q ! x = g ! x" if "x < 2076" for x using that P(2) [of x] Q(2) [of x] by simp
  note e = sector_edc [OF lh g_def len low]
  have lq: "length q = length p" using len lh h(1) by (simp add: g_def fill_nth(1))
  have q16: "take 16 q = take 16 h" using arg_cong [OF e(1), of "take 16"] by simp
  have data: "take 2048 (drop 16 q) = take 2048 (drop 16 p)"
  proof (intro nth_equalityI)
    fix x assume "x < length (take 2048 (drop 16 q))"
    then have "x < 2048" by simp
    then show "take 2048 (drop 16 q) ! x = take 2048 (drop 16 p) ! x"
      using arg_cong [OF e(1), of "\<lambda>l. l ! (16 + x)"] h(2) [of "16 + x"] lq assms(1) by simp
  qed (simp add: lq)
  have "map (\<lambda>i. h ! i) [0..<2063 + 1] = take 2064 h"
    using lh by (intro nth_equalityI) auto
  then have v: "v = edc_spec (take 2064 q)" using e(1) by (simp only: v_def build_edc_spec)
  have "\<forall>j<43. \<forall>b<2. zero_syndromes (map (\<lambda>i. q ! (12 + 2 * j + 86 * i + b)) [0..<26])"
  proof (intro allI impI)
    fix j b :: nat
    assume j: "j < 43" "b < 2"
    have "map (\<lambda>i. q ! (12 + 2 * j + 86 * i + b)) [0..<26] = map (\<lambda>i. a ! (12 + 2 * j + 86 * i + b)) [0..<26]"
      using Q(2) j by (intro map_cong) auto
    then show "zero_syndromes (map (\<lambda>i. q ! (12 + 2 * j + 86 * i + b)) [0..<26])" using P(3) [OF j] by (simp only:)
  qed
  moreover have "take 16 q = [0] @ replicate 11 0xff @ [bcd (n div 4500), bcd (n div 75 mod 60), bcd (n mod 75), 1]"
    using q16 h(3) unfolding sector_address [OF assms(2)] by simp
  from sync_field [OF this] have "take 11 q = take 11 cd_sync" "q ! 11 = 0xff" "cd_sync ! 11 = 0"
    "take 4 (drop 12 q) = [bcd (n div 4500), bcd (n div 75 mod 60), bcd (n mod 75), 1]" .
  ultimately show ?thesis using enc lq data e(2) Q(3) unfolding v Let_def by metis
qed

theorem encode_l2_sector_witness:
  "\<exists>q. encode_l2 (replicate 2352 0x5a) (int 12345) = Some q \<and> take 2048 (drop 16 q) = take 2048 (drop 16 (replicate 2352 0x5a)) \<and>
    (\<forall>j<43. \<forall>b<2. zero_syndromes (map (\<lambda>i. q ! (12 + 2 * j + 86 * i + b)) [0..<26]))"
proof -
  have "2352 \<le> length (replicate 2352 (0x5a :: u8))" "(12345 :: nat) < 100 * 60 * 75" by simp_all
  from encode_l2_sector [OF this] show ?thesis by blast
qed

text \<open>The code tells where a single wrong byte is: an error \<open>x\<close> in the symbol \<open>k\<close> places before the last makes the two values
  \<open>x\<close> and \<open>x\<close> times the \<open>k\<close>-th power of the generator.\<close>

lemma syndrome_append: "syndrome0 (cs @ ds) = syndrome0 cs XOR syndrome0 ds"
  "syndrome1 (cs @ ds) = (xtime ^^ length ds) (syndrome1 cs) XOR syndrome1 ds"
proof -
  show "syndrome0 (cs @ ds) = syndrome0 cs XOR syndrome0 ds"
    by (induction ds rule: rev_induct) (simp_all add: syndrome0_def append_assoc [symmetric] xor.assoc del: append_assoc)
  show "syndrome1 (cs @ ds) = (xtime ^^ length ds) (syndrome1 cs) XOR syndrome1 ds"
    by (induction ds rule: rev_induct)
      (simp_all add: syndrome1_def append_assoc [symmetric] xtime_linear xor.assoc del: append_assoc)
qed

text \<open>A sector from \<^verbatim>\<open>encode_l2\<close> can be repaired: when one byte of a code word is wrong, the two values of the
  word are the error and the error times the power of the generator that belongs to its place, so that
  the reader knows both.\<close>

theorem single_error_located:
  assumes "zero_syndromes cs" "i < length cs"
  shows "syndrome0 (cs[i := cs ! i XOR x]) = x \<and> syndrome1 (cs[i := cs ! i XOR x]) = (xtime ^^ (length cs - 1 - i)) x"
proof -
  define as where "as = take i cs"
  define bs where "bs = drop (Suc i) cs"
  have cs: "cs = as @ (cs ! i) # bs" "cs[i := cs ! i XOR x] = as @ (cs ! i XOR x) # bs" and len: "length bs = length cs - 1 - i"
    using assms(2) by (simp_all add: as_def bs_def id_take_nth_drop upd_conv_take_nth_drop)
  have 0: "syndrome0 (as @ c # bs) = syndrome0 as XOR c XOR syndrome0 bs" for c
    using syndrome_append(1) [of as "[c] @ bs"] syndrome_append(1) [of "[c]" bs] by (simp add: syndrome0_def xor.assoc)
  have 1: "syndrome1 (as @ c # bs) = (xtime ^^ Suc (length bs)) (syndrome1 as) XOR (xtime ^^ length bs) c XOR syndrome1 bs" for c
    using syndrome_append(2) [of as "[c] @ bs"] syndrome_append(2) [of "[c]" bs] by (simp add: syndrome1_def xor.assoc)
  have z: "syndrome0 (as @ (cs ! i) # bs) = 0" "syndrome1 (as @ (cs ! i) # bs) = 0" using assms(1) cs(1) by (simp_all add: zero_syndromes_def)
  have "syndrome0 (as @ (cs ! i XOR x) # bs) = syndrome0 (as @ (cs ! i) # bs) XOR x" unfolding 0 by (simp add: ac_simps)
  moreover have "syndrome1 (as @ (cs ! i XOR x) # bs) = syndrome1 (as @ (cs ! i) # bs) XOR (xtime ^^ length bs) x"
    unfolding 1 xtime_pow_linear by (simp add: ac_simps)
  ultimately show ?thesis unfolding cs(2) z len by simp
qed

end
