(* ===== verification/Keybuf.thy ===== *)
theory Keybuf
  imports Prelude "HOL-Library.Monad_Syntax"
begin

unbundle bit_operations_syntax

text \<open>
  The keyboard buffer (\<^verbatim>\<open>sources/src/keybuf.c\<close>): a ring of 256 key codes that the host fills
  and the emulated keyboard empties, the typing of injected text, and the release of keys in warp mode. A
  key code is an int of the source, an integer here; \<open>None\<close> is the failed assertion of \<^verbatim>\<open>get_next_key\<close>. The
  preferences and the beam position \<^verbatim>\<open>vpos\<close> are arguments.

  The locale \<open>bounded_fifo\<close> is what the keyboard needs of the ring: a queue of at most 255 codes.
\<close>

section \<open>State\<close>

record kb_prefs =
  pause_emulation :: bool
  turbo_emulation :: bool
  cp_draco :: bool
  draco_keyboard :: bool
  kb_connected :: bool
  key_swap_hack :: int
  key_swap_hack2 :: bool

text \<open>
  \<open>keyinject\<close> is the text up to its terminating zero. \<open>draco_keys\<close> is the log of the codes sent to the
  keyboard of the DraCo board. \<open>inj_vpos\<close> and \<open>inj_cnt\<close> are the static variables of \<^verbatim>\<open>can_inject\<close>.
\<close>

record keybuf =
  kpb_first :: nat
  kpb_last :: nat
  kpb :: "int list"
  keyinject :: "int list option"
  keyinject_offset :: nat
  keyinject_previous :: u8
  keyinject_state :: bool
  keyinject_do :: bool
  ignore_next_release :: bool
  delayed_released_code :: int
  delayed_released_time :: int
  inj_vpos :: int
  inj_cnt :: int
  draco_keys :: "int list"

definition KEYBUF_SIZE :: nat where "KEYBUF_SIZE = 256"

definition kbtable :: "(int \<times> int \<times> int) list" where
  "kbtable =
    [(126, 0x00, 0x60), (33, 0x01, 0x60), (64, 0x02, 0x60), (35, 0x03, 0x60), (36, 0x04, 0x60), (37, 0x05, 0x60), (94,
     0x06, 0x60), (38, 0x07, 0x60), (42, 0x08, 0x60), (40, 0x09, 0x60), (41, 0x0a, 0x60), (95, 0x0b, 0x60), (43, 0x0c,
     0x60), (124, 0x0d, 0x60), (96, 0x00, 0x00), (49, 0x01, 0x00), (50, 0x02, 0x00), (51, 0x03, 0x00), (52, 0x04, 0x00),
     (53, 0x05, 0x00), (54, 0x06, 0x00), (55, 0x07, 0x00), (56, 0x08, 0x00), (57, 0x09, 0x00), (48, 0x0a, 0x00), (45,
     0x0b, 0x00), (61, 0x0c, 0x00), (92, 0x0d, 0x00), (9, 0x42, 0x00), (10, 0x44, 0x00), (123, 0x1a, 0x60), (125, 0x1b,
     0x60), (58, 0x29, 0x60), (34, 0x2b, 0x60), (91, 0x1a, 0x00), (93, 0x1b, 0x00), (59, 0x29, 0x00), (39, 0x2b, 0x00),
     (60, 0x38, 0x60), (62, 0x39, 0x60), (63, 0x3a, 0x60), (44, 0x38, 0x00), (46, 0x39, 0x00), (47, 0x3a, 0x00), (32,
     0x40, 0x00), (113, 0x10, 0x00), (119, 0x11, 0x00), (101, 0x12, 0x00), (114, 0x13, 0x00), (116, 0x14, 0x00), (121,
     0x15, 0x00), (117, 0x16, 0x00), (105, 0x17, 0x00), (111, 0x18, 0x00), (112, 0x19, 0x00), (97, 0x20, 0x00), (115,
     0x21, 0x00), (100, 0x22, 0x00), (102, 0x23, 0x00), (103, 0x24, 0x00), (104, 0x25, 0x00), (106, 0x26, 0x00), (107,
     0x27, 0x00), (108, 0x28, 0x00), (122, 0x31, 0x00), (120, 0x32, 0x00), (99, 0x33, 0x00), (118, 0x34, 0x00), (98,
     0x35, 0x00), (110, 0x36, 0x00), (109, 0x37, 0x00), (81, 0x10, 0x60), (87, 0x11, 0x60), (69, 0x12, 0x60), (82, 0x13,
     0x60), (84, 0x14, 0x60), (89, 0x15, 0x60), (85, 0x16, 0x60), (73, 0x17, 0x60), (79, 0x18, 0x60), (80, 0x19, 0x60),
     (65, 0x20, 0x60), (83, 0x21, 0x60), (68, 0x22, 0x60), (70, 0x23, 0x60), (71, 0x24, 0x60), (72, 0x25, 0x60), (74,
     0x26, 0x60), (75, 0x27, 0x60), (76, 0x28, 0x60), (90, 0x31, 0x60), (88, 0x32, 0x60), (67, 0x33, 0x60), (86, 0x34,
     0x60), (66, 0x35, 0x60), (78, 0x36, 0x60), (77, 0x37, 0x60)]"

section \<open>Recording keys\<close>

text \<open>The code with the release bit at the top, and at the bottom\<close>

definition code_up :: "int \<Rightarrow> int" where
  "code_up kcd = push_bit 1 kcd OR drop_bit 7 kcd"

definition code_down :: "int \<Rightarrow> int" where
  "code_down kc = push_bit 7 kc OR drop_bit 1 kc"

definition keyswap :: "int \<Rightarrow> int \<Rightarrow> int \<times> int \<Rightarrow> int \<times> int" where
  "keyswap k1 k2 = (\<lambda>(kcd, kc).
     if kcd AND 0x7f = k1 then let kcd = k2 OR (kcd AND 0x80) in (kcd, code_up kcd)
     else if kcd AND 0x7f = k2 then let kcd = k1 OR (kcd AND 0x80) in (kcd, code_up kcd)
     else (kcd, kc))"

text \<open>The end of \<^verbatim>\<open>record_key_direct\<close>\<close>

definition store_key :: "int \<Rightarrow> keybuf \<Rightarrow> bool \<times> keybuf" where
  "store_key kc b =
     (let kpb_next = kpb_first b + 1; kpb_next = (if kpb_next = KEYBUF_SIZE then 0 else kpb_next)
      in if kpb_next = kpb_last b then (False, b)
         else (True, b\<lparr>kpb := (kpb b)[kpb_first b := kc], kpb_first := kpb_next\<rparr>))"

definition swapped :: "kb_prefs \<Rightarrow> bool \<Rightarrow> int \<Rightarrow> int \<times> int" where
  "swapped p direct kc =
     (let k = (code_down kc, kc)
      in if \<not> direct then
           let k = (if key_swap_hack2 p then keyswap 0x0d 0x0c k else k)
           in if key_swap_hack p = 2 then keyswap 0x2b 0x0d k else k
         else k)"

definition record_key_direct :: "kb_prefs \<Rightarrow> int \<Rightarrow> bool \<Rightarrow> keybuf \<Rightarrow> bool \<times> keybuf" where
  "record_key_direct p kc direct b =
     (let b = (if cp_draco p \<and> draco_keyboard p then b\<lparr>draco_keys := draco_keys b @ [kc]\<rparr> else b)
      in if cp_draco p \<and> \<not> kb_connected p then (True, b)
         else
           let (kcd, kc) = swapped p direct kc
           in if \<not> direct \<and> ignore_next_release b then
                let b = b\<lparr>ignore_next_release := False\<rparr>
                in if kcd AND 0x80 \<noteq> 0 then (False, b) else store_key kc b
              else store_key kc b)"

definition record_key :: "kb_prefs \<Rightarrow> int \<Rightarrow> bool \<Rightarrow> keybuf \<Rightarrow> bool \<times> keybuf" where
  "record_key p kc direct b = (if pause_emulation p then (False, b) else record_key_direct p kc direct b)"

section \<open>Injected text\<close>

text \<open>The entry of a character, or the space bar; the codes of pressing or releasing it and its qualifier\<close>

definition kb_lookup :: "int \<Rightarrow> int \<times> int" where
  "kb_lookup key = (case find (\<lambda>(ascii, _). ascii = key) kbtable of Some (_, code, qual) \<Rightarrow> (code, qual) | None \<Rightarrow> (0x40, 0))"

definition keytoscancode :: "kb_prefs \<Rightarrow> int \<Rightarrow> bool \<Rightarrow> keybuf \<Rightarrow> keybuf" where
  "keytoscancode p key release b =
     (let (v, q) = kb_lookup key; msk = (if release then 0x80 else 0);
          v = code_up (v OR msk); q = q OR msk
      in if release then
           let b = snd (record_key p v False b)
           in if q AND 0x7f \<noteq> 0 then snd (record_key p (code_up q) False b) else b
         else
           let b = (if q AND 0x7f \<noteq> 0 then snd (record_key p (code_up q) False b) else b)
           in snd (record_key p v False b))"

definition can_inject :: "int \<Rightarrow> keybuf \<Rightarrow> bool \<times> keybuf" where
  "can_inject vpos b =
     (if inj_vpos b = vpos then (False, b)
      else
        let b = b\<lparr>inj_vpos := vpos, inj_cnt := inj_cnt b + 1\<rparr>
        in if inj_cnt b < 4 then (False, b) else (True, b\<lparr>inj_cnt := 0, keyinject_do := True\<rparr>))"

text \<open>\<^verbatim>\<open>keyinject[i]\<close>; the offset is never behind the terminator\<close>

definition inject_char :: "int list \<Rightarrow> nat \<Rightarrow> int" where
  "inject_char txt i = (if i < length txt then txt ! i else 0)"

definition keys_available :: "int \<Rightarrow> keybuf \<Rightarrow> bool \<times> keybuf" where
  "keys_available vpos b =
     (let val = (kpb_first b \<noteq> kpb_last b); (can, b) = can_inject vpos b
      in (if can \<and> ((case keyinject b of Some txt \<Rightarrow> inject_char txt (keyinject_offset b) \<noteq> 0 | None \<Rightarrow> False) \<or> keyinject_state b)
          then True else val, b))"

definition inject_step :: "kb_prefs \<Rightarrow> keybuf \<Rightarrow> keybuf" where
  "inject_step p b =
     (if keyinject_do b then
        let b = b\<lparr>keyinject_do := False\<rparr>
        in if keyinject_state b then keytoscancode p (uint (keyinject_previous b)) True (b\<lparr>keyinject_state := False\<rparr>)
           else (case keyinject b of
               None \<Rightarrow> b
             | Some txt \<Rightarrow>
                 let key = inject_char txt (keyinject_offset b);
                     b = b\<lparr>keyinject_offset := keyinject_offset b + 1, keyinject_previous := word_of_int key, keyinject_state := True\<rparr>;
                     b = (if inject_char txt (keyinject_offset b) = 0 then b\<lparr>keyinject := None, keyinject_offset := 0\<rparr> else b)
                 in keytoscancode p key False b)
      else b)"

text \<open>Taking a key from the ring; in warp mode, the release of the last key follows by itself\<close>

definition take_key :: "keybuf \<Rightarrow> (int \<times> keybuf) option" where
  "take_key b =
     (if kpb_first b = kpb_last b then None
      else Some (kpb b ! kpb_last b, b\<lparr>kpb_last := (if kpb_last b + 1 = KEYBUF_SIZE then 0 else kpb_last b + 1)\<rparr>))"

definition get_next_key :: "kb_prefs \<Rightarrow> int \<Rightarrow> keybuf \<Rightarrow> (int \<times> keybuf) option" where
  "get_next_key p vpos b = do {
     (key, b) \<leftarrow> take_key (inject_step p b);
     let b = b\<lparr>delayed_released_time := 0\<rparr>;
     if turbo_emulation p \<and> key AND 1 = 0 \<and> drop_bit 1 key < 0x60 then
       let (avail, b) = keys_available vpos b
       in Some (key, if \<not> avail then b\<lparr>delayed_released_code := key OR 1, delayed_released_time := 5\<rparr> else b)
     else Some (key, b) }"

definition keybuf_vsync :: "kb_prefs \<Rightarrow> keybuf \<Rightarrow> keybuf" where
  "keybuf_vsync p b =
     (if delayed_released_time b > 0 then
        let b = b\<lparr>delayed_released_time := delayed_released_time b - 1\<rparr>
        in if delayed_released_time b = 0 then snd (record_key p (delayed_released_code b) False b) else b
      else b)"

definition keybuf_init :: "keybuf \<Rightarrow> keybuf" where
  "keybuf_init b = b\<lparr>kpb_first := 0, kpb_last := 0, keyinject_offset := 0, keyinject := None,
     delayed_released_code := -1, delayed_released_time := 0\<rparr>"

definition keybuf_ignore_next_release :: "keybuf \<Rightarrow> keybuf" where
  "keybuf_ignore_next_release b = b\<lparr>ignore_next_release := True\<rparr>"

definition keybuf_inject :: "int list \<Rightarrow> keybuf \<Rightarrow> keybuf" where
  "keybuf_inject txt b =
     (let newbuf = [c \<leftarrow> txt. \<exists>(ascii, _)\<in>set kbtable. ascii = c]
      in if newbuf = [] then b else b\<lparr>keyinject_offset := 0, keyinject := Some newbuf\<rparr>)"

text \<open>\<^verbatim>\<open>while (keys_available ()) get_next_key ();\<close>\<close>

partial_function (option) drain_keys :: "kb_prefs \<Rightarrow> int \<Rightarrow> keybuf \<Rightarrow> keybuf option" where
  [code]: "drain_keys p vpos b =
     (case keys_available vpos b of (avail, b) \<Rightarrow>
        if avail then do { (_, b) \<leftarrow> get_next_key p vpos b; drain_keys p vpos b } else Some b)"

section \<open>The ring is a bounded queue\<close>

locale bounded_fifo =
  fixes ok :: "'s \<Rightarrow> bool"
    and items :: "'s \<Rightarrow> 'k list"
    and cap :: nat
    and put :: "'k \<Rightarrow> 's \<Rightarrow> bool \<times> 's"
    and get :: "'s \<Rightarrow> ('k \<times> 's) option"
  assumes put_ok: "ok s \<Longrightarrow> put k s = (r, s') \<Longrightarrow>
      ok s' \<and> r = (length (items s) < cap) \<and> items s' = (if length (items s) < cap then items s @ [k] else items s)"
    and get_empty: "ok s \<Longrightarrow> items s = [] \<Longrightarrow> get s = None"
    and get_first: "ok s \<Longrightarrow> items s = k # ks \<Longrightarrow> \<exists>s'. get s = Some (k, s') \<and> ok s' \<and> items s' = ks"
begin

lemma get_iff: "ok s \<Longrightarrow> get s = None \<longleftrightarrow> items s = []"
  by (cases "items s") (auto simp: get_empty dest: get_first)

lemma get_some: "ok s \<Longrightarrow> get s = Some (k, s') \<Longrightarrow> ok s' \<and> items s = k # items s'"
  by (cases "items s") (auto simp: get_empty dest: get_first)

lemma snd_put: "ok s \<Longrightarrow> ok (snd (put k s)) \<and> items (snd (put k s)) = (if length (items s) < cap then items s @ [k] else items s)"
  using put_ok [of s k "fst (put k s)" "snd (put k s)"] by simp

lemma put_all:
  assumes "ok s" "length (items s) + length ks \<le> cap"
  shows "ok (foldl (\<lambda>s k. snd (put k s)) s ks) \<and> items (foldl (\<lambda>s k. snd (put k s)) s ks) = items s @ ks"
  using assms
proof (induction ks arbitrary: s)
  case (Cons k ks)
  then have "ok (snd (put k s))" "items (snd (put k s)) = items s @ [k]" using snd_put [of s k] by auto
  then show ?case using Cons.IH [of "snd (put k s)"] Cons.prems by simp
qed simp

end

definition ring_ok :: "keybuf \<Rightarrow> bool" where
  "ring_ok b \<longleftrightarrow> length (kpb b) = KEYBUF_SIZE \<and> kpb_first b < KEYBUF_SIZE \<and> kpb_last b < KEYBUF_SIZE"

definition pending :: "keybuf \<Rightarrow> int list" where
  "pending b = map (\<lambda>i. kpb b ! ((kpb_last b + i) mod KEYBUF_SIZE)) [0..<(kpb_first b + KEYBUF_SIZE - kpb_last b) mod KEYBUF_SIZE]"

lemma ring_length: "ring_ok b \<Longrightarrow> length (pending b) = (if kpb_last b \<le> kpb_first b then kpb_first b - kpb_last b else kpb_first b + 256 - kpb_last b)"
  by (auto simp: pending_def ring_ok_def KEYBUF_SIZE_def mod_if)

lemma ring_next: "x < KEYBUF_SIZE \<Longrightarrow> (if x + 1 = KEYBUF_SIZE then 0 else x + 1) = (x + 1) mod KEYBUF_SIZE"
  by (simp add: KEYBUF_SIZE_def)

lemma store_key_ring:
  assumes "ring_ok b" "store_key k b = (r, b')"
  shows "ring_ok b' \<and> r = (length (pending b) < 255) \<and> pending b' = (if length (pending b) < 255 then pending b @ [k] else pending b)"
proof -
  let ?f = "kpb_first b" and ?l = "kpb_last b"
  have lt: "?f < 256" "?l < 256" "length (kpb b) = 256" using assms(1) by (simp_all add: ring_ok_def KEYBUF_SIZE_def)
  have full: "(?f + 1) mod 256 = ?l \<longleftrightarrow> \<not> length (pending b) < 255"
    using lt ring_length [OF assms(1)] by (auto simp: mod_if split: if_splits)
  note st = assms(2) [unfolded store_key_def Let_def ring_next [OF lt(1) [folded KEYBUF_SIZE_def]]]
  show ?thesis
  proof (cases "length (pending b) < 255")
    case True
    then have b': "r" "b' = b\<lparr>kpb := (kpb b)[?f := k], kpb_first := (?f + 1) mod 256\<rparr>"
      using st full by (auto simp: KEYBUF_SIZE_def split: if_splits)
    define n where "n = length (pending b)"
    have n: "((?f + 1) mod 256 + 256 - ?l) mod 256 = Suc n" "(?f + 256 - ?l) mod 256 = n" "(?l + n) mod 256 = ?f"
      using True lt ring_length [OF assms(1)] by (auto simp: n_def mod_if split: if_splits)
    have "(kpb b)[?f := k] ! ((?l + i) mod 256) = kpb b ! ((?l + i) mod 256)" if "i < n" for i
    proof -
      have "(?l + i) mod 256 \<noteq> ?f" using that n(3) True lt unfolding n_def [symmetric] by (auto simp: mod_if split: if_splits)
      then show ?thesis by simp
    qed
    then have "pending b' = pending b @ [k]"
      using n lt by (simp add: b' pending_def KEYBUF_SIZE_def)
    then show ?thesis using True b' lt by (simp add: ring_ok_def KEYBUF_SIZE_def)
  next
    case False
    then have "\<not> r" "b' = b" using st full by (auto simp: KEYBUF_SIZE_def split: if_splits)
    then show ?thesis using assms(1) False by simp
  qed
qed

lemma take_key_ring:
  assumes "ring_ok b"
  shows "pending b = [] \<Longrightarrow> take_key b = None"
    "pending b = k # ks \<Longrightarrow> \<exists>b'. take_key b = Some (k, b') \<and> ring_ok b' \<and> pending b' = ks"
proof -
  let ?f = "kpb_first b" and ?l = "kpb_last b"
  have lt: "?f < 256" "?l < 256" "length (kpb b) = 256" using assms(1) by (simp_all add: ring_ok_def KEYBUF_SIZE_def)
  note len = ring_length [OF assms]
  show "take_key b = None" if "pending b = []"
    using len that lt by (auto simp: take_key_def split: if_splits)
  show "\<exists>b'. take_key b = Some (k, b') \<and> ring_ok b' \<and> pending b' = ks" if "pending b = k # ks"
  proof -
    define n where "n = length ks"
    have n: "(?f + 256 - ?l) mod 256 = Suc n" "(?f + 256 - (?l + 1) mod 256) mod 256 = n" "?f \<noteq> ?l"
      using len that lt by (auto simp: n_def mod_if split: if_splits)
    let ?b = "b\<lparr>kpb_last := (?l + 1) mod 256\<rparr>"
    have eq: "take_key b = Some (kpb b ! ?l, ?b)"
      using n(3) ring_next [OF lt(2) [folded KEYBUF_SIZE_def]] by (simp add: take_key_def KEYBUF_SIZE_def)
    have "pending b = kpb b ! ?l # pending ?b"
    proof -
      have "[0..<Suc n] = 0 # map Suc [0..<n]" by (simp add: upt_conv_Cons map_Suc_upt)
      then show ?thesis unfolding pending_def KEYBUF_SIZE_def using n lt
        by (simp add: comp_def mod_add_right_eq add.commute del: upt_Suc)
    qed
    then show ?thesis using eq that lt by (simp add: ring_ok_def KEYBUF_SIZE_def)
  qed
qed

interpretation ring: bounded_fifo ring_ok pending 255 store_key take_key
  using store_key_ring take_key_ring by unfold_locales blast+

section \<open>Injected text arrives\<close>

definition plain :: "kb_prefs \<Rightarrow> keybuf \<Rightarrow> bool" where
  "plain p b \<longleftrightarrow> \<not> pause_emulation p \<and> \<not> cp_draco p \<and> \<not> ignore_next_release b"

lemma store_key_frame: "store_key k b = (r, b') \<Longrightarrow> \<exists>x y. b' = b\<lparr>kpb := x, kpb_first := y\<rparr>"
  by (rule exI [of _ "kpb b'"], rule exI [of _ "kpb_first b'"]) (auto simp: store_key_def Let_def split: if_splits)

lemma record_key_plain: "plain p b \<Longrightarrow> record_key p kc False b = store_key (snd (swapped p False kc)) b"
  by (simp add: plain_def record_key_def record_key_direct_def Let_def split: prod.split)

text \<open>The codes of pressing or releasing the key of a character\<close>

definition typed :: "kb_prefs \<Rightarrow> bool \<Rightarrow> int \<Rightarrow> int list" where
  "typed p release key =
     (let (v, q) = kb_lookup key; msk = (if release then 0x80 else 0);
          vs = [snd (swapped p False (code_up (v OR msk)))];
          qs = (if q \<noteq> 0 then [snd (swapped p False (code_up (q OR msk)))] else [])
      in if release then vs @ qs else qs @ vs)"

lemma kb_lookup_qual: "snd (kb_lookup key) = 0 \<or> snd (kb_lookup key) = 0x60"
proof -
  have q: "\<forall>(a, c, q)\<in>set kbtable. q = 0 \<or> q = 0x60" by code_simp
  show ?thesis
  proof (cases "find (\<lambda>(ascii, _). ascii = key) kbtable")
    case None
    then show ?thesis by (simp add: kb_lookup_def)
  next
    case (Some e)
    then have "e \<in> set kbtable" by (metis find_Some_iff nth_mem)
    moreover obtain a c k where "e = (a, c, k)" by (cases e)
    ultimately show ?thesis using q Some by (auto simp: kb_lookup_def)
  qed
qed

lemma typed_length: "0 < length (typed p r key)" "length (typed p r key) \<le> 2"
  by (auto simp: typed_def Let_def split: prod.split)

definition frame :: "keybuf \<Rightarrow> keybuf \<Rightarrow> bool" where
  "frame b b' \<longleftrightarrow> (\<exists>x y. b' = b\<lparr>kpb := x, kpb_first := y\<rparr>)"

lemma frame_fields:
  "frame b b' \<Longrightarrow> kpb_last b' = kpb_last b \<and> keyinject b' = keyinject b \<and> keyinject_offset b' = keyinject_offset b \<and>
     keyinject_previous b' = keyinject_previous b \<and> keyinject_state b' = keyinject_state b \<and> keyinject_do b' = keyinject_do b \<and>
     ignore_next_release b' = ignore_next_release b \<and> inj_vpos b' = inj_vpos b \<and> inj_cnt b' = inj_cnt b"
  by (auto simp: frame_def)

lemma frame_trans: "frame a b \<Longrightarrow> frame b c \<Longrightarrow> frame a c"
  unfolding frame_def by (elim exE) (simp, (rule exI)+, rule refl)

lemma record_key_room:
  assumes "ring_ok b" "plain p b" "length (pending b) < 255"
  shows "\<exists>b'. record_key p kc False b = (True, b') \<and> ring_ok b' \<and> plain p b' \<and> pending b' = pending b @ [snd (swapped p False kc)] \<and> frame b b'"
proof -
  obtain r b' where st: "store_key (snd (swapped p False kc)) b = (r, b')" by force
  then have f: "frame b b'" using store_key_frame frame_def by blast
  then have "plain p b'" using frame_fields [OF f] assms(2) by (simp add: plain_def)
  then show ?thesis using ring.put_ok [OF assms(1) st] assms(2,3) st f by (simp add: record_key_plain)
qed

lemma keytoscancode_typed:
  assumes "ring_ok b" "plain p b" "length (pending b) \<le> 253"
  shows "\<exists>b'. keytoscancode p key r b = b' \<and> ring_ok b' \<and> pending b' = pending b @ typed p r key \<and> frame b b'"
proof -
  obtain v q where vq: "kb_lookup key = (v, q)" by force
  then have q: "q = 0 \<or> q = 0x60" using kb_lookup_qual [of key] by simp
  define c d where "c = (if r then code_up (v OR 0x80) else code_up (q OR 0))"
    and "d = (if r then code_up (q OR 0x80) else code_up (v OR 0))"
  obtain b1 where 1: "record_key p c False b = (True, b1)" "ring_ok b1" "plain p b1"
    "pending b1 = pending b @ [snd (swapped p False c)]" "frame b b1" using record_key_room [OF assms(1,2)] assms(3) by fastforce
  then obtain b2 where 2: "record_key p d False b1 = (True, b2)" "ring_ok b2" "pending b2 = pending b1 @ [snd (swapped p False d)]" "frame b1 b2"
    using record_key_room [OF 1(2,3)] assms(3) by fastforce
  obtain b3 where 3: "record_key p d False b = (True, b3)" "ring_ok b3" "pending b3 = pending b @ [snd (swapped p False d)]" "frame b b3"
    using record_key_room [OF assms(1,2)] assms(3) by fastforce
  show ?thesis
  proof (cases r)
    case True
    then show ?thesis using q 1 2 frame_trans [OF 1(5) 2(4)]
      by (elim disjE) (simp_all add: keytoscancode_def vq Let_def typed_def c_def d_def)
  next
    case False
    then show ?thesis using q 1 2 3 frame_trans [OF 1(5) 2(4)]
      by (elim disjE) (simp_all add: keytoscancode_def vq Let_def typed_def c_def d_def)
  qed
qed

definition injectable :: "int \<Rightarrow> bool" where
  "injectable c \<longleftrightarrow> (\<exists>(ascii, _)\<in>set kbtable. ascii = c)"

lemma injectable_range: "injectable c \<Longrightarrow> 0 < c \<and> c < 256"
proof -
  have "\<forall>(a, _)\<in>set kbtable. 0 < a \<and> a < 256" by code_simp
  then show "injectable c \<Longrightarrow> 0 < c \<and> c < 256" by (auto simp: injectable_def)
qed

definition inject_ok :: "keybuf \<Rightarrow> bool" where
  "inject_ok b \<longleftrightarrow> (case keyinject b of None \<Rightarrow> True
     | Some t \<Rightarrow> keyinject_offset b < length t \<and> (\<forall>c\<in>set t. injectable c))"

definition remaining :: "keybuf \<Rightarrow> int list" where
  "remaining b = (case keyinject b of None \<Rightarrow> [] | Some t \<Rightarrow> drop (keyinject_offset b) t)"

definition stroke :: "kb_prefs \<Rightarrow> int \<Rightarrow> int list" where
  "stroke p c = typed p False c @ typed p True c"

definition to_come :: "kb_prefs \<Rightarrow> keybuf \<Rightarrow> int list" where
  "to_come p b = pending b @ (if keyinject_state b then typed p True (uint (keyinject_previous b)) else []) @
     concat (map (stroke p) (remaining b))"

definition injections_left :: "keybuf \<Rightarrow> nat" where
  "injections_left b = 2 * length (remaining b) + of_bool (keyinject_state b)"

lemma keyinject_available:
  "inject_ok b \<Longrightarrow> ((case keyinject b of Some txt \<Rightarrow> inject_char txt (keyinject_offset b) \<noteq> 0 | None \<Rightarrow> False) \<or> keyinject_state b)
     \<longleftrightarrow> 0 < injections_left b"
  using injectable_range [of 0] by (auto simp: inject_ok_def injections_left_def remaining_def inject_char_def split: option.splits) (metis nth_mem)

lemma inject_step_come:
  assumes "ring_ok b" "plain p b" "inject_ok b" "length (pending b) \<le> 253" "keyinject_do b"
  shows "ring_ok (inject_step p b) \<and> plain p (inject_step p b) \<and> inject_ok (inject_step p b) \<and>
    \<not> keyinject_do (inject_step p b) \<and>
    inj_vpos (inject_step p b) = inj_vpos b \<and> inj_cnt (inject_step p b) = inj_cnt b \<and>
    to_come p (inject_step p b) = to_come p b \<and> injections_left (inject_step p b) = injections_left b - 1 \<and>
    length (pending b) \<le> length (pending (inject_step p b)) \<and> length (pending (inject_step p b)) \<le> length (pending b) + 2 \<and>
    (0 < injections_left b \<longrightarrow> pending (inject_step p b) \<noteq> [])"
proof -
  have fr: "ring_ok c = ring_ok b" "pending c = pending b" "plain p c = plain p b"
    if "kpb c = kpb b" "kpb_first c = kpb_first b" "kpb_last c = kpb_last b" "ignore_next_release c = ignore_next_release b" for c
    using that by (simp_all add: ring_ok_def pending_def plain_def)
  have ks: "ring_ok (inject_step p b) \<and> pending (inject_step p b) = pending c @ typed p r key \<and> frame c (inject_step p b) \<and>
      remaining (inject_step p b) = remaining c \<and> inject_ok (inject_step p b) = inject_ok c \<and> plain p (inject_step p b)"
    if "inject_step p b = keytoscancode p key r c" "ring_ok c" "plain p c" "length (pending c) \<le> 253" for c r key
    using keytoscancode_typed [OF that(2-4), of key r] that(1,3) frame_fields [of c "inject_step p b"]
    by (auto simp: remaining_def inject_ok_def plain_def cong: option.case_cong)
  consider (rel) "keyinject_state b" | (quiet) "\<not> keyinject_state b" "keyinject b = None"
    | (press) t where "\<not> keyinject_state b" "keyinject b = Some t" by fastforce
  then show ?thesis
  proof cases
    case rel
    let ?c = "b\<lparr>keyinject_do := False, keyinject_state := False\<rparr>"
    have e: "inject_step p b = keytoscancode p (uint (keyinject_previous b)) True ?c"
      using rel assms(5) by (simp add: inject_step_def Let_def)
    have "ring_ok ?c" "plain p ?c" "length (pending ?c) \<le> 253" using fr [of ?c] assms by simp_all
    note k = ks [OF e this]
    have "remaining ?c = remaining b" "inject_ok ?c" using assms(3) by (simp_all add: remaining_def inject_ok_def cong: option.case_cong)
    then show ?thesis using k fr [of ?c] rel frame_fields [of ?c "inject_step p b"] typed_length [of p True "uint (keyinject_previous b)"]
      by (simp add: to_come_def injections_left_def)
  next
    case quiet
    then have e: "inject_step p b = b\<lparr>keyinject_do := False\<rparr>" using assms(5) by (simp add: inject_step_def Let_def)
    then show ?thesis using fr [of "b\<lparr>keyinject_do := False\<rparr>"] assms quiet
      by (simp add: to_come_def injections_left_def remaining_def inject_ok_def cong: option.case_cong)
  next
    case press
    let ?o = "keyinject_offset b"
    let ?k = "t ! ?o"
    have o: "?o < length t" "\<forall>c\<in>set t. injectable c" using assms(3) press by (auto simp: inject_ok_def)
    then have kr: "0 < ?k" "?k < 256" using injectable_range by auto
    have nz: "inject_char t (Suc ?o) = 0 \<longleftrightarrow> length t = Suc ?o"
      using o injectable_range [of 0] by (auto simp: inject_char_def) (metis Suc_lessI nth_mem)
    define c where "c = (let b = b\<lparr>keyinject_do := False, keyinject_offset := Suc ?o, keyinject_previous := word_of_int ?k, keyinject_state := True\<rparr>
      in if length t = Suc ?o then b\<lparr>keyinject := None, keyinject_offset := 0\<rparr> else b)"
    have e: "inject_step p b = keytoscancode p ?k False c"
      using press assms(5) o nz by (simp add: inject_step_def Let_def c_def) (simp add: inject_char_def)
    have cf: "kpb c = kpb b" "kpb_first c = kpb_first b" "kpb_last c = kpb_last b" "ignore_next_release c = ignore_next_release b"
      "keyinject_state c" "\<not> keyinject_do c" "inj_vpos c = inj_vpos b" "inj_cnt c = inj_cnt b" "uint (keyinject_previous c) = ?k"
      using kr by (simp_all add: c_def Let_def uint_word_of_int)
    have "drop ?o t = ?k # drop (Suc ?o) t" using o by (simp add: Cons_nth_drop_Suc)
    then have rem: "remaining b = ?k # remaining c" "inject_ok c"
      using press o by (auto simp: c_def Let_def remaining_def inject_ok_def)
    have "ring_ok c" "plain p c" "length (pending c) \<le> 253" using fr [of c] cf assms by simp_all
    note k = ks [OF e this]
    then show ?thesis using frame_fields [of c "inject_step p b"] fr [of c] cf rem press typed_length [of p False ?k]
      by (simp add: to_come_def injections_left_def stroke_def)
  qed
qed

text \<open>What the keyboard does when it is ready for the next code\<close>

definition poll_key :: "kb_prefs \<Rightarrow> int \<Rightarrow> keybuf \<Rightarrow> (int list \<times> keybuf) option" where
  "poll_key p vpos b =
     (case keys_available vpos b of (avail, b) \<Rightarrow>
        if avail then do { (k, b) \<leftarrow> get_next_key p vpos b; Some ([k], b) } else Some ([], b))"

fun poll_keys :: "kb_prefs \<Rightarrow> int list \<Rightarrow> keybuf \<Rightarrow> (int list \<times> keybuf) option" where
  "poll_keys p [] b = Some ([], b)"
| "poll_keys p (v # vs) b = do { (ks, b) \<leftarrow> poll_key p v b; (ks', b) \<leftarrow> poll_keys p vs b; Some (ks @ ks', b) }"

definition poll_inv :: "kb_prefs \<Rightarrow> keybuf \<Rightarrow> bool" where
  "poll_inv p b \<longleftrightarrow> ring_ok b \<and> plain p b \<and> inject_ok b \<and> 0 \<le> inj_cnt b \<and>
     int (length (pending b)) + inj_cnt b \<le> 3 \<and> (keyinject_do b \<longrightarrow> pending b = [])"

text \<open>A bound of the polls that still bring something\<close>

definition polls_left :: "keybuf \<Rightarrow> nat" where
  "polls_left b = (if 0 < injections_left b then 4 * injections_left b + 3 - nat (inj_cnt b) else length (pending b))"

lemma pending_empty: "ring_ok b \<Longrightarrow> pending b = [] \<longleftrightarrow> kpb_first b = kpb_last b"
  using ring_length [of b] by (auto simp: ring_ok_def KEYBUF_SIZE_def split: if_splits)

lemma same_parts:
  assumes "kpb c = kpb b" "kpb_first c = kpb_first b" "kpb_last c = kpb_last b" "ignore_next_release c = ignore_next_release b"
    "keyinject c = keyinject b" "keyinject_offset c = keyinject_offset b" "keyinject_previous c = keyinject_previous b"
    "keyinject_state c = keyinject_state b"
  shows "ring_ok c = ring_ok b" "pending c = pending b" "plain p c = plain p b" "inject_ok c = inject_ok b" "to_come p c = to_come p b"
    "injections_left c = injections_left b"
  using assms by (simp_all add: ring_ok_def pending_def plain_def inject_ok_def to_come_def injections_left_def remaining_def cong: option.case_cong)

lemma take_key_come:
  assumes "ring_ok b" "pending b = k # ks"
  shows "\<exists>b'. take_key b = Some (k, b') \<and> ring_ok b' \<and> pending b' = ks \<and> plain p b' = plain p b \<and> inject_ok b' = inject_ok b \<and>
    k # to_come p b' = to_come p b \<and> injections_left b' = injections_left b \<and> keyinject_do b' = keyinject_do b \<and>
    inj_vpos b' = inj_vpos b \<and> inj_cnt b' = inj_cnt b"
proof -
  obtain b' where t: "take_key b = Some (k, b')" "ring_ok b'" "pending b' = ks" using take_key_ring(2) [OF assms] by blast
  then have "b' = b\<lparr>kpb_last := kpb_last b'\<rparr>" by (auto simp: take_key_def split: if_splits)
  then obtain x where x: "b' = b\<lparr>kpb_last := x\<rparr>" by blast
  have "remaining b' = remaining b" "inject_ok b' = inject_ok b" by (simp_all add: x remaining_def inject_ok_def cong: option.case_cong)
  then show ?thesis using t assms(2) by (simp add: x plain_def to_come_def injections_left_def)
qed

text \<open>In a line that was polled before, warp mode only notes the release\<close>

lemma get_next_key_come:
  assumes "ring_ok (inject_step p b)" "pending (inject_step p b) = k # ks" "inj_vpos (inject_step p b) = vpos"
  shows "\<exists>b'. get_next_key p vpos b = Some (k, b') \<and> ring_ok b' \<and> pending b' = ks \<and> plain p b' = plain p (inject_step p b) \<and>
    inject_ok b' = inject_ok (inject_step p b) \<and> k # to_come p b' = to_come p (inject_step p b) \<and>
    injections_left b' = injections_left (inject_step p b) \<and> keyinject_do b' = keyinject_do (inject_step p b) \<and>
    inj_vpos b' = vpos \<and> inj_cnt b' = inj_cnt (inject_step p b)"
proof -
  obtain b1 where 1: "take_key (inject_step p b) = Some (k, b1)" "ring_ok b1" "pending b1 = ks" "plain p b1 = plain p (inject_step p b)"
    "inject_ok b1 = inject_ok (inject_step p b)" "k # to_come p b1 = to_come p (inject_step p b)"
    "injections_left b1 = injections_left (inject_step p b)" "keyinject_do b1 = keyinject_do (inject_step p b)"
    "inj_vpos b1 = vpos" "inj_cnt b1 = inj_cnt (inject_step p b)" using take_key_come [OF assms(1,2), of p] assms(3) by blast
  have c: "can_inject vpos (b1\<lparr>delayed_released_time := 0\<rparr>) = (False, b1\<lparr>delayed_released_time := 0\<rparr>)" using 1(9) by (simp add: can_inject_def)
  define b' where "b' = (if turbo_emulation p \<and> k AND 1 = 0 \<and> drop_bit 1 k < 0x60 \<and> kpb_first b1 = kpb_last b1
    then b1\<lparr>delayed_released_time := 5, delayed_released_code := k OR 1\<rparr> else b1\<lparr>delayed_released_time := 0\<rparr>)"
  have "get_next_key p vpos b = Some (k, b')"
    using 1(1) c by (auto simp: get_next_key_def b'_def keys_available_def Let_def)
  moreover have "kpb b' = kpb b1" "kpb_first b' = kpb_first b1" "kpb_last b' = kpb_last b1" "ignore_next_release b' = ignore_next_release b1"
    "keyinject b' = keyinject b1" "keyinject_offset b' = keyinject_offset b1" "keyinject_previous b' = keyinject_previous b1"
    "keyinject_state b' = keyinject_state b1" "keyinject_do b' = keyinject_do b1" "inj_vpos b' = inj_vpos b1" "inj_cnt b' = inj_cnt b1"
    by (simp_all add: b'_def)
  ultimately show ?thesis using 1 same_parts [of b' b1] by simp
qed

lemma poll_key_step:
  assumes "poll_inv p b"
  shows "\<exists>ks b'. poll_key p v b = Some (ks, b') \<and> poll_inv p b' \<and> ks @ to_come p b' = to_come p b \<and> inj_vpos b' = v \<and>
    (v \<noteq> inj_vpos b \<longrightarrow> polls_left b' \<le> polls_left b - 1)"
proof -
  note i = assms [unfolded poll_inv_def]
  define b1 where "b1 = snd (can_inject v b)"
  have b1: "ring_ok b1" "pending b1 = pending b" "plain p b1" "inject_ok b1" "to_come p b1 = to_come p b"
    "injections_left b1 = injections_left b" "inj_vpos b1 = v"
    using same_parts [of b1 b] i by (auto simp: b1_def can_inject_def Let_def)
  have fst: "fst (can_inject v b) \<longleftrightarrow> v \<noteq> inj_vpos b \<and> 3 \<le> inj_cnt b"
    and cnt: "inj_cnt b1 = (if v = inj_vpos b then inj_cnt b else if inj_cnt b < 3 then inj_cnt b + 1 else 0)"
    and do1: "keyinject_do b1 = (keyinject_do b \<or> fst (can_inject v b))"
    by (auto simp: b1_def can_inject_def Let_def)
  have av: "keys_available v b = (pending b \<noteq> [] \<or> fst (can_inject v b) \<and> 0 < injections_left b, b1)"
  proof -
    obtain x where x: "can_inject v b = (x, b1)" by (cases "can_inject v b") (simp add: b1_def)
    show ?thesis unfolding keys_available_def x Let_def prod.case keyinject_available [OF b1(4)] b1(6)
      using pending_empty [of b] i by auto
  qed
  have c3: "inj_cnt b \<le> 3" using i by auto
  have p3: "3 \<le> inj_cnt b \<Longrightarrow> pending b = []" using i by (cases "pending b") auto
  show ?thesis
  proof (cases "fst (keys_available v b)")
    case False
    then have "pending b = []" "\<not> (fst (can_inject v b) \<and> 0 < injections_left b)" "poll_key p v b = Some ([], b1)"
      unfolding av by (auto simp: poll_key_def av)
    then show ?thesis using b1 cnt fst i c3
      by (auto simp: poll_inv_def polls_left_def)
  next
    case True
    have st: "ring_ok (inject_step p b1) \<and> plain p (inject_step p b1) \<and> inject_ok (inject_step p b1) \<and>
        \<not> keyinject_do (inject_step p b1) \<and> inj_vpos (inject_step p b1) = v \<and> inj_cnt (inject_step p b1) = inj_cnt b1 \<and>
        to_come p (inject_step p b1) = to_come p b \<and>
        injections_left (inject_step p b1) = injections_left b - of_bool (fst (can_inject v b)) \<and>
        length (pending (inject_step p b1)) \<le> length (pending b) + of_bool (fst (can_inject v b)) * 2 \<and> pending (inject_step p b1) \<noteq> []"
    proof (cases "keyinject_do b1")
      case True
      then have "fst (can_inject v b) \<and> 0 < injections_left b"
        using do1 i fst p3 \<open>fst (keys_available v b)\<close> by (auto simp: av)
      moreover have "length (pending b1) \<le> 253" using i b1 by auto
      ultimately show ?thesis using inject_step_come [OF b1(1,3,4) _ True] b1 by auto
    next
      case False
      then have "inject_step p b1 = b1" by (simp add: inject_step_def)
      then show ?thesis using False do1 b1 \<open>fst (keys_available v b)\<close> by (auto simp: av)
    qed
    then obtain k ks where k: "pending (inject_step p b1) = k # ks" by (meson neq_Nil_conv)
    obtain b' where b': "get_next_key p v b1 = Some (k, b')" "ring_ok b'" "pending b' = ks" "plain p b'" "inject_ok b'"
      "k # to_come p b' = to_come p b" "injections_left b' = injections_left (inject_step p b1)" "\<not> keyinject_do b'"
      "inj_vpos b' = v" "inj_cnt b' = inj_cnt b1"
      using get_next_key_come [of p b1 k ks v] st k by auto
    have left: "0 < injections_left b" if "fst (can_inject v b)" using that True p3 fst by (auto simp: av)
    have "poll_key p v b = Some ([k], b')" using b'(1) True by (simp add: poll_key_def av)
    moreover have "poll_inv p b'" using b' st k i cnt fst c3 p3 by (auto simp: poll_inv_def)
    moreover have "v \<noteq> inj_vpos b \<longrightarrow> polls_left b' \<le> polls_left b - 1"
      using b' st k i cnt fst c3 p3 left by (auto simp: polls_left_def)
    ultimately show ?thesis using b' by auto
  qed
qed

lemma poll_keys_come:
  "poll_inv p b \<Longrightarrow> \<exists>out b'. poll_keys p vs b = Some (out, b') \<and> poll_inv p b' \<and> out @ to_come p b' = to_come p b \<and>
    (distinct_adj (inj_vpos b # vs) \<longrightarrow> polls_left b' \<le> polls_left b - length vs)"
proof (induction vs arbitrary: b)
  case (Cons v vs)
  obtain ks b1 where 1: "poll_key p v b = Some (ks, b1)" "poll_inv p b1" "ks @ to_come p b1 = to_come p b" "inj_vpos b1 = v"
    "v \<noteq> inj_vpos b \<longrightarrow> polls_left b1 \<le> polls_left b - 1" using poll_key_step [OF Cons.prems] by blast
  obtain out b' where 2: "poll_keys p vs b1 = Some (out, b')" "poll_inv p b'" "out @ to_come p b' = to_come p b1"
    "distinct_adj (inj_vpos b1 # vs) \<longrightarrow> polls_left b' \<le> polls_left b1 - length vs" using Cons.IH [OF 1(2)] by blast
  have "poll_keys p (v # vs) b = Some (ks @ out, b')" using 1(1) 2(1) by simp
  moreover have "(ks @ out) @ to_come p b' = to_come p b" using 1(3) 2(3) by simp
  moreover have "polls_left b' \<le> polls_left b - length (v # vs)" if "distinct_adj (inj_vpos b # v # vs)"
    using that 1(4,5) 2(4) by auto
  ultimately show ?case using 2(2) by blast
qed simp

lemma nothing_left: "polls_left b = 0 \<Longrightarrow> inj_cnt b \<le> 3 \<Longrightarrow> to_come p b = []"
  by (cases "remaining b") (auto simp: polls_left_def to_come_def injections_left_def split: if_splits)

text \<open>Text pasted into the emulator is typed without loss: from an idle keyboard, after \<^verbatim>\<open>keybuf_inject\<close>, a
  keyboard that asks for a key in every line, eight times per character and three more, receives for each
  character the key table knows, in order, the codes of pressing and of releasing its key, a shifted one
  with the shift key around it, and nothing else; the assertion of \<^verbatim>\<open>get_next_key\<close> never fails on the way.\<close>

theorem injected_text_typed:
  assumes "poll_inv p b" "to_come p b = []" "distinct_adj (inj_vpos b # vs)" "8 * length txt + 3 \<le> length vs"
  shows "\<exists>b'. poll_keys p vs (keybuf_inject txt b) = Some (concat (map (stroke p) (filter injectable txt)), b') \<and> to_come p b' = []"
proof -
  let ?b = "keybuf_inject txt b"
  have c: "remaining b = []" "pending b = []" "\<not> keyinject_state b"
  proof -
    have "\<forall>c. stroke p c \<noteq> []" using typed_length by (auto simp: stroke_def)
    then show "remaining b = []" "pending b = []" "\<not> keyinject_state b"
      using assms(2) typed_length [of p True "uint (keyinject_previous b)"] by (auto simp: to_come_def split: if_splits)
  qed
  have f: "[c \<leftarrow> txt. \<exists>(ascii, _)\<in>set kbtable. ascii = c] = filter injectable txt" by (simp add: injectable_def [abs_def])
  have inv: "poll_inv p ?b" and come: "to_come p ?b = concat (map (stroke p) (filter injectable txt))"
    and left: "polls_left ?b \<le> 8 * length txt + 3"
  proof -
    show "poll_inv p ?b"
      using assms(1) by (auto simp: poll_inv_def keybuf_inject_def f Let_def ring_ok_def plain_def inject_ok_def pending_def)
    show "to_come p ?b = concat (map (stroke p) (filter injectable txt))"
      using c by (auto simp: to_come_def keybuf_inject_def f Let_def remaining_def pending_def)
    have "length (remaining ?b) \<le> length txt" "\<not> keyinject_state ?b" "pending ?b = []"
      using c by (auto simp: keybuf_inject_def f Let_def remaining_def pending_def)
    then show "polls_left ?b \<le> 8 * length txt + 3" by (auto simp: polls_left_def injections_left_def intro: order_trans [OF diff_le_self])
  qed
  have "inj_vpos ?b = inj_vpos b" by (simp add: keybuf_inject_def Let_def)
  then obtain out b' where o: "poll_keys p vs ?b = Some (out, b')" "poll_inv p b'" "out @ to_come p b' = to_come p ?b" "polls_left b' \<le> polls_left ?b - length vs"
    using poll_keys_come [OF inv, of vs] assms(3) by auto
  then have "to_come p b' = []" using left assms(4) by (intro nothing_left) (auto simp: poll_inv_def)
  then show ?thesis using o come by simp
qed

definition idle_keybuf :: keybuf where
  "idle_keybuf = \<lparr>kpb_first = 0, kpb_last = 0, kpb = replicate 256 0, keyinject = None, keyinject_offset = 0, keyinject_previous = 0,
     keyinject_state = False, keyinject_do = False, ignore_next_release = False, delayed_released_code = -1,
     delayed_released_time = 0, inj_vpos = 0, inj_cnt = 0, draco_keys = []\<rparr>"

definition plain_prefs :: kb_prefs where
  "plain_prefs = \<lparr>pause_emulation = False, turbo_emulation = False, cp_draco = False, draco_keyboard = False, kb_connected = True,
     key_swap_hack = 0, key_swap_hack2 = False\<rparr>"

lemma idle_keybuf_ok: "poll_inv plain_prefs idle_keybuf" "to_come plain_prefs idle_keybuf = []" "pending idle_keybuf = []"
  by (simp_all add: poll_inv_def idle_keybuf_def plain_prefs_def ring_ok_def plain_def inject_ok_def pending_def to_come_def
      remaining_def KEYBUF_SIZE_def)

theorem injected_text_typed_witness:
  "\<exists>b'. poll_keys plain_prefs [1, 2, 3, 4, 5, 6, 7, 8, 9, 10, 11, 12, 13, 14, 15, 16, 17, 18, 19] (keybuf_inject [72, 105] idle_keybuf) =
     Some ([0xc0, 0x4a, 0x14b, 0x1c1, 0x2e, 0x12f], b') \<and> to_come plain_prefs b' = []"
proof -
  have c: "concat (map (stroke plain_prefs) (filter injectable [72, 105])) = [0xc0, 0x4a, 0x14b, 0x1c1, 0x2e, 0x12f]"
    unfolding injectable_def by code_simp
  have "inj_vpos idle_keybuf = 0" by (simp add: idle_keybuf_def)
  then have "distinct_adj (inj_vpos idle_keybuf # [1, 2, 3, 4, 5, 6, 7, 8, 9, 10, 11, 12, 13, 14, 15, 16, 17, 18, 19])" by simp
  from injected_text_typed [OF idle_keybuf_ok(1,2) this, of "[72, 105]"] show ?thesis unfolding c by simp
qed

text \<open>Without a keyboard the codes are thrown away; the loop ends and leaves the ring empty.\<close>

lemma drain_same_line:
  assumes "ring_ok b" "plain p b" "inject_ok b" "inj_vpos b = v" "length (pending b) + 2 * of_bool (keyinject_do b) \<le> 255"
  shows "\<exists>b'. drain_keys p v b = Some b' \<and> ring_ok b' \<and> pending b' = []"
  using assms
proof (induction "length (pending b) + 3 * of_bool (keyinject_do b)" arbitrary: b rule: less_induct)
  case less
  have av: "keys_available v b = (pending b \<noteq> [], b)"
    using less.prems pending_empty [of b] by (auto simp: keys_available_def can_inject_def Let_def)
  show ?case
  proof (cases "pending b = []")
    case True
    then show ?thesis using less.prems av by (subst drain_keys.simps) simp
  next
    case False
    let ?c = "inject_step p b"
    have st: "ring_ok ?c \<and> plain p ?c \<and> inject_ok ?c \<and> \<not> keyinject_do ?c \<and> inj_vpos ?c = v \<and> pending ?c \<noteq> [] \<and>
      length (pending ?c) \<le> length (pending b) + 2 * of_bool (keyinject_do b)"
    proof (cases "keyinject_do b")
      case True
      then show ?thesis using inject_step_come [OF less.prems(1-3) _ True] less.prems(4,5) False by fastforce
    next
      case f: False
      then have "?c = b" by (simp add: inject_step_def)
      then show ?thesis using f less.prems False by simp
    qed
    then obtain k ks where k: "pending ?c = k # ks" by (meson neq_Nil_conv)
    obtain b' where b': "get_next_key p v b = Some (k, b')" "ring_ok b'" "pending b' = ks" "plain p b'" "inject_ok b'" "\<not> keyinject_do b'" "inj_vpos b' = v"
      using get_next_key_come [of p b k ks v] st k by auto
    have "\<exists>b''. drain_keys p v b' = Some b'' \<and> ring_ok b'' \<and> pending b'' = []"
      using b' k st less.prems(5) by (intro less.hyps) auto
    then show ?thesis using b'(1) False av by (subst drain_keys.simps) simp
  qed
qed

end
