(* ===== verification/Keyboard.thy ===== *)
theory Keyboard
  imports Keybuf CiaRegs
begin

unbundle bit_operations_syntax

text \<open>
  The keyboard of the Amiga, as \<^verbatim>\<open>sources/src/cia.c\<close> emulates it: it sends its codes, inverted, through
  the serial register of the first 8520, one at a time, and waits for the handshake, a pulse on the serial
  line that the program makes with control register A; after eight frames without a handshake it sends the
  lost-synchronisation code. On Ctrl-Amiga-Amiga it sends reset warnings and resets the machine
  after two handshakes or a timeout.

  It takes the codes from \<open>Keybuf\<close> and acts on the chips of \<open>Cia\<close>. \<open>kb_sent\<close> is the log of the values put into the
  serial register, \<open>kb_resets\<close> counts the calls of \<^verbatim>\<open>inputdevice_do_kb_reset\<close>. Printed warnings about
  short handshake pulses are left out.
\<close>

section \<open>State\<close>

text \<open>\<open>reset_limit\<close> is \<^verbatim>\<open>(int)(10 * maxvpos_nom * vblank_hz)\<close>.\<close>

record kb_env =
  kprefs :: kb_prefs
  kcia :: cia_env
  vpos :: int
  hsync_counter :: nat
  maxvpos :: int
  maxvpos_nom :: int
  reset_limit :: int
  cpu_halted :: bool
  cpuboard :: bool
  cs_kbhandshake :: bool
  m68k_pc :: nat

record kb_sys =
  kbuf :: keybuf
  kbstate :: nat
  kbcode :: u8
  kblostsynccnt :: int
  kbhandshakestart :: int
  resetwarning_phase :: int
  resetwarning_timer :: int
  kb_resets :: nat
  kb_sent :: "u8 list"
  kb_cia :: cia_sys

definition AK_RESETWARNING :: u8 where "AK_RESETWARNING = 0x78"
definition AK_INIT_POWERUP :: u8 where "AK_INIT_POWERUP = 0xfd"
definition AK_TERM_POWERUP :: u8 where "AK_TERM_POWERUP = 0xfe"

section \<open>Sending a code\<close>

definition setcode :: "u8 \<Rightarrow> kb_sys \<Rightarrow> kb_sys" where
  "setcode keycode s = s\<lparr>kbcode := NOT (push_bit 1 keycode OR drop_bit 7 keycode)\<rparr>"

definition keyreq :: "kb_env \<Rightarrow> kb_sys \<Rightarrow> kb_sys" where
  "keyreq e s =
     (let s = s\<lparr>kb_cia := set_chip 0 ((chip (kb_cia s) 0)\<lparr>sdr := kbcode s\<rparr>) (kb_cia s), kb_sent := kb_sent s @ [kbcode s]\<rparr>;
          s = s\<lparr>kblostsynccnt := 8 * maxvpos e * 8\<rparr>
      in s\<lparr>kb_cia := CIA_sync_interrupt (kcia e) 0 ICR_SP (kb_cia s)\<rparr>)"

text \<open>\<^verbatim>\<open>sendrw\<close> repeats the statements of \<^verbatim>\<open>keyreq\<close>.\<close>

definition sendrw :: "kb_env \<Rightarrow> kb_sys \<Rightarrow> kb_sys" where
  "sendrw e s = keyreq e (setcode AK_RESETWARNING s)"

definition check_keyboard :: "kb_env \<Rightarrow> kb_sys \<Rightarrow> kb_sys option" where
  "check_keyboard e s =
     (if kb_connected (kprefs e) then
        let (avail, b) = keys_available (vpos e) (kbuf s); s = s\<lparr>kbuf := b\<rparr>
        in if (avail \<or> kbstate s < 3) \<and> kblostsynccnt s = 0 then do {
             s \<leftarrow> (if kbstate s = 0 then Some (s\<lparr>kbcode := 0, kbstate := 1\<rparr>)
                  else if kbstate s = 1 then Some ((setcode AK_INIT_POWERUP s)\<lparr>kbstate := 2\<rparr>)
                  else if kbstate s = 2 then Some ((setcode AK_TERM_POWERUP s)\<lparr>kbstate := 3\<rparr>)
                  else if kbstate s = 3 then do {
                    (k, b) \<leftarrow> get_next_key (kprefs e) (vpos e) (kbuf s);
                    Some (s\<lparr>kbuf := b, kbcode := NOT (word_of_int k)\<rparr>) }
                  else Some s);
             Some (keyreq e s) }
           else Some s
      else map_option (\<lambda>b. s\<lparr>kbuf := b\<rparr>) (drain_keys (kprefs e) (vpos e) (kbuf s)))"

definition keyboard_connected :: "kb_sys \<Rightarrow> kb_sys" where
  "keyboard_connected s = s\<lparr>kbstate := 0, kblostsynccnt := 0, resetwarning_phase := 0\<rparr>"

section \<open>Reset warnings\<close>

definition resetwarning_do :: "kb_env \<Rightarrow> bool \<Rightarrow> kb_sys \<Rightarrow> bool \<times> kb_sys" where
  "resetwarning_do e canreset s =
     (if \<not> kb_connected (kprefs e) then (False, s)
      else if resetwarning_phase s \<noteq> 0 \<or> cpu_halted e then
        (False, if canreset then s\<lparr>resetwarning_phase := 0, resetwarning_timer := 0\<rparr> else s)
      else (True, sendrw e (s\<lparr>resetwarning_phase := 1, resetwarning_timer := maxvpos_nom e * 5\<rparr>)))"

definition do_kb_reset :: "kb_sys \<Rightarrow> kb_sys" where
  "do_kb_reset s = s\<lparr>resetwarning_phase := -1, kblostsynccnt := 0, kb_resets := kb_resets s + 1\<rparr>"

definition resetwarning_check :: "kb_env \<Rightarrow> kb_sys \<Rightarrow> kb_sys" where
  "resetwarning_check e s =
     (let s = (if resetwarning_timer s > 0 then
                 let s = s\<lparr>resetwarning_timer := resetwarning_timer s - 1\<rparr>
                 in if resetwarning_timer s \<le> 0 then do_kb_reset s else s
               else s);
          spmode = (cr (ta (chip (kb_cia s) 0)) AND CR_SPMODE \<noteq> 0)
      in if resetwarning_phase s = 1 then
           if kblostsynccnt s = 0 then sendrw e (s\<lparr>resetwarning_phase := 2, resetwarning_timer := maxvpos_nom e * 5\<rparr>) else s
         else if resetwarning_phase s = 2 then
           if spmode then s\<lparr>resetwarning_phase := 3, resetwarning_timer := reset_limit e\<rparr> else s
         else if resetwarning_phase s = 3 then
           if \<not> spmode then do_kb_reset s else s
         else s)"

section \<open>What drives the keyboard\<close>

text \<open>The parts of \<^verbatim>\<open>CIA_hsync_posthandler\<close>, for the lines of the display, and of \<^verbatim>\<open>CIA_vsync_prehandler\<close>\<close>

definition kb_hsync :: "kb_env \<Rightarrow> kb_sys \<Rightarrow> kb_sys option" where
  "kb_hsync e s =
     (if kb_connected (kprefs e) then
        if resetwarning_phase s \<noteq> 0 then
          let s = resetwarning_check e s
          in map_option (\<lambda>b. s\<lparr>kbuf := b\<rparr>) (drain_keys (kprefs e) (vpos e) (kbuf s))
        else if hsync_counter e mod 16 = 0 then check_keyboard e s else Some s
      else map_option (\<lambda>b. s\<lparr>kbuf := b\<rparr>) (drain_keys (kprefs e) (vpos e) (kbuf s)))"

definition kb_vsync :: "kb_env \<Rightarrow> kb_sys \<Rightarrow> kb_sys" where
  "kb_vsync e s =
     (let s = s\<lparr>kbuf := keybuf_vsync (kprefs e) (kbuf s)\<rparr>
      in if kblostsynccnt s > 0 then
           let s = s\<lparr>kblostsynccnt := kblostsynccnt s - maxvpos e\<rparr>
           in if kblostsynccnt s \<le> 0 then keyreq e (s\<lparr>kblostsynccnt := 0, kbcode := 0\<rparr>) else s
         else s)"

text \<open>Control register A of the first chip, from \<^verbatim>\<open>WriteCIAA\<close>: the handshake\<close>

definition write_cra :: "kb_env \<Rightarrow> u8 \<Rightarrow> kb_sys \<Rightarrow> kb_sys option" where
  "write_cra e val s = do {
     c \<leftarrow> CIA_update (kcia e) (kb_cia s);
     let s = s\<lparr>kb_cia := c\<rparr>;
     s \<leftarrow> (if cpuboard e \<and> (val AND 0x40) \<noteq> (cr (ta (chip c 0)) AND 0x40) \<and> 0xf00000 \<le> m68k_pc e \<and> m68k_pc e < 0xf80000
           then check_keyboard e s else Some s);
     let old = cr (ta (chip (kb_cia s) 0));
     let s = (if val AND CR_INMODE1 \<noteq> 0 \<and> old AND CR_INMODE1 = 0 then
                if kblostsynccnt s > 0 \<and> cs_kbhandshake e then s\<lparr>kbhandshakestart := get_cycles (kcia e)\<rparr> else s
              else if val AND CR_INMODE1 = 0 \<and> old AND CR_INMODE1 \<noteq> 0 then s\<lparr>kblostsynccnt := 0\<rparr>
              else s);
     c \<leftarrow> CIA_calctimers (kcia e) (WriteCIAReg (kcia e) 0 14 val (kb_cia s));
     Some (s\<lparr>kb_cia := c\<rparr>) }"

text \<open>What can happen to the keyboard: a key of the host, a line, a frame, an access to the chips, the reset keys\<close>

datatype kb_action = Key int bool | Hsync | Vsync | Chip cia_action | Reset_keys

definition chip_act :: "kb_env \<Rightarrow> cia_action \<Rightarrow> kb_sys \<Rightarrow> kb_sys option" where
  "chip_act e a s =
     (case a of
        Reg_write num reg val \<Rightarrow>
          if num = 0 \<and> reg = 14 then write_cra e val s
          else map_option (\<lambda>c. s\<lparr>kb_cia := c\<rparr>) (cia_act (kcia e) a (kb_cia s))
      | _ \<Rightarrow> map_option (\<lambda>c. s\<lparr>kb_cia := c\<rparr>) (cia_act (kcia e) a (kb_cia s)))"

fun kb_act :: "kb_env \<Rightarrow> kb_action \<Rightarrow> kb_sys \<Rightarrow> kb_sys option" where
  "kb_act e (Key kc direct) s = Some (s\<lparr>kbuf := snd (record_key (kprefs e) kc direct (kbuf s))\<rparr>)"
| "kb_act e Hsync s = kb_hsync e s"
| "kb_act e Vsync s = Some (kb_vsync e s)"
| "kb_act e (Chip a) s = chip_act e a s"
| "kb_act e Reset_keys s = Some (snd (resetwarning_do e False s))"

section \<open>A ring without injected text\<close>

definition quiet :: "kb_prefs \<Rightarrow> keybuf \<Rightarrow> bool" where
  "quiet p b \<longleftrightarrow> ring_ok b \<and> plain p b \<and> keyinject b = None \<and> \<not> keyinject_state b \<and> delayed_released_time b = 0"

lemma quiet_avail:
  assumes "quiet p b"
  shows "\<exists>b'. keys_available v b = (pending b \<noteq> [], b') \<and> quiet p b' \<and> pending b' = pending b"
  using assms pending_empty [of b]
  by (auto simp: quiet_def keys_available_def can_inject_def Let_def ring_ok_def plain_def pending_def)

lemma quiet_get:
  assumes "quiet p b" "pending b = k # ks" "\<not> turbo_emulation p"
  shows "\<exists>b'. get_next_key p v b = Some (k, b') \<and> quiet p b' \<and> pending b' = ks"
proof -
  let ?c = "inject_step p b"
  have c: "ring_ok ?c" "pending ?c = k # ks" "plain p ?c" "keyinject ?c = None" "\<not> keyinject_state ?c" "delayed_released_time ?c = 0"
    using assms by (auto simp: inject_step_def quiet_def Let_def ring_ok_def plain_def pending_def)
  obtain b' where b': "take_key ?c = Some (k, b')" "ring_ok b'" "pending b' = ks" using take_key_ring(2) [OF c(1,2)] by blast
  then obtain x where x: "b' = ?c\<lparr>kpb_last := x\<rparr>" by (auto simp: take_key_def split: if_splits)
  have "b'\<lparr>delayed_released_time := 0\<rparr> = b'" using c by (simp add: x)
  then have "get_next_key p v b = Some (k, b')" using b'(1) assms(3) by (simp add: get_next_key_def Let_def)
  moreover have "quiet p b'" using b'(2) c by (simp add: quiet_def x plain_def)
  ultimately show ?thesis using b'(3) by blast
qed

lemma quiet_drain: "quiet p b \<Longrightarrow> \<not> turbo_emulation p \<Longrightarrow> \<exists>b'. drain_keys p v b = Some b' \<and> quiet p b' \<and> pending b' = []"
proof (induction "length (pending b)" arbitrary: b)
  case 0
  then show ?case using quiet_avail [of p b v] by (subst drain_keys.simps) auto
next
  case (Suc n)
  obtain b1 where 1: "keys_available v b = (pending b \<noteq> [], b1)" "quiet p b1" "pending b1 = pending b"
    using quiet_avail [OF Suc.prems(1), of v] by blast
  obtain k ks where k: "pending b1 = k # ks" using Suc.hyps(2) 1(3) by (metis length_Suc_conv)
  obtain b2 where 2: "get_next_key p v b1 = Some (k, b2)" "quiet p b2" "pending b2 = ks" using quiet_get [OF 1(2) k Suc.prems(2)] by blast
  have "n = length (pending b2)" using Suc.hyps(2) k 1(3) 2(3) by simp
  from Suc.hyps(1) [OF this 2(2) Suc.prems(2)] show ?case using 1 2 k by (subst drain_keys.simps) simp
qed

lemma quiet_record:
  assumes "quiet p b"
  shows "quiet p (snd (record_key p kc d b)) \<and>
    pending (snd (record_key p kc d b)) = pending b @ (if length (pending b) < 255 then [snd (swapped p d kc)] else [])"
proof -
  obtain r b' where st: "store_key (snd (swapped p d kc)) b = (r, b')" by force
  have b: "ring_ok b" "plain p b" using assms by (simp_all add: quiet_def)
  then have "record_key p kc d b = (r, b')"
    using st by (cases "swapped p d kc") (simp add: plain_def record_key_def record_key_direct_def Let_def)
  moreover obtain x y where "b' = b\<lparr>kpb := x, kpb_first := y\<rparr>" using store_key_frame [OF st] by blast
  ultimately show ?thesis using ring.put_ok [OF b(1) st] assms by (auto simp: quiet_def plain_def)
qed

section \<open>The stream of codes\<close>

definition keycode_byte :: "int \<Rightarrow> u8" where
  "keycode_byte k = NOT (word_of_int k)"

definition powerup :: "u8 list" where
  "powerup = [4, 2]"

lemma setcode_powerup: "kbcode (setcode AK_INIT_POWERUP s) = 4" "kbcode (setcode AK_TERM_POWERUP s) = 2"
  by (simp_all add: setcode_def AK_INIT_POWERUP_def AK_TERM_POWERUP_def)

definition to_send :: "kb_sys \<Rightarrow> u8 list" where
  "to_send s = drop (kbstate s - 1) powerup @ map keycode_byte (pending (kbuf s))"

definition codes_sent :: "kb_sys \<Rightarrow> u8 list" where
  "codes_sent s = filter (\<lambda>b. b \<noteq> 0) (kb_sent s)"

definition kb_ok :: "kb_prefs \<Rightarrow> kb_sys \<Rightarrow> bool" where
  "kb_ok p s \<longleftrightarrow> quiet p (kbuf s) \<and> kbstate s \<le> 3 \<and> 0 \<notin> keycode_byte ` set (pending (kbuf s))"

definition kb_inv :: "kb_prefs \<Rightarrow> kb_sys \<Rightarrow> bool" where
  "kb_inv p s \<longleftrightarrow> kb_ok p s \<and> cia_inv (kb_cia s)"

lemma keyreq_fields:
  "kb_sent (keyreq e s) = kb_sent s @ [kbcode s]" "kbuf (keyreq e s) = kbuf s" "kbstate (keyreq e s) = kbstate s"
  "timers (kb_cia (keyreq e s)) = timers (kb_cia s)" "kblostsynccnt (keyreq e s) = 64 * maxvpos e"
  "resetwarning_phase (keyreq e s) = resetwarning_phase s" "resetwarning_timer (keyreq e s) = resetwarning_timer s"
  "kb_resets (keyreq e s) = kb_resets s"
  by (simp_all add: keyreq_def Let_def)

lemma check_keyboard_step:
  assumes "kb_ok p s" "kprefs e = p" "kb_connected p" "\<not> turbo_emulation p"
  shows "\<exists>s'. check_keyboard e s = Some s' \<and> kb_ok p s' \<and> timers (kb_cia s') = timers (kb_cia s) \<and>
    resetwarning_phase s' = resetwarning_phase s \<and>
    codes_sent s' @ to_send s' = codes_sent s @ to_send s \<and>
    (if kblostsynccnt s \<noteq> 0 \<or> 3 \<le> kbstate s \<and> pending (kbuf s) = [] then kb_sent s' = kb_sent s
     else kb_sent s' = kb_sent s @ [if kbstate s = 0 then 0 else hd (to_send s)])"
proof -
  obtain b where b: "keys_available (vpos e) (kbuf s) = (pending (kbuf s) \<noteq> [], b)" "quiet p b" "pending b = pending (kbuf s)"
    using quiet_avail [of p "kbuf s"] assms(1) by (auto simp: kb_ok_def)
  note inv = assms(1) [unfolded kb_ok_def]
  consider (idle) "kblostsynccnt s \<noteq> 0 \<or> 3 \<le> kbstate s \<and> pending (kbuf s) = []"
    | (up) "kblostsynccnt s = 0" "kbstate s < 3"
    | (key) k ks where "kblostsynccnt s = 0" "kbstate s = 3" "pending (kbuf s) = k # ks"
    using inv by (metis le_neq_implies_less neq_Nil_conv not_le)
  then show ?thesis
  proof cases
    case idle
    then have "check_keyboard e s = Some (s\<lparr>kbuf := b\<rparr>)" using b assms(2,3) by (auto simp: check_keyboard_def)
    then show ?thesis using idle b inv by (auto simp: kb_ok_def to_send_def codes_sent_def)
  next
    case up
    then consider "kbstate s = 0" | "kbstate s = 1" | "kbstate s = 2" by linarith
    then show ?thesis
      by cases (use up b inv assms(2,3) in \<open>auto simp: check_keyboard_def kb_ok_def to_send_def codes_sent_def keyreq_fields
          setcode_powerup powerup_def setcode_def AK_INIT_POWERUP_def AK_TERM_POWERUP_def\<close>)
  next
    case key
    have "pending b = k # ks" using key b by simp
    then obtain b' where b': "get_next_key p (vpos e) b = Some (k, b')" "quiet p b'" "pending b' = ks"
      using quiet_get [OF b(2) _ assms(4)] by blast
    have "check_keyboard e s = Some (keyreq e (s\<lparr>kbuf := b', kbcode := NOT (word_of_int k)\<rparr>))"
      using key b b'(1) assms(2,3) by (simp add: check_keyboard_def)
    then show ?thesis using key b' inv
      by (auto simp: kb_ok_def to_send_def codes_sent_def keyreq_fields powerup_def keycode_byte_def)
  qed
qed

section \<open>Runs\<close>

text \<open>The program serves the timer event in time; the host has no key whose code is 0 on the line.\<close>

definition action_ok :: "kb_prefs \<Rightarrow> kb_env \<Rightarrow> kb_action \<Rightarrow> kb_sys \<Rightarrow> bool" where
  "action_ok p e a s \<longleftrightarrow> kprefs e = p \<and>
     (case a of Key kc d \<Rightarrow> keycode_byte (snd (swapped p d kc)) \<noteq> 0 | Chip _ \<Rightarrow> on_time (kcia e) (kb_cia s) | _ \<Rightarrow> True)"

definition accepted :: "kb_prefs \<Rightarrow> kb_action \<Rightarrow> kb_sys \<Rightarrow> u8 list" where
  "accepted p a s =
     (case a of Key kc d \<Rightarrow> if length (pending (kbuf s)) < 255 then [keycode_byte (snd (swapped p d kc))] else [] | _ \<Rightarrow> [])"

inductive kb_run :: "kb_prefs \<Rightarrow> kb_sys \<Rightarrow> (kb_env \<times> kb_action) list \<Rightarrow> u8 list \<Rightarrow> kb_sys \<Rightarrow> bool" for p s0 where
  kb_start: "kb_run p s0 [] [] s0"
| kb_step: "kb_run p s0 es ks s \<Longrightarrow> action_ok p e a s \<Longrightarrow> kb_act e a s = Some s' \<Longrightarrow> kb_run p s0 (es @ [(e, a)]) (ks @ accepted p a s) s'"

definition same_warning :: "kb_sys \<Rightarrow> kb_sys \<Rightarrow> bool" where
  "same_warning s s' \<longleftrightarrow> resetwarning_phase s' = resetwarning_phase s \<and> resetwarning_timer s' = resetwarning_timer s \<and> kb_resets s' = kb_resets s"

lemma check_keyboard_warning: "check_keyboard e s = Some s' \<Longrightarrow> same_warning s s'"
  by (auto simp: check_keyboard_def same_warning_def keyreq_fields setcode_def Let_def split: if_splits prod.splits bind_splits)

definition keeps_stream :: "kb_sys \<Rightarrow> kb_sys \<Rightarrow> bool" where
  "keeps_stream s s' \<longleftrightarrow> codes_sent s' @ to_send s' = codes_sent s @ to_send s \<and> (kblostsynccnt s \<noteq> 0 \<longrightarrow> codes_sent s' = codes_sent s)"

lemma write_cra_step:
  assumes "kb_inv p s" "kprefs e = p" "kb_connected p" "\<not> turbo_emulation p" "on_time (kcia e) (kb_cia s)"
  shows "\<exists>s'. write_cra e val s = Some s' \<and> kb_inv p s' \<and> same_warning s s' \<and> keeps_stream s s'"
proof -
  have inv: "kb_ok p s" "cia_inv (kb_cia s)" using assms(1) by (simp_all add: kb_inv_def)
  from CIA_update_total [OF inv(2) assms(5)] obtain c where c: "CIA_update (kcia e) (kb_cia s) = Some c" "sys_ok c" by blast
  define s1 where "s1 = s\<lparr>kb_cia := c\<rparr>"
  have s1: "kb_ok p s1" "same_warning s s1" "codes_sent s1 = codes_sent s" "to_send s1 = to_send s" "kblostsynccnt s1 = kblostsynccnt s" "kb_cia s1 = c"
    using inv(1) by (simp_all add: s1_def kb_ok_def same_warning_def codes_sent_def to_send_def)
  define look where "look = (if cpuboard e \<and> (val AND 0x40) \<noteq> (cr (ta (chip c 0)) AND 0x40) \<and> 0xf00000 \<le> m68k_pc e \<and> m68k_pc e < 0xf80000
    then check_keyboard e s1 else Some s1)"
  obtain s2 where s2: "look = Some s2" "kb_ok p s2" "timers (kb_cia s2) = timers c" "same_warning s s2" "keeps_stream s s2"
  proof -
    obtain t where t: "check_keyboard e s1 = Some t" "kb_ok p t" "timers (kb_cia t) = timers c"
      "codes_sent t @ to_send t = codes_sent s1 @ to_send s1" "kblostsynccnt s1 \<noteq> 0 \<longrightarrow> kb_sent t = kb_sent s1"
      using check_keyboard_step [OF s1(1) assms(2-4)] s1(6) by (auto split: if_splits)
    have "check_keyboard e s1 = Some t \<and> same_warning s t \<and> keeps_stream s t" using t s1 check_keyboard_warning [OF t(1)]
      by (simp add: same_warning_def keeps_stream_def codes_sent_def)
    moreover have "keeps_stream s s1" using s1 by (simp add: keeps_stream_def)
    ultimately show ?thesis using that [of t] that [of s1] t(2,3) s1(1,2,6) unfolding look_def by presburger
  qed
  define s3 where "s3 = (let old = cr (ta (chip (kb_cia s2) 0)) in
    if val AND CR_INMODE1 \<noteq> 0 \<and> old AND CR_INMODE1 = 0 then
      if kblostsynccnt s2 > 0 \<and> cs_kbhandshake e then s2\<lparr>kbhandshakestart := get_cycles (kcia e)\<rparr> else s2
    else if val AND CR_INMODE1 = 0 \<and> old AND CR_INMODE1 \<noteq> 0 then s2\<lparr>kblostsynccnt := 0\<rparr> else s2)"
  have s3: "kb_cia s3 = kb_cia s2" "kb_ok p s3" "same_warning s s3" "keeps_stream s s3"
    using s2 by (simp_all add: s3_def Let_def kb_ok_def same_warning_def keeps_stream_def codes_sent_def to_send_def)
  have "sys_ok (kb_cia s3)" using c(2) s2(3) sys_ok_timers s3(1) by metis
  from CIA_calctimers_inv [OF WriteCIAReg_ok [OF this, of "kcia e" 0 14 val], of "kcia e"]
  obtain d where d: "CIA_calctimers (kcia e) (WriteCIAReg (kcia e) 0 14 val (kb_cia s3)) = Some d" "cia_inv d" by blast
  have "write_cra e val s = Some (s3\<lparr>kb_cia := d\<rparr>)"
    unfolding write_cra_def c(1) bind.bind_lunit Let_def s1_def [symmetric]
    unfolding look_def [symmetric] s2(1) bind.bind_lunit
    unfolding s3_def [unfolded Let_def, symmetric] d(1) bind.bind_lunit ..
  moreover have "kb_inv p (s3\<lparr>kb_cia := d\<rparr>)" "same_warning s (s3\<lparr>kb_cia := d\<rparr>)" "keeps_stream s (s3\<lparr>kb_cia := d\<rparr>)"
    using s3 d(2) by (simp_all add: kb_inv_def kb_ok_def same_warning_def keeps_stream_def codes_sent_def to_send_def)
  ultimately show ?thesis by blast
qed

text \<open>Each kind of action\<close>

lemma key_step:
  assumes "kb_inv p s" "action_ok p e (Key kc d) s" "kb_act e (Key kc d) s = Some s'"
  shows "kb_inv p s' \<and> same_warning s s' \<and> kblostsynccnt s' = kblostsynccnt s \<and> codes_sent s' = codes_sent s \<and>
    to_send s' = to_send s @ accepted p (Key kc d) s"
  using assms quiet_record [of p "kbuf s" kc d]
  by (auto simp: kb_inv_def kb_ok_def action_ok_def same_warning_def codes_sent_def to_send_def accepted_def)

lemma vsync_step:
  assumes "kb_inv p s"
  shows "kb_inv p (kb_vsync e s) \<and> same_warning s (kb_vsync e s) \<and> codes_sent (kb_vsync e s) = codes_sent s \<and> to_send (kb_vsync e s) = to_send s"
proof -
  have "keybuf_vsync (kprefs e) (kbuf s) = kbuf s" using assms by (simp add: keybuf_vsync_def kb_inv_def kb_ok_def quiet_def)
  then show ?thesis using assms cia_inv_timers [OF keyreq_fields(4)]
    by (auto simp: kb_vsync_def Let_def kb_inv_def kb_ok_def same_warning_def codes_sent_def to_send_def keyreq_fields)
qed

lemma chip_step:
  assumes "kb_inv p s" "action_ok p e (Chip a) s" "kb_connected p" "\<not> turbo_emulation p"
  shows "\<exists>s'. chip_act e a s = Some s' \<and> kb_inv p s' \<and> same_warning s s' \<and> keeps_stream s s'"
proof -
  have e: "kprefs e = p" "on_time (kcia e) (kb_cia s)" using assms(2) by (simp_all add: action_ok_def)
  obtain c where c: "cia_act (kcia e) a (kb_cia s) = Some c" "cia_inv c"
    using cia_act_inv [OF _ e(2), of a] assms(1) by (auto simp: kb_inv_def)
  have "kb_inv p (s\<lparr>kb_cia := c\<rparr>) \<and> same_warning s (s\<lparr>kb_cia := c\<rparr>) \<and> keeps_stream s (s\<lparr>kb_cia := c\<rparr>)"
    using assms(1) c(2) by (simp add: kb_inv_def kb_ok_def same_warning_def keeps_stream_def codes_sent_def to_send_def)
  then show ?thesis using c(1) write_cra_step [OF assms(1) e(1) assms(3,4) e(2)]
    by (cases a) (auto simp: chip_act_def)
qed

lemma do_kb_reset_inv: "kb_inv p (do_kb_reset s) = kb_inv p s" "kbuf (do_kb_reset s) = kbuf s"
  by (simp_all add: do_kb_reset_def kb_inv_def kb_ok_def)

lemma sendrw_inv: "kb_inv p (sendrw e s) = kb_inv p s" "kbuf (sendrw e s) = kbuf s"
  using cia_inv_timers [OF keyreq_fields(4), of e "setcode AK_RESETWARNING s"]
  by (simp_all add: sendrw_def kb_inv_def kb_ok_def keyreq_fields setcode_def)

lemma resetwarning_check_inv: "kb_inv p s \<Longrightarrow> kb_inv p (resetwarning_check e s)"
proof -
  have t: "kb_inv p (s\<lparr>resetwarning_timer := x\<rparr>) = kb_inv p s" "kb_inv p (s\<lparr>resetwarning_phase := y\<rparr>) = kb_inv p s"
    for s x y by (simp_all add: kb_inv_def kb_ok_def)
  show "kb_inv p s \<Longrightarrow> kb_inv p (resetwarning_check e s)" by (simp add: resetwarning_check_def Let_def sendrw_inv do_kb_reset_inv t)
qed

lemma hsync_step:
  assumes "kb_inv p s" "kprefs e = p" "kb_connected p" "\<not> turbo_emulation p"
  shows "\<exists>s'. kb_hsync e s = Some s' \<and> kb_inv p s' \<and>
    (if resetwarning_phase s = 0 then same_warning s s' \<and> keeps_stream s s' \<and>
       (hsync_counter e mod 16 = 0 \<longrightarrow> kblostsynccnt s = 0 \<longrightarrow> 0 < kbstate s \<longrightarrow> codes_sent s' = codes_sent s @ take 1 (to_send s))
     else same_warning (resetwarning_check e s) s')"
proof (cases "resetwarning_phase s = 0")
  case True
  have inv: "kb_ok p s" "cia_inv (kb_cia s)" using assms(1) by (simp_all add: kb_inv_def)
  from check_keyboard_step [OF inv(1) assms(2-4)]
  obtain t where t: "check_keyboard e s = Some t" "kb_ok p t" "timers (kb_cia t) = timers (kb_cia s)"
    "codes_sent t @ to_send t = codes_sent s @ to_send s"
    "if kblostsynccnt s \<noteq> 0 \<or> 3 \<le> kbstate s \<and> pending (kbuf s) = [] then kb_sent t = kb_sent s
     else kb_sent t = kb_sent s @ [if kbstate s = 0 then 0 else hd (to_send s)]" by blast
  have "codes_sent t = codes_sent s @ take 1 (to_send s)" if l: "kblostsynccnt s = 0" "0 < kbstate s"
  proof (cases "to_send s")
    case Nil
    then have "3 \<le> kbstate s" "pending (kbuf s) = []" by (auto simp: to_send_def powerup_def)
    then show ?thesis using Nil t(5) by (simp add: codes_sent_def)
  next
    case (Cons c cs)
    have "set (to_send s) \<subseteq> set powerup \<union> keycode_byte ` set (pending (kbuf s))"
      by (auto simp: to_send_def dest: in_set_dropD)
    then have "c \<noteq> 0" using inv(1) Cons by (auto simp: kb_ok_def powerup_def)
    moreover have "kbstate s < 3 \<or> pending (kbuf s) \<noteq> []" using Cons by (auto simp: to_send_def powerup_def)
    ultimately show ?thesis using Cons t(5) l by (auto simp: codes_sent_def)
  qed
  then show ?thesis using True assms(1-3) t inv cia_inv_timers [OF t(3)] check_keyboard_warning [OF t(1)]
    by (auto simp: kb_hsync_def kb_inv_def keeps_stream_def same_warning_def codes_sent_def)
next
  case False
  have "kb_inv p (resetwarning_check e s)" using assms(1) by (rule resetwarning_check_inv)
  then have r: "quiet p (kbuf (resetwarning_check e s))" "kb_inv p (resetwarning_check e s)" by (simp_all add: kb_inv_def kb_ok_def)
  from quiet_drain [OF r(1) assms(4)] obtain b where "drain_keys p (vpos e) (kbuf (resetwarning_check e s)) = Some b" "quiet p b" "pending b = []" by blast
  then show ?thesis using False assms(2,3) r(2)
    by (auto simp: kb_hsync_def Let_def same_warning_def kb_inv_def kb_ok_def)
qed

lemma reset_keys_step:
  assumes "kb_inv p s"
  shows "kb_inv p (snd (resetwarning_do e False s)) \<and> kb_resets (snd (resetwarning_do e False s)) = kb_resets s \<and> (resetwarning_phase s \<noteq> 0 \<longrightarrow> same_warning s (snd (resetwarning_do e False s)))"
proof -
  have "kb_inv p (s\<lparr>resetwarning_phase := y, resetwarning_timer := x\<rparr>) = kb_inv p s" for x y by (simp add: kb_inv_def kb_ok_def)
  moreover have "kb_resets (sendrw e t) = kb_resets t" for t by (simp add: sendrw_def keyreq_fields setcode_def)
  ultimately show ?thesis using assms by (simp add: resetwarning_do_def sendrw_inv same_warning_def)
qed

lemma resetwarning_check_mono: "kb_resets s \<le> kb_resets (resetwarning_check e s)"
  by (auto simp: resetwarning_check_def do_kb_reset_def sendrw_def keyreq_fields setcode_def Let_def)

lemma kb_act_step:
  assumes "kb_inv p s" "action_ok p e a s" "kb_connected p" "\<not> turbo_emulation p"
  shows "\<exists>s'. kb_act e a s = Some s' \<and> kb_inv p s' \<and> kb_resets s \<le> kb_resets s' \<and> (a \<noteq> Hsync \<longrightarrow> a \<noteq> Reset_keys \<longrightarrow> same_warning s s') \<and>
    (a = Reset_keys \<longrightarrow> resetwarning_phase s \<noteq> 0 \<longrightarrow> same_warning s s') \<and>
    (a \<noteq> Reset_keys \<longrightarrow> resetwarning_phase s = 0 \<longrightarrow> resetwarning_phase s' = 0 \<and>
       codes_sent s' @ to_send s' = codes_sent s @ to_send s @ accepted p a s \<and>
       (kblostsynccnt s \<noteq> 0 \<longrightarrow> codes_sent s' = codes_sent s) \<and>
       (a = Hsync \<longrightarrow> hsync_counter e mod 16 = 0 \<longrightarrow> kblostsynccnt s = 0 \<longrightarrow> 0 < kbstate s \<longrightarrow> codes_sent s' = codes_sent s @ take 1 (to_send s)))"
proof -
  have e: "kprefs e = p" using assms(2) by (simp add: action_ok_def)
  show ?thesis
  proof (cases a)
    case (Key kc d)
    then show ?thesis using key_step [of p s e kc d] assms(1,2) by (auto simp: same_warning_def)
  next
    case Hsync
    then show ?thesis using hsync_step [OF assms(1) e assms(3,4)] resetwarning_check_mono [of s e] by (auto simp: same_warning_def keeps_stream_def accepted_def split: if_splits)
  next
    case Vsync
    then show ?thesis using vsync_step [OF assms(1), of e] by (auto simp: same_warning_def accepted_def)
  next
    case (Chip c)
    then show ?thesis using chip_step [OF assms(1) _ assms(3,4), of e c] assms(2) by (auto simp: same_warning_def keeps_stream_def accepted_def)
  next
    case Reset_keys
    then show ?thesis using reset_keys_step [OF assms(1), of e] by auto
  qed
qed

text \<open>C21: The keyboard loses no key, repeats none and keeps their order. Take a machine with its keyboard connected, not in
  warp mode (in which the ring repeats releases), with no pause, no text being injected, no release to be ignored and an empty ring (\<open>quiet\<close>).
  From power-up, through any keys of the host, lines, frames and accesses to the chips, as long as the reset keys are
  not pressed, what it has put into the serial register is the power-up codes and then the
  codes of the keys the ring accepted; what is missing of them is still to come, in the same order. While
  a code waits for its handshake no other follows (only the zero of lost synchronisation), and
  in a line in which the keyboard is looked at after the handshake, exactly the next one is sent.\<close>

theorem keyboard_codes_in_order:
  assumes "kb_connected p" "\<not> turbo_emulation p"
    and "quiet p (kbuf s0)" "pending (kbuf s0) = []" "kbstate s0 = 0" "resetwarning_phase s0 = 0" "kb_sent s0 = []" "cia_inv (kb_cia s0)"
    and "kb_run p s0 es ks s" "Reset_keys \<notin> snd ` set es" "action_ok p e a s" "a \<noteq> Reset_keys"
  shows "codes_sent s @ to_send s = powerup @ ks \<and>
    (\<exists>s'. kb_act e a s = Some s' \<and> (kblostsynccnt s \<noteq> 0 \<longrightarrow> codes_sent s' = codes_sent s) \<and>
      (a = Hsync \<and> hsync_counter e mod 16 = 0 \<and> kblostsynccnt s = 0 \<and> 0 < kbstate s \<longrightarrow> codes_sent s' = codes_sent s @ take 1 (to_send s)))"
proof -
  have "kb_inv p s \<and> resetwarning_phase s = 0 \<and> codes_sent s @ to_send s = powerup @ ks"
    using assms(9,10)
  proof (induction rule: kb_run.induct)
    case kb_start
    then show ?case using assms(3-8) by (simp add: kb_inv_def kb_ok_def codes_sent_def to_send_def)
  next
    case (kb_step es ks s e a s')
    then have i: "kb_inv p s" "resetwarning_phase s = 0" "codes_sent s @ to_send s = powerup @ ks" by auto
    have "a \<noteq> Reset_keys" using kb_step.prems by auto
    then show ?case using kb_act_step [OF i(1) kb_step.hyps(2) assms(1,2)] kb_step.hyps(3) i by auto
  qed
  then show ?thesis using kb_act_step [OF _ assms(11,1,2)] assms(12) by fastforce
qed

section \<open>The reset warning\<close>

definition warning_left :: "int \<Rightarrow> int \<Rightarrow> kb_sys \<Rightarrow> int" where
  "warning_left n l s = resetwarning_timer s + (if resetwarning_phase s = 1 then 5 * n + l else if resetwarning_phase s = 2 then l else 0)"

definition warning :: "kb_sys \<Rightarrow> bool" where
  "warning s \<longleftrightarrow> resetwarning_phase s \<in> {1, 2, 3} \<and> 0 < resetwarning_timer s"

lemma resetwarning_check_step:
  assumes "warning s" "maxvpos_nom e = n" "reset_limit e = l" "0 < n" "0 < l"
  shows "kb_resets s < kb_resets (resetwarning_check e s) \<or>
    warning (resetwarning_check e s) \<and> kb_resets (resetwarning_check e s) = kb_resets s \<and> warning_left n l (resetwarning_check e s) \<le> warning_left n l s - 1"
  using assms by (auto simp: resetwarning_check_def warning_def warning_left_def do_kb_reset_def sendrw_def keyreq_fields setcode_def Let_def)

lemma warning_step:
  assumes "kb_inv p s" "action_ok p e a s" "kb_connected p" "\<not> turbo_emulation p" "warning s"
    and "maxvpos_nom e = n" "reset_limit e = l" "0 < n" "0 < l" "kb_act e a s = Some s'"
  shows "kb_inv p s' \<and> (kb_resets s < kb_resets s' \<or>
    warning s' \<and> kb_resets s' = kb_resets s \<and> warning_left n l s' \<le> warning_left n l s - of_bool (a = Hsync))"
proof -
  obtain t where t: "kb_act e a s = Some t" "kb_inv p t" "a \<noteq> Hsync \<longrightarrow> same_warning s t"
    using kb_act_step [OF assms(1-4)] assms(5) by (auto simp: warning_def)
  have s': "s' = t" using t(1) assms(10) by simp
  have e: "kprefs e = p" using assms(2) by (simp add: action_ok_def)
  have "same_warning (resetwarning_check e s) s'" if "a = Hsync"
    using hsync_step [OF assms(1) e assms(3,4)] assms(5,10) that by (auto simp: warning_def)
  then show ?thesis using resetwarning_check_step [OF assms(5-9)] t(2,3) assms(5) unfolding s'
    by (cases "a = Hsync") (auto simp: same_warning_def warning_def warning_left_def)
qed

text \<open>C22: A reset warning ends in a reset: after Ctrl-Amiga-Amiga, whatever the program does with the handshake
  line, whatever keys follow and in whatever order, the reset is requested within ten frames' lines and the time
  limit of the second handshake.\<close>

theorem reset_warning_resets:
  assumes "kb_connected p" "\<not> turbo_emulation p" "kb_inv p s0" "kprefs e0 = p" "resetwarning_do e0 False s0 = (True, s1)"
    and "kb_run p s1 es ks s" "\<forall>(e, a)\<in>set ((e0, Reset_keys) # es). maxvpos_nom e = n \<and> reset_limit e = l" "0 < n" "0 < l"
    and "10 * n + l \<le> int (length (filter (\<lambda>(e, a). a = Hsync) es))"
  shows "kb_resets s0 < kb_resets s"
proof -
  have s1: "kb_inv p s1" "warning s1" "kb_resets s1 = kb_resets s0" "warning_left n l s1 = 10 * n + l"
    using reset_keys_step [OF assms(3), of e0] assms(5,7,8)
    by (auto simp: resetwarning_do_def warning_def warning_left_def sendrw_def keyreq_fields setcode_def split: if_splits)
  have "kb_inv p s \<and> (kb_resets s1 < kb_resets s \<or> warning s \<and> kb_resets s = kb_resets s1 \<and>
      warning_left n l s \<le> warning_left n l s1 - int (length (filter (\<lambda>(e, a). a = Hsync) es)))"
    using assms(6,7)
  proof (induction rule: kb_run.induct)
    case kb_start
    then show ?case using s1 by simp
  next
    case (kb_step es ks s e a s')
    then have IH: "kb_inv p s" "kb_resets s1 < kb_resets s \<or> warning s \<and> kb_resets s = kb_resets s1 \<and>
        warning_left n l s \<le> warning_left n l s1 - int (length (filter (\<lambda>(e, a). a = Hsync) es))"
      and nl: "maxvpos_nom e = n" "reset_limit e = l" by auto
    have "kb_inv p s'" "kb_resets s \<le> kb_resets s'"
      using kb_act_step [OF IH(1) kb_step.hyps(2) assms(1,2)] kb_step.hyps(3) by auto
    then show ?case using IH warning_step [OF IH(1) kb_step.hyps(2) assms(1,2) _ nl assms(8,9) kb_step.hyps(3)] by fastforce
  qed
  moreover have "\<not> warning_left n l s \<le> 0" if "warning s" using that assms(8,9) by (auto simp: warning_def warning_left_def)
  ultimately show ?thesis using s1(3,4) assms(10) by linarith
qed

section \<open>An example\<close>

definition env_kb :: kb_env where
  "env_kb = \<lparr>kprefs = plain_prefs, kcia = env0, vpos = 1, hsync_counter = 16, maxvpos = 312, maxvpos_nom = 1, reset_limit = 1,
     cpu_halted = False, cpuboard = False, cs_kbhandshake = True, m68k_pc = 0\<rparr>"

definition sys_kb :: kb_sys where
  "sys_kb = \<lparr>kbuf = idle_keybuf, kbstate = 0, kbcode = 0, kblostsynccnt = 0, kbhandshakestart = 0, resetwarning_phase = 0,
     resetwarning_timer = 0, kb_resets = 0, kb_sent = [], kb_cia = the (CIA_reset env0 sys0)\<rparr>"

lemma sys_kb_ok: "kb_inv plain_prefs sys_kb" "quiet plain_prefs (kbuf sys_kb)" "pending (kbuf sys_kb) = []" "cia_inv (kb_cia sys_kb)"
proof -
  show c: "cia_inv (kb_cia sys_kb)" using CIA_reset_inv [of env0 sys0] by (auto simp: sys_kb_def)
  show q: "quiet plain_prefs (kbuf sys_kb)" and p: "pending (kbuf sys_kb) = []"
    using idle_keybuf_ok by (simp_all add: sys_kb_def quiet_def poll_inv_def) (simp_all add: idle_keybuf_def)
  show "kb_inv plain_prefs sys_kb" using c q p by (simp add: kb_inv_def kb_ok_def) (simp add: sys_kb_def)
qed

lemma plain_prefs_on: "kb_connected plain_prefs" "\<not> turbo_emulation plain_prefs" "kprefs env_kb = plain_prefs"
  by (simp_all add: plain_prefs_def env_kb_def)

theorem keyboard_codes_in_order_witness:
  "\<exists>ks s. kb_run plain_prefs sys_kb [(env_kb, Key 0x8a False)] ks s \<and> codes_sent s @ to_send s = powerup @ ks \<and> ks = [0x75]"
proof -
  have ok: "action_ok plain_prefs env_kb (Key 0x8a False) sys_kb" "action_ok plain_prefs env_kb Hsync s" for s
    using plain_prefs_on(3) by (simp_all add: action_ok_def) (code_simp)
  have "kb_run plain_prefs sys_kb ([] @ [(env_kb, Key 0x8a False)]) ([] @ accepted plain_prefs (Key 0x8a False) sys_kb)
      (the (kb_act env_kb (Key 0x8a False) sys_kb))"
    by (rule kb_run.kb_step [OF kb_run.kb_start ok(1)]) simp
  moreover have "accepted plain_prefs (Key 0x8a False) sys_kb = [0x75]"
    using sys_kb_ok(3) by (simp add: accepted_def) code_simp
  ultimately have r: "kb_run plain_prefs sys_kb [(env_kb, Key 0x8a False)] [0x75] (the (kb_act env_kb (Key 0x8a False) sys_kb))"
    by simp
  have i: "kbstate sys_kb = 0" "resetwarning_phase sys_kb = 0" "kb_sent sys_kb = []" by (simp_all add: sys_kb_def)
  from keyboard_codes_in_order [OF plain_prefs_on(1,2) sys_kb_ok(2,3) i sys_kb_ok(4) r _ ok(2)] r show ?thesis by auto
qed

theorem reset_warning_resets_witness: "\<exists>es ks s. kb_run plain_prefs (snd (resetwarning_do env_kb False sys_kb)) es ks s \<and> 0 < kb_resets s"
proof -
  define s1 where "s1 = snd (resetwarning_do env_kb False sys_kb)"
  have d: "resetwarning_do env_kb False sys_kb = (True, s1)"
    by (simp add: s1_def resetwarning_do_def env_kb_def sys_kb_def plain_prefs_def)
  have inv1: "kb_inv plain_prefs s1" using reset_keys_step [OF sys_kb_ok(1), of env_kb] by (simp add: s1_def)
  have "\<exists>s. kb_run plain_prefs s1 (replicate n (env_kb, Hsync)) [] s \<and> kb_inv plain_prefs s" for n
  proof (induction n)
    case 0
    then show ?case using inv1 kb_run.kb_start by auto
  next
    case (Suc n)
    then obtain s where s: "kb_run plain_prefs s1 (replicate n (env_kb, Hsync)) [] s" "kb_inv plain_prefs s" by blast
    have ok: "action_ok plain_prefs env_kb Hsync s" using plain_prefs_on(3) by (simp add: action_ok_def)
    obtain s' where "kb_act env_kb Hsync s = Some s'" "kb_inv plain_prefs s'" using kb_act_step [OF s(2) ok plain_prefs_on(1,2)] by blast
    moreover have "accepted plain_prefs Hsync s = []" by (simp add: accepted_def)
    ultimately show ?case using kb_run.kb_step [OF s(1) ok] by (auto simp: replicate_append_same)
  qed
  then obtain s where s: "kb_run plain_prefs s1 (replicate 11 (env_kb, Hsync)) [] s" by blast
  have "\<forall>(e, a)\<in>set ((env_kb, Reset_keys) # replicate 11 (env_kb, Hsync)). maxvpos_nom e = 1 \<and> reset_limit e = 1"
    by (auto simp: env_kb_def)
  from reset_warning_resets [OF plain_prefs_on(1,2) sys_kb_ok(1) plain_prefs_on(3) d s this] have "0 < kb_resets s" by simp
  then show ?thesis using s unfolding s1_def by blast
qed

end
