(* ===== verification/Mmu040.thy ===== *)
theory Mmu040
  imports Memory
begin

unbundle bit_operations_syntax

text \<open>
  The memory management unit of the 68040 and 68060 (\<^verbatim>\<open>sources/src/cpummu.c\<close> and
  \<^verbatim>\<open>include/cpummu.h\<close>): transparent translation registers, the table walk with its history bits,
  the address translation cache of four ways, the faster caches of pages in front of it, the flush and
  test instructions, and the fault registers.

  A hardware exception is \<^verbatim>\<open>THROW\<close> in the source; here it is the left side of a sum, with the
  state at that point. Physical memory is reached through function pointers in the source; here they are the
  fields of \<open>bus040\<close>, whose \<open>None\<close> is a bus error. The arrays of the source are functions; their
  indices are masked or reduced modulo their size wherever they are used. The debug output and the
  restart of instructions after a fault are left out, and so is what a failed physical access does to the
  fault registers before the walk reports it; \<^verbatim>\<open>way_random\<close> is a natural number, which the
  source reduces at every table walk.
\<close>

section \<open>State\<close>

record mmu_prefs =
  mmu_060 :: bool
  mmu_ec :: bool
  cpu_040 :: bool

record 'm bus040 =
  phys_get :: "'m \<Rightarrow> u32 \<Rightarrow> (u32 \<times> 'm) option"
  phys_put :: "'m \<Rightarrow> u32 \<Rightarrow> u32 \<Rightarrow> 'm option"
  ce_cachable :: "u32 \<Rightarrow> u8"

record mmu_atc_line =
  l_tag :: u32
  l_valid :: bool
  l_status :: u32
  l_phys :: u32

record mmufastcache =
  fc_log :: u32
  fc_phys :: u32
  fc_state :: u8

record 'm mmu =
  urp :: u32
  srp :: u32
  itt0 :: u32
  itt1 :: u32
  dtt0 :: u32
  dtt1 :: u32
  tcr :: u32
  mmusr :: u32
  sfc :: u32
  dfc :: u32
  regs_s :: bool
  areg :: "nat \<Rightarrow> u32"
  instruction_pc :: u32
  mmu_enabled :: bool
  mmu_pagesize_8k :: bool
  mmu_ttr_enabled :: bool
  mmu_ttr_enabled_ins :: bool
  mmu_ttr_enabled_data :: bool
  mmu_cache_state :: u8
  cache_default_ins :: u8
  cache_default_data :: u8
  mmu_atc_array :: "bool \<Rightarrow> nat \<Rightarrow> nat \<Rightarrow> mmu_atc_line"
  mmu_atc_ways :: "bool \<Rightarrow> nat"
  way_random :: nat
  atc_last_ins_laddr :: u32
  atc_last_ins_paddr :: u32
  atc_last_ins_cache :: u8
  atc_data_cache_read :: "nat \<Rightarrow> mmufastcache"
  atc_data_cache_write :: "nat \<Rightarrow> mmufastcache"
  ismoves :: bool
  rmw_cycle :: bool
  locked_rmw_cycle :: bool
  mmu060_state :: nat
  mmu040_movem :: bool
  mmu040_movem_ea :: u32
  mmu_ssw :: u16
  mmu_fslw :: u32
  mmu_fault_addr :: u32
  mmu_effective_addr :: u32
  wb2_status :: u16
  wb2_address :: u32
  wb3_status :: u16
  wb3_data :: u32
  mem :: 'm

text \<open>The masks follow the page size, as \<^verbatim>\<open>mmu_set_tc\<close> sets them.\<close>

definition mmu_tagmask :: "'m mmu \<Rightarrow> u32" where
  "mmu_tagmask s = (if mmu_pagesize_8k s then 0xffff0000 else 0xffff8000)"

definition mmu_pagemask :: "'m mmu \<Rightarrow> u32" where
  "mmu_pagemask s = (if mmu_pagesize_8k s then 0x1fff else 0xfff)"

definition mmu_pagemaski :: "'m mmu \<Rightarrow> u32" where
  "mmu_pagemaski s = NOT (mmu_pagemask s)"

definition mmu_pageshift1m :: "'m mmu \<Rightarrow> nat" where
  "mmu_pageshift1m s = (if mmu_pagesize_8k s then 13 else 12) - 1"

abbreviation (input) "MMU_DES_WP \<equiv> 4 :: u32"
abbreviation (input) "MMU_DES_USED \<equiv> 8 :: u32"
abbreviation (input) "MMU_DES_MODIFIED \<equiv> 0x10 :: u32"
abbreviation (input) "MMU_DES_SUPER \<equiv> 0x80 :: u32"
abbreviation (input) "MMU_MMUSR_B \<equiv> 0x800 :: u32"
abbreviation (input) "MMU_MMUSR_G \<equiv> 0x400 :: u32"
abbreviation (input) "MMU_MMUSR_S \<equiv> 0x80 :: u32"
abbreviation (input) "MMU_MMUSR_CM_DISABLE \<equiv> 0x40 :: u32"
abbreviation (input) "MMU_MMUSR_CM_MODE \<equiv> 0x20 :: u32"
abbreviation (input) "MMU_MMUSR_M \<equiv> 0x10 :: u32"
abbreviation (input) "MMU_MMUSR_W \<equiv> 4 :: u32"
abbreviation (input) "MMU_MMUSR_T \<equiv> 2 :: u32"
abbreviation (input) "MMU_MMUSR_R \<equiv> 1 :: u32"
abbreviation (input) "MMU_MMUSR_ENTRY \<equiv> 0x7f5 :: u32"
abbreviation (input) "MMU_TCR_DWO \<equiv> 0x20 :: u32"
abbreviation (input) "MMU_FSLW_MA \<equiv> 0x08000000 :: u32"
abbreviation (input) "MMU_FSLW_LK \<equiv> 0x02000000 :: u32"
abbreviation (input) "MMU_FSLW_R \<equiv> 0x01000000 :: u32"
abbreviation (input) "MMU_FSLW_W \<equiv> 0x00800000 :: u32"
abbreviation (input) "MMU_FSLW_IO \<equiv> 0x8000 :: u32"
abbreviation (input) "MMU_FSLW_PTA \<equiv> 0x1000 :: u32"
abbreviation (input) "MMU_FSLW_PTB \<equiv> 0x0800 :: u32"
abbreviation (input) "MMU_FSLW_IL \<equiv> 0x0400 :: u32"
abbreviation (input) "MMU_FSLW_PF \<equiv> 0x0200 :: u32"
abbreviation (input) "MMU_FSLW_SP \<equiv> 0x0100 :: u32"
abbreviation (input) "MMU_FSLW_WP \<equiv> 0x0080 :: u32"
abbreviation (input) "MMU_FSLW_TWE \<equiv> 0x0040 :: u32"
abbreviation (input) "MMU_FSLW_TTR \<equiv> 0x0008 :: u32"
abbreviation (input) "CACHE_ENABLE_ALL \<equiv> 0xc3 :: u8"
abbreviation (input) "CACHE_ENABLE_COPYBACK \<equiv> 0x20 :: u8"
abbreviation (input) "CACHE_DISABLE_ALLOCATE \<equiv> 8 :: u8"
abbreviation (input) "CACHE_DISABLE_MMU \<equiv> 0x10 :: u8"

section \<open>Faults\<close>

definition mmu_get_fc :: "bool \<Rightarrow> bool \<Rightarrow> u32" where
  "mmu_get_fc super data = (if super then 4 else 0) OR (if data then 1 else 2)"

text \<open>Sizes are 0, 1 and 2 for byte, word and long and 16 for MOVE16.\<close>

definition bus_error_040 :: "u32 \<Rightarrow> u32 \<Rightarrow> bool \<Rightarrow> nat \<Rightarrow> bool \<Rightarrow> 'm mmu \<Rightarrow> 'm mmu" where
  "bus_error_040 val fc write sz nonmmu s =
     (let (ssw, fc) =
            (if ismoves s then
               let fc = (if write then dfc s else sfc s)
               in if fc AND 3 = 0 \<or> fc AND 3 = 3 then (0x10 :: u16, fc)
                  else if fc AND 2 \<noteq> 0 then (0, (fc AND 4) OR 1) else (0, fc)
             else (0, fc));
          ssw = ssw OR (ucast fc AND 7);
          ssw = ssw OR (if sz = 0 then 0x20 else if sz = 1 then 0x40 else 0);
          s = s\<lparr>wb3_status := (if write then 0x80 OR (ssw AND 0x7f) else 0), wb3_data := val, wb2_status := 0\<rparr>;
          ssw = (if \<not> write then ssw OR 0x100 else ssw);
          (ssw, s) =
            (if sz = 16 then
               let ssw = ssw OR 0x60 OR 8; s = s\<lparr>mmu_effective_addr := mmu_effective_addr s AND NOT 15\<rparr>
               in (ssw, if write then
                          s\<lparr>wb3_status := wb3_status s AND NOT 0x80, wb2_status := 0x80 OR 0x60 OR (ssw AND 0x1f),
                            wb2_address := mmu_effective_addr s\<rparr>
                        else s)
             else (ssw, s));
          (ssw, s) = (if mmu040_movem s then (ssw OR 0x1000, s\<lparr>mmu_effective_addr := mmu040_movem_ea s, mmu040_movem := False\<rparr>) else (ssw, s));
          ssw = (if locked_rmw_cycle s then (ssw OR 0x200) AND NOT 0x100 else ssw);
          ssw = (if \<not> nonmmu then ssw OR 0x400 else ssw)
      in s\<lparr>mmu_ssw := ssw\<rparr>)"

definition bus_error_060 :: "u32 \<Rightarrow> u32 \<Rightarrow> bool \<Rightarrow> nat \<Rightarrow> u32 \<Rightarrow> 'm mmu \<Rightarrow> u32 \<times> 'm mmu" where
  "bus_error_060 addr fc write sz status060 s =
     (let fslw = (if write then MMU_FSLW_W else MMU_FSLW_R) OR push_bit 16 fc;
          (addr, fslw) =
            (if sz = 0 then (addr, fslw OR 0x00200000) else if sz = 1 then (addr, fslw OR 0x00400000)
             else if sz = 16 then (addr AND NOT 15, fslw OR 0x00600000 OR 0x00080000) else (addr, fslw));
          (addr, fslw) =
            (if fc AND 3 = 2 then
               (instruction_pc s, fslw OR (if mmu060_state s = 0 then MMU_FSLW_IO else MMU_FSLW_IO OR MMU_FSLW_MA))
             else (addr, fslw));
          fslw = (if rmw_cycle s then fslw OR MMU_FSLW_W OR MMU_FSLW_R else fslw);
          fslw = (if locked_rmw_cycle s then fslw OR MMU_FSLW_LK else fslw)
      in (addr, s\<lparr>mmu_fslw := fslw OR status060\<rparr>))"

definition mmu_bus_error :: "mmu_prefs \<Rightarrow> u32 \<Rightarrow> u32 \<Rightarrow> u32 \<Rightarrow> bool \<Rightarrow> nat \<Rightarrow> u32 \<Rightarrow> bool \<Rightarrow> 'm mmu \<Rightarrow> 'm mmu" where
  "mmu_bus_error p addr val fc write sz status060 nonmmu s =
     (let (addr, s) = (if \<not> mmu_060 p then (addr, bus_error_040 val fc write sz nonmmu s)
                       else bus_error_060 addr fc write sz status060 s)
      in s\<lparr>ismoves := False, rmw_cycle := False, locked_rmw_cycle := False, mmu_fault_addr := addr,
           cache_default_data := cache_default_data s AND NOT CACHE_DISABLE_ALLOCATE\<rparr>)"

definition mmu_hardware_bus_error :: "mmu_prefs \<Rightarrow> u32 \<Rightarrow> u32 \<Rightarrow> bool \<Rightarrow> bool \<Rightarrow> nat \<Rightarrow> 'm mmu \<Rightarrow> 'm mmu" where
  "mmu_hardware_bus_error p addr v read ins sz s =
     (let fc = (if ismoves s then (if read then sfc s else dfc s) else (if regs_s s then 4 else 0) OR (if ins then 2 else 1))
      in mmu_bus_error p addr v fc (\<not> read) sz 0 True s)"

definition mmu_is_super_access :: "bool \<Rightarrow> 'm mmu \<Rightarrow> bool" where
  "mmu_is_super_access read s = (if \<not> ismoves s then regs_s s else (if read then sfc s else dfc s) AND 4 \<noteq> 0)"

section \<open>Transparent translation\<close>

datatype ttr_result = TTR_NO_MATCH | TTR_NO_WRITE | TTR_OK_MATCH

definition mmu_tt_modified :: "'m mmu \<Rightarrow> 'm mmu" where
  "mmu_tt_modified s =
     (let s = s\<lparr>mmu_ttr_enabled_ins := (itt0 s OR itt1 s) AND 0x8000 \<noteq> 0\<rparr>;
          s = s\<lparr>mmu_ttr_enabled_data := (dtt0 s OR dtt1 s) AND 0x8000 \<noteq> 0\<rparr>
      in s\<lparr>mmu_ttr_enabled := mmu_ttr_enabled_ins s \<or> mmu_ttr_enabled_data s\<rparr>)"

definition mmu_make_transparent_region :: "u32 \<Rightarrow> u32 \<Rightarrow> bool \<Rightarrow> 'm mmu \<Rightarrow> 'm mmu" where
  "mmu_make_transparent_region region siz datamode s =
     (let ttr0 = (if datamode then dtt0 s else itt0 s); ttr1 = (if datamode then dtt1 s else itt1 s);
          ttr = (region AND 0xff000000) OR drop_bit 8 ((region + siz - 1) AND 0xff000000) OR 0x8000
      in if ttr1 AND 0x8000 = 0 then (if datamode then s\<lparr>dtt1 := ttr\<rparr> else s\<lparr>itt1 := ttr\<rparr>)
         else if ttr0 AND 0x8000 = 0 then (if datamode then s\<lparr>dtt0 := ttr\<rparr> else s\<lparr>itt0 := ttr\<rparr>)
         else s)"

text \<open>Of a status or register, the cache mode: bit 6 disables, bit 5 is copyback\<close>

definition cache_mode :: "u32 \<Rightarrow> u8" where
  "cache_mode v = (if v AND 0x40 \<noteq> 0 then CACHE_DISABLE_MMU
     else if v AND 0x20 \<noteq> 0 then CACHE_ENABLE_ALL OR CACHE_ENABLE_COPYBACK else CACHE_ENABLE_ALL)"

definition mmu_do_match_ttr :: "u32 \<Rightarrow> u32 \<Rightarrow> bool \<Rightarrow> 'm mmu \<Rightarrow> ttr_result \<times> 'm mmu" where
  "mmu_do_match_ttr ttr addr super s =
     (if ttr AND 0x8000 \<noteq> 0 then
        let msb = drop_bit 24 ((addr XOR ttr) AND 0xff000000); msk = drop_bit 16 (ttr AND 0x00ff0000)
        in if msb AND NOT msk = 0 then
             if ttr AND 0x4000 = 0 \<and> (ttr AND 0x2000 = 0) \<noteq> (\<not> super) then (TTR_NO_MATCH, s)
             else (if ttr AND 4 \<noteq> 0 then TTR_NO_WRITE else TTR_OK_MATCH, s\<lparr>mmu_cache_state := cache_mode ttr\<rparr>)
           else (TTR_NO_MATCH, s)
      else (TTR_NO_MATCH, s))"

definition match_two :: "u32 \<Rightarrow> u32 \<Rightarrow> u32 \<Rightarrow> bool \<Rightarrow> 'm mmu \<Rightarrow> ttr_result \<times> 'm mmu" where
  "match_two t0 t1 addr super s =
     (let (res, s) = mmu_do_match_ttr t0 addr super s
      in if res = TTR_NO_MATCH then mmu_do_match_ttr t1 addr super s else (res, s))"

definition mmu_match_ttr_ins :: "u32 \<Rightarrow> bool \<Rightarrow> 'm mmu \<Rightarrow> ttr_result \<times> 'm mmu" where
  "mmu_match_ttr_ins addr super s =
     (if \<not> mmu_ttr_enabled_ins s then (TTR_NO_MATCH, s) else match_two (itt0 s) (itt1 s) addr super s)"

definition mmu_match_ttr :: "u32 \<Rightarrow> bool \<Rightarrow> bool \<Rightarrow> 'm mmu \<Rightarrow> ttr_result \<times> 'm mmu" where
  "mmu_match_ttr addr super data s =
     (if \<not> mmu_ttr_enabled s then (TTR_NO_MATCH, s)
      else if data then match_two (dtt0 s) (dtt1 s) addr super s else match_two (itt0 s) (itt1 s) addr super s)"

definition mmu_bus_error_ttr_write_fault :: "mmu_prefs \<Rightarrow> u32 \<Rightarrow> bool \<Rightarrow> bool \<Rightarrow> u32 \<Rightarrow> nat \<Rightarrow> 'm mmu \<Rightarrow> 'm mmu" where
  "mmu_bus_error_ttr_write_fault p addr super data val sz s =
     mmu_bus_error p addr val (mmu_get_fc super data) True sz (if mmu_060 p then MMU_FSLW_TTR else 0) False s"

definition ttr_write_fault :: "ttr_result \<Rightarrow> 'm mmu \<Rightarrow> bool" where
  "ttr_write_fault res s \<longleftrightarrow> res = TTR_NO_WRITE \<or> res = TTR_NO_MATCH \<and> \<not> mmu_enabled s \<and> tcr s AND MMU_TCR_DWO \<noteq> 0"

definition mmu_match_ttr_write :: "mmu_prefs \<Rightarrow> u32 \<Rightarrow> bool \<Rightarrow> bool \<Rightarrow> u32 \<Rightarrow> nat \<Rightarrow> 'm mmu \<Rightarrow> 'm mmu + ttr_result \<times> 'm mmu" where
  "mmu_match_ttr_write p addr super data val sz s =
     (let (res, s) = (if mmu_ttr_enabled s then mmu_match_ttr addr super data s else (TTR_NO_MATCH, s))
      in if ttr_write_fault res s then Inl (mmu_bus_error_ttr_write_fault p addr super data val sz s) else Inr (res, s))"

definition mmu_match_ttr_maybe_write :: "mmu_prefs \<Rightarrow> u32 \<Rightarrow> bool \<Rightarrow> bool \<Rightarrow> nat \<Rightarrow> bool \<Rightarrow> 'm mmu \<Rightarrow> 'm mmu + ttr_result \<times> 'm mmu" where
  "mmu_match_ttr_maybe_write p addr super data sz write s =
     (let (res, s) = (if mmu_ttr_enabled s then mmu_match_ttr addr super data s else (TTR_NO_MATCH, s))
      in if write \<and> ttr_write_fault res s then Inl (mmu_bus_error_ttr_write_fault p addr super data 0 sz s) else Inr (res, s))"

section \<open>The table walk\<close>

definition bindE :: "'e + 'a \<Rightarrow> ('a \<Rightarrow> 'e + 'b) \<Rightarrow> 'e + 'b" where
  "bindE x f = (case x of Inl e \<Rightarrow> Inl e | Inr a \<Rightarrow> f a)"

definition desc_get_long :: "'m bus040 \<Rightarrow> u32 \<Rightarrow> 'm mmu \<Rightarrow> 'm mmu + u32 \<times> 'm mmu" where
  "desc_get_long b addr s =
     (let s = s\<lparr>mmu_cache_state := ce_cachable b (drop_bit 16 addr) OR CACHE_DISABLE_ALLOCATE\<rparr>
      in case phys_get b (mem s) addr of None \<Rightarrow> Inl s | Some (v, m) \<Rightarrow> Inr (v, s\<lparr>mem := m\<rparr>))"

definition desc_put_long :: "'m bus040 \<Rightarrow> u32 \<Rightarrow> u32 \<Rightarrow> 'm mmu \<Rightarrow> 'm mmu + 'm mmu" where
  "desc_put_long b addr v s =
     (let s = s\<lparr>mmu_cache_state := CACHE_DISABLE_MMU\<rparr>
      in case phys_put b (mem s) addr v of None \<Rightarrow> Inl s | Some m \<Rightarrow> Inr (s\<lparr>mem := m\<rparr>))"

definition mark_used :: "'m bus040 \<Rightarrow> u32 \<Rightarrow> u32 \<Rightarrow> 'm mmu \<Rightarrow> 'm mmu + 'm mmu" where
  "mark_used b desc_addr desc s =
     (if desc AND MMU_DES_USED = 0 then desc_put_long b desc_addr (desc OR MMU_DES_USED) s else Inr s)"

definition root_index :: "u32 \<Rightarrow> u32" where "root_index addr = drop_bit 23 addr AND 0x1fc"
definition ptr_index :: "u32 \<Rightarrow> u32" where "ptr_index addr = drop_bit 16 addr AND 0x1fc"

definition page_desc_addr :: "bool \<Rightarrow> u32 \<Rightarrow> u32 \<Rightarrow> u32" where
  "page_desc_addr k8 desc addr =
     (if k8 then (desc AND 0xffffff80) + (drop_bit 11 addr AND 0x7c)
      else (desc AND 0xffffff00) + (drop_bit 10 addr AND 0xfc))"

text \<open>The history bits of a page; the descriptor as it is then\<close>

definition mark_page :: "'m bus040 \<Rightarrow> u32 \<Rightarrow> u32 \<Rightarrow> u32 \<Rightarrow> bool \<Rightarrow> bool \<Rightarrow> 'm mmu \<Rightarrow> 'm mmu + u32 \<times> 'm mmu" where
  "mark_page b desc_addr desc wp super write s =
     (let new = (if write then
                   if wp AND MMU_DES_WP \<noteq> 0 \<or> desc AND MMU_DES_SUPER \<noteq> 0 \<and> \<not> super then desc OR MMU_DES_USED
                   else desc OR (MMU_DES_USED OR MMU_DES_MODIFIED)
                 else desc OR MMU_DES_USED)
      in if new \<noteq> desc then bindE (desc_put_long b desc_addr new s) (\<lambda>s. Inr (new, s)) else Inr (desc, s))"

text \<open>
  The steps of \<^verbatim>\<open>mmu_fill_atc\<close> under \<^verbatim>\<open>TRY\<close>. The result is the descriptor, 0 after
  \<^verbatim>\<open>goto fail\<close>, with the bits for the fault status; the left side is a bus error.
\<close>

definition page_level :: "'m bus040 \<Rightarrow> u32 \<Rightarrow> u32 \<Rightarrow> bool \<Rightarrow> bool \<Rightarrow> 'm mmu \<Rightarrow> 'm mmu + (u32 \<times> u32) \<times> 'm mmu" where
  "page_level b desc_addr wp super write s =
     bindE (desc_get_long b desc_addr s) (\<lambda>(desc, s).
     bindE (if desc AND 3 = 2
            then let desc_addr = desc AND 0xfffffffc
                 in bindE (desc_get_long b desc_addr s) (\<lambda>(desc, s). Inr (desc_addr, desc, s))
            else Inr (desc_addr, desc, s)) (\<lambda>(desc_addr, desc, s).
       if desc AND 1 = 1 then
         let wp = wp OR desc
         in bindE (mark_page b desc_addr desc wp super write s) (\<lambda>(desc, s). Inr ((desc OR (wp AND MMU_DES_WP), 0), s))
       else Inr ((0, if desc AND 3 = 2 then MMU_FSLW_IL else MMU_FSLW_PF), s)))"

definition table_search :: "'m bus040 \<Rightarrow> u32 \<Rightarrow> bool \<Rightarrow> bool \<Rightarrow> 'm mmu \<Rightarrow> 'm mmu + (u32 \<times> u32) \<times> 'm mmu" where
  "table_search b addr super write s =
     (let desc = (if super then srp s else urp s); desc_addr = (desc AND 0xfffffe00) OR root_index addr
      in bindE (desc_get_long b desc_addr s) (\<lambda>(desc, s).
         if desc AND 2 = 0 then Inr ((0, MMU_FSLW_PTA), s)
         else
           let wp = desc
           in bindE (mark_used b desc_addr desc s) (\<lambda>s.
              let desc_addr = (desc AND 0xfffffe00) OR ptr_index addr
              in bindE (desc_get_long b desc_addr s) (\<lambda>(desc, s).
                 if desc AND 2 = 0 then Inr ((0, MMU_FSLW_PTB), s)
                 else
                   let wp = wp OR desc
                   in bindE (mark_used b desc_addr desc s) (\<lambda>s.
                      page_level b (page_desc_addr (mmu_pagesize_8k s) desc addr) wp super write s)))))"

section \<open>The caches\<close>

definition page_idx :: "u32 \<Rightarrow> bool \<Rightarrow> 'm mmu \<Rightarrow> u32" where
  "page_idx addr super s = drop_bit (mmu_pageshift1m s) (addr AND mmu_pagemaski s) OR (if super then 1 else 0)"

definition forget :: "u32 \<Rightarrow> (nat \<Rightarrow> mmufastcache) \<Rightarrow> nat \<Rightarrow> mmufastcache" where
  "forget idx c = (\<lambda>i. if fc_log (c i) = idx then (c i)\<lparr>fc_log := 0xffffffff\<rparr> else c i)"

definition no_page :: mmufastcache where
  "no_page = \<lparr>fc_log = 0xffffffff, fc_phys = 0xffffffff, fc_state = 0xff\<rparr>"

definition flush_shortcut_cache :: "u32 \<Rightarrow> bool \<Rightarrow> 'm mmu \<Rightarrow> 'm mmu" where
  "flush_shortcut_cache addr super s =
     (let s = s\<lparr>atc_last_ins_laddr := mmu_pagemask s\<rparr>
      in if addr = 0xffffffff then s\<lparr>atc_data_cache_read := \<lambda>i. no_page, atc_data_cache_write := \<lambda>i. no_page\<rparr>
         else
           let idx = page_idx addr super s
           in s\<lparr>atc_data_cache_read := forget idx (atc_data_cache_read s), atc_data_cache_write := forget idx (atc_data_cache_write s)\<rparr>)"

definition set_line :: "bool \<Rightarrow> nat \<Rightarrow> nat \<Rightarrow> mmu_atc_line \<Rightarrow> 'm mmu \<Rightarrow> 'm mmu" where
  "set_line data index way l s =
     s\<lparr>mmu_atc_array := (\<lambda>d i w. if d = data \<and> i = index \<and> w = way then l else mmu_atc_array s d i w)\<rparr>"

text \<open>The result is the status, for \<^verbatim>\<open>PTEST\<close>, and the bits for the fault status.\<close>

definition mmu_fill_atc :: "mmu_prefs \<Rightarrow> 'm bus040 \<Rightarrow> u32 \<Rightarrow> bool \<Rightarrow> u32 \<Rightarrow> bool \<Rightarrow> bool \<Rightarrow> nat \<Rightarrow> nat \<Rightarrow> 'm mmu \<Rightarrow> u32 \<times> u32 \<times> 'm mmu" where
  "mmu_fill_atc p b addr super tag write data index way s =
     (let old_s = regs_s s; s = s\<lparr>regs_s := True\<rparr>;
          (status, status060, s) =
            (case table_search b addr super write s of
               Inr ((desc, status060), s) \<Rightarrow>
                 let status060 = status060 OR (if \<not> super \<and> desc AND MMU_DES_SUPER \<noteq> 0 then MMU_FSLW_SP
                                               else if write \<and> desc AND MMU_DES_WP \<noteq> 0 then MMU_FSLW_WP else 0)
                 in if \<not> mmu_060 p \<or> desc AND MMU_MMUSR_R \<noteq> 0 then
                      let l = \<lparr>l_tag = tag, l_valid = True, l_status = desc AND MMU_MMUSR_ENTRY, l_phys = desc AND mmu_pagemaski s\<rparr>
                      in (l_phys l OR l_status l, status060, set_line data index way l s)
                    else (0, status060, s)
             | Inl s \<Rightarrow>
                 (MMU_MMUSR_B, MMU_FSLW_LK OR MMU_FSLW_TWE,
                  if \<not> mmu_060 p then set_line data index way \<lparr>l_tag = tag, l_valid = True, l_status = 0, l_phys = 0\<rparr> s else s))
      in (status, status060, flush_shortcut_cache addr super (s\<lparr>regs_s := old_s\<rparr>)))"

definition mmu_add_cache :: "u32 \<Rightarrow> u32 \<Rightarrow> bool \<Rightarrow> bool \<Rightarrow> bool \<Rightarrow> 'm mmu \<Rightarrow> 'm mmu" where
  "mmu_add_cache addr phys super data write s =
     (if \<not> data then
        s\<lparr>atc_last_ins_laddr := (addr AND mmu_pagemaski s) OR (if super then 1 else 0), atc_last_ins_paddr := phys,
          atc_last_ins_cache := mmu_cache_state s\<rparr>
      else
        let idx1 = page_idx addr super s; idx2 = unat (idx1 AND 0xff);
            e = \<lparr>fc_log = idx1, fc_phys = phys, fc_state = mmu_cache_state s\<rparr>
        in if idx2 < 255 then
             if write then s\<lparr>atc_data_cache_write := (atc_data_cache_write s)(idx2 := e)\<rparr>
             else s\<lparr>atc_data_cache_read := (atc_data_cache_read s)(idx2 := e)\<rparr>
           else s)"

section \<open>Translation\<close>

definition atc_tag :: "u32 \<Rightarrow> bool \<Rightarrow> 'm mmu \<Rightarrow> u32" where
  "atc_tag addr super s = ((if super then 0x80000000 else 0) OR drop_bit 1 addr) AND mmu_tagmask s"

definition atc_index :: "u32 \<Rightarrow> 'm mmu \<Rightarrow> nat" where
  "atc_index addr s = unat (if mmu_pagesize_8k s then drop_bit 13 (addr AND 0x1e000) else drop_bit 12 (addr AND 0xf000))"

text \<open>The loop over the four ways: the way of the entry, or the last one seen with another page\<close>

fun atc_scan :: "u32 \<Rightarrow> (nat \<Rightarrow> mmu_atc_line) \<Rightarrow> nat \<Rightarrow> nat \<Rightarrow> nat option \<Rightarrow> nat option + nat" where
  "atc_scan tag ls 0 way way_invalid = Inl way_invalid"
| "atc_scan tag ls (Suc n) way way_invalid =
     (if l_valid (ls way) then
        if tag = l_tag (ls way) then Inr way else atc_scan tag ls n ((way + 1) mod 4) (Some way)
      else atc_scan tag ls n ((way + 1) mod 4) way_invalid)"

text \<open>From \<^verbatim>\<open>atc_retry\<close>: a fault, the translation, or another table search for the modified bit\<close>

datatype 'm atc_hit = Hit_fault "'m mmu" | Hit u32 "'m mmu" | Hit_unmodified

definition atc_retry :: "mmu_prefs \<Rightarrow> u32 \<Rightarrow> u32 \<Rightarrow> bool \<Rightarrow> bool \<Rightarrow> bool \<Rightarrow> nat \<Rightarrow> u32 \<Rightarrow> nat \<Rightarrow> 'm mmu \<Rightarrow> 'm atc_hit" where
  "atc_retry p addr val super data write sz status060 way s =
     (let l = mmu_atc_array s data (atc_index addr s) way; st = l_status l
      in if st AND (MMU_MMUSR_W OR MMU_MMUSR_S OR MMU_MMUSR_R) \<noteq> MMU_MMUSR_R \<and>
            (st AND MMU_MMUSR_W \<noteq> 0 \<and> write \<or> st AND MMU_MMUSR_S \<noteq> 0 \<and> \<not> super \<or> st AND MMU_MMUSR_R = 0)
         then
           let status060 = (if st AND MMU_MMUSR_S \<noteq> 0 \<and> \<not> super then status060 OR MMU_FSLW_SP else status060);
               status060 = (if st AND MMU_MMUSR_W \<noteq> 0 \<and> write then status060 OR MMU_FSLW_WP else status060)
           in Hit_fault (mmu_bus_error p addr val (mmu_get_fc super data) write sz status060 False s)
         else if st AND MMU_MMUSR_M = 0 \<and> write then Hit_unmodified
         else
           let s = s\<lparr>mmu_atc_ways := (mmu_atc_ways s)(data := way), mmu_cache_state := cache_mode st\<rparr>;
               s = mmu_add_cache addr (l_phys l) super data write s
           in Hit (l_phys l OR (addr AND mmu_pagemask s)) s)"

partial_function (option) translate_fill ::
  "mmu_prefs \<Rightarrow> 'm bus040 \<Rightarrow> u32 \<Rightarrow> u32 \<Rightarrow> bool \<Rightarrow> bool \<Rightarrow> bool \<Rightarrow> nat \<Rightarrow> u32 \<Rightarrow> nat option \<Rightarrow> 'm mmu \<Rightarrow> ('m mmu + u32 \<times> 'm mmu) option" where
  [code]: "translate_fill p b addr val super data write sz status060 way_invalid s =
     (let s = s\<lparr>way_random := way_random s mod 4\<rparr>;
          way = (case way_invalid of Some w \<Rightarrow> w | None \<Rightarrow> way_random s);
          (_, bits, s) = mmu_fill_atc p b addr super (atc_tag addr super s) write data (atc_index addr s) way s;
          status060 = status060 OR bits
      in if status060 \<noteq> 0 \<and> mmu_060 p
         then Some (Inl (mmu_bus_error p addr val (mmu_get_fc super data) write sz status060 False s))
         else
           let s = s\<lparr>way_random := way_random s + 1\<rparr>
           in case atc_retry p addr val super data write sz status060 way s of
                Hit_fault s \<Rightarrow> Some (Inl s)
              | Hit pa s \<Rightarrow> Some (Inr (pa, s))
              | Hit_unmodified \<Rightarrow> translate_fill p b addr val super data write sz status060 (Some way) s)"

definition mmu_translate ::
  "mmu_prefs \<Rightarrow> 'm bus040 \<Rightarrow> u32 \<Rightarrow> u32 \<Rightarrow> bool \<Rightarrow> bool \<Rightarrow> bool \<Rightarrow> nat \<Rightarrow> 'm mmu \<Rightarrow> ('m mmu + u32 \<times> 'm mmu) option" where
  "mmu_translate p b addr val super data write sz s =
     (let s = s\<lparr>way_random := way_random s + 1\<rparr>
      in case atc_scan (atc_tag addr super s) (mmu_atc_array s data (atc_index addr s)) 4 (mmu_atc_ways s data) None of
           Inl way_invalid \<Rightarrow> translate_fill p b addr val super data write sz 0 way_invalid s
         | Inr way \<Rightarrow>
             case atc_retry p addr val super data write sz 0 way s of
               Hit_fault s \<Rightarrow> Some (Inl s)
             | Hit pa s \<Rightarrow> Some (Inr (pa, s))
             | Hit_unmodified \<Rightarrow> translate_fill p b addr val super data write sz 0 (Some way) s)"

section \<open>Accesses\<close>

definition fast_hit :: "mmufastcache \<Rightarrow> u32 \<Rightarrow> 'm mmu \<Rightarrow> u32" where
  "fast_hit e addr s = fc_phys e OR (addr AND mmu_pagemask s)"

text \<open>The physical address of an instruction fetch, a read and a write of the processor, and of MOVES and locked cycles\<close>

definition mmu_ins_addr :: "mmu_prefs \<Rightarrow> 'm bus040 \<Rightarrow> u32 \<Rightarrow> nat \<Rightarrow> 'm mmu \<Rightarrow> ('m mmu + u32 \<times> 'm mmu) option" where
  "mmu_ins_addr p b addr sz s =
     (let s = s\<lparr>mmu_cache_state := cache_default_ins s\<rparr>;
          (res, s) = (if \<not> mmu_ttr_enabled_ins s then (TTR_NO_MATCH, s) else mmu_match_ttr_ins addr (regs_s s) s)
      in if res = TTR_NO_MATCH \<and> mmu_enabled s then
           if (addr AND mmu_pagemaski s) OR (if regs_s s then 1 else 0) = atc_last_ins_laddr s
           then Some (Inr (atc_last_ins_paddr s OR (addr AND mmu_pagemask s), s\<lparr>mmu_cache_state := atc_last_ins_cache s\<rparr>))
           else mmu_translate p b addr 0 (regs_s s) False False sz s
         else Some (Inr (addr, s)))"

definition read_page :: "mmu_prefs \<Rightarrow> 'm bus040 \<Rightarrow> u32 \<Rightarrow> bool \<Rightarrow> bool \<Rightarrow> bool \<Rightarrow> nat \<Rightarrow> 'm mmu \<Rightarrow> ('m mmu + u32 \<times> 'm mmu) option" where
  "read_page p b addr super data write sz s =
     (let idx1 = page_idx addr super s; e = atc_data_cache_read s (unat (idx1 AND 0xff))
      in if fc_log e = idx1 then Some (Inr (fast_hit e addr s, s\<lparr>mmu_cache_state := fc_state e\<rparr>))
         else mmu_translate p b addr 0 super data write sz s)"

definition write_page :: "mmu_prefs \<Rightarrow> 'm bus040 \<Rightarrow> u32 \<Rightarrow> u32 \<Rightarrow> bool \<Rightarrow> bool \<Rightarrow> nat \<Rightarrow> 'm mmu \<Rightarrow> ('m mmu + u32 \<times> 'm mmu) option" where
  "write_page p b addr val super data sz s =
     (let idx1 = page_idx addr super s; idx2 = unat (idx1 AND 0xff); e = atc_data_cache_write s idx2
      in if fc_log e = idx1
         then Some (Inr (fast_hit e addr s, s\<lparr>mmu_cache_state := fc_state (atc_data_cache_read s idx2)\<rparr>))
         else mmu_translate p b addr val super data True sz s)"

definition mmu_read_addr :: "mmu_prefs \<Rightarrow> 'm bus040 \<Rightarrow> u32 \<Rightarrow> bool \<Rightarrow> nat \<Rightarrow> 'm mmu \<Rightarrow> ('m mmu + u32 \<times> 'm mmu) option" where
  "mmu_read_addr p b addr data sz s =
     (let s = s\<lparr>mmu_cache_state := cache_default_data s\<rparr>;
          (res, s) = (if \<not> mmu_ttr_enabled s then (TTR_NO_MATCH, s) else mmu_match_ttr addr (regs_s s) data s)
      in if res = TTR_NO_MATCH \<and> mmu_enabled s then read_page p b addr (regs_s s) data False sz s else Some (Inr (addr, s)))"

definition mmu_write_addr :: "mmu_prefs \<Rightarrow> 'm bus040 \<Rightarrow> u32 \<Rightarrow> u32 \<Rightarrow> bool \<Rightarrow> nat \<Rightarrow> 'm mmu \<Rightarrow> ('m mmu + u32 \<times> 'm mmu) option" where
  "mmu_write_addr p b addr val data sz s =
     (let s = s\<lparr>mmu_cache_state := cache_default_data s\<rparr>
      in case (if \<not> mmu_ttr_enabled s then Inr (TTR_NO_MATCH, s) else mmu_match_ttr_write p addr (regs_s s) data val sz s) of
           Inl s \<Rightarrow> Some (Inl s)
         | Inr (res, s) \<Rightarrow>
             if res = TTR_NO_MATCH \<and> mmu_enabled s then write_page p b addr val (regs_s s) data sz s else Some (Inr (addr, s)))"

definition uncached :: "bool \<Rightarrow> ('m mmu + u32 \<times> 'm mmu) option \<Rightarrow> ('m mmu + u32 \<times> 'm mmu) option" where
  "uncached ci r = (case r of Some (Inr (pa, s)) \<Rightarrow> Some (Inr (pa, if ci then s\<lparr>mmu_cache_state := CACHE_DISABLE_MMU\<rparr> else s)) | _ \<Rightarrow> r)"

definition mmu_read_user_addr ::
  "mmu_prefs \<Rightarrow> 'm bus040 \<Rightarrow> u32 \<Rightarrow> bool \<Rightarrow> bool \<Rightarrow> nat \<Rightarrow> bool \<Rightarrow> 'm mmu \<Rightarrow> ('m mmu + u32 \<times> 'm mmu) option" where
  "mmu_read_user_addr p b addr super write sz ci s =
     (let s = s\<lparr>mmu_cache_state := cache_default_data s\<rparr>
      in case (if \<not> mmu_ttr_enabled s then Inr (TTR_NO_MATCH, s) else mmu_match_ttr_maybe_write p addr super True sz write s) of
           Inl s \<Rightarrow> Some (Inl s)
         | Inr (res, s) \<Rightarrow>
             uncached ci (if res = TTR_NO_MATCH \<and> mmu_enabled s then read_page p b addr super True write sz s else Some (Inr (addr, s))))"

definition mmu_write_user_addr ::
  "mmu_prefs \<Rightarrow> 'm bus040 \<Rightarrow> u32 \<Rightarrow> u32 \<Rightarrow> bool \<Rightarrow> nat \<Rightarrow> bool \<Rightarrow> 'm mmu \<Rightarrow> ('m mmu + u32 \<times> 'm mmu) option" where
  "mmu_write_user_addr p b addr val super sz ci s =
     (let s = s\<lparr>mmu_cache_state := cache_default_data s\<rparr>
      in case (if \<not> mmu_ttr_enabled s then Inr (TTR_NO_MATCH, s) else mmu_match_ttr_write p addr super True val sz s) of
           Inl s \<Rightarrow> Some (Inl s)
         | Inr (res, s) \<Rightarrow>
             uncached ci (if res = TTR_NO_MATCH \<and> mmu_enabled s then write_page p b addr val super True sz s else Some (Inr (addr, s))))"

text \<open>A bus error of the access itself is the left side too.\<close>

definition mmu_get_long :: "mmu_prefs \<Rightarrow> 'm bus040 \<Rightarrow> u32 \<Rightarrow> bool \<Rightarrow> nat \<Rightarrow> 'm mmu \<Rightarrow> ('m mmu + u32 \<times> 'm mmu) option" where
  "mmu_get_long p b addr data sz s =
     map_option (\<lambda>r. bindE r (\<lambda>(pa, s).
       case phys_get b (mem s) pa of None \<Rightarrow> Inl s | Some (v, m) \<Rightarrow> Inr (v, s\<lparr>mem := m\<rparr>))) (mmu_read_addr p b addr data sz s)"

definition mmu_put_long :: "mmu_prefs \<Rightarrow> 'm bus040 \<Rightarrow> u32 \<Rightarrow> u32 \<Rightarrow> bool \<Rightarrow> nat \<Rightarrow> 'm mmu \<Rightarrow> ('m mmu + 'm mmu) option" where
  "mmu_put_long p b addr val data sz s =
     map_option (\<lambda>r. bindE r (\<lambda>(pa, s).
       case phys_put b (mem s) pa val of None \<Rightarrow> Inl s | Some m \<Rightarrow> Inr (s\<lparr>mem := m\<rparr>))) (mmu_write_addr p b addr val data sz s)"

section \<open>Flushing and testing\<close>

definition mmu_flush_atc :: "u32 \<Rightarrow> bool \<Rightarrow> bool \<Rightarrow> 'm mmu \<Rightarrow> 'm mmu" where
  "mmu_flush_atc addr super global s =
     (let tag = atc_tag addr super s; index = atc_index addr s
      in flush_shortcut_cache addr super
           (s\<lparr>mmu_atc_array := (\<lambda>d i w. let l = mmu_atc_array s d i w
              in if i = index \<and> \<not> (\<not> global \<and> l_status l AND MMU_MMUSR_G \<noteq> 0) \<and> tag = l_tag l \<and> l_valid l then l\<lparr>l_valid := False\<rparr> else l)\<rparr>))"

definition mmu_flush_atc_all :: "bool \<Rightarrow> 'm mmu \<Rightarrow> 'm mmu" where
  "mmu_flush_atc_all global s =
     flush_shortcut_cache 0xffffffff False
       (s\<lparr>mmu_atc_array := (\<lambda>d i w. let l = mmu_atc_array s d i w
          in if \<not> global \<and> l_status l AND MMU_MMUSR_G \<noteq> 0 then l else l\<lparr>l_valid := False\<rparr>)\<rparr>)"

definition mmu_set_tc_state :: "mmu_prefs \<Rightarrow> u32 \<Rightarrow> 'm mmu \<Rightarrow> u32 \<times> 'm mmu" where
  "mmu_set_tc_state p tc s =
     (let tc = (if mmu_ec p then if cpu_040 p then 0 else tc AND NOT (0x8000 OR 0x4000) else tc);
          s = s\<lparr>mmu_enabled := tc AND 0x8000 \<noteq> 0, mmu_pagesize_8k := tc AND 0x4000 \<noteq> 0,
                cache_default_ins := CACHE_ENABLE_ALL, cache_default_data := CACHE_ENABLE_ALL\<rparr>;
          s = (if mmu_060 p then
                 let di = drop_bit 3 tc AND 3; dd = drop_bit 8 tc AND 3
                 in s\<lparr>cache_default_ins := (if di AND 2 = 0 then CACHE_ENABLE_ALL else 0),
                      cache_default_data := (if dd AND 2 = 0 then if dd AND 1 \<noteq> 0 then CACHE_ENABLE_COPYBACK OR CACHE_ENABLE_ALL
                        else CACHE_ENABLE_ALL else 0)\<rparr>
               else s)
      in (tc, mmu_flush_atc_all True s))"

definition free_way :: "(nat \<Rightarrow> mmu_atc_line) \<Rightarrow> nat \<Rightarrow> nat" where
  "free_way ls random = (case find (\<lambda>w. \<not> l_valid (ls w)) [0..<4] of Some w \<Rightarrow> w | None \<Rightarrow> random mod 4)"

datatype 'm op_result = Op_done "'m mmu" | Op_fault "'m mmu" | Op_illegal

definition mmu_op_real :: "mmu_prefs \<Rightarrow> 'm bus040 \<Rightarrow> u32 \<Rightarrow> 'm mmu \<Rightarrow> 'm op_result option" where
  "mmu_op_real p b opcode s =
     (let super = (dfc s AND 4 \<noteq> 0); regno = unat (opcode AND 7); addr = areg s regno; data = (dfc s AND 3 \<noteq> 2)
      in if opcode AND 0xfe0 = 0x500 then
           let glob = (opcode AND 8 \<noteq> 0)
           in Some (Op_done (if opcode AND 16 \<noteq> 0 then mmu_flush_atc_all glob s else mmu_flush_atc addr super glob s))
         else if opcode AND 0xfd8 = 0x548 then
           let write = (opcode AND 32 = 0); s = mmu_flush_atc addr super True s; (ttr, s) = mmu_match_ttr addr super data s
           in if ttr \<noteq> TTR_NO_MATCH then
                Some (Op_done (s\<lparr>mmusr := (if ttr = TTR_NO_WRITE \<and> write then MMU_MMUSR_B else MMU_MMUSR_T OR MMU_MMUSR_R)\<rparr>))
              else if \<not> mmu_ec p then
                let index = atc_index addr s; way = free_way (mmu_atc_array s data index) (way_random s);
                    (status, _, s) = mmu_fill_atc p b addr super (atc_tag addr super s) write data index way s
                in Some (Op_done (s\<lparr>mmusr := status\<rparr>))
              else Some (Op_done s)
         else if opcode AND 0xffb8 = 0xf588 then
           let write = (opcode AND 0x40 = 0)
           in case (if write then mmu_match_ttr_write p addr super data 0 1 s else Inr (mmu_match_ttr addr super data s)) of
                Inl s \<Rightarrow> Some (Op_fault s)
              | Inr (ttr, s) \<Rightarrow>
                  if ttr = TTR_NO_MATCH \<and> \<not> mmu_ec p then
                    map_option (\<lambda>r. case r of Inl s \<Rightarrow> Op_fault s | Inr (pa, s) \<Rightarrow> Op_done (s\<lparr>areg := (areg s)(regno := pa)\<rparr>))
                      (mmu_translate p b addr 0 super data write 1 s)
                  else Some (Op_done s)
         else Some Op_illegal)"

end
