(* ===== verification/MmuWalk.thy ===== *)
theory MmuWalk
  imports Mmu040
begin

unbundle bit_operations_syntax

text \<open>
  Correctness of the memory management unit: over any run, every cached answer is the one a search
  of the tables gives. \<open>search\<close> is the specification, a pure function of the longs in memory; the
  locale \<open>table_memory\<close> is what the unit needs of memory, and RAM provides it.
\<close>

section \<open>Addresses and pages\<close>

lemma page_consts:
  "(0xffff8000 :: u32) = NOT (mask 15)" "(0xffff0000 :: u32) = NOT (mask 16)" "(0xfff :: u32) = mask 12" "(0x1fff :: u32) = mask 13"
  "(0xf000 :: u32) = push_bit 12 (mask 4)" "(0x1e000 :: u32) = push_bit 13 (mask 4)" "(0x80000000 :: u32) = push_bit 31 1"
  "(0x1fc :: u32) = push_bit 2 (mask 7)" "(0xfc :: u32) = push_bit 2 (mask 6)" "(0x7c :: u32) = push_bit 2 (mask 5)"
  by code_simp+

lemma tag_bits:
  "bit (atc_tag a su s) n \<longleftrightarrow> (if n = 31 then su else n < 31 \<and> (if mmu_pagesize_8k s then 16 else 15) \<le> n \<and> bit a (n + 1))"
proof -
  have d: "bit (drop_bit 1 a) n \<longleftrightarrow> n < 31 \<and> bit a (n + 1)" using bit_imp_le_length [of a "n + 1"] by (auto simp: bit_drop_bit_eq)
  have t: "bit (if su then 0x80000000 else 0 :: u32) n \<longleftrightarrow> su \<and> n = 31"
  proof -
    have e: "(0x80000000 :: u32) = 2 ^ 31" by simp
    have "bit (2 ^ 31 :: u32) n \<longleftrightarrow> n = 31" by (subst bit_exp_iff) (auto simp: possible_bit_word)
    then show ?thesis unfolding e by (simp only: if_distrib [of "\<lambda>x. bit x n"] bit_0_eq bot_apply bot_bool_def) auto
  qed
  have m: "bit (mmu_tagmask s) n \<longleftrightarrow> n < 32 \<and> (if mmu_pagesize_8k s then 16 else 15) \<le> n"
    unfolding mmu_tagmask_def page_consts by (auto simp add: bit_simps)
  show ?thesis unfolding atc_tag_def bit_and_iff bit_or_iff d t m by auto
qed

lemma index_bits:
  "bit (drop_bit (if k8 then 13 else 12) (a AND (if k8 then 0x1e000 else 0xf000 :: u32))) n \<longleftrightarrow> n < 4 \<and> bit a (n + (if k8 then 13 else 12))"
  unfolding page_consts by (cases k8) (auto simp add: bit_simps add.commute)

lemma maski_bits: "bit (mmu_pagemaski s) n \<longleftrightarrow> n < 32 \<and> (if mmu_pagesize_8k s then 13 else 12) \<le> n"
  unfolding mmu_pagemaski_def mmu_pagemask_def page_consts by (auto simp add: bit_simps)

lemma pagemaski_bits: "bit (a AND mmu_pagemaski s) n \<longleftrightarrow> (if mmu_pagesize_8k s then 13 else 12) \<le> n \<and> bit a n"
  using bit_imp_le_length [of a n] by (auto simp: bit_and_iff maski_bits)

lemma same_page:
  assumes "atc_tag a su s = atc_tag a' su' s" "atc_index a s = atc_index a' s"
  shows "su = su' \<and> a AND mmu_pagemaski s = a' AND mmu_pagemaski s"
proof -
  let ?k = "mmu_pagesize_8k s"
  have t: "bit (atc_tag a su s) n = bit (atc_tag a' su' s) n" for n using assms(1) by simp
  have "drop_bit (if ?k then 13 else 12) (a AND (if ?k then 0x1e000 else 0xf000)) = drop_bit (if ?k then 13 else 12) (a' AND (if ?k then 0x1e000 else 0xf000))"
    using assms(2) by (simp add: atc_index_def word_unat_eq_iff split: if_splits)
  then have i: "n < 4 \<Longrightarrow> bit a (n + (if ?k then 13 else 12)) = bit a' (n + (if ?k then 13 else 12))" for n
    using index_bits [of ?k a n] index_bits [of ?k a' n] by simp
  have "bit (a AND mmu_pagemaski s) n = bit (a' AND mmu_pagemaski s) n" for n
  proof (cases "n < (if ?k then 17 else 16)")
    case True
    then show ?thesis using i [of "n - (if ?k then 13 else 12)"] by (auto simp: pagemaski_bits split: if_splits)
  next
    case False
    then show ?thesis using t [of "n - 1"] by (auto simp: pagemaski_bits tag_bits split: if_splits dest: bit_imp_le_length)
  qed
  moreover have "su = su'" using t [of 31] by (simp add: tag_bits)
  ultimately show ?thesis by (auto intro: bit_eqI)
qed

lemma page_idx_bits:
  "bit (page_idx a su s) n \<longleftrightarrow> (if n = 0 then su else bit a (n + (if mmu_pagesize_8k s then 12 else 11)))"
proof -
  have t: "bit (if su then 1 else 0 :: u32) n \<longleftrightarrow> su \<and> n = 0" by (simp add: bit_1_iff)
  show ?thesis unfolding page_idx_def bit_or_iff bit_drop_bit_eq comp_apply pagemaski_bits t mmu_pageshift1m_def
    by (auto simp: add.commute)
qed

lemma same_idx:
  assumes "page_idx a su s = page_idx a' su' s"
  shows "su = su' \<and> a AND mmu_pagemaski s = a' AND mmu_pagemaski s"
proof -
  let ?k = "if mmu_pagesize_8k s then 12 else 11 :: nat"
  have t: "bit (page_idx a su s) n = bit (page_idx a' su' s) n" for n using assms by simp
  have "bit (a AND mmu_pagemaski s) n = bit (a' AND mmu_pagemaski s) n" for n
    using t [of "n - ?k"] by (auto simp: pagemaski_bits page_idx_bits split: if_splits)
  moreover have "su = su'" using t [of 0] by (simp add: page_idx_bits)
  ultimately show ?thesis by (auto intro: bit_eqI)
qed

lemma page_idx_valid: "page_idx a su s \<noteq> 0xffffffff"
proof
  assume "page_idx a su s = 0xffffffff"
  then have "bit (page_idx a su s) 31 = bit (0xffffffff :: u32) 31" by simp
  then show False by (simp add: page_idx_bits bit_word_beyond)
qed

lemma same_laddr:
  assumes "(a AND mmu_pagemaski s) OR (if su then 1 else 0) = (a' AND mmu_pagemaski s) OR (if su' then 1 else 0)"
  shows "su = su' \<and> a AND mmu_pagemaski s = a' AND mmu_pagemaski s"
proof -
  have t: "bit ((a AND mmu_pagemaski s) OR (if su then 1 else 0)) n = bit ((a' AND mmu_pagemaski s) OR (if su' then 1 else 0)) n" for n
    using assms by simp
  then have t: "bit (a AND mmu_pagemaski s) n \<or> su \<and> n = 0 \<longleftrightarrow> bit (a' AND mmu_pagemaski s) n \<or> su' \<and> n = 0" for n
    using t [of n] by (cases su; cases su') (simp_all add: bit_or_iff bit_1_iff)
  have "su = su'" using t [of 0] by (simp add: pagemaski_bits split: if_splits)
  moreover have "bit (a AND mmu_pagemaski s) n = bit (a' AND mmu_pagemaski s) n" for n
    using t [of n] by (cases "n = 0") (simp_all add: pagemaski_bits)
  ultimately show ?thesis by (auto intro: bit_eqI)
qed

lemma laddr_valid: "(a AND mmu_pagemaski s) OR (if su then 1 else 0) \<noteq> mmu_pagemask s"
proof
  assume "(a AND mmu_pagemaski s) OR (if su then 1 else 0) = mmu_pagemask s"
  then have "bit ((a AND mmu_pagemaski s) OR (if su then 1 else 0)) 1 = bit (mmu_pagemask s) 1" by simp
  then have "bit (a AND mmu_pagemaski s) 1 \<longleftrightarrow> bit (mmu_pagemask s) 1" by (cases su) (simp_all add: bit_or_iff bit_1_iff)
  then show False unfolding pagemaski_bits mmu_pagemask_def page_consts by (simp add: bit_mask_iff split: if_splits)
qed

section \<open>The specification\<close>

text \<open>A search ends in an error of the bus, in no page, or in a page: where its descriptor is, the descriptor, the protection\<close>

datatype search = Table_error | No_page u32 | Page u32 u32 u32

definition leaf :: "u32 \<Rightarrow> u32 \<Rightarrow> u32 \<Rightarrow> search" where
  "leaf a d wp = (if d AND 1 = 1 then Page a d ((wp OR d) AND 4) else No_page (if d AND 3 = 2 then MMU_FSLW_IL else MMU_FSLW_PF))"

definition search_page :: "(u32 \<Rightarrow> u32) \<Rightarrow> u32 set \<Rightarrow> u32 \<Rightarrow> u32 \<Rightarrow> bool \<times> search" where
  "search_page L win a wp =
     (if a \<notin> win then (False, Table_error)
      else if L a AND 3 = 2 then (True, let a = L a AND 0xfffffffc in if a \<notin> win then Table_error else leaf a (L a) wp)
      else (False, leaf a (L a) wp))"

text \<open>The first component tells that an indirect descriptor was followed.\<close>

definition search :: "(u32 \<Rightarrow> u32) \<Rightarrow> u32 set \<Rightarrow> bool \<Rightarrow> u32 \<Rightarrow> u32 \<Rightarrow> bool \<times> search" where
  "search L win k8 root addr =
     (let a1 = (root AND 0xfffffe00) OR root_index addr
      in if a1 \<notin> win then (False, Table_error)
         else if L a1 AND 2 = 0 then (False, No_page MMU_FSLW_PTA)
         else
           let a2 = (L a1 AND 0xfffffe00) OR ptr_index addr
           in if a2 \<notin> win then (False, Table_error)
              else if L a2 AND 2 = 0 then (False, No_page MMU_FSLW_PTB)
              else search_page L win (page_desc_addr k8 (L a2) addr) (L a1 OR L a2))"

definition allowed :: "bool \<Rightarrow> bool \<Rightarrow> u32 \<Rightarrow> u32 \<Rightarrow> bool" where
  "allowed super write d w \<longleftrightarrow> (d AND MMU_DES_SUPER = 0 \<or> super) \<and> (w AND MMU_DES_WP = 0 \<or> \<not> write)"

text \<open>The physical address, if the access is allowed\<close>

definition translation :: "search \<Rightarrow> bool \<Rightarrow> bool \<Rightarrow> u32 \<Rightarrow> u32 \<Rightarrow> u32 option" where
  "translation r super write pm addr =
     (case r of Page a d w \<Rightarrow> if allowed super write d w then Some ((d AND NOT pm) OR (addr AND pm)) else None | _ \<Rightarrow> None)"

lemma search_same_page:
  assumes "a AND mmu_pagemaski s = a' AND mmu_pagemaski s"
  shows "search L win (mmu_pagesize_8k s) root a = search L win (mmu_pagesize_8k s) root a'"
proof -
  let ?k = "mmu_pagesize_8k s"
  have b: "bit a n = bit a' n" if "(if ?k then 13 else 12) \<le> n" for n
    using assms that pagemaski_bits [of a s n] pagemaski_bits [of a' s n] by simp
  have "drop_bit 23 a = drop_bit 23 a'" "drop_bit 16 a = drop_bit 16 a'"
    by (rule bit_word_eqI, simp add: bit_simps b)+
  moreover have "drop_bit 11 a AND 0x7c = drop_bit 11 a' AND 0x7c" if ?k
    by (rule bit_word_eqI) (use b that in \<open>auto simp: bit_simps page_consts\<close>)
  moreover have "drop_bit 10 a AND 0xfc = drop_bit 10 a' AND 0xfc" if "\<not> ?k"
    by (rule bit_word_eqI) (use b that in \<open>auto simp: bit_simps page_consts\<close>)
  ultimately have "root_index a = root_index a'" "ptr_index a = ptr_index a'" "page_desc_addr ?k d a = page_desc_addr ?k d a'" for d
    by (simp_all add: root_index_def ptr_index_def page_desc_addr_def)
  then show ?thesis by (simp only: search_def)
qed

text \<open>History bits do not change what a search without indirect descriptors finds.\<close>

definition history :: "u32 \<Rightarrow> bool" where
  "history x \<longleftrightarrow> x AND NOT 0x18 = 0"

lemma and_disjoint:
  fixes x c M :: "'a::len word"
  assumes "x AND NOT c = 0" "M AND c = 0"
  shows "x AND M = 0"
proof -
  have "x = (x AND c) OR (x AND NOT c)" by (rule bit_eqI) (auto simp: bit_simps)
  then have "x AND M = x AND (M AND c)" using assms(1) by (metis and.assoc and.commute or.right_neutral)
  then show ?thesis using assms(2) by simp
qed

lemma history_mask: "history x \<Longrightarrow> M AND 0x18 = 0 \<Longrightarrow> (d OR x) AND M = d AND M"
  using and_disjoint [of x "0x18" M] by (simp add: history_def bit.conj_disj_distrib2)

definition touched :: "u32 set \<Rightarrow> (u32 \<Rightarrow> u32) \<Rightarrow> (u32 \<Rightarrow> u32) \<Rightarrow> bool" where
  "touched win L L' \<longleftrightarrow> (\<forall>a\<in>win. \<exists>x. history x \<and> L' a = L a OR x)"

lemma touched_refl [simp]: "touched win L L"
  by (auto simp: touched_def history_def intro!: exI [of _ 0])

lemma history_or: "history x \<Longrightarrow> history y \<Longrightarrow> history (x OR y)"
  by (simp add: history_def bit.conj_disj_distrib2)

lemma touched_trans: "touched win L L' \<Longrightarrow> touched win L' L'' \<Longrightarrow> touched win L L''"
  unfolding touched_def by (metis history_or or.assoc)

fun search_like :: "search \<Rightarrow> search \<Rightarrow> bool" where
  "search_like (Page a d w) (Page a' d' w') \<longleftrightarrow> a' = a \<and> w' = w \<and> (\<exists>x. history x \<and> d' = d OR x)"
| "search_like r r' \<longleftrightarrow> r' = r"

lemma search_touched:
  assumes "touched win L L'" "\<not> fst (search L win k8 root addr)"
  shows "\<not> fst (search L' win k8 root addr) \<and> search_like (snd (search L win k8 root addr)) (snd (search L' win k8 root addr))"
proof -
  have t: "L' a AND M = L a AND M" if "a \<in> win" "M AND 0x18 = 0" for a M
    using assms(1) that history_mask by (fastforce simp: touched_def)
  have w: "(L' a OR L' c) AND 4 = (L a OR L c) AND 4" if "a \<in> win" "c \<in> win" for a c
    using t [OF that(1), of 4] t [OF that(2), of 4] by (simp add: bit.conj_disj_distrib2)
  have pd: "page_desc_addr k8 (L' a) addr = page_desc_addr k8 (L a) addr" if "a \<in> win" for a
    using t [OF that] by (simp add: page_desc_addr_def)
  have lf: "search_like (leaf a (L a) (L a1 OR L a2)) (leaf a (L' a) (L' a1 OR L' a2))" if "a \<in> win" "a1 \<in> win" "a2 \<in> win" for a a1 a2
    using t [OF that(1)] t [OF that(1), of 4] w [OF that(2,3)] assms(1) that(1)
    by (auto simp: leaf_def touched_def bit.conj_disj_distrib2)
  have sp: "\<not> fst (search_page L win a (L a1 OR L a2)) \<Longrightarrow> \<not> fst (search_page L' win a (L' a1 OR L' a2)) \<and>
      search_like (snd (search_page L win a (L a1 OR L a2))) (snd (search_page L' win a (L' a1 OR L' a2)))"
    if "a1 \<in> win" "a2 \<in> win" for a a1 a2
    using t lf [OF _ that] by (auto simp: search_page_def Let_def split: if_splits)
  define a1 where "a1 = (root AND 0xfffffe00) OR root_index addr"
  define a2 where "a2 = (L a1 AND 0xfffffe00) OR ptr_index addr"
  have a2: "(L' a1 AND 0xfffffe00) OR ptr_index addr = a2" if "a1 \<in> win" using t [OF that, of "0xfffffe00"] by (simp add: a2_def)
  consider "a1 \<notin> win" | "a1 \<in> win" "L a1 AND 2 = 0" | "a1 \<in> win" "L a1 AND 2 \<noteq> 0" "a2 \<notin> win"
    | "a1 \<in> win" "L a1 AND 2 \<noteq> 0" "a2 \<in> win" "L a2 AND 2 = 0" | (page) "a1 \<in> win" "L a1 AND 2 \<noteq> 0" "a2 \<in> win" "L a2 AND 2 \<noteq> 0" by blast
  then show ?thesis
  proof cases
    case page
    then have "search L win k8 root addr = search_page L win (page_desc_addr k8 (L a2) addr) (L a1 OR L a2)"
      "search L' win k8 root addr = search_page L' win (page_desc_addr k8 (L a2) addr) (L' a1 OR L' a2)"
      using t [OF page(1), of 2] t [OF page(3), of 2] a2 pd [OF page(3)]
      by (simp_all add: search_def Let_def flip: a1_def a2_def)
    then show ?thesis using sp [OF page(1,3)] assms(2) by simp
  qed (use t [of a1 2] t [of a2 2] a2 in \<open>simp_all add: search_def Let_def flip: a1_def a2_def\<close>)
qed

section \<open>The walk finds what the specification finds\<close>

definition aligned4 :: "u32 \<Rightarrow> bool" where
  "aligned4 a \<longleftrightarrow> a AND 3 = 0"

lemma desc_addrs_aligned:
  "aligned4 ((x AND 0xfffffe00) OR root_index a)" "aligned4 ((x AND 0xfffffe00) OR ptr_index a)"
  "aligned4 (page_desc_addr k8 x a)" "aligned4 (x AND 0xfffffffc)"
proof -
  have z: "(x AND m) AND 3 = 0" if "m AND 3 = 0" for x m :: u32 using that by (metis and.assoc and_zero_eq)
  show "aligned4 ((x AND 0xfffffe00) OR root_index a)" "aligned4 ((x AND 0xfffffe00) OR ptr_index a)" "aligned4 (x AND 0xfffffffc)"
    using z [of "0xfffffe00"] z [of "0x1fc"] z [of "0xfffffffc"]
    by (simp_all add: aligned4_def root_index_def ptr_index_def bit.conj_disj_distrib2)
  have "(x AND 0xffffff80) + (y AND 0x7c) = (x AND 0xffffff80) OR (y AND 0x7c)" "(x AND 0xffffff00) + (y AND 0xfc) = (x AND 0xffffff00) OR (y AND 0xfc)" for y
    by (rule disjunctive_add_eq_or, simp add: and.left_commute and.assoc)+
  then show "aligned4 (page_desc_addr k8 x a)"
    using z [of "0xffffff80"] z [of "0xffffff00"] z [of "0x7c"] z [of "0xfc"]
    by (simp add: aligned4_def page_desc_addr_def bit.conj_disj_distrib2)
qed

definition marked :: "u32 \<Rightarrow> bool \<Rightarrow> bool \<Rightarrow> u32 \<Rightarrow> u32" where
  "marked d super wr w = (if wr \<and> allowed super wr d w then d OR 0x18 else d OR 8)"

text \<open>Everything but the memory and the cache mode of the last access\<close>

definition rest :: "'m mmu \<Rightarrow> 'm mmu" where
  "rest s = s\<lparr>mem := undefined, mmu_cache_state := 0\<rparr>"

lemma rest_update [simp]: "rest (s\<lparr>mem := m\<rparr>) = rest s" "rest (s\<lparr>mmu_cache_state := c\<rparr>) = rest s"
  by (simp_all add: rest_def)

lemma rest_fields:
  assumes "rest s' = rest s"
  shows "urp s' = urp s" "srp s' = srp s" "mmu_pagesize_8k s' = mmu_pagesize_8k s" "mmu_atc_array s' = mmu_atc_array s"
    "mmu_atc_ways s' = mmu_atc_ways s" "way_random s' = way_random s" "atc_last_ins_laddr s' = atc_last_ins_laddr s"
    "atc_last_ins_paddr s' = atc_last_ins_paddr s" "atc_data_cache_read s' = atc_data_cache_read s"
    "atc_data_cache_write s' = atc_data_cache_write s" "mmu_enabled s' = mmu_enabled s" "regs_s s' = regs_s s"
proof -
  show "urp s' = urp s" "srp s' = srp s" "mmu_pagesize_8k s' = mmu_pagesize_8k s" "mmu_atc_array s' = mmu_atc_array s"
    "mmu_atc_ways s' = mmu_atc_ways s" "way_random s' = way_random s" "atc_last_ins_laddr s' = atc_last_ins_laddr s"
    "atc_last_ins_paddr s' = atc_last_ins_paddr s" "atc_data_cache_read s' = atc_data_cache_read s"
    "atc_data_cache_write s' = atc_data_cache_write s" "mmu_enabled s' = mmu_enabled s" "regs_s s' = regs_s s"
    using assms unfolding rest_def by (cases s; cases s'; simp)+
qed

text \<open>What the walk returns for the result of a search\<close>

definition outcome :: "search \<Rightarrow> bool \<Rightarrow> bool \<Rightarrow> 'm mmu \<Rightarrow> 'm mmu + (u32 \<times> u32) \<times> 'm mmu" where
  "outcome r super wr s =
     (case r of Table_error \<Rightarrow> Inl s | No_page e \<Rightarrow> Inr ((0, e), s) | Page a d w \<Rightarrow> Inr ((marked d super wr w OR w, 0), s))"

locale table_memory =
  fixes b :: "'m bus040"
    and long :: "'m \<Rightarrow> u32 \<Rightarrow> u32"
    and ok :: "'m \<Rightarrow> bool"
    and win :: "u32 set"
  assumes get_in: "ok m \<Longrightarrow> a \<in> win \<Longrightarrow> phys_get b m a = Some (long m a, m)"
    and get_out: "ok m \<Longrightarrow> aligned4 a \<Longrightarrow> a \<notin> win \<Longrightarrow> phys_get b m a = None"
    and put_in: "ok m \<Longrightarrow> a \<in> win \<Longrightarrow> \<exists>m'. phys_put b m a v = Some m' \<and> ok m' \<and> (\<forall>c\<in>win. long m' c = (if c = a then v else long m c))"
begin

text \<open>What a walk may change: history bits in memory, and the cache mode of the last access\<close>

definition walks :: "'m mmu \<Rightarrow> 'm mmu \<Rightarrow> bool" where
  "walks s s' \<longleftrightarrow> ok (mem s') \<and> touched win (long (mem s)) (long (mem s')) \<and> rest s' = rest s"

lemma walks_trans: "walks s s' \<Longrightarrow> walks s' s'' \<Longrightarrow> walks s s''"
  unfolding walks_def using touched_trans by metis

lemma desc_get:
  assumes "ok (mem s)" "aligned4 a"
  shows "\<exists>s'. walks s s' \<and> mem s' = mem s \<and> desc_get_long b a s = (if a \<in> win then Inr (long (mem s) a, s') else Inl s')"
  using get_in [OF assms(1), of a] get_out [OF assms]
  by (intro exI [of _ "s\<lparr>mmu_cache_state := ce_cachable b (drop_bit 16 a) OR CACHE_DISABLE_ALLOCATE\<rparr>"])
    (auto simp: desc_get_long_def Let_def walks_def assms(1))

lemma desc_put:
  assumes "ok (mem s)" "a \<in> win" "v = long (mem s) a OR x" "history x"
  shows "\<exists>s'. walks s s' \<and> long (mem s') a = v \<and> desc_put_long b a v s = Inr s'"
proof -
  obtain m' where m: "phys_put b (mem s) a v = Some m'" "ok m'" "\<forall>c\<in>win. long m' c = (if c = a then v else long (mem s) c)"
    using put_in [OF assms(1,2)] by blast
  have h: "history 0" by (simp add: history_def)
  have "touched win (long (mem s)) (long m')"
    unfolding touched_def using m(3) assms(3,4) h by (metis or.right_neutral)
  then show ?thesis using m assms(2)
    by (intro exI [of _ "s\<lparr>mmu_cache_state := CACHE_DISABLE_MMU, mem := m'\<rparr>"]) (auto simp: desc_put_long_def Let_def walks_def)
qed

lemma mark_used_walks:
  assumes "ok (mem s)" "a \<in> win" "d = long (mem s) a"
  shows "\<exists>s'. walks s s' \<and> mark_used b a d s = Inr s'"
proof (cases "d AND 8 = 0")
  case True
  have "history 8" by (simp add: history_def)
  from desc_put [OF assms(1,2) _ this, of "d OR 8"] show ?thesis using True assms(3) by (auto simp: mark_used_def)
next
  case False
  then show ?thesis using assms(1) by (auto simp: mark_used_def walks_def)
qed

lemma mark_page_walks:
  assumes "ok (mem s)" "a \<in> win" "d = long (mem s) a" "w = wp AND 4"
  shows "\<exists>s'. walks s s' \<and> long (mem s') a = marked d super wr w \<and> mark_page b a d wp super wr s = Inr (marked d super wr w, s')"
proof -
  let ?n = "marked d super wr w"
  have n: "(if wr then if wp AND MMU_DES_WP \<noteq> 0 \<or> d AND MMU_DES_SUPER \<noteq> 0 \<and> \<not> super then d OR MMU_DES_USED
      else d OR (MMU_DES_USED OR MMU_DES_MODIFIED) else d OR MMU_DES_USED) = ?n"
    using assms(4) by (auto simp: marked_def allowed_def)
  obtain x where x: "history x" "?n = d OR x" "x = 8 \<or> x = 0x18"
  proof (cases "wr \<and> allowed super wr d w")
    case True
    then have "?n = d OR 0x18" unfolding marked_def by (rule if_P)
    then show ?thesis by (rule that [rotated]) (simp_all add: history_def)
  next
    case False
    then have "?n = d OR 8" unfolding marked_def by (rule if_not_P)
    then show ?thesis by (rule that [rotated]) (simp_all add: history_def)
  qed
  have e: "mark_page b a d wp super wr s = (if ?n \<noteq> d then bindE (desc_put_long b a ?n s) (\<lambda>s. Inr (?n, s)) else Inr (d, s))"
    unfolding mark_page_def n Let_def by (rule refl)
  show ?thesis
  proof (cases "?n = d")
    case True
    then have "mark_page b a d wp super wr s = Inr (?n, s)" using e by simp
    then show ?thesis using assms(1,3) True by (intro exI [of _ s]) (simp add: walks_def)
  next
    case False
    from desc_put [OF assms(1,2) x(2) [unfolded assms(3)] x(1)] obtain s' where
      "walks s s'" "long (mem s') a = ?n" "desc_put_long b a ?n s = Inr s'" unfolding assms(3) by blast
    then show ?thesis using False by (auto simp: e bindE_def)
  qed
qed

definition page_marked :: "search \<Rightarrow> bool \<Rightarrow> bool \<Rightarrow> 'm mmu \<Rightarrow> bool" where
  "page_marked r super wr s \<longleftrightarrow> (\<forall>c d w. r = Page c d w \<longrightarrow> c \<in> win \<and> long (mem s) c = marked d super wr w)"

lemma leaf_walks:
  assumes "ok (mem s)" "c \<in> win" "d = long (mem s) c"
  shows "\<exists>s'. walks s s' \<and> page_marked (leaf c d wp) super wr s' \<and>
    (if d AND 1 = 1 then let wp = wp OR d in bindE (mark_page b c d wp super wr s) (\<lambda>(desc, s). Inr ((desc OR (wp AND MMU_DES_WP), 0), s))
     else Inr ((0, if d AND 3 = 2 then MMU_FSLW_IL else MMU_FSLW_PF), s)) = outcome (leaf c d wp) super wr s'"
proof (cases "d AND 1 = 1")
  case True
  from mark_page_walks [OF assms refl, where wp = "wp OR d" and super = super and wr = wr]
  obtain s' where "walks s s'" "long (mem s') c = marked d super wr ((wp OR d) AND 4)"
    "mark_page b c d (wp OR d) super wr s = Inr (marked d super wr ((wp OR d) AND 4), s')" by blast
  then show ?thesis using True assms(2) by (auto simp: leaf_def outcome_def bindE_def page_marked_def Let_def)
next
  case False
  then show ?thesis using assms(1) by (intro exI [of _ s]) (auto simp: leaf_def outcome_def page_marked_def walks_def)
qed

lemma page_level_walks:
  assumes "ok (mem s)" "aligned4 a"
  shows "\<exists>s'. walks s s' \<and> page_marked (snd (search_page (long (mem s)) win a wp)) super wr s' \<and>
    page_level b a wp super wr s = outcome (snd (search_page (long (mem s)) win a wp)) super wr s'"
proof -
  let ?L = "long (mem s)"
  obtain s1 where s1: "walks s s1" "mem s1 = mem s" "desc_get_long b a s = (if a \<in> win then Inr (?L a, s1) else Inl s1)"
    using desc_get [OF assms] by blast
  have ok1: "ok (mem s1)" using s1(2) assms(1) by simp
  consider (out) "a \<notin> win" | (dir) "a \<in> win" "?L a AND 3 \<noteq> 2" | (ind) "a \<in> win" "?L a AND 3 = 2" by blast
  then show ?thesis
  proof cases
    case out
    then show ?thesis using s1 by (auto simp: page_level_def bindE_def search_page_def outcome_def page_marked_def)
  next
    case dir
    from leaf_walks [OF ok1 dir(1) refl, of wp super wr] obtain s' where s': "walks s1 s'" "page_marked (leaf a (?L a) wp) super wr s'"
      "(if ?L a AND 1 = 1 then let wp = wp OR ?L a in bindE (mark_page b a (?L a) wp super wr s1) (\<lambda>(desc, s). Inr ((desc OR (wp AND MMU_DES_WP), 0), s))
        else Inr ((0, if ?L a AND 3 = 2 then MMU_FSLW_IL else MMU_FSLW_PF), s1)) = outcome (leaf a (?L a) wp) super wr s'" unfolding s1(2) by blast
    have "search_page ?L win a wp = (False, leaf a (?L a) wp)" using dir by (simp add: search_page_def)
    then show ?thesis using s1(3) dir s' walks_trans [OF s1(1) s'(1)] by (auto simp: page_level_def bindE_def)
  next
    case ind
    define c where "c = ?L a AND 0xfffffffc"
    obtain s2 where s2: "walks s1 s2" "mem s2 = mem s1" "desc_get_long b c s1 = (if c \<in> win then Inr (long (mem s1) c, s2) else Inl s2)"
      using desc_get [OF ok1, of c] desc_addrs_aligned(4) unfolding c_def by blast
    have ok2: "ok (mem s2)" using s2(2) ok1 by simp
    show ?thesis
    proof (cases "c \<in> win")
      case False
      then show ?thesis using s1 s2 ind walks_trans [OF s1(1) s2(1)]
        by (auto simp: page_level_def bindE_def search_page_def outcome_def page_marked_def c_def Let_def)
    next
      case True
      from leaf_walks [OF ok2 True refl, of wp super wr] obtain s' where s': "walks s2 s'" "page_marked (leaf c (?L c) wp) super wr s'"
        "(if ?L c AND 1 = 1 then let wp = wp OR ?L c in bindE (mark_page b c (?L c) wp super wr s2) (\<lambda>(desc, s). Inr ((desc OR (wp AND MMU_DES_WP), 0), s))
          else Inr ((0, if ?L c AND 3 = 2 then MMU_FSLW_IL else MMU_FSLW_PF), s2)) = outcome (leaf c (?L c) wp) super wr s'"
        unfolding s1(2) s2(2) by blast
      have "search_page ?L win a wp = (True, leaf c (?L c) wp)" using ind True by (simp add: search_page_def c_def Let_def)
      then show ?thesis using s1(2,3) s2(2,3) ind True s' walks_trans [OF s1(1) walks_trans [OF s2(1) s'(1)]]
        by (auto simp: page_level_def bindE_def Let_def c_def [symmetric])
    qed
  qed
qed

text \<open>The walk as a whole: what it finds is in memory \<open>m\<close>, between the start and the end\<close>

lemma table_search_walks:
  assumes "ok (mem s)"
  shows "\<exists>L s'. walks s s' \<and> touched win (long (mem s)) L \<and> touched win L (long (mem s')) \<and>
    (let r = snd (search L win (mmu_pagesize_8k s) (if super then srp s else urp s) addr)
     in page_marked r super wr s' \<and> table_search b addr super wr s = outcome r super wr s')"
proof -
  let ?root = "if super then srp s else urp s" and ?k = "mmu_pagesize_8k s"
  define a1 where "a1 = (?root AND 0xfffffe00) OR root_index addr"
  obtain s1 where s1: "walks s s1" "mem s1 = mem s" "desc_get_long b a1 s = (if a1 \<in> win then Inr (long (mem s) a1, s1) else Inl s1)"
    using desc_get [OF assms, of a1] desc_addrs_aligned(1) unfolding a1_def by blast
  define d1 where "d1 = long (mem s) a1"
  have t1: "table_search b addr super wr s = (if a1 \<notin> win then Inl s1 else if d1 AND 2 = 0 then Inr ((0, MMU_FSLW_PTA), s1)
      else bindE (mark_used b a1 d1 s1) (\<lambda>s. let a2 = (d1 AND 0xfffffe00) OR ptr_index addr
        in bindE (desc_get_long b a2 s) (\<lambda>(d2, s). if d2 AND 2 = 0 then Inr ((0, MMU_FSLW_PTB), s)
           else bindE (mark_used b a2 d2 s) (\<lambda>s. page_level b (page_desc_addr (mmu_pagesize_8k s) d2 addr) (d1 OR d2) super wr s))))"
    unfolding table_search_def Let_def a1_def [symmetric] s1(3) d1_def [symmetric] by (simp add: bindE_def)
  consider "a1 \<notin> win" | "a1 \<in> win" "d1 AND 2 = 0" | (deep) "a1 \<in> win" "d1 AND 2 \<noteq> 0" by blast
  then show ?thesis
  proof cases
    case deep
    have "ok (mem s1)" using s1(2) assms by simp
    from mark_used_walks [OF this deep(1), of d1] obtain s2 where s2: "walks s1 s2" "mark_used b a1 d1 s1 = Inr s2"
      unfolding d1_def s1(2) by blast
    define a2 where "a2 = (d1 AND 0xfffffe00) OR ptr_index addr"
    have ok2: "ok (mem s2)" and w2: "walks s s2" using s2(1) walks_trans [OF s1(1) s2(1)] by (simp_all add: walks_def)
    have t2: "touched win (long (mem s)) (long (mem s2))" using w2 by (simp add: walks_def)
    obtain s3 where s3: "walks s2 s3" "mem s3 = mem s2" "desc_get_long b a2 s2 = (if a2 \<in> win then Inr (long (mem s2) a2, s3) else Inl s3)"
      using desc_get [OF ok2, of a2] desc_addrs_aligned(2) unfolding a2_def by blast
    define d2 where "d2 = long (mem s2) a2"
    have d1: "long m a1 AND M = d1 AND M" if "touched win (long (mem s)) (long m)" "M AND 0x18 = 0" for m M
      using that deep(1) history_mask by (fastforce simp: touched_def d1_def)
    have w3: "walks s s3" by (rule walks_trans [OF w2 s3(1)])
    consider (stop) "a2 \<notin> win \<or> d2 AND 2 = 0" | (page) "a2 \<in> win" "d2 AND 2 \<noteq> 0" by blast
    then show ?thesis
    proof cases
      case stop
      define r where "r = (if a2 \<notin> win then Table_error else No_page MMU_FSLW_PTB)"
      have "snd (search (long (mem s2)) win ?k ?root addr) = r"
        using deep stop d1 [OF t2, of 2] d1 [OF t2, of "0xfffffe00"]
        by (auto simp: search_def Let_def a1_def [symmetric] a2_def [symmetric] d2_def [symmetric] r_def)
      moreover have "table_search b addr super wr s = outcome r super wr s3"
        unfolding t1 using deep stop s2(2) s3(3) by (auto simp: bindE_def Let_def a2_def [symmetric] d2_def [symmetric] outcome_def r_def)
      moreover have "page_marked r super wr s3" by (simp add: page_marked_def r_def)
      ultimately show ?thesis using w3 t2 s3(2) by (intro exI [of _ "long (mem s2)"] exI [of _ s3]) (simp add: Let_def)
    next
      case page
      have "ok (mem s3)" using s3(2) ok2 by simp
      from mark_used_walks [OF this page(1), of d2] obtain s4 where s4: "walks s3 s4" "mark_used b a2 d2 s3 = Inr s4"
        unfolding d2_def s3(2) by blast
      have ok4: "ok (mem s4)" and w4: "walks s s4" using s4(1) walks_trans [OF w3 s4(1)] by (simp_all add: walks_def)
      have t4: "touched win (long (mem s)) (long (mem s4))" "touched win (long (mem s2)) (long (mem s4))"
        using w4 s4(1) s3(2) by (simp_all add: walks_def)
      have d2: "long (mem s4) a2 AND M = d2 AND M" if "M AND 0x18 = 0" for M
        using t4(2) that page(1) history_mask by (fastforce simp: touched_def d2_def)
      let ?a3 = "page_desc_addr ?k d2 addr"
      obtain s5 where s5: "walks s4 s5" "page_marked (snd (search_page (long (mem s4)) win ?a3 (d1 OR d2))) super wr s5"
        "page_level b ?a3 (d1 OR d2) super wr s4 = outcome (snd (search_page (long (mem s4)) win ?a3 (d1 OR d2))) super wr s5"
        using page_level_walks [OF ok4 desc_addrs_aligned(3)] by blast
      have k: "mmu_pagesize_8k s4 = ?k" using w4 rest_fields(3) [of s4 s] by (simp add: walks_def)
      have "search_page (long (mem s4)) win ?a3 (d1 OR d2) = search_page (long (mem s4)) win ?a3 (long (mem s4) a1 OR long (mem s4) a2)"
        using d1 [OF t4(1), of 4] d2 [of 4] by (simp add: search_page_def leaf_def bit.conj_disj_distrib2 Let_def)
      moreover have "page_desc_addr ?k (long (mem s4) a2) addr = ?a3" using d2 by (simp add: page_desc_addr_def)
      ultimately have "search (long (mem s4)) win ?k ?root addr = search_page (long (mem s4)) win ?a3 (d1 OR d2)"
        using deep page d1 [OF t4(1), of 2] d1 [OF t4(1), of "0xfffffe00"] d2 [of 2]
        by (simp add: search_def Let_def a1_def [symmetric] a2_def [symmetric])
      moreover have "table_search b addr super wr s = page_level b ?a3 (d1 OR d2) super wr s4"
        unfolding t1 using deep page s2(2) s3(3) s4(2) k by (simp add: bindE_def Let_def a2_def [symmetric] d2_def [symmetric])
      ultimately show ?thesis using s5 w4 t4 walks_trans [OF w4 s5(1)]
        by (intro exI [of _ "long (mem s4)"] exI [of _ s5]) (simp add: Let_def walks_def)
    qed
  qed (use s1 t1 in \<open>auto intro!: exI [of _ "long (mem s)"] exI [of _ s1] simp: search_def Let_def a1_def [symmetric] d1_def [symmetric]
      outcome_def page_marked_def\<close>)
qed

end

end
