(* ===== verification/MmuCache.thy ===== *)
theory MmuCache
  imports MmuWalk
begin

unbundle bit_operations_syntax

text \<open>
  The caches of the memory management unit against the tables: the invariant of the address translation
  cache and of the page caches, that a table search keeps it and what it writes, that a translation
  answers as the tables do, and that it always returns. The invariant is stated in the locale
  \<open>table_memory\<close>.
\<close>

section \<open>What the caches hold\<close>

text \<open>The part of the state the caches depend on\<close>

definition view :: "'m mmu \<Rightarrow> _" where
  "view s = ((urp s, srp s, mmu_pagesize_8k s, mmu_enabled s, regs_s s), mmu_atc_array s, atc_data_cache_read s, atc_data_cache_write s,
     atc_last_ins_laddr s, atc_last_ins_paddr s, mem s)"

definition same :: "'m mmu \<Rightarrow> 'm mmu \<Rightarrow> bool" where
  "same s s' \<longleftrightarrow> urp s' = urp s \<and> srp s' = srp s \<and> mmu_pagesize_8k s' = mmu_pagesize_8k s \<and> mmu_enabled s' = mmu_enabled s \<and> regs_s s' = regs_s s"

lemma same_refl [simp]: "same s s" and same_trans: "same s s' \<Longrightarrow> same s' s'' \<Longrightarrow> same s s''"
  by (simp_all add: same_def)

lemma view_same: "view s' = view s \<Longrightarrow> same s s'"
  by (simp add: view_def same_def)

lemma view_updates [simp]:
  "view (s\<lparr>mmu_cache_state := c\<rparr>) = view s" "view (s\<lparr>way_random := n\<rparr>) = view s" "view (s\<lparr>mmu_atc_ways := f\<rparr>) = view s"
  by (simp_all add: view_def)

lemma view_Let: "(\<And>x. view (f x) = v) \<Longrightarrow> view (Let a f) = v"
  by (simp add: Let_def)

lemma view_Let_pair: "view (snd a) = v \<Longrightarrow> (\<And>x t. view t = v \<Longrightarrow> view (f x t) = v) \<Longrightarrow> view (Let a (\<lambda>(x, t). f x t)) = v"
  by (cases a) simp

lemma view_Let_any: "(\<And>x y. view (f x y) = v) \<Longrightarrow> view (Let a (\<lambda>(x, y). f x y)) = v"
  by (cases a) simp

lemma view_Let_state: "view a = v \<Longrightarrow> (\<And>t. view t = v \<Longrightarrow> view (f t) = v) \<Longrightarrow> view (Let a f) = v"
  by (simp add: Let_def)

lemma view_fault_fields [simp]:
  "view (s\<lparr>mmu_ssw := a\<rparr>) = view s" "view (s\<lparr>mmu_fslw := b\<rparr>) = view s" "view (s\<lparr>mmu_effective_addr := b\<rparr>) = view s"
  "view (s\<lparr>wb2_status := a\<rparr>) = view s" "view (s\<lparr>wb2_address := b\<rparr>) = view s" "view (s\<lparr>wb3_status := a\<rparr>) = view s"
  "view (s\<lparr>wb3_data := b\<rparr>) = view s" "view (s\<lparr>mmu040_movem := c\<rparr>) = view s" "view (s\<lparr>ismoves := c\<rparr>) = view s"
  "view (s\<lparr>rmw_cycle := c\<rparr>) = view s" "view (s\<lparr>locked_rmw_cycle := c\<rparr>) = view s" "view (s\<lparr>mmu_fault_addr := b\<rparr>) = view s"
  "view (s\<lparr>cache_default_data := d\<rparr>) = view s"
  by (simp_all add: view_def)

lemma view_bus_error_040: "view (bus_error_040 val fc wr sz nonmmu s) = view s"
  unfolding bus_error_040_def
  by (rule view_Let_any, rule view_Let, rule view_Let, rule view_Let_state, simp, rule view_Let, rule view_Let_pair, simp add: Let_def,
      rule view_Let_pair, simp, rule view_Let, rule view_Let, simp)

lemma view_bus_error [simp]: "view (mmu_bus_error p addr val fc wr sz status060 nonmmu s) = view s"
  unfolding mmu_bus_error_def
  by (rule view_Let_pair) (simp_all add: view_bus_error_040 bus_error_060_def Let_def case_prod_beta)

lemma view_do_match [simp]: "view (snd (mmu_do_match_ttr ttr addr su s)) = view s"
  by (simp add: mmu_do_match_ttr_def Let_def)

lemma view_match_two [simp]: "view (snd (match_two t0 t1 addr su s)) = view s"
  by (simp add: match_two_def Let_def case_prod_beta)

lemma view_match [simp]:
  "view (snd (mmu_match_ttr addr su dt s)) = view s" "view (snd (mmu_match_ttr_ins addr su s)) = view s"
  by (simp_all add: mmu_match_ttr_def mmu_match_ttr_ins_def)

lemma masks_same: "same s s' \<Longrightarrow> mmu_pagemask s' = mmu_pagemask s \<and> mmu_pagemaski s' = mmu_pagemaski s \<and>
    atc_tag a su s' = atc_tag a su s \<and> atc_index a s' = atc_index a s \<and> page_idx a su s' = page_idx a su s"
  by (simp add: same_def mmu_pagemask_def mmu_pagemaski_def atc_tag_def mmu_tagmask_def atc_index_def page_idx_def mmu_pageshift1m_def)

definition look :: "(u32 \<Rightarrow> u32) \<Rightarrow> u32 set \<Rightarrow> bool \<Rightarrow> u32 \<Rightarrow> 'm mmu \<Rightarrow> bool \<times> search" where
  "look L win su addr s = search L win (mmu_pagesize_8k s) (if su then srp s else urp s) addr"

lemma look_same: "same s s' \<Longrightarrow> look L win su addr s' = look L win su addr s"
  by (simp add: look_def same_def)

text \<open>What a search knows of the descriptor it ends with\<close>

lemma search_page_facts:
  assumes "snd (search L win k8 root addr) = Page a d w"
  shows "d AND 1 = 1 \<and> (d OR w) AND 4 = w \<and> w AND 4 = w \<and> a \<in> win"
proof -
  have l: "d AND 1 = 1 \<and> (d OR w) AND 4 = w \<and> w AND 4 = w \<and> c \<in> win" if "leaf c x wp = Page a d w" "c \<in> win" for c x wp
    using that by (auto simp: leaf_def bit.conj_disj_distrib2 or.commute or.left_commute split: if_splits)
  have "\<exists>c x wp. leaf c x wp = Page a d w \<and> c \<in> win \<and> c = a"
    using assms by (auto simp: search_def search_page_def leaf_def Let_def split: if_splits)
  then show ?thesis using l by blast
qed

lemma marked_facts:
  shows "\<exists>x. history x \<and> marked d su wr w = d OR x" "marked d su wr w AND 8 = 8"
    "allowed su wr d w \<Longrightarrow> wr \<Longrightarrow> marked d su wr w AND 0x10 = 0x10"
  by (auto simp: marked_def history_def bit.conj_disj_distrib2 intro: exI [of _ 8] exI [of _ "0x18"])

lemma and_pow: "x AND 2 ^ n \<noteq> 0 \<Longrightarrow> x AND 2 ^ n = 2 ^ n" for x :: u32
proof -
  assume "x AND 2 ^ n \<noteq> 0"
  then have "bit x n" by (simp add: and_exp_eq_0_iff_not_bit)
  then show ?thesis by (intro bit_eqI) (auto simp: bit_and_iff bit_exp_iff)
qed

lemma both_bits: "x AND 8 = 8 \<Longrightarrow> x AND 0x10 \<noteq> 0 \<Longrightarrow> x AND 0x18 = 0x18" for x :: u32
proof -
  assume a: "x AND 8 = 8" "x AND 0x10 \<noteq> 0"
  have "x AND (8 OR 0x10) = 8 OR 0x10" unfolding bit.conj_disj_distrib a(1) using and_pow [of x 4] a(2) by simp
  then show ?thesis by simp
qed

context table_memory begin

text \<open>
  An entry of the translation cache and one of the page caches, for a page that is found without an indirect
  descriptor in the tables \<open>L\<close>. A cached permission to write implies the modified bit in memory.
\<close>

definition line_ok :: "(u32 \<Rightarrow> u32) \<Rightarrow> 'm mmu \<Rightarrow> bool \<Rightarrow> u32 \<Rightarrow> mmu_atc_line \<Rightarrow> bool" where
  "line_ok L s su addr l \<longleftrightarrow> \<not> fst (look L win su addr s) \<longrightarrow>
     (case snd (look L win su addr s) of
        Page a d w \<Rightarrow> l_status l AND 0x85 = (d OR w) AND 0x85 \<and> l_phys l = d AND mmu_pagemaski s \<and>
          (l_status l AND 0x10 \<noteq> 0 \<longrightarrow> long (mem s) a AND 0x18 = 0x18)
      | _ \<Rightarrow> l_status l AND 1 = 0)"

definition hit_ok :: "(u32 \<Rightarrow> u32) \<Rightarrow> 'm mmu \<Rightarrow> bool \<Rightarrow> bool \<Rightarrow> u32 \<Rightarrow> u32 \<Rightarrow> bool" where
  "hit_ok L s su wr addr phys \<longleftrightarrow> \<not> fst (look L win su addr s) \<longrightarrow>
     (\<exists>a d w. snd (look L win su addr s) = Page a d w \<and> allowed su wr d w \<and> phys = d AND mmu_pagemaski s \<and>
        (wr \<longrightarrow> long (mem s) a AND 0x18 = 0x18))"

definition page_ok :: "(u32 \<Rightarrow> u32) \<Rightarrow> 'm mmu \<Rightarrow> bool \<Rightarrow> mmufastcache \<Rightarrow> bool" where
  "page_ok L s wr e \<longleftrightarrow> fc_log e = 0xffffffff \<or> (\<exists>su addr. fc_log e = page_idx addr su s \<and> hit_ok L s su wr addr (fc_phys e))"

definition ins_ok :: "(u32 \<Rightarrow> u32) \<Rightarrow> 'm mmu \<Rightarrow> bool" where
  "ins_ok L s \<longleftrightarrow> atc_last_ins_laddr s = mmu_pagemask s \<or>
     (\<exists>su addr. atc_last_ins_laddr s = (addr AND mmu_pagemaski s) OR (if su then 1 else 0) \<and> hit_ok L s su False addr (atc_last_ins_paddr s))"

definition cache_ok :: "(u32 \<Rightarrow> u32) \<Rightarrow> 'm mmu \<Rightarrow> nat \<Rightarrow> mmu_atc_line \<Rightarrow> bool" where
  "cache_ok L s i l \<longleftrightarrow> l_valid l \<longrightarrow> (\<exists>su addr. l_tag l = atc_tag addr su s \<and> i = atc_index addr s \<and> line_ok L s su addr l)"

definition mmu_inv :: "(u32 \<Rightarrow> u32) \<Rightarrow> 'm mmu \<Rightarrow> bool" where
  "mmu_inv L s \<longleftrightarrow> ok (mem s) \<and> touched win L (long (mem s)) \<and> (\<forall>dt i w. cache_ok L s i (mmu_atc_array s dt i w)) \<and>
     (\<forall>j. page_ok L s False (atc_data_cache_read s j)) \<and> (\<forall>j. page_ok L s True (atc_data_cache_write s j)) \<and> ins_ok L s"

lemma bits_stay: "touched win (long (mem s)) (long (mem s')) \<Longrightarrow> a \<in> win \<Longrightarrow> long (mem s) a AND 0x18 = 0x18 \<Longrightarrow> long (mem s') a AND 0x18 = 0x18"
proof -
  assume t: "touched win (long (mem s)) (long (mem s'))" "a \<in> win" and b: "long (mem s) a AND 0x18 = 0x18"
  then obtain x where x: "long (mem s') a = long (mem s) a OR x" by (auto simp: touched_def)
  have "c OR (x AND c) = c" for c by (rule bit_eqI) (auto simp: bit_simps)
  then show "long (mem s') a AND 0x18 = 0x18" unfolding x bit.conj_disj_distrib2 b .
qed

lemma ok_mono:
  assumes "same s s'" "touched win (long (mem s)) (long (mem s'))"
  shows "line_ok L s su addr l \<Longrightarrow> line_ok L s' su addr l" "hit_ok L s su wr addr x \<Longrightarrow> hit_ok L s' su wr addr x"
    "page_ok L s wr e \<Longrightarrow> page_ok L s' wr e" "cache_ok L s i l \<Longrightarrow> cache_ok L s' i l"
    "atc_last_ins_laddr s' = atc_last_ins_laddr s \<Longrightarrow> atc_last_ins_paddr s' = atc_last_ins_paddr s \<Longrightarrow> ins_ok L s \<Longrightarrow> ins_ok L s'"
proof -
  note eq = masks_same [OF assms(1)] look_same [OF assms(1)]
  have stay: "long (mem s) a AND 0x18 = 0x18 \<Longrightarrow> long (mem s') a AND 0x18 = 0x18" if "snd (look L win su addr s) = Page a d w" for su addr a d w
    using bits_stay [OF assms(2)] search_page_facts [of L win _ _ addr a d w] that by (simp add: look_def)
  show line: "line_ok L s' su addr l" if "line_ok L s su addr l" for su addr l
    using that stay [of su addr] by (simp add: line_ok_def eq split: search.splits)
  show hit: "hit_ok L s' su wr addr x" if "hit_ok L s su wr addr x" for su wr addr x
    using that stay [of su addr] by (simp add: hit_ok_def eq) blast
  show "page_ok L s' wr e" if "page_ok L s wr e"
    using that unfolding page_ok_def by (simp only: eq) (use hit in blast)
  show "cache_ok L s' i l" if "cache_ok L s i l"
    using that unfolding cache_ok_def by (simp only: eq) (use line in blast)
  show "ins_ok L s'" if "atc_last_ins_laddr s' = atc_last_ins_laddr s" "atc_last_ins_paddr s' = atc_last_ins_paddr s" "ins_ok L s"
    using that unfolding ins_ok_def by (simp only: eq) (use hit in blast)
qed

lemma mmu_inv_view:
  assumes "view s' = view s"
  shows "mmu_inv L s' = mmu_inv L s"
proof -
  have "mmu_inv L t \<Longrightarrow> view t' = view t \<Longrightarrow> mmu_inv L t'" for t t'
    using ok_mono(3-5) [of t t'] view_same [of t' t] by (simp add: mmu_inv_def view_def)
  then show ?thesis using assms by metis
qed

lemma mmu_inv_walks:
  assumes "mmu_inv L s" "walks s s'"
  shows "mmu_inv L s' \<and> same s s'"
proof -
  have w: "ok (mem s')" "touched win (long (mem s)) (long (mem s'))" "rest s' = rest s" using assms(2) by (simp_all add: walks_def)
  note f = rest_fields [OF w(3)]
  have same: "same s s'" using f by (simp add: same_def)
  then show ?thesis
    using assms(1) w(1) f ok_mono(3-5) [OF same w(2)] touched_trans [OF _ w(2)] by (simp add: mmu_inv_def)
qed

lemma forget_ok: "page_ok L s wr (c i) \<Longrightarrow> page_ok L s wr (forget idx c i)"
  by (simp add: forget_def page_ok_def)

lemma flush_shortcut_inv:
  assumes "mmu_inv L s"
  shows "mmu_inv L (flush_shortcut_cache addr su s) \<and> same s (flush_shortcut_cache addr su s)"
proof -
  let ?t = "flush_shortcut_cache addr su s"
  have same: "same s ?t" and m: "mem ?t = mem s" and "atc_last_ins_laddr ?t = mmu_pagemask s" "mmu_atc_array ?t = mmu_atc_array s"
    by (simp_all add: flush_shortcut_cache_def Let_def same_def)
  moreover have "page_ok L s False (atc_data_cache_read ?t j)" "page_ok L s True (atc_data_cache_write ?t j)" for j
    using assms by (simp_all add: flush_shortcut_cache_def Let_def mmu_inv_def forget_ok) (simp_all add: page_ok_def no_page_def)
  ultimately show ?thesis
    using assms ok_mono(3,4) [OF same] masks_same [OF same] by (simp add: mmu_inv_def ins_ok_def)
qed

lemma set_line_inv:
  assumes "mmu_inv L s" "cache_ok L s i l"
  shows "mmu_inv L (set_line dt i way l s) \<and> same s (set_line dt i way l s)"
proof -
  let ?t = "set_line dt i way l s"
  have same: "same s ?t" and m: "mem ?t = mem s" "atc_last_ins_laddr ?t = atc_last_ins_laddr s" "atc_last_ins_paddr ?t = atc_last_ins_paddr s"
    "atc_data_cache_read ?t = atc_data_cache_read s" "atc_data_cache_write ?t = atc_data_cache_write s"
    by (simp_all add: set_line_def same_def)
  have "cache_ok L s i' (mmu_atc_array ?t dt' i' w')" for dt' i' w' using assms by (simp add: set_line_def mmu_inv_def)
  then show ?thesis using assms(1) m ok_mono(3-5) [OF same] same by (simp add: mmu_inv_def)
qed

end

text \<open>A line that lets no access of the kind through\<close>

definition blocked :: "bool \<Rightarrow> bool \<Rightarrow> u32 \<Rightarrow> bool" where
  "blocked su wr st \<longleftrightarrow> st AND MMU_MMUSR_W \<noteq> 0 \<and> wr \<or> st AND MMU_MMUSR_S \<noteq> 0 \<and> \<not> su \<or> st AND MMU_MMUSR_R = 0"

lemma and_and_mask: "(M AND N) = N \<Longrightarrow> (x AND M) AND N = x AND N" for x M N :: "'a::len word"
  by (simp add: and.assoc)

lemma entry_bits:
  assumes "d AND 1 = 1" "w AND 4 = w" "(d OR w) AND 4 = w" "D = marked d su wr w OR w"
  shows "M AND 0x18 = 0 \<Longrightarrow> D AND M = (d OR w) AND M" "D AND 0x80 = d AND 0x80" "D AND 4 = w" "D AND 1 = 1"
    "D AND 0x10 = marked d su wr w AND 0x10"
proof -
  obtain x where x: "history x" "marked d su wr w = d OR x" using marked_facts(1) by blast
  have "D = (d OR w) OR x" by (simp add: assms(4) x(2) or.commute or.left_commute)
  then show m: "D AND M = (d OR w) AND M" if "M AND 0x18 = 0" for M using history_mask [OF x(1) that] by simp
  have z: "w AND M = 0" if "4 AND M = 0" for M using assms(2) that by (metis and.assoc and_zero_eq)
  show "D AND 0x80 = d AND 0x80" "D AND 4 = w" "D AND 1 = 1"
    using m [of "0x80"] m [of 4] m [of 1] z [of "0x80"] z [of 1] assms(1,3) by (simp_all add: bit.conj_disj_distrib2)
  show "D AND 0x10 = marked d su wr w AND 0x10" using z [of "0x10"] by (simp add: assms(4) bit.conj_disj_distrib2)
qed

lemma no_page_facts: "snd (search L win k8 root addr) = No_page e \<Longrightarrow> e \<noteq> 0"
  by (auto simp: search_def search_page_def leaf_def Let_def split: if_splits)

context table_memory begin

lemma mmu_inv_regs_s: "mmu_inv L (s\<lparr>regs_s := x\<rparr>) = mmu_inv L s"
proof -
  have "mmu_inv L (t\<lparr>regs_s := x\<rparr>)" if "mmu_inv L t" for t x
  proof -
    have e: "atc_tag a su (t\<lparr>regs_s := x\<rparr>) = atc_tag a su t" "atc_index a (t\<lparr>regs_s := x\<rparr>) = atc_index a t"
      "mmu_pagemaski (t\<lparr>regs_s := x\<rparr>) = mmu_pagemaski t" "mmu_pagemask (t\<lparr>regs_s := x\<rparr>) = mmu_pagemask t"
      "page_idx a su (t\<lparr>regs_s := x\<rparr>) = page_idx a su t" "look L win su a (t\<lparr>regs_s := x\<rparr>) = look L win su a t" for a su
      by (simp_all add: atc_tag_def mmu_tagmask_def atc_index_def mmu_pagemaski_def mmu_pagemask_def page_idx_def mmu_pageshift1m_def look_def)
    then have "line_ok L (t\<lparr>regs_s := x\<rparr>) su a l = line_ok L t su a l" "hit_ok L (t\<lparr>regs_s := x\<rparr>) su wr a y = hit_ok L t su wr a y" for su a l wr y
      by (simp_all add: line_ok_def hit_ok_def cong: search.case_cong)
    then show ?thesis using that by (simp add: mmu_inv_def page_ok_def ins_ok_def cache_ok_def e)
  qed
  from this [of s x] this [of "s\<lparr>regs_s := x\<rparr>" "regs_s s"] show ?thesis by auto
qed

text \<open>The line a search without a bus error writes\<close>

lemma line_written:
  assumes "touched win L K" "r = snd (look K win su addr s)" "page_marked r su wr s" "desc = (case r of Page a d w \<Rightarrow> marked d su wr w OR w | _ \<Rightarrow> 0)"
    and l: "l = \<lparr>l_tag = t, l_valid = True, l_status = desc AND 0x7f5, l_phys = desc AND mmu_pagemaski s\<rparr>"
  shows "line_ok L s su addr l" "wr \<Longrightarrow> blocked su wr (l_status l) \<or> l_status l AND 0x10 \<noteq> 0"
proof -
  have mi: "mmu_pagemaski s AND 0x18 = 0" "mmu_pagemaski s AND 4 = 0" by (simp_all add: mmu_pagemaski_def mmu_pagemask_def)
  have f: "d AND 1 = 1" "w AND 4 = w" "(d OR w) AND 4 = w" "a \<in> win" "long (mem s) a = marked d su wr w" if "r = Page a d w" for a d w
    using search_page_facts [of K win _ _ addr a d w] assms(2,3) that by (auto simp: look_def page_marked_def)
  show "line_ok L s su addr l"
  proof (cases "fst (look L win su addr s)")
    case False
    then have like: "search_like (snd (look L win su addr s)) r"
      using search_touched [OF assms(1)] assms(2) by (simp add: look_def)
    show ?thesis
    proof (cases r)
      case (Page a d w)
      then obtain d0 x where d0: "snd (look L win su addr s) = Page a d0 w" "history x" "d = d0 OR x"
        using like by (cases "snd (look L win su addr s)") auto
      note e = entry_bits [OF f(1-3) [OF Page], of desc su wr]
      have desc: "desc = marked d su wr w OR w" using assms(4) Page by simp
      have "(d OR w) AND M = (d0 OR w) AND M" if "M AND 0x18 = 0" for M
        using history_mask [OF d0(2) that, of "d0 OR w"] by (simp add: d0(3) or.commute or.left_commute)
      then have m: "desc AND M = (d0 OR w) AND M" if "M AND 0x18 = 0" for M using e(1) [OF desc that] that by simp
      have "w AND mmu_pagemaski s = (w AND 4) AND mmu_pagemaski s" using f(2) [OF Page] by simp
      then have "w AND mmu_pagemaski s = 0" using mi(2) by (simp only: and.assoc and.commute [of 4] and_zero_eq)
      then have "desc AND mmu_pagemaski s = d0 AND mmu_pagemaski s" using m [OF mi(1)] by (simp add: bit.conj_disj_distrib2)
      moreover have "long (mem s) a AND 0x18 = 0x18" if "desc AND 0x7f5 AND 0x10 \<noteq> 0"
        using both_bits [OF marked_facts(2) [of d su wr w]] e(5) [OF desc] that f(5) [OF Page] by (simp add: and.assoc)
      ultimately show ?thesis using m [of "0x85"] d0(1) by (simp add: line_ok_def l and.assoc)
    qed (use like assms(4) in \<open>cases "snd (look L win su addr s)"; simp add: line_ok_def l\<close>)+
  qed (simp add: line_ok_def)
  show "blocked su wr (l_status l) \<or> l_status l AND 0x10 \<noteq> 0" if wr
  proof (cases r)
    case (Page a d w)
    note e = entry_bits [OF f(1-3) [OF Page], of desc su wr]
    have desc: "desc = marked d su wr w OR w" using assms(4) Page by simp
    show ?thesis using e(2-5) [OF desc] marked_facts(3) [of su wr d w] that f(2) [OF Page]
      by (cases "allowed su wr d w") (auto simp: blocked_def allowed_def l and.assoc)
  qed (use assms(4) in \<open>simp_all add: blocked_def l\<close>)
qed

end

lemma regs_s_masks [simp]:
  "atc_tag a su (s\<lparr>regs_s := x\<rparr>) = atc_tag a su s" "atc_index a (s\<lparr>regs_s := x\<rparr>) = atc_index a s"
  "mmu_pagemaski (s\<lparr>regs_s := x\<rparr>) = mmu_pagemaski s" "mmu_pagemask (s\<lparr>regs_s := x\<rparr>) = mmu_pagemask s"
  "look L win su a (s\<lparr>regs_s := x\<rparr>) = look L win su a s"
  by (simp_all add: atc_tag_def mmu_tagmask_def atc_index_def mmu_pagemaski_def mmu_pagemask_def look_def)

lemma same_fields:
  "same s (set_line dt i way l s)" "same s (flush_shortcut_cache addr su s)"
  "same (s\<lparr>regs_s := x\<rparr>) u \<Longrightarrow> same s (u\<lparr>regs_s := regs_s s\<rparr>)"
  by (simp_all add: same_def set_line_def flush_shortcut_cache_def Let_def)

lemma flush_shortcut_keeps [simp]:
  "mmu_atc_array (flush_shortcut_cache addr su s) = mmu_atc_array s" "mem (flush_shortcut_cache addr su s) = mem s"
  by (simp_all add: flush_shortcut_cache_def Let_def)

lemma set_line_keeps [simp]:
  "mmu_atc_array (set_line dt i way l s) dt i way = l" "mem (set_line dt i way l s) = mem s"
  by (simp_all add: set_line_def)

definition found :: "search \<Rightarrow> bool \<Rightarrow> bool \<Rightarrow> bool" where
  "found r su wr \<longleftrightarrow> (\<exists>a d w. r = Page a d w \<and> allowed su wr d w)"

lemma found_simps [simp]:
  "found (Page a d w) su wr = allowed su wr d w" "\<not> found Table_error su wr" "\<not> found (No_page e) su wr"
  by (auto simp: found_def)

lemma blocked_bits: "st AND 0x85 = x AND 0x85 \<Longrightarrow> blocked su wr st = blocked su wr x"
proof -
  assume e: "st AND 0x85 = x AND 0x85"
  have "st AND m = x AND m" if "0x85 AND m = m" for m
  proof -
    have "st AND m = (st AND 0x85) AND m" using that by (simp add: and.assoc)
    also have "\<dots> = x AND m" unfolding e using that by (simp add: and.assoc)
    finally show ?thesis .
  qed
  from this [of 4] this [of "0x80"] this [of 1] show ?thesis by (simp add: blocked_def)
qed

lemma blocked_allowed: "d AND 1 = 1 \<Longrightarrow> w AND 4 = w \<Longrightarrow> (d OR w) AND 4 = w \<Longrightarrow> blocked su wr (d OR w) = (\<not> allowed su wr d w)"
proof -
  assume a: "d AND 1 = 1" "w AND 4 = w" "(d OR w) AND 4 = w"
  have z: "w AND M = 0" if "4 AND M = 0" for M using a(2) that by (metis and.assoc and_zero_eq)
  show ?thesis using z [of "0x80"] z [of 1] a by (auto simp: blocked_def allowed_def bit.conj_disj_distrib2)
qed

context table_memory begin

lemma line_ok_cong:
  "urp s' = urp s \<Longrightarrow> srp s' = srp s \<Longrightarrow> mmu_pagesize_8k s' = mmu_pagesize_8k s \<Longrightarrow> mem s' = mem s \<Longrightarrow> line_ok L s' su addr l = line_ok L s su addr l"
  by (simp add: line_ok_def look_def mmu_pagemaski_def mmu_pagemask_def cong: search.case_cong)

text \<open>What a table search leaves behind\<close>

definition fills :: "mmu_prefs \<Rightarrow> (u32 \<Rightarrow> u32) \<Rightarrow> 'm mmu \<Rightarrow> u32 \<Rightarrow> bool \<Rightarrow> bool \<Rightarrow> bool \<Rightarrow> nat \<Rightarrow> u32 \<Rightarrow> 'm mmu \<Rightarrow> bool" where
  "fills p L s addr su wr dt way bits s' \<longleftrightarrow> mmu_inv L s' \<and> same s s' \<and> way_random s' = way_random s \<and>
     (\<not> fst (look L win su addr s) \<longrightarrow> (bits = 0) = found (snd (look L win su addr s)) su wr) \<and>
     (let l = mmu_atc_array s' dt (atc_index addr s) way
      in \<not> mmu_060 p \<or> bits = 0 \<longrightarrow> line_ok L s' su addr l \<and> (wr \<longrightarrow> blocked su wr (l_status l) \<or> l_status l AND 0x10 \<noteq> 0))"

lemma found_like: "search_like r r' \<Longrightarrow> found r su wr = found r' su wr"
proof (induction r r' rule: search_like.induct)
  case (1 a d w a' d' w')
  then obtain x where x: "history x" "d' = d OR x" "w' = w" by auto
  then have "d' AND 0x80 = d AND 0x80" using history_mask [OF x(1)] by simp
  then show ?case using x(3) by (simp add: allowed_def)
qed auto

lemma fill_end:
  assumes "mmu_inv L t" "same (s\<lparr>regs_s := True\<rparr>) t" "way_random t = way_random s"
    and "u = t \<or> (\<exists>l. u = set_line dt (atc_index addr s) way l t \<and> l_tag l = atc_tag addr su s \<and> line_ok L t su addr l)"
    and v: "v = flush_shortcut_cache addr su (u\<lparr>regs_s := regs_s s\<rparr>)"
  shows "mmu_inv L v \<and> same s v \<and> way_random v = way_random s"
proof -
  have m: "atc_tag addr su t = atc_tag addr su s" "atc_index addr t = atc_index addr s"
    using masks_same [OF assms(2), of addr su] by simp_all
  have u: "mmu_inv L u \<and> same t u \<and> way_random u = way_random t"
    using assms(4)
  proof
    assume "\<exists>l. u = set_line dt (atc_index addr s) way l t \<and> l_tag l = atc_tag addr su s \<and> line_ok L t su addr l"
    then obtain l where l: "u = set_line dt (atc_index addr s) way l t" "l_tag l = atc_tag addr su s" "line_ok L t su addr l" by blast
    have "cache_ok L t (atc_index addr s) l" unfolding cache_ok_def using l(2,3) m by metis
    from set_line_inv [OF assms(1) this] show ?thesis unfolding l(1) by (simp add: set_line_def)
  qed (simp add: assms(1))
  then have "mmu_inv L (u\<lparr>regs_s := regs_s s\<rparr>)" by (simp add: mmu_inv_regs_s)
  from flush_shortcut_inv [OF this, of addr su]
  have "mmu_inv L v" "same (u\<lparr>regs_s := regs_s s\<rparr>) v" unfolding v by blast+
  moreover have "same s (u\<lparr>regs_s := regs_s s\<rparr>)" using same_fields(3) same_trans [OF assms(2)] u by blast
  moreover have "way_random v = way_random s" using u assms(3) by (simp add: v flush_shortcut_cache_def Let_def)
  ultimately show ?thesis using same_trans by blast
qed

lemma fill_atc:
  assumes inv: "mmu_inv L s"
  obtains status bits s' where
    "mmu_fill_atc p b addr su (atc_tag addr su s) wr dt (atc_index addr s) way s = (status, bits, s')"
    "fills p L s addr su wr dt way bits s'"
proof -
  let ?t = "s\<lparr>regs_s := True\<rparr>"
  have inv': "mmu_inv L ?t" using inv by (simp add: mmu_inv_regs_s)
  then have "ok (mem ?t)" by (simp add: mmu_inv_def)
  from table_search_walks [OF this, of su addr wr] obtain K t where
    t: "walks ?t t" and K: "touched win (long (mem ?t)) K" and
    rr: "let r = snd (search K win (mmu_pagesize_8k ?t) (if su then srp ?t else urp ?t) addr)
      in page_marked r su wr t \<and> table_search b addr su wr ?t = outcome r su wr t" by blast
  have r: "page_marked (snd (look K win su addr s)) su wr t" "table_search b addr su wr ?t = outcome (snd (look K win su addr s)) su wr t"
    using rr by (cases su; simp add: look_def Let_def)+
  define r where "r = snd (look K win su addr s)"
  have LK: "touched win L K" using inv' K touched_trans by (auto simp: mmu_inv_def)
  have ti: "mmu_inv L t" and ts: "same ?t t" using mmu_inv_walks [OF inv' t] by blast+
  have tw: "way_random t = way_random s" using t rest_fields(6) [of t ?t] by (simp add: walks_def)
  have lt: "look M win su addr t = look M win su addr s" for M using look_same [OF ts] by simp
  have mt: "mmu_pagemaski t = mmu_pagemaski s" using masks_same [OF ts, of addr su] by simp
  have F: "found (snd (look L win su addr s)) su wr = found r su wr" if "\<not> fst (look L win su addr s)"
    using found_like search_touched [OF LK] that by (simp add: look_def r_def)
  define desc where "desc = (case r of Page a d w \<Rightarrow> marked d su wr w OR w | _ \<Rightarrow> 0)"
  define l where "l = \<lparr>l_tag = atc_tag addr su s, l_valid = True, l_status = desc AND 0x7f5, l_phys = desc AND mmu_pagemaski t\<rparr>"
  have rt: "r = snd (look K win su addr t)" by (simp add: r_def lt)
  note lw = line_written [OF LK rt r(1) [folded r_def] desc_def l_def]
  define bits where "bits = (case r of Table_error \<Rightarrow> MMU_FSLW_LK OR MMU_FSLW_TWE | No_page e \<Rightarrow> e | Page a d w \<Rightarrow>
    if \<not> su \<and> desc AND 0x80 \<noteq> 0 then MMU_FSLW_SP else if wr \<and> desc AND 4 \<noteq> 0 then MMU_FSLW_WP else 0)"
  define u where "u = (if \<not> mmu_060 p \<or> r \<noteq> Table_error \<and> desc AND 1 \<noteq> 0 then set_line dt (atc_index addr s) way l t else t)"
  define v where "v = flush_shortcut_cache addr su (u\<lparr>regs_s := regs_s s\<rparr>)"
  have pg: "desc AND 0x80 = d AND 0x80 \<and> desc AND 4 = w \<and> desc AND 1 = 1 \<and> w AND 4 = w" if "r = Page a d w" for a d w
  proof -
    have f: "d AND 1 = 1" "w AND 4 = w" "(d OR w) AND 4 = w" using search_page_facts [of K win _ _ addr a d w] that by (auto simp: look_def r_def)
    have "desc = marked d su wr w OR w" by (simp add: desc_def that)
    from entry_bits(2-4) [OF f this] f(2) show ?thesis by simp
  qed
  have b0: "(bits = 0) = found r su wr"
  proof (cases r)
    case (No_page e)
    then show ?thesis using no_page_facts [of K win _ _ addr e] by (simp add: bits_def r_def look_def)
  next
    case (Page a d w)
    then show ?thesis using pg [OF Page] by (auto simp: bits_def allowed_def)
  qed (simp add: bits_def)
  have e: "\<exists>status. mmu_fill_atc p b addr su (atc_tag addr su s) wr dt (atc_index addr s) way s = (status, bits, v)"
    unfolding mmu_fill_atc_def Let_def r(2) r_def [symmetric] v_def u_def l_def bits_def
    by (cases r) (auto simp: outcome_def desc_def)
  have vf: "mmu_inv L v \<and> same s v \<and> way_random v = way_random s"
    by (rule fill_end [OF ti ts tw _ v_def]) (use lw(1) in \<open>auto simp: u_def l_def\<close>)
  have line: "line_ok L v su addr l \<and> (wr \<longrightarrow> blocked su wr (l_status l) \<or> l_status l AND 0x10 \<noteq> 0)"
    using lw line_ok_cong [of v t] ts vf by (auto simp: same_def v_def u_def)
  have "mmu_atc_array v dt (atc_index addr s) way = l" if "\<not> mmu_060 p \<or> bits = 0"
  proof -
    have "\<not> mmu_060 p \<or> r \<noteq> Table_error \<and> desc AND 1 \<noteq> 0" using that b0 pg by (auto simp: found_def)
    then show ?thesis by (simp add: v_def u_def)
  qed
  then have "fills p L s addr su wr dt way bits v"
    unfolding fills_def using vf line b0 F by (auto simp: Let_def)
  then show ?thesis using e that by blast
qed

end

lemma look_same_page: "a AND mmu_pagemaski s = a' AND mmu_pagemaski s \<Longrightarrow> look L win su a s = look L win su a' s"
  unfolding look_def by (rule search_same_page)

lemma scan_hit: "atc_scan tag ls n way winv = Inr w \<Longrightarrow> l_valid (ls w) \<and> l_tag (ls w) = tag"
  by (induction n arbitrary: way winv) (auto split: if_splits)

lemma blocked_guard:
  "(st AND (MMU_MMUSR_W OR MMU_MMUSR_S OR MMU_MMUSR_R) \<noteq> MMU_MMUSR_R \<and>
    (st AND MMU_MMUSR_W \<noteq> 0 \<and> wr \<or> st AND MMU_MMUSR_S \<noteq> 0 \<and> \<not> su \<or> st AND MMU_MMUSR_R = 0)) = blocked su wr st"
proof -
  have "(MMU_MMUSR_W OR MMU_MMUSR_S OR MMU_MMUSR_R) = 0x85" by simp
  moreover have "\<not> blocked su wr st" if "st AND 0x85 = 1"
    using blocked_bits [of st 1 su wr] that by (simp add: blocked_def)
  ultimately show ?thesis by (auto simp: blocked_def)
qed

context table_memory begin

text \<open>A fault is right where the tables allow no such access, an address where they give it\<close>

definition answers :: "(u32 \<Rightarrow> u32) \<Rightarrow> 'm mmu \<Rightarrow> u32 \<Rightarrow> bool \<Rightarrow> bool \<Rightarrow> 'm mmu + u32 \<times> 'm mmu \<Rightarrow> bool" where
  "answers L s addr su wr x \<longleftrightarrow>
     (case x of
        Inl s' \<Rightarrow> mmu_inv L s' \<and> same s s' \<and> (\<not> fst (look L win su addr s) \<longrightarrow> \<not> found (snd (look L win su addr s)) su wr)
      | Inr (pa, s') \<Rightarrow> mmu_inv L s' \<and> same s s' \<and> (\<exists>phys. pa = phys OR (addr AND mmu_pagemask s) \<and> hit_ok L s' su wr addr phys))"

lemma answers_same: "same s t \<Longrightarrow> answers L t addr su wr x \<Longrightarrow> answers L s addr su wr x"
  using look_same [of s t] masks_same [of s t] same_trans [of s t] by (auto simp: answers_def split: sum.splits)

lemma hit_ok_cong:
  "urp s' = urp s \<Longrightarrow> srp s' = srp s \<Longrightarrow> mmu_pagesize_8k s' = mmu_pagesize_8k s \<Longrightarrow> mem s' = mem s \<Longrightarrow> hit_ok L s' su wr addr x = hit_ok L s su wr addr x"
  by (simp add: hit_ok_def look_def mmu_pagemaski_def mmu_pagemask_def)

lemma hit_ok_read: "hit_ok L s su wr addr x \<Longrightarrow> hit_ok L s su False addr x"
  by (auto simp: hit_ok_def allowed_def)

lemma hit_ok_page: "a AND mmu_pagemaski s = a' AND mmu_pagemaski s \<Longrightarrow> hit_ok L s su wr a x = hit_ok L s su wr a' x"
  using look_same_page [of a s a'] by (simp add: hit_ok_def)

lemma line_ok_page: "a AND mmu_pagemaski s = a' AND mmu_pagemaski s \<Longrightarrow> line_ok L s su a x = line_ok L s su a' x"
  using look_same_page [of a s a'] by (simp add: line_ok_def)

lemma add_cache_inv:
  assumes "mmu_inv L s" "hit_ok L s su wr addr phys"
  shows "mmu_inv L (mmu_add_cache addr phys su dt wr s) \<and> same s (mmu_add_cache addr phys su dt wr s) \<and> mem (mmu_add_cache addr phys su dt wr s) = mem s"
proof -
  let ?t = "mmu_add_cache addr phys su dt wr s"
  have same: "same s ?t" and m: "mem ?t = mem s" "mmu_atc_array ?t = mmu_atc_array s"
    by (simp_all add: mmu_add_cache_def Let_def same_def)
  have p: "page_ok L s wr \<lparr>fc_log = page_idx addr su s, fc_phys = phys, fc_state = c\<rparr>" for c
    unfolding page_ok_def using assms(2) by auto
  have "page_ok L s False (atc_data_cache_read ?t j)" "page_ok L s True (atc_data_cache_write ?t j)" for j
    using assms(1) p by (cases wr; simp add: mmu_add_cache_def Let_def mmu_inv_def)+
  moreover have "ins_ok L ?t"
  proof (cases dt)
    case True
    then show ?thesis using assms(1) ok_mono(5) [OF same] m by (simp add: mmu_inv_def mmu_add_cache_def Let_def)
  next
    case False
    have "hit_ok L ?t su False addr phys" using ok_mono(2) [OF same] hit_ok_read [OF assms(2)] m by simp
    then show ?thesis using False masks_same [OF same, of addr su] by (auto simp: ins_ok_def mmu_add_cache_def)
  qed
  ultimately show ?thesis using assms(1) m ok_mono(3,4) [OF same] same by (simp add: mmu_inv_def)
qed

lemma line_hit:
  assumes "line_ok L s su addr l" "\<not> fst (look L win su addr s)"
  shows "blocked su wr (l_status l) = (\<not> found (snd (look L win su addr s)) su wr)"
proof (cases "snd (look L win su addr s)")
  case (Page a d w)
  have f: "d AND 1 = 1" "w AND 4 = w" "(d OR w) AND 4 = w" using search_page_facts [of L win _ _ addr a d w] Page by (auto simp: look_def)
  then show ?thesis using assms Page blocked_bits [of "l_status l" "d OR w" su wr] blocked_allowed [OF f] by (simp add: line_ok_def)
qed (use assms in \<open>simp_all add: line_ok_def blocked_def\<close>)

lemma line_hit_ok: "line_ok L s su addr l \<Longrightarrow> \<not> blocked su wr (l_status l) \<Longrightarrow> wr \<longrightarrow> l_status l AND 0x10 \<noteq> 0 \<Longrightarrow> hit_ok L s su wr addr (l_phys l)"
  using line_hit [of L s su addr l wr] by (auto simp: hit_ok_def line_ok_def found_def)

lemma retry_cases:
  assumes "mmu_inv L s" "l = mmu_atc_array s dt (atc_index addr s) way" "line_ok L s su addr l"
  shows "case atc_retry p addr val su dt wr sz st way s of
      Hit_fault s' \<Rightarrow> answers L s addr su wr (Inl s')
    | Hit pa s' \<Rightarrow> answers L s addr su wr (Inr (pa, s'))
    | Hit_unmodified \<Rightarrow> \<not> blocked su wr (l_status l) \<and> wr \<and> l_status l AND 0x10 = 0"
proof (cases "blocked su wr (l_status l)")
  case True
  let ?f = "mmu_bus_error p addr val (mmu_get_fc su dt) wr sz"
  obtain x where "atc_retry p addr val su dt wr sz st way s = Hit_fault (?f x False s)"
    unfolding atc_retry_def Let_def assms(2) [symmetric] blocked_guard using True by auto
  moreover have "mmu_inv L (?f x False s)" "same s (?f x False s)" for x
    using mmu_inv_view [of "?f x False s" s L] view_same [of "?f x False s" s] assms(1) by simp_all
  ultimately show ?thesis using line_hit [OF assms(3), of wr] True by (simp add: answers_def)
next
  case False
  show ?thesis
  proof (cases "l_status l AND 0x10 = 0 \<and> wr")
    case True
    then show ?thesis unfolding atc_retry_def Let_def assms(2) [symmetric] blocked_guard using False by simp
  next
    case M: False
    define t where "t = s\<lparr>mmu_atc_ways := (mmu_atc_ways s)(dt := way), mmu_cache_state := cache_mode (l_status l)\<rparr>"
    define u where "u = mmu_add_cache addr (l_phys l) su dt wr t"
    have pm: "mmu_pagemask t = mmu_pagemask s" "mmu_pagemask u = mmu_pagemask s"
      by (simp_all add: u_def t_def mmu_pagemask_def mmu_add_cache_def Let_def)
    then have e: "atc_retry p addr val su dt wr sz st way s = Hit (l_phys l OR (addr AND mmu_pagemask s)) u"
      unfolding atc_retry_def Let_def assms(2) [symmetric] blocked_guard t_def [symmetric] u_def [symmetric] using False M by auto
    have t: "view t = view s" by (simp add: t_def)
    have h: "hit_ok L s su wr addr (l_phys l)" using line_hit_ok [OF assms(3) False] M by blast
    then have "hit_ok L t su wr addr (l_phys l)" by (subst hit_ok_cong [of t s]) (simp_all add: t_def)
    from add_cache_inv [OF _ this] have u: "mmu_inv L u" "same t u" "mem u = mem s"
      using mmu_inv_view [OF t, of L] assms(1) by (auto simp: u_def t_def)
    then have s: "same s u" using view_same [OF t] same_trans by blast
    then have "hit_ok L u su wr addr (l_phys l)" using h hit_ok_cong [of u s] u(3) by (simp add: same_def)
    then show ?thesis using u(1) s unfolding e answers_def by (auto intro: exI [of _ "l_phys l"])
  qed
qed

lemma translate_fill_answers:
  assumes "mmu_inv L s"
  shows "\<exists>x. translate_fill p b addr val su dt wr sz 0 winv s = Some x \<and> answers L s addr su wr x"
proof -
  define t where "t = s\<lparr>way_random := way_random s mod 4\<rparr>"
  define way where "way = (case winv of Some w \<Rightarrow> w | None \<Rightarrow> way_random t)"
  have t: "view t = view s" by (simp add: t_def)
  have st: "same s t" by (rule view_same [OF t])
  have "mmu_inv L t" using mmu_inv_view [OF t, of L] assms by simp
  from fill_atc [OF this, of p addr su wr dt way] obtain status bits u where
    u: "mmu_fill_atc p b addr su (atc_tag addr su t) wr dt (atc_index addr t) way t = (status, bits, u)"
      "fills p L t addr su wr dt way bits u" by blast
  have f: "mmu_inv L u" "same t u" using u(2) by (simp_all add: fills_def)
  have su: "same s u" by (rule same_trans [OF st f(2)])
  define v where "v = u\<lparr>way_random := way_random u + 1\<rparr>"
  have e: "translate_fill p b addr val su dt wr sz 0 winv s =
      (if bits \<noteq> 0 \<and> mmu_060 p then Some (Inl (mmu_bus_error p addr val (mmu_get_fc su dt) wr sz bits False u))
       else case atc_retry p addr val su dt wr sz bits way v of Hit_fault s \<Rightarrow> Some (Inl s) | Hit pa s \<Rightarrow> Some (Inr (pa, s))
        | Hit_unmodified \<Rightarrow> translate_fill p b addr val su dt wr sz bits (Some way) v)"
    by (subst translate_fill.simps) (simp only: Let_def t_def [symmetric] way_def [symmetric] u(1) prod.case or.left_neutral v_def [symmetric])
  show ?thesis
  proof (cases "bits \<noteq> 0 \<and> mmu_060 p")
    case True
    let ?f = "mmu_bus_error p addr val (mmu_get_fc su dt) wr sz bits False u"
    have "mmu_inv L ?f" "same u ?f" using mmu_inv_view [of ?f u L] view_same [of ?f u] f(1) by simp_all
    then have "answers L t addr su wr (Inl ?f)"
      using True u(2) same_trans [OF f(2)] by (auto simp: answers_def fills_def)
    then show ?thesis using answers_same [OF st] True e by auto
  next
    case False
    have v: "view v = view u" by (simp add: v_def)
    have tv: "same t v" by (rule same_trans [OF f(2) view_same [OF v]])
    have iv: "mmu_inv L v" using mmu_inv_view [OF v, of L] f(1) by simp
    define l where "l = mmu_atc_array v dt (atc_index addr v) way"
    have ix: "atc_index addr v = atc_index addr t" using masks_same [OF tv, of addr su] by simp
    have lu: "l = mmu_atc_array u dt (atc_index addr t) way" unfolding l_def ix by (simp add: v_def)
    then have l: "line_ok L u su addr l" "wr \<longrightarrow> blocked su wr (l_status l) \<or> l_status l AND 0x10 \<noteq> 0"
      using u(2) False by (auto simp: fills_def Let_def)
    have "line_ok L v su addr l" using l(1) line_ok_cong [of v u] by (simp add: v_def)
    from retry_cases [OF iv l_def this, where p = p and val = val and wr = wr and sz = sz and st = bits] l(2)
    obtain x where x: "answers L v addr su wr x"
      "(case atc_retry p addr val su dt wr sz bits way v of Hit_fault s \<Rightarrow> Some (Inl s) | Hit pa s \<Rightarrow> Some (Inr (pa, s))
        | Hit_unmodified \<Rightarrow> translate_fill p b addr val su dt wr sz bits (Some way) v) = Some x"
      by (cases "atc_retry p addr val su dt wr sz bits way v") auto
    have "translate_fill p b addr val su dt wr sz 0 winv s = Some x"
      using e False x(2) by auto
    then show ?thesis using answers_same [OF same_trans [OF st tv] x(1)] by blast
  qed
qed

lemma translate_answers:
  assumes "mmu_inv L s"
  shows "\<exists>x. mmu_translate p b addr val su dt wr sz s = Some x \<and> answers L s addr su wr x"
proof -
  define t where "t = s\<lparr>way_random := way_random s + 1\<rparr>"
  have t: "view t = view s" by (simp add: t_def)
  have st: "same s t" by (rule view_same [OF t])
  have inv: "mmu_inv L t" using mmu_inv_view [OF t, of L] assms by simp
  have fill: "\<exists>x. translate_fill p b addr val su dt wr sz 0 w t = Some x \<and> answers L s addr su wr x" for w
    using translate_fill_answers [OF inv] answers_same [OF st] by blast
  let ?scan = "atc_scan (atc_tag addr su t) (mmu_atc_array t dt (atc_index addr t)) 4 (mmu_atc_ways t dt) None"
  have e: "mmu_translate p b addr val su dt wr sz s = (case ?scan of
      Inl w \<Rightarrow> translate_fill p b addr val su dt wr sz 0 w t
    | Inr way \<Rightarrow> (case atc_retry p addr val su dt wr sz 0 way t of Hit_fault s \<Rightarrow> Some (Inl s) | Hit pa s \<Rightarrow> Some (Inr (pa, s))
        | Hit_unmodified \<Rightarrow> translate_fill p b addr val su dt wr sz 0 (Some way) t))"
    by (simp only: mmu_translate_def Let_def t_def)
  show ?thesis
  proof (cases ?scan)
    case (Inr way)
    define l where "l = mmu_atc_array t dt (atc_index addr t) way"
    have "l_valid l" "l_tag l = atc_tag addr su t" using scan_hit [OF Inr] by (simp_all add: l_def)
    moreover have "cache_ok L t (atc_index addr t) l" using inv by (simp add: mmu_inv_def l_def)
    ultimately obtain su' a where a: "atc_tag addr su t = atc_tag a su' t" "atc_index addr t = atc_index a t" "line_ok L t su' a l"
      by (auto simp: cache_ok_def)
    then have "line_ok L t su addr l" using same_page [OF a(1,2)] line_ok_page [of addr t a] by simp
    from retry_cases [OF inv l_def this, where p = p and val = val and wr = wr and sz = sz and st = 0] show ?thesis
      unfolding e Inr using fill answers_same [OF st] by (cases "atc_retry p addr val su dt wr sz 0 way t") auto
  qed (simp add: e fill)
qed

end

section \<open>A search is made at most once\<close>

definition out_state :: "'m mmu + 'a \<times> 'm mmu \<Rightarrow> 'm mmu" where
  "out_state r = (case r of Inl s \<Rightarrow> s | Inr (v, s) \<Rightarrow> s)"

lemma rest_bind:
  "rest (out_state x) = r \<Longrightarrow> (\<And>v t. rest t = r \<Longrightarrow> rest (out_state (f (v, t))) = r) \<Longrightarrow> rest (out_state (bindE x f)) = r"
  by (cases x) (auto simp: bindE_def out_state_def)

lemma rest_bind_put:
  "rest (case y of Inl s \<Rightarrow> s | Inr s \<Rightarrow> s) = r \<Longrightarrow> (\<And>t. rest t = r \<Longrightarrow> rest (out_state (g t)) = r) \<Longrightarrow> rest (out_state (bindE y g)) = r"
  by (cases y) (auto simp: bindE_def out_state_def)

lemma rest_get: "rest (out_state (desc_get_long b a s)) = rest s"
  by (simp add: desc_get_long_def out_state_def Let_def split: option.splits)

lemma rest_put: "rest (case desc_put_long b a v s of Inl s \<Rightarrow> s | Inr s \<Rightarrow> s) = rest s"
  by (simp add: desc_put_long_def Let_def split: option.splits)

lemma rest_used: "rest (case mark_used b a v s of Inl s \<Rightarrow> s | Inr s \<Rightarrow> s) = rest s"
  by (simp add: mark_used_def rest_put)

lemma rest_mark_page: "rest (out_state (mark_page b a d wp su wr s)) = rest s"
proof -
  have "rest (out_state (if n \<noteq> d then bindE (desc_put_long b a n s) (\<lambda>s. Inr (n, s)) else Inr (d, s))) = rest s" for n
    using rest_bind_put [OF rest_put [of b a n s], of "\<lambda>s. Inr (n, s)"] by (simp add: out_state_def)
  then show ?thesis unfolding mark_page_def Let_def .
qed

lemma out_Inr [simp]: "out_state (Inr (v, s)) = s"
  by (simp add: out_state_def)

text \<open>The page level after the indirection\<close>

definition page_end :: "'m bus040 \<Rightarrow> u32 \<Rightarrow> u32 \<Rightarrow> u32 \<Rightarrow> bool \<Rightarrow> bool \<Rightarrow> 'm mmu \<Rightarrow> 'm mmu + (u32 \<times> u32) \<times> 'm mmu" where
  "page_end b a d wp su wr s =
     (if d AND 1 = 1 then bindE (mark_page b a d (wp OR d) su wr s) (\<lambda>(desc, s). Inr ((desc OR ((wp OR d) AND MMU_DES_WP), 0), s))
      else Inr ((0, if d AND 3 = 2 then MMU_FSLW_IL else MMU_FSLW_PF), s))"

lemma page_level_end:
  "page_level b a wp su wr s = bindE (desc_get_long b a s) (\<lambda>(d, s). if d AND 3 = 2
     then bindE (desc_get_long b (d AND 0xfffffffc) s) (\<lambda>(d', s). page_end b (d AND 0xfffffffc) d' wp su wr s) else page_end b a d wp su wr s)"
  by (auto simp: page_level_def page_end_def bindE_def Let_def split: sum.splits)

lemma rest_page_end: "rest (out_state (page_end b a d wp su wr s)) = rest s"
  unfolding page_end_def by (auto simp: rest_mark_page intro!: rest_bind)

lemma rest_page_level: "rest s = r \<Longrightarrow> rest (out_state (page_level b a wp su wr s)) = r"
  unfolding page_level_end by (auto simp: rest_get rest_page_end intro!: rest_bind)

lemma rest_table_search: "rest (out_state (table_search b addr su wr s)) = rest s"
  unfolding table_search_def Let_def
  by (rule rest_bind, simp add: rest_get) (auto simp: rest_get rest_used intro!: rest_bind rest_bind_put rest_page_level)

lemma bit_tests:
  "(x AND 4 = 0) = (\<not> bit x 2)" "(x AND 0x80 = 0) = (\<not> bit x 7)" "(x AND 0x10 = 0) = (\<not> bit x 4)" "(x AND 1 = 0) = (\<not> bit x 0)" for x :: u32
  using and_exp_eq_0_iff_not_bit [of x 2] and_exp_eq_0_iff_not_bit [of x 7] and_exp_eq_0_iff_not_bit [of x 4] and_exp_eq_0_iff_not_bit [of x 0]
  by simp_all

lemma bit_masks [simp]: "bit (0x18 :: u32) 4" "\<not> bit (8 :: u32) 7" "\<not> bit (4 :: u32) 7" "bit (4 :: u32) 2" "bit (0x7f5 :: u32) 4" "bit (0x7f5 :: u32) 2"
   "bit (0x7f5 :: u32) 7" "bit (0x7f5 :: u32) 0"
  by code_simp+

text \<open>A page where writing is allowed has its modified bit after a search for a write.\<close>

definition settled :: "bool \<Rightarrow> u32 \<Rightarrow> bool" where
  "settled su d \<longleftrightarrow> blocked su True d \<or> d AND 0x10 \<noteq> 0"

lemma settled_mark: "settled su ((if wp AND 4 \<noteq> 0 \<or> d AND 0x80 \<noteq> 0 \<and> \<not> su then d OR 8 else d OR 0x18) OR (wp AND 4))"
  by (auto simp: settled_def blocked_def bit_tests bit_simps)

lemma mark_page_value:
  "mark_page b a d wp su True s = Inr (v, t) \<Longrightarrow> v = (if wp AND 4 \<noteq> 0 \<or> d AND 0x80 \<noteq> 0 \<and> \<not> su then d OR 8 else d OR 0x18)"
  unfolding mark_page_def Let_def bindE_def by (auto split: if_splits sum.splits)

lemma mark_page_or: "mark_page b a d wp su wr s = Inr (v, t) \<Longrightarrow> bit d 0 \<Longrightarrow> bit v 0"
  unfolding mark_page_def Let_def bindE_def by (auto simp: bit_or_iff split: if_splits sum.splits)

lemma odd_bit: "(x AND 1 = 1) = bit x 0" for x :: u32
  using and_pow [of x 0] bit_tests(4) [of x] by auto

definition settles :: "bool \<Rightarrow> bool \<Rightarrow> u32 \<Rightarrow> u32 \<Rightarrow> bool" where
  "settles su wr v e \<longleftrightarrow> e \<noteq> 0 \<and> v = 0 \<or> e = 0 \<and> bit v 0 \<and> (wr \<longrightarrow> settled su v)"

lemma page_end_settled:
  assumes "page_end b a d wp su wr s = Inr ((v, e), t)"
  shows "settles su wr v e"
proof (cases "d AND 1 = 1")
  case True
  with assms obtain n where n: "mark_page b a d (wp OR d) su wr s = Inr (n, t)" "v = n OR ((wp OR d) AND 4)" "e = 0"
    by (auto simp: page_end_def bindE_def split: sum.splits)
  have "settled su v" if wr
    using mark_page_value [of b a d "wp OR d" su s n t] n that settled_mark [of su "wp OR d" d] by simp
  moreover have "bit v 0" using mark_page_or [OF n(1)] True n(2) by (simp add: odd_bit bit_or_iff)
  ultimately show ?thesis using n(3) by (simp add: settles_def)
qed (use assms in \<open>auto simp: page_end_def settles_def split: if_splits\<close>)

lemma table_search_settled:
  assumes "table_search b addr su wr s = Inr ((v, e), t)"
  shows "settles su wr v e"
proof -
  have p: "settles su wr v e" if "page_level b a wp su wr s = Inr ((v, e), t)" for a wp s t
    using that page_end_settled unfolding page_level_end bindE_def by (fastforce split: sum.splits if_splits)
  show ?thesis
    using assms p unfolding table_search_def Let_def bindE_def by (auto simp: settles_def split: sum.splits if_splits)
qed

lemma settled_entry [simp]: "settled su (v AND 0x7f5) = settled su v"
  by (simp add: settled_def blocked_def bit_tests bit_and_iff)

lemma settled_0 [simp]: "settled su 0"
  by (simp add: settled_def blocked_def)

lemma fill_settled:
  assumes f: "mmu_fill_atc p b addr su tag wr dt ix way s = (st, bits, t)"
  shows "\<not> (bits \<noteq> 0 \<and> mmu_060 p) \<Longrightarrow> wr \<longrightarrow> settled su (l_status (mmu_atc_array t dt ix way))" "mmu_pagesize_8k t = mmu_pagesize_8k s"
proof -
  define x where "x = table_search b addr su wr (s\<lparr>regs_s := True\<rparr>)"
  have "rest (out_state x) = rest (s\<lparr>regs_s := True\<rparr>)" by (simp add: x_def rest_table_search)
  then have k: "mmu_pagesize_8k (out_state x) = mmu_pagesize_8k s" using rest_fields(3) [of "out_state x" "s\<lparr>regs_s := True\<rparr>"] by simp
  then show "mmu_pagesize_8k t = mmu_pagesize_8k s"
    using f unfolding mmu_fill_atc_def Let_def x_def [symmetric] flush_shortcut_cache_def set_line_def
    by (cases x) (auto simp: out_state_def split: if_splits)
  show "wr \<longrightarrow> settled su (l_status (mmu_atc_array t dt ix way))" if n: "\<not> (bits \<noteq> 0 \<and> mmu_060 p)"
  proof (cases x)
    case (Inl u)
    then show ?thesis using f n unfolding mmu_fill_atc_def Let_def x_def [symmetric]
      by (auto simp: flush_shortcut_cache_def set_line_def Let_def split: if_splits)
  next
    case (Inr y)
    then obtain v e u where y: "x = Inr ((v, e), u)" by (cases y) auto
    have "settles su wr v e" by (rule table_search_settled) (use y in \<open>simp add: x_def\<close>)
    then show ?thesis using f n y unfolding mmu_fill_atc_def Let_def x_def [symmetric]
      by (auto simp: flush_shortcut_cache_def set_line_def Let_def settles_def bit_tests split: if_splits)
  qed
qed

lemma retry_settled:
  assumes "wr \<longrightarrow> settled su (l_status (mmu_atc_array s dt (atc_index addr s) way))"
  shows "atc_retry p addr val su dt wr sz st way s \<noteq> Hit_unmodified"
  using assms unfolding atc_retry_def Let_def blocked_guard settled_def by (auto split: if_splits)

lemma translate_fill_once:
  obtains status bits way t u where "t = s\<lparr>way_random := way_random s mod 4\<rparr>"
    "mmu_fill_atc p b addr su (atc_tag addr su t) wr dt (atc_index addr t) way t = (status, bits, u)"
    "translate_fill p b addr val su dt wr sz st winv s =
      (if st OR bits \<noteq> 0 \<and> mmu_060 p then Some (Inl (mmu_bus_error p addr val (mmu_get_fc su dt) wr sz (st OR bits) False u))
       else case atc_retry p addr val su dt wr sz (st OR bits) way (u\<lparr>way_random := way_random u + 1\<rparr>) of
          Hit_fault s \<Rightarrow> Some (Inl s) | Hit pa s \<Rightarrow> Some (Inr (pa, s)) | Hit_unmodified \<Rightarrow> None)"
    "\<not> (st OR bits \<noteq> 0 \<and> mmu_060 p) \<Longrightarrow> atc_retry p addr val su dt wr sz (st OR bits) way (u\<lparr>way_random := way_random u + 1\<rparr>) \<noteq> Hit_unmodified"
proof -
  define t where "t = s\<lparr>way_random := way_random s mod 4\<rparr>"
  define way where "way = (case winv of Some w \<Rightarrow> w | None \<Rightarrow> way_random t)"
  obtain status bits u where f: "mmu_fill_atc p b addr su (atc_tag addr su t) wr dt (atc_index addr t) way t = (status, bits, u)"
    using prod_cases3 by blast
  define v where "v = u\<lparr>way_random := way_random u + 1\<rparr>"
  have e: "translate_fill p b addr val su dt wr sz st winv s =
      (if st OR bits \<noteq> 0 \<and> mmu_060 p then Some (Inl (mmu_bus_error p addr val (mmu_get_fc su dt) wr sz (st OR bits) False u))
       else case atc_retry p addr val su dt wr sz (st OR bits) way v of Hit_fault s \<Rightarrow> Some (Inl s) | Hit pa s \<Rightarrow> Some (Inr (pa, s))
        | Hit_unmodified \<Rightarrow> translate_fill p b addr val su dt wr sz (st OR bits) (Some way) v)"
    by (subst translate_fill.simps) (simp only: Let_def t_def [symmetric] way_def [symmetric] f prod.case v_def [symmetric])
  have ix: "atc_index addr v = atc_index addr t" using fill_settled(2) [OF f] by (simp add: atc_index_def v_def)
  have "atc_retry p addr val su dt wr sz (st OR bits) way v \<noteq> Hit_unmodified" if "\<not> (st OR bits \<noteq> 0 \<and> mmu_060 p)"
  proof (rule retry_settled)
    have "\<not> (bits \<noteq> 0 \<and> mmu_060 p)" using that by (auto simp: or_eq_0_iff)
    from fill_settled(1) [OF f this] show "wr \<longrightarrow> settled su (l_status (mmu_atc_array v dt (atc_index addr v) way))"
      unfolding ix by (simp add: v_def)
  qed
  with e show ?thesis by (intro that [OF t_def f]) (auto simp: v_def split: atc_hit.splits)
qed

lemma translate_fill_returns: "translate_fill p b addr val su dt wr sz st winv s \<noteq> None"
  by (rule translate_fill_once [of s p b addr su wr dt val sz st winv]) (auto split: atc_hit.splits)

text \<open>A translation that walks the tables once, without a way to walk them again: it has no result when the
  entry it filled in still asks for the modified bit.\<close>

definition search_once ::
  "mmu_prefs \<Rightarrow> 'm bus040 \<Rightarrow> u32 \<Rightarrow> u32 \<Rightarrow> bool \<Rightarrow> bool \<Rightarrow> bool \<Rightarrow> nat \<Rightarrow> nat option \<Rightarrow> 'm mmu \<Rightarrow> ('m mmu + u32 \<times> 'm mmu) option" where
  "search_once p b addr val su dt wr sz winv s =
     (let s = s\<lparr>way_random := way_random s mod 4\<rparr>;
          way = (case winv of Some w \<Rightarrow> w | None \<Rightarrow> way_random s);
          (status, bits, s) = mmu_fill_atc p b addr su (atc_tag addr su s) wr dt (atc_index addr s) way s
      in if bits \<noteq> 0 \<and> mmu_060 p then Some (Inl (mmu_bus_error p addr val (mmu_get_fc su dt) wr sz bits False s))
         else case atc_retry p addr val su dt wr sz bits way (s\<lparr>way_random := way_random s + 1\<rparr>) of
            Hit_fault s \<Rightarrow> Some (Inl s) | Hit pa s \<Rightarrow> Some (Inr (pa, s)) | Hit_unmodified \<Rightarrow> None)"

lemma translate_fill_search: "translate_fill p b addr val su dt wr sz 0 winv s = search_once p b addr val su dt wr sz winv s"
proof -
  define t where "t = s\<lparr>way_random := way_random s mod 4\<rparr>"
  define way where "way = (case winv of Some w \<Rightarrow> w | None \<Rightarrow> way_random t)"
  obtain status bits u where f: "mmu_fill_atc p b addr su (atc_tag addr su t) wr dt (atc_index addr t) way t = (status, bits, u)"
    using prod_cases3 by blast
  define v where "v = u\<lparr>way_random := way_random u + 1\<rparr>"
  have "translate_fill p b addr val su dt wr sz 0 winv s =
      (if bits \<noteq> 0 \<and> mmu_060 p then Some (Inl (mmu_bus_error p addr val (mmu_get_fc su dt) wr sz bits False u))
       else case atc_retry p addr val su dt wr sz bits way v of Hit_fault s \<Rightarrow> Some (Inl s) | Hit pa s \<Rightarrow> Some (Inr (pa, s))
        | Hit_unmodified \<Rightarrow> translate_fill p b addr val su dt wr sz bits (Some way) v)"
    by (subst translate_fill.simps) (simp only: Let_def t_def [symmetric] way_def [symmetric] f prod.case v_def [symmetric] or.left_neutral)
  moreover have "atc_retry p addr val su dt wr sz bits way v \<noteq> Hit_unmodified" if "\<not> (bits \<noteq> 0 \<and> mmu_060 p)"
  proof (rule retry_settled)
    have "atc_index addr v = atc_index addr t" using fill_settled(2) [OF f] by (simp add: atc_index_def v_def)
    with fill_settled(1) [OF f that] show "wr \<longrightarrow> settled su (l_status (mmu_atc_array v dt (atc_index addr v) way))"
      by (simp add: v_def)
  qed
  moreover have "search_once p b addr val su dt wr sz winv s =
      (if bits \<noteq> 0 \<and> mmu_060 p then Some (Inl (mmu_bus_error p addr val (mmu_get_fc su dt) wr sz bits False u))
       else case atc_retry p addr val su dt wr sz bits way v of Hit_fault s \<Rightarrow> Some (Inl s) | Hit pa s \<Rightarrow> Some (Inr (pa, s))
        | Hit_unmodified \<Rightarrow> None)"
    unfolding search_once_def by (simp only: Let_def t_def [symmetric] way_def [symmetric] f prod.case v_def [symmetric])
  ultimately show ?thesis by (auto split: atc_hit.splits)
qed

text \<open>C15: every translation returns, with an address or a fault, whatever the memory answers and
  whatever the caches hold, and it walks the tables at most once: it is the search of the cache, followed on a
  miss, or on a store to a page whose modified bit is not set, by one walk that fills the entry and one test of
  that entry. The entry a walk has filled never asks for another.\<close>

theorem mmu_translate_returns:
  "mmu_translate p b addr val su dt wr sz s =
     (let s = s\<lparr>way_random := way_random s + 1\<rparr>
      in case atc_scan (atc_tag addr su s) (mmu_atc_array s dt (atc_index addr s)) 4 (mmu_atc_ways s dt) None of
           Inl winv \<Rightarrow> search_once p b addr val su dt wr sz winv s
         | Inr way \<Rightarrow>
             (case atc_retry p addr val su dt wr sz 0 way s of
                Hit_fault s \<Rightarrow> Some (Inl s)
              | Hit pa s \<Rightarrow> Some (Inr (pa, s))
              | Hit_unmodified \<Rightarrow> search_once p b addr val su dt wr sz (Some way) s)) \<and>
   mmu_translate p b addr val su dt wr sz s \<noteq> None"
proof -
  have "search_once p b addr val su dt wr sz winv u \<noteq> None" for winv u
    unfolding translate_fill_search [symmetric] by (rule translate_fill_returns)
  then show ?thesis
    unfolding mmu_translate_def Let_def translate_fill_search by (auto split: sum.splits atc_hit.splits)
qed

end
