(* ===== verification/MmuRuns.thy ===== *)
theory MmuRuns
  imports MmuCache
begin

unbundle bit_operations_syntax

text \<open>
  Accesses with transparent translation, the instructions of the memory management unit and runs of
  both: each keeps the invariant, so every run answers as the tables do.
\<close>

section \<open>Runs\<close>

text \<open>What the processor does to the unit, with the address of an access as its result\<close>

datatype mmu_act = Fetch u32 nat | Load u32 bool nat | Store u32 u32 bool nat | Load_user u32 bool bool nat bool
  | Store_user u32 u32 bool nat bool | Instruction u32 | Set_tc u32 | Set_tt u32 u32 u32 u32 | Set_s bool | Set_dfc u32 | Set_areg nat u32

definition after :: "('m mmu + u32 \<times> 'm mmu) option \<Rightarrow> 'm mmu option" where
  "after x = map_option (\<lambda>r. case r of Inl s \<Rightarrow> s | Inr (pa, s) \<Rightarrow> s) x"

fun mmu_step :: "mmu_prefs \<Rightarrow> 'm bus040 \<Rightarrow> mmu_act \<Rightarrow> 'm mmu \<Rightarrow> 'm mmu option" where
  "mmu_step p b (Fetch addr sz) s = after (mmu_ins_addr p b addr sz s)"
| "mmu_step p b (Load addr dt sz) s = after (mmu_read_addr p b addr dt sz s)"
| "mmu_step p b (Store addr val dt sz) s = after (mmu_write_addr p b addr val dt sz s)"
| "mmu_step p b (Load_user addr su wr sz ci) s = after (mmu_read_user_addr p b addr su wr sz ci s)"
| "mmu_step p b (Store_user addr val su sz ci) s = after (mmu_write_user_addr p b addr val su sz ci s)"
| "mmu_step p b (Instruction opc) s = map_option (\<lambda>r. case r of Op_done t \<Rightarrow> t | Op_fault t \<Rightarrow> t | Op_illegal \<Rightarrow> s) (mmu_op_real p b opc s)"
| "mmu_step p b (Set_tc v) s = Some (let (tc, s) = mmu_set_tc_state p v s in s\<lparr>tcr := tc\<rparr>)"
| "mmu_step p b (Set_tt i0 i1 d0 d1) s = Some (mmu_tt_modified (s\<lparr>itt0 := i0, itt1 := i1, dtt0 := d0, dtt1 := d1\<rparr>))"
| "mmu_step p b (Set_s su) s = Some (s\<lparr>regs_s := su\<rparr>)"
| "mmu_step p b (Set_dfc v) s = Some (s\<lparr>dfc := v\<rparr>)"
| "mmu_step p b (Set_areg n v) s = Some (s\<lparr>areg := (areg s)(n := v)\<rparr>)"

primrec mmu_run :: "mmu_prefs \<Rightarrow> 'm bus040 \<Rightarrow> mmu_act list \<Rightarrow> 'm mmu \<Rightarrow> 'm mmu option" where
  "mmu_run p b [] s = Some s"
| "mmu_run p b (a # as) s = Option.bind (mmu_step p b a s) (mmu_run p b as)"

lemma view_other_fields [simp]:
  "view (s\<lparr>mmusr := v\<rparr>) = view s" "view (s\<lparr>areg := f\<rparr>) = view s" "view (s\<lparr>dfc := v\<rparr>) = view s" "view (s\<lparr>tcr := v\<rparr>) = view s"
  "view (s\<lparr>itt0 := v\<rparr>) = view s" "view (s\<lparr>itt1 := v\<rparr>) = view s" "view (s\<lparr>dtt0 := v\<rparr>) = view s" "view (s\<lparr>dtt1 := v\<rparr>) = view s"
  by (simp_all add: view_def)

lemma view_tt_modified: "view (mmu_tt_modified s) = view s"
  by (simp add: view_def mmu_tt_modified_def Let_def)

definition tt :: "u32 \<Rightarrow> bool \<Rightarrow> bool \<Rightarrow> 'm mmu \<Rightarrow> ttr_result" where
  "tt addr su dt s = fst (mmu_match_ttr addr su dt (s\<lparr>mmu_cache_state := cache_default_data s\<rparr>))"

lemma ttr_read:
  "(if \<not> mmu_ttr_enabled s then (TTR_NO_MATCH, s) else mmu_match_ttr addr su dt s) = mmu_match_ttr addr su dt s"
  "(if mmu_ttr_enabled s then mmu_match_ttr addr su dt s else (TTR_NO_MATCH, s)) = mmu_match_ttr addr su dt s"
  "(if \<not> mmu_ttr_enabled_ins s then (TTR_NO_MATCH, s) else mmu_match_ttr_ins addr su s) = mmu_match_ttr_ins addr su s"
  by (simp_all add: mmu_match_ttr_def mmu_match_ttr_ins_def)

text \<open>A write that a transparent translation register or the default protection stops, or its result\<close>

lemma ttr_write_cases:
  assumes "mmu_match_ttr addr su dt s = (res, t)"
  obtains (fault) s' where "mmu_match_ttr_write p addr su dt val sz s = Inl s'" "view s' = view s" "res \<noteq> TTR_NO_MATCH \<or> \<not> mmu_enabled s"
  | (pass) "mmu_match_ttr_write p addr su dt val sz s = Inr (res, t)"
proof -
  have v: "view t = view s" using view_match(1) [of addr su dt s] assms by simp
  then have en: "mmu_enabled t = mmu_enabled s" by (simp add: view_def)
  let ?f = "mmu_bus_error_ttr_write_fault p addr su dt val sz t"
  have e: "mmu_match_ttr_write p addr su dt val sz s = (if ttr_write_fault res t then Inl ?f else Inr (res, t))"
    unfolding mmu_match_ttr_write_def ttr_read(2) unfolding assms by simp
  have "view ?f = view s" using v by (simp add: mmu_bus_error_ttr_write_fault_def)
  moreover have "res \<noteq> TTR_NO_MATCH \<or> \<not> mmu_enabled s" if "ttr_write_fault res t"
    using that en by (auto simp: ttr_write_fault_def)
  ultimately show ?thesis using e fault pass by (cases "ttr_write_fault res t") simp_all
qed

lemma maybe_write_cases:
  assumes "mmu_match_ttr addr su dt s = (res, t)"
  obtains (fault) s' where "mmu_match_ttr_maybe_write p addr su dt sz wr s = Inl s'" "view s' = view s" "wr" "res \<noteq> TTR_NO_MATCH \<or> \<not> mmu_enabled s"
  | (pass) "mmu_match_ttr_maybe_write p addr su dt sz wr s = Inr (res, t)"
proof (cases wr)
  case True
  then have "mmu_match_ttr_maybe_write p addr su dt sz wr s = mmu_match_ttr_write p addr su dt 0 sz s"
    by (simp add: mmu_match_ttr_maybe_write_def mmu_match_ttr_write_def)
  then show ?thesis by (metis ttr_write_cases [OF assms, of p 0 sz thesis] fault pass True)
next
  case False
  then show ?thesis using pass by (simp add: mmu_match_ttr_maybe_write_def ttr_read assms)
qed

context table_memory begin

definition served :: "(u32 \<Rightarrow> u32) \<Rightarrow> 'm mmu \<Rightarrow> u32 \<Rightarrow> bool \<Rightarrow> bool \<Rightarrow> ttr_result \<Rightarrow> 'm mmu + u32 \<times> 'm mmu \<Rightarrow> bool" where
  "served L s addr su wr res x \<longleftrightarrow>
     (if res = TTR_NO_MATCH \<and> mmu_enabled s then answers L s addr su wr x
      else case x of Inl s' \<Rightarrow> wr \<and> mmu_inv L s' \<and> same s s' | Inr (pa, s') \<Rightarrow> pa = addr \<and> mmu_inv L s' \<and> same s s')"

lemma fast_answers:
  assumes "mmu_inv L s" "hit_ok L s su wr a x" "a AND mmu_pagemaski s = addr AND mmu_pagemaski s" "view t = view s"
  shows "answers L s addr su wr (Inr (x OR (addr AND mmu_pagemask s), t))"
proof -
  have "same s t" by (rule view_same [OF assms(4)])
  moreover have "hit_ok L t su wr addr x"
    using assms(2) hit_ok_page [OF assms(3)] hit_ok_cong [of t s] assms(4) by (simp add: view_def)
  ultimately show ?thesis using assms(1) mmu_inv_view [OF assms(4), of L] by (auto simp: answers_def)
qed

lemma page_hit:
  assumes "mmu_inv L s" "page_ok L s wr e" "fc_log e = page_idx addr su s" "view t = view s"
  shows "answers L s addr su wr (Inr (fc_phys e OR (addr AND mmu_pagemask s), t))"
proof -
  obtain su' a where a: "fc_log e = page_idx a su' s" "hit_ok L s su' wr a (fc_phys e)"
    using assms(2,3) page_idx_valid [of addr su s] by (auto simp: page_ok_def)
  then have pg: "su' = su" "a AND mmu_pagemaski s = addr AND mmu_pagemaski s" using same_idx [of a su' s addr su] assms(3) by simp_all
  show ?thesis by (rule fast_answers [OF assms(1) a(2) [unfolded pg(1)] pg(2) assms(4)])
qed

lemma read_page_answers:
  assumes "mmu_inv L s"
  shows "\<exists>x wr'. read_page p b addr su dt wr sz s = Some x \<and> answers L s addr su wr' x \<and> (wr' \<longrightarrow> wr)"
proof (cases "fc_log (atc_data_cache_read s (unat (page_idx addr su s AND 0xff))) = page_idx addr su s")
  case True
  define e where "e = atc_data_cache_read s (unat (page_idx addr su s AND 0xff))"
  have "page_ok L s False e" using assms by (simp add: mmu_inv_def e_def)
  then have "answers L s addr su False (Inr (fc_phys e OR (addr AND mmu_pagemask s), s\<lparr>mmu_cache_state := fc_state e\<rparr>))"
    by (rule page_hit [OF assms]) (simp_all add: True e_def)
  moreover have "read_page p b addr su dt wr sz s = Some (Inr (fc_phys e OR (addr AND mmu_pagemask s), s\<lparr>mmu_cache_state := fc_state e\<rparr>))"
    using True by (simp add: read_page_def fast_hit_def Let_def e_def)
  ultimately show ?thesis by blast
next
  case False
  then have "read_page p b addr su dt wr sz s = mmu_translate p b addr 0 su dt wr sz s" by (simp add: read_page_def Let_def)
  then show ?thesis using translate_answers [OF assms, of p addr 0 su dt wr sz] by auto
qed

lemma write_page_answers:
  assumes "mmu_inv L s"
  shows "\<exists>x. write_page p b addr val su dt sz s = Some x \<and> answers L s addr su True x"
proof (cases "fc_log (atc_data_cache_write s (unat (page_idx addr su s AND 0xff))) = page_idx addr su s")
  case True
  define e where "e = atc_data_cache_write s (unat (page_idx addr su s AND 0xff))"
  define t where "t = s\<lparr>mmu_cache_state := fc_state (atc_data_cache_read s (unat (page_idx addr su s AND 0xff)))\<rparr>"
  have "page_ok L s True e" using assms by (simp add: mmu_inv_def e_def)
  then have "answers L s addr su True (Inr (fc_phys e OR (addr AND mmu_pagemask s), t))"
    by (rule page_hit [OF assms]) (simp_all add: True e_def t_def)
  moreover have "write_page p b addr val su dt sz s = Some (Inr (fc_phys e OR (addr AND mmu_pagemask s), t))"
    using True by (simp add: write_page_def fast_hit_def Let_def e_def t_def)
  ultimately show ?thesis by blast
next
  case False
  then have "write_page p b addr val su dt sz s = mmu_translate p b addr val su dt True sz s" by (simp add: write_page_def Let_def)
  then show ?thesis using translate_answers [OF assms, of p addr val su dt True sz] by auto
qed

lemma answers_view: "view t = view s \<Longrightarrow> answers L t addr su wr x \<Longrightarrow> answers L s addr su wr x"
  by (rule answers_same [OF view_same])

lemma served_plain: "mmu_inv L s \<Longrightarrow> view t = view s \<Longrightarrow> \<not> (res = TTR_NO_MATCH \<and> mmu_enabled s) \<Longrightarrow> served L s addr su wr res (Inr (addr, t))"
  using mmu_inv_view [of t s L] view_same [of t s] by (auto simp: served_def)

lemma served_fault: "mmu_inv L s \<Longrightarrow> view t = view s \<Longrightarrow> res \<noteq> TTR_NO_MATCH \<or> \<not> mmu_enabled s \<Longrightarrow> served L s addr su True res (Inl t)"
  using mmu_inv_view [of t s L] view_same [of t s] by (auto simp: served_def)

lemma answers_served: "view t = view s \<Longrightarrow> answers L t addr su wr x \<Longrightarrow> res = TTR_NO_MATCH \<Longrightarrow> mmu_enabled s \<Longrightarrow> served L s addr su wr res x"
  using answers_view [of t s L addr su wr x] by (simp add: served_def)

lemma served_view: "view t = view s \<Longrightarrow> served L t addr su wr res x \<Longrightarrow> served L s addr su wr res x"
  using answers_view [of t s L addr su wr x] view_same [of t s] same_trans [of s t]
  by (auto simp: served_def view_def split: if_splits sum.splits)

lemma page_served:
  assumes "mmu_inv L s" "view t = view s" "P = Some x" "answers L t addr su wr x"
  shows "\<exists>x. (if res = TTR_NO_MATCH \<and> mmu_enabled t then P else Some (Inr (addr, t))) = Some x \<and> served L s addr su wr res x"
proof -
  have "mmu_enabled s = mmu_enabled t" using assms(2) by (simp add: view_def)
  then show ?thesis using answers_served [OF assms(2,4), of res] served_plain [OF assms(1,2), of res addr su wr] assms(3) by simp
qed

lemma read_served:
  assumes "mmu_inv L s"
  shows "\<exists>x. mmu_read_addr p b addr dt sz s = Some x \<and> served L s addr (regs_s s) False (tt addr (regs_s s) dt s) x"
proof -
  let ?s = "s\<lparr>mmu_cache_state := cache_default_data s\<rparr>"
  obtain res t where m: "mmu_match_ttr addr (regs_s s) dt ?s = (res, t)" by fastforce
  have v: "view t = view s" using view_match(1) [of addr "regs_s s" dt ?s] m by simp
  have r: "tt addr (regs_s s) dt s = res" using m by (simp add: tt_def)
  have f: "regs_s t = regs_s s" using v by (simp add: view_def)
  have e: "mmu_read_addr p b addr dt sz s = (if res = TTR_NO_MATCH \<and> mmu_enabled t then read_page p b addr (regs_s s) dt False sz t else Some (Inr (addr, t)))"
    using m unfolding mmu_read_addr_def Let_def ttr_read by (simp add: f)
  have "mmu_inv L t" using mmu_inv_view [OF v, of L] assms by simp
  from read_page_answers [OF this, of p addr "regs_s s" dt False sz]
  obtain x where x: "read_page p b addr (regs_s s) dt False sz t = Some x" "answers L t addr (regs_s s) False x" by auto
  show ?thesis unfolding e r by (rule page_served [OF assms v x])
qed

lemma write_served_at:
  assumes "mmu_inv L s" "view t = view s" "mmu_match_ttr addr su dt s = (res, t)" "g s = su" "g t = su"
  shows "\<exists>x. (case (if \<not> mmu_ttr_enabled s then Inr (TTR_NO_MATCH, s) else mmu_match_ttr_write p addr su dt val sz s) of Inl s \<Rightarrow> Some (Inl s)
    | Inr (res, s) \<Rightarrow> if res = TTR_NO_MATCH \<and> mmu_enabled s then write_page p b addr val (g s) dt sz s else Some (Inr (addr, s))) = Some x \<and>
    served L s addr su True res x"
proof -
  have go: "\<exists>x. (if res = TTR_NO_MATCH \<and> mmu_enabled t then write_page p b addr val su dt sz t else Some (Inr (addr, t))) = Some x \<and> served L s addr su True res x"
    using write_page_answers [of L t p addr val su dt sz] page_served [OF assms(1,2)] mmu_inv_view [OF assms(2), of L] assms(1) by blast
  show ?thesis
  proof (cases "mmu_ttr_enabled s")
    case False
    then have "res = TTR_NO_MATCH" "t = s" using assms(3) by (simp_all add: mmu_match_ttr_def)
    then show ?thesis using False go assms(4) by (cases "mmu_enabled s") simp_all
  next
    case True
    show ?thesis
    proof (rule ttr_write_cases [OF assms(3), of p val sz])
      fix s' assume s': "mmu_match_ttr_write p addr su dt val sz s = Inl s'" "view s' = view s" "res \<noteq> TTR_NO_MATCH \<or> \<not> mmu_enabled s"
      then show ?thesis using True served_fault [OF assms(1)] by simp
    next
      assume "mmu_match_ttr_write p addr su dt val sz s = Inr (res, t)"
      then show ?thesis using True go assms(5) by (cases "res = TTR_NO_MATCH \<and> mmu_enabled t") auto
    qed
  qed
qed

lemma write_served:
  assumes "mmu_inv L s"
  shows "\<exists>x. mmu_write_addr p b addr val dt sz s = Some x \<and> served L s addr (regs_s s) True (tt addr (regs_s s) dt s) x"
proof -
  let ?s = "s\<lparr>mmu_cache_state := cache_default_data s\<rparr>"
  obtain res t where m: "mmu_match_ttr addr (regs_s s) dt ?s = (res, t)" by fastforce
  have v: "view t = view ?s" using view_match(1) [of addr "regs_s s" dt ?s] m by simp
  have i: "mmu_inv L ?s" using mmu_inv_view [of ?s s L] assms by simp
  have r: "tt addr (regs_s s) dt s = res" using m by (simp add: tt_def)
  have f: "regs_s t = regs_s s" using v by (simp add: view_def)
  have g: "regs_s ?s = regs_s s" by simp
  from write_served_at [where g = regs_s, OF i v m g f, of p val sz] obtain x where
    "mmu_write_addr p b addr val dt sz s = Some x" "served L ?s addr (regs_s s) True res x"
    unfolding mmu_write_addr_def Let_def g by blast
  then show ?thesis using served_view [of ?s s L addr "regs_s s" True res x] r by auto
qed

lemma uncached_served: "served L s addr su wr res x \<Longrightarrow> \<exists>y. uncached ci (Some x) = Some y \<and> served L s addr su wr res y"
proof (cases x)
  case (Inr y)
  assume a: "served L s addr su wr res x"
  obtain pa t where y: "x = Inr (pa, t)" using Inr by (cases y) auto
  let ?t = "t\<lparr>mmu_cache_state := CACHE_DISABLE_MMU\<rparr>"
  have "mmu_inv L ?t = mmu_inv L t" "same s t \<Longrightarrow> same s ?t" "hit_ok L ?t su wr addr ph = hit_ok L t su wr addr ph" for ph
    by (rule mmu_inv_view, simp) (simp add: same_def, rule hit_ok_cong, simp_all)
  then have "served L s addr su wr res (Inr (pa, ?t))" using a unfolding y by (auto simp: served_def answers_def)
  then show ?thesis using a y by (cases ci) (simp_all add: uncached_def)
qed (simp add: uncached_def)

lemma uncached_case:
  "(case y of Inl s \<Rightarrow> Some (Inl s) | Inr (res, s) \<Rightarrow> uncached ci (f res s)) = uncached ci (case y of Inl s \<Rightarrow> Some (Inl s) | Inr (res, s) \<Rightarrow> f res s)"
  by (cases y) (auto simp: uncached_def)

lemma write_user_served:
  assumes "mmu_inv L s"
  shows "\<exists>x. mmu_write_user_addr p b addr val su sz ci s = Some x \<and> served L s addr su True (tt addr su True s) x"
proof -
  let ?s = "s\<lparr>mmu_cache_state := cache_default_data s\<rparr>"
  obtain res t where m: "mmu_match_ttr addr su True ?s = (res, t)" by fastforce
  have v: "view t = view ?s" using view_match(1) [of addr su True ?s] m by simp
  have i: "mmu_inv L ?s" using mmu_inv_view [of ?s s L] assms by simp
  have r: "tt addr su True s = res" using m by (simp add: tt_def)
  from write_served_at [where g = "\<lambda>s. su", OF i v m refl refl, of p val sz] obtain x where
    x: "mmu_write_user_addr p b addr val su sz ci s = uncached ci (Some x)" "served L ?s addr su True res x"
    unfolding mmu_write_user_addr_def Let_def uncached_case by fastforce
  then have "served L s addr su True res x" using served_view [of ?s s L addr su True res x] by simp
  from uncached_served [OF this, of ci] show ?thesis unfolding x(1) r .
qed

text \<open>A locked read asks for a write too, but a page in the cache of reads answers it.\<close>

lemma read_user_served:
  assumes "mmu_inv L s"
  shows "\<exists>x wr'. mmu_read_user_addr p b addr su wr sz ci s = Some x \<and> served L s addr su wr' (tt addr su True s) x \<and> (wr' \<longrightarrow> wr)"
proof -
  let ?s = "s\<lparr>mmu_cache_state := cache_default_data s\<rparr>"
  obtain res t where m: "mmu_match_ttr addr su True ?s = (res, t)" by fastforce
  have v: "view t = view ?s" using view_match(1) [of addr su True ?s] m by simp
  have i: "mmu_inv L ?s" using mmu_inv_view [of ?s s L] assms by simp
  have r: "tt addr su True s = res" using m by (simp add: tt_def)
  define y where "y = (if \<not> mmu_ttr_enabled ?s then Inr (TTR_NO_MATCH, ?s) else mmu_match_ttr_maybe_write p addr su True sz wr ?s)"
  have e: "mmu_read_user_addr p b addr su wr sz ci s = uncached ci (case y of Inl s \<Rightarrow> Some (Inl s)
    | Inr (res, s) \<Rightarrow> if res = TTR_NO_MATCH \<and> mmu_enabled s then read_page p b addr su True wr sz s else Some (Inr (addr, s)))"
    unfolding mmu_read_user_addr_def Let_def uncached_case y_def ..
  have "mmu_inv L t" using mmu_inv_view [OF v, of L] i by simp
  from read_page_answers [OF this, of p addr su True wr sz] obtain x wr' where
    x: "read_page p b addr su True wr sz t = Some x" "answers L t addr su wr' x" "wr' \<longrightarrow> wr" by blast
  have fin: ?thesis if "(case y of Inl s \<Rightarrow> Some (Inl s)
      | Inr (res, s) \<Rightarrow> if res = TTR_NO_MATCH \<and> mmu_enabled s then read_page p b addr su True wr sz s else Some (Inr (addr, s))) = Some z"
    "served L ?s addr su w res z" "w \<longrightarrow> wr" for z w
  proof -
    have "served L s addr su w res z" using served_view [of ?s s L addr su w res z] that(2) by simp
    from uncached_served [OF this, of ci] that(3) show ?thesis unfolding e that(1) r by blast
  qed
  consider (fault) s' where "y = Inl s'" "view s' = view ?s" "wr" "res \<noteq> TTR_NO_MATCH \<or> \<not> mmu_enabled ?s" | (pass) "y = Inr (res, t)"
  proof (cases "mmu_ttr_enabled s")
    case True
    then show ?thesis using maybe_write_cases [OF m, of p sz wr thesis] fault pass by (simp add: y_def)
  next
    case False
    then have "res = TTR_NO_MATCH" "t = ?s" using m by (simp_all add: mmu_match_ttr_def)
    then show ?thesis using False by (intro pass) (simp add: y_def)
  qed
  then show ?thesis
  proof cases
    case fault
    then show ?thesis using fin [of "Inl s'" True] served_fault [OF i fault(2,4)] by simp
  next
    case pass
    from page_served [OF i v x(1,2), of res] show ?thesis using fin [of _ wr'] x(3) unfolding pass by auto
  qed
qed

lemma ins_served:
  assumes "mmu_inv L s"
  shows "\<exists>x. mmu_ins_addr p b addr sz s = Some x \<and>
    served L s addr (regs_s s) False (fst (mmu_match_ttr_ins addr (regs_s s) (s\<lparr>mmu_cache_state := cache_default_ins s\<rparr>))) x"
proof -
  let ?s = "s\<lparr>mmu_cache_state := cache_default_ins s\<rparr>"
  obtain res t where m: "mmu_match_ttr_ins addr (regs_s s) ?s = (res, t)" by fastforce
  have v: "view t = view s" using view_match(2) [of addr "regs_s s" ?s] m by simp
  have f: "regs_s t = regs_s s" "mmu_pagemaski t = mmu_pagemaski s" using v masks_same [OF view_same [OF v], of addr False] by (simp_all add: view_def)
  have it: "mmu_inv L t" using mmu_inv_view [OF v, of L] assms by simp
  define P where "P = (if (addr AND mmu_pagemaski t) OR (if regs_s s then 1 else 0) = atc_last_ins_laddr t
    then Some (Inr (atc_last_ins_paddr t OR (addr AND mmu_pagemask t), t\<lparr>mmu_cache_state := atc_last_ins_cache t\<rparr>))
    else mmu_translate p b addr 0 (regs_s s) False False sz t)"
  have e: "mmu_ins_addr p b addr sz s = (if res = TTR_NO_MATCH \<and> mmu_enabled t then P else Some (Inr (addr, t)))"
  proof -
    have "regs_s ?s = regs_s s" by simp
    then show ?thesis unfolding mmu_ins_addr_def Let_def ttr_read(3) by (simp add: m f P_def)
  qed
  have "\<exists>x. P = Some x \<and> answers L t addr (regs_s s) False x"
  proof (cases "(addr AND mmu_pagemaski t) OR (if regs_s s then 1 else 0) = atc_last_ins_laddr t")
    case True
    then have "atc_last_ins_laddr t \<noteq> mmu_pagemask t" using laddr_valid [of addr t "regs_s s"] by simp
    then obtain su a where a: "atc_last_ins_laddr t = (a AND mmu_pagemaski t) OR (if su then 1 else 0)" "hit_ok L t su False a (atc_last_ins_paddr t)"
      using it by (auto simp: mmu_inv_def ins_ok_def)
    have pg: "su = regs_s s" "a AND mmu_pagemaski t = addr AND mmu_pagemaski t" using same_laddr [of a t su addr "regs_s s"] True a(1) by simp_all
    have "answers L t addr (regs_s s) False (Inr (atc_last_ins_paddr t OR (addr AND mmu_pagemask t), t\<lparr>mmu_cache_state := atc_last_ins_cache t\<rparr>))"
      by (rule fast_answers [OF it a(2) [unfolded pg(1)] pg(2)]) simp
    then show ?thesis using True by (simp add: P_def)
  next
    case False
    then show ?thesis using translate_answers [OF it, of p addr 0 "regs_s s" False False sz] by (simp add: P_def)
  qed
  then obtain x where x: "P = Some x" "answers L t addr (regs_s s) False x" by blast
  show ?thesis unfolding e m fst_conv by (rule page_served [OF assms v x])
qed

end

context table_memory begin

lemma invalidate_inv:
  assumes "mmu_inv L s" "view t = view (s\<lparr>mmu_atc_array := f\<rparr>)" "\<And>d i w. f d i w = mmu_atc_array s d i w \<or> \<not> l_valid (f d i w)"
  shows "mmu_inv L t"
proof -
  let ?s = "s\<lparr>mmu_atc_array := f\<rparr>"
  have same: "same s ?s" by (simp add: same_def)
  have c: "cache_ok L s i (f d i w)" for d i w
    using assms(1) assms(3) [of d i w] by (auto simp: mmu_inv_def cache_ok_def)
  have "mmu_inv L ?s" using assms(1) c ok_mono(3-5) [OF same] by (simp add: mmu_inv_def)
  then show ?thesis using mmu_inv_view [OF assms(2)] by simp
qed

lemma flush_atc_inv: "mmu_inv L s \<Longrightarrow> mmu_inv L (mmu_flush_atc addr su g s)"
  unfolding mmu_flush_atc_def Let_def
  by (rule flush_shortcut_inv [THEN conjunct1], erule invalidate_inv [OF _ refl]) auto

lemma flush_atc_all_inv: "mmu_inv L s \<Longrightarrow> mmu_inv L (mmu_flush_atc_all g s)"
  unfolding mmu_flush_atc_all_def Let_def
  by (rule flush_shortcut_inv [THEN conjunct1], erule invalidate_inv [OF _ refl]) auto

text \<open>Flushing everything gives the invariant, whatever was cached before\<close>

lemma flush_everything:
  assumes "ok (mem s)" "touched win L (long (mem s))"
  shows "mmu_inv L (mmu_flush_atc_all True s)"
  using assms by (simp add: mmu_inv_def mmu_flush_atc_all_def flush_shortcut_cache_def Let_def cache_ok_def page_ok_def no_page_def ins_ok_def mmu_pagemask_def)

lemma set_tc_inv:
  assumes "mmu_inv L s"
  shows "mmu_inv L (snd (mmu_set_tc_state p v s))"
proof -
  obtain t tc where "mmu_set_tc_state p v s = (tc, mmu_flush_atc_all True t)" "mem t = mem s"
    by (auto simp: mmu_set_tc_state_def Let_def)
  then show ?thesis using flush_everything [of t L] assms by (simp add: mmu_inv_def)
qed

lemma answers_inv: "answers L s addr su wr x \<Longrightarrow> mmu_inv L (case x of Inl t \<Rightarrow> t | Inr (pa, t) \<Rightarrow> t)"
  by (auto simp: answers_def split: sum.splits)

lemma served_inv: "served L s addr su wr res x \<Longrightarrow> mmu_inv L (case x of Inl t \<Rightarrow> t | Inr (pa, t) \<Rightarrow> t)"
  using answers_inv by (fastforce simp: served_def split: if_splits sum.splits)

lemma op_inv:
  assumes "mmu_inv L s"
  shows "\<exists>r. mmu_op_real p b opc s = Some r \<and> mmu_inv L (case r of Op_done t \<Rightarrow> t | Op_fault t \<Rightarrow> t | Op_illegal \<Rightarrow> s)"
proof -
  let ?su = "dfc s AND 4 \<noteq> 0" and ?n = "unat (opc AND 7)" and ?dt = "dfc s AND 3 \<noteq> 2"
  let ?a = "areg s ?n"
  have match: "mmu_inv L t'" if "mmu_match_ttr ?a ?su ?dt t = (res, t')" "mmu_inv L t" for t t' res
    using mmu_inv_view [of t' t L] view_match(1) [of ?a ?su ?dt t] that by simp
  consider (flush) "opc AND 0xfe0 = 0x500" | (test) "opc AND 0xfe0 \<noteq> 0x500" "opc AND 0xfd8 = 0x548"
    | (plpa) "opc AND 0xfe0 \<noteq> 0x500" "opc AND 0xfd8 \<noteq> 0x548" "opc AND 0xffb8 = 0xf588"
    | (ill) "opc AND 0xfe0 \<noteq> 0x500" "opc AND 0xfd8 \<noteq> 0x548" "opc AND 0xffb8 \<noteq> 0xf588" by blast
  then show ?thesis
  proof cases
    case flush
    then show ?thesis using flush_atc_inv flush_atc_all_inv assms by (simp add: mmu_op_real_def Let_def)
  next
    case test
    let ?wr = "opc AND 32 = 0"
    obtain res t where m: "mmu_match_ttr ?a ?su ?dt (mmu_flush_atc ?a ?su True s) = (res, t)" by fastforce
    have it: "mmu_inv L t" using match [OF m] flush_atc_inv [OF assms] by blast
    show ?thesis
    proof (cases "res = TTR_NO_MATCH \<and> \<not> mmu_ec p")
      case False
      have "mmu_inv L (t\<lparr>mmusr := v\<rparr>)" for v using mmu_inv_view [of "t\<lparr>mmusr := v\<rparr>" t L] it by simp
      then show ?thesis unfolding mmu_op_real_def Let_def m prod.case using test False it by simp
    next
      case nt: True
      from fill_atc [OF it, of p ?a ?su ?wr ?dt "free_way (mmu_atc_array t ?dt (atc_index ?a t)) (way_random t)"]
      obtain st bits u where u: "mmu_fill_atc p b ?a ?su (atc_tag ?a ?su t) ?wr ?dt (atc_index ?a t)
          (free_way (mmu_atc_array t ?dt (atc_index ?a t)) (way_random t)) t = (st, bits, u)"
        "fills p L t ?a ?su ?wr ?dt (free_way (mmu_atc_array t ?dt (atc_index ?a t)) (way_random t)) bits u" by blast
      have "mmu_op_real p b opc s = Some (Op_done (u\<lparr>mmusr := st\<rparr>))"
        unfolding mmu_op_real_def Let_def m prod.case u(1) using test nt by simp
      then show ?thesis using u(2) [unfolded fills_def] mmu_inv_view [of "u\<lparr>mmusr := st\<rparr>" u L] by simp
    qed
  next
    case plpa
    have trans: ?thesis if e: "mmu_op_real p b opc s = (if res = TTR_NO_MATCH \<and> \<not> mmu_ec p then
        map_option (\<lambda>r. case r of Inl s \<Rightarrow> Op_fault s | Inr (pa, s) \<Rightarrow> Op_done (s\<lparr>areg := (areg s)(?n := pa)\<rparr>))
          (mmu_translate p b ?a 0 ?su ?dt wr 1 t) else Some (Op_done t))" and it: "mmu_inv L t" for res t wr
    proof -
      obtain x where x: "mmu_translate p b ?a 0 ?su ?dt wr 1 t = Some x" "answers L t ?a ?su wr x"
        using translate_answers [OF it] by blast
      have "mmu_inv L (case x of Inl t \<Rightarrow> t | Inr (pa, t) \<Rightarrow> t\<lparr>areg := (areg t)(?n := pa)\<rparr>)"
        using answers_inv [OF x(2)] mmu_inv_view [of "t\<lparr>areg := f\<rparr>" t L for t f] by (auto split: sum.splits)
      then show ?thesis using x(1) e it by (auto split: sum.splits)
    qed
    show ?thesis
    proof (cases "opc AND 0x40 = 0")
      case False
      obtain res t where m: "mmu_match_ttr ?a ?su ?dt s = (res, t)" by fastforce
      show ?thesis
        by (rule trans [of res False t]) (use plpa False m match [OF m assms] in \<open>simp_all add: mmu_op_real_def Let_def\<close>)
    next
      case True
      obtain res t where m: "mmu_match_ttr ?a ?su ?dt s = (res, t)" by fastforce
      show ?thesis
      proof (rule ttr_write_cases [OF m, of p 0 1])
        fix s' assume "mmu_match_ttr_write p ?a ?su ?dt 0 1 s = Inl s'" "view s' = view s"
        then show ?thesis using plpa True mmu_inv_view [of s' s L] assms by (simp add: mmu_op_real_def Let_def)
      next
        assume "mmu_match_ttr_write p ?a ?su ?dt 0 1 s = Inr (res, t)"
        then show ?thesis
          by (intro trans [of res True t]) (use plpa True match [OF m assms] in \<open>simp_all add: mmu_op_real_def Let_def\<close>)
      qed
    qed
  next
    case ill
    then show ?thesis using assms by (simp add: mmu_op_real_def Let_def)
  qed
qed

lemma step_inv:
  assumes "mmu_inv L s"
  shows "\<exists>t. mmu_step p b act s = Some t \<and> mmu_inv L t"
proof -
  have a: "\<exists>t. after y = Some t \<and> mmu_inv L t" if "\<exists>x. y = Some x \<and> served L s addr su wr res x" for y addr su wr res
    using that served_inv by (fastforce simp: after_def)
  show ?thesis
  proof (cases act)
    case (Load_user addr su wr sz ci)
    then show ?thesis using a read_user_served [OF assms, of p addr su wr sz ci] by fastforce
  next
    case (Instruction opc)
    then show ?thesis using op_inv [OF assms, of p opc] by auto
  next
    case (Set_tc v)
    then show ?thesis using set_tc_inv [OF assms, of p v] mmu_inv_view [of "u\<lparr>tcr := v\<rparr>" u L for u v] by (simp add: Let_def case_prod_beta)
  next
    case (Set_tt i0 i1 d0 d1)
    let ?t = "s\<lparr>itt0 := i0, itt1 := i1, dtt0 := d0, dtt1 := d1\<rparr>"
    have "view (mmu_tt_modified ?t) = view s" unfolding view_tt_modified by simp
    then show ?thesis using mmu_inv_view [of "mmu_tt_modified ?t" s L] assms Set_tt by simp
  next
    case (Fetch addr sz)
    then show ?thesis using a ins_served [OF assms, of p addr sz] by fastforce
  next
    case (Load addr dt sz)
    then show ?thesis using a read_served [OF assms, of p addr dt sz] by fastforce
  next
    case (Store addr val dt sz)
    then show ?thesis using a write_served [OF assms, of p addr val dt sz] by fastforce
  next
    case (Store_user addr val su sz ci)
    then show ?thesis using a write_user_served [OF assms, of p addr val su sz ci] by fastforce
  next
    case (Set_s su)
    then show ?thesis using assms by (simp add: mmu_inv_regs_s)
  next
    case (Set_dfc v)
    then show ?thesis using assms mmu_inv_view [of "s\<lparr>dfc := v\<rparr>" s L] by simp
  next
    case (Set_areg n v)
    then show ?thesis using assms mmu_inv_view [of "s\<lparr>areg := (areg s)(n := v)\<rparr>" s L] by simp
  qed
qed

lemma run_inv: "mmu_inv L s \<Longrightarrow> \<exists>t. mmu_run p b acts s = Some t \<and> mmu_inv L t"
proof (induction acts arbitrary: s)
  case (Cons act acts)
  from step_inv [OF Cons.prems, of p act] obtain t where "mmu_step p b act s = Some t" "mmu_inv L t" by blast
  then show ?case using Cons.IH [of t] by simp
qed simp

end

end
