(* ===== verification/MmuRam.thy ===== *)
theory MmuRam
  imports MmuRuns
begin

unbundle bit_operations_syntax

text \<open>
  The memory management unit with its tables in RAM: RAM is an interpretation of \<open>table_memory\<close>, and
  the theorems on runs follow; where the code departs from the processor, and an example.
\<close>

section \<open>Tables in RAM\<close>

text \<open>The bus of a machine where only a window of RAM answers, at long words\<close>

definition ram_only :: "nat \<Rightarrow> u32 \<Rightarrow> 'd memory bus040" where
  "ram_only k base = \<lparr>phys_get = (\<lambda>m a. if fits k base a 4 then memory_get_long m a else None),
     phys_put = (\<lambda>m a v. if fits k base a 4 then memory_put_long m a v else None), ce_cachable = (\<lambda>bank. 3)\<rparr>"

definition ram_long :: "'d memory \<Rightarrow> u32 \<Rightarrow> u32" where
  "ram_long m a = be32 (ram_byte m a) (ram_byte m (a + 1)) (ram_byte m (a + 2)) (ram_byte m (a + 3))"

definition longs :: "nat \<Rightarrow> u32 \<Rightarrow> u32 set" where
  "longs k base = {a. fits k base a 4 \<and> aligned4 a}"

lemma aligned_base:
  assumes "aligned4 a" "j AND NOT 3 = 0"
  shows "(a + j) AND NOT 3 = a"
proof -
  have a: "a AND 3 = 0" using assms(1) by (simp add: aligned4_def)
  have aj: "a AND j = 0" using and_disjoint [OF assms(2), of a] a by (simp add: and.commute)
  have "a AND NOT 3 = a"
  proof -
    have "a = (a AND 3) OR (a AND NOT 3)" by (rule bit_eqI) (auto simp: bit_simps)
    then show ?thesis using a by simp
  qed
  then show ?thesis using disjunctive_add_eq_or [OF aj] assms(2) by (simp only: bit.conj_disj_distrib2 or.right_neutral)
qed

lemma aligned_bytes:
  assumes "aligned4 a" "aligned4 c" "c + i = a + j" "i AND NOT 3 = 0" "j AND NOT 3 = 0"
  shows "c = a \<and> i = j"
proof -
  have "c = a" using aligned_base [OF assms(1,5)] aligned_base [OF assms(2,4)] assms(3) by simp
  then show ?thesis using assms(3) by simp
qed

lemma offsets: "(0 :: u32) AND NOT 3 = 0" "(1 :: u32) AND NOT 3 = 0" "(2 :: u32) AND NOT 3 = 0" "(3 :: u32) AND NOT 3 = 0"
  by code_simp+

interpretation ram_tables: table_memory "ram_only k base" ram_long "ram_at k base" "longs k base"
  for k base
proof unfold_locales
  fix m :: "'a memory" and a v :: u32
  assume r: "ram_at k base m"
  show "phys_get (ram_only k base) m a = Some (ram_long m a, m)" if "a \<in> longs k base"
    using memory_bus.get32 [OF r, of a] that by (simp add: ram_only_def longs_def ram_long_def)
  show "phys_get (ram_only k base) m a = None" if "aligned4 a" "a \<notin> longs k base"
    using that by (simp add: ram_only_def longs_def)
  assume "a \<in> longs k base"
  then have a: "fits k base a 4" "aligned4 a" by (simp_all add: longs_def)
  obtain t where t: "memory_put_long m a v = Some t" "ram_at k base t"
    "\<forall>b \<in> window k base. ram_byte t b =
        (if b = a then ucast (drop_bit 24 v) else if b = a + 1 then ucast (drop_bit 16 v)
         else if b = a + 2 then ucast (drop_bit 8 v) else if b = a + 3 then ucast v else ram_byte m b)"
    using memory_bus.put32 [OF r a(1), of v] by blast
  have "ram_long t c = (if c = a then v else ram_long m c)" if c: "fits k base c 4" "aligned4 c" for c
  proof -
    have w: "c \<in> window k base" "c + 1 \<in> window k base" "c + 2 \<in> window k base" "c + 3 \<in> window k base"
      using memory_bus.room_window [OF r c(1), of 0] memory_bus.room_window [OF r c(1), of 1]
        memory_bus.room_window [OF r c(1), of 2] memory_bus.room_window [OF r c(1), of 3] by simp_all
    show ?thesis
    proof (cases "c = a")
      case True
      then show ?thesis using t(3) w by (simp add: ram_long_def be32_of_bytes)
    next
      case False
      have "c + i \<noteq> a + j" if "i AND NOT 3 = 0" "j AND NOT 3 = 0" for i j
        using aligned_bytes [OF a(2) c(2) _ that] False by blast
      then have "ram_byte t (c + i) = ram_byte m (c + i)" if "c + i \<in> window k base" "i AND NOT 3 = 0" for i
        using t(3) that offsets by (metis add.right_neutral)
      then show ?thesis using False w offsets unfolding ram_long_def by (metis add.right_neutral)
    qed
  qed
  then show "\<exists>m'. phys_put (ram_only k base) m a v = Some m' \<and> ram_at k base m' \<and>
      (\<forall>c\<in>longs k base. ram_long m' c = (if c = a then v else ram_long m c))"
    using t a by (auto simp: ram_only_def longs_def)
qed

lemma flushed: "ram_at k base (mem s) \<Longrightarrow> ram_tables.mmu_inv k base (ram_long (mem s)) (mmu_flush_atc_all True s)"
  by (rule ram_tables.flush_everything) simp_all

text \<open>C14: from a flush on, every run of fetches, loads, stores, MOVES and locked accesses, flush, test
  and translate instructions, and changes of the control, transparent translation and function code
  registers goes on to its end, and all that the unit does to the tables in RAM is to set used and
  modified bits of descriptors.\<close>

theorem mmu_runs:
  assumes "ram_at k base (mem s)"
  shows "\<exists>t. mmu_run p (ram_only k base) acts (mmu_flush_atc_all True s) = Some t \<and> ram_at k base (mem t) \<and>
    (\<forall>a \<in> longs k base. \<exists>x. x AND NOT 0x18 = 0 \<and> ram_long (mem t) a = ram_long (mem s) a OR x)"
  using ram_tables.run_inv [OF flushed [OF assms], of p acts]
  by (auto simp: ram_tables.mmu_inv_def touched_def history_def)

definition answer :: "'m mmu \<Rightarrow> u32 option \<Rightarrow> ('m mmu + u32 \<times> 'm mmu) option" where
  "answer u r = Some (case r of None \<Rightarrow> Inl u | Some pa \<Rightarrow> Inr (pa, u))"

lemma answers_answer:
  assumes "ram_tables.answers k base L t addr su wr x" "look L (longs k base) su addr t = (False, r)"
  shows "\<exists>u. Some x = answer u (translation r su wr (mmu_pagemask t) addr) \<and>
    (\<forall>a d w. r = Page a d w \<and> allowed su wr d w \<and> wr \<longrightarrow> ram_long (mem u) a AND 0x18 = 0x18)"
proof (cases x)
  case (Inl u)
  then show ?thesis using assms by (intro exI [of _ u]) (auto simp: ram_tables.answers_def answer_def translation_def split: search.splits)
next
  case (Inr y)
  then obtain pa u where x: "x = Inr (pa, u)" by (cases y) auto
  from assms(1) obtain ph where ph: "pa = ph OR (addr AND mmu_pagemask t)" "ram_tables.hit_ok k base L u su wr addr ph" "same t u"
    by (auto simp: x ram_tables.answers_def)
  have "look L (longs k base) su addr u = (False, r)" using look_same [OF ph(3), of L "longs k base" su addr] assms(2) by simp
  moreover have "mmu_pagemaski u = NOT (mmu_pagemask t)" using masks_same [OF ph(3), of addr su] by (simp add: mmu_pagemaski_def)
  ultimately show ?thesis using ph(2) unfolding x ph(1)
    by (intro exI [of _ u]) (auto simp: ram_tables.hit_ok_def answer_def translation_def)
qed

text \<open>C12: after any such run, a read that no transparent translation register matches gets the physical
  address that a search of the tables gives, as they were at the flush, and faults where the search
  finds no page or one that the access must not touch: whatever the three levels of caches hold,
  they answer as the tables do (for pages found without an indirect descriptor).\<close>

theorem mmu_reads_follow_tables:
  assumes "ram_at k base (mem s)" "mmu_run p (ram_only k base) acts (mmu_flush_atc_all True s) = Some t"
    and "tt addr (regs_s t) dt t = TTR_NO_MATCH" "mmu_enabled t"
    and "look (ram_long (mem s)) (longs k base) (regs_s t) addr t = (False, r)"
  shows "\<exists>u. mmu_read_addr p (ram_only k base) addr dt sz t = answer u (translation r (regs_s t) False (mmu_pagemask t) addr)"
proof -
  have "ram_tables.mmu_inv k base (ram_long (mem s)) t" using ram_tables.run_inv [OF flushed [OF assms(1)], of p acts] assms(2) by auto
  from ram_tables.read_served [OF this, of p addr dt sz] obtain x where
    x: "mmu_read_addr p (ram_only k base) addr dt sz t = Some x" "ram_tables.answers k base (ram_long (mem s)) t addr (regs_s t) False x"
    using assms(3,4) by (auto simp: ram_tables.served_def)
  then show ?thesis using answers_answer [OF x(2) assms(5)] by auto
qed

text \<open>C13: after any such run, a store that no transparent translation register matches, to an address
  whose page the tables give directly, without an indirect descriptor, goes to the
  physical address of the tables, or faults on a page that is write protected or the supervisor's;
  and when it goes through, the descriptor of the page in memory has its used and modified bits,
  however often the page was in the caches before. (The marks of a page reached through an indirect
  descriptor are not treated.)\<close>

theorem mmu_stores_mark_pages:
  assumes "ram_at k base (mem s)" "mmu_run p (ram_only k base) acts (mmu_flush_atc_all True s) = Some t"
    and "tt addr (regs_s t) dt t = TTR_NO_MATCH" "mmu_enabled t"
    and "look (ram_long (mem s)) (longs k base) (regs_s t) addr t = (False, Page a d w)"
  shows "\<exists>u. mmu_write_addr p (ram_only k base) addr val dt sz t = answer u (translation (Page a d w) (regs_s t) True (mmu_pagemask t) addr) \<and>
    (allowed (regs_s t) True d w \<longrightarrow> ram_long (mem u) a AND 0x18 = 0x18)"
proof -
  have "ram_tables.mmu_inv k base (ram_long (mem s)) t" using ram_tables.run_inv [OF flushed [OF assms(1)], of p acts] assms(2) by auto
  from ram_tables.write_served [OF this, of p addr val dt sz] obtain x where
    x: "mmu_write_addr p (ram_only k base) addr val dt sz t = Some x" "ram_tables.answers k base (ram_long (mem s)) t addr (regs_s t) True x"
    using assms(3,4) by (auto simp: ram_tables.served_def)
  then show ?thesis using answers_answer [OF x(2) assms(5)] by auto
qed

section \<open>Where the code departs from the processor\<close>

text \<open>C40: while the unit is disabled, and no transparent translation register matches, the default
  write protection of the control register stops a store if and only if some transparent
  translation register is enabled; without one the store goes through (the processor protects
  either way).\<close>

theorem default_protection_needs_ttr:
  assumes "\<not> mmu_enabled s" "tcr s AND 0x20 \<noteq> 0" "tt addr (regs_s s) dt s = TTR_NO_MATCH"
  shows "(\<exists>t. mmu_write_addr p b addr val dt sz s = Some (Inl t)) \<longleftrightarrow> mmu_ttr_enabled s"
proof -
  let ?s = "s\<lparr>mmu_cache_state := cache_default_data s\<rparr>"
  obtain t where m: "mmu_match_ttr addr (regs_s s) dt ?s = (TTR_NO_MATCH, t)"
    using assms(3) unfolding tt_def by (cases "mmu_match_ttr addr (regs_s s) dt ?s") simp
  have "t = ?s"
    using m unfolding mmu_match_ttr_def match_two_def mmu_do_match_ttr_def Let_def by (auto split: if_splits prod.splits)
  then show ?thesis
    using assms(1,2) m by (auto simp: mmu_write_addr_def Let_def mmu_match_ttr_write_def ttr_write_fault_def)
qed

text \<open>A locked read of a page in the cache of reads is not checked for writing.\<close>

lemma locked_read_unchecked:
  assumes "fc_log (atc_data_cache_read s (unat (page_idx addr su s AND 0xff))) = page_idx addr su s"
  shows "read_page p b addr su True True sz s = read_page p b addr su True False sz s"
  using assms by (simp add: read_page_def Let_def)

text \<open>The region from 0x08000000 to 0x17ffffff, and an address beyond it that its register matches too\<close>

lemma transparent_region_too_wide:
  "fst (mmu_do_match_ttr (dtt1 (mmu_make_transparent_region 0x08000000 0x10000000 True (s\<lparr>dtt1 := 0\<rparr>))) 0x1f000000 False s) = TTR_OK_MATCH"
  by (simp add: mmu_make_transparent_region_def mmu_do_match_ttr_def Let_def)

section \<open>The cache mode of a page written twice\<close>

definition no_reads :: "'m mmu \<Rightarrow> bool" where
  "no_reads s \<longleftrightarrow> (\<forall>i. fc_state (atc_data_cache_read s i) = 0xff)"

lemma fill_no_reads:
  assumes f: "mmu_fill_atc p b addr su tag wr dt ix way s = (st, bits, t)" and "no_reads s"
  shows "no_reads t"
proof -
  define x where "x = table_search b addr su wr (s\<lparr>regs_s := True\<rparr>)"
  have "rest (out_state x) = rest (s\<lparr>regs_s := True\<rparr>)" by (simp add: x_def rest_table_search)
  then have k: "no_reads (out_state x)"
    using rest_fields(9) [of "out_state x" "s\<lparr>regs_s := True\<rparr>"] assms(2) by (simp add: no_reads_def)
  show ?thesis
    using f k unfolding mmu_fill_atc_def Let_def x_def [symmetric] flush_shortcut_cache_def set_line_def
    by (cases x) (auto simp: out_state_def no_reads_def forget_def no_page_def split: if_splits)
qed

lemma retry_write:
  assumes "atc_retry p addr val su True True sz st way s = Hit pa t" "no_reads s" "unat (page_idx addr su s AND 0xff) < 255"
  shows "no_reads t \<and> mmu_pagesize_8k t = mmu_pagesize_8k s \<and> fc_log (atc_data_cache_write t (unat (page_idx addr su s AND 0xff))) = page_idx addr su s \<and>
    (\<exists>l. mmu_cache_state t = cache_mode l)"
proof -
  have pg: "page_idx addr su (s\<lparr>mmu_atc_ways := f, mmu_cache_state := c\<rparr>) = page_idx addr su s" for f c
    by (simp add: page_idx_def mmu_pagemaski_def mmu_pagemask_def mmu_pageshift1m_def)
  show ?thesis
    using assms unfolding atc_retry_def Let_def mmu_add_cache_def pg
    by (auto simp: no_reads_def split: if_splits)
qed

lemma page_idx_cong: "mmu_pagesize_8k t = mmu_pagesize_8k s \<Longrightarrow> page_idx addr su t = page_idx addr su s"
  by (simp add: page_idx_def mmu_pagemaski_def mmu_pagemask_def mmu_pageshift1m_def)

lemma translate_write:
  assumes "mmu_translate p b addr val su True True sz s = Some (Inr (pa, t))" "no_reads s" "unat (page_idx addr su s AND 0xff) < 255"
  shows "no_reads t \<and> mmu_pagesize_8k t = mmu_pagesize_8k s \<and> fc_log (atc_data_cache_write t (unat (page_idx addr su s AND 0xff))) = page_idx addr su s \<and>
    (\<exists>l. mmu_cache_state t = cache_mode l)"
proof -
  define s1 where "s1 = s\<lparr>way_random := way_random s + 1\<rparr>"
  have hit: ?thesis if "atc_retry p addr val su True True sz st way u = Hit pa t" "no_reads u" "mmu_pagesize_8k u = mmu_pagesize_8k s" for st way u
    using retry_write [OF that(1,2)] assms(3) that(3) page_idx_cong [OF that(3), of addr su] by simp
  have n1: "no_reads s1" "mmu_pagesize_8k s1 = mmu_pagesize_8k s" using assms(2) by (simp_all add: s1_def no_reads_def)
  have fill: ?thesis if f: "translate_fill p b addr val su True True sz 0 winv s1 = Some (Inr (pa, t))" for winv
  proof (rule translate_fill_once [of s1 p b addr su True True val sz 0 winv])
    fix status bits way v u
    assume v: "v = s1\<lparr>way_random := way_random s1 mod 4\<rparr>"
      and fl: "mmu_fill_atc p b addr su (atc_tag addr su v) True True (atc_index addr v) way v = (status, bits, u)"
      and e: "translate_fill p b addr val su True True sz 0 winv s1 =
      (if 0 OR bits \<noteq> 0 \<and> mmu_060 p then Some (Inl (mmu_bus_error p addr val (mmu_get_fc su True) True sz (0 OR bits) False u))
       else case atc_retry p addr val su True True sz (0 OR bits) way (u\<lparr>way_random := way_random u + 1\<rparr>) of
          Hit_fault s \<Rightarrow> Some (Inl s) | Hit pa s \<Rightarrow> Some (Inr (pa, s)) | Hit_unmodified \<Rightarrow> None)"
    have "no_reads u" by (rule fill_no_reads [OF fl]) (use n1(1) in \<open>simp add: v no_reads_def\<close>)
    moreover have "mmu_pagesize_8k u = mmu_pagesize_8k s" using fill_settled(2) [OF fl] n1(2) by (simp add: v)
    moreover have "atc_retry p addr val su True True sz (0 OR bits) way (u\<lparr>way_random := way_random u + 1\<rparr>) = Hit pa t"
      using e f by (auto split: if_splits atc_hit.splits)
    ultimately show ?thesis by (intro hit [of "0 OR bits" way "u\<lparr>way_random := way_random u + 1\<rparr>"]) (simp_all add: no_reads_def)
  qed
  show ?thesis
    using assms(1) fill hit [OF _ n1] unfolding mmu_translate_def Let_def s1_def [symmetric] by (auto split: sum.splits atc_hit.splits)
qed

text \<open>after a flush the first store to a page is made with a cache mode of the page, and the
  next one to it with the mode 0xff, which is no cache mode: the cache of pages for writes takes
  the address from its own entry and the mode from the entry for reads.\<close>

theorem second_store_cache_mode:
  assumes "write_page p b addr val su True sz (mmu_flush_atc_all True s) = Some (Inr (pa, t))" "unat (page_idx addr su s AND 0xff) < 255"
  shows "(\<exists>l. mmu_cache_state t = cache_mode l) \<and>
    (\<exists>pa u. write_page p b addr val' su True sz t = Some (Inr (pa, u)) \<and> mmu_cache_state u = 0xff)"
proof -
  let ?f = "mmu_flush_atc_all True s"
  have k: "mmu_pagesize_8k ?f = mmu_pagesize_8k s" "no_reads ?f" "fc_log (atc_data_cache_write ?f i) = 0xffffffff" for i
    by (simp_all add: mmu_flush_atc_all_def flush_shortcut_cache_def Let_def no_reads_def no_page_def)
  note ix = page_idx_cong [OF k(1), of addr su]
  have "mmu_translate p b addr val su True True sz ?f = Some (Inr (pa, t))"
    using assms(1) page_idx_valid [of addr su ?f] by (auto simp: write_page_def Let_def k(3))
  from translate_write [OF this k(2)] have t: "no_reads t" "mmu_pagesize_8k t = mmu_pagesize_8k s"
    "fc_log (atc_data_cache_write t (unat (page_idx addr su s AND 0xff))) = page_idx addr su s" "\<exists>l. mmu_cache_state t = cache_mode l"
    using assms(2) k(1) by (auto simp: ix)
  then show ?thesis using page_idx_cong [OF t(2), of addr su] by (simp add: write_page_def Let_def no_reads_def)
qed

section \<open>An example\<close>

text \<open>A root and a pointer table at 0 with the page descriptor of 0x42000 at 8: the page at 0x7000\<close>

definition mmu_ram :: "unit memory" where
  "mmu_ram = \<lparr>mem_banks = (\<lambda>_. 0),
     the_banks = (\<lambda>_. \<lparr>baseaddr = [0, 0, 0, 3, 0, 0, 0, 3, 0, 0, 0x70, 3, 0, 0, 0, 0], ab_mask = 0xf, startaccessmask = 0, allocated_size = 0x10,
        direct_r = False, direct_w = True, fns = None\<rparr>), mem_dev = ()\<rparr>"

definition mmu_example :: "unit memory mmu" where
  "mmu_example = \<lparr>urp = 0, srp = 0, itt0 = 0, itt1 = 0, dtt0 = 0, dtt1 = 0, tcr = 0x8000, mmusr = 0, sfc = 0, dfc = 0, regs_s = False,
     areg = (\<lambda>_. 0), instruction_pc = 0, mmu_enabled = True, mmu_pagesize_8k = False, mmu_ttr_enabled = False,
     mmu_ttr_enabled_ins = False, mmu_ttr_enabled_data = False, mmu_cache_state = 0, cache_default_ins = 0xc3, cache_default_data = 0xc3,
     mmu_atc_array = (\<lambda>_ _ _. \<lparr>l_tag = 0, l_valid = True, l_status = 0, l_phys = 0\<rparr>), mmu_atc_ways = (\<lambda>_. 0), way_random = 0,
     atc_last_ins_laddr = 0, atc_last_ins_paddr = 0, atc_last_ins_cache = 0, atc_data_cache_read = (\<lambda>_. no_page),
     atc_data_cache_write = (\<lambda>_. no_page), ismoves = False, rmw_cycle = False, locked_rmw_cycle = False, mmu060_state = 0,
     mmu040_movem = False, mmu040_movem_ea = 0, mmu_ssw = 0, mmu_fslw = 0, mmu_fault_addr = 0, mmu_effective_addr = 0,
     wb2_status = 0, wb2_address = 0, wb3_status = 0, wb3_data = 0, mem = mmu_ram\<rparr>"

definition prefs_040 :: mmu_prefs where
  "prefs_040 = \<lparr>mmu_060 = False, mmu_ec = False, cpu_040 = True\<rparr>"

definition acts_example :: "mmu_act list" where
  "acts_example = [Load 0x42abc True 2, Store 0x42ab8 1 True 2, Instruction 0x510]"

lemma mmu_example_at: "ram_at 4 0 (mem mmu_example)"
  by (simp add: ram_at_def mmu_example_def mmu_ram_def ram_bank_def get_mem_bank_def mask_eq_exp_minus_1)

lemma run_example_fields:
  "map_option (\<lambda>t. (regs_s t, urp t, mmu_pagesize_8k t, mmu_enabled t, tt 0x42abc False True t))
    (mmu_run prefs_040 (ram_only 4 0) acts_example (mmu_flush_atc_all True mmu_example)) = Some (False, 0, False, True, TTR_NO_MATCH)"
  by code_simp

lemma run_example:
  obtains t where "mmu_run prefs_040 (ram_only 4 0) acts_example (mmu_flush_atc_all True mmu_example) = Some t" "regs_s t = False"
    "mmu_enabled t" "tt 0x42abc (regs_s t) True t = TTR_NO_MATCH" "mmu_pagemask t = 0xfff"
    "look (ram_long (mem mmu_example)) (longs 4 0) (regs_s t) 0x42abc t = (False, Page 8 0x7003 0)"
proof -
  obtain t where t: "mmu_run prefs_040 (ram_only 4 0) acts_example (mmu_flush_atc_all True mmu_example) = Some t" "regs_s t = False" "urp t = 0"
    "mmu_pagesize_8k t = False" "mmu_enabled t" "tt 0x42abc (regs_s t) True t = TTR_NO_MATCH"
    using run_example_fields by auto
  have w: "0 \<in> longs 4 0" "4 \<in> longs 4 0" "8 \<in> longs 4 0" by (simp_all add: longs_def fits_def aligned4_def)
  have l: "ram_long (mem mmu_example) 0 = 3" "ram_long (mem mmu_example) 4 = 3" "ram_long (mem mmu_example) 8 = 0x7003"
    by code_simp+
  have "look (ram_long (mem mmu_example)) (longs 4 0) (regs_s t) 0x42abc t = (False, Page 8 0x7003 0)"
    using w l by (simp add: look_def search_def search_page_def leaf_def page_desc_addr_def root_index_def ptr_index_def t(2-4))
  then show ?thesis using that t by (simp add: mmu_pagemask_def)
qed

lemma mmu_runs_witness:
  "\<exists>t. mmu_run prefs_040 (ram_only 4 0) acts_example (mmu_flush_atc_all True mmu_example) = Some t \<and> ram_at 4 0 (mem t)"
  using mmu_runs [OF mmu_example_at, of prefs_040 acts_example] by blast

lemma mmu_reads_follow_tables_witness:
  "\<exists>t u. mmu_run prefs_040 (ram_only 4 0) acts_example (mmu_flush_atc_all True mmu_example) = Some t \<and>
    mmu_read_addr prefs_040 (ram_only 4 0) 0x42abc True 2 t = Some (Inr (0x7abc, u))"
proof (rule run_example)
  fix t assume t: "mmu_run prefs_040 (ram_only 4 0) acts_example (mmu_flush_atc_all True mmu_example) = Some t" "regs_s t = False"
    "mmu_enabled t" "tt 0x42abc (regs_s t) True t = TTR_NO_MATCH" "mmu_pagemask t = 0xfff"
    "look (ram_long (mem mmu_example)) (longs 4 0) (regs_s t) 0x42abc t = (False, Page 8 0x7003 0)"
  from mmu_reads_follow_tables [OF mmu_example_at t(1,4,3,6), of 2] show ?thesis
    using t(1,2,5) by (auto simp: answer_def translation_def allowed_def)
qed

lemma mmu_stores_mark_pages_witness:
  "\<exists>t u. mmu_run prefs_040 (ram_only 4 0) acts_example (mmu_flush_atc_all True mmu_example) = Some t \<and>
    mmu_write_addr prefs_040 (ram_only 4 0) 0x42abc 7 True 2 t = Some (Inr (0x7abc, u)) \<and> ram_long (mem u) 8 AND 0x18 = 0x18"
proof (rule run_example)
  fix t assume t: "mmu_run prefs_040 (ram_only 4 0) acts_example (mmu_flush_atc_all True mmu_example) = Some t" "regs_s t = False"
    "mmu_enabled t" "tt 0x42abc (regs_s t) True t = TTR_NO_MATCH" "mmu_pagemask t = 0xfff"
    "look (ram_long (mem mmu_example)) (longs 4 0) (regs_s t) 0x42abc t = (False, Page 8 0x7003 0)"
  from mmu_stores_mark_pages [OF mmu_example_at t(1,4,3,6), of 7 2] show ?thesis
    using t(1,2,5) by (auto simp: answer_def translation_def allowed_def)
qed

lemma default_protection_needs_ttr_witness:
  "\<not> (\<exists>t. mmu_write_addr prefs_040 (ram_only 4 0) 0x42abc 7 True 2 (mmu_example\<lparr>mmu_enabled := False, tcr := 0x20\<rparr>) = Some (Inl t))"
proof -
  let ?s = "mmu_example\<lparr>mmu_enabled := False, tcr := 0x20\<rparr>"
  have "tt 0x42abc (regs_s ?s) True ?s = TTR_NO_MATCH" by (simp add: tt_def mmu_match_ttr_def mmu_example_def)
  from default_protection_needs_ttr [OF _ _ this] show ?thesis by (simp add: mmu_example_def)
qed

lemma cache_mode_proper: "cache_mode l \<noteq> 0xff"
  by (simp add: cache_mode_def)

lemma second_store_cache_mode_witness:
  "\<exists>pa t pa' u. write_page prefs_040 (ram_only 4 0) 0x42abc 7 False True 2 (mmu_flush_atc_all True mmu_example) = Some (Inr (pa, t)) \<and>
     mmu_cache_state t \<noteq> 0xff \<and> write_page prefs_040 (ram_only 4 0) 0x42abc 8 False True 2 t = Some (Inr (pa', u)) \<and> mmu_cache_state u = 0xff"
proof -
  have "map_option (\<lambda>r. case r of Inl _ \<Rightarrow> None | Inr (pa, _) \<Rightarrow> Some pa)
      (write_page prefs_040 (ram_only 4 0) 0x42abc 7 False True 2 (mmu_flush_atc_all True mmu_example)) = Some (Some 0x7abc)" by code_simp
  then obtain z where z: "write_page prefs_040 (ram_only 4 0) 0x42abc 7 False True 2 (mmu_flush_atc_all True mmu_example) = Some z"
    "(case z of Inl _ \<Rightarrow> None | Inr (pa, _) \<Rightarrow> Some pa) = Some 0x7abc" by auto
  then obtain t where t: "write_page prefs_040 (ram_only 4 0) 0x42abc 7 False True 2 (mmu_flush_atc_all True mmu_example) = Some (Inr (0x7abc, t))"
    by (cases z) auto
  have "unat (page_idx 0x42abc False mmu_example AND 0xff) < 255" by code_simp
  from second_store_cache_mode [OF t this, of 8] show ?thesis using t cache_mode_proper by metis
qed

end
