(* ===== verification/BlitTables.thy ===== *)
theory BlitTables
  imports Prelude
begin

unbundle bit_operations_syntax

text \<open>
  The tables of the blitter: the 256 logic functions of three sources (\<^verbatim>\<open>blitops.c\<close>, from which
  \<^verbatim>\<open>genblitter.c\<close> generates \<^verbatim>\<open>include/blit.h\<close> and the fast blits of \<^verbatim>\<open>blitfunc.c\<close>),
  and the byte table of the area fill (\<^verbatim>\<open>blitter.c\<close>). The cases of \<^verbatim>\<open>blit_func\<close> in \<^verbatim>\<open>blit.h\<close> are
  the strings of \<^verbatim>\<open>blitops\<close> printed by the generator, so one table models both.

  Shown: every function is the one its minterm byte stands for and uses the sources the table
  says; the fill by table is the fill bit by bit.
\<close>

section \<open>Logic functions\<close>

text \<open>The expressions of the table, strings in the source\<close>

datatype bexp = Src_a | Src_b | Src_c | B_0 | B_1 | B_not bexp | B_and bexp bexp | B_or bexp bexp | B_xor bexp bexp

text \<open>Each with the sources it is said to use: 1, 2 and 4 for A, B and C\<close>

definition blitops :: "(bexp \<times> nat) list" where
  "blitops = [
   (B_0, 0), (B_not (B_or (B_or Src_a Src_b) Src_c), 7), (B_and Src_c (B_not (B_or Src_a Src_b)), 7),
   (B_not (B_or Src_a Src_b), 3), (B_and Src_b (B_not (B_or Src_a Src_c)), 7), (B_not (B_or Src_a Src_c), 5),
   (B_and (B_not Src_a) (B_xor Src_b Src_c), 7), (B_not (B_or Src_a (B_and Src_b Src_c)), 7), (B_and (B_and (B_not Src_a) Src_b) Src_c, 7),
   (B_not (B_or Src_a (B_xor Src_b Src_c)), 7), (B_and (B_not Src_a) Src_c, 5), (B_not (B_or Src_a (B_and Src_b (B_not Src_c))), 7),
   (B_and (B_not Src_a) Src_b, 3), (B_not (B_or Src_a (B_and (B_not Src_b) Src_c)), 7), (B_and (B_not Src_a) (B_or Src_b Src_c), 7),
   (B_not Src_a, 1), (B_and Src_a (B_not (B_or Src_b Src_c)), 7), (B_not (B_or Src_b Src_c), 6),
   (B_and (B_not Src_b) (B_xor Src_a Src_c), 7), (B_not (B_or Src_b (B_and Src_a Src_c)), 7), (B_and (B_not Src_c) (B_xor Src_a Src_b), 7),
   (B_not (B_or Src_c (B_and Src_a Src_b)), 7), (B_xor Src_a (B_or (B_and Src_a Src_b) (B_xor Src_b Src_c)), 7), (B_not (B_xor Src_a (B_and (B_xor Src_a Src_b) (B_xor Src_a Src_c))), 7),
   (B_and (B_xor Src_a Src_b) (B_xor Src_a Src_c), 7), (B_xor Src_b (B_or (B_not Src_c) (B_and Src_a Src_b)), 7), (B_xor Src_a (B_or Src_c (B_and Src_a Src_b)), 7),
   (B_xor Src_a (B_or Src_c (B_not (B_xor Src_a Src_b))), 7), (B_xor Src_a (B_or Src_b (B_and Src_a Src_c)), 7), (B_xor Src_a (B_or Src_b (B_not (B_xor Src_a Src_c))), 7),
   (B_xor Src_a (B_or Src_b Src_c), 7), (B_not (B_and Src_a (B_or Src_b Src_c)), 7), (B_and (B_and Src_a (B_not Src_b)) Src_c, 7),
   (B_not (B_or Src_b (B_xor Src_a Src_c)), 7), (B_and (B_not Src_b) Src_c, 6), (B_not (B_or Src_b (B_and Src_a (B_not Src_c))), 7),
   (B_and (B_xor Src_a Src_b) (B_xor Src_b Src_c), 7), (B_xor Src_a (B_or (B_not Src_c) (B_and Src_a Src_b)), 7), (B_xor Src_b (B_or Src_c (B_and Src_a Src_b)), 7),
   (B_not (B_xor Src_a (B_and Src_c (B_xor Src_a Src_b))), 7), (B_and Src_c (B_xor Src_a Src_b), 7), (B_not (B_xor (B_xor Src_a Src_b) (B_or Src_c (B_and Src_a Src_b))), 7),
   (B_and Src_c (B_not (B_and Src_a Src_b)), 7), (B_not (B_xor Src_a (B_and (B_xor Src_a Src_b) (B_xor Src_b Src_c))), 7), (B_xor Src_b (B_and Src_a (B_or Src_b Src_c)), 7),
   (B_xor Src_a (B_or Src_b (B_not Src_c)), 7), (B_xor Src_a (B_or Src_b (B_xor Src_a Src_c)), 7), (B_not (B_and Src_a (B_or Src_b (B_not Src_c))), 7),
   (B_and Src_a (B_not Src_b), 3), (B_not (B_or Src_b (B_and (B_not Src_a) Src_c)), 7), (B_and (B_not Src_b) (B_or Src_a Src_c), 7),
   (B_not Src_b, 2), (B_xor Src_b (B_or Src_a (B_and Src_b Src_c)), 7), (B_xor Src_b (B_or Src_a (B_not (B_xor Src_b Src_c))), 7),
   (B_xor Src_b (B_or Src_a Src_c), 7), (B_not (B_and Src_b (B_or Src_a Src_c)), 7), (B_xor Src_a (B_and Src_b (B_or Src_a Src_c)), 7),
   (B_xor Src_b (B_or Src_a (B_not Src_c)), 7), (B_xor Src_b (B_or Src_a (B_xor Src_b Src_c)), 7), (B_not (B_and Src_b (B_or Src_a (B_not Src_c))), 7),
   (B_xor Src_a Src_b, 3), (B_xor Src_a (B_or Src_b (B_not (B_or Src_a Src_c))), 7), (B_xor Src_a (B_or Src_b (B_xor Src_a (B_or Src_a Src_c))), 7),
   (B_not (B_and Src_a Src_b), 3), (B_and (B_and Src_a Src_b) (B_not Src_c), 7), (B_not (B_or Src_c (B_xor Src_a Src_b)), 7),
   (B_and (B_xor Src_a Src_c) (B_xor Src_b Src_c), 7), (B_xor Src_a (B_or (B_not Src_b) (B_and Src_a Src_c)), 7), (B_and Src_b (B_not Src_c), 6),
   (B_not (B_or Src_c (B_and Src_a (B_not Src_b))), 7), (B_xor Src_c (B_or Src_b (B_and Src_a Src_c)), 7), (B_not (B_xor Src_a (B_and Src_b (B_xor Src_a Src_c))), 7),
   (B_and Src_b (B_xor Src_a Src_c), 7), (B_not (B_xor (B_xor Src_a Src_c) (B_or Src_b (B_and Src_a Src_c))), 7), (B_xor Src_c (B_and Src_a (B_or Src_b Src_c)), 7),
   (B_xor Src_a (B_or (B_not Src_b) Src_c), 7), (B_and Src_b (B_not (B_and Src_a Src_c)), 7), (B_xor Src_a (B_or (B_xor Src_a Src_b) (B_not (B_xor Src_a Src_c))), 7),
   (B_xor Src_a (B_or Src_c (B_xor Src_a Src_b)), 7), (B_not (B_and Src_a (B_or (B_not Src_b) Src_c)), 7), (B_and Src_a (B_not Src_c), 5),
   (B_not (B_or Src_c (B_and (B_not Src_a) Src_b)), 7), (B_xor Src_c (B_or Src_a (B_and Src_b Src_c)), 7), (B_not (B_xor Src_b (B_and Src_a (B_xor Src_b Src_c))), 7),
   (B_and (B_not Src_c) (B_or Src_a Src_b), 7), (B_not Src_c, 4), (B_xor Src_c (B_or Src_a Src_b), 7),
   (B_not (B_and Src_c (B_or Src_a Src_b)), 7), (B_xor Src_a (B_and Src_c (B_or Src_a Src_b)), 7), (B_xor Src_c (B_or Src_a (B_not Src_b)), 7),
   (B_xor Src_a Src_c, 5), (B_xor Src_a (B_or Src_c (B_not (B_or Src_a Src_b))), 7), (B_xor Src_c (B_or Src_a (B_xor Src_b Src_c)), 7),
   (B_not (B_and Src_c (B_or Src_a (B_not Src_b))), 7), (B_xor Src_a (B_or Src_c (B_xor Src_a (B_or Src_a Src_b))), 7), (B_not (B_and Src_a Src_c), 5),
   (B_and Src_a (B_xor Src_b Src_c), 7), (B_not (B_xor (B_xor Src_b Src_c) (B_or Src_a (B_and Src_b Src_c))), 7), (B_xor Src_c (B_and Src_b (B_or Src_a Src_c)), 7),
   (B_xor Src_b (B_or (B_not Src_a) Src_c), 7), (B_xor Src_b (B_and Src_c (B_or Src_a Src_b)), 7), (B_xor Src_c (B_or (B_not Src_a) Src_b), 7),
   (B_xor Src_b Src_c, 6), (B_xor Src_b (B_or Src_c (B_not (B_or Src_a Src_b))), 7), (B_xor (B_and Src_a Src_b) (B_and Src_c (B_or Src_a Src_b)), 7),
   (B_not (B_xor (B_xor Src_a Src_b) Src_c), 7), (B_xor Src_c (B_and Src_a Src_b), 7), (B_not (B_xor (B_xor Src_a Src_b) (B_and Src_c (B_or Src_a Src_b))), 7),
   (B_xor Src_b (B_and Src_a Src_c), 7), (B_not (B_xor (B_xor Src_a Src_c) (B_and Src_b (B_or Src_a Src_c))), 7), (B_or (B_and (B_not Src_a) Src_b) (B_xor Src_b Src_c), 7),
   (B_or (B_not Src_a) (B_xor Src_b Src_c), 7), (B_and Src_a (B_not (B_and Src_b Src_c)), 7), (B_not (B_xor Src_a (B_or (B_xor Src_a Src_b) (B_xor Src_a Src_c))), 7),
   (B_xor Src_b (B_or Src_c (B_xor Src_a Src_b)), 7), (B_not (B_and Src_b (B_or (B_not Src_a) Src_c)), 7), (B_xor Src_c (B_or Src_b (B_xor Src_a Src_c)), 7),
   (B_not (B_and Src_c (B_or (B_not Src_a) Src_b)), 7), (B_xor Src_b (B_or Src_c (B_xor Src_a (B_and Src_a Src_b))), 7), (B_not (B_and Src_b Src_c), 6),
   (B_xor Src_a (B_and Src_b Src_c), 7), (B_not (B_xor (B_xor Src_b Src_c) (B_and Src_a (B_or Src_b Src_c))), 7), (B_or (B_and Src_a (B_not Src_b)) (B_xor Src_a Src_c), 7),
   (B_or (B_not Src_b) (B_xor Src_a Src_c), 7), (B_or (B_xor Src_a Src_b) (B_and Src_a (B_not Src_c)), 7), (B_or (B_not Src_c) (B_xor Src_a Src_b), 7),
   (B_or (B_xor Src_a Src_b) (B_xor Src_a Src_c), 7), (B_not (B_and (B_and Src_a Src_b) Src_c), 7), (B_and (B_and Src_a Src_b) Src_c, 7),
   (B_not (B_or (B_xor Src_a Src_b) (B_xor Src_a Src_c)), 7), (B_and Src_c (B_not (B_xor Src_a Src_b)), 7), (B_xor Src_a (B_or (B_not Src_b) (B_and Src_a (B_not Src_c))), 7),
   (B_and Src_b (B_not (B_xor Src_a Src_c)), 7), (B_xor Src_a (B_or (B_not Src_c) (B_and Src_a (B_not Src_b))), 7), (B_xor (B_xor Src_b Src_c) (B_and Src_a (B_or Src_b Src_c)), 7),
   (B_not (B_xor Src_a (B_and Src_b Src_c)), 7), (B_and Src_b Src_c, 6), (B_xor Src_b (B_and (B_not Src_c) (B_or (B_not Src_a) Src_b)), 7),
   (B_and Src_c (B_or (B_not Src_a) Src_b), 7), (B_xor Src_a (B_or (B_not Src_b) (B_xor Src_a Src_c)), 7), (B_and Src_b (B_or (B_not Src_a) Src_c), 7),
   (B_xor Src_a (B_or (B_not Src_c) (B_xor Src_a Src_b)), 7), (B_xor Src_a (B_or (B_xor Src_a Src_b) (B_xor Src_a Src_c)), 7), (B_or (B_not Src_a) (B_and Src_b Src_c), 7),
   (B_and Src_a (B_not (B_xor Src_b Src_c)), 7), (B_xor Src_b (B_or (B_not Src_c) (B_and (B_not Src_a) Src_b)), 7), (B_xor (B_xor Src_a Src_c) (B_and Src_b (B_or Src_a Src_c)), 7),
   (B_not (B_xor Src_b (B_and Src_a Src_c)), 7), (B_xor (B_xor Src_a Src_b) (B_and Src_c (B_or Src_a Src_b)), 7), (B_not (B_xor Src_c (B_and Src_a Src_b)), 7),
   (B_xor (B_xor Src_a Src_b) Src_c, 7), (B_xor (B_xor Src_a Src_b) (B_or Src_c (B_not (B_or Src_a Src_b))), 7), (B_xor Src_b (B_and (B_not Src_c) (B_or Src_a Src_b)), 7),
   (B_not (B_xor Src_b Src_c), 6), (B_xor Src_c (B_and Src_a (B_not Src_b)), 7), (B_not (B_xor Src_b (B_and Src_c (B_or Src_a Src_b))), 7),
   (B_xor Src_b (B_and Src_a (B_not Src_c)), 7), (B_not (B_xor Src_c (B_and Src_b (B_or Src_a Src_c))), 7), (B_xor (B_xor Src_b Src_c) (B_or Src_a (B_and Src_b Src_c)), 7),
   (B_not (B_and Src_a (B_xor Src_b Src_c)), 7), (B_and Src_a Src_c, 5), (B_xor Src_a (B_and (B_not Src_c) (B_or Src_a (B_not Src_b))), 7),
   (B_and Src_c (B_or Src_a (B_not Src_b)), 7), (B_xor Src_b (B_or (B_not Src_a) (B_xor Src_b Src_c)), 7), (B_xor Src_a (B_and (B_not Src_c) (B_or Src_a Src_b)), 7),
   (B_not (B_xor Src_a Src_c), 5), (B_xor Src_c (B_and (B_not Src_a) Src_b), 7), (B_not (B_xor Src_a (B_and Src_c (B_or Src_a Src_b))), 7),
   (B_and Src_c (B_or Src_a Src_b), 7), (B_not (B_xor Src_c (B_or Src_a Src_b)), 7), (Src_c, 4),
   (B_or Src_c (B_not (B_or Src_a Src_b)), 7), (B_xor Src_b (B_and Src_a (B_xor Src_b Src_c)), 7), (B_not (B_xor Src_c (B_or Src_a (B_and Src_b Src_c))), 7),
   (B_or Src_c (B_and (B_not Src_a) Src_b), 7), (B_or (B_not Src_a) Src_c, 5), (B_and Src_a (B_or (B_not Src_b) Src_c), 7),
   (B_not (B_xor Src_a (B_or Src_c (B_xor Src_a Src_b))), 7), (B_xor Src_a (B_and (B_xor Src_a Src_c) (B_xor Src_b Src_c)), 7), (B_or (B_not Src_b) (B_and Src_a Src_c), 7),
   (B_xor Src_a (B_and Src_b (B_not Src_c)), 7), (B_not (B_xor Src_c (B_and Src_a (B_or Src_b Src_c))), 7), (B_xor (B_xor Src_a Src_c) (B_or Src_b (B_and Src_a Src_c)), 7),
   (B_not (B_and Src_b (B_xor Src_a Src_c)), 7), (B_xor Src_a (B_and Src_b (B_xor Src_a Src_c)), 7), (B_not (B_xor Src_c (B_or Src_b (B_and Src_a Src_c))), 7),
   (B_or Src_c (B_and Src_a (B_not Src_b)), 7), (B_or (B_not Src_b) Src_c, 6), (B_or (B_xor Src_a Src_b) (B_and Src_a Src_c), 7),
   (B_or (B_xor Src_a Src_b) (B_not (B_xor Src_a Src_c)), 7), (B_or Src_c (B_xor Src_a Src_b), 7), (B_or Src_c (B_not (B_and Src_a Src_b)), 7),
   (B_and Src_a Src_b, 3), (B_xor Src_a (B_and (B_not Src_b) (B_or Src_a (B_not Src_c))), 7), (B_xor Src_a (B_and (B_not Src_b) (B_or Src_a Src_c)), 7),
   (B_not (B_xor Src_a Src_b), 3), (B_and Src_b (B_or Src_a (B_not Src_c)), 7), (B_not (B_xor Src_b (B_or Src_a (B_xor Src_b Src_c))), 7),
   (B_xor Src_b (B_and (B_not Src_a) Src_c), 7), (B_not (B_xor Src_a (B_and Src_b (B_or Src_a Src_c))), 7), (B_and Src_b (B_or Src_a Src_c), 7),
   (B_not (B_xor Src_b (B_or Src_a Src_c)), 7), (B_xor Src_c (B_and Src_a (B_xor Src_b Src_c)), 7), (B_not (B_xor Src_b (B_or Src_a (B_and Src_b Src_c))), 7),
   (Src_b, 2), (B_or Src_b (B_not (B_or Src_a Src_c)), 7), (B_or Src_b (B_and (B_not Src_a) Src_c), 7),
   (B_or (B_not Src_a) Src_b, 3), (B_and Src_a (B_or Src_b (B_not Src_c)), 7), (B_not (B_xor Src_a (B_or Src_b (B_xor Src_a Src_c))), 7),
   (B_xor Src_a (B_and (B_not Src_b) Src_c), 7), (B_not (B_xor Src_b (B_and Src_a (B_or Src_b Src_c))), 7), (B_xor Src_a (B_and (B_xor Src_a Src_b) (B_xor Src_b Src_c)), 7),
   (B_or (B_not Src_c) (B_and Src_a Src_b), 7), (B_xor (B_xor Src_a Src_b) (B_or Src_c (B_and Src_a Src_b)), 7), (B_not (B_and Src_c (B_xor Src_a Src_b)), 7),
   (B_xor Src_a (B_and Src_c (B_xor Src_a Src_b)), 7), (B_not (B_xor Src_b (B_or Src_c (B_and Src_a Src_b))), 7), (B_or (B_and Src_a Src_b) (B_xor Src_a Src_c), 7),
   (B_not (B_and (B_xor Src_a Src_b) (B_xor Src_b Src_c)), 7), (B_or Src_b (B_and Src_a (B_not Src_c)), 7), (B_or Src_b (B_not Src_c), 6),
   (B_or Src_b (B_xor Src_a Src_c), 7), (B_or Src_b (B_not (B_and Src_a Src_c)), 7), (B_and Src_a (B_or Src_b Src_c), 7),
   (B_not (B_xor Src_a (B_or Src_b Src_c)), 7), (B_xor Src_c (B_and Src_b (B_xor Src_a Src_c)), 7), (B_not (B_xor Src_a (B_or Src_b (B_and Src_a Src_c))), 7),
   (B_xor Src_b (B_and Src_c (B_xor Src_a Src_b)), 7), (B_not (B_xor Src_a (B_or Src_c (B_and Src_a Src_b))), 7), (B_or (B_and Src_a Src_b) (B_xor Src_b Src_c), 7),
   (B_not (B_and (B_xor Src_a Src_b) (B_xor Src_a Src_c)), 7), (B_xor Src_a (B_and (B_xor Src_a Src_b) (B_xor Src_a Src_c)), 7), (B_xor (B_xor Src_a Src_b) (B_or (B_not Src_c) (B_and Src_a Src_b)), 7),
   (B_or Src_c (B_and Src_a Src_b), 7), (B_or Src_c (B_not (B_xor Src_a Src_b)), 7), (B_or Src_b (B_and Src_a Src_c), 7),
   (B_or Src_b (B_not (B_xor Src_a Src_c)), 7), (B_or Src_b Src_c, 6), (B_or (B_or (B_not Src_a) Src_b) Src_c, 7),
   (Src_a, 1), (B_or Src_a (B_not (B_or Src_b Src_c)), 7), (B_or Src_a (B_and (B_not Src_b) Src_c), 7),
   (B_or Src_a (B_not Src_b), 3), (B_or Src_a (B_and Src_b (B_not Src_c)), 7), (B_or Src_a (B_not Src_c), 5),
   (B_or Src_a (B_xor Src_b Src_c), 7), (B_or Src_a (B_not (B_and Src_b Src_c)), 7), (B_or Src_a (B_and Src_b Src_c), 7),
   (B_or Src_a (B_not (B_xor Src_b Src_c)), 7), (B_or Src_a Src_c, 5), (B_or (B_or Src_a (B_not Src_b)) Src_c, 7),
   (B_or Src_a Src_b, 3), (B_or (B_or Src_a Src_b) (B_not Src_c), 7), (B_or (B_or Src_a Src_b) Src_c, 7),
   (B_1, 0)]"

fun blit_eval :: "bexp \<Rightarrow> u32 \<Rightarrow> u32 \<Rightarrow> u32 \<Rightarrow> u32" where
  "blit_eval Src_a a b c = a"
| "blit_eval Src_b a b c = b"
| "blit_eval Src_c a b c = c"
| "blit_eval B_0 a b c = 0"
| "blit_eval B_1 a b c = 0xFFFFFFFF"
| "blit_eval (B_not e) a b c = NOT (blit_eval e a b c)"
| "blit_eval (B_and e f) a b c = blit_eval e a b c AND blit_eval f a b c"
| "blit_eval (B_or e f) a b c = blit_eval e a b c OR blit_eval f a b c"
| "blit_eval (B_xor e f) a b c = blit_eval e a b c XOR blit_eval f a b c"

definition blit_func :: "u32 \<Rightarrow> u32 \<Rightarrow> u32 \<Rightarrow> u8 \<Rightarrow> u32" where
  "blit_func srca srcb srcc mt = blit_eval (fst (blitops ! unat mt)) srca srcb srcc"

fun truth :: "bexp \<Rightarrow> bool \<Rightarrow> bool \<Rightarrow> bool \<Rightarrow> bool" where
  "truth Src_a a b c = a"
| "truth Src_b a b c = b"
| "truth Src_c a b c = c"
| "truth B_0 a b c = False"
| "truth B_1 a b c = True"
| "truth (B_not e) a b c = (\<not> truth e a b c)"
| "truth (B_and e f) a b c = (truth e a b c \<and> truth f a b c)"
| "truth (B_or e f) a b c = (truth e a b c \<or> truth f a b c)"
| "truth (B_xor e f) a b c = (truth e a b c \<noteq> truth f a b c)"

lemma eval_truth: "n < 32 \<Longrightarrow> bit (blit_eval e a b c) n = truth e (bit a n) (bit b n) (bit c n)"
proof (induction e)
  case B_1
  have "(0xFFFFFFFF :: u32) = - 1" by simp
  then show ?case using B_1 unfolding blit_eval.simps truth.simps by (simp only: bit_minus_1_iff possible_bit_word) simp
qed (simp_all add: bit_simps)

definition minterm_index :: "bool \<Rightarrow> bool \<Rightarrow> bool \<Rightarrow> nat" where
  "minterm_index a b c = (if a then 4 else 0) + (if b then 2 else 0) + (if c then 1 else 0)"

text \<open>The minterm byte of an expression\<close>

definition minterms :: "bexp \<Rightarrow> int" where
  "minterms e = horner_sum of_bool 2 [truth e False False False, truth e False False True, truth e False True False, truth e False True True,
     truth e True False False, truth e True False True, truth e True True False, truth e True True True]"

lemma blitops_minterms: "map (\<lambda>(e, u). minterms e) blitops = [0..255]"
  by code_simp

lemma truth_minterm:
  assumes "i < 256"
  shows "truth (fst (blitops ! i)) a b c = bit (int i) (minterm_index a b c)"
proof -
  have l: "length blitops = 256" using blitops_minterms [THEN arg_cong [where f = length]] by simp
  have "minterms (fst (blitops ! i)) = map (\<lambda>(e, u). minterms e) blitops ! i" using l assms by (simp add: case_prod_beta)
  also have "\<dots> = int i" unfolding blitops_minterms using assms by (subst nth_upto) simp_all
  finally have "bit (int i) k = bit (minterms (fst (blitops ! i))) k" for k by simp
  then show ?thesis unfolding minterms_def bit_horner_sum_bit_iff minterm_index_def by (cases a; cases b; cases c) (simp_all add: numeral_eq_Suc)
qed

text \<open>C37: every one of the 256 logic functions is right: bit by bit, its result is the bit of the minterm
  byte that the three source bits select, A the highest.\<close>

theorem blit_func_minterm:
  assumes "n < 32"
  shows "bit (blit_func a b c mt) n = bit mt (minterm_index (bit a n) (bit b n) (bit c n))"
proof -
  have "unat mt < 256" using unsigned_less [of mt] by simp
  moreover have "minterm_index (bit a n) (bit b n) (bit c n) < 8" by (simp add: minterm_index_def)
  ultimately show ?thesis using eval_truth [OF assms] truth_minterm by (simp add: blit_func_def bit_uint_iff)
qed

theorem blit_func_minterm_witness: "bit (blit_func 0xF0F0 0xCCCC 0xAAAA 0xCA) 5 = bit (0xCA :: u8) (minterm_index True False True)"
proof -
  have b: "bit (0xF0F0 :: u32) 5" "\<not> bit (0xCCCC :: u32) 5" "bit (0xAAAA :: u32) 5" by code_simp+
  show ?thesis using blit_func_minterm [of 5 "0xF0F0" "0xCCCC" "0xAAAA" "0xCA"] b by simp
qed

text \<open>The sources that an expression uses, as the table says\<close>

fun uses :: "bexp \<Rightarrow> nat \<Rightarrow> bool" where
  "uses Src_a k = (k = 0)"
| "uses Src_b k = (k = 1)"
| "uses Src_c k = (k = 2)"
| "uses B_0 k = False"
| "uses B_1 k = False"
| "uses (B_not e) k = uses e k"
| "uses (B_and e f) k = (uses e k \<or> uses f k)"
| "uses (B_or e f) k = (uses e k \<or> uses f k)"
| "uses (B_xor e f) k = (uses e k \<or> uses f k)"

lemma eval_uses:
  "(uses e 0 \<longrightarrow> a = a') \<Longrightarrow> (uses e 1 \<longrightarrow> b = b') \<Longrightarrow> (uses e 2 \<longrightarrow> c = c') \<Longrightarrow> blit_eval e a b c = blit_eval e a' b' c'"
  by (induction e) auto

lemma blitops_uses: "list_all (\<lambda>(e, u). \<forall>k \<in> {0, 1, 2}. uses e k = bit u k) blitops"
  by code_simp

section \<open>Area fill\<close>

text \<open>One byte from its lowest bit on, with the carry; bit 1 of the mode fills inclusively\<close>

definition fill_step :: "nat \<Rightarrow> nat \<Rightarrow> u8 \<times> bool \<Rightarrow> u8 \<times> bool" where
  "fill_step i n x =
     (let (data, fc) = x; fillmask = push_bit n 1;
          data' = (if fc then if i AND 2 \<noteq> 0 then data OR fillmask else data XOR fillmask else data)
      in (data', if data AND fillmask \<noteq> 0 then \<not> fc else fc))"

definition blit_filltable :: "u8 \<Rightarrow> nat \<Rightarrow> u8 \<times> bool" where
  "blit_filltable d i = fold (fill_step i) [0..<8] (d, i AND 1 \<noteq> 0)"

text \<open>The lookups of a blit\<close>

definition blit_fill :: "bool \<Rightarrow> bool \<Rightarrow> u16 \<Rightarrow> u16 \<times> bool" where
  "blit_fill ife fc d =
     (let ifemode = (if ife then 2 else 0);
          (lo, fc1) = blit_filltable (ucast (d AND 255)) (ifemode + (if fc then 1 else 0));
          (hi, fc2) = blit_filltable (ucast (drop_bit 8 d)) (ifemode + (if fc1 then 1 else 0))
      in (ucast lo + push_bit 8 (ucast hi), fc2))"

text \<open>What a fill is: the carry changes at every set bit, and the bits between are set\<close>

definition fill_carry :: "bool \<Rightarrow> (nat \<Rightarrow> bool) \<Rightarrow> nat \<Rightarrow> bool" where
  "fill_carry fc f n \<longleftrightarrow> fc \<noteq> odd (card {m. m < n \<and> f m})"

definition fill_out :: "bool \<Rightarrow> bool \<Rightarrow> (nat \<Rightarrow> bool) \<Rightarrow> nat \<Rightarrow> bool" where
  "fill_out ife fc f n = (if ife then f n \<or> fill_carry fc f n else f n \<noteq> fill_carry fc f n)"

lemma fill_carry_Suc: "fill_carry fc f (Suc n) = (if f n then \<not> fill_carry fc f n else fill_carry fc f n)"
proof -
  have "{m. m < Suc n \<and> f m} = (if f n then insert n {m. m < n \<and> f m} else {m. m < n \<and> f m})" by (auto simp: less_Suc_eq)
  then show ?thesis by (simp add: fill_carry_def)
qed

lemma fill_carry_add: "fill_carry (fill_carry fc f k) (\<lambda>m. f (k + m)) n = fill_carry fc f (k + n)"
  by (induction n) (simp_all add: fill_carry_Suc, simp add: fill_carry_def)

lemma and_bit8: "(d AND push_bit n 1 \<noteq> 0) = bit d n" for d :: u8
  using and_exp_eq_0_iff_not_bit [of d n] by (simp add: push_bit_eq_mult)

lemma fill_fold:
  "n \<le> 8 \<Longrightarrow> i < 4 \<Longrightarrow> (let (data, fc) = fold (fill_step i) [0..<n] (d, i AND 1 \<noteq> 0)
     in fc = fill_carry (odd i) (bit d) n \<and> (\<forall>m. bit data m = (if m < n then fill_out (2 \<le> i) (odd i) (bit d) m else bit d m)))"
proof (induction n)
  case 0
  then show ?case by (simp add: fill_carry_def and_one_eq odd_iff_mod_2_eq_one)
next
  case (Suc n)
  obtain data fc where s: "fold (fill_step i) [0..<n] (d, i AND 1 \<noteq> 0) = (data, fc)" by fastforce
  have ih: "fc = fill_carry (odd i) (bit d) n" "\<And>m. bit data m = (if m < n then fill_out (2 \<le> i) (odd i) (bit d) m else bit d m)"
    using Suc s by (simp_all add: Let_def)
  have i: "(i AND 2 \<noteq> 0) = (2 \<le> i)" 
  proof -
    have "i = 0 \<or> i = 1 \<or> i = 2 \<or> i = 3" using Suc.prems(2) by arith
    then show ?thesis by auto
  qed
  have n: "n < 8" using Suc.prems(1) by simp
  have bits: "bit (data OR push_bit n 1) m = (bit data m \<or> m = n)" "bit (data XOR push_bit n 1) m = (bit data m \<noteq> (m = n))" for m
    using n by (auto simp: bit_simps)
  have step: "fold (fill_step i) [0..<Suc n] (d, i AND 1 \<noteq> 0) = fill_step i n (data, fc)" by (simp only: upt_Suc_append fold_append comp_apply fold.simps s le0 id_apply)
  have d: "(data AND push_bit n 1 \<noteq> 0) = bit d n" unfolding and_bit8 ih(2) by simp
  have carry: "(if data AND push_bit n 1 \<noteq> 0 then \<not> fc else fc) = fill_carry (odd i) (bit d) (Suc n)"
    unfolding d fill_carry_Suc ih(1) by simp
  have out: "bit (if fc then if i AND 2 \<noteq> 0 then data OR push_bit n 1 else data XOR push_bit n 1 else data) m =
      (if m < Suc n then fill_out (2 \<le> i) (odd i) (bit d) m else bit d m)" for m
    unfolding i using bits [of m] ih by (auto simp: fill_out_def less_Suc_eq)
  show ?case unfolding step unfolding fill_step_def Let_def prod.case carry using out by simp
qed

lemma blit_filltable_correct:
  assumes "i < 4"
  shows "snd (blit_filltable d i) = fill_carry (odd i) (bit d) 8" "bit (fst (blit_filltable d i)) m = (m < 8 \<and> fill_out (2 \<le> i) (odd i) (bit d) m)"
proof -
  obtain data fc where e: "blit_filltable d i = (data, fc)" by fastforce
  have "let (data, fc) = fold (fill_step i) [0..<8] (d, i AND 1 \<noteq> 0)
     in fc = fill_carry (odd i) (bit d) 8 \<and> (\<forall>m. bit data m = (if m < 8 then fill_out (2 \<le> i) (odd i) (bit d) m else bit d m))"
    by (rule fill_fold [OF order_refl assms])
  then have x: "fc = fill_carry (odd i) (bit d) 8" "bit data m = (if m < 8 then fill_out (2 \<le> i) (odd i) (bit d) m else bit d m)" for m
    using e unfolding blit_filltable_def by (simp_all del: upt_rec_numeral)
  show "snd (blit_filltable d i) = fill_carry (odd i) (bit d) 8" using x(1) e by simp
  show "bit (fst (blit_filltable d i)) m = (m < 8 \<and> fill_out (2 \<le> i) (odd i) (bit d) m)"
    using x(2) [of m] e bit_imp_le_length [of d m] by auto
qed

text \<open>the area fill of a word by two lookups in the byte table is the fill of its sixteen bits from
  the lowest on: the carry changes at every set bit, a bit comes out set in inclusive mode when it or
  the carry is set and in exclusive mode when just one of them is, and the carry that goes on to
  the next word is the one after sixteen bits.\<close>

theorem blit_fill_correct:
  "snd (blit_fill ife fc d) = fill_carry fc (bit d) 16 \<and> (\<forall>n < 16. bit (fst (blit_fill ife fc d)) n = fill_out ife fc (bit d) n)"
proof -
  let ?i = "\<lambda>c. (if ife then 2 else 0) + (if c then 1 else 0) :: nat"
  have i: "?i c < 4" "odd (?i c) = c" "(2 \<le> ?i c) = ife" for c by auto
  define lo fc1 where "lo = fst (blit_filltable (ucast (d AND 255)) (?i fc))" and "fc1 = snd (blit_filltable (ucast (d AND 255)) (?i fc))"
  define hi fc2 where "hi = fst (blit_filltable (ucast (drop_bit 8 d)) (?i fc1))" and "fc2 = snd (blit_filltable (ucast (drop_bit 8 d)) (?i fc1))"
  have e: "blit_fill ife fc d = (ucast lo + push_bit 8 (ucast hi), fc2)"
    by (simp add: blit_fill_def lo_def fc1_def hi_def fc2_def Let_def case_prod_beta)
  have m255: "(255 :: u16) = mask 8" by (simp add: mask_eq_exp_minus_1)
  have lob: "bit (ucast (d AND 255) :: u8) m = (m < 8 \<and> bit d m)" for m unfolding m255 by (auto simp: bit_simps)
  have hib: "bit (ucast (drop_bit 8 d) :: u8) m = (m < 8 \<and> bit d (8 + m))" for m by (auto simp: bit_simps)
  have cong: "fill_carry c f n = fill_carry c g n" if "\<And>m. m < n \<Longrightarrow> f m = g m" for c f g n
  proof -
    have "{m. m < n \<and> f m} = {m. m < n \<and> g m}" using that by auto
    then show ?thesis by (simp add: fill_carry_def)
  qed
  have fc1: "fc1 = fill_carry fc (bit d) 8"
    unfolding fc1_def blit_filltable_correct(1) [OF i(1)] i(2) by (rule cong) (simp add: lob)
  have carry8: "fill_carry fc1 (\<lambda>m. bit d (8 + m)) n = fill_carry fc (bit d) (8 + n)" for n
    unfolding fc1 by (rule fill_carry_add)
  have "fc2 = fill_carry fc1 (\<lambda>m. bit d (8 + m)) 8"
    unfolding fc2_def blit_filltable_correct(1) [OF i(1)] i(2) by (rule cong) (simp add: hib)
  then have fc2: "fc2 = fill_carry fc (bit d) 16" unfolding carry8 by simp
  have lo: "bit lo m = (m < 8 \<and> fill_out ife fc (bit d) m)" for m
    using cong [of m "bit (ucast (d AND 255) :: u8)" "bit d" fc]
    unfolding lo_def blit_filltable_correct(2) [OF i(1)] i(2,3) fill_out_def by (auto simp: lob)
  have hi: "bit hi m = (m < 8 \<and> fill_out ife fc (bit d) (8 + m))" for m
    using cong [of m "bit (ucast (drop_bit 8 d) :: u8)" "\<lambda>m. bit d (8 + m)" fc1] carry8 [of m]
    unfolding hi_def blit_filltable_correct(2) [OF i(1)] i(2,3) fill_out_def by (auto simp: hib)
  have "(ucast lo :: u16) AND push_bit 8 (ucast hi) = 0"
    by (rule bit_eqI) (auto simp: bit_simps dest: bit_imp_le_length)
  then have "(ucast lo :: u16) + push_bit 8 (ucast hi) = ucast lo OR push_bit 8 (ucast hi)" by (rule disjunctive_add_eq_or)
  then have "bit ((ucast lo :: u16) + push_bit 8 (ucast hi)) n = fill_out ife fc (bit d) n" if "n < 16" for n
    using that lo [of n] hi [of "n - 8"] by (cases "n < 8") (auto simp: bit_simps)
  then show ?thesis unfolding e using fc2 by simp
qed

end
