(* ===== verification/Spec2Isabelle.thy ===== *)
theory Spec2Isabelle
  imports Prelude Memory CpuState Movec Bitfield CpuCycles DivMul EffectiveAddr ExceptionFrame Eeprom93 I2c Flash Rtc Crc32 Sha1 Cia CiaRegs CiaTiming Events Mfm AmigaTrack CdSector Keybuf Keyboard Mmu040 MmuWalk MmuCache MmuRuns MmuRam BlitTables
begin

text \<open>
  A verification development for libretro-uae (PUAE), the WinUAE core as a libretro module: an
  emulator of the Amiga. The C sources are under \<^verbatim>\<open>sources/src\<close>; \<^verbatim>\<open>libretro\<close> and
  \<^verbatim>\<open>retrodep\<close> bind them to the host.

  \<^bold>\<open>How the program is built up.\<close> The processor (\<^verbatim>\<open>newcpu*.c\<close>, with opcode functions generated by
  \<^verbatim>\<open>gencpu.c\<close>) reads and writes through a table of memory banks (\<^verbatim>\<open>memory.c\<close>). A bank is
  RAM or a device: the interface adapters (\<^verbatim>\<open>cia.c\<close>), the custom chips, and on expansion boards the
  flash ROMs, EEPROMs and clocks (\<^verbatim>\<open>flashrom.c\<close>, \<^verbatim>\<open>rtc.c\<close>). Devices tell the processor through
  interrupt requests and an event table kept in emulated clock cycles.

  \<^bold>\<open>Theories and sources.\<close>
  \<^item> \<open>Prelude\<close>: machine integers, bits of words, and the locales \<open>machine\<close>, \<open>framed_machine\<close>,
    \<open>safe_machine\<close> (invariants of runs) and \<open>storage\<close> (what a read returns after writes).
  \<^item> \<open>Memory\<close>: big-endian access (\<^verbatim>\<open>md-generic/maccess.h\<close>), RAM banks (\<^verbatim>\<open>include/memory.h\<close>), the
    dispatch by address, \<^verbatim>\<open>map_banks2\<close> and the checks of Zorro addresses (\<^verbatim>\<open>memory.c\<close>). The locale
    \<open>ram_bus\<close> is what the processor theories need of a bus; \<open>memory_bus\<close> interprets it on the banks.
  \<^item> \<open>CpuState\<close>, \<open>Movec\<close>, \<open>Bitfield\<close>, \<open>CpuCycles\<close>, \<open>DivMul\<close>, \<open>EffectiveAddr\<close> and
    \<open>ExceptionFrame\<close>: the parts of \<^verbatim>\<open>newcpu_common.c\<close>, the semantics all generated processors share.
    Access functions are parameters, as the C functions receive them as pointers or by macro; the
    theorems instantiate them with the RAM of \<open>Memory\<close>.
  \<^item> \<open>Eeprom93\<close>, \<open>I2c\<close>, \<open>Flash\<close>: the three chips of \<^verbatim>\<open>flashrom.c\<close>; \<open>Rtc\<close>: the two of \<^verbatim>\<open>rtc.c\<close>.
  \<^item> \<open>Crc32\<close>, \<open>Sha1\<close>: \<^verbatim>\<open>crc32.c\<close>.
  \<^item> \<open>Cia\<close>, \<open>CiaRegs\<close>, \<open>CiaTiming\<close>: \<^verbatim>\<open>cia.c\<close>.
  \<^item> \<open>Events\<close>: \<^verbatim>\<open>events.c\<close>; its locale \<open>event_handlers\<close> is what the scheduler asks of a handler, and the
    interpretation \<open>cia_table\<close> puts the 8520 timers of \<open>Cia\<close> into the table, beside a line handler that
    works on the same chips.
  \<^item> \<open>Mfm\<close>, \<open>AmigaTrack\<close>: the recording code and the AmigaDOS track format of \<^verbatim>\<open>disk.c\<close>.
  \<^item> \<open>Keybuf\<close>, \<open>Keyboard\<close>: \<^verbatim>\<open>keybuf.c\<close> and the keyboard in \<^verbatim>\<open>cia.c\<close>, which sends the codes through the serial
    register of the first chip of \<open>Cia\<close>; the locale \<open>bounded_fifo\<close> is the contract of the buffer.
  \<^item> \<open>Mmu040\<close>: the memory management unit of the 68040 and 68060, \<^verbatim>\<open>cpummu.c\<close> and \<^verbatim>\<open>cpummu.h\<close>, over any
    physical bus; \<open>MmuWalk\<close> specifies a search of the translation tables as a function of the longs in
    memory and shows, in the locale \<open>table_memory\<close>, that the walk finds what it says; \<open>MmuCache\<close> has the
    invariant of the three levels of caches against it, \<open>MmuRuns\<close> the accesses, instructions and runs, and
    \<open>MmuRam\<close> the interpretation on the RAM of \<open>Memory\<close> with the theorems.
  \<^item> \<open>BlitTables\<close>: the 256 logic functions of the blitter (\<^verbatim>\<open>blitops.c\<close>, \<^verbatim>\<open>include/blit.h\<close>) and its
    area fill with the byte table (\<^verbatim>\<open>blitter.c\<close>); the blits themselves are not modelled.
  \<^item> \<open>CdSector\<close>: the error detection and correction bytes of CD sectors, \<^verbatim>\<open>cdrom.c\<close>.

  \<^bold>\<open>How code becomes definitions.\<close> A struct is a record with the fields of the source, an operation a
  function from state to state, a failed \<^verbatim>\<open>assert\<close>, an \<^verbatim>\<open>abort\<close> or an access outside an array
  \<open>None\<close>; unsigned integers are words of their width, signed ones integers where the code
  keeps them in range and words where they wrap. Branches under preprocessor conditions are those of the
  libretro build (no debugger, no JIT memory mapping). Calls into the rest of the machine (interrupt
  lines, queued events, writes to the NVRAM file) are logged in the state. What the code reads from elsewhere
  (preferences, the beam position, the clock) is an argument.

  \<^bold>\<open>What the lemmas show.\<close> Round trips: a long written is the long read, a bit field, a control register, a
  cell of a clock chip. Refinement: the addressing modes against an abstract syntax of operands, the
  checksums against their bit-serial definitions, a saved flash file against the ROM contents. Exactness
  of optimised code: cycle counts in closed form, CIA timers evaluated lazily against counting
  every clock, cached address translations against searches of the tables, the logic functions of the
  blitter against their minterms and its fill table against the fill of single bits. Invariants and safety over all runs: no access outside the arrays of the I2C and flash
  chips; no assertion of the CIA timers fails while the event table is served on time, and
  \<open>timers_served_in_time\<close> shows that the scheduler does serve it on time. Theorems
  about errors state what the code does where it departs from the hardware.

  \<^bold>\<open>Bounds and fuel.\<close> Loops are structural recursions over the counter of the source or over lists, or
  recursive functions with a measure; the loops of the event table, which run handlers that may keep them busy, are
  partial functions with a proof that they end, and so is the repeated table search of \<^verbatim>\<open>mmu_translate\<close>. No fuel is used. Hypotheses bound what the hardware bounds (16-bit timers, power-of-two chip sizes).

  \<^bold>\<open>Not modelled.\<close> The generated processors and the JIT (generated code and machine code emission),
  the 68030 and 68851 memory management units, floating point, the cycle-exact chip set with the drive, disk and blitter DMA, sound mixing, host files and archives, configuration and input,
  and the vendored libraries; the manifest lists each with its reason.
\<close>

end
